(* ===== verification/Prelude.thy ===== *)
theory Prelude
  imports Main
    "HOL-Library.AList"
    "HOL-Library.Char_ord"
    "HOL-Library.List_Lexorder"
    "HOL-Library.Product_Lexorder"
begin

text \<open>
  Shared vocabulary of the development: Python exceptions as values, aware UTC
  timestamps, insertion-ordered dictionaries as association lists, the oldest-first
  batch selection that every retention operation uses, and runs of a stateful
  component over a list of operations with the locale that lifts a one-step invariant
  to whole runs.

  Every stateful operation of the program is a function \<open>store \<Rightarrow> 'a res \<times> store\<close>:
  a raised exception does not undo the mutations made before it, so the state is
  returned on the error branch too.  The process-local stores hold one re-entrant lock
  for the whole body of an operation; an interleaving of threads is therefore a list
  of operations, and a property of all runs is a property of all schedules.
\<close>

section \<open>Exceptions and results\<close>

datatype exn =
    ValueError | OverflowError | LookupError | KeyError | TypeError
  | RuntimeError | AssertionError | OtherError string

type_synonym 'a res = "exn + 'a"

definition check :: "bool \<Rightarrow> exn \<Rightarrow> unit res" where
  "check b e = (if b then Inr () else Inl e)"

definition and_then :: "'a res \<Rightarrow> ('a \<Rightarrow> 'b res) \<Rightarrow> 'b res" where
  "and_then r f = (case r of Inl e \<Rightarrow> Inl e | Inr x \<Rightarrow> f x)"

lemma and_then_simps [simp]:
  "and_then (Inl e) f = Inl e"
  "and_then (Inr x) f = f x"
  by (simp_all add: and_then_def)

lemma and_then_eq_Inr: "and_then r f = Inr y \<longleftrightarrow> (\<exists>x. r = Inr x \<and> f x = Inr y)"
  by (cases r) simp_all

lemma check_eq_Inr [simp]: "check b e = Inr u \<longleftrightarrow> b"
  by (simp add: check_def)

lemma check_eq_Inl [simp]: "check b e = Inl e' \<longleftrightarrow> \<not> b \<and> e' = e"
  by (auto simp: check_def)

section \<open>Time\<close>

text \<open>
  A \<open>datetime\<close> is its wall clock in microseconds since year 1 and the result of
  \<open>utcoffset()\<close> (\<^const>\<open>None\<close> for a naive value).  After the UTC guard of an
  operation the value is the instant itself; a \<open>timedelta\<close> is a number of
  microseconds.
\<close>

type_synonym instant = int
type_synonym timedelta = int

record datetime =
  dt_micros :: int
  dt_offset :: "int option"

definition dt_max :: instant where
  "dt_max = 315537897599999999"

definition require_aware_utc :: "datetime \<Rightarrow> instant res" where
  "require_aware_utc v = (if dt_offset v = Some 0 then Inr (dt_micros v) else Inl ValueError)"

definition utc_datetime :: "instant \<Rightarrow> datetime" where
  "utc_datetime t = \<lparr>dt_micros = t, dt_offset = Some 0\<rparr>"

definition dt_plus :: "instant \<Rightarrow> timedelta \<Rightarrow> instant res" where
  "dt_plus t d = (if 0 \<le> t + d \<and> t + d \<le> dt_max then Inr (t + d) else Inl OverflowError)"

text \<open>\<open>datetime + timedelta\<close> keeps the time zone.\<close>

definition dt_shift :: "datetime \<Rightarrow> timedelta \<Rightarrow> datetime res" where
  "dt_shift v d = and_then (dt_plus (dt_micros v) d) (\<lambda>u. Inr (v\<lparr>dt_micros := u\<rparr>))"

definition seconds :: "int \<Rightarrow> timedelta" where
  "seconds n = n * 1000000"

lemma require_aware_utc_datetime [simp]: "require_aware_utc (utc_datetime t) = Inr t"
  by (simp add: require_aware_utc_def utc_datetime_def)

lemma dt_plus_Inr_iff: "dt_plus t d = Inr u \<longleftrightarrow> u = t + d \<and> 0 \<le> u \<and> u \<le> dt_max"
  by (auto simp: dt_plus_def)

lemma dt_plus_in_range: "0 \<le> t + d \<Longrightarrow> t + d \<le> dt_max \<Longrightarrow> dt_plus t d = Inr (t + d)"
  by (simp add: dt_plus_def)

lemma require_aware_utc_shift:
  "require_aware_utc now = Inr t \<Longrightarrow> dt_shift now d = Inr now' \<Longrightarrow> require_aware_utc now' = Inr (t + d)"
  by (auto simp: require_aware_utc_def dt_shift_def and_then_eq_Inr dt_plus_Inr_iff split: if_splits)

lemma dt_shift_in_range:
  "require_aware_utc now = Inr t \<Longrightarrow> 0 \<le> t + d \<Longrightarrow> t + d \<le> dt_max \<Longrightarrow> dt_shift now d = Inr (now\<lparr>dt_micros := t + d\<rparr>)"
  by (auto simp: require_aware_utc_def dt_shift_def dt_plus_def split: if_splits)

section \<open>Dictionaries\<close>

text \<open>
  A Python dictionary keeps insertion order: storing at a present key keeps its place,
  a new key goes last.  \<open>AList.update\<close> does exactly this.
\<close>

type_synonym ('k, 'v) dict = "('k \<times> 'v) list"

abbreviation dict_get :: "('k, 'v) dict \<Rightarrow> 'k \<Rightarrow> 'v option" where
  "dict_get d k \<equiv> map_of d k"

abbreviation dict_set :: "'k \<Rightarrow> 'v \<Rightarrow> ('k, 'v) dict \<Rightarrow> ('k, 'v) dict" where
  "dict_set \<equiv> AList.update"

abbreviation dict_pop :: "'k \<Rightarrow> ('k, 'v) dict \<Rightarrow> ('k, 'v) dict" where
  "dict_pop \<equiv> AList.delete"

abbreviation dict_keys :: "('k, 'v) dict \<Rightarrow> 'k list" where
  "dict_keys d \<equiv> map fst d"

abbreviation dict_ok :: "('k, 'v) dict \<Rightarrow> bool" where
  "dict_ok d \<equiv> distinct (map fst d)"

definition move_to_end :: "'k \<Rightarrow> ('k, 'v) dict \<Rightarrow> ('k, 'v) dict" where
  "move_to_end k d = (case map_of d k of None \<Rightarrow> d | Some v \<Rightarrow> AList.delete k d @ [(k, v)])"

definition pop_all :: "'k list \<Rightarrow> ('k, 'v) dict \<Rightarrow> ('k, 'v) dict" where
  "pop_all ks d = fold AList.delete ks d"

named_theorems dict_simps

declare map_of_eq_Some_iff [simp del] Some_eq_map_of_iff [simp del]

lemma dict_get_set [dict_simps]:
  "map_of (AList.update k v d) k' = (if k' = k then Some v else map_of d k')"
  by (simp add: update_conv')

lemma dict_get_pop [dict_simps]:
  "map_of (AList.delete k d) k' = (if k' = k then None else map_of d k')"
  by (simp add: delete_conv')

lemma dict_ok_set [simp, intro]: "dict_ok d \<Longrightarrow> dict_ok (AList.update k v d)"
  by (rule distinct_update)

lemma dict_ok_pop [simp, intro]: "dict_ok d \<Longrightarrow> dict_ok (AList.delete k d)"
  by (rule distinct_delete)

lemma dict_set_new: "map_of d k = None \<Longrightarrow> AList.update k v d = d @ [(k, v)]"
  by (induction d) (auto split: if_splits)

lemma length_dict_set [dict_simps]:
  "length (AList.update k v d) = (if map_of d k = None then Suc (length d) else length d)"
  by (induction d) auto

lemma length_dict_pop_le: "length (AList.delete k d) \<le> length d"
  by (rule length_delete_le)

lemma length_dict_pop:
  "dict_ok d \<Longrightarrow> map_of d k = Some v \<Longrightarrow> Suc (length (AList.delete k d)) = length d"
proof (induction d)
  case Nil
  then show ?case by simp
next
  case (Cons p d)
  show ?case
  proof (cases "fst p = k")
    case True
    with Cons.prems(1) have "k \<notin> fst ` set d" by (auto simp: image_image)
    with True show ?thesis by (cases p) simp
  next
    case False
    with Cons show ?thesis by (cases p) auto
  qed
qed

lemma dict_get_in_set: "map_of d k = Some v \<Longrightarrow> (k, v) \<in> set d"
  by (rule map_of_SomeD)

lemma dict_get_iff: "dict_ok d \<Longrightarrow> map_of d k = Some v \<longleftrightarrow> (k, v) \<in> set d"
  by (rule map_of_eq_Some_iff)

lemma set_dict_set:
  "dict_ok d \<Longrightarrow> set (AList.update k v d) = {(k, v)} \<union> {p \<in> set d. fst p \<noteq> k}"
  by (induction d) (auto simp: image_iff)

lemma set_dict_pop: "set (AList.delete k d) = {p \<in> set d. fst p \<noteq> k}"
  by (auto simp: AList.delete_eq)

lemma dict_pop_filter: "AList.delete k d = filter (\<lambda>p. fst p \<noteq> k) d"
  by (auto simp: AList.delete_eq split_def intro: filter_cong)

lemma move_to_end_get [dict_simps]: "map_of (move_to_end k d) = map_of d"
  by (auto simp: move_to_end_def fun_eq_iff map_add_def delete_conv' split: option.splits)

lemma move_to_end_ok [simp, intro]: "dict_ok d \<Longrightarrow> dict_ok (move_to_end k d)"
  by (auto simp: move_to_end_def delete_notin_dom distinct_delete split: option.splits)

lemma length_move_to_end [simp]: "dict_ok d \<Longrightarrow> length (move_to_end k d) = length d"
  by (auto simp: move_to_end_def length_dict_pop split: option.splits)

lemma set_move_to_end [simp]: "dict_ok d \<Longrightarrow> set (move_to_end k d) = set d"
  by (auto simp: move_to_end_def set_dict_pop dict_get_iff eq_key_imp_eq_value split: option.splits)

lemma pop_all_filter: "pop_all ks d = filter (\<lambda>p. fst p \<notin> set ks) d"
  unfolding pop_all_def
  by (induction ks arbitrary: d) (auto simp: dict_pop_filter intro: filter_cong)

lemma pop_all_get [dict_simps]:
  "map_of (pop_all ks d) k = (if k \<in> set ks then None else map_of d k)"
proof -
  have "map_of (filter (\<lambda>p. fst p \<notin> set ks) d) k = (if k \<in> set ks then None else map_of d k)"
    by (induction d) auto
  then show ?thesis by (simp add: pop_all_filter)
qed

lemma pop_all_ok [simp, intro]: "dict_ok d \<Longrightarrow> dict_ok (pop_all ks d)"
  by (simp add: pop_all_filter distinct_map_filter)

lemma length_pop_all_le: "length (pop_all ks d) \<le> length d"
  by (simp add: pop_all_filter)

lemma pop_all_bounded [simp]: "int (length d) \<le> c \<Longrightarrow> int (length (pop_all ks d)) \<le> c"
  using length_pop_all_le [of ks d] by simp

lemma dict_pop_bounded [simp]: "int (length d) \<le> c \<Longrightarrow> int (length (AList.delete k d)) \<le> c"
  using length_dict_pop_le [of k d] by simp

lemma pop_selected_keeps:
  assumes "dict_ok d" and "set sel \<subseteq> set d" and "map_of d k = Some v" and "(k, v) \<notin> set sel"
  shows "map_of (pop_all (map fst sel) d) k = Some v"
proof -
  have "k \<notin> fst ` set sel"
  proof
    assume "k \<in> fst ` set sel"
    then obtain v' where v': "(k, v') \<in> set sel" by auto
    with assms(1,2) have "map_of d k = Some v'" by (auto simp: dict_get_iff)
    with v' assms(3,4) show False by simp
  qed
  with assms(3) show ?thesis by (simp add: pop_all_get)
qed

lemma fold_set_other:
  "k' \<notin> key ` set xs \<Longrightarrow> dict_get (fold (\<lambda>x. dict_set (key x) (val x)) xs d) k' = dict_get d k'"
  by (induction xs arbitrary: d) (auto simp: dict_simps)

lemma fold_set_get:
  assumes "distinct (map key xs)" and "x \<in> set xs"
  shows "dict_get (fold (\<lambda>x. dict_set (key x) (val x)) xs d) (key x) = Some (val x)"
  using assms
proof (induction xs arbitrary: d)
  case (Cons y xs)
  then show ?case
    by (cases "x = y") (auto simp: fold_set_other dict_simps)
qed simp

lemma fold_set_ok: "dict_ok d \<Longrightarrow> dict_ok (fold (\<lambda>x. dict_set (key x) (val x)) xs d)"
  by (induction xs arbitrary: d) (simp_all add: dict_ok_set)

lemma fold_set_length: "length (fold (\<lambda>x. dict_set (key x) (val x)) xs d) \<le> length d + length xs"
proof (induction xs arbitrary: d)
  case (Cons x xs)
  have "length (dict_set (key x) (val x) d) \<le> Suc (length d)" by (simp add: dict_simps)
  with Cons.IH [of "dict_set (key x) (val x) d"] show ?case by simp
qed simp

section \<open>Oldest-first batches\<close>

text \<open>
  \<open>sorted((... for item in items if P(item)), key=...)[:n]\<close>, the selection of every
  purge and archive operation; Python's sort is stable, and so is \<^const>\<open>sort_key\<close>.
\<close>

definition select_batch :: "('a \<Rightarrow> bool) \<Rightarrow> ('a \<Rightarrow> 'k::linorder) \<Rightarrow> int \<Rightarrow> 'a list \<Rightarrow> 'a list" where
  "select_batch P key n xs = take (nat n) (sort_key key (filter P xs))"

lemma select_batch_subset: "x \<in> set (select_batch P key n xs) \<Longrightarrow> x \<in> set xs \<and> P x"
  by (auto simp: select_batch_def dest: in_set_takeD)

lemma length_select_batch: "length (select_batch P key n xs) = min (nat n) (length (filter P xs))"
  by (auto simp: select_batch_def)

lemma sorted_take_le:
  assumes "sorted (map key ys)" "x \<in> set (take n ys)" "y \<in> set (drop n ys)"
  shows "key x \<le> key y"
proof -
  have "sorted (map key (take n ys) @ map key (drop n ys))"
    using assms(1) by (simp flip: map_append)
  with assms(2,3) show ?thesis by (auto simp: sorted_append)
qed

lemma select_batch_oldest:
  assumes "x \<in> set (select_batch P key n xs)" and "y \<in> set xs" and "P y"
    and "y \<notin> set (select_batch P key n xs)"
  shows "key x \<le> key y"
proof -
  let ?ys = "sort_key key (filter P xs)"
  have "y \<in> set ?ys" using assms(2,3) by simp
  then have "y \<in> set (take (nat n) ?ys @ drop (nat n) ?ys)" by simp
  with assms(4) have "y \<in> set (drop (nat n) ?ys)"
    unfolding select_batch_def set_append by blast
  with assms(1) show ?thesis
    unfolding select_batch_def by (rule sorted_take_le [OF sorted_sort_key])
qed

lemma distinct_select_batch: "distinct xs \<Longrightarrow> distinct (select_batch P key n xs)"
  by (simp add: select_batch_def)

section \<open>Numbering\<close>

text \<open>The numbers 1, 2, 3, ... in order.\<close>

definition consecutive :: "int list \<Rightarrow> bool" where
  "consecutive xs \<longleftrightarrow> (\<forall>i<length xs. xs ! i = int i + 1)"

lemma consecutive_Nil [simp]: "consecutive []"
  by (simp add: consecutive_def)

lemma consecutive_append:
  assumes "consecutive xs" and "\<And>i. i < length ys \<Longrightarrow> ys ! i = int (length xs) + 1 + int i"
  shows "consecutive (xs @ ys)"
  using assms by (auto simp: consecutive_def nth_append)

section \<open>Programs over a store\<close>

text \<open>
  Clients of a store (coordinators, dispatchers, conformance harnesses) are sequences of
  calls; an exception ends the sequence and leaves the store as the calls before it
  left it.
\<close>

type_synonym ('s, 'a) act = "'s \<Rightarrow> 'a res \<times> 's"

definition sreturn :: "'a \<Rightarrow> ('s, 'a) act" where
  "sreturn x s = (Inr x, s)"

definition sraise :: "exn \<Rightarrow> ('s, 'a) act" where
  "sraise e s = (Inl e, s)"

definition sbind :: "('s, 'a) act \<Rightarrow> ('a \<Rightarrow> ('s, 'b) act) \<Rightarrow> ('s, 'b) act" where
  "sbind m f s = (case m s of (Inl e, s') \<Rightarrow> (Inl e, s') | (Inr x, s') \<Rightarrow> f x s')"

definition sassert :: "bool \<Rightarrow> ('s, unit) act" where
  "sassert b s = (if b then Inr () else Inl AssertionError, s)"

definition slift :: "'a res \<Rightarrow> ('s, 'a) act" where
  "slift r s = (r, s)"

lemma act_simps [simp]:
  "sreturn x s = (Inr x, s)"
  "sraise e s = (Inl e, s)"
  "slift r s = (r, s)"
  by (simp_all add: sreturn_def sraise_def slift_def)

lemma sbind_simps:
  "m s = (Inr x, s') \<Longrightarrow> sbind m f s = f x s'"
  "m s = (Inl e, s') \<Longrightarrow> sbind m f s = (Inl e, s')"
  by (simp_all add: sbind_def)

lemma sbind_assert: "b \<Longrightarrow> sbind (sassert b) f s = f () s"
  by (simp add: sbind_def sassert_def)

section \<open>Runs and their invariants\<close>

text \<open>
  \<open>step op s\<close> performs one operation; \<^term>\<open>run step ops s\<close> performs a list of them and
  collects the results.  \<open>guarded\<close> says that each operation satisfies a side condition
  in the state where it is performed (a drawn UUID is not in use, a clock reading lies
  before an expiry).
\<close>

fun run :: "('op \<Rightarrow> 's \<Rightarrow> 'r \<times> 's) \<Rightarrow> 'op list \<Rightarrow> 's \<Rightarrow> 'r list \<times> 's" where
  "run step [] s = ([], s)"
| "run step (x # xs) s =
     (let (r, s') = step x s; (rs, s'') = run step xs s' in (r # rs, s''))"

fun guarded :: "('op \<Rightarrow> 's \<Rightarrow> bool) \<Rightarrow> ('op \<Rightarrow> 's \<Rightarrow> 'r \<times> 's) \<Rightarrow> 'op list \<Rightarrow> 's \<Rightarrow> bool" where
  "guarded g step [] s = True"
| "guarded g step (x # xs) s = (g x s \<and> guarded g step xs (snd (step x s)))"

lemma run_Cons [simp]:
  "fst (run step (x # xs) s) = fst (step x s) # fst (run step xs (snd (step x s)))"
  "snd (run step (x # xs) s) = snd (run step xs (snd (step x s)))"
  by (simp_all add: split_def Let_def)

lemma run_append:
  "snd (run step (xs @ ys) s) = snd (run step ys (snd (run step xs s)))"
  by (induction xs arbitrary: s) (simp_all del: run.simps(2))

lemma length_run [simp]: "length (fst (run step xs s)) = length xs"
  by (induction xs arbitrary: s) (simp_all del: run.simps(2))

lemma guarded_mono:
  "guarded g step xs s \<Longrightarrow> (\<And>x s. g x s \<Longrightarrow> h x s) \<Longrightarrow> guarded h step xs s"
  by (induction xs arbitrary: s) auto

lemma guarded_conj:
  "guarded (\<lambda>x s. g x s \<and> h x s) step xs s \<longleftrightarrow> guarded g step xs s \<and> guarded h step xs s"
  by (induction xs arbitrary: s) auto

lemma guarded_True [simp]: "guarded (\<lambda>_ _. True) step xs s"
  by (induction xs arbitrary: s) auto

declare run.simps(2) [simp del]

locale guarded_machine =
  fixes step :: "'op \<Rightarrow> 's \<Rightarrow> 'r \<times> 's"
    and inv :: "'s \<Rightarrow> bool"
    and guard :: "'op \<Rightarrow> 's \<Rightarrow> bool"
  assumes inv_step: "inv s \<Longrightarrow> guard x s \<Longrightarrow> inv (snd (step x s))"
begin

lemma run_inv: "inv s \<Longrightarrow> guarded guard step xs s \<Longrightarrow> inv (snd (run step xs s))"
  by (induction xs arbitrary: s) (simp_all add: inv_step)

lemma run_result:
  assumes "\<And>x s. inv s \<Longrightarrow> guard x s \<Longrightarrow> Q x (fst (step x s))"
    and "inv s" and "guarded guard step xs s"
  shows "list_all2 Q xs (fst (run step xs s))"
  using assms(2,3) by (induction xs arbitrary: s) (simp_all add: inv_step assms(1))

lemma run_results:
  assumes "\<And>x s. inv s \<Longrightarrow> guard x s \<Longrightarrow> Q (fst (step x s))" and "inv s" and "guarded guard step xs s"
  shows "\<forall>r\<in>set (fst (run step xs s)). Q r"
  using assms(2,3)
proof (induction xs arbitrary: s)
  case (Cons x xs)
  then have "inv (snd (step x s))" "guarded guard step xs (snd (step x s))" by (simp_all add: inv_step)
  from Cons.IH [OF this] assms(1) Cons.prems show ?case by simp
qed simp

end

section \<open>Compare-and-set stores\<close>

text \<open>
  A call that wins a compare-and-set on a cell reports the value it expected and the value it
  stored.  \<^term>\<open>winners\<close> collects these pairs along a run; they are \<^term>\<open>chained\<close> when each one expected
  what the one before it stored.
\<close>

fun chained :: "'v option \<Rightarrow> ('v option \<times> 'v) list \<Rightarrow> bool" where
  "chained cur [] = True"
| "chained cur ((expected, v) # rest) = (expected = cur \<and> chained (Some v) rest)"

fun winners :: "('op \<Rightarrow> 'r \<Rightarrow> ('v option \<times> 'v) option) \<Rightarrow> 'op list \<Rightarrow> 'r list \<Rightarrow> ('v option \<times> 'v) list" where
  "winners win (x # xs) (r # rs) =
     (case win x r of None \<Rightarrow> winners win xs rs | Some w \<Rightarrow> w # winners win xs rs)"
| "winners win _ _ = []"

definition final_value :: "'v option \<Rightarrow> ('v option \<times> 'v) list \<Rightarrow> 'v option" where
  "final_value cur ws = (if ws = [] then cur else Some (snd (last ws)))"

lemma final_value_simps [simp]:
  "final_value cur [] = cur"
  "final_value cur (w # ws) = final_value (Some (snd w)) ws"
  by (auto simp: final_value_def)

locale cas_machine =
  fixes step :: "'op \<Rightarrow> 's \<Rightarrow> 'r \<times> 's"
    and cell :: "'s \<Rightarrow> 'k \<Rightarrow> 'v option"
    and win :: "'k \<Rightarrow> 'op \<Rightarrow> 'r \<Rightarrow> ('v option \<times> 'v) option"
  assumes wins: "win k x (fst (step x s)) = Some (expected, v) \<Longrightarrow> cell s k = expected \<and> cell (snd (step x s)) k = Some v"
    and loses: "win k x (fst (step x s)) = None \<Longrightarrow> cell (snd (step x s)) k = cell s k"
begin

lemma winners_chained:
  "chained (cell s k) (winners (win k) xs (fst (run step xs s)))
   \<and> cell (snd (run step xs s)) k = final_value (cell s k) (winners (win k) xs (fst (run step xs s)))"
proof (induction xs arbitrary: s)
  case (Cons x xs)
  show ?case
  proof (cases "win k x (fst (step x s))")
    case None
    with Cons.IH [of "snd (step x s)"] loses [OF None] show ?thesis by simp
  next
    case (Some w)
    then obtain expected v where w: "w = (expected, v)" by (cases w)
    with Some wins [of k x s expected v] Cons.IH [of "snd (step x s)"] show ?thesis by simp
  qed
qed simp

end

end
