(* ===== verification/Leases.thy ===== *)
theory Leases
  imports Prelude
begin

text \<open>
  Model of \<open>src/src/pytitect/leases.py\<close>: the process-local lease store with its
  monotonic fencing tokens, the \<open>LeaseStore\<close> protocol as a record of operations, fenced
  commits and the conformance harness.  The locale \<open>lease_store\<close> states what a lease
  store promises; the fencing theorems are proved in it and reach the in-memory store
  through its interpretation.
\<close>

section \<open>Leases and results\<close>

record 'r lease =
  lease_resource :: 'r
  lease_owner :: string
  fencing_token :: int
  lease_expires_at :: instant

record lease_authority =
  la_owner :: string
  la_fencing_token :: int
  la_expires_at :: instant

definition mk_lease :: "'r \<Rightarrow> string \<Rightarrow> int \<Rightarrow> instant \<Rightarrow> 'r lease res" where
  "mk_lease r own tok ex =
     (if own = [] \<or> tok \<le> 0 then Inl ValueError
      else Inr \<lparr>lease_resource = r, lease_owner = own, fencing_token = tok, lease_expires_at = ex\<rparr>)"

definition mk_lease_authority :: "string \<Rightarrow> int \<Rightarrow> datetime \<Rightarrow> lease_authority res" where
  "mk_lease_authority own tok ex =
     and_then (require_aware_utc ex) (\<lambda>t.
       if own = [] \<or> tok \<le> 0 then Inl ValueError
       else Inr \<lparr>la_owner = own, la_fencing_token = tok, la_expires_at = t\<rparr>)"

datatype 'r acquire_result = LeaseAcquired "'r lease" | LeaseBusy string instant
datatype 'r renew_result = LeaseRenewed "'r lease" | RenewStale string
datatype release_result = LeaseReleased | ReleaseStale string
datatype 'x fenced_result = FencedCommitted 'x | FencedStale string

definition stale_lease_reason :: string where
  "stale_lease_reason = ''lease is absent, expired, or no longer owned by this token''"

text \<open>The \<open>LeaseStore\<close> protocol.\<close>

record ('r, 's) lease_port =
  acquire_op :: "'r \<Rightarrow> string \<Rightarrow> datetime \<Rightarrow> timedelta \<Rightarrow> ('s, 'r acquire_result) act"
  renew_op :: "'r lease \<Rightarrow> datetime \<Rightarrow> timedelta \<Rightarrow> ('s, 'r renew_result) act"
  release_op :: "'r lease \<Rightarrow> datetime \<Rightarrow> ('s, release_result) act"
  authority_op :: "'r \<Rightarrow> ('s, int option) act"

section \<open>The in-memory store\<close>

record 'r mem_lease_store =
  lss_capacity :: int
  lss_leases :: "('r, 'r lease) dict"
  lss_tokens :: "('r, int) dict"

definition InMemoryLeaseStore :: "int \<Rightarrow> 'r mem_lease_store res" where
  "InMemoryLeaseStore capacity =
     (if capacity \<le> 0 then Inl ValueError
      else Inr \<lparr>lss_capacity = capacity, lss_leases = [], lss_tokens = []\<rparr>)"

definition acquire_free ::
    "'r \<Rightarrow> string \<Rightarrow> instant \<Rightarrow> timedelta \<Rightarrow> ('r mem_lease_store, 'r acquire_result) act" where
  "acquire_free r own now ttl s =
     (if dict_get (lss_tokens s) r = None \<and> lss_capacity s \<le> int (length (lss_tokens s))
      then (Inl OverflowError, s)
      else
        let token = (case dict_get (lss_tokens s) r of None \<Rightarrow> 0 | Some n \<Rightarrow> n) + 1 in
        case and_then (dt_plus now ttl) (\<lambda>ex. mk_lease r own token ex) of
          Inl e \<Rightarrow> (Inl e, s)
        | Inr l \<Rightarrow> (Inr (LeaseAcquired l),
            s\<lparr>lss_tokens := dict_set r token (lss_tokens s),
              lss_leases := dict_set r l (lss_leases s)\<rparr>))"

definition acquire ::
    "'r \<Rightarrow> string \<Rightarrow> datetime \<Rightarrow> timedelta \<Rightarrow> ('r mem_lease_store, 'r acquire_result) act" where
  "acquire r own now ttl s =
     (case require_aware_utc now of
        Inl e \<Rightarrow> (Inl e, s)
      | Inr t \<Rightarrow>
          if own = [] \<or> ttl \<le> 0 then (Inl ValueError, s)
          else
            case dict_get (lss_leases s) r of
              Some cur \<Rightarrow>
                if t < lease_expires_at cur
                then (Inr (LeaseBusy (lease_owner cur) (lease_expires_at cur)), s)
                else acquire_free r own t ttl s
            | None \<Rightarrow> acquire_free r own t ttl s)"

definition renew ::
    "'r lease \<Rightarrow> datetime \<Rightarrow> timedelta \<Rightarrow> ('r mem_lease_store, 'r renew_result) act" where
  "renew l now ttl s =
     (case require_aware_utc now of
        Inl e \<Rightarrow> (Inl e, s)
      | Inr t \<Rightarrow>
          if ttl \<le> 0 then (Inl ValueError, s)
          else if dict_get (lss_leases s) (lease_resource l) \<noteq> Some l \<or> lease_expires_at l \<le> t
          then (Inr (RenewStale stale_lease_reason), s)
          else
            case and_then (dt_plus t ttl)
                (\<lambda>ex. mk_lease (lease_resource l) (lease_owner l) (fencing_token l) ex) of
              Inl e \<Rightarrow> (Inl e, s)
            | Inr l' \<Rightarrow> (Inr (LeaseRenewed l'),
                s\<lparr>lss_leases := dict_set (lease_resource l) l' (lss_leases s)\<rparr>))"

definition release :: "'r lease \<Rightarrow> datetime \<Rightarrow> ('r mem_lease_store, release_result) act" where
  "release l now s =
     (case require_aware_utc now of
        Inl e \<Rightarrow> (Inl e, s)
      | Inr t \<Rightarrow>
          if dict_get (lss_leases s) (lease_resource l) \<noteq> Some l \<or> lease_expires_at l \<le> t
          then (Inr (ReleaseStale stale_lease_reason), s)
          else (Inr LeaseReleased, s\<lparr>lss_leases := dict_pop (lease_resource l) (lss_leases s)\<rparr>))"

definition authority :: "'r \<Rightarrow> ('r mem_lease_store, int option) act" where
  "authority r s = (Inr (map_option fencing_token (dict_get (lss_leases s) r)), s)"

definition current :: "'r \<Rightarrow> 'r mem_lease_store \<Rightarrow> 'r lease option" where
  "current r s = dict_get (lss_leases s) r"

definition mem_lease_port :: "('r, 'r mem_lease_store) lease_port" where
  "mem_lease_port = \<lparr>acquire_op = acquire, renew_op = renew, release_op = release,
                     authority_op = authority\<rparr>"

section \<open>Fenced commits\<close>

text \<open>
  \<open>locked_authority\<close> is consumer code: it reads the authority of a resource under the
  consumer's lock and runs the comparison with it.  \<open>clock\<close> and \<open>mutation\<close> act on the
  consumer's world.
\<close>

definition commit ::
    "('r \<Rightarrow> (lease_authority option \<Rightarrow> ('w, 'x fenced_result) act) \<Rightarrow> ('w, 'x fenced_result) act)
     \<Rightarrow> ('w \<Rightarrow> instant) \<Rightarrow> 'r lease \<Rightarrow> ('w, 'x) act \<Rightarrow> ('w, 'x fenced_result) act" where
  "commit locked_authority clock l mutation =
     locked_authority (lease_resource l) (\<lambda>auth w.
       case auth of
         None \<Rightarrow> (Inr (FencedStale ''lease is expired or no longer authoritative''), w)
       | Some a \<Rightarrow>
           if la_fencing_token a \<noteq> fencing_token l \<or> la_owner a \<noteq> lease_owner l
             \<or> la_expires_at a \<le> clock w
           then (Inr (FencedStale ''lease is expired or no longer authoritative''), w)
           else sbind mutation (\<lambda>v. sreturn (FencedCommitted v)) w)"

definition authority_of :: "'r lease \<Rightarrow> lease_authority" where
  "authority_of l = \<lparr>la_owner = lease_owner l, la_fencing_token = fencing_token l,
                     la_expires_at = lease_expires_at l\<rparr>"

section \<open>The conformance harness\<close>

definition lease_exercise :: "(string, 's) lease_port \<Rightarrow> instant \<Rightarrow> ('s, unit) act" where
  "lease_exercise port now =
     (let ttl = seconds 60; renewed_at = now + seconds 1; at = utc_datetime in
      sbind (acquire_op port ''resource'' ''one'' (at now) ttl) (\<lambda>first.
        case first of
          LeaseBusy _ _ \<Rightarrow> sraise AssertionError
        | LeaseAcquired l1 \<Rightarrow>
      sbind (sassert (fencing_token l1 = 1)) (\<lambda>_.
      sbind (acquire_op port ''resource'' ''two'' (at now) ttl) (\<lambda>second.
      sbind (sassert (case second of LeaseBusy _ _ \<Rightarrow> True | _ \<Rightarrow> False)) (\<lambda>_.
      sbind (renew_op port l1 (at renewed_at) ttl) (\<lambda>renewed.
        case renewed of
          RenewStale _ \<Rightarrow> sraise AssertionError
        | LeaseRenewed l2 \<Rightarrow>
      sbind (release_op port l1 (at renewed_at)) (\<lambda>stale.
      sbind (sassert (case stale of ReleaseStale _ \<Rightarrow> True | _ \<Rightarrow> False)) (\<lambda>_.
      sbind (release_op port l2 (at renewed_at)) (\<lambda>rel.
      sbind (sassert (rel = LeaseReleased)) (\<lambda>_.
      sbind (authority_op port ''resource'') (\<lambda>auth.
      sbind (sassert (auth = None)) (\<lambda>_.
      sbind (acquire_op port ''resource'' ''two'' (at renewed_at) ttl) (\<lambda>takeover.
      sassert (case takeover of LeaseAcquired l3 \<Rightarrow> fencing_token l2 < fencing_token l3
                | _ \<Rightarrow> False))))))))))))))"

section \<open>Steps and runs\<close>

datatype 'r lease_call =
    Acquire 'r string datetime timedelta
  | Renew "'r lease" datetime timedelta
  | Release "'r lease" datetime

datatype 'r lease_reply =
    AcquireReply "'r acquire_result res"
  | RenewReply "'r renew_result res"
  | ReleaseReply "release_result res"

fun lease_step :: "('r, 's) lease_port \<Rightarrow> 'r lease_call \<Rightarrow> 's \<Rightarrow> 'r lease_reply \<times> 's" where
  "lease_step port (Acquire r own now ttl) s = apfst AcquireReply (acquire_op port r own now ttl s)"
| "lease_step port (Renew l now ttl) s = apfst RenewReply (renew_op port l now ttl s)"
| "lease_step port (Release l now) s = apfst ReleaseReply (release_op port l now s)"

text \<open>The fencing tokens granted for one resource, in the order they were granted.\<close>

fun granted :: "'r \<Rightarrow> 'r lease_reply list \<Rightarrow> int list" where
  "granted r [] = []"
| "granted r (AcquireReply (Inr (LeaseAcquired l)) # rs) =
     (if lease_resource l = r then fencing_token l # granted r rs else granted r rs)"
| "granted r (x # rs) = granted r rs"

lemma granted_member:
  "AcquireReply (Inr (LeaseAcquired l)) \<in> set rs \<Longrightarrow> lease_resource l = r \<Longrightarrow>
     fencing_token l \<in> set (granted r rs)"
  by (induction r rs rule: granted.induct) auto

section \<open>What a lease store promises\<close>

locale lease_store =
  fixes port :: "('r, 's) lease_port"
    and inv :: "'s \<Rightarrow> bool"
    and high :: "'s \<Rightarrow> 'r \<Rightarrow> int"
    and holder :: "'s \<Rightarrow> 'r \<Rightarrow> 'r lease option"
  assumes inv_acquire: "inv s \<Longrightarrow> inv (snd (acquire_op port r own now ttl s))"
    and inv_renew: "inv s \<Longrightarrow> inv (snd (renew_op port l now ttl s))"
    and inv_release: "inv s \<Longrightarrow> inv (snd (release_op port l now s))"
    and holder_high: "inv s \<Longrightarrow> holder s r = Some l \<Longrightarrow>
          lease_resource l = r \<and> fencing_token l = high s r"
    and acquired: "inv s \<Longrightarrow> acquire_op port r own now ttl s = (Inr (LeaseAcquired l), s') \<Longrightarrow>
          lease_resource l = r \<and> lease_owner l = own \<and> fencing_token l = high s r + 1
          \<and> high s' = (high s)(r := fencing_token l) \<and> holder s' = (holder s)(r \<mapsto> l)
          \<and> (\<forall>l0 t. holder s r = Some l0 \<longrightarrow> require_aware_utc now = Inr t \<longrightarrow> lease_expires_at l0 \<le> t)"
    and not_acquired: "inv s \<Longrightarrow> acquire_op port r own now ttl s = (x, s') \<Longrightarrow>
          (\<nexists>l. x = Inr (LeaseAcquired l)) \<Longrightarrow> s' = s"
    and renewed: "inv s \<Longrightarrow> renew_op port l now ttl s = (Inr (LeaseRenewed l'), s') \<Longrightarrow>
          holder s (lease_resource l) = Some l \<and> fencing_token l' = fencing_token l
          \<and> high s' = high s \<and> holder s' = (holder s)(lease_resource l \<mapsto> l')"
    and not_renewed: "inv s \<Longrightarrow> renew_op port l now ttl s = (y, s') \<Longrightarrow>
          (\<nexists>l. y = Inr (LeaseRenewed l)) \<Longrightarrow> s' = s"
    and released: "inv s \<Longrightarrow> release_op port l now s = (z, s') \<Longrightarrow> high s' = high s"
begin

lemma inv_step: "inv s \<Longrightarrow> inv (snd (lease_step port c s))"
  by (cases c) (simp_all add: inv_acquire inv_renew inv_release)

lemma high_step:
  assumes "inv s"
  shows "high s r \<le> high (snd (lease_step port c s)) r"
proof (cases c)
  case (Acquire r' own now ttl)
  obtain x s' where a: "acquire_op port r' own now ttl s = (x, s')" by fastforce
  show ?thesis
  proof (cases "\<exists>l. x = Inr (LeaseAcquired l)")
    case True
    then obtain l where "x = Inr (LeaseAcquired l)" ..
    with a Acquire show ?thesis by (auto dest!: acquired [OF assms])
  next
    case False
    with not_acquired [OF assms a] a Acquire show ?thesis by auto
  qed
next
  case (Renew l now ttl)
  obtain x s' where a: "renew_op port l now ttl s = (x, s')" by fastforce
  show ?thesis
  proof (cases "\<exists>l'. x = Inr (LeaseRenewed l')")
    case True
    then obtain l' where "x = Inr (LeaseRenewed l')" ..
    with a Renew show ?thesis by (auto dest!: renewed [OF assms])
  next
    case False
    with not_renewed [OF assms a] a Renew show ?thesis by auto
  qed
next
  case (Release l now)
  obtain x s' where a: "release_op port l now s = (x, s')" by fastforce
  with released [OF assms a] Release show ?thesis by auto
qed

lemma high_run: "inv s \<Longrightarrow> high s r \<le> high (snd (run (lease_step port) cs s)) r"
proof (induction cs arbitrary: s)
  case (Cons c cs)
  have "high s r \<le> high (snd (lease_step port c s)) r" by (rule high_step [OF Cons.prems])
  also have "\<dots> \<le> high (snd (run (lease_step port) cs (snd (lease_step port c s)))) r"
    by (rule Cons.IH [OF inv_step [OF Cons.prems]])
  finally show ?case by simp
qed simp

lemma inv_run: "inv s \<Longrightarrow> inv (snd (run (lease_step port) cs s))"
  by (induction cs arbitrary: s) (simp_all add: inv_step)

lemma granted_step:
  assumes "inv s" and "granted r [fst (lease_step port c s)] = [n]"
  shows "n = high s r + 1 \<and> high (snd (lease_step port c s)) r = n"
proof -
  from assms(2) obtain r' own now ttl where c: "c = Acquire r' own now ttl"
    by (cases c) auto
  obtain x s' where a: "acquire_op port r' own now ttl s = (x, s')" by fastforce
  with assms(2) c obtain l where "x = Inr (LeaseAcquired l)" "lease_resource l = r" "fencing_token l = n"
    by (cases x; cases "projr x") (auto split: if_splits)
  with a c show ?thesis by (auto dest!: acquired [OF assms(1)])
qed

lemma granted_Cons:
  "granted r (x # xs) = granted r [x] @ granted r xs"
  by (rule granted.cases [of "(r, [x])"]) auto

lemma granted_single: "granted r [x] = [] \<or> (\<exists>n. granted r [x] = [n])"
  by (rule granted.cases [of "(r, [x])"]) auto

lemma granted_increasing:
  assumes "inv s"
  shows "sorted_wrt (<) (granted r (fst (run (lease_step port) cs s)))
    \<and> (\<forall>n\<in>set (granted r (fst (run (lease_step port) cs s))).
          high s r < n \<and> n \<le> high (snd (run (lease_step port) cs s)) r)"
  using assms
proof (induction cs arbitrary: s)
  case Nil
  then show ?case by simp
next
  case (Cons c cs)
  let ?s = "snd (lease_step port c s)"
  have inv: "inv ?s" by (rule inv_step [OF Cons.prems])
  note IH = Cons.IH [OF inv]
  have mono: "high s r \<le> high ?s r" by (rule high_step [OF Cons.prems])
  have split: "granted r (fst (run (lease_step port) (c # cs) s)) =
      granted r [fst (lease_step port c s)] @ granted r (fst (run (lease_step port) cs ?s))"
    by (simp only: run_Cons granted_Cons [symmetric])
  from granted_single [of r "fst (lease_step port c s)"] show ?case
  proof
    assume none: "granted r [fst (lease_step port c s)] = []"
    show ?thesis unfolding split none using IH mono by auto
  next
    assume "\<exists>n. granted r [fst (lease_step port c s)] = [n]"
    then obtain n where n: "granted r [fst (lease_step port c s)] = [n]" ..
    from granted_step [OF Cons.prems n] have "n = high s r + 1" "high ?s r = n" by auto
    with IH high_run [OF inv, of r cs] show ?thesis unfolding split n by auto
  qed
qed

lemma superseded_not_holder:
  assumes inv: "inv s" and late: "fencing_token l < high s (lease_resource l)"
    and holds: "holder (snd (run (lease_step port) cs s)) (lease_resource l) = Some l'"
  shows "fencing_token l < fencing_token l'"
proof -
  have "fencing_token l' = high (snd (run (lease_step port) cs s)) (lease_resource l)"
    using holder_high [OF inv_run [OF inv] holds] by simp
  with late high_run [OF inv, of "lease_resource l" cs] show ?thesis by simp
qed

end

section \<open>The in-memory store keeps the promises\<close>

definition lease_entry_ok :: "('r, int) dict \<Rightarrow> 'r \<Rightarrow> 'r lease \<Rightarrow> bool" where
  "lease_entry_ok tokens r l \<longleftrightarrow>
     lease_resource l = r \<and> lease_owner l \<noteq> [] \<and> dict_get tokens r = Some (fencing_token l)"

definition lease_inv :: "'r mem_lease_store \<Rightarrow> bool" where
  "lease_inv s \<longleftrightarrow> 0 < lss_capacity s \<and> dict_ok (lss_leases s) \<and> dict_ok (lss_tokens s)
     \<and> int (length (lss_tokens s)) \<le> lss_capacity s
     \<and> (\<forall>r n. dict_get (lss_tokens s) r = Some n \<longrightarrow> 0 < n)
     \<and> (\<forall>r l. dict_get (lss_leases s) r = Some l \<longrightarrow> lease_entry_ok (lss_tokens s) r l)"

definition mem_high :: "'r mem_lease_store \<Rightarrow> 'r \<Rightarrow> int" where
  "mem_high s r = (case dict_get (lss_tokens s) r of None \<Rightarrow> 0 | Some n \<Rightarrow> n)"

lemma mk_lease_Inr:
  "mk_lease r own tok ex = Inr l \<longleftrightarrow> own \<noteq> [] \<and> 0 < tok \<and>
     l = \<lparr>lease_resource = r, lease_owner = own, fencing_token = tok, lease_expires_at = ex\<rparr>"
  by (auto simp: mk_lease_def)

lemma acquire_cases:
  assumes "acquire r own now ttl s = (x, s')"
  obtains (unchanged) "s' = s" "\<nexists>l. x = Inr (LeaseAcquired l)"
  | (granted) t ex where "require_aware_utc now = Inr t" "own \<noteq> []" "ex = t + ttl"
      "\<forall>l0. dict_get (lss_leases s) r = Some l0 \<longrightarrow> lease_expires_at l0 \<le> t"
      "dict_get (lss_tokens s) r = None \<Longrightarrow> int (length (lss_tokens s)) < lss_capacity s"
      "x = Inr (LeaseAcquired \<lparr>lease_resource = r, lease_owner = own,
             fencing_token = mem_high s r + 1, lease_expires_at = ex\<rparr>)"
      "s' = s\<lparr>lss_tokens := dict_set r (mem_high s r + 1) (lss_tokens s),
              lss_leases := dict_set r \<lparr>lease_resource = r, lease_owner = own,
                fencing_token = mem_high s r + 1, lease_expires_at = ex\<rparr> (lss_leases s)\<rparr>"
proof (cases "\<exists>l. x = Inr (LeaseAcquired l)")
  case False
  have "s' = s"
    using assms False
    by (auto simp: acquire_def acquire_free_def Let_def split: sum.splits option.splits if_splits)
  with False show thesis by (rule unchanged [rotated])
next
  case True
  then obtain l where l: "x = Inr (LeaseAcquired l)" ..
  with assms obtain t where "require_aware_utc now = Inr t" "own \<noteq> []"
      "\<forall>l0. dict_get (lss_leases s) r = Some l0 \<longrightarrow> lease_expires_at l0 \<le> t"
      "acquire_free r own t ttl s = (x, s')"
    by (auto simp: acquire_def split: sum.splits option.splits if_splits)
  then show thesis using l
    by (intro granted [of t "t + ttl"])
      (auto simp: acquire_free_def Let_def mk_lease_Inr and_then_eq_Inr dt_plus_Inr_iff mem_high_def
         split: sum.splits option.splits if_splits)
qed

lemma renew_cases:
  assumes "renew l now ttl s = (x, s')"
  obtains (unchanged) "s' = s" "\<nexists>l. x = Inr (LeaseRenewed l)"
  | (renewed) t where "require_aware_utc now = Inr t"
      "dict_get (lss_leases s) (lease_resource l) = Some l" "t < lease_expires_at l"
      "lease_owner l \<noteq> []"
      "x = Inr (LeaseRenewed (l\<lparr>lease_expires_at := t + ttl\<rparr>))"
      "s' = s\<lparr>lss_leases := dict_set (lease_resource l) (l\<lparr>lease_expires_at := t + ttl\<rparr>) (lss_leases s)\<rparr>"
proof (cases "\<exists>l'. x = Inr (LeaseRenewed l')")
  case False
  have "s' = s"
    using assms False by (auto simp: renew_def split: sum.splits if_splits)
  with False show thesis by (rule unchanged [rotated])
next
  case True
  then obtain l' where l': "x = Inr (LeaseRenewed l')" ..
  have upd: "l\<lparr>lease_expires_at := e\<rparr> = \<lparr>lease_resource = lease_resource l, lease_owner = lease_owner l,
      fencing_token = fencing_token l, lease_expires_at = e\<rparr>" for e
    by simp
  from assms l' show thesis
    unfolding upd
    by (intro renewed [of "projr (require_aware_utc now)", unfolded upd])
      (auto simp: renew_def mk_lease_Inr and_then_eq_Inr dt_plus_Inr_iff split: sum.splits if_splits)
qed

lemma lease_inv_entry:
  "lease_inv s \<Longrightarrow> dict_get (lss_leases s) r = Some l \<Longrightarrow> lease_entry_ok (lss_tokens s) r l"
  by (simp add: lease_inv_def)

lemma mem_high_nonneg: "lease_inv s \<Longrightarrow> 0 \<le> mem_high s r"
  by (auto simp: mem_high_def lease_inv_def less_imp_le split: option.splits)

lemma lease_entry_ok_set:
  "lease_entry_ok tokens r' l \<Longrightarrow> r' \<noteq> r \<Longrightarrow> lease_entry_ok (dict_set r n tokens) r' l"
  by (simp add: lease_entry_ok_def dict_simps)

lemma lease_inv_acquire: "lease_inv s \<Longrightarrow> lease_inv (snd (acquire r own now ttl s))"
proof -
  assume inv: "lease_inv s"
  obtain x s' where a: "acquire r own now ttl s = (x, s')" by fastforce
  then show ?thesis
  proof (cases rule: acquire_cases)
    case unchanged
    with a inv show ?thesis by simp
  next
    case (granted t ex)
    have "0 < mem_high s r + 1" using mem_high_nonneg [OF inv, of r] by simp
    with a granted inv show ?thesis
      by (auto simp: lease_inv_def dict_simps lease_entry_ok_set)
        (auto simp: lease_entry_ok_def [of "dict_set r (mem_high s r + 1) (lss_tokens s)"] dict_simps)
  qed
qed

lemma lease_inv_renew: "lease_inv s \<Longrightarrow> lease_inv (snd (renew l now ttl s))"
proof -
  assume inv: "lease_inv s"
  obtain x s' where a: "renew l now ttl s = (x, s')" by fastforce
  then show ?thesis
  proof (cases rule: renew_cases)
    case unchanged
    with a inv show ?thesis by simp
  next
    case (renewed t)
    from lease_inv_entry [OF inv renewed(2)]
    have "lease_entry_ok (lss_tokens s) (lease_resource l) (l\<lparr>lease_expires_at := t + ttl\<rparr>)"
      by (simp add: lease_entry_ok_def)
    with a renewed inv show ?thesis by (auto simp: lease_inv_def dict_simps)
  qed
qed

lemma lease_inv_release: "lease_inv s \<Longrightarrow> lease_inv (snd (release l now s))"
  by (auto simp: release_def lease_inv_def dict_simps split: sum.splits)

interpretation mem_leases: lease_store mem_lease_port lease_inv mem_high "\<lambda>s r. current r s"
proof (unfold_locales, goal_cases)
  case 1 then show ?case by (simp add: mem_lease_port_def lease_inv_acquire)
next
  case 2 then show ?case by (simp add: mem_lease_port_def lease_inv_renew)
next
  case 3 then show ?case by (simp add: mem_lease_port_def lease_inv_release)
next
  case (4 s r l)
  then have "lease_entry_ok (lss_tokens s) r l" by (simp add: current_def lease_inv_entry)
  then show ?case by (simp add: lease_entry_ok_def mem_high_def)
next
  case (5 s r own now ttl l s')
  then have "acquire r own now ttl s = (Inr (LeaseAcquired l), s')" by (simp add: mem_lease_port_def)
  then show ?case
    by (cases rule: acquire_cases) (auto simp: fun_eq_iff mem_high_def current_def dict_simps)
next
  case (6 s r own now ttl x s')
  then have "acquire r own now ttl s = (x, s')" by (simp add: mem_lease_port_def)
  then show ?case using 6 by (cases rule: acquire_cases) auto
next
  case (7 s l now ttl l' s')
  then have "renew l now ttl s = (Inr (LeaseRenewed l'), s')" by (simp add: mem_lease_port_def)
  then show ?case
    by (cases rule: renew_cases) (auto simp: fun_eq_iff mem_high_def current_def dict_simps)
next
  case (8 s l now ttl x s')
  then have "renew l now ttl s = (x, s')" by (simp add: mem_lease_port_def)
  then show ?case using 8 by (cases rule: renew_cases) auto
next
  case 9
  then show ?case
    by (auto simp: mem_lease_port_def release_def mem_high_def split: sum.splits if_splits)
qed

section \<open>Properties of the in-memory store\<close>

lemma lease_inv_init: "InMemoryLeaseStore cap = Inr s \<Longrightarrow> lease_inv s"
  by (auto simp: InMemoryLeaseStore_def lease_inv_def split: if_splits)

text \<open>C16.  Fencing is monotonic: in every sequence of acquire, renew and release calls on a new
  store, by any owners and at any clock readings, the tokens granted for one resource are
  positive and strictly increasing.\<close>

theorem fencing_tokens_strictly_increase:
  assumes "InMemoryLeaseStore cap = Inr s"
  shows "sorted_wrt (<) (granted r (fst (run (lease_step mem_lease_port) cs s)))
    \<and> (\<forall>n. n \<in> set (granted r (fst (run (lease_step mem_lease_port) cs s))) \<longrightarrow> 0 < n)"
proof -
  have inv: "lease_inv s" using assms by (rule lease_inv_init)
  have "mem_high s r = 0"
    using assms by (auto simp: InMemoryLeaseStore_def mem_high_def split: if_splits)
  with mem_leases.granted_increasing [OF inv, of r cs] show ?thesis by auto
qed

definition sample_lease :: "int \<Rightarrow> string \<Rightarrow> instant \<Rightarrow> string lease" where
  "sample_lease tok own ex =
     \<lparr>lease_resource = ''r'', lease_owner = own, fencing_token = tok, lease_expires_at = ex\<rparr>"

definition sample_calls :: "string lease_call list" where
  "sample_calls =
     [Acquire ''r'' ''a'' (utc_datetime 0) 10, Acquire ''r'' ''b'' (utc_datetime 5) 10,
      Acquire ''r'' ''b'' (utc_datetime 10) 10]"

theorem fencing_tokens_strictly_increase_witness:
  "InMemoryLeaseStore 1 = Inr \<lparr>lss_capacity = 1, lss_leases = [], lss_tokens = []\<rparr>
   \<and> granted ''r'' (fst (run (lease_step mem_lease_port) sample_calls
        \<lparr>lss_capacity = 1, lss_leases = [], lss_tokens = []\<rparr>)) = [1, 2]
   \<and> sorted_wrt (<) (granted ''r'' (fst (run (lease_step mem_lease_port) sample_calls
        \<lparr>lss_capacity = 1, lss_leases = [], lss_tokens = []\<rparr>)))"
proof -
  have init: "InMemoryLeaseStore 1 = Inr \<lparr>lss_capacity = 1, lss_leases = [], lss_tokens = []\<rparr>"
    by (simp add: InMemoryLeaseStore_def)
  moreover have "granted ''r'' (fst (run (lease_step mem_lease_port) sample_calls
        \<lparr>lss_capacity = 1, lss_leases = [], lss_tokens = []\<rparr>)) = [1, 2]"
    by (simp add: sample_calls_def mem_lease_port_def acquire_def acquire_free_def mk_lease_def
        dt_plus_def dt_max_def)
  ultimately show ?thesis
    using fencing_tokens_strictly_increase [OF init, of "''r''" sample_calls] by blast
qed

text \<open>C15.  A superseded lease cannot commit: once a lease was granted and a later call of any run
  was granted the same resource, a fenced commit with the first lease reports it stale, and
  neither the world nor the store changes.  The consumer's \<open>locked_authority\<close> is assumed to run
  the comparison with the authority that the store holds.\<close>

theorem superseded_lease_cannot_commit:
  assumes inv: "lease_inv s"
    and first: "acquire r own now ttl s = (Inr (LeaseAcquired l), s1)"
    and later: "AcquireReply (Inr (LeaseAcquired l2)) \<in> set (fst (run (lease_step mem_lease_port) cs s1))"
    and same: "lease_resource l2 = r"
    and locked: "\<And>r f w. locked_authority r f w = f (map_option authority_of (current r (store w))) w"
    and world: "store w = snd (run (lease_step mem_lease_port) cs s1)"
  shows "commit locked_authority clock l mutation w =
    (Inr (FencedStale ''lease is expired or no longer authoritative''), w)"
proof -
  have port: "acquire_op mem_lease_port r own now ttl s = (Inr (LeaseAcquired l), s1)"
    using first by (simp add: mem_lease_port_def)
  have inv1: "lease_inv s1" using mem_leases.inv_acquire [OF inv, of r own now ttl] port by simp
  have l: "lease_resource l = r" "mem_high s1 r = fencing_token l"
    using mem_leases.acquired [OF inv port] by auto
  have "fencing_token l2 \<in> set (granted r (fst (run (lease_step mem_lease_port) cs s1)))"
    using later same by (rule granted_member)
  then have less: "fencing_token l < fencing_token l2"
      "fencing_token l2 \<le> mem_high (store w) r"
    using mem_leases.granted_increasing [OF inv1, of r cs] l(2) world by auto
  have invw: "lease_inv (store w)" using mem_leases.inv_run [OF inv1] world by simp
  have "fencing_token l' = mem_high (store w) r" if "current r (store w) = Some l'" for l'
    using mem_leases.holder_high [OF invw that] by simp
  with less have "\<And>l'. current r (store w) = Some l' \<Longrightarrow> fencing_token l' \<noteq> fencing_token l"
    by force
  then show ?thesis
    by (auto simp: commit_def locked l(1) authority_of_def split: option.splits)
qed

theorem superseded_lease_cannot_commit_witness:
  "commit (\<lambda>r f (w :: string mem_lease_store). f (map_option authority_of (current r w)) w) (\<lambda>_. 12)
     (sample_lease 1 ''a'' 10) (sreturn ())
     (snd (run (lease_step mem_lease_port) [Acquire ''r'' ''b'' (utc_datetime 10) 10]
       (snd (acquire ''r'' ''a'' (utc_datetime 0) 10 \<lparr>lss_capacity = 1, lss_leases = [], lss_tokens = []\<rparr>))))
   = (Inr (FencedStale ''lease is expired or no longer authoritative''),
      snd (run (lease_step mem_lease_port) [Acquire ''r'' ''b'' (utc_datetime 10) 10]
       (snd (acquire ''r'' ''a'' (utc_datetime 0) 10 \<lparr>lss_capacity = 1, lss_leases = [], lss_tokens = []\<rparr>))))"
proof -
  let ?s0 = "\<lparr>lss_capacity = 1, lss_leases = [], lss_tokens = []\<rparr> :: string mem_lease_store"
  let ?s1 = "snd (acquire ''r'' ''a'' (utc_datetime 0) 10 ?s0)"
  let ?cs = "[Acquire ''r'' ''b'' (utc_datetime 10) 10]"
  note defs = acquire_def acquire_free_def mk_lease_def dt_plus_def dt_max_def sample_lease_def
  have inv: "lease_inv ?s0" by (rule lease_inv_init [of 1]) (simp add: InMemoryLeaseStore_def)
  have first: "acquire ''r'' ''a'' (utc_datetime 0) 10 ?s0
      = (Inr (LeaseAcquired (sample_lease 1 ''a'' 10)), ?s1)"
    by (simp add: defs)
  have later: "AcquireReply (Inr (LeaseAcquired (sample_lease 2 ''b'' 20)))
      \<in> set (fst (run (lease_step mem_lease_port) ?cs ?s1))"
    by (simp add: defs mem_lease_port_def)
  show ?thesis
    by (rule superseded_lease_cannot_commit [where store = "\<lambda>w. w", OF inv first later])
      (simp_all add: sample_lease_def)
qed

text \<open>The in-memory store passes the lease conformance harness at every UTC time that leaves
  room for the harness's additions below the greatest \<open>datetime\<close>.\<close>

theorem lease_harness_passes:
  assumes "InMemoryLeaseStore cap = Inr s" and "0 \<le> now" and "now + seconds 61 \<le> dt_max"
  shows "fst (lease_exercise mem_lease_port now s) = Inr ()"
  using assms
  by (auto simp: lease_exercise_def mem_lease_port_def InMemoryLeaseStore_def acquire_def
      acquire_free_def renew_def release_def authority_def mk_lease_def dt_plus_def seconds_def
      sbind_def sassert_def Let_def split: if_splits)

theorem lease_harness_passes_witness:
  "fst (lease_exercise mem_lease_port 0 \<lparr>lss_capacity = 1, lss_leases = [], lss_tokens = []\<rparr>) = Inr ()"
  by (rule lease_harness_passes [of 1]) (simp_all add: InMemoryLeaseStore_def seconds_def dt_max_def)

end
