(* ===== verification/PyText.thy ===== *)
theory PyText
  imports Prelude
begin

text \<open>
  The parts of Python's \<open>str\<close> that the program uses on its identifiers and reasons: white space,
  \<open>strip\<close>, \<open>split()\<close> with no separator, \<open>join\<close> and the decimal form of an integer.  A string is a
  list of 8-bit characters, and the white space of that range is that of \<open>str.isspace\<close>.
\<close>

definition is_space :: "char \<Rightarrow> bool" where
  "is_space c \<longleftrightarrow> of_char c \<in> {9, 10, 11, 12, 13, 28, 29, 30, 31, 32, 133, 160 :: nat}"

definition py_strip :: "string \<Rightarrow> string" where
  "py_strip s = rev (dropWhile is_space (rev (dropWhile is_space s)))"

text \<open>\<open>s.split()\<close>; \<open>acc\<close> is the word that is being read.\<close>

fun split_words :: "string \<Rightarrow> string \<Rightarrow> string list" where
  "split_words acc [] = (if acc = [] then [] else [acc])"
| "split_words acc (c # cs) =
     (if \<not> is_space c then split_words (acc @ [c]) cs
      else if acc = [] then split_words [] cs
      else acc # split_words [] cs)"

definition py_split :: "string \<Rightarrow> string list" where
  "py_split s = split_words [] s"

fun py_join :: "string \<Rightarrow> string list \<Rightarrow> string" where
  "py_join sep [] = []"
| "py_join sep [w] = w"
| "py_join sep (w # ws) = w @ sep @ py_join sep ws"

definition digit_char :: "nat \<Rightarrow> char" where
  "digit_char d = char_of (48 + d)"

fun str_of_nat :: "nat \<Rightarrow> string" where
  "str_of_nat n = (if n < 10 then [digit_char n] else str_of_nat (n div 10) @ [digit_char (n mod 10)])"

declare str_of_nat.simps [simp del]

definition str_of_int :: "int \<Rightarrow> string" where
  "str_of_int n = (if n < 0 then CHR ''-'' # str_of_nat (nat (- n)) else str_of_nat (nat n))"

section \<open>Words\<close>

lemma split_words_word:
  "\<forall>c\<in>set acc. \<not> is_space c \<Longrightarrow> w \<in> set (split_words acc s) \<Longrightarrow> w \<noteq> [] \<and> (\<forall>c\<in>set w. \<not> is_space c)"
proof (induction s arbitrary: acc)
  case (Cons c s)
  consider "w = acc" "acc \<noteq> []" | "\<not> is_space c" "w \<in> set (split_words (acc @ [c]) s)" | "w \<in> set (split_words [] s)"
    using Cons.prems(2) by (auto split: if_splits)
  then show ?case
  proof cases
    case 1
    with Cons.prems(1) show ?thesis by blast
  next
    case 2
    with Cons.prems(1) have "\<forall>c\<in>set (acc @ [c]). \<not> is_space c" by simp
    from Cons.IH [OF this 2(2)] show ?thesis .
  next
    case 3
    from Cons.IH [OF _ 3] show ?thesis by simp
  qed
qed (auto split: if_splits)

lemma py_split_word: "w \<in> set (py_split s) \<Longrightarrow> w \<noteq> [] \<and> (\<forall>c\<in>set w. \<not> is_space c)"
  unfolding py_split_def by (rule split_words_word) simp_all

lemma split_words_Nil_iff: "split_words acc s = [] \<longleftrightarrow> acc = [] \<and> (\<forall>c\<in>set s. is_space c)"
  by (induction acc s rule: split_words.induct) auto

lemma py_split_Nil_iff: "py_split s = [] \<longleftrightarrow> (\<forall>c\<in>set s. is_space c)"
  by (simp add: py_split_def split_words_Nil_iff)

lemma py_join_Nil_iff: "(\<forall>w\<in>set ws. w \<noteq> []) \<Longrightarrow> py_join sep ws = [] \<longleftrightarrow> ws = []"
  by (cases "(sep, ws)" rule: py_join.cases) auto

lemma split_words_plain: "\<forall>c\<in>set w. \<not> is_space c \<Longrightarrow> split_words acc w = (if acc @ w = [] then [] else [acc @ w])"
  by (induction w arbitrary: acc) auto

lemma split_words_read:
  "\<forall>c\<in>set w. \<not> is_space c \<Longrightarrow> is_space b \<Longrightarrow> acc @ w \<noteq> [] \<Longrightarrow>
     split_words acc (w @ b # s) = (acc @ w) # split_words [] s"
  by (induction w arbitrary: acc) auto

text \<open>Splitting undoes joining with a white-space character.\<close>

lemma py_split_join:
  assumes "\<forall>w\<in>set ws. w \<noteq> [] \<and> (\<forall>c\<in>set w. \<not> is_space c)" and "is_space b"
  shows "py_split (py_join [b] ws) = ws"
  using assms unfolding py_split_def
proof (induction "[b]" ws rule: py_join.induct)
  case (2 w)
  then show ?case by (simp add: split_words_plain)
next
  case (3 w v ws)
  then show ?case by (simp add: split_words_read)
qed simp

lemma py_strip_subset: "set (py_strip s) \<subseteq> set s"
  unfolding py_strip_def by (metis set_dropWhileD set_rev subsetI)

section \<open>Decimal numbers\<close>

fun nat_of_str :: "nat \<Rightarrow> string \<Rightarrow> nat" where
  "nat_of_str acc [] = acc"
| "nat_of_str acc (c # cs) = nat_of_str (10 * acc + (of_char c - 48)) cs"

lemma nat_of_str_append: "nat_of_str acc (xs @ ys) = nat_of_str (nat_of_str acc xs) ys"
  by (induction xs arbitrary: acc) simp_all

lemma of_digit_char: "d < 10 \<Longrightarrow> of_char (digit_char d) = 48 + d"
  by (simp add: digit_char_def)

lemma nat_of_str_of_nat: "nat_of_str 0 (str_of_nat n) = n"
proof (induction n rule: str_of_nat.induct)
  case (1 n)
  then show ?case
    by (cases "n < 10") (simp_all add: str_of_nat.simps [of n] nat_of_str_append of_digit_char)
qed

lemma str_of_nat_digits: "c \<in> set (str_of_nat n) \<Longrightarrow> \<exists>d<10. c = digit_char d"
proof (induction n rule: str_of_nat.induct)
  case (1 n)
  then show ?case
    by (cases "n < 10") (auto simp: str_of_nat.simps [of n] intro: exI [of _ "n mod 10"])
qed

lemma str_of_nat_inject [simp]: "str_of_nat m = str_of_nat n \<longleftrightarrow> m = n"
  by (metis nat_of_str_of_nat)

lemma str_of_nat_range: "c \<in> set (str_of_nat n) \<Longrightarrow> 48 \<le> (of_char c :: nat) \<and> (of_char c :: nat) < 58"
  by (drule str_of_nat_digits) (auto simp: of_digit_char)

lemma str_of_nat_not_Nil [simp]: "str_of_nat n \<noteq> []"
  by (simp add: str_of_nat.simps [of n])

lemma minus_notin_str_of_nat: "CHR ''-'' \<notin> set (str_of_nat n)"
  using str_of_nat_range [of "CHR ''-''" n] by auto

lemma str_of_int_inject [simp]: "str_of_int m = str_of_int n \<longleftrightarrow> m = n"
proof -
  have "CHR ''-'' # xs \<noteq> str_of_nat k" for xs k using minus_notin_str_of_nat [of k] by (metis list.set_intros(1))
  then show ?thesis by (auto simp: str_of_int_def eq_commute [of "str_of_nat _" "_ # _"])
qed

lemma str_of_int_not_Nil [simp]: "str_of_int n \<noteq> []"
  by (simp add: str_of_int_def)

lemma colon_notin_str_of_int: "CHR '':'' \<notin> set (str_of_int n)"
  using str_of_nat_range [of "CHR '':''"] by (auto simp: str_of_int_def)

text \<open>A label, a colon and a number determine both.\<close>

lemma last_colon_inject:
  assumes "xs @ CHR '':'' # us = ys @ CHR '':'' # vs" and "CHR '':'' \<notin> set us" and "CHR '':'' \<notin> set vs"
  shows "xs = ys \<and> us = vs"
  using assms by (auto simp: append_eq_append_conv2 Cons_eq_append_conv eq_commute [of "_ @ _" "_ # _"])

lemma labelled_number_inject:
  "a @ CHR '':'' # str_of_int m = b @ CHR '':'' # str_of_int n \<longleftrightarrow> a = b \<and> m = n"
  using last_colon_inject [of a "str_of_int m" b "str_of_int n"] colon_notin_str_of_int by auto

end
