(* ===== verification/Core.thy ===== *)
theory Core
  imports PyText
begin

text \<open>
  Model of \<open>src/src/pytitect/core.py\<close>: deadlines, resource limits, opaque identifiers and
  the JSON validator that every boundary value passes through.  The validator counts
  items in a variable shared by all recursive calls and stops at the first violation;
  \<open>validate_json_correct\<close> shows that it accepts exactly the values described by a
  declarative specification of depth, size and leaf conditions.
\<close>

section \<open>Deadlines, limits, opaque identifiers\<close>

definition mk_deadline :: "datetime \<Rightarrow> instant res" where
  "mk_deadline dl_at = require_aware_utc dl_at"

definition deadline_after :: "timedelta \<Rightarrow> instant \<Rightarrow> instant res" where
  "deadline_after timeout now = (if timeout < 0 then Inl ValueError else dt_plus now timeout)"

definition deadline_remaining :: "instant \<Rightarrow> instant \<Rightarrow> timedelta" where
  "deadline_remaining dl now = max (dl - now) 0"

definition deadline_expired :: "instant \<Rightarrow> instant \<Rightarrow> bool" where
  "deadline_expired dl now \<longleftrightarrow> dl \<le> now"

record limits =
  max_body_bytes :: int
  max_json_depth :: int
  max_json_items :: int
  max_metadata_items :: int
  max_string_length :: int

definition mk_limits :: "int \<Rightarrow> int \<Rightarrow> int \<Rightarrow> int \<Rightarrow> int \<Rightarrow> limits res" where
  "mk_limits b d i m l =
     (if b \<le> 0 \<or> d \<le> 0 \<or> i \<le> 0 \<or> m \<le> 0 \<or> l \<le> 0 then Inl ValueError
      else Inr \<lparr>max_body_bytes = b, max_json_depth = d, max_json_items = i,
                max_metadata_items = m, max_string_length = l\<rparr>)"

definition default_limits :: limits where
  "default_limits = \<lparr>max_body_bytes = 1048576, max_json_depth = 32, max_json_items = 10000,
                     max_metadata_items = 64, max_string_length = 16384\<rparr>"

datatype opaque_id = OpaqueId (oid_value: string)

definition mk_opaque_id :: "string \<Rightarrow> opaque_id res" where
  "mk_opaque_id v = (if v = [] \<or> v \<noteq> py_strip v then Inl ValueError else Inr (OpaqueId v))"

section \<open>JSON values\<close>

text \<open>
  The values the validator can meet.  A finite float is its mantissa and binary
  exponent; \<open>JOther\<close> is an object of an unsupported type and \<open>KOther\<close> a dictionary key
  that is not a string.
\<close>

datatype pyfloat = FiniteFloat int int | Infinite bool | NaN

datatype json_key = KStr string | KOther string

datatype json =
    JNull
  | JBool bool
  | JInt int
  | JFloat pyfloat
  | JStr string
  | JList "json list"
  | JDict "(json_key \<times> json) list"
  | JOther string

fun is_finite :: "pyfloat \<Rightarrow> bool" where
  "is_finite (FiniteFloat m e) = True"
| "is_finite (Infinite neg) = False"
| "is_finite NaN = False"

definition enter :: "limits \<Rightarrow> int \<Rightarrow> int \<Rightarrow> int res" where
  "enter lim depth count =
     (if max_json_depth lim < depth then Inl ValueError
      else if max_json_items lim < count + 1 then Inl ValueError
      else Inr (count + 1))"

fun visit :: "limits \<Rightarrow> json \<Rightarrow> int \<Rightarrow> int \<Rightarrow> int res"
  and visit_all :: "limits \<Rightarrow> json list \<Rightarrow> int \<Rightarrow> int \<Rightarrow> int res"
  and visit_items :: "limits \<Rightarrow> (json_key \<times> json) list \<Rightarrow> int \<Rightarrow> int \<Rightarrow> int res" where
  "visit lim JNull depth count = enter lim depth count"
| "visit lim (JBool b) depth count = enter lim depth count"
| "visit lim (JInt n) depth count = enter lim depth count"
| "visit lim (JFloat f) depth count =
     and_then (enter lim depth count) (\<lambda>c. if is_finite f then Inr c else Inl ValueError)"
| "visit lim (JStr s) depth count =
     and_then (enter lim depth count)
       (\<lambda>c. if max_string_length lim < int (length s) then Inl ValueError else Inr c)"
| "visit lim (JList xs) depth count =
     and_then (enter lim depth count) (\<lambda>c. visit_all lim xs (depth + 1) c)"
| "visit lim (JDict kvs) depth count =
     and_then (enter lim depth count) (\<lambda>c. visit_items lim kvs (depth + 1) c)"
| "visit lim (JOther ty) depth count = and_then (enter lim depth count) (\<lambda>c. Inl ValueError)"
| "visit_all lim [] depth count = Inr count"
| "visit_all lim (x # xs) depth count =
     and_then (visit lim x depth count) (\<lambda>c. visit_all lim xs depth c)"
| "visit_items lim [] depth count = Inr count"
| "visit_items lim ((k, v) # kvs) depth count =
     (case k of
        KOther ty \<Rightarrow> Inl ValueError
      | KStr s \<Rightarrow>
          if max_string_length lim < int (length s) then Inl ValueError
          else and_then (visit lim v depth count) (\<lambda>c. visit_items lim kvs depth c))"

definition validate_json_with :: "limits \<Rightarrow> json \<Rightarrow> unit res" where
  "validate_json_with lim v = and_then (visit lim v 0 0) (\<lambda>c. Inr ())"

definition validate_json :: "json \<Rightarrow> unit res" where
  "validate_json v = validate_json_with default_limits v"

section \<open>Declarative specification of accepted values\<close>

fun json_items :: "json \<Rightarrow> int" where
  "json_items (JList xs) = 1 + sum_list (map json_items xs)"
| "json_items (JDict kvs) = 1 + sum_list (map (\<lambda>kv. json_items (snd kv)) kvs)"
| "json_items v = 1"

fun within_depth :: "int \<Rightarrow> json \<Rightarrow> bool" where
  "within_depth d (JList xs) = (0 \<le> d \<and> (\<forall>x\<in>set xs. within_depth (d - 1) x))"
| "within_depth d (JDict kvs) = (0 \<le> d \<and> (\<forall>kv\<in>set kvs. within_depth (d - 1) (snd kv)))"
| "within_depth d v = (0 \<le> d)"

fun key_ok :: "int \<Rightarrow> json_key \<Rightarrow> bool" where
  "key_ok n (KStr s) = (int (length s) \<le> n)"
| "key_ok n (KOther ty) = False"

fun leaves_ok :: "int \<Rightarrow> json \<Rightarrow> bool" where
  "leaves_ok n (JFloat f) = is_finite f"
| "leaves_ok n (JStr s) = (int (length s) \<le> n)"
| "leaves_ok n (JList xs) = (\<forall>x\<in>set xs. leaves_ok n x)"
| "leaves_ok n (JDict kvs) = (\<forall>kv\<in>set kvs. key_ok n (fst kv) \<and> leaves_ok n (snd kv))"
| "leaves_ok n (JOther ty) = False"
| "leaves_ok n v = True"

definition json_ok :: "limits \<Rightarrow> json \<Rightarrow> bool" where
  "json_ok lim v \<longleftrightarrow>
     within_depth (max_json_depth lim) v \<and> json_items v \<le> max_json_items lim
     \<and> leaves_ok (max_string_length lim) v"

lemma json_items_pos: "1 \<le> json_items v"
  by (induction v) (auto intro!: sum_list_nonneg simp: order_trans [OF zero_le_one])

lemma json_items_sum_nonneg: "0 \<le> sum_list (map json_items xs)"
  by (rule sum_list_nonneg) (auto intro: order_trans [OF zero_le_one json_items_pos])

lemma json_items_sum_snd_nonneg: "0 \<le> sum_list (map (\<lambda>kv. json_items (snd kv)) kvs)"
  by (rule sum_list_nonneg) (auto intro: order_trans [OF zero_le_one json_items_pos])

text \<open>
  The traversal, started at any depth and count, accepts exactly when the remaining
  depth, the remaining item budget and the leaf conditions allow it, and then returns the
  count increased by the number of items.
\<close>

lemma visit_spec:
  "visit lim v d c =
     (if within_depth (max_json_depth lim - d) v \<and> c + json_items v \<le> max_json_items lim
        \<and> leaves_ok (max_string_length lim) v
      then Inr (c + json_items v) else Inl ValueError)"
  "c \<le> max_json_items lim \<Longrightarrow> visit_all lim xs d c =
     (if (\<forall>x\<in>set xs. within_depth (max_json_depth lim - d) x)
        \<and> c + sum_list (map json_items xs) \<le> max_json_items lim
        \<and> (\<forall>x\<in>set xs. leaves_ok (max_string_length lim) x)
      then Inr (c + sum_list (map json_items xs)) else Inl ValueError)"
  "c \<le> max_json_items lim \<Longrightarrow> visit_items lim kvs d c =
     (if (\<forall>kv\<in>set kvs. within_depth (max_json_depth lim - d) (snd kv))
        \<and> c + sum_list (map (\<lambda>kv. json_items (snd kv)) kvs) \<le> max_json_items lim
        \<and> (\<forall>kv\<in>set kvs. key_ok (max_string_length lim) (fst kv)
              \<and> leaves_ok (max_string_length lim) (snd kv))
      then Inr (c + sum_list (map (\<lambda>kv. json_items (snd kv)) kvs)) else Inl ValueError)"
proof (induction lim v d c and lim xs d c and lim kvs d c rule: visit_visit_all_visit_items.induct)
  case (6 lim xs d c)
  show ?case
  proof (cases "d \<le> max_json_depth lim \<and> c + 1 \<le> max_json_items lim")
    case True
    then have "enter lim d c = Inr (c + 1)" by (simp add: enter_def)
    with True 6 [of "c + 1"] show ?thesis by (simp add: diff_diff_eq add.assoc)
  next
    case False
    then have "enter lim d c = Inl ValueError" by (auto simp: enter_def)
    with False json_items_sum_nonneg [of xs] show ?thesis by auto
  qed
next
  case (7 lim kvs d c)
  show ?case
  proof (cases "d \<le> max_json_depth lim \<and> c + 1 \<le> max_json_items lim")
    case True
    then have "enter lim d c = Inr (c + 1)" by (simp add: enter_def)
    with True 7 [of "c + 1"] show ?thesis by (simp add: diff_diff_eq add.assoc)
  next
    case False
    then have "enter lim d c = Inl ValueError" by (auto simp: enter_def)
    with False json_items_sum_snd_nonneg [of kvs] show ?thesis by auto
  qed
next
  case (10 lim x xs d c)
  let ?ok = "within_depth (max_json_depth lim - d) x \<and> c + json_items x \<le> max_json_items lim
    \<and> leaves_ok (max_string_length lim) x"
  show ?case
  proof (cases ?ok)
    case False
    with 10(1) have "visit lim x d c = Inl ValueError" by simp
    moreover have "\<not> (?ok \<and> c + (json_items x + sum_list (map json_items xs)) \<le> max_json_items lim)"
      using False by blast
    ultimately show ?thesis using False json_items_sum_nonneg [of xs] by auto
  next
    case True
    with 10(1) have "visit lim x d c = Inr (c + json_items x)" by simp
    with 10(2) [of "c + json_items x"] True show ?thesis by (simp add: add.assoc)
  qed
next
  case (12 lim k v kvs d c)
  let ?ok = "within_depth (max_json_depth lim - d) v \<and> c + json_items v \<le> max_json_items lim
    \<and> leaves_ok (max_string_length lim) v"
  show ?case
  proof (cases "key_ok (max_string_length lim) k")
    case False
    then show ?thesis by (cases k) auto
  next
    case True
    then obtain s where k: "k = KStr s" "int (length s) \<le> max_string_length lim"
      by (cases k) auto
    show ?thesis
    proof (cases ?ok)
      case False
      with 12(1) k have "visit lim v d c = Inl ValueError" by simp
      with False k json_items_sum_snd_nonneg [of kvs] show ?thesis by auto
    next
      case True
      with 12(1) k have "visit lim v d c = Inr (c + json_items v)" by simp
      with 12(2) [of s "c + json_items v"] True k show ?thesis by (simp add: add.assoc)
    qed
  qed
qed (auto simp: enter_def)

text \<open>C17.  \<open>validate_json\<close> raises \<open>ValueError\<close> or accepts, and it accepts exactly the values
  whose nesting, total item count, strings, keys and floats respect the limits.\<close>

theorem validate_json_correct:
  "validate_json_with lim v = (if json_ok lim v then Inr () else Inl ValueError)"
  by (simp add: validate_json_with_def visit_spec json_ok_def)

lemma deadline_expired_iff: "deadline_expired dl now \<longleftrightarrow> deadline_remaining dl now = 0"
  by (auto simp: deadline_expired_def deadline_remaining_def)

lemma deadline_after_not_expired:
  "deadline_after timeout now = Inr dl \<Longrightarrow> 0 < timeout \<Longrightarrow> \<not> deadline_expired dl now"
  by (auto simp: deadline_after_def deadline_expired_def dt_plus_Inr_iff split: if_splits)

end
