(* ===== verification/Maintenance.thy ===== *)
theory Maintenance
  imports Prelude
begin

text \<open>
  Model of \<open>src/src/pytitect/maintenance.py\<close>: retention plans and the summary that every
  purge and archive operation returns, with the contract such an operation keeps.  The
  contract is a locale over any item store; the idempotency, inbox, outbox and receipt
  stores interpret it on their own purge operations.
\<close>

record maintenance_summary =
  ms_selected :: int
  ms_affected :: int
  ms_dry_run :: bool

definition mk_maintenance_summary :: "int \<Rightarrow> int \<Rightarrow> bool \<Rightarrow> maintenance_summary res" where
  "mk_maintenance_summary selected affected dry =
     (if selected < 0 \<or> affected < 0 \<or> selected < affected then Inl ValueError
      else if dry \<and> affected \<noteq> 0 then Inl ValueError
      else Inr \<lparr>ms_selected = selected, ms_affected = affected, ms_dry_run = dry\<rparr>)"

record maintenance_plan =
  mp_cutoff :: instant
  mp_batch_size :: int
  mp_dry_run :: bool

record purge_uncertain_plan = maintenance_plan +
  mp_include_uncertain :: bool

definition mk_maintenance_plan :: "datetime \<Rightarrow> int \<Rightarrow> bool \<Rightarrow> maintenance_plan res" where
  "mk_maintenance_plan cutoff batch dry =
     and_then (require_aware_utc cutoff) (\<lambda>t.
       if batch \<le> 0 then Inl ValueError
       else Inr \<lparr>mp_cutoff = t, mp_batch_size = batch, mp_dry_run = dry\<rparr>)"

definition mk_purge_uncertain_plan ::
    "datetime \<Rightarrow> int \<Rightarrow> bool \<Rightarrow> bool \<Rightarrow> purge_uncertain_plan res" where
  "mk_purge_uncertain_plan cutoff batch dry unc =
     and_then (mk_maintenance_plan cutoff batch dry) (\<lambda>p.
       Inr (maintenance_plan.extend p (purge_uncertain_plan.fields unc)))"

text \<open>The summary line shared by the stores: \<open>MaintenanceSummary(len(selected),
  0 if plan.dry_run else len(selected), plan.dry_run)\<close>.\<close>

definition batch_summary :: "bool \<Rightarrow> nat \<Rightarrow> maintenance_summary res" where
  "batch_summary dry n = mk_maintenance_summary (int n) (if dry then 0 else int n) dry"

lemma batch_summary_ok:
  "batch_summary dry n =
     Inr \<lparr>ms_selected = int n, ms_affected = (if dry then 0 else int n), ms_dry_run = dry\<rparr>"
  by (simp add: batch_summary_def mk_maintenance_summary_def)

section \<open>The retention contract\<close>

text \<open>
  \<open>items\<close> are the (key, item) pairs a store holds, \<open>due\<close> the items a plan selects and
  \<open>age\<close> their sort key.  The laws state what one purge does to the items and reports;
  the consequences are bounded batches, oldest-first order, dry runs without effect and
  no collateral deletion.
\<close>

locale retention =
  fixes purge :: "'plan \<Rightarrow> 's \<Rightarrow> maintenance_summary res \<times> 's"
    and items :: "'s \<Rightarrow> ('k, 'v) dict"
    and due :: "'plan \<Rightarrow> 'k \<times> 'v \<Rightarrow> bool"
    and age :: "'plan \<Rightarrow> 'k \<times> 'v \<Rightarrow> 'o::linorder"
    and plan_of :: "'plan \<Rightarrow> maintenance_plan"
    and inv :: "'s \<Rightarrow> bool"
  assumes purge_result: "fst (purge p s) =
      batch_summary (mp_dry_run (plan_of p))
        (length (select_batch (due p) (age p) (mp_batch_size (plan_of p)) (items s)))"
    and purge_items: "inv s \<Longrightarrow> items (snd (purge p s)) =
      (if mp_dry_run (plan_of p) then items s
       else pop_all (map fst (select_batch (due p) (age p) (mp_batch_size (plan_of p)) (items s)))
              (items s))"
    and items_ok: "inv s \<Longrightarrow> dict_ok (items s)"
begin

lemma dry_run_keeps:
  "inv s \<Longrightarrow> mp_dry_run (plan_of p) \<Longrightarrow> items (snd (purge p s)) = items s"
  by (simp add: purge_items)

lemma removed_are_due:
  assumes "inv s" and "(k, v) \<in> set (items s)" and "(k, v) \<notin> set (items (snd (purge p s)))"
  shows "due p (k, v) \<and> \<not> mp_dry_run (plan_of p)"
proof -
  let ?sel = "select_batch (due p) (age p) (mp_batch_size (plan_of p)) (items s)"
  have live: "\<not> mp_dry_run (plan_of p)" using assms by (auto simp: purge_items)
  with assms have "k \<in> fst ` set ?sel" by (auto simp: purge_items pop_all_filter)
  then obtain v' where sel: "(k, v') \<in> set ?sel" by auto
  then have "(k, v') \<in> set (items s)" and d: "due p (k, v')"
    by (auto dest: select_batch_subset)
  with assms(1,2) have "v' = v" by (auto dest: items_ok eq_key_imp_eq_value)
  with d live show ?thesis by simp
qed

lemma never_adds: "inv s \<Longrightarrow> set (items (snd (purge p s))) \<subseteq> set (items s)"
  by (auto simp: purge_items pop_all_filter)

lemma oldest_first:
  assumes "inv s" and removed: "x \<in> set (items s)" "x \<notin> set (items (snd (purge p s)))"
    and kept: "y \<in> set (items (snd (purge p s)))" "due p y"
  shows "age p x \<le> age p y"
proof -
  let ?sel = "select_batch (due p) (age p) (mp_batch_size (plan_of p)) (items s)"
  have live: "\<not> mp_dry_run (plan_of p)" using assms by (auto simp: purge_items)
  have "fst x \<in> fst ` set ?sel" using assms live by (auto simp: purge_items pop_all_filter)
  then obtain z where z: "z \<in> set ?sel" "fst z = fst x" by auto
  then have "z \<in> set (items s)" by (auto dest: select_batch_subset)
  with z(2) removed(1) assms(1) have "z = x"
    by (metis eq_key_imp_eq_value items_ok prod.collapse)
  moreover have "y \<in> set (items s)" "y \<notin> set ?sel"
    using kept(1) live assms(1) by (auto simp: purge_items pop_all_filter)
  ultimately show ?thesis using z(1) kept(2) by (metis select_batch_oldest)
qed

lemma affected_exact:
  assumes "inv s"
  shows "fst (purge p s) = Inr sm \<Longrightarrow>
    int (length (items s)) = int (length (items (snd (purge p s)))) + ms_affected sm"
proof -
  let ?sel = "select_batch (due p) (age p) (mp_batch_size (plan_of p)) (items s)"
  assume res: "fst (purge p s) = Inr sm"
  have aff: "ms_affected sm = (if mp_dry_run (plan_of p) then 0 else int (length ?sel))"
    using res by (auto simp: purge_result batch_summary_ok)
  have ok: "dict_ok (items s)" by (rule items_ok [OF assms])
  then have dist: "distinct (items s)" by (simp add: distinct_map)
  have sub: "set ?sel \<subseteq> set (items s)" by (auto dest: select_batch_subset)
  have "{x \<in> set (items s). fst x \<in> fst ` set ?sel} = set ?sel"
    using sub ok by (auto simp: distinct_map inj_on_def)
  then have "card (set (filter (\<lambda>x. fst x \<in> fst ` set ?sel) (items s))) = card (set ?sel)"
    by simp
  then have "length (filter (\<lambda>x. fst x \<in> fst ` set ?sel) (items s)) = length ?sel"
    using dist distinct_select_batch [OF dist, of "due p" "age p"]
    by (simp only: distinct_card distinct_filter)
  moreover have "length (items s) =
      length (filter (\<lambda>x. fst x \<in> fst ` set ?sel) (items s))
      + length (filter (\<lambda>x. \<not> fst x \<in> fst ` set ?sel) (items s))"
    by (rule sum_length_filter_compl [symmetric])
  ultimately show ?thesis using assms aff by (simp add: purge_items pop_all_filter)
qed

lemma bounded:
  "fst (purge p s) = Inr sm \<Longrightarrow> 0 < mp_batch_size (plan_of p) \<Longrightarrow>
     ms_selected sm \<le> mp_batch_size (plan_of p)"
  by (auto simp: purge_result batch_summary_ok length_select_batch)

end

end
