(* ===== verification/Idempotency.thy ===== *)
theory Idempotency
  imports Core Maintenance
begin

text \<open>
  Model of \<open>src/src/pytitect/idempotency.py\<close>: the in-memory reservation store with its
  token index, the coordinator over the \<open>IdempotencyStore\<close> protocol, and the
  conformance harness.  The UUID a reservation draws is a parameter of the call; the
  theorems that need it state that it is not in use.
\<close>

section \<open>Values, decisions and results\<close>

record idem_scope =
  isc_namespace :: string
  isc_subject :: string
  isc_operation :: string

definition mk_idem_scope :: "string \<Rightarrow> string \<Rightarrow> string \<Rightarrow> idem_scope res" where
  "mk_idem_scope ns subj oper =
     (if ns = [] \<or> subj = [] \<or> oper = [] then Inl ValueError
      else Inr \<lparr>isc_namespace = ns, isc_subject = subj, isc_operation = oper\<rparr>)"

datatype identity = Identity (id_scope: idem_scope) (id_key: string)

type_synonym token = string
type_synonym fingerprint = string

definition mk_reservation_token :: "string \<Rightarrow> token res" where
  "mk_reservation_token v = (if v = [] then Inl ValueError else Inr v)"

record idem_policy =
  execution_lease_ttl :: timedelta
  result_retention_ttl :: timedelta
  uncertainty_retention_ttl :: timedelta

definition mk_idem_policy :: "timedelta \<Rightarrow> timedelta \<Rightarrow> timedelta \<Rightarrow> idem_policy res" where
  "mk_idem_policy lease result unc =
     (if lease \<le> 0 \<or> result \<le> 0 \<or> unc \<le> 0 then Inl ValueError
      else Inr \<lparr>execution_lease_ttl = lease, result_retention_ttl = result,
                uncertainty_retention_ttl = unc\<rparr>)"

datatype 'v idem_decision =
    Execute token
  | Replay "'v option"
  | Conflict string
  | InProgress instant
  | Uncertain string

datatype renew_reservation = ReservationRenewed instant | RenewStaleReservation
datatype complete_reservation = ReservationCompleted instant | CompleteStaleReservation
datatype mark_uncertain_result = ReservationMarkedUncertain instant | MarkStaleReservation
datatype abandon_reservation = ReservationAbandoned | AbandonStaleReservation

text \<open>The \<open>IdempotencyStore\<close> protocol; the last argument of \<open>reserve\<close> is the UUID it draws.\<close>

record ('v, 's) idem_port =
  reserve_op :: "idem_scope \<Rightarrow> string \<Rightarrow> fingerprint \<Rightarrow> datetime \<Rightarrow> timedelta \<Rightarrow> string
                  \<Rightarrow> ('s, 'v idem_decision) act"
  renew_op :: "token \<Rightarrow> datetime \<Rightarrow> timedelta \<Rightarrow> ('s, renew_reservation) act"
  complete_op :: "token \<Rightarrow> 'v \<Rightarrow> datetime \<Rightarrow> timedelta \<Rightarrow> ('s, complete_reservation) act"
  mark_uncertain_op :: "token \<Rightarrow> string \<Rightarrow> datetime \<Rightarrow> timedelta \<Rightarrow> ('s, mark_uncertain_result) act"
  abandon_op :: "token \<Rightarrow> datetime \<Rightarrow> ('s, abandon_reservation) act"

section \<open>The in-memory store\<close>

datatype entry_state = Reserved | Completed | MarkedUncertain

record 'v idem_entry =
  en_token :: token
  en_fingerprint :: fingerprint
  en_expires_at :: instant
  en_state :: entry_state
  en_value :: "'v option"
  en_reason :: "string option"

record 'v idem_store =
  is_capacity :: int
  is_entries :: "(identity, 'v idem_entry) dict"
  is_tokens :: "(token, identity) dict"

definition InMemoryIdempotencyStore :: "int \<Rightarrow> 'v idem_store res" where
  "InMemoryIdempotencyStore capacity =
     (if capacity \<le> 0 then Inl ValueError
      else Inr \<lparr>is_capacity = capacity, is_entries = [], is_tokens = []\<rparr>)"

definition executing :: "token \<Rightarrow> instant \<Rightarrow> 'v idem_store \<Rightarrow> (identity \<times> 'v idem_entry) option" where
  "executing tok now s =
     (case dict_get (is_tokens s) tok of
        None \<Rightarrow> None
      | Some idn \<Rightarrow>
          (case dict_get (is_entries s) idn of
             None \<Rightarrow> None
           | Some e \<Rightarrow>
               if en_token e \<noteq> tok \<or> en_state e \<noteq> Reserved \<or> en_expires_at e \<le> now then None
               else Some (idn, e)))"

definition drop_entries :: "(identity \<times> 'v idem_entry) list \<Rightarrow> 'v idem_store \<Rightarrow> 'v idem_store" where
  "drop_entries sel s =
     s\<lparr>is_entries := pop_all (map fst sel) (is_entries s),
       is_tokens := pop_all (map (\<lambda>p. en_token (snd p)) sel) (is_tokens s)\<rparr>"

definition purge_expired :: "instant \<Rightarrow> 'v idem_store \<Rightarrow> 'v idem_store" where
  "purge_expired now s =
     drop_entries
       (filter (\<lambda>(idn, e). en_expires_at e \<le> now \<and> en_state e \<noteq> MarkedUncertain) (is_entries s)) s"

definition reserve ::
    "idem_scope \<Rightarrow> string \<Rightarrow> fingerprint \<Rightarrow> datetime \<Rightarrow> timedelta \<Rightarrow> string
     \<Rightarrow> ('v idem_store, 'v idem_decision) act" where
  "reserve scope key fp now lease_ttl uuid s =
     (case require_aware_utc now of
        Inl e \<Rightarrow> (Inl e, s)
      | Inr t \<Rightarrow>
          if key = [] then (Inl ValueError, s)
          else if lease_ttl \<le> 0 then (Inl ValueError, s)
          else
            let idn = Identity scope key; s1 = purge_expired t s in
            case dict_get (is_entries s1) idn of
              Some cur \<Rightarrow>
                (Inr (if en_fingerprint cur \<noteq> fp
                      then Conflict ''the idempotency key was used with a different request''
                      else if en_state cur = Completed then Replay (en_value cur)
                      else if en_state cur = MarkedUncertain
                      then Uncertain (case en_reason cur of
                             Some r \<Rightarrow> if r = [] then ''the prior outcome is unknown'' else r
                           | None \<Rightarrow> ''the prior outcome is unknown'')
                      else InProgress (en_expires_at cur)),
                 s1\<lparr>is_entries := move_to_end idn (is_entries s1)\<rparr>)
            | None \<Rightarrow>
                if is_capacity s1 \<le> int (length (is_entries s1))
                then (Inr (Uncertain ''idempotency capacity exceeded; no reservation was made''), s1)
                else
                  case and_then (mk_reservation_token uuid) (\<lambda>tok.
                      and_then (dt_plus t lease_ttl) (\<lambda>ex. Inr (tok, ex))) of
                    Inl e \<Rightarrow> (Inl e, s1)
                  | Inr (tok, ex) \<Rightarrow>
                      (Inr (Execute tok),
                       s1\<lparr>is_entries := dict_set idn
                            \<lparr>en_token = tok, en_fingerprint = fp, en_expires_at = ex,
                             en_state = Reserved, en_value = None, en_reason = None\<rparr> (is_entries s1),
                          is_tokens := dict_set tok idn (is_tokens s1)\<rparr>))"

text \<open>Mutating an entry in place: the entry object is shared by the dictionary.\<close>

definition put_entry :: "identity \<Rightarrow> 'v idem_entry \<Rightarrow> 'v idem_store \<Rightarrow> 'v idem_store" where
  "put_entry idn e s = s\<lparr>is_entries := dict_set idn e (is_entries s)\<rparr>"

definition renew :: "token \<Rightarrow> datetime \<Rightarrow> timedelta \<Rightarrow> ('v idem_store, renew_reservation) act" where
  "renew tok now lease_ttl s =
     (case require_aware_utc now of
        Inl e \<Rightarrow> (Inl e, s)
      | Inr t \<Rightarrow>
          if lease_ttl \<le> 0 then (Inl ValueError, s)
          else
            case executing tok t s of
              None \<Rightarrow> (Inr RenewStaleReservation, s)
            | Some (idn, e) \<Rightarrow>
                (case dt_plus t lease_ttl of
                   Inl x \<Rightarrow> (Inl x, s)
                 | Inr ex \<Rightarrow> (Inr (ReservationRenewed ex), put_entry idn (e\<lparr>en_expires_at := ex\<rparr>) s)))"

text \<open>\<open>complete\<close> and \<open>mark_uncertain\<close> write the new state and value before the addition that
  can overflow: on that error the entry keeps the new state with its old expiry.\<close>

definition complete ::
    "token \<Rightarrow> 'v \<Rightarrow> datetime \<Rightarrow> timedelta \<Rightarrow> ('v idem_store, complete_reservation) act" where
  "complete tok v now retention_ttl s =
     (case require_aware_utc now of
        Inl e \<Rightarrow> (Inl e, s)
      | Inr t \<Rightarrow>
          if retention_ttl \<le> 0 then (Inl ValueError, s)
          else
            case executing tok t s of
              None \<Rightarrow> (Inr CompleteStaleReservation, s)
            | Some (idn, e) \<Rightarrow>
                let e1 = e\<lparr>en_state := Completed, en_value := Some v\<rparr> in
                (case dt_plus t retention_ttl of
                   Inl x \<Rightarrow> (Inl x, put_entry idn e1 s)
                 | Inr ex \<Rightarrow> (Inr (ReservationCompleted ex), put_entry idn (e1\<lparr>en_expires_at := ex\<rparr>) s)))"

definition mark_uncertain ::
    "token \<Rightarrow> string \<Rightarrow> datetime \<Rightarrow> timedelta \<Rightarrow> ('v idem_store, mark_uncertain_result) act" where
  "mark_uncertain tok reason now retention_ttl s =
     (case require_aware_utc now of
        Inl e \<Rightarrow> (Inl e, s)
      | Inr t \<Rightarrow>
          if reason = [] then (Inl ValueError, s)
          else if retention_ttl \<le> 0 then (Inl ValueError, s)
          else
            case executing tok t s of
              None \<Rightarrow> (Inr MarkStaleReservation, s)
            | Some (idn, e) \<Rightarrow>
                let e1 = e\<lparr>en_state := MarkedUncertain, en_reason := Some reason\<rparr> in
                (case dt_plus t retention_ttl of
                   Inl x \<Rightarrow> (Inl x, put_entry idn e1 s)
                 | Inr ex \<Rightarrow> (Inr (ReservationMarkedUncertain ex),
                     put_entry idn (e1\<lparr>en_expires_at := ex\<rparr>) s)))"

definition abandon :: "token \<Rightarrow> datetime \<Rightarrow> ('v idem_store, abandon_reservation) act" where
  "abandon tok now s =
     (case require_aware_utc now of
        Inl e \<Rightarrow> (Inl e, s)
      | Inr t \<Rightarrow>
          case executing tok t s of
            None \<Rightarrow> (Inr AbandonStaleReservation, s)
          | Some (idn, e) \<Rightarrow>
              (Inr ReservationAbandoned,
               s\<lparr>is_entries := dict_pop idn (is_entries s),
                 is_tokens := dict_pop tok (is_tokens s)\<rparr>))"

definition idem_due :: "purge_uncertain_plan \<Rightarrow> identity \<times> 'v idem_entry \<Rightarrow> bool" where
  "idem_due plan p \<longleftrightarrow> en_expires_at (snd p) \<le> mp_cutoff plan
     \<and> (en_state (snd p) \<noteq> MarkedUncertain \<or> mp_include_uncertain plan)"

definition idem_age ::
    "purge_uncertain_plan \<Rightarrow> identity \<times> 'v idem_entry \<Rightarrow> instant \<times> string \<times> string \<times> string \<times> string" where
  "idem_age plan p =
     (en_expires_at (snd p), isc_namespace (id_scope (fst p)), isc_subject (id_scope (fst p)),
      isc_operation (id_scope (fst p)), id_key (fst p))"

definition idem_purge :: "purge_uncertain_plan \<Rightarrow> ('v idem_store, maintenance_summary) act" where
  "idem_purge plan s =
     (let selected = select_batch (idem_due plan) (idem_age plan) (mp_batch_size plan) (is_entries s) in
      (batch_summary (mp_dry_run plan) (length selected),
       if mp_dry_run plan then s else drop_entries selected s))"

definition mem_idem_port :: "('v, 'v idem_store) idem_port" where
  "mem_idem_port = \<lparr>reserve_op = reserve, renew_op = renew, complete_op = complete,
                    mark_uncertain_op = mark_uncertain, abandon_op = abandon\<rparr>"

section \<open>The coordinator\<close>

text \<open>\<open>now\<close> is the reading of the coordinator's clock at the call.\<close>

definition coordinator_begin ::
    "('v, 's) idem_port \<Rightarrow> idem_policy \<Rightarrow> datetime \<Rightarrow> idem_scope \<Rightarrow> string \<Rightarrow> fingerprint \<Rightarrow> string
     \<Rightarrow> ('s, 'v idem_decision) act" where
  "coordinator_begin port policy now scope key fp uuid =
     reserve_op port scope key fp now (execution_lease_ttl policy) uuid"

definition coordinator_renew ::
    "('v, 's) idem_port \<Rightarrow> idem_policy \<Rightarrow> datetime \<Rightarrow> token \<Rightarrow> ('s, renew_reservation) act" where
  "coordinator_renew port policy now tok = renew_op port tok now (execution_lease_ttl policy)"

definition coordinator_complete ::
    "('v, 's) idem_port \<Rightarrow> idem_policy \<Rightarrow> datetime \<Rightarrow> token \<Rightarrow> 'v \<Rightarrow> ('s, complete_reservation) act" where
  "coordinator_complete port policy now tok v =
     complete_op port tok v now (result_retention_ttl policy)"

definition coordinator_uncertain ::
    "('v, 's) idem_port \<Rightarrow> idem_policy \<Rightarrow> datetime \<Rightarrow> token \<Rightarrow> string \<Rightarrow> ('s, mark_uncertain_result) act" where
  "coordinator_uncertain port policy now tok reason =
     mark_uncertain_op port tok reason now (uncertainty_retention_ttl policy)"

definition coordinator_abandon ::
    "('v, 's) idem_port \<Rightarrow> datetime \<Rightarrow> token \<Rightarrow> ('s, abandon_reservation) act" where
  "coordinator_abandon port now tok = abandon_op port tok now"

section \<open>The conformance harness\<close>

text \<open>\<open>fp_of\<close> is \<open>RequestFingerprint.from_json\<close> (a SHA-256 digest), \<open>uuid n\<close> the UUID drawn
  by the \<open>n\<close>-th reservation of the exercise.\<close>

definition is_execute :: "'v idem_decision \<Rightarrow> bool" where
  "is_execute d = (case d of Execute _ \<Rightarrow> True | _ \<Rightarrow> False)"

definition the_token :: "'v idem_decision \<Rightarrow> token" where
  "the_token d = (case d of Execute tok \<Rightarrow> tok | _ \<Rightarrow> [])"

definition harness_scope :: idem_scope where
  "harness_scope = \<lparr>isc_namespace = ''test'', isc_subject = ''subject'', isc_operation = ''operation''\<rparr>"

definition idem_exercise ::
    "('v, 's) idem_port \<Rightarrow> (json \<Rightarrow> fingerprint) \<Rightarrow> (nat \<Rightarrow> string) \<Rightarrow> 'v \<Rightarrow> instant \<Rightarrow> ('s, unit) act" where
  "idem_exercise port fp_of uuid v now =
     (let lease_ttl = seconds 60; retention_ttl = seconds 3600; at = utc_datetime;
          scope = harness_scope;
          first = fp_of (JDict [(KStr ''value'', JInt 1)]);
          different = fp_of (JDict [(KStr ''value'', JInt 2)]);
          renewed_at = now + seconds 1 in
      sbind (reserve_op port scope ''consumer-key'' first (at now) lease_ttl (uuid 0)) (\<lambda>d0.
      sbind (sassert (is_execute d0)) (\<lambda>_.
      sbind (reserve_op port scope ''consumer-key'' first (at now) lease_ttl (uuid 1)) (\<lambda>d1.
      sbind (sassert (case d1 of InProgress _ \<Rightarrow> True | _ \<Rightarrow> False)) (\<lambda>_.
      sbind (reserve_op port scope ''consumer-key'' different (at now) lease_ttl (uuid 2)) (\<lambda>d2.
      sbind (sassert (case d2 of Conflict _ \<Rightarrow> True | _ \<Rightarrow> False)) (\<lambda>_.
      sbind (renew_op port (the_token d0) (at renewed_at) lease_ttl) (\<lambda>r.
      sbind (sassert (case r of ReservationRenewed _ \<Rightarrow> True | _ \<Rightarrow> False)) (\<lambda>_.
      sbind (complete_op port (the_token d0) v (at renewed_at) retention_ttl) (\<lambda>c.
      sbind (sassert (case c of ReservationCompleted _ \<Rightarrow> True | _ \<Rightarrow> False)) (\<lambda>_.
      sbind (reserve_op port scope ''consumer-key'' first (at (now + lease_ttl)) lease_ttl (uuid 3)) (\<lambda>d3.
      sbind (sassert (case d3 of Replay w \<Rightarrow> w = Some v | _ \<Rightarrow> False)) (\<lambda>_.
      sbind (reserve_op port scope ''uncertain'' first (at now) lease_ttl (uuid 4)) (\<lambda>d4.
      sbind (sassert (is_execute d4)) (\<lambda>_.
      sbind (mark_uncertain_op port (the_token d4) ''outcome unknown'' (at now) retention_ttl) (\<lambda>m.
      sbind (sassert (case m of ReservationMarkedUncertain _ \<Rightarrow> True | _ \<Rightarrow> False)) (\<lambda>_.
      sbind (reserve_op port scope ''uncertain'' first (at now) lease_ttl (uuid 5)) (\<lambda>d5.
      sbind (sassert (case d5 of Uncertain _ \<Rightarrow> True | _ \<Rightarrow> False)) (\<lambda>_.
      sbind (reserve_op port scope ''abandoned'' first (at now) lease_ttl (uuid 6)) (\<lambda>d6.
      sbind (sassert (is_execute d6)) (\<lambda>_.
      sbind (abandon_op port (the_token d6) (at now)) (\<lambda>a.
      sbind (sassert (a = ReservationAbandoned)) (\<lambda>_.
      sbind (reserve_op port scope ''abandoned'' first (at now) lease_ttl (uuid 7)) (\<lambda>d7.
      sbind (sassert (is_execute d7)) (\<lambda>_.
      sbind (reserve_op port scope ''expiring'' first (at now) lease_ttl (uuid 8)) (\<lambda>d8.
      sbind (sassert (is_execute d8)) (\<lambda>_.
      sbind (reserve_op port scope ''expiring'' first (at (now + lease_ttl)) lease_ttl (uuid 9)) (\<lambda>d9.
      sassert (is_execute d9 \<and> the_token d9 \<noteq> the_token d8)))))))))))))))))))))))))))))"

section \<open>The store invariant\<close>

definition idem_entry_ok :: "'v idem_entry \<Rightarrow> bool" where
  "idem_entry_ok e \<longleftrightarrow> en_token e \<noteq> [] \<and>
     (case en_state e of
        Reserved \<Rightarrow> en_value e = None \<and> en_reason e = None
      | Completed \<Rightarrow> en_value e \<noteq> None
      | MarkedUncertain \<Rightarrow> (\<exists>r. en_reason e = Some r \<and> r \<noteq> []))"

text \<open>The token dictionary is exactly the inverse of the entries' tokens.\<close>

definition token_index :: "'v idem_store \<Rightarrow> bool" where
  "token_index s \<longleftrightarrow> (\<forall>tok idn. dict_get (is_tokens s) tok = Some idn \<longleftrightarrow>
     (\<exists>e. dict_get (is_entries s) idn = Some e \<and> en_token e = tok))"

definition idem_inv :: "'v idem_store \<Rightarrow> bool" where
  "idem_inv s \<longleftrightarrow> 0 < is_capacity s \<and> dict_ok (is_entries s) \<and> dict_ok (is_tokens s)
     \<and> int (length (is_entries s)) \<le> is_capacity s
     \<and> (\<forall>idn e. dict_get (is_entries s) idn = Some e \<longrightarrow> idem_entry_ok e)
     \<and> token_index s"

lemma token_indexD:
  "token_index s \<Longrightarrow> dict_get (is_tokens s) tok = Some idn \<Longrightarrow>
     \<exists>e. dict_get (is_entries s) idn = Some e \<and> en_token e = tok"
  by (simp add: token_index_def)

lemma token_indexI:
  "token_index s \<Longrightarrow> dict_get (is_entries s) idn = Some e \<Longrightarrow>
     dict_get (is_tokens s) (en_token e) = Some idn"
  by (simp add: token_index_def)

lemma executing_Some:
  assumes "executing tok t s = Some (idn, e)"
  shows "dict_get (is_tokens s) tok = Some idn" "dict_get (is_entries s) idn = Some e"
    "en_token e = tok" "en_state e = Reserved" "t < en_expires_at e"
  using assms by (auto simp: executing_def split: option.splits if_splits)

lemma executing_iff:
  assumes "token_index s"
  shows "executing tok t s = Some (idn, e) \<longleftrightarrow>
    dict_get (is_entries s) idn = Some e \<and> en_token e = tok \<and> en_state e = Reserved \<and> t < en_expires_at e"
    (is "?l \<longleftrightarrow> ?r")
proof
  assume ?l then show ?r by (simp add: executing_Some)
next
  assume r: ?r
  then have "dict_get (is_tokens s) tok = Some idn" using token_indexI [OF assms] by blast
  with r show ?l by (simp add: executing_def)
qed

lemma drop_entries_index:
  assumes idx: "token_index s" and ok: "dict_ok (is_entries s)" and sub: "set sel \<subseteq> set (is_entries s)"
  shows "token_index (drop_entries sel s)"
proof -
  have "idn \<in> fst ` set sel \<longleftrightarrow> en_token e \<in> (\<lambda>p. en_token (snd p)) ` set sel"
    if get: "dict_get (is_entries s) idn = Some e" for idn e
  proof
    assume "idn \<in> fst ` set sel"
    then obtain e' where e': "(idn, e') \<in> set sel" by auto
    with sub ok have "dict_get (is_entries s) idn = Some e'" by (auto simp: dict_get_iff)
    with get e' show "en_token e \<in> (\<lambda>p. en_token (snd p)) ` set sel" by force
  next
    assume "en_token e \<in> (\<lambda>p. en_token (snd p)) ` set sel"
    then obtain idn' e' where p: "(idn', e') \<in> set sel" "en_token e' = en_token e" by auto
    with sub ok have "dict_get (is_entries s) idn' = Some e'" by (auto simp: dict_get_iff)
    from token_indexI [OF idx this] token_indexI [OF idx get] p(2) have "idn' = idn" by simp
    with p(1) show "idn \<in> fst ` set sel" by force
  qed
  then show ?thesis
    using idx unfolding token_index_def drop_entries_def
    by (simp add: dict_simps) blast
qed

lemma drop_entries_inv:
  assumes "idem_inv s" and "set sel \<subseteq> set (is_entries s)"
  shows "idem_inv (drop_entries sel s)"
proof -
  have "token_index (drop_entries sel s)"
    using assms by (intro drop_entries_index) (auto simp: idem_inv_def)
  moreover have "int (length (pop_all (map fst sel) (is_entries s))) \<le> is_capacity s"
    using assms(1) length_pop_all_le [of "map fst sel" "is_entries s"] by (simp add: idem_inv_def)
  ultimately show ?thesis
    using assms(1) by (auto simp: idem_inv_def drop_entries_def dict_simps split: if_splits)
qed

lemma purge_expired_inv: "idem_inv s \<Longrightarrow> idem_inv (purge_expired t s)"
  unfolding purge_expired_def by (rule drop_entries_inv) auto

lemma put_entry_inv:
  assumes inv: "idem_inv s" and get: "dict_get (is_entries s) idn = Some e"
    and e': "en_token e' = en_token e" "idem_entry_ok e'"
  shows "idem_inv (put_entry idn e' s)"
proof -
  have "token_index (put_entry idn e' s)"
    using inv get e'(1) unfolding idem_inv_def token_index_def put_entry_def
    by (auto simp: dict_simps)
  then show ?thesis
    using inv get e'(2) by (auto simp: idem_inv_def put_entry_def dict_simps)
qed

lemma add_entry_inv:
  assumes inv: "idem_inv s" and room: "int (length (is_entries s)) < is_capacity s"
    and new: "dict_get (is_entries s) idn = None" "dict_get (is_tokens s) (en_token e) = None"
    and e: "idem_entry_ok e"
  shows "idem_inv (s\<lparr>is_entries := dict_set idn e (is_entries s),
                     is_tokens := dict_set (en_token e) idn (is_tokens s)\<rparr>)" (is "idem_inv ?s")
proof -
  have fresh: "en_token e' \<noteq> en_token e" if "dict_get (is_entries s) idn' = Some e'" for idn' e'
    using inv new(2) that by (auto simp: idem_inv_def dest: token_indexI)
  have "token_index ?s"
    using inv new fresh unfolding idem_inv_def token_index_def
    by (auto simp: dict_simps)
  then show ?thesis
    using inv room new e by (auto simp: idem_inv_def dict_simps)
qed

section \<open>Calls, steps and preservation\<close>

datatype 'v idem_call =
    Reserve idem_scope string fingerprint datetime timedelta string
  | Renew token datetime timedelta
  | Complete token 'v datetime timedelta
  | MarkUncertain token string datetime timedelta
  | Abandon token datetime
  | Purge purge_uncertain_plan

datatype 'v idem_reply =
    ReserveReply "'v idem_decision res"
  | RenewReply "renew_reservation res"
  | CompleteReply "complete_reservation res"
  | MarkReply "mark_uncertain_result res"
  | AbandonReply "abandon_reservation res"
  | PurgeReply "maintenance_summary res"

fun idem_step :: "'v idem_call \<Rightarrow> 'v idem_store \<Rightarrow> 'v idem_reply \<times> 'v idem_store" where
  "idem_step (Reserve sc k fp now ttl u) s = apfst ReserveReply (reserve sc k fp now ttl u s)"
| "idem_step (Renew tok now ttl) s = apfst RenewReply (renew tok now ttl s)"
| "idem_step (Complete tok v now ttl) s = apfst CompleteReply (complete tok v now ttl s)"
| "idem_step (MarkUncertain tok r now ttl) s = apfst MarkReply (mark_uncertain tok r now ttl s)"
| "idem_step (Abandon tok now) s = apfst AbandonReply (abandon tok now s)"
| "idem_step (Purge plan) s = apfst PurgeReply (idem_purge plan s)"

text \<open>The UUID a reservation draws is not the token of a live entry.\<close>

fun idem_fresh :: "'v idem_call \<Rightarrow> 'v idem_store \<Rightarrow> bool" where
  "idem_fresh (Reserve sc k fp now ttl u) s = (dict_get (is_tokens s) u = None)"
| "idem_fresh _ s = True"

lemma reserve_cases:
  assumes "reserve sc k fp now ttl u s = (x, s')"
  obtains (rejected) "s' = s" "\<exists>e. x = Inl e"
  | (known) t cur where "require_aware_utc now = Inr t"
      "dict_get (is_entries (purge_expired t s)) (Identity sc k) = Some cur"
      "s' = (purge_expired t s)\<lparr>is_entries := move_to_end (Identity sc k) (is_entries (purge_expired t s))\<rparr>"
      "\<forall>tok. x \<noteq> Inr (Execute tok)"
  | (full) t where "require_aware_utc now = Inr t" "s' = purge_expired t s"
      "dict_get (is_entries (purge_expired t s)) (Identity sc k) = None"
      "\<forall>tok. x \<noteq> Inr (Execute tok)"
  | (executed) t e where "require_aware_utc now = Inr t" "0 < ttl" "k \<noteq> []"
      "dict_get (is_entries (purge_expired t s)) (Identity sc k) = None"
      "int (length (is_entries (purge_expired t s))) < is_capacity (purge_expired t s)"
      "e = \<lparr>en_token = u, en_fingerprint = fp, en_expires_at = t + ttl, en_state = Reserved,
            en_value = None, en_reason = None\<rparr>" "u \<noteq> []" "x = Inr (Execute u)"
      "s' = (purge_expired t s)\<lparr>is_entries := dict_set (Identity sc k) e (is_entries (purge_expired t s)),
              is_tokens := dict_set u (Identity sc k) (is_tokens (purge_expired t s))\<rparr>"
proof (cases "require_aware_utc now")
  case (Inl e)
  with assms show thesis by (intro rejected) (auto simp: reserve_def)
next
  case (Inr t)
  show thesis
  proof (cases "k = [] \<or> ttl \<le> 0")
    case True
    with assms Inr show thesis by (intro rejected) (auto simp: reserve_def split: if_splits)
  next
    case args: False
    show thesis
    proof (cases "dict_get (is_entries (purge_expired t s)) (Identity sc k)")
      case (Some cur)
      with assms Inr args show thesis
        by (intro known [of t cur]) (auto simp: reserve_def Let_def split: if_splits)
    next
      case None
      show thesis
      proof (cases "x = Inr (Execute u)")
        case True
        with assms Inr args None show thesis
          by (intro executed [of t])
            (auto simp: reserve_def Let_def mk_reservation_token_def and_then_eq_Inr dt_plus_Inr_iff
               split: if_splits sum.splits)
      next
        case False
        with assms Inr args None show thesis
          by (intro full [of t])
            (auto simp: reserve_def Let_def mk_reservation_token_def and_then_eq_Inr
               split: if_splits sum.splits)
      qed
    qed
  qed
qed

lemma purge_expired_tokens:
  "dict_get (is_tokens s) u = None \<Longrightarrow> dict_get (is_tokens (purge_expired t s)) u = None"
  by (simp add: purge_expired_def drop_entries_def dict_simps)

lemma reserve_inv:
  assumes inv: "idem_inv s" and fresh: "dict_get (is_tokens s) u = None"
  shows "idem_inv (snd (reserve sc k fp now ttl u s))"
proof -
  obtain x s' where a: "reserve sc k fp now ttl u s = (x, s')" by fastforce
  then show ?thesis
  proof (cases rule: reserve_cases)
    case rejected
    with a inv show ?thesis by simp
  next
    case (known t cur)
    from purge_expired_inv [OF inv, of t] have "idem_inv s'"
      unfolding known(3) by (simp add: idem_inv_def token_index_def dict_simps)
    with a show ?thesis by simp
  next
    case (full t)
    with a purge_expired_inv [OF inv, of t] show ?thesis by simp
  next
    case (executed t e)
    have "idem_inv ((purge_expired t s)\<lparr>is_entries := dict_set (Identity sc k) e (is_entries (purge_expired t s)),
              is_tokens := dict_set (en_token e) (Identity sc k) (is_tokens (purge_expired t s))\<rparr>)"
      using executed fresh
      by (intro add_entry_inv purge_expired_inv inv)
        (auto simp: idem_entry_ok_def purge_expired_tokens)
    with a executed show ?thesis by simp
  qed
qed

lemma executing_put_inv:
  assumes inv: "idem_inv s" and ex: "executing tok t s = Some (idn, e)"
    and e': "en_token e' = en_token e" "idem_entry_ok e'"
  shows "idem_inv (put_entry idn e' s)"
  using put_entry_inv [OF inv executing_Some(2) [OF ex] e'] .

lemma executing_reserved:
  assumes "executing tok t s = Some (idn, e)" and "idem_inv s"
  shows "en_token e \<noteq> [] \<and> en_state e = Reserved \<and> en_value e = None \<and> en_reason e = None"
  using assms executing_Some [OF assms(1)] by (force simp: idem_inv_def idem_entry_ok_def)

lemma renew_inv: "idem_inv s \<Longrightarrow> idem_inv (snd (renew tok now ttl s))"
  by (auto simp: renew_def idem_entry_ok_def split: sum.splits option.splits
      intro!: executing_put_inv dest: executing_reserved)

lemma complete_inv: "idem_inv s \<Longrightarrow> idem_inv (snd (complete tok v now ttl s))"
  by (auto simp: complete_def Let_def idem_entry_ok_def split: sum.splits option.splits
      intro!: executing_put_inv dest: executing_reserved)

lemma mark_uncertain_inv: "idem_inv s \<Longrightarrow> idem_inv (snd (mark_uncertain tok r now ttl s))"
  by (auto simp: mark_uncertain_def Let_def idem_entry_ok_def split: sum.splits option.splits
      intro!: executing_put_inv dest: executing_reserved)

lemma abandon_drop:
  assumes "executing tok t s = Some (idn, e)"
  shows "s\<lparr>is_entries := dict_pop idn (is_entries s), is_tokens := dict_pop tok (is_tokens s)\<rparr>
    = drop_entries [(idn, e)] s"
  using executing_Some [OF assms] by (simp add: drop_entries_def pop_all_def)

lemma abandon_inv: "idem_inv s \<Longrightarrow> idem_inv (snd (abandon tok now s))"
  by (auto simp: abandon_def abandon_drop split: sum.splits option.splits
      intro!: drop_entries_inv dest!: executing_Some(2) dict_get_in_set)

lemma idem_purge_inv: "idem_inv s \<Longrightarrow> idem_inv (snd (idem_purge plan s))"
  by (auto simp: idem_purge_def Let_def intro!: drop_entries_inv dest: select_batch_subset)

interpretation idem_machine: guarded_machine idem_step idem_inv idem_fresh
proof
  fix s :: "'a idem_store" and c
  assume "idem_inv s" "idem_fresh c s"
  then show "idem_inv (snd (idem_step c s))"
    by (cases c) (simp_all add: reserve_inv renew_inv complete_inv mark_uncertain_inv abandon_inv
        idem_purge_inv)
qed

section \<open>Completed results are kept\<close>

definition completed_as :: "identity \<Rightarrow> fingerprint \<Rightarrow> 'v \<Rightarrow> instant \<Rightarrow> 'v idem_store \<Rightarrow> bool" where
  "completed_as idn fp v ex s \<longleftrightarrow> (\<exists>e. dict_get (is_entries s) idn = Some e \<and> en_fingerprint e = fp
     \<and> en_state e = Completed \<and> en_value e = Some v \<and> en_expires_at e = ex)"

text \<open>Calls that happen before instant \<open>ex\<close>: reservations read the clock before it and purges
  cut off before it.  Other calls are unrestricted.\<close>

fun before_instant :: "instant \<Rightarrow> 'v idem_call \<Rightarrow> 'v idem_store \<Rightarrow> bool" where
  "before_instant ex (Reserve sc k fp now ttl u) s \<longleftrightarrow>
     dict_get (is_tokens s) u = None \<and> (\<forall>t. require_aware_utc now = Inr t \<longrightarrow> t < ex)"
| "before_instant ex (Purge plan) s \<longleftrightarrow> mp_cutoff plan < ex \<or> mp_dry_run plan"
| "before_instant ex _ s \<longleftrightarrow> True"

lemma before_instant_fresh: "before_instant ex c s \<Longrightarrow> idem_fresh c s"
  by (cases c) auto

lemma drop_entries_get:
  assumes "dict_ok (is_entries s)" and "set sel \<subseteq> set (is_entries s)"
    and "dict_get (is_entries s) idn = Some e" and "(idn, e) \<notin> set sel"
  shows "dict_get (is_entries (drop_entries sel s)) idn = Some e"
  using pop_selected_keeps [OF assms] by (simp add: drop_entries_def)

lemma completed_purge_expired:
  assumes "idem_inv s" and "completed_as idn fp v ex s" and "t < ex"
  shows "completed_as idn fp v ex (purge_expired t s)"
proof -
  from assms(2) obtain e where e: "dict_get (is_entries s) idn = Some e" "en_fingerprint e = fp"
      "en_state e = Completed" "en_value e = Some v" "en_expires_at e = ex"
    by (auto simp: completed_as_def)
  have "dict_get (is_entries (purge_expired t s)) idn = Some e"
    unfolding purge_expired_def using assms(1,3) e
    by (intro drop_entries_get) (auto simp: idem_inv_def)
  with e show ?thesis by (auto simp: completed_as_def)
qed

lemma completed_put:
  assumes "completed_as idn fp v ex s" and "executing tok t s = Some (idn', e)"
  shows "completed_as idn fp v ex (put_entry idn' e' s)"
  using assms executing_Some [OF assms(2)]
  by (auto simp: completed_as_def put_entry_def dict_simps)

lemma completed_token_calls:
  assumes "completed_as idn fp v ex s"
  shows "completed_as idn fp v ex (snd (renew tok now ttl s))"
    and "completed_as idn fp v ex (snd (complete tok w now ttl s))"
    and "completed_as idn fp v ex (snd (mark_uncertain tok r now ttl s))"
  using assms completed_put [OF assms]
  by (auto simp: renew_def complete_def mark_uncertain_def Let_def split: sum.splits option.splits)

lemma completed_abandon:
  assumes "completed_as idn fp v ex s"
  shows "completed_as idn fp v ex (snd (abandon tok now s))"
proof -
  have "completed_as idn fp v ex (s\<lparr>is_entries := dict_pop idn' (is_entries s),
      is_tokens := dict_pop tok (is_tokens s)\<rparr>)" if "executing tok t s = Some (idn', e)" for t idn' e
    using assms executing_Some [OF that] by (auto simp: completed_as_def dict_simps)
  then show ?thesis using assms by (auto simp: abandon_def split: sum.splits option.splits)
qed

lemma completed_reserve:
  assumes inv: "idem_inv s" and comp: "completed_as idn fp v ex s"
    and t: "\<And>t. require_aware_utc now = Inr t \<Longrightarrow> t < ex"
  shows "completed_as idn fp v ex (snd (reserve sc k fp' now ttl u s))"
proof -
  obtain x s' where a: "reserve sc k fp' now ttl u s = (x, s')" by fastforce
  have kept: "completed_as idn fp v ex (purge_expired t s)" if "require_aware_utc now = Inr t" for t
    using completed_purge_expired [OF inv comp t [OF that]] .
  from a show ?thesis
  proof (cases rule: reserve_cases)
    case rejected
    with a comp show ?thesis by simp
  next
    case (known t cur)
    with a kept [of t] show ?thesis by (auto simp: completed_as_def dict_simps)
  next
    case (full t)
    with a kept [of t] show ?thesis by simp
  next
    case (executed t e)
    with a kept [of t] show ?thesis by (auto simp: completed_as_def dict_simps)
  qed
qed

lemma completed_purge:
  assumes inv: "idem_inv s" and comp: "completed_as idn fp v ex s"
    and cut: "mp_cutoff plan < ex \<or> mp_dry_run plan"
  shows "completed_as idn fp v ex (snd (idem_purge plan s))"
proof -
  from comp obtain e where e: "dict_get (is_entries s) idn = Some e" "en_fingerprint e = fp"
      "en_state e = Completed" "en_value e = Some v" "en_expires_at e = ex"
    by (auto simp: completed_as_def)
  let ?sel = "select_batch (idem_due plan) (idem_age plan) (mp_batch_size plan) (is_entries s)"
  show ?thesis
  proof (cases "mp_dry_run plan")
    case True
    with comp show ?thesis by (simp add: idem_purge_def)
  next
    case False
    have "dict_get (is_entries (drop_entries ?sel s)) idn = Some e"
      using inv e cut False
      by (intro drop_entries_get) (auto simp: idem_inv_def idem_due_def dest!: select_batch_subset)
    with e False show ?thesis by (auto simp: completed_as_def idem_purge_def Let_def)
  qed
qed

interpretation kept_result: guarded_machine idem_step
    "\<lambda>s. idem_inv s \<and> completed_as idn fp v ex s" "before_instant ex"
  for idn fp v ex
proof (unfold_locales, elim conjE, intro conjI)
  fix s :: "'a idem_store" and c
  assume inv: "idem_inv s" and comp: "completed_as idn fp v ex s" and b: "before_instant ex c s"
  show "idem_inv (snd (idem_step c s))"
    using inv before_instant_fresh [OF b] by (rule idem_machine.inv_step)
  show "completed_as idn fp v ex (snd (idem_step c s))"
    using inv comp b
    by (cases c) (simp_all add: completed_reserve completed_token_calls completed_abandon completed_purge)
qed

lemma replay_of_completed:
  assumes inv: "idem_inv s" and comp: "completed_as (Identity sc k) fp v ex s"
    and now: "require_aware_utc now = Inr t" "t < ex" and args: "k \<noteq> []" "0 < ttl"
  shows "fst (reserve sc k fp now ttl u s) = Inr (Replay (Some v))"
proof -
  from completed_purge_expired [OF inv comp now(2)] obtain e where
    "dict_get (is_entries (purge_expired t s)) (Identity sc k) = Some e" "en_fingerprint e = fp"
    "en_state e = Completed" "en_value e = Some v" by (auto simp: completed_as_def)
  with now(1) args show ?thesis by (simp add: reserve_def Let_def)
qed

lemma complete_completes:
  assumes "idem_inv s" and "complete tok v now ttl s = (Inr (ReservationCompleted ex), s')"
    and "dict_get (is_tokens s) tok = Some idn" and "dict_get (is_entries s) idn = Some e"
  shows "completed_as idn (en_fingerprint e) v ex s'"
  using assms
  by (auto simp: complete_def executing_def completed_as_def put_entry_def dict_simps Let_def
      split: sum.splits option.splits if_splits)

section \<open>A superseded token stays stale\<close>

text \<open>No reservation of the run draws \<open>tok\<close> again.\<close>

fun never_draws :: "token \<Rightarrow> 'v idem_call \<Rightarrow> 'v idem_store \<Rightarrow> bool" where
  "never_draws tok (Reserve sc k fp now ttl u) s \<longleftrightarrow> u \<noteq> tok"
| "never_draws tok _ s \<longleftrightarrow> True"

lemma drop_entries_token_None:
  "dict_get (is_tokens s) tok = None \<Longrightarrow> dict_get (is_tokens (drop_entries sel s)) tok = None"
  by (simp add: drop_entries_def dict_simps)

lemma reserve_token_None:
  assumes "dict_get (is_tokens s) tok = None" and "u \<noteq> tok"
  shows "dict_get (is_tokens (snd (reserve sc k fp now ttl u s))) tok = None"
proof -
  obtain x s' where a: "reserve sc k fp now ttl u s = (x, s')" by fastforce
  then show ?thesis
    by (cases rule: reserve_cases)
      (use a assms in \<open>auto simp: purge_expired_tokens dict_simps\<close>)
qed

interpretation dead_token: guarded_machine idem_step
    "\<lambda>s. dict_get (is_tokens s) tok = None" "never_draws tok"
  for tok
proof
  fix s :: "'a idem_store" and c
  assume "dict_get (is_tokens s) tok = None" "never_draws tok c s"
  then show "dict_get (is_tokens (snd (idem_step c s))) tok = None"
    by (cases c)
      (auto simp: reserve_token_None renew_def complete_def mark_uncertain_def abandon_def idem_purge_def
         put_entry_def dict_simps drop_entries_token_None Let_def split: sum.splits option.splits)
qed

lemma dead_token_stale:
  assumes "dict_get (is_tokens s) tok = None" and "require_aware_utc now = Inr t" and "0 < ttl"
  shows "renew tok now ttl s = (Inr RenewStaleReservation, s)"
    and "complete tok v now ttl s = (Inr CompleteStaleReservation, s)"
    and "abandon tok now s = (Inr AbandonStaleReservation, s)"
  using assms by (simp_all add: renew_def complete_def abandon_def executing_def)

lemma execute_kills_other:
  assumes inv: "idem_inv s" and tok: "dict_get (is_tokens s) tok = Some (Identity sc k)"
    and exec: "reserve sc k fp now ttl u s = (Inr (Execute tok'), s')"
    and fresh: "dict_get (is_tokens s) u = None"
  shows "dict_get (is_tokens s') tok = None \<and> tok' = u \<and> tok' \<noteq> tok"
proof -
  from exec show ?thesis
  proof (cases rule: reserve_cases)
    case (executed t e)
    have idx: "token_index (purge_expired t s)"
      using purge_expired_inv [OF inv] by (simp add: idem_inv_def)
    have "dict_get (is_tokens (purge_expired t s)) tok \<noteq> Some (Identity sc k)"
      using token_indexD [OF idx, of tok "Identity sc k"] executed(4) by auto
    with tok have "dict_get (is_tokens (purge_expired t s)) tok = None"
      by (auto simp: purge_expired_def drop_entries_def dict_simps split: if_splits)
    moreover have "u \<noteq> tok" using tok fresh by auto
    ultimately show ?thesis using executed by (auto simp: dict_simps)
  qed auto
qed

section \<open>What the coordinator relies on\<close>

locale idempotency_store =
  fixes port :: "('v, 's) idem_port"
    and inv :: "'s \<Rightarrow> bool"
    and unused :: "'s \<Rightarrow> string \<Rightarrow> bool"
    and owns :: "'s \<Rightarrow> token \<Rightarrow> identity \<Rightarrow> fingerprint \<Rightarrow> instant \<Rightarrow> bool"
    and kept :: "identity \<Rightarrow> fingerprint \<Rightarrow> 'v \<Rightarrow> instant \<Rightarrow> 's \<Rightarrow> bool"
  assumes reserve_executes: "inv s \<Longrightarrow> unused s u \<Longrightarrow> require_aware_utc now = Inr t \<Longrightarrow>
        reserve_op port sc k fp now ttl u s = (Inr (Execute tok), s') \<Longrightarrow>
        inv s' \<and> owns s' tok (Identity sc k) fp (t + ttl)"
    and complete_owned: "inv s \<Longrightarrow> owns s tok idn fp ex \<Longrightarrow> require_aware_utc now = Inr t \<Longrightarrow> t < ex \<Longrightarrow>
        0 < ttl \<Longrightarrow> 0 \<le> t \<Longrightarrow> t + ttl \<le> dt_max \<Longrightarrow>
        \<exists>s'. complete_op port tok v now ttl s = (Inr (ReservationCompleted (t + ttl)), s')
          \<and> inv s' \<and> kept idn fp v (t + ttl) s'"
    and kept_replays: "inv s \<Longrightarrow> kept (Identity sc k) fp v ex s \<Longrightarrow> require_aware_utc now = Inr t \<Longrightarrow>
        t < ex \<Longrightarrow> k \<noteq> [] \<Longrightarrow> 0 < ttl \<Longrightarrow> fst (reserve_op port sc k fp now ttl u s) = Inr (Replay (Some v))"
begin

lemma begin_complete_begin:
  assumes "inv s" and "unused s u" and "k \<noteq> []" and policy: "0 < execution_lease_ttl p" "0 < result_retention_ttl p"
    and exec: "coordinator_begin port p (utc_datetime t0) sc k fp u s = (Inr (Execute tok), s1)"
    and t1: "0 \<le> t1" "t1 < t0 + execution_lease_ttl p" "t1 + result_retention_ttl p \<le> dt_max"
    and t2: "t2 < t1 + result_retention_ttl p"
  shows "\<exists>s2. coordinator_complete port p (utc_datetime t1) tok v s1
           = (Inr (ReservationCompleted (t1 + result_retention_ttl p)), s2)
       \<and> fst (coordinator_begin port p (utc_datetime t2) sc k fp u' s2) = Inr (Replay (Some v))"
proof -
  have own: "inv s1" "owns s1 tok (Identity sc k) fp (t0 + execution_lease_ttl p)"
    using reserve_executes [OF assms(1,2) require_aware_utc_datetime exec [unfolded coordinator_begin_def]]
    by auto
  obtain s2 where s2: "complete_op port tok v (utc_datetime t1) (result_retention_ttl p) s1
      = (Inr (ReservationCompleted (t1 + result_retention_ttl p)), s2)" "inv s2"
      "kept (Identity sc k) fp v (t1 + result_retention_ttl p) s2"
    using complete_owned [OF own require_aware_utc_datetime t1(2) policy(2) t1(1,3)] by blast
  then show ?thesis
    using kept_replays [OF s2(2,3) require_aware_utc_datetime t2 assms(3) policy(1)]
    by (simp add: coordinator_complete_def coordinator_begin_def)
qed

end

interpretation mem_idem: idempotency_store mem_idem_port idem_inv
    "\<lambda>s u. dict_get (is_tokens s) u = None"
    "\<lambda>s tok idn fp ex. \<exists>e. dict_get (is_tokens s) tok = Some idn \<and> dict_get (is_entries s) idn = Some e
       \<and> en_token e = tok \<and> en_fingerprint e = fp \<and> en_state e = Reserved \<and> en_expires_at e = ex"
    completed_as
proof (unfold_locales, goal_cases)
  case (1 s u now t sc k fp ttl tok s')
  then have r: "reserve sc k fp now ttl u s = (Inr (Execute tok), s')" by (simp add: mem_idem_port_def)
  have "idem_inv s'" using reserve_inv [OF 1(1,2)] r by (metis snd_conv)
  with r 1(3) show ?case by (cases rule: reserve_cases) (auto simp: dict_simps)
next
  case (2 s tok idn fp ex now t ttl v)
  then obtain e where e: "dict_get (is_tokens s) tok = Some idn" "dict_get (is_entries s) idn = Some e"
    "en_token e = tok" "en_fingerprint e = fp" "en_state e = Reserved" "en_expires_at e = ex" by auto
  with 2 obtain s' where c: "complete tok v now ttl s = (Inr (ReservationCompleted (t + ttl)), s')"
    by (simp add: complete_def executing_def dt_plus_def Let_def)
  with complete_inv [OF 2(1), of tok v now ttl] complete_completes [OF 2(1) c e(1,2)] e(4) show ?case
    by (simp add: mem_idem_port_def)
next
  case 3
  then show ?case by (simp add: mem_idem_port_def replay_of_completed)
qed

interpretation idem_retention: retention idem_purge is_entries idem_due idem_age
    maintenance_plan.truncate idem_inv
  by unfold_locales
    (simp_all add: idem_purge_def Let_def drop_entries_def idem_inv_def maintenance_plan.defs)

section \<open>Properties\<close>

lemma idem_inv_init: "InMemoryIdempotencyStore cap = Inr s \<Longrightarrow> idem_inv s"
  by (auto simp: InMemoryIdempotencyStore_def idem_inv_def token_index_def split: if_splits)

abbreviation empty_idem :: "int \<Rightarrow> 'v idem_store" where
  "empty_idem cap \<equiv> \<lparr>is_capacity = cap, is_entries = [], is_tokens = []\<rparr>"

lemma InMemoryIdempotencyStore_empty: "0 < cap \<Longrightarrow> InMemoryIdempotencyStore cap = Inr (empty_idem cap)"
  by (simp add: InMemoryIdempotencyStore_def)

lemmas idem_eval = reserve_def renew_def complete_def mark_uncertain_def abandon_def executing_def
  purge_expired_def drop_entries_def pop_all_def put_entry_def mk_reservation_token_def
  dt_plus_def move_to_end_def Let_def

definition sample_scope :: idem_scope where
  "sample_scope = \<lparr>isc_namespace = ''n'', isc_subject = ''s'', isc_operation = ''o''\<rparr>"

text \<open>C18.  Every schedule of calls on a new store in which each drawn UUID is not a live token keeps
  the store bounded by its capacity, its dictionaries free of duplicate keys, its entries
  consistent with their state, and the token dictionary the exact inverse of the entries.\<close>

theorem idem_runs_keep_invariant:
  assumes "InMemoryIdempotencyStore cap = Inr s" and "guarded idem_fresh idem_step cs s"
  shows "idem_inv (snd (run idem_step cs s))"
  using idem_machine.run_inv [OF idem_inv_init [OF assms(1)] assms(2)] .

theorem idem_runs_keep_invariant_witness:
  "idem_inv (snd (run idem_step
      [Reserve sample_scope ''k'' ''f'' (utc_datetime 0) 10 ''t1'', Complete ''t1'' (7::int) (utc_datetime 5) 100]
      (empty_idem 1)))"
  by (rule idem_runs_keep_invariant [of 1]) (simp_all add: InMemoryIdempotencyStore_empty)

text \<open>C1.  A completed result is replayed for its whole retention: after a successful completion that
  retains the result until \<open>ex\<close>, and any sequence of calls whose reservations read the clock
  before \<open>ex\<close> and whose purges cut off before \<open>ex\<close>, a reservation of the same identity and
  fingerprint before \<open>ex\<close> replays exactly the completed value.\<close>

theorem completed_result_is_replayed:
  assumes inv: "idem_inv s"
    and owner: "dict_get (is_tokens s) tok = Some (Identity sc k)"
      "dict_get (is_entries s) (Identity sc k) = Some e"
    and compl: "complete tok v now ttl s = (Inr (ReservationCompleted ex), s1)"
    and calls: "guarded (before_instant ex) idem_step cs s1"
    and again: "require_aware_utc now' = Inr t'" "t' < ex" "k \<noteq> []" "0 < ttl'"
  shows "fst (reserve sc k (en_fingerprint e) now' ttl' u (snd (run idem_step cs s1))) = Inr (Replay (Some v))"
proof -
  have "idem_inv s1" using complete_inv [OF inv, of tok v now ttl] compl by simp
  then have "idem_inv (snd (run idem_step cs s1))
      \<and> completed_as (Identity sc k) (en_fingerprint e) v ex (snd (run idem_step cs s1))"
    using complete_completes [OF inv compl owner] calls by (intro kept_result.run_inv) auto
  then show ?thesis using again by (intro replay_of_completed) auto
qed

definition sample_reserved :: "int idem_store" where
  "sample_reserved = snd (reserve sample_scope ''k'' ''f'' (utc_datetime 0) 10 ''t1'' (empty_idem 2))"

lemma sample_reserved_eq:
  "sample_reserved = \<lparr>is_capacity = 2,
     is_entries = [(Identity sample_scope ''k'', \<lparr>en_token = ''t1'', en_fingerprint = ''f'',
        en_expires_at = 10, en_state = Reserved, en_value = None, en_reason = None\<rparr>)],
     is_tokens = [(''t1'', Identity sample_scope ''k'')]\<rparr>"
  by (simp add: sample_reserved_def idem_eval dt_max_def)

lemma sample_reserved_inv: "idem_inv sample_reserved"
  unfolding sample_reserved_def
  by (rule reserve_inv) (simp_all add: idem_inv_init [OF InMemoryIdempotencyStore_empty])

theorem completed_result_is_replayed_witness:
  "fst (reserve sample_scope ''k'' ''f'' (utc_datetime 50) 10 ''t2''
     (snd (run idem_step [Abandon ''t1'' (utc_datetime 20)]
       (snd (complete ''t1'' 7 (utc_datetime 5) 100 sample_reserved))))) = Inr (Replay (Some 7))"
proof -
  let ?e = "\<lparr>en_token = ''t1'', en_fingerprint = ''f'', en_expires_at = 10, en_state = Reserved,
     en_value = None, en_reason = None\<rparr> :: int idem_entry"
  have "complete ''t1'' 7 (utc_datetime 5) 100 sample_reserved
      = (Inr (ReservationCompleted 105), snd (complete ''t1'' 7 (utc_datetime 5) 100 sample_reserved))"
    by (simp add: sample_reserved_eq idem_eval dt_max_def)
  from completed_result_is_replayed [OF sample_reserved_inv _ _ this, of sample_scope "''k''" ?e
      "[Abandon ''t1'' (utc_datetime 20)]" "utc_datetime 50" 50 10 "''t2''"]
  show ?thesis by (simp add: sample_reserved_eq)
qed

text \<open>A superseded reservation never takes effect: when an identity is handed to a new execution
  while an older token still named it, the older token is stale for renewal, completion and
  abandonment at every later point of every run that never draws that token again.\<close>

theorem superseded_reservation_is_stale:
  assumes inv: "idem_inv s"
    and tok: "dict_get (is_tokens s) tok = Some (Identity sc k)"
    and exec: "reserve sc k fp now ttl u s = (Inr (Execute tok'), s1)"
    and unused: "dict_get (is_tokens s) u = None"
    and calls: "guarded (never_draws tok) idem_step cs s1"
    and later: "require_aware_utc now' = Inr t'" "0 < ttl'"
  shows "complete tok v now' ttl' (snd (run idem_step cs s1))
           = (Inr CompleteStaleReservation, snd (run idem_step cs s1))
    \<and> renew tok now' ttl' (snd (run idem_step cs s1)) = (Inr RenewStaleReservation, snd (run idem_step cs s1))
    \<and> abandon tok now' (snd (run idem_step cs s1)) = (Inr AbandonStaleReservation, snd (run idem_step cs s1))"
proof -
  have "dict_get (is_tokens s1) tok = None"
    using execute_kills_other [OF inv tok exec unused] by simp
  then have "dict_get (is_tokens (snd (run idem_step cs s1))) tok = None"
    using calls by (rule dead_token.run_inv)
  then show ?thesis using later by (simp add: dead_token_stale)
qed

theorem superseded_reservation_is_stale_witness:
  "complete ''t1'' 7 (utc_datetime 12) 100
     (snd (run idem_step [] (snd (reserve sample_scope ''k'' ''f'' (utc_datetime 10) 10 ''t2'' sample_reserved))))
   = (Inr CompleteStaleReservation,
      snd (run idem_step [] (snd (reserve sample_scope ''k'' ''f'' (utc_datetime 10) 10 ''t2'' sample_reserved))))"
proof -
  have "reserve sample_scope ''k'' ''f'' (utc_datetime 10) 10 ''t2'' sample_reserved
      = (Inr (Execute ''t2''), snd (reserve sample_scope ''k'' ''f'' (utc_datetime 10) 10 ''t2'' sample_reserved))"
    by (simp add: sample_reserved_eq idem_eval dt_max_def)
  from superseded_reservation_is_stale [OF sample_reserved_inv _ this, of "''t1''" "[]" "utc_datetime 12" 12 100 7]
  show ?thesis by (simp add: sample_reserved_eq)
qed

text \<open>Coordinator round trip: an execution that completes within its lease makes the next begin
  with the same request, at any time within the retention, replay the value.\<close>

theorem coordinator_replays_completed_execution:
  assumes "idem_inv s" and "dict_get (is_tokens s) u = None" and "k \<noteq> []"
    and "mk_idem_policy lt rt ut = Inr p"
    and "coordinator_begin mem_idem_port p (utc_datetime t0) sc k fp u s = (Inr (Execute tok), s1)"
    and "0 \<le> t1" and "t1 < t0 + lt" and "t1 + rt \<le> dt_max" and "t2 < t1 + rt"
  shows "\<exists>s2. coordinator_complete mem_idem_port p (utc_datetime t1) tok v s1
           = (Inr (ReservationCompleted (t1 + rt)), s2)
       \<and> fst (coordinator_begin mem_idem_port p (utc_datetime t2) sc k fp u' s2) = Inr (Replay (Some v))"
  using mem_idem.begin_complete_begin [OF assms(1,2,3) _ _ assms(5,6), of t2 v u'] assms(4,7,8,9)
  by (auto simp: mk_idem_policy_def split: if_splits)

theorem coordinator_replays_completed_execution_witness:
  "\<exists>s2. coordinator_complete mem_idem_port
       \<lparr>execution_lease_ttl = 10, result_retention_ttl = 100, uncertainty_retention_ttl = 100\<rparr>
       (utc_datetime 5) ''t1'' (7::int) sample_reserved = (Inr (ReservationCompleted 105), s2)
     \<and> fst (coordinator_begin mem_idem_port
         \<lparr>execution_lease_ttl = 10, result_retention_ttl = 100, uncertainty_retention_ttl = 100\<rparr>
         (utc_datetime 50) sample_scope ''k'' ''f'' ''t2'' s2) = Inr (Replay (Some 7))"
proof -
  let ?p = "\<lparr>execution_lease_ttl = 10, result_retention_ttl = 100, uncertainty_retention_ttl = 100\<rparr>"
  have p: "mk_idem_policy 10 100 100 = Inr ?p" by (simp add: mk_idem_policy_def)
  have inv: "idem_inv (empty_idem 2 :: int idem_store)"
    by (rule idem_inv_init [of 2]) (simp add: InMemoryIdempotencyStore_empty)
  have "coordinator_begin mem_idem_port ?p (utc_datetime 0) sample_scope ''k'' ''f'' ''t1'' (empty_idem 2)
      = (Inr (Execute ''t1''), sample_reserved)"
    by (simp add: coordinator_begin_def mem_idem_port_def sample_reserved_eq idem_eval dt_max_def)
  from coordinator_replays_completed_execution [OF inv _ _ p this, of 5 50 7 "''t2''"]
  show ?thesis by (simp add: dt_max_def)
qed

text \<open>The in-memory store passes the idempotency conformance harness, for every UTC time with room
  for its additions, every capacity of at least four, distinct non-empty UUIDs and a
  fingerprint that tells the harness's two requests apart.\<close>

theorem idem_harness_passes:
  assumes "InMemoryIdempotencyStore cap = Inr s" and "4 \<le> cap"
    and "inj uuid" and "\<forall>n. uuid n \<noteq> []"
    and "fp_of (JDict [(KStr ''value'', JInt 1)]) \<noteq> fp_of (JDict [(KStr ''value'', JInt 2)])"
    and "0 \<le> now" and "now + seconds 3601 \<le> dt_max"
  shows "fst (idem_exercise mem_idem_port fp_of uuid v now s) = Inr ()"
proof -
  have s: "s = empty_idem cap" using assms(1) by (simp add: InMemoryIdempotencyStore_def split: if_splits)
  have u: "uuid i = uuid j \<longleftrightarrow> i = j" for i j using assms(3) by (simp add: inj_eq)
  show ?thesis
    using assms(2,4,5,6,7)
    by (simp add: s idem_exercise_def mem_idem_port_def idem_eval seconds_def sbind_def sassert_def u
        is_execute_def the_token_def)
qed

theorem idem_harness_passes_witness:
  "fst (idem_exercise mem_idem_port (\<lambda>j. if j = JDict [(KStr ''value'', JInt 1)] then ''1'' else ''2'')
     (\<lambda>n. replicate (Suc n) CHR ''x'') (7::int) 0 (empty_idem 4)) = Inr ()"
  by (rule idem_harness_passes [of 4])
    (auto simp: InMemoryIdempotencyStore_empty inj_def seconds_def dt_max_def
       dest: arg_cong [where f = length])

end
