(* ===== verification/Inbox.thy ===== *)
theory Inbox
  imports Core Maintenance
begin

text \<open>
  Model of \<open>src/src/pytitect/inbox.py\<close>: message de-duplication scoped by consumer, with
  expiring reservations, the \<open>InboxStore\<close> protocol and its conformance harness.  The
  reservation token is supplied by the caller.
\<close>

section \<open>Scopes, decisions and the protocol\<close>

record inbox_scope =
  ins_namespace :: string
  ins_source :: string
  ins_consumer :: string

definition mk_inbox_scope :: "string \<Rightarrow> string \<Rightarrow> string \<Rightarrow> inbox_scope res" where
  "mk_inbox_scope ns src con =
     (if ns = [] \<or> src = [] \<or> con = [] then Inl ValueError
      else Inr \<lparr>ins_namespace = ns, ins_source = src, ins_consumer = con\<rparr>)"

record 'p inbox_envelope =
  ie_scope :: inbox_scope
  ie_message_id :: opaque_id
  ie_payload :: 'p
  ie_received_at :: instant

definition mk_inbox_envelope :: "inbox_scope \<Rightarrow> opaque_id \<Rightarrow> 'p \<Rightarrow> datetime \<Rightarrow> 'p inbox_envelope res" where
  "mk_inbox_envelope sc m p received =
     and_then (require_aware_utc received) (\<lambda>t.
       Inr \<lparr>ie_scope = sc, ie_message_id = m, ie_payload = p, ie_received_at = t\<rparr>)"

datatype inbox_decision =
    InboxAccepted string
  | InboxDuplicate instant
  | InboxInProgress instant
  | InboxCapacityExceeded int

record 's inbox_port =
  begin_op :: "inbox_scope \<Rightarrow> opaque_id \<Rightarrow> string \<Rightarrow> datetime \<Rightarrow> timedelta \<Rightarrow> ('s, inbox_decision) act"
  complete_op :: "inbox_scope \<Rightarrow> opaque_id \<Rightarrow> string \<Rightarrow> datetime \<Rightarrow> ('s, bool) act"
  abandon_op :: "inbox_scope \<Rightarrow> opaque_id \<Rightarrow> string \<Rightarrow> ('s, bool) act"

section \<open>The in-memory store\<close>

datatype inbox_id = InboxId (ii_scope: inbox_scope) (ii_message: opaque_id)

record inbox_entry =
  ib_token :: string
  ib_expires_at :: instant
  ib_completed_at :: "instant option"

record inbox_store =
  ibs_capacity :: int
  ibs_entries :: "(inbox_id, inbox_entry) dict"

definition InMemoryInboxStore :: "int \<Rightarrow> inbox_store res" where
  "InMemoryInboxStore capacity =
     (if capacity \<le> 0 then Inl ValueError else Inr \<lparr>ibs_capacity = capacity, ibs_entries = []\<rparr>)"

definition inbox_reserve ::
    "inbox_id \<Rightarrow> string \<Rightarrow> instant \<Rightarrow> timedelta \<Rightarrow> (inbox_store, inbox_decision) act" where
  "inbox_reserve idn tok now ttl s =
     (if ibs_capacity s \<le> int (length (ibs_entries s))
      then (Inr (InboxCapacityExceeded (ibs_capacity s)), s)
      else
        case dt_plus now ttl of
          Inl e \<Rightarrow> (Inl e, s)
        | Inr ex \<Rightarrow>
            (Inr (InboxAccepted tok),
             s\<lparr>ibs_entries := dict_set idn
                 \<lparr>ib_token = tok, ib_expires_at = ex, ib_completed_at = None\<rparr> (ibs_entries s)\<rparr>))"

definition inbox_begin ::
    "inbox_scope \<Rightarrow> opaque_id \<Rightarrow> string \<Rightarrow> datetime \<Rightarrow> timedelta \<Rightarrow> (inbox_store, inbox_decision) act" where
  "inbox_begin scope message_id tok now ttl s =
     (case require_aware_utc now of
        Inl e \<Rightarrow> (Inl e, s)
      | Inr t \<Rightarrow>
          if tok = [] \<or> ttl \<le> 0 then (Inl ValueError, s)
          else
            let idn = InboxId scope message_id in
            case dict_get (ibs_entries s) idn of
              None \<Rightarrow> inbox_reserve idn tok t ttl s
            | Some entry \<Rightarrow>
                (case ib_completed_at entry of
                   Some at \<Rightarrow> (Inr (InboxDuplicate at), s)
                 | None \<Rightarrow>
                     if t < ib_expires_at entry
                     then (Inr (InboxInProgress (ib_expires_at entry)), s)
                     else inbox_reserve idn tok t ttl
                            (s\<lparr>ibs_entries := dict_pop idn (ibs_entries s)\<rparr>)))"

definition inbox_complete ::
    "inbox_scope \<Rightarrow> opaque_id \<Rightarrow> string \<Rightarrow> datetime \<Rightarrow> (inbox_store, bool) act" where
  "inbox_complete scope message_id tok now s =
     (case require_aware_utc now of
        Inl e \<Rightarrow> (Inl e, s)
      | Inr t \<Rightarrow>
          case dict_get (ibs_entries s) (InboxId scope message_id) of
            None \<Rightarrow> (Inr False, s)
          | Some entry \<Rightarrow>
              if ib_token entry \<noteq> tok \<or> ib_expires_at entry \<le> t then (Inr False, s)
              else (Inr True,
                    s\<lparr>ibs_entries := dict_set (InboxId scope message_id)
                        (entry\<lparr>ib_completed_at := Some t\<rparr>) (ibs_entries s)\<rparr>))"

definition inbox_abandon :: "inbox_scope \<Rightarrow> opaque_id \<Rightarrow> string \<Rightarrow> (inbox_store, bool) act" where
  "inbox_abandon scope message_id tok s =
     (let idn = InboxId scope message_id in
      case dict_get (ibs_entries s) idn of
        None \<Rightarrow> (Inr False, s)
      | Some entry \<Rightarrow>
          if ib_token entry \<noteq> tok \<or> ib_completed_at entry \<noteq> None then (Inr False, s)
          else (Inr True, s\<lparr>ibs_entries := dict_pop idn (ibs_entries s)\<rparr>))"

definition inbox_due :: "maintenance_plan \<Rightarrow> inbox_id \<times> inbox_entry \<Rightarrow> bool" where
  "inbox_due plan p =
     (case ib_completed_at (snd p) of
        Some at \<Rightarrow> at \<le> mp_cutoff plan
      | None \<Rightarrow> ib_expires_at (snd p) \<le> mp_cutoff plan)"

definition inbox_age ::
    "maintenance_plan \<Rightarrow> inbox_id \<times> inbox_entry \<Rightarrow> instant \<times> string \<times> string \<times> string \<times> string" where
  "inbox_age plan p =
     ((case ib_completed_at (snd p) of Some at \<Rightarrow> at | None \<Rightarrow> ib_expires_at (snd p)),
      ins_namespace (ii_scope (fst p)), ins_source (ii_scope (fst p)), ins_consumer (ii_scope (fst p)),
      oid_value (ii_message (fst p)))"

definition inbox_purge :: "maintenance_plan \<Rightarrow> (inbox_store, maintenance_summary) act" where
  "inbox_purge plan s =
     (let selected = select_batch (inbox_due plan) (inbox_age plan) (mp_batch_size plan) (ibs_entries s) in
      (batch_summary (mp_dry_run plan) (length selected),
       if mp_dry_run plan then s
       else s\<lparr>ibs_entries := pop_all (map fst selected) (ibs_entries s)\<rparr>))"

definition mem_inbox_port :: "inbox_store inbox_port" where
  "mem_inbox_port = \<lparr>begin_op = inbox_begin, complete_op = inbox_complete, abandon_op = inbox_abandon\<rparr>"

section \<open>The conformance harness\<close>

definition is_accepted :: "inbox_decision \<Rightarrow> bool" where
  "is_accepted d = (case d of InboxAccepted _ \<Rightarrow> True | _ \<Rightarrow> False)"

definition inbox_exercise :: "'s inbox_port \<Rightarrow> instant \<Rightarrow> ('s, unit) act" where
  "inbox_exercise port now =
     (let ttl = seconds 60; at = utc_datetime; mid = OpaqueId ''message''; expiring = OpaqueId ''expiring'';
          scope = \<lparr>ins_namespace = ''test'', ins_source = ''source'', ins_consumer = ''consumer-a''\<rparr>;
          other = \<lparr>ins_namespace = ''test'', ins_source = ''source'', ins_consumer = ''consumer-b''\<rparr> in
      sbind (begin_op port scope mid ''one'' (at now) ttl) (\<lambda>d0.
      sbind (sassert (is_accepted d0)) (\<lambda>_.
      sbind (begin_op port scope mid ''two'' (at now) ttl) (\<lambda>d1.
      sbind (sassert (case d1 of InboxInProgress _ \<Rightarrow> True | _ \<Rightarrow> False)) (\<lambda>_.
      sbind (begin_op port other mid ''other'' (at now) ttl) (\<lambda>d2.
      sbind (sassert (is_accepted d2)) (\<lambda>_.
      sbind (complete_op port scope mid ''wrong'' (at now)) (\<lambda>c0.
      sbind (sassert (\<not> c0)) (\<lambda>_.
      sbind (complete_op port scope mid ''one'' (at now)) (\<lambda>c1.
      sbind (sassert c1) (\<lambda>_.
      sbind (begin_op port scope mid ''three'' (at now) ttl) (\<lambda>d3.
      sbind (sassert (case d3 of InboxDuplicate _ \<Rightarrow> True | _ \<Rightarrow> False)) (\<lambda>_.
      sbind (abandon_op port scope mid ''one'') (\<lambda>a0.
      sbind (sassert (\<not> a0)) (\<lambda>_.
      sbind (begin_op port scope expiring ''old'' (at now) ttl) (\<lambda>d4.
      sbind (sassert (is_accepted d4)) (\<lambda>_.
      sbind (begin_op port scope expiring ''new'' (at (now + ttl)) ttl) (\<lambda>d5.
      sbind (sassert (is_accepted d5)) (\<lambda>_.
      sbind (abandon_op port scope expiring ''old'') (\<lambda>a1.
      sbind (sassert (\<not> a1)) (\<lambda>_.
      sbind (abandon_op port scope expiring ''new'') (\<lambda>a2.
      sassert a2))))))))))))))))))))))"

section \<open>Calls and steps\<close>

datatype inbox_call =
    Begin inbox_scope opaque_id string datetime timedelta
  | Complete inbox_scope opaque_id string datetime
  | Abandon inbox_scope opaque_id string
  | Purge maintenance_plan

datatype inbox_reply =
    BeginReply "inbox_decision res" | CompleteReply "bool res" | AbandonReply "bool res"
  | PurgeReply "maintenance_summary res"

fun inbox_step :: "inbox_call \<Rightarrow> inbox_store \<Rightarrow> inbox_reply \<times> inbox_store" where
  "inbox_step (Begin sc m tok now ttl) s = apfst BeginReply (inbox_begin sc m tok now ttl s)"
| "inbox_step (Complete sc m tok now) s = apfst CompleteReply (inbox_complete sc m tok now s)"
| "inbox_step (Abandon sc m tok) s = apfst AbandonReply (inbox_abandon sc m tok s)"
| "inbox_step (Purge plan) s = apfst PurgeReply (inbox_purge plan s)"

section \<open>Invariant\<close>

definition inbox_inv :: "inbox_store \<Rightarrow> bool" where
  "inbox_inv s \<longleftrightarrow> 0 < ibs_capacity s \<and> dict_ok (ibs_entries s)
     \<and> int (length (ibs_entries s)) \<le> ibs_capacity s
     \<and> (\<forall>idn e. dict_get (ibs_entries s) idn = Some e \<longrightarrow> ib_token e \<noteq> [])"

lemma inbox_pop_inv: "inbox_inv s \<Longrightarrow> inbox_inv (s\<lparr>ibs_entries := dict_pop idn (ibs_entries s)\<rparr>)"
  by (auto simp: inbox_inv_def dict_simps)

lemma inbox_reserve_inv:
  "inbox_inv s \<Longrightarrow> tok \<noteq> [] \<Longrightarrow> inbox_inv (snd (inbox_reserve idn tok t ttl s))"
  by (auto simp: inbox_reserve_def inbox_inv_def dict_simps split: sum.splits)

lemma inbox_begin_inv: "inbox_inv s \<Longrightarrow> inbox_inv (snd (inbox_begin sc m tok now ttl s))"
  by (auto simp: inbox_begin_def Let_def inbox_reserve_inv inbox_pop_inv split: sum.splits option.splits)

lemma inbox_complete_inv: "inbox_inv s \<Longrightarrow> inbox_inv (snd (inbox_complete sc m tok now s))"
  by (auto simp: inbox_complete_def inbox_inv_def dict_simps split: sum.splits option.splits)

lemma inbox_abandon_inv: "inbox_inv s \<Longrightarrow> inbox_inv (snd (inbox_abandon sc m tok s))"
  by (auto simp: inbox_abandon_def Let_def inbox_pop_inv split: option.splits)

lemma inbox_purge_inv: "inbox_inv s \<Longrightarrow> inbox_inv (snd (inbox_purge plan s))"
  by (auto simp: inbox_purge_def Let_def inbox_inv_def dict_simps split: if_splits)

interpretation inbox_machine: guarded_machine inbox_step inbox_inv "\<lambda>_ _. True"
proof
  fix s c
  assume "inbox_inv s"
  then show "inbox_inv (snd (inbox_step c s))"
    by (cases c) (simp_all add: inbox_begin_inv inbox_complete_inv inbox_abandon_inv inbox_purge_inv)
qed

interpretation inbox_retention: retention inbox_purge ibs_entries inbox_due inbox_age "\<lambda>p. p" inbox_inv
  by unfold_locales (simp_all add: inbox_purge_def Let_def inbox_inv_def)

section \<open>De-duplication and exclusive reservations over runs\<close>

definition inbox_done :: "inbox_id \<Rightarrow> instant \<Rightarrow> inbox_store \<Rightarrow> bool" where
  "inbox_done idn t0 s \<longleftrightarrow> (\<exists>e at. dict_get (ibs_entries s) idn = Some e
     \<and> ib_completed_at e = Some at \<and> t0 \<le> at)"

text \<open>The clock does not run backwards past \<open>t0\<close> and no effective purge reaches it.\<close>

fun not_before :: "instant \<Rightarrow> inbox_call \<Rightarrow> inbox_store \<Rightarrow> bool" where
  "not_before t0 (Complete sc m tok now) s \<longleftrightarrow> (\<forall>t. require_aware_utc now = Inr t \<longrightarrow> t0 \<le> t)"
| "not_before t0 (Purge plan) s \<longleftrightarrow> mp_cutoff plan < t0 \<or> mp_dry_run plan"
| "not_before t0 _ s \<longleftrightarrow> True"

lemma inbox_purge_keeps:
  assumes "inbox_inv s" and "dict_get (ibs_entries s) idn = Some e"
    and "\<not> inbox_due plan (idn, e) \<or> mp_dry_run plan"
  shows "dict_get (ibs_entries (snd (inbox_purge plan s))) idn = Some e"
proof (cases "mp_dry_run plan")
  case True
  with assms show ?thesis by (simp add: inbox_purge_def)
next
  case False
  let ?sel = "select_batch (inbox_due plan) (inbox_age plan) (mp_batch_size plan) (ibs_entries s)"
  have "dict_get (pop_all (map fst ?sel) (ibs_entries s)) idn = Some e"
    using assms False
    by (intro pop_selected_keeps) (auto simp: inbox_inv_def dest: select_batch_subset)
  with False show ?thesis by (simp add: inbox_purge_def Let_def)
qed

lemma inbox_done_reserve:
  "inbox_done idn t0 s \<Longrightarrow> idn' \<noteq> idn \<Longrightarrow> inbox_done idn t0 (snd (inbox_reserve idn' tok t ttl s))"
  by (auto simp: inbox_reserve_def inbox_done_def dict_simps split: sum.splits)

lemma inbox_done_begin: "inbox_done idn t0 s \<Longrightarrow> inbox_done idn t0 (snd (inbox_begin sc m tok now ttl s))"
proof (cases "InboxId sc m = idn")
  case True
  then show "inbox_done idn t0 s \<Longrightarrow> ?thesis"
    by (auto simp: inbox_begin_def Let_def inbox_done_def split: sum.splits)
next
  case False
  then show "inbox_done idn t0 s \<Longrightarrow> ?thesis"
    by (auto simp: inbox_begin_def Let_def split: sum.splits option.splits intro!: inbox_done_reserve)
      (auto simp: inbox_done_def dict_simps)
qed

lemma inbox_done_purge:
  assumes "inbox_inv s" and "inbox_done idn t0 s" and "mp_cutoff plan < t0 \<or> mp_dry_run plan"
  shows "inbox_done idn t0 (snd (inbox_purge plan s))"
proof -
  from assms(2) obtain e at where e: "dict_get (ibs_entries s) idn = Some e" "ib_completed_at e = Some at" "t0 \<le> at"
    by (auto simp: inbox_done_def)
  with assms(3) have "\<not> inbox_due plan (idn, e) \<or> mp_dry_run plan" by (auto simp: inbox_due_def)
  from inbox_purge_keeps [OF assms(1) e(1) this] e show ?thesis by (auto simp: inbox_done_def)
qed

interpretation inbox_done_kept: guarded_machine inbox_step
    "\<lambda>s. inbox_inv s \<and> inbox_done idn t0 s" "not_before t0"
  for idn t0
proof (unfold_locales, elim conjE, intro conjI)
  fix s c
  assume inv: "inbox_inv s" and d: "inbox_done idn t0 s" and g: "not_before t0 c s"
  show "inbox_inv (snd (inbox_step c s))" using inv by (rule inbox_machine.inv_step) simp
  show "inbox_done idn t0 (snd (inbox_step c s))"
  proof (cases c)
    case (Begin sc m tok now ttl)
    with d show ?thesis by (simp add: inbox_done_begin)
  next
    case (Complete sc m tok now)
    with d g show ?thesis
      by (auto simp: inbox_complete_def inbox_done_def dict_simps split: sum.splits option.splits)
  next
    case (Abandon sc m tok)
    with d show ?thesis
      by (auto simp: inbox_abandon_def inbox_done_def dict_simps Let_def split: option.splits)
  next
    case (Purge plan)
    with inv d g show ?thesis by (simp add: inbox_done_purge)
  qed
qed

definition inbox_held :: "inbox_id \<Rightarrow> string \<Rightarrow> instant \<Rightarrow> inbox_store \<Rightarrow> bool" where
  "inbox_held idn tok ex s \<longleftrightarrow>
     dict_get (ibs_entries s) idn = Some \<lparr>ib_token = tok, ib_expires_at = ex, ib_completed_at = None\<rparr>"

text \<open>Calls before the expiry \<open>ex\<close> by parties that do not present the holder's token.\<close>

fun by_others :: "string \<Rightarrow> instant \<Rightarrow> inbox_call \<Rightarrow> inbox_store \<Rightarrow> bool" where
  "by_others tok ex (Begin sc m tok' now ttl) s \<longleftrightarrow> (\<forall>t. require_aware_utc now = Inr t \<longrightarrow> t < ex)"
| "by_others tok ex (Complete sc m tok' now) s \<longleftrightarrow> tok' \<noteq> tok"
| "by_others tok ex (Abandon sc m tok') s \<longleftrightarrow> tok' \<noteq> tok"
| "by_others tok ex (Purge plan) s \<longleftrightarrow> mp_cutoff plan < ex \<or> mp_dry_run plan"

lemma inbox_held_begin:
  assumes "inbox_held idn tok ex s" and "\<And>t. require_aware_utc now = Inr t \<Longrightarrow> t < ex"
  shows "inbox_held idn tok ex (snd (inbox_begin sc m tok' now ttl s))"
  using assms
  by (cases "InboxId sc m = idn")
    (auto simp: inbox_begin_def inbox_held_def inbox_reserve_def Let_def dict_simps
       split: sum.splits option.splits)

interpretation inbox_hold: guarded_machine inbox_step
    "\<lambda>s. inbox_inv s \<and> inbox_held idn tok ex s" "by_others tok ex"
  for idn tok ex
proof (unfold_locales, elim conjE, intro conjI)
  fix s c
  assume inv: "inbox_inv s" and h: "inbox_held idn tok ex s" and g: "by_others tok ex c s"
  show "inbox_inv (snd (inbox_step c s))" using inv by (rule inbox_machine.inv_step) simp
  show "inbox_held idn tok ex (snd (inbox_step c s))"
  proof (cases c)
    case (Begin sc m tok' now ttl)
    with h g show ?thesis by (simp add: inbox_held_begin)
  next
    case (Complete sc m tok' now)
    with h g show ?thesis
      by (auto simp: inbox_complete_def inbox_held_def dict_simps split: sum.splits option.splits)
  next
    case (Abandon sc m tok')
    with h g show ?thesis
      by (auto simp: inbox_abandon_def inbox_held_def dict_simps Let_def split: option.splits)
  next
    case (Purge plan)
    with inv h g show ?thesis
      by (simp add: inbox_held_def) (rule inbox_purge_keeps, auto simp: inbox_due_def)
  qed
qed

section \<open>Properties\<close>

abbreviation empty_inbox :: "int \<Rightarrow> inbox_store" where
  "empty_inbox cap \<equiv> \<lparr>ibs_capacity = cap, ibs_entries = []\<rparr>"

lemma inbox_inv_empty: "0 < cap \<Longrightarrow> inbox_inv (empty_inbox cap)"
  by (simp add: inbox_inv_def)

lemmas inbox_eval = inbox_begin_def inbox_reserve_def inbox_complete_def inbox_abandon_def dt_plus_def Let_def

definition sample_inbox_scope :: inbox_scope where
  "sample_inbox_scope = \<lparr>ins_namespace = ''n'', ins_source = ''s'', ins_consumer = ''c''\<rparr>"

text \<open>De-duplication: after a successful completion at \<open>t0\<close>, every later begin of the same message
  in the same scope reports a duplicate, through any calls in which completions read the
  clock at or after \<open>t0\<close> and purges that take effect cut off before \<open>t0\<close>.\<close>

theorem inbox_completed_message_is_duplicate:
  assumes inv: "inbox_inv s"
    and compl: "inbox_complete sc m tok (utc_datetime t0) s = (Inr True, s1)"
    and calls: "guarded (not_before t0) inbox_step cs s1"
    and again: "require_aware_utc now = Inr t" "tok' \<noteq> []" "0 < ttl"
  shows "\<exists>at\<ge>t0. inbox_begin sc m tok' now ttl (snd (run inbox_step cs s1))
           = (Inr (InboxDuplicate at), snd (run inbox_step cs s1))"
proof -
  have "inbox_inv s1" using inbox_complete_inv [OF inv, of sc m tok "utc_datetime t0"] compl by simp
  moreover have "inbox_done (InboxId sc m) t0 s1"
    using compl by (auto simp: inbox_complete_def inbox_done_def dict_simps split: option.splits if_splits)
  ultimately have "inbox_inv (snd (run inbox_step cs s1)) \<and> inbox_done (InboxId sc m) t0 (snd (run inbox_step cs s1))"
    using calls by (intro inbox_done_kept.run_inv) auto
  then show ?thesis using again by (auto simp: inbox_begin_def inbox_done_def Let_def)
qed

definition sample_held :: inbox_store where
  "sample_held = snd (inbox_begin sample_inbox_scope (OpaqueId ''m'') ''t1'' (utc_datetime 0) 10 (empty_inbox 2))"

lemma sample_held_eq:
  "sample_held = \<lparr>ibs_capacity = 2, ibs_entries = [(InboxId sample_inbox_scope (OpaqueId ''m''),
     \<lparr>ib_token = ''t1'', ib_expires_at = 10, ib_completed_at = None\<rparr>)]\<rparr>"
  by (simp add: sample_held_def inbox_eval dt_max_def)

lemma sample_held_inv: "inbox_inv sample_held"
  by (simp add: sample_held_def inbox_begin_inv inbox_inv_empty)

theorem inbox_completed_message_is_duplicate_witness:
  "\<exists>at\<ge>5. inbox_begin sample_inbox_scope (OpaqueId ''m'') ''t2'' (utc_datetime 90) 10
      (snd (run inbox_step [Abandon sample_inbox_scope (OpaqueId ''m'') ''t1'']
        (snd (inbox_complete sample_inbox_scope (OpaqueId ''m'') ''t1'' (utc_datetime 5) sample_held))))
    = (Inr (InboxDuplicate at),
       snd (run inbox_step [Abandon sample_inbox_scope (OpaqueId ''m'') ''t1'']
        (snd (inbox_complete sample_inbox_scope (OpaqueId ''m'') ''t1'' (utc_datetime 5) sample_held))))"
proof -
  have "inbox_complete sample_inbox_scope (OpaqueId ''m'') ''t1'' (utc_datetime 5) sample_held
      = (Inr True, snd (inbox_complete sample_inbox_scope (OpaqueId ''m'') ''t1'' (utc_datetime 5) sample_held))"
    by (simp add: sample_held_eq inbox_eval)
  then show ?thesis
    by (rule inbox_completed_message_is_duplicate [OF sample_held_inv, where t = 90]) simp_all
qed

text \<open>Exclusive processing: from an accepted begin until its expiry, whatever calls others make
  without the holder's token, every begin of that message reports it in progress until that
  same expiry, and the holder's own completion in that time succeeds.\<close>

theorem inbox_reservation_is_exclusive:
  assumes inv: "inbox_inv s"
    and acc: "inbox_begin sc m tok (utc_datetime t0) ttl s = (Inr (InboxAccepted tok), s1)"
    and calls: "guarded (by_others tok (t0 + ttl)) inbox_step cs s1"
    and again: "require_aware_utc now = Inr t" "t < t0 + ttl"
  shows "(tok' \<noteq> [] \<and> 0 < ttl' \<longrightarrow> inbox_begin sc m tok' now ttl' (snd (run inbox_step cs s1))
            = (Inr (InboxInProgress (t0 + ttl)), snd (run inbox_step cs s1)))
    \<and> fst (inbox_complete sc m tok now (snd (run inbox_step cs s1))) = Inr True"
proof -
  have "inbox_inv s1" using inbox_begin_inv [OF inv, of sc m tok "utc_datetime t0" ttl] acc by simp
  moreover have "inbox_held (InboxId sc m) tok (t0 + ttl) s1"
    using acc by (auto simp: inbox_begin_def inbox_reserve_def inbox_held_def Let_def dict_simps
        dt_plus_Inr_iff split: option.splits if_splits sum.splits)
  ultimately have "inbox_inv (snd (run inbox_step cs s1))
      \<and> inbox_held (InboxId sc m) tok (t0 + ttl) (snd (run inbox_step cs s1))"
    using calls by (intro inbox_hold.run_inv) auto
  then show ?thesis using again by (auto simp: inbox_begin_def inbox_complete_def inbox_held_def Let_def)
qed

theorem inbox_reservation_is_exclusive_witness:
  "fst (inbox_complete sample_inbox_scope (OpaqueId ''m'') ''t1'' (utc_datetime 9)
     (snd (run inbox_step [Abandon sample_inbox_scope (OpaqueId ''m'') ''t9''] sample_held))) = Inr True"
proof -
  have "inbox_begin sample_inbox_scope (OpaqueId ''m'') ''t1'' (utc_datetime 0) 10 (empty_inbox 2)
      = (Inr (InboxAccepted ''t1''), sample_held)"
    by (simp add: sample_held_eq inbox_eval dt_max_def)
  from inbox_reservation_is_exclusive [OF _ this, of "[Abandon sample_inbox_scope (OpaqueId ''m'') ''t9'']"
      "utc_datetime 9" 9]
  show ?thesis by (simp add: inbox_inv_empty)
qed

text \<open>A completed message can be completed again: a second completion with the same token before
  the reservation's expiry succeeds and replaces the completion time (the durable stores
  require that the message is not completed yet).\<close>

theorem inbox_recompletion_succeeds:
  assumes "inbox_complete sc m tok (utc_datetime t0) s = (Inr True, s1)"
    and "inbox_complete sc m tok (utc_datetime t1) s = (Inr True, s2)"
  shows "fst (inbox_complete sc m tok (utc_datetime t1) s1) = Inr True
    \<and> inbox_done (InboxId sc m) t1 (snd (inbox_complete sc m tok (utc_datetime t1) s1))"
  using assms
  by (auto simp: inbox_complete_def inbox_done_def dict_simps split: option.splits if_splits)

theorem inbox_recompletion_succeeds_witness:
  "fst (inbox_complete sample_inbox_scope (OpaqueId ''m'') ''t1'' (utc_datetime 7)
     (snd (inbox_complete sample_inbox_scope (OpaqueId ''m'') ''t1'' (utc_datetime 5) sample_held))) = Inr True"
proof -
  have c: "inbox_complete sample_inbox_scope (OpaqueId ''m'') ''t1'' (utc_datetime t) sample_held
      = (Inr True, snd (inbox_complete sample_inbox_scope (OpaqueId ''m'') ''t1'' (utc_datetime t) sample_held))"
    if "t < 10" for t
    using that by (simp add: sample_held_eq inbox_eval)
  show ?thesis using inbox_recompletion_succeeds [OF c c, of 5 7] by simp
qed

text \<open>The in-memory inbox passes its conformance harness for every capacity of at least three.\<close>

theorem inbox_harness_passes:
  assumes "InMemoryInboxStore cap = Inr s" and "3 \<le> cap" and "0 \<le> now" and "now + seconds 120 \<le> dt_max"
  shows "fst (inbox_exercise mem_inbox_port now s) = Inr ()"
proof -
  have s: "s = empty_inbox cap" using assms(1) by (simp add: InMemoryInboxStore_def split: if_splits)
  show ?thesis
    using assms(2,3,4)
    by (simp add: s inbox_exercise_def mem_inbox_port_def inbox_eval seconds_def sbind_def sassert_def
        is_accepted_def)
qed

theorem inbox_harness_passes_witness:
  "fst (inbox_exercise mem_inbox_port 0 (empty_inbox 3)) = Inr ()"
  by (rule inbox_harness_passes [of 3]) (simp_all add: InMemoryInboxStore_def seconds_def dt_max_def)

end
