(* ===== verification/Outbox.thy ===== *)
theory Outbox
  imports Complex_Main Core Maintenance
begin

text \<open>
  Model of \<open>src/src/pytitect/outbox.py\<close>: the retry policy, the in-memory outbox with its
  claim loop, retention of delivered and archival of failed messages, the one-round
  dispatcher over the \<open>OutboxStore\<close> protocol, and the conformance harness.  The UUIDs a
  claim call draws are a parameter: \<open>uuid n\<close> is the one drawn for its \<open>n\<close>-th claim.
\<close>

declare map_of_eq_Some_iff [simp del] Some_eq_map_of_iff [simp del]

section \<open>Envelopes, claims and results\<close>

record 'p outbox_envelope =
  oe_message_id :: opaque_id
  oe_topic :: string
  oe_payload :: 'p
  oe_occurred_at :: instant
  oe_available_at :: instant
  oe_attempt :: int

definition check_envelope :: "'p outbox_envelope \<Rightarrow> 'p outbox_envelope res" where
  "check_envelope env =
     (if oe_topic env = [] then Inl ValueError
      else if oe_attempt env < 0 then Inl ValueError
      else Inr env)"

definition mk_outbox_envelope ::
    "opaque_id \<Rightarrow> string \<Rightarrow> 'p \<Rightarrow> datetime \<Rightarrow> datetime \<Rightarrow> int \<Rightarrow> 'p outbox_envelope res" where
  "mk_outbox_envelope m topic p occurred available att =
     and_then (require_aware_utc occurred) (\<lambda>oc.
     and_then (require_aware_utc available) (\<lambda>av.
     check_envelope \<lparr>oe_message_id = m, oe_topic = topic, oe_payload = p, oe_occurred_at = oc,
                     oe_available_at = av, oe_attempt = att\<rparr>))"

record 'p outbox_claim =
  oc_claim_id :: string
  oc_envelope :: "'p outbox_envelope"
  oc_claimed_until :: instant

record 'p failed_outbox_envelope =
  fe_envelope :: "'p outbox_envelope"
  fe_reason :: string
  fe_failed_at :: instant

definition mk_failed_envelope :: "'p outbox_envelope \<Rightarrow> string \<Rightarrow> instant \<Rightarrow> 'p failed_outbox_envelope res" where
  "mk_failed_envelope env reason failed_at =
     (if reason = [] then Inl ValueError
      else Inr \<lparr>fe_envelope = env, fe_reason = reason, fe_failed_at = failed_at\<rparr>)"

text \<open>\<open>OtherResult\<close> is a handler result outside the three declared classes; the dispatcher's
  last branch handles it.\<close>

datatype delivery_result = Delivered | Retryable string | PermanentFailure string | OtherResult

datatype outbox_add_result = OutboxAdded | OutboxDuplicate

section \<open>Retry policy\<close>

text \<open>
  Delays are microseconds; the multiplier is a real number, and the products and
  logarithms of the source's floats are taken exactly.  \<open>timedelta * float\<close> rounds to
  the nearest microsecond, ties to even.
\<close>

record retry_policy =
  rp_initial_delay :: timedelta
  rp_multiplier :: real
  rp_maximum_delay :: timedelta
  rp_max_attempts :: int

definition mk_retry_policy :: "timedelta \<Rightarrow> real \<Rightarrow> timedelta \<Rightarrow> int \<Rightarrow> retry_policy res" where
  "mk_retry_policy init mult maxd att =
     (if init \<le> 0 \<or> maxd \<le> 0 then Inl ValueError
      else if mult < 1 \<or> att \<le> 0 then Inl ValueError
      else Inr \<lparr>rp_initial_delay = init, rp_multiplier = mult, rp_maximum_delay = maxd,
                rp_max_attempts = att\<rparr>)"

definition round_half_even :: "real \<Rightarrow> int" where
  "round_half_even x =
     (let f = \<lfloor>x\<rfloor>; d = x - of_int f in
      if d < 1 / 2 then f else if d > 1 / 2 then f + 1 else if even f then f else f + 1)"

definition retry_delay :: "retry_policy \<Rightarrow> int \<Rightarrow> timedelta res" where
  "retry_delay p attempt =
     (if attempt < 1 then Inl ValueError
      else if rp_maximum_delay p \<le> rp_initial_delay p then Inr (rp_maximum_delay p)
      else if rp_multiplier p = 1 then Inr (rp_initial_delay p)
      else
        let ceiling = ln (real_of_int (rp_maximum_delay p) / real_of_int (rp_initial_delay p))
                        / ln (rp_multiplier p) in
        if ceiling \<le> real_of_int (attempt - 1) then Inr (rp_maximum_delay p)
        else Inr (min (round_half_even (real_of_int (rp_initial_delay p)
                         * rp_multiplier p ^ nat (attempt - 1)))
                      (rp_maximum_delay p)))"

section \<open>The store protocol\<close>

record ('p, 's) outbox_port =
  add_op :: "'p outbox_envelope \<Rightarrow> ('s, outbox_add_result) act"
  claim_op :: "datetime \<Rightarrow> int \<Rightarrow> timedelta \<Rightarrow> (nat \<Rightarrow> string) \<Rightarrow> ('s, 'p outbox_claim list) act"
  delivered_op :: "'p outbox_claim \<Rightarrow> datetime \<Rightarrow> ('s, bool) act"
  retry_op :: "'p outbox_claim \<Rightarrow> datetime \<Rightarrow> ('s, bool) act"
  failed_op :: "'p outbox_claim \<Rightarrow> string \<Rightarrow> datetime \<Rightarrow> ('s, bool) act"

section \<open>The in-memory store\<close>

record 'p stored =
  st_envelope :: "'p outbox_envelope"
  st_claim_id :: "string option"
  st_claimed_until :: "instant option"
  st_delivered_at :: "instant option"
  st_failure_reason :: "string option"
  st_failed_at :: "instant option"

record 'p outbox_store =
  obs_capacity :: int
  obs_items :: "(opaque_id, 'p stored) dict"

definition InMemoryOutboxStore :: "int \<Rightarrow> 'p outbox_store res" where
  "InMemoryOutboxStore capacity =
     (if capacity \<le> 0 then Inl ValueError else Inr \<lparr>obs_capacity = capacity, obs_items = []\<rparr>)"

definition new_stored :: "'p outbox_envelope \<Rightarrow> 'p stored" where
  "new_stored env = \<lparr>st_envelope = env, st_claim_id = None, st_claimed_until = None,
     st_delivered_at = None, st_failure_reason = None, st_failed_at = None\<rparr>"

definition put_item :: "opaque_id \<Rightarrow> 'p stored \<Rightarrow> 'p outbox_store \<Rightarrow> 'p outbox_store" where
  "put_item m it s = s\<lparr>obs_items := dict_set m it (obs_items s)\<rparr>"

definition outbox_add :: "'p outbox_envelope \<Rightarrow> ('p outbox_store, outbox_add_result) act" where
  "outbox_add env s =
     (if dict_get (obs_items s) (oe_message_id env) \<noteq> None then (Inr OutboxDuplicate, s)
      else if obs_capacity s \<le> int (length (obs_items s)) then (Inl OverflowError, s)
      else (Inr OutboxAdded, put_item (oe_message_id env) (new_stored env) s))"

definition claim_order :: "'p stored \<Rightarrow> instant \<times> string" where
  "claim_order it = (oe_available_at (st_envelope it), oid_value (oe_message_id (st_envelope it)))"

definition claimable :: "instant \<Rightarrow> 'p stored \<Rightarrow> bool" where
  "claimable now it \<longleftrightarrow> oe_available_at (st_envelope it) \<le> now
     \<and> st_delivered_at it = None \<and> st_failure_reason it = None
     \<and> (case st_claimed_until it of None \<Rightarrow> True | Some u \<Rightarrow> u \<le> now)"

text \<open>The loop over the sorted items.  The claim identifier is written before the addition that
  can overflow.\<close>

fun claim_loop ::
    "(nat \<Rightarrow> string) \<Rightarrow> instant \<Rightarrow> int \<Rightarrow> timedelta \<Rightarrow> 'p stored list \<Rightarrow> 'p outbox_claim list
     \<Rightarrow> ('p outbox_store, 'p outbox_claim list) act" where
  "claim_loop uuid now limit ttl [] claimed s = (Inr claimed, s)"
| "claim_loop uuid now limit ttl (it # its) claimed s =
     (if limit \<le> int (length claimed) then (Inr claimed, s)
      else if \<not> claimable now it then claim_loop uuid now limit ttl its claimed s
      else
        let m = oe_message_id (st_envelope it); cid = uuid (length claimed);
            it1 = it\<lparr>st_claim_id := Some cid\<rparr> in
        case dt_plus now ttl of
          Inl e \<Rightarrow> (Inl e, put_item m it1 s)
        | Inr until \<Rightarrow>
            claim_loop uuid now limit ttl its
              (claimed @ [\<lparr>oc_claim_id = cid, oc_envelope = st_envelope it, oc_claimed_until = until\<rparr>])
              (put_item m (it1\<lparr>st_claimed_until := Some until\<rparr>) s))"

definition outbox_claim_items ::
    "datetime \<Rightarrow> int \<Rightarrow> timedelta \<Rightarrow> (nat \<Rightarrow> string) \<Rightarrow> ('p outbox_store, 'p outbox_claim list) act" where
  "outbox_claim_items now limit claim_ttl uuid s =
     (case require_aware_utc now of
        Inl e \<Rightarrow> (Inl e, s)
      | Inr t \<Rightarrow>
          if limit \<le> 0 then (Inl ValueError, s)
          else if claim_ttl \<le> 0 then (Inl ValueError, s)
          else claim_loop uuid t limit claim_ttl
                 (sort_key claim_order (map snd (obs_items s))) [] s)"

definition valid_item :: "'p outbox_claim \<Rightarrow> 'p outbox_store \<Rightarrow> 'p stored option" where
  "valid_item c s =
     (case dict_get (obs_items s) (oe_message_id (oc_envelope c)) of
        None \<Rightarrow> None
      | Some it \<Rightarrow>
          if st_claim_id it \<noteq> Some (oc_claim_id c) \<or> st_delivered_at it \<noteq> None
            \<or> st_failure_reason it \<noteq> None then None
          else Some it)"

definition outbox_delivered :: "'p outbox_claim \<Rightarrow> datetime \<Rightarrow> ('p outbox_store, bool) act" where
  "outbox_delivered c on s =
     (case require_aware_utc on of
        Inl e \<Rightarrow> (Inl e, s)
      | Inr t \<Rightarrow>
          case valid_item c s of
            None \<Rightarrow> (Inr False, s)
          | Some it \<Rightarrow>
              (Inr True, put_item (oe_message_id (oc_envelope c))
                 (it\<lparr>st_delivered_at := Some t, st_claim_id := None, st_claimed_until := None\<rparr>) s))"

definition outbox_retry :: "'p outbox_claim \<Rightarrow> datetime \<Rightarrow> ('p outbox_store, bool) act" where
  "outbox_retry c available_at s =
     (case require_aware_utc available_at of
        Inl e \<Rightarrow> (Inl e, s)
      | Inr t \<Rightarrow>
          case valid_item c s of
            None \<Rightarrow> (Inr False, s)
          | Some it \<Rightarrow>
              (case check_envelope ((st_envelope it)\<lparr>oe_attempt := oe_attempt (st_envelope it) + 1,
                                                     oe_available_at := t\<rparr>) of
                 Inl e \<Rightarrow> (Inl e, s)
               | Inr env \<Rightarrow>
                   (Inr True, put_item (oe_message_id (oc_envelope c))
                      (it\<lparr>st_envelope := env, st_claim_id := None, st_claimed_until := None\<rparr>) s)))"

definition outbox_failed :: "'p outbox_claim \<Rightarrow> string \<Rightarrow> datetime \<Rightarrow> ('p outbox_store, bool) act" where
  "outbox_failed c reason on s =
     (case require_aware_utc on of
        Inl e \<Rightarrow> (Inl e, s)
      | Inr t \<Rightarrow>
          if reason = [] then (Inl ValueError, s)
          else
            case valid_item c s of
              None \<Rightarrow> (Inr False, s)
            | Some it \<Rightarrow>
                (Inr True, put_item (oe_message_id (oc_envelope c))
                   (it\<lparr>st_failure_reason := Some reason, st_failed_at := Some t,
                       st_claim_id := None, st_claimed_until := None\<rparr>) s))"

definition message_key :: "opaque_id \<times> 'p stored \<Rightarrow> opaque_id" where
  "message_key p = oe_message_id (st_envelope (snd p))"

definition delivered_due :: "maintenance_plan \<Rightarrow> opaque_id \<times> 'p stored \<Rightarrow> bool" where
  "delivered_due plan p =
     (case st_delivered_at (snd p) of None \<Rightarrow> False | Some t \<Rightarrow> t \<le> mp_cutoff plan)"

definition delivered_age :: "maintenance_plan \<Rightarrow> opaque_id \<times> 'p stored \<Rightarrow> instant \<times> string" where
  "delivered_age plan p =
     (case st_delivered_at (snd p) of None \<Rightarrow> 0 | Some t \<Rightarrow> t, oid_value (message_key p))"

definition purge_delivered :: "maintenance_plan \<Rightarrow> ('p outbox_store, maintenance_summary) act" where
  "purge_delivered plan s =
     (let selected = select_batch (delivered_due plan) (delivered_age plan) (mp_batch_size plan) (obs_items s) in
      (batch_summary (mp_dry_run plan) (length selected),
       if mp_dry_run plan then s
       else s\<lparr>obs_items := pop_all (map message_key selected) (obs_items s)\<rparr>))"

definition failed_due :: "maintenance_plan \<Rightarrow> opaque_id \<times> 'p stored \<Rightarrow> bool" where
  "failed_due plan p \<longleftrightarrow> st_failure_reason (snd p) \<noteq> None \<and>
     (case st_failed_at (snd p) of None \<Rightarrow> False | Some t \<Rightarrow> t \<le> mp_cutoff plan)"

definition failed_age :: "maintenance_plan \<Rightarrow> opaque_id \<times> 'p stored \<Rightarrow> instant \<times> string" where
  "failed_age plan p =
     (case st_failed_at (snd p) of None \<Rightarrow> 0 | Some t \<Rightarrow> t, oid_value (message_key p))"

fun failed_envelopes :: "(opaque_id \<times> 'p stored) list \<Rightarrow> 'p failed_outbox_envelope list res" where
  "failed_envelopes [] = Inr []"
| "failed_envelopes (p # ps) =
     (case (st_failure_reason (snd p), st_failed_at (snd p)) of
        (Some reason, Some failed_at) \<Rightarrow>
          and_then (mk_failed_envelope (st_envelope (snd p)) reason failed_at) (\<lambda>f.
          and_then (failed_envelopes ps) (\<lambda>fs. Inr (f # fs)))
      | _ \<Rightarrow> Inl TypeError)"

text \<open>\<open>archive\<close> is the consumer's callback; when it raises nothing is removed.\<close>

definition archive_failed ::
    "maintenance_plan \<Rightarrow> ('p failed_outbox_envelope list \<Rightarrow> unit res)
     \<Rightarrow> ('p outbox_store, maintenance_summary) act" where
  "archive_failed plan archive s =
     (let selected = select_batch (failed_due plan) (failed_age plan) (mp_batch_size plan) (obs_items s) in
      if \<not> mp_dry_run plan \<and> selected \<noteq> []
      then
        (case and_then (failed_envelopes selected) archive of
           Inl e \<Rightarrow> (Inl e, s)
         | Inr _ \<Rightarrow> (batch_summary (mp_dry_run plan) (length selected),
                     s\<lparr>obs_items := pop_all (map message_key selected) (obs_items s)\<rparr>))
      else (batch_summary (mp_dry_run plan) (length selected), s))"

definition mem_outbox_port :: "('p, 'p outbox_store) outbox_port" where
  "mem_outbox_port = \<lparr>add_op = outbox_add, claim_op = outbox_claim_items, delivered_op = outbox_delivered,
                      retry_op = outbox_retry, failed_op = outbox_failed\<rparr>"

section \<open>The one-round dispatcher\<close>

record dispatch_summary =
  ds_claimed :: int
  ds_delivered :: int
  ds_retried :: int
  ds_failed :: int

text \<open>One claim: call the handler and record its result.  The answer says which counter the
  store's boolean is added to.\<close>

datatype settled = SettledDelivered bool | SettledRetried bool | SettledFailed bool

definition settle_claim ::
    "('p, 's) outbox_port \<Rightarrow> ('p outbox_envelope \<Rightarrow> ('s, delivery_result) act) \<Rightarrow> retry_policy \<Rightarrow> datetime
     \<Rightarrow> 'p outbox_claim \<Rightarrow> ('s, settled) act" where
  "settle_claim port handler policy now c =
     sbind (handler (oc_envelope c)) (\<lambda>result.
       let attempt = oe_attempt (oc_envelope c) + 1 in
       case result of
         Delivered \<Rightarrow> sbind (delivered_op port c now) (\<lambda>b. sreturn (SettledDelivered b))
       | Retryable reason \<Rightarrow>
           if attempt < rp_max_attempts policy
           then sbind (slift (and_then (retry_delay policy attempt) (dt_shift now))) (\<lambda>available_at.
                sbind (retry_op port c available_at) (\<lambda>b. sreturn (SettledRetried b)))
           else sbind (failed_op port c reason now) (\<lambda>b. sreturn (SettledFailed b))
       | PermanentFailure reason \<Rightarrow> sbind (failed_op port c reason now) (\<lambda>b. sreturn (SettledFailed b))
       | OtherResult \<Rightarrow> sbind (failed_op port c ''failed'' now) (\<lambda>b. sreturn (SettledFailed b)))"

fun count_settled :: "settled \<Rightarrow> dispatch_summary \<Rightarrow> dispatch_summary" where
  "count_settled (SettledDelivered b) sm = sm\<lparr>ds_delivered := ds_delivered sm + of_bool b\<rparr>"
| "count_settled (SettledRetried b) sm = sm\<lparr>ds_retried := ds_retried sm + of_bool b\<rparr>"
| "count_settled (SettledFailed b) sm = sm\<lparr>ds_failed := ds_failed sm + of_bool b\<rparr>"

fun settle_claims ::
    "('p, 's) outbox_port \<Rightarrow> ('p outbox_envelope \<Rightarrow> ('s, delivery_result) act) \<Rightarrow> retry_policy \<Rightarrow> datetime
     \<Rightarrow> 'p outbox_claim list \<Rightarrow> dispatch_summary \<Rightarrow> ('s, dispatch_summary) act" where
  "settle_claims port handler policy now [] sm = sreturn sm"
| "settle_claims port handler policy now (c # cs) sm =
     sbind (settle_claim port handler policy now c) (\<lambda>x.
       settle_claims port handler policy now cs (count_settled x sm))"

definition dispatch ::
    "('p, 's) outbox_port \<Rightarrow> ('p outbox_envelope \<Rightarrow> ('s, delivery_result) act) \<Rightarrow> retry_policy \<Rightarrow> timedelta
     \<Rightarrow> datetime \<Rightarrow> int \<Rightarrow> (nat \<Rightarrow> string) \<Rightarrow> ('s, dispatch_summary) act" where
  "dispatch port handler policy claim_ttl now limit uuid =
     sbind (claim_op port now limit claim_ttl uuid) (\<lambda>claims.
       settle_claims port handler policy now claims
         \<lparr>ds_claimed = int (length claims), ds_delivered = 0, ds_retried = 0, ds_failed = 0\<rparr>)"

section \<open>The conformance harness\<close>

definition harness_envelope :: "string \<Rightarrow> 'p \<Rightarrow> instant \<Rightarrow> instant \<Rightarrow> 'p outbox_envelope" where
  "harness_envelope m p now available =
     \<lparr>oe_message_id = OpaqueId m, oe_topic = ''events'', oe_payload = p, oe_occurred_at = now,
      oe_available_at = available, oe_attempt = 0\<rparr>"

text \<open>The exercise expects \<open>failed\<close> with an empty reason to raise \<open>ValueError\<close>.\<close>

definition expect_value_error :: "('s, 'a) act \<Rightarrow> ('s, unit) act" where
  "expect_value_error m s =
     (case m s of (Inl ValueError, s') \<Rightarrow> (Inr (), s') | (Inl e, s') \<Rightarrow> (Inl e, s')
      | (Inr _, s') \<Rightarrow> (Inl AssertionError, s'))"

definition outbox_exercise ::
    "('p, 's) outbox_port \<Rightarrow> (nat \<Rightarrow> nat \<Rightarrow> string) \<Rightarrow> 'p \<Rightarrow> instant \<Rightarrow> ('s, unit) act" where
  "outbox_exercise port uuid payload now =
     (let dt = utc_datetime; ttl = seconds 30; retry_at = now + seconds 10; late_at = now + seconds 60;
          early = harness_envelope ''early'' payload now now;
          late = harness_envelope ''late'' payload now late_at in
      sbind (add_op port late) (\<lambda>r0.
      sbind (sassert (r0 = OutboxAdded)) (\<lambda>_.
      sbind (add_op port early) (\<lambda>r1.
      sbind (sassert (r1 = OutboxAdded)) (\<lambda>_.
      sbind (add_op port early) (\<lambda>r2.
      sbind (sassert (r2 = OutboxDuplicate)) (\<lambda>_.
      sbind (claim_op port (dt now) 1 ttl (uuid 0)) (\<lambda>claims.
      case claims of [c] \<Rightarrow>
        sbind (sassert (oc_envelope c = early)) (\<lambda>_.
        sbind (expect_value_error (failed_op port c [] (dt now))) (\<lambda>_.
        sbind (retry_op port c (dt retry_at)) (\<lambda>b0.
        sbind (sassert b0) (\<lambda>_.
        sbind (retry_op port c (dt retry_at)) (\<lambda>b1.
        sbind (sassert (\<not> b1)) (\<lambda>_.
        sbind (claim_op port (dt now) 1 ttl (uuid 1)) (\<lambda>none.
        sbind (sassert (none = [])) (\<lambda>_.
        sbind (claim_op port (dt retry_at) 1 ttl (uuid 2)) (\<lambda>retried.
        case retried of [c2] \<Rightarrow>
          sbind (sassert (oe_attempt (oc_envelope c2) = 1)) (\<lambda>_.
          sbind (failed_op port c2 ''terminal'' (dt retry_at)) (\<lambda>b2.
          sbind (sassert b2) (\<lambda>_.
          sbind (add_op port early) (\<lambda>r3.
          sbind (sassert (r3 = OutboxDuplicate)) (\<lambda>_.
          sbind (claim_op port (dt late_at) 1 ttl (uuid 3)) (\<lambda>lasts.
          case lasts of [c3] \<Rightarrow>
            sbind (delivered_op port c3 (dt late_at)) (\<lambda>b3.
            sbind (sassert b3) (\<lambda>_.
            sbind (delivered_op port c3 (dt late_at)) (\<lambda>b4.
            sbind (sassert (\<not> b4)) (\<lambda>_.
            sbind (add_op port late) (\<lambda>r4.
            sassert (r4 = OutboxDuplicate))))))
          | _ \<Rightarrow> sraise AssertionError))))))
        | _ \<Rightarrow> sraise AssertionError)))))))))
      | _ \<Rightarrow> sraise AssertionError))))))))"

section \<open>Retry delays\<close>

lemma round_half_even_mono: "x \<le> y \<Longrightarrow> round_half_even x \<le> round_half_even y"
proof -
  assume le: "x \<le> y"
  then have f: "\<lfloor>x\<rfloor> \<le> \<lfloor>y\<rfloor>" by (rule floor_mono)
  show ?thesis
  proof (cases "\<lfloor>x\<rfloor> = \<lfloor>y\<rfloor>")
    case True
    with le show ?thesis by (auto simp: round_half_even_def Let_def)
  next
    case False
    with f show ?thesis by (auto simp: round_half_even_def Let_def)
  qed
qed

lemma round_half_even_of_int [simp]: "round_half_even (of_int n) = n"
  by (simp add: round_half_even_def Let_def)

lemma power_ge_ceiling:
  fixes a b m :: real
  assumes "0 < a" "a < b" "1 < m" "ln (b / a) / ln m \<le> real k"
  shows "b \<le> a * m ^ k"
proof -
  have "0 < ln m" using assms(3) by simp
  then have "ln (b / a) \<le> real k * ln m" using assms(4) by (simp add: pos_divide_le_eq)
  also have "\<dots> = ln (m ^ k)" using assms(3) by (simp add: ln_realpow)
  finally have "b / a \<le> m ^ k" using assms by (simp add: ln_le_cancel_iff)
  then show ?thesis using assms(1) by (simp add: divide_le_eq mult.commute)
qed

text \<open>The retry delay is exponential back-off capped at the maximum: comparing exponents first
  never changes the result, which is \<open>initial * multiplier ^ (attempt - 1)\<close>, rounded, or the
  maximum if that is smaller.\<close>

theorem retry_delay_is_capped_exponential:
  assumes "mk_retry_policy init mult maxd att = Inr p" and "1 \<le> attempt"
  shows "retry_delay p attempt =
    Inr (min (round_half_even (real_of_int init * mult ^ nat (attempt - 1))) maxd)"
proof -
  have p: "0 < init" "0 < maxd" "1 \<le> mult" "rp_initial_delay p = init" "rp_multiplier p = mult"
      "rp_maximum_delay p = maxd"
    using assms(1) by (auto simp: mk_retry_policy_def split: if_splits)
  let ?k = "nat (attempt - 1)"
  let ?x = "real_of_int init * mult ^ ?k"
  have init_le: "init \<le> round_half_even ?x"
  proof -
    have "real_of_int init \<le> ?x" using p(1,3) by (simp add: mult_le_cancel_left1)
    then show ?thesis using round_half_even_mono by fastforce
  qed
  show ?thesis
  proof (cases "maxd \<le> init")
    case True
    with assms(2) p init_le show ?thesis by (simp add: retry_delay_def min_absorb2)
  next
    case less: False
    show ?thesis
    proof (cases "mult = 1")
      case True
      with assms(2) p less show ?thesis by (simp add: retry_delay_def)
    next
      case False
      show ?thesis
      proof (cases "ln (real_of_int maxd / real_of_int init) / ln mult \<le> real_of_int (attempt - 1)")
        case True
        then have "ln (real_of_int maxd / real_of_int init) / ln mult \<le> real ?k" using assms(2) by simp
        with p less False have "real_of_int maxd \<le> ?x" by (intro power_ge_ceiling) auto
        then have "maxd \<le> round_half_even ?x" using round_half_even_mono by fastforce
        with True assms(2) p less False show ?thesis by (simp add: retry_delay_def Let_def)
      next
        case small: False
        with assms(2) p less False show ?thesis by (simp add: retry_delay_def Let_def)
      qed
    qed
  qed
qed

theorem retry_delay_is_capped_exponential_witness:
  "retry_delay \<lparr>rp_initial_delay = 1000000, rp_multiplier = 2, rp_maximum_delay = 900000000, rp_max_attempts = 10\<rparr> 3
     = Inr 4000000"
proof -
  have "mk_retry_policy 1000000 2 900000000 10 = Inr
      \<lparr>rp_initial_delay = 1000000, rp_multiplier = 2, rp_maximum_delay = 900000000, rp_max_attempts = 10\<rparr>"
    by (simp add: mk_retry_policy_def)
  moreover have "round_half_even 4000000 = 4000000" using round_half_even_of_int [of 4000000] by simp
  ultimately show ?thesis using retry_delay_is_capped_exponential [of 1000000 2 900000000 10 _ 3] by simp
qed

lemma retry_delay_bounds:
  assumes "mk_retry_policy init mult maxd att = Inr p" and "1 \<le> attempt"
  obtains d where "retry_delay p attempt = Inr d" "0 < d" "d \<le> maxd"
proof -
  have p: "0 < init" "0 < maxd" "1 \<le> mult"
      "rp_initial_delay p = init" "rp_multiplier p = mult" "rp_maximum_delay p = maxd"
    using assms(1) by (auto simp: mk_retry_policy_def split: if_splits)
  let ?x = "real_of_int init * mult ^ nat (attempt - 1)"
  have "real_of_int init \<le> ?x" using p(1,3) by (simp add: mult_le_cancel_left1)
  then have "init \<le> round_half_even ?x" using round_half_even_mono [of "real_of_int init" ?x] by simp
  then have pos: "0 < min (round_half_even ?x) maxd" using p(1,2) by simp
  have "\<exists>d. retry_delay p attempt = Inr d \<and> 0 < d \<and> d \<le> maxd"
  proof (cases "maxd \<le> init \<or> mult = 1")
    case True
    with assms(2) p(1,2) show ?thesis by (auto simp: retry_delay_def p(4,5,6))
  next
    case False
    with assms(2) pos p(2) show ?thesis by (simp add: retry_delay_def p(4,5,6) Let_def)
  qed
  then show thesis using that by blast
qed

section \<open>The claim loop computes a prefix of the eligible items\<close>

abbreviation msg_id :: "'p stored \<Rightarrow> opaque_id" where
  "msg_id it \<equiv> oe_message_id (st_envelope it)"

abbreviation claim_msg :: "'p outbox_claim \<Rightarrow> opaque_id" where
  "claim_msg c \<equiv> oe_message_id (oc_envelope c)"

definition claimed_item :: "string \<Rightarrow> instant \<Rightarrow> 'p stored \<Rightarrow> 'p stored" where
  "claimed_item cid until it = it\<lparr>st_claim_id := Some cid, st_claimed_until := Some until\<rparr>"

fun mk_claims :: "(nat \<Rightarrow> string) \<Rightarrow> instant \<Rightarrow> nat \<Rightarrow> 'p stored list \<Rightarrow> 'p outbox_claim list" where
  "mk_claims uuid until n [] = []"
| "mk_claims uuid until n (it # its) =
     \<lparr>oc_claim_id = uuid n, oc_envelope = st_envelope it, oc_claimed_until = until\<rparr>
     # mk_claims uuid until (Suc n) its"

fun mark_claims :: "(nat \<Rightarrow> string) \<Rightarrow> instant \<Rightarrow> nat \<Rightarrow> 'p stored list \<Rightarrow> 'p outbox_store \<Rightarrow> 'p outbox_store" where
  "mark_claims uuid until n [] s = s"
| "mark_claims uuid until n (it # its) s =
     mark_claims uuid until (Suc n) its (put_item (msg_id it) (claimed_item (uuid n) until it) s)"

definition eligible :: "instant \<Rightarrow> int \<Rightarrow> 'p outbox_store \<Rightarrow> 'p stored list" where
  "eligible now limit s =
     take (nat limit) (filter (claimable now) (sort_key claim_order (map snd (obs_items s))))"

lemma claim_loop_spec:
  assumes "dt_plus now ttl = Inr until"
  shows "claim_loop uuid now limit ttl its claimed s =
    (Inr (claimed @ mk_claims uuid until (length claimed)
            (take (nat (limit - int (length claimed))) (filter (claimable now) its))),
     mark_claims uuid until (length claimed)
            (take (nat (limit - int (length claimed))) (filter (claimable now) its)) s)"
proof (induction its arbitrary: claimed s)
  case Nil
  then show ?case by simp
next
  case (Cons it its)
  show ?case
  proof (cases "limit \<le> int (length claimed)")
    case True
    then show ?thesis by simp
  next
    case room: False
    then have n: "nat (limit - int (length claimed)) = Suc (nat (limit - int (length claimed) - 1))" by simp
    show ?thesis
    proof (cases "claimable now it")
      case False
      with room Cons.IH show ?thesis by simp
    next
      case True
      with room assms n show ?thesis
        by (simp add: Cons.IH Let_def claimed_item_def algebra_simps)
    qed
  qed
qed

lemma claim_spec:
  assumes "require_aware_utc now = Inr t" and "0 < limit" and "0 < ttl" and "dt_plus t ttl = Inr until"
  shows "outbox_claim_items now limit ttl uuid s =
    (Inr (mk_claims uuid until 0 (eligible t limit s)), mark_claims uuid until 0 (eligible t limit s) s)"
  using assms(1-3) by (simp add: outbox_claim_items_def eligible_def claim_loop_spec [OF assms(4)])

lemma mk_claims_length [simp]: "length (mk_claims uuid until n its) = length its"
  by (induction its arbitrary: n) auto

lemma mk_claims_msgs [simp]: "map claim_msg (mk_claims uuid until n its) = map msg_id its"
  by (induction its arbitrary: n) auto

lemma mark_claims_other:
  "m \<notin> msg_id ` set its \<Longrightarrow>
     dict_get (obs_items (mark_claims uuid until n its s)) m = dict_get (obs_items s) m"
  by (induction its arbitrary: n s) (auto simp: put_item_def dict_simps)

lemma mark_claims_capacity [simp]: "obs_capacity (mark_claims uuid until n its s) = obs_capacity s"
  by (induction its arbitrary: n s) (auto simp: put_item_def)

section \<open>Invariant\<close>

definition stored_ok :: "opaque_id \<Rightarrow> 'p stored \<Rightarrow> bool" where
  "stored_ok m it \<longleftrightarrow> msg_id it = m \<and> check_envelope (st_envelope it) = Inr (st_envelope it)
     \<and> (st_delivered_at it \<noteq> None \<or> st_failure_reason it \<noteq> None \<longrightarrow> st_claim_id it = None)
     \<and> \<not> (st_delivered_at it \<noteq> None \<and> st_failure_reason it \<noteq> None)
     \<and> (st_failure_reason it \<noteq> None \<longleftrightarrow> st_failed_at it \<noteq> None)
     \<and> st_failure_reason it \<noteq> Some []"

definition outbox_inv :: "'p outbox_store \<Rightarrow> bool" where
  "outbox_inv s \<longleftrightarrow> 0 < obs_capacity s \<and> dict_ok (obs_items s)
     \<and> int (length (obs_items s)) \<le> obs_capacity s
     \<and> (\<forall>m it. dict_get (obs_items s) m = Some it \<longrightarrow> stored_ok m it)"

lemma outbox_inv_stored: "outbox_inv s \<Longrightarrow> dict_get (obs_items s) m = Some it \<Longrightarrow> stored_ok m it"
  by (simp add: outbox_inv_def)

lemma put_item_inv:
  "outbox_inv s \<Longrightarrow> dict_get (obs_items s) m \<noteq> None \<Longrightarrow> stored_ok m it \<Longrightarrow> outbox_inv (put_item m it s)"
  by (auto simp: outbox_inv_def put_item_def dict_simps)

lemma eligible_subset:
  assumes "outbox_inv s" and "it \<in> set (eligible now limit s)"
  shows "dict_get (obs_items s) (msg_id it) = Some it" and "claimable now it" and "stored_ok (msg_id it) it"
proof -
  have "it \<in> set (map snd (obs_items s))" and c: "claimable now it"
    using assms(2) by (auto simp: eligible_def dest!: in_set_takeD)
  then obtain m where m: "(m, it) \<in> set (obs_items s)" by auto
  with assms(1) have "dict_get (obs_items s) m = Some it" by (simp add: outbox_inv_def dict_get_iff)
  with outbox_inv_stored [OF assms(1) this] show "dict_get (obs_items s) (msg_id it) = Some it"
    "claimable now it" "stored_ok (msg_id it) it"
    using c by (auto simp: stored_ok_def)
qed

lemma eligible_distinct:
  assumes "outbox_inv s"
  shows "distinct (map msg_id (eligible now limit s))"
proof -
  have "msg_id (snd p) = fst p" if "p \<in> set (obs_items s)" for p
    using assms that outbox_inv_stored [OF assms, of "fst p" "snd p"]
    by (auto simp: outbox_inv_def stored_ok_def dict_get_iff)
  then have keys: "map msg_id (map snd (obs_items s)) = map fst (obs_items s)" by simp
  have "distinct (map fst (obs_items s))" using assms by (simp add: outbox_inv_def)
  then have d: "distinct (map msg_id (map snd (obs_items s)))" unfolding keys .
  then have "distinct (map snd (obs_items s)) \<and> inj_on msg_id (set (map snd (obs_items s)))"
    by (simp only: distinct_map)
  then have "distinct (map msg_id (sort_key claim_order (map snd (obs_items s))))"
    by (simp add: distinct_map)
  then show ?thesis by (simp add: eligible_def distinct_map_filter take_map [symmetric])
qed

lemma claimable_open: "claimable now it \<Longrightarrow> st_delivered_at it = None \<and> st_failure_reason it = None"
  by (simp add: claimable_def)

lemma claimed_item_ok:
  "stored_ok m it \<Longrightarrow> claimable now it \<Longrightarrow> stored_ok m (claimed_item cid until it)"
  by (auto simp: stored_ok_def claimed_item_def claimable_def)

lemma mark_claims_inv:
  assumes "outbox_inv s"
    and "\<forall>it\<in>set its. dict_get (obs_items s) (msg_id it) \<noteq> None \<and> claimable now it \<and> stored_ok (msg_id it) it"
  shows "outbox_inv (mark_claims uuid until n its s)"
  using assms
proof (induction its arbitrary: n s)
  case (Cons it its)
  have "outbox_inv (put_item (msg_id it) (claimed_item (uuid n) until it) s)"
    using Cons.prems by (intro put_item_inv claimed_item_ok [where now = now]) auto
  moreover have "\<forall>x\<in>set its. dict_get (obs_items (put_item (msg_id it) (claimed_item (uuid n) until it) s)) (msg_id x) \<noteq> None
      \<and> claimable now x \<and> stored_ok (msg_id x) x"
    using Cons.prems(2) by (auto simp: put_item_def dict_simps)
  ultimately show ?case using Cons.IH by simp
qed simp

text \<open>After the call each claim names its item, and the item carries the claim.\<close>

definition live_claim :: "'p outbox_claim \<Rightarrow> 'p outbox_store \<Rightarrow> bool" where
  "live_claim c s \<longleftrightarrow> (\<exists>it. valid_item c s = Some it \<and> st_envelope it = oc_envelope c)"

lemma mark_claims_get:
  assumes "distinct (map msg_id its)" and "i < length its"
  shows "dict_get (obs_items (mark_claims uuid until n its s)) (msg_id (its ! i))
      = Some (claimed_item (uuid (n + i)) until (its ! i))"
  using assms
proof (induction its arbitrary: n s i)
  case (Cons it its)
  show ?case
  proof (cases i)
    case 0
    with Cons.prems(1) show ?thesis by (simp add: mark_claims_other) (simp add: put_item_def dict_simps)
  next
    case (Suc j)
    with Cons show ?thesis by simp
  qed
qed simp

lemma mk_claims_nth:
  "i < length its \<Longrightarrow> mk_claims uuid until n its ! i =
     \<lparr>oc_claim_id = uuid (n + i), oc_envelope = st_envelope (its ! i), oc_claimed_until = until\<rparr>"
proof (induction its arbitrary: n i)
  case (Cons it its)
  then show ?case by (cases i) auto
qed simp

lemma claims_live:
  assumes "distinct (map msg_id its)" and "\<forall>it\<in>set its. claimable now it"
    and "c \<in> set (mk_claims uuid until n its)"
  shows "live_claim c (mark_claims uuid until n its s)"
proof -
  from assms(3) obtain i where i: "i < length its" "c = mk_claims uuid until n its ! i"
    by (auto simp: in_set_conv_nth)
  have "claimable now (its ! i)" using assms(2) i(1) by simp
  then have "st_delivered_at (its ! i) = None" "st_failure_reason (its ! i) = None"
    using claimable_open by auto
  with mark_claims_get [OF assms(1) i(1), of uuid until n s] show ?thesis
    unfolding i(2) mk_claims_nth [OF i(1)]
    by (simp add: live_claim_def valid_item_def claimed_item_def)
qed

lemma claim_returns:
  assumes inv: "outbox_inv s" and ret: "outbox_claim_items now limit ttl uuid s = (Inr cs, s')"
  shows "outbox_inv s'" "\<And>c. c \<in> set cs \<Longrightarrow> live_claim c s'" "distinct (map claim_msg cs)"
    "\<exists>t. require_aware_utc now = Inr t"
proof -
  obtain t where t: "require_aware_utc now = Inr t" "0 < limit" "0 < ttl"
    using ret by (auto simp: outbox_claim_items_def split: sum.splits if_splits)
  then show "\<exists>t. require_aware_utc now = Inr t" by blast
  show "outbox_inv s'" "\<And>c. c \<in> set cs \<Longrightarrow> live_claim c s'" "distinct (map claim_msg cs)"
  proof (atomize (full), cases "dt_plus t ttl")
    case (Inr until)
    let ?e = "eligible t limit s"
    have cs: "cs = mk_claims uuid until 0 ?e" and s': "s' = mark_claims uuid until 0 ?e s"
      using claim_spec [OF t Inr, of uuid s] ret by auto
    have "outbox_inv s'"
      unfolding s' using eligible_subset [OF inv] by (intro mark_claims_inv [OF inv, where now = t]) force
    moreover have "\<forall>c. c \<in> set cs \<longrightarrow> live_claim c s'"
      unfolding s' cs using eligible_distinct [OF inv] eligible_subset(2) [OF inv]
      by (blast intro: claims_live)
    ultimately show "outbox_inv s' \<and> (\<forall>c. c \<in> set cs \<longrightarrow> live_claim c s') \<and> distinct (map claim_msg cs)"
      using eligible_distinct [OF inv, of t limit] by (simp add: cs)
  next
    case (Inl e)
    have none: "claim_loop uuid t limit ttl its [] s0 = (Inr ds, s1) \<Longrightarrow> ds = [] \<and> s1 = s0" for its s0 ds s1
      using Inl t(2) by (induction its) (auto simp: Let_def split: if_splits)
    from ret t none have "cs = [] \<and> s' = s" by (auto simp: outbox_claim_items_def)
    with inv show "outbox_inv s' \<and> (\<forall>c. c \<in> set cs \<longrightarrow> live_claim c s') \<and> distinct (map claim_msg cs)"
      by simp
  qed
qed

section \<open>What the dispatcher relies on\<close>

text \<open>
  A claim just returned is live; settling a live claim in any of the three ways succeeds
  and leaves the claims of other messages live.
\<close>

locale outbox_claims =
  fixes port :: "('p, 's) outbox_port"
    and inv :: "'s \<Rightarrow> bool"
    and live :: "'p outbox_claim \<Rightarrow> 's \<Rightarrow> bool"
  assumes claim_live: "inv s \<Longrightarrow> claim_op port now limit ttl uuid s = (Inr cs, s') \<Longrightarrow>
        inv s' \<and> (\<forall>c\<in>set cs. live c s') \<and> distinct (map claim_msg cs) \<and> (\<exists>t. require_aware_utc now = Inr t)"
    and delivered_live: "inv s \<Longrightarrow> live c s \<Longrightarrow> require_aware_utc now = Inr t \<Longrightarrow>
        \<exists>s'. delivered_op port c now s = (Inr True, s') \<and> inv s'
          \<and> (\<forall>c'. claim_msg c' \<noteq> claim_msg c \<longrightarrow> live c' s \<longrightarrow> live c' s')"
    and retry_live: "inv s \<Longrightarrow> live c s \<Longrightarrow> require_aware_utc now = Inr t \<Longrightarrow>
        \<exists>s'. retry_op port c now s = (Inr True, s') \<and> inv s'
          \<and> (\<forall>c'. claim_msg c' \<noteq> claim_msg c \<longrightarrow> live c' s \<longrightarrow> live c' s')"
    and failed_live: "inv s \<Longrightarrow> live c s \<Longrightarrow> require_aware_utc now = Inr t \<Longrightarrow> reason \<noteq> [] \<Longrightarrow>
        \<exists>s'. failed_op port c reason now s = (Inr True, s') \<and> inv s'
          \<and> (\<forall>c'. claim_msg c' \<noteq> claim_msg c \<longrightarrow> live c' s \<longrightarrow> live c' s')"
    and live_attempt: "inv s \<Longrightarrow> live c s \<Longrightarrow> 0 \<le> oe_attempt (oc_envelope c)"
begin

definition settles :: "'p outbox_claim \<Rightarrow> ('s, settled) act \<Rightarrow> 's \<Rightarrow> bool" where
  "settles c m s \<longleftrightarrow> (\<exists>x s'. m s = (Inr x, s') \<and> inv s'
     \<and> (\<forall>c'. claim_msg c' \<noteq> claim_msg c \<longrightarrow> live c' s \<longrightarrow> live c' s')
     \<and> x \<in> {SettledDelivered True, SettledRetried True, SettledFailed True})"

lemma settle_one:
  assumes s: "inv s" "live c s" and now: "require_aware_utc now = Inr t"
    and handler: "handler (oc_envelope c) s = (Inr r, s)"
    and reasons: "r \<noteq> Retryable []" "r \<noteq> PermanentFailure []"
    and policy: "mk_retry_policy init mult maxd att = Inr p" and room: "0 \<le> t" "t + maxd \<le> dt_max"
  shows "settles c (settle_claim port handler p now c) s"
proof (cases r)
  case Delivered
  with delivered_live [OF s now] handler show ?thesis
    by (auto simp: settles_def settle_claim_def sbind_def Let_def)
next
  case (Retryable reason)
  show ?thesis
  proof (cases "oe_attempt (oc_envelope c) + 1 < rp_max_attempts p")
    case True
    have "1 \<le> oe_attempt (oc_envelope c) + 1" using live_attempt [OF s] by simp
    then obtain d where d: "retry_delay p (oe_attempt (oc_envelope c) + 1) = Inr d" "0 < d" "d \<le> maxd"
      using retry_delay_bounds [OF policy] by blast
    with room have sh: "dt_shift now d = Inr (now\<lparr>dt_micros := t + d\<rparr>)"
      by (intro dt_shift_in_range [OF now]) auto
    obtain s' where "retry_op port c (now\<lparr>dt_micros := t + d\<rparr>) s = (Inr True, s')" "inv s'"
        "\<forall>c'. claim_msg c' \<noteq> claim_msg c \<longrightarrow> live c' s \<longrightarrow> live c' s'"
      using retry_live [OF s require_aware_utc_shift [OF now sh]] by blast
    with True Retryable handler d(1) sh show ?thesis
      by (auto simp: settles_def settle_claim_def sbind_def Let_def)
  next
    case False
    with Retryable failed_live [OF s now, of reason] handler reasons show ?thesis
      by (auto simp: settles_def settle_claim_def sbind_def Let_def)
  qed
next
  case (PermanentFailure reason)
  with failed_live [OF s now, of reason] handler reasons show ?thesis
    by (auto simp: settles_def settle_claim_def sbind_def Let_def)
next
  case OtherResult
  with failed_live [OF s now, of "''failed''"] handler show ?thesis
    by (auto simp: settles_def settle_claim_def sbind_def Let_def)
qed

lemma settle_all:
  assumes "inv s" and "\<forall>c\<in>set cs. live c s" and "distinct (map claim_msg cs)"
    and now: "require_aware_utc now = Inr t"
    and handler: "\<And>env s. handler env s = (Inr (h env), s)"
    and reasons: "\<And>env. h env \<noteq> Retryable []" "\<And>env. h env \<noteq> PermanentFailure []"
    and policy: "mk_retry_policy init mult maxd att = Inr p" and room: "0 \<le> t" "t + maxd \<le> dt_max"
  shows "\<exists>sm' s'. settle_claims port handler p now cs sm s = (Inr sm', s') \<and> inv s'
    \<and> ds_claimed sm' = ds_claimed sm
    \<and> ds_delivered sm' + ds_retried sm' + ds_failed sm'
        = ds_delivered sm + ds_retried sm + ds_failed sm + int (length cs)"
  using assms(1-3)
proof (induction cs arbitrary: sm s)
  case (Cons c cs)
  have "settles c (settle_claim port handler p now c) s"
    using Cons.prems by (intro settle_one [OF _ _ now handler reasons policy room]) auto
  then obtain x s1 where x: "settle_claim port handler p now c s = (Inr x, s1)" "inv s1"
      "\<forall>c'. claim_msg c' \<noteq> claim_msg c \<longrightarrow> live c' s \<longrightarrow> live c' s1"
      "x \<in> {SettledDelivered True, SettledRetried True, SettledFailed True}"
    unfolding settles_def by blast
  have live: "\<forall>c'\<in>set cs. live c' s1"
    using Cons.prems(2,3) x(3) by (auto simp: image_iff)
  have dist: "distinct (map claim_msg cs)" using Cons.prems(3) by simp
  obtain sm' s' where r: "settle_claims port handler p now cs (count_settled x sm) s1 = (Inr sm', s')" "inv s'"
      "ds_claimed sm' = ds_claimed (count_settled x sm)"
      "ds_delivered sm' + ds_retried sm' + ds_failed sm' = ds_delivered (count_settled x sm)
         + ds_retried (count_settled x sm) + ds_failed (count_settled x sm) + int (length cs)"
    using Cons.IH [OF x(2) live dist, of "count_settled x sm"] by blast
  with x(1,4) show ?case by (auto simp: sbind_def)
qed simp

lemma dispatch_accounts:
  assumes inv: "inv s" and ret: "claim_op port now limit ttl uuid s = (Inr cs, s1)"
    and handler: "\<And>env s. handler env s = (Inr (h env), s)"
    and reasons: "\<And>env. h env \<noteq> Retryable []" "\<And>env. h env \<noteq> PermanentFailure []"
    and policy: "mk_retry_policy init mult maxd att = Inr p"
    and room: "\<And>t. require_aware_utc now = Inr t \<Longrightarrow> 0 \<le> t \<and> t + maxd \<le> dt_max"
  shows "\<exists>sm s'. dispatch port handler p ttl now limit uuid s = (Inr sm, s') \<and> inv s'
    \<and> ds_claimed sm = int (length cs)
    \<and> ds_delivered sm + ds_retried sm + ds_failed sm = ds_claimed sm"
proof -
  obtain t where now: "require_aware_utc now = Inr t" and c: "inv s1" "\<forall>c\<in>set cs. live c s1"
      "distinct (map claim_msg cs)"
    using claim_live [OF inv ret] by blast
  have "0 \<le> t" "t + maxd \<le> dt_max" using room [OF now] by auto
  with settle_all [where h = h and sm =
      "\<lparr>ds_claimed = int (length cs), ds_delivered = 0, ds_retried = 0, ds_failed = 0\<rparr>",
      OF c now handler reasons policy] ret
  show ?thesis by (auto simp: dispatch_def sbind_def)
qed

end

lemma live_put_other:
  "live_claim c' s \<Longrightarrow> claim_msg c' \<noteq> m \<Longrightarrow> live_claim c' (put_item m it s)"
  by (simp add: live_claim_def valid_item_def put_item_def dict_simps)

lemma live_claim_item:
  assumes "outbox_inv s" and "live_claim c s"
  obtains it where "valid_item c s = Some it" "st_envelope it = oc_envelope c"
    "dict_get (obs_items s) (claim_msg c) = Some it" "stored_ok (claim_msg c) it"
    "st_delivered_at it = None" "st_failure_reason it = None"
  using assms by (auto simp: live_claim_def valid_item_def outbox_inv_stored split: option.splits if_splits)

lemma settle_put:
  assumes "outbox_inv s" and "dict_get (obs_items s) m = Some it0" and "stored_ok m it"
  shows "outbox_inv (put_item m it s) \<and> (\<forall>c'. claim_msg c' \<noteq> m \<longrightarrow> live_claim c' s \<longrightarrow> live_claim c' (put_item m it s))"
  using assms by (auto intro!: put_item_inv live_put_other)

interpretation mem_outbox: outbox_claims mem_outbox_port outbox_inv live_claim
proof (unfold_locales, goal_cases)
  case (1 s now limit ttl uuid cs s')
  then have "outbox_claim_items now limit ttl uuid s = (Inr cs, s')" by (simp add: mem_outbox_port_def)
  with claim_returns [OF 1(1) this] show ?case by blast
next
  case (2 s c now t)
  obtain it where it: "valid_item c s = Some it" "dict_get (obs_items s) (claim_msg c) = Some it"
    "stored_ok (claim_msg c) it" "st_failure_reason it = None"
    by (rule live_claim_item [OF 2(1,2)])
  have "stored_ok (claim_msg c) (it\<lparr>st_delivered_at := Some t, st_claim_id := None, st_claimed_until := None\<rparr>)"
    using it(3,4) by (auto simp: stored_ok_def)
  from settle_put [OF 2(1) it(2) this] show ?case
    using it(1) 2(3) by (simp add: mem_outbox_port_def outbox_delivered_def)
next
  case (3 s c now t)
  obtain it where it: "valid_item c s = Some it" "dict_get (obs_items s) (claim_msg c) = Some it"
    "stored_ok (claim_msg c) it" "st_delivered_at it = None" "st_failure_reason it = None"
    by (rule live_claim_item [OF 3(1,2)])
  let ?env = "(st_envelope it)\<lparr>oe_attempt := oe_attempt (st_envelope it) + 1, oe_available_at := t\<rparr>"
  have env: "check_envelope ?env = Inr ?env"
    using it(3) by (auto simp: stored_ok_def check_envelope_def split: if_splits)
  have "stored_ok (claim_msg c) (it\<lparr>st_envelope := ?env, st_claim_id := None, st_claimed_until := None\<rparr>)"
    using it(3,4,5) env by (auto simp: stored_ok_def)
  from settle_put [OF 3(1) it(2) this] show ?case
    using it(1) 3(3) env by (simp add: mem_outbox_port_def outbox_retry_def)
next
  case (4 s c now t reason)
  obtain it where it: "valid_item c s = Some it" "dict_get (obs_items s) (claim_msg c) = Some it"
    "stored_ok (claim_msg c) it" "st_delivered_at it = None"
    by (rule live_claim_item [OF 4(1,2)])
  have "stored_ok (claim_msg c) (it\<lparr>st_failure_reason := Some reason, st_failed_at := Some t,
      st_claim_id := None, st_claimed_until := None\<rparr>)"
    using it(3,4) 4(4) by (auto simp: stored_ok_def)
  from settle_put [OF 4(1) it(2) this] show ?case
    using it(1) 4(3,4) by (simp add: mem_outbox_port_def outbox_failed_def)
next
  case (5 s c)
  obtain it where "st_envelope it = oc_envelope c" "stored_ok (claim_msg c) it"
    by (rule live_claim_item [OF 5])
  then show ?case by (auto simp: stored_ok_def check_envelope_def split: if_splits)
qed

section \<open>The effect of a dispatch round on every message\<close>

definition settled_item :: "retry_policy \<Rightarrow> instant \<Rightarrow> delivery_result \<Rightarrow> 'p stored \<Rightarrow> 'p stored" where
  "settled_item p t r it =
     (let failed = (\<lambda>reason. it\<lparr>st_failure_reason := Some reason, st_failed_at := Some t,
                       st_claim_id := None, st_claimed_until := None\<rparr>);
          attempt = oe_attempt (st_envelope it) + 1 in
      case r of
        Delivered \<Rightarrow> it\<lparr>st_delivered_at := Some t, st_claim_id := None, st_claimed_until := None\<rparr>
      | Retryable reason \<Rightarrow>
          if attempt < rp_max_attempts p
          then it\<lparr>st_envelope := (st_envelope it)\<lparr>oe_attempt := attempt,
                    oe_available_at := t + projr (retry_delay p attempt)\<rparr>,
                  st_claim_id := None, st_claimed_until := None\<rparr>
          else failed reason
      | PermanentFailure reason \<Rightarrow> failed reason
      | OtherResult \<Rightarrow> failed ''failed'')"

lemma claimed_item_envelope [simp]: "st_envelope (claimed_item cid u it) = st_envelope it"
  by (simp add: claimed_item_def)

lemma settled_item_claimed [simp]: "settled_item p t r (claimed_item cid u it) = settled_item p t r it"
  by (cases it) (simp add: settled_item_def claimed_item_def Let_def split: delivery_result.splits)

lemma settle_claim_effect:
  assumes inv: "outbox_inv s" and live: "live_claim c s" and it: "dict_get (obs_items s) (claim_msg c) = Some it"
    and now: "require_aware_utc now = Inr t"
    and handler: "\<And>env s. handler env s = (Inr (h env), s)"
    and reasons: "\<And>env. h env \<noteq> Retryable []" "\<And>env. h env \<noteq> PermanentFailure []"
    and policy: "mk_retry_policy init mult maxd att = Inr p" and room: "0 \<le> t" "t + maxd \<le> dt_max"
  shows "snd (settle_claim mem_outbox_port handler p now c s) =
    put_item (claim_msg c) (settled_item p t (h (st_envelope it)) it) s"
proof -
  obtain it' where "valid_item c s = Some it'" "st_envelope it' = oc_envelope c"
      "dict_get (obs_items s) (claim_msg c) = Some it'" "stored_ok (claim_msg c) it'"
    by (rule live_claim_item [OF inv live])
  with it have v: "valid_item c s = Some it" "oc_envelope c = st_envelope it" and ok: "stored_ok (msg_id it) it"
    by auto
  have a: "0 \<le> oe_attempt (st_envelope it)" "oe_topic (st_envelope it) \<noteq> []"
    using ok by (auto simp: stored_ok_def check_envelope_def split: if_splits)
  then obtain d where d: "retry_delay p (oe_attempt (st_envelope it) + 1) = Inr d" "0 < d" "d \<le> maxd"
    using retry_delay_bounds [OF policy, of "oe_attempt (st_envelope it) + 1"] by auto
  with room have sh: "dt_shift now d = Inr (now\<lparr>dt_micros := t + d\<rparr>)"
    by (intro dt_shift_in_range [OF now]) auto
  note utc = require_aware_utc_shift [OF now sh]
  show ?thesis
  proof (cases "h (st_envelope it)")
    case (Retryable reason)
    with v d(1) sh utc a now reasons show ?thesis
      by (auto simp: settle_claim_def sbind_def Let_def handler settled_item_def mem_outbox_port_def
          outbox_retry_def outbox_failed_def check_envelope_def)
  qed (use v now reasons in \<open>auto simp: settle_claim_def sbind_def Let_def handler settled_item_def
          mem_outbox_port_def outbox_delivered_def outbox_failed_def\<close>)
qed

lemma settle_claims_effect:
  assumes "outbox_inv s" and "\<forall>c\<in>set cs. live_claim c s" and "distinct (map claim_msg cs)"
    and now: "require_aware_utc now = Inr t"
    and handler: "\<And>env s. handler env s = (Inr (h env), s)"
    and reasons: "\<And>env. h env \<noteq> Retryable []" "\<And>env. h env \<noteq> PermanentFailure []"
    and policy: "mk_retry_policy init mult maxd att = Inr p" and room: "0 \<le> t" "t + maxd \<le> dt_max"
  shows "dict_get (obs_items (snd (settle_claims mem_outbox_port handler p now cs sm s))) m =
    map_option (\<lambda>it. if m \<in> claim_msg ` set cs then settled_item p t (h (st_envelope it)) it else it)
      (dict_get (obs_items s) m)"
  using assms(1-3)
proof (induction cs arbitrary: sm s)
  case Nil
  then show ?case by (simp add: option.map_ident)
next
  case (Cons c cs)
  have live: "live_claim c s" using Cons.prems(2) by simp
  obtain it where it: "dict_get (obs_items s) (claim_msg c) = Some it"
    by (rule live_claim_item [OF Cons.prems(1) live])
  let ?s = "put_item (claim_msg c) (settled_item p t (h (st_envelope it)) it) s"
  have "mem_outbox.settles c (settle_claim mem_outbox_port handler p now c) s"
    by (rule mem_outbox.settle_one [where handler = handler and r = "h (oc_envelope c)", OF Cons.prems(1) live
          now handler reasons(1) reasons(2) policy room])
  moreover have eff: "snd (settle_claim mem_outbox_port handler p now c s) = ?s"
    using settle_claim_effect [where h = h, OF Cons.prems(1) live it now handler reasons policy room] .
  ultimately obtain x where x: "settle_claim mem_outbox_port handler p now c s = (Inr x, ?s)" "outbox_inv ?s"
      "\<forall>c'. claim_msg c' \<noteq> claim_msg c \<longrightarrow> live_claim c' s \<longrightarrow> live_claim c' ?s"
    unfolding mem_outbox.settles_def by auto
  have "\<forall>c'\<in>set cs. live_claim c' ?s" using Cons.prems(2,3) x(3) by (auto simp: image_iff)
  then have IH: "dict_get (obs_items (snd (settle_claims mem_outbox_port handler p now cs (count_settled x sm) ?s))) m =
      map_option (\<lambda>it. if m \<in> claim_msg ` set cs then settled_item p t (h (st_envelope it)) it else it)
        (dict_get (obs_items ?s) m)"
    using Cons.prems(3) x(2) by (intro Cons.IH) auto
  have "claim_msg c \<notin> claim_msg ` set cs" using Cons.prems(3) by simp
  with IH x(1) it show ?case by (auto simp: sbind_def put_item_def dict_simps)
qed


definition sample_policy :: retry_policy where
  "sample_policy = \<lparr>rp_initial_delay = 5, rp_multiplier = 1, rp_maximum_delay = 5, rp_max_attempts = 3\<rparr>"

definition sample_item :: "string \<Rightarrow> instant \<Rightarrow> unit stored" where
  "sample_item m t = \<lparr>st_envelope = harness_envelope m () 0 t, st_claim_id = None, st_claimed_until = None,
     st_delivered_at = None, st_failure_reason = None, st_failed_at = None\<rparr>"

definition sample_outbox :: "unit outbox_store" where
  "sample_outbox = \<lparr>obs_capacity = 5, obs_items =
     [(OpaqueId ''a'', sample_item ''a'' 7), (OpaqueId ''b'', sample_item ''b'' 3)]\<rparr>"

lemmas sample_outbox_defs = sample_outbox_def sample_item_def harness_envelope_def

lemma sample_outbox_inv: "outbox_inv sample_outbox"
  by (simp add: outbox_inv_def stored_ok_def check_envelope_def sample_outbox_defs split: if_splits)

lemma sample_outbox_eligible:
  "eligible 4 1 sample_outbox = [sample_item ''b'' 3]"
  "eligible 9 2 sample_outbox = [sample_item ''b'' 3, sample_item ''a'' 7]"
  by (simp_all add: eligible_def claimable_def claim_order_def sample_outbox_defs)


section \<open>Runs of calls\<close>

text \<open>
  An envelope is validated by its constructor, so a call of \<open>add\<close> carries a valid one.
  The archive callback is part of the call.
\<close>

datatype 'p outbox_call =
    Add "'p outbox_envelope"
  | Claim datetime int timedelta "nat \<Rightarrow> string"
  | Settle_delivered "'p outbox_claim" datetime
  | Settle_retry "'p outbox_claim" datetime
  | Settle_failed "'p outbox_claim" string datetime
  | Purge_delivered maintenance_plan
  | Archive_failed maintenance_plan "'p failed_outbox_envelope list \<Rightarrow> unit res"

datatype 'p outbox_reply =
    AddReply "outbox_add_result res" | ClaimReply "'p outbox_claim list res" | SettleReply "bool res"
  | MaintenanceReply "maintenance_summary res"

fun outbox_step :: "'p outbox_call \<Rightarrow> 'p outbox_store \<Rightarrow> 'p outbox_reply \<times> 'p outbox_store" where
  "outbox_step (Add env) s = apfst AddReply (outbox_add env s)"
| "outbox_step (Claim now limit ttl uuid) s = apfst ClaimReply (outbox_claim_items now limit ttl uuid s)"
| "outbox_step (Settle_delivered c on) s = apfst SettleReply (outbox_delivered c on s)"
| "outbox_step (Settle_retry c on) s = apfst SettleReply (outbox_retry c on s)"
| "outbox_step (Settle_failed c reason on) s = apfst SettleReply (outbox_failed c reason on s)"
| "outbox_step (Purge_delivered plan) s = apfst MaintenanceReply (purge_delivered plan s)"
| "outbox_step (Archive_failed plan archive) s = apfst MaintenanceReply (archive_failed plan archive s)"

fun valid_call :: "'p outbox_call \<Rightarrow> 'p outbox_store \<Rightarrow> bool" where
  "valid_call (Add env) s \<longleftrightarrow> check_envelope env = Inr env"
| "valid_call _ s \<longleftrightarrow> True"

lemma claim_loop_overflow:
  assumes "dt_plus now ttl = Inl e" and "0 < limit"
  shows "claim_loop uuid now limit ttl its [] s =
    (case filter (claimable now) its of
       [] \<Rightarrow> (Inr [], s)
     | it # _ \<Rightarrow> (Inl e, put_item (msg_id it) (it\<lparr>st_claim_id := Some (uuid 0)\<rparr>) s))"
  using assms by (induction its) (auto simp: Let_def)

lemma claim_cases:
  obtains (rejected) "\<exists>e. outbox_claim_items now limit ttl uuid s = (Inl e, s)"
  | (nothing) "outbox_claim_items now limit ttl uuid s = (Inr [], s)"
  | (overflow) t it e where "require_aware_utc now = Inr t" "claimable t it" "it \<in> snd ` set (obs_items s)"
      "outbox_claim_items now limit ttl uuid s =
         (Inl e, put_item (msg_id it) (it\<lparr>st_claim_id := Some (uuid 0)\<rparr>) s)"
  | (claims) t where "require_aware_utc now = Inr t" "0 < limit" "0 < ttl" "dt_plus t ttl = Inr (t + ttl)"
      "outbox_claim_items now limit ttl uuid s =
         (Inr (mk_claims uuid (t + ttl) 0 (eligible t limit s)),
          mark_claims uuid (t + ttl) 0 (eligible t limit s) s)"
proof (cases "\<exists>t. require_aware_utc now = Inr t \<and> 0 < limit \<and> 0 < ttl")
  case True
  then obtain t where t: "require_aware_utc now = Inr t" "0 < limit" "0 < ttl" by blast
  show thesis
  proof (cases "dt_plus t ttl")
    case (Inr u)
    then have "u = t + ttl" by (simp add: dt_plus_Inr_iff)
    with Inr t show thesis by (intro claims) (simp_all add: claim_spec)
  next
    case (Inl e)
    let ?its = "sort_key claim_order (map snd (obs_items s))"
    have call: "outbox_claim_items now limit ttl uuid s = claim_loop uuid t limit ttl ?its [] s"
      using t by (simp add: outbox_claim_items_def)
    show thesis
    proof (cases "filter (claimable t) ?its")
      case Nil
      then have "outbox_claim_items now limit ttl uuid s = (Inr [], s)"
        by (simp add: call claim_loop_overflow [OF Inl t(2)])
      then show thesis by (rule nothing)
    next
      case (Cons it rest)
      then have "it \<in> set (filter (claimable t) ?its)" by simp
      then have "claimable t it" "it \<in> snd ` set (obs_items s)" by auto
      with t(1) Cons show thesis
        by (intro overflow [of t it e]) (simp_all add: call claim_loop_overflow [OF Inl t(2)])
    qed
  qed
next
  case False
  then show thesis
    by (cases "require_aware_utc now") (auto intro!: rejected simp: outbox_claim_items_def)
qed

lemma claim_inv: "outbox_inv s \<Longrightarrow> outbox_inv (snd (outbox_claim_items now limit ttl uuid s))"
proof -
  assume inv: "outbox_inv s"
  show ?thesis
  proof (cases rule: claim_cases [of now limit ttl uuid s])
    case (overflow t it e)
    from overflow(3) obtain m where "(m, it) \<in> set (obs_items s)" by auto
    with inv have g: "dict_get (obs_items s) m = Some it" by (simp add: outbox_inv_def dict_get_iff)
    with outbox_inv_stored [OF inv g] overflow inv show ?thesis
      by (auto simp: stored_ok_def claimable_def intro!: put_item_inv)
  next
    case (claims t)
    with inv claim_returns [OF inv claims(5)] show ?thesis by simp
  qed (use inv in auto)
qed

lemma claim_leaves_unclaimable:
  assumes inv: "outbox_inv s" and g: "dict_get (obs_items s) m = Some it"
    and un: "\<And>t. require_aware_utc now = Inr t \<Longrightarrow> \<not> claimable t it"
  shows "dict_get (obs_items (snd (outbox_claim_items now limit ttl uuid s))) m = Some it"
    and "fst (outbox_claim_items now limit ttl uuid s) = Inr cs \<Longrightarrow> m \<notin> claim_msg ` set cs"
proof (atomize (full), cases rule: claim_cases [of now limit ttl uuid s])
  case (overflow t it' e)
  from overflow(3) obtain m' where m': "(m', it') \<in> set (obs_items s)" by auto
  with inv have g': "dict_get (obs_items s) m' = Some it'" by (simp add: outbox_inv_def dict_get_iff)
  with outbox_inv_stored [OF inv g'] have "msg_id it' = m'" by (simp add: stored_ok_def)
  moreover have "m' \<noteq> m" using un [OF overflow(1)] overflow(2) g g' by auto
  ultimately show "dict_get (obs_items (snd (outbox_claim_items now limit ttl uuid s))) m = Some it \<and>
      (fst (outbox_claim_items now limit ttl uuid s) = Inr cs \<longrightarrow> m \<notin> claim_msg ` set cs)"
    using overflow(4) g by (simp add: put_item_def dict_simps)
next
  case (claims t)
  have m: "m \<notin> msg_id ` set (eligible t limit s)"
    using eligible_subset [OF inv] un [OF claims(1)] g by fastforce
  have "claim_msg ` set (mk_claims uuid (t + ttl) 0 (eligible t limit s)) = msg_id ` set (eligible t limit s)"
    using mk_claims_msgs by (metis list.set_map)
  with m claims(5) g show "dict_get (obs_items (snd (outbox_claim_items now limit ttl uuid s))) m = Some it \<and>
      (fst (outbox_claim_items now limit ttl uuid s) = Inr cs \<longrightarrow> m \<notin> claim_msg ` set cs)"
    by (auto simp: mark_claims_other)
qed (use g in auto)

section \<open>Every call keeps the invariant\<close>

lemma message_key_selected:
  assumes "outbox_inv s" and "set sel \<subseteq> set (obs_items s)"
  shows "map message_key sel = map fst sel"
proof (rule map_cong [OF refl])
  fix p
  assume "p \<in> set sel"
  with assms have "dict_get (obs_items s) (fst p) = Some (snd p)" by (auto simp: outbox_inv_def dict_get_iff)
  then show "message_key p = fst p"
    using outbox_inv_stored [OF assms(1)] by (simp add: message_key_def stored_ok_def)
qed

lemma message_key_batch:
  "outbox_inv s \<Longrightarrow> map message_key (select_batch P key n (obs_items s)) = map fst (select_batch P key n (obs_items s))"
  by (rule message_key_selected) (auto dest: select_batch_subset)

interpretation outbox_retention: retention purge_delivered obs_items delivered_due delivered_age "\<lambda>p. p" outbox_inv
  by unfold_locales (simp_all add: purge_delivered_def Let_def message_key_batch, simp add: outbox_inv_def)

lemma pop_items_inv: "outbox_inv s \<Longrightarrow> outbox_inv (s\<lparr>obs_items := pop_all ks (obs_items s)\<rparr>)"
  by (auto simp: outbox_inv_def dict_simps)

lemma add_inv: "outbox_inv s \<Longrightarrow> check_envelope env = Inr env \<Longrightarrow> outbox_inv (snd (outbox_add env s))"
  by (auto simp: outbox_add_def outbox_inv_def put_item_def new_stored_def stored_ok_def dict_simps)

lemma valid_item_Some:
  assumes "outbox_inv s" and "valid_item c s = Some it"
  shows "dict_get (obs_items s) (claim_msg c) = Some it \<and> stored_ok (claim_msg c) it
    \<and> st_delivered_at it = None \<and> st_failure_reason it = None \<and> st_failed_at it = None"
proof -
  have "dict_get (obs_items s) (claim_msg c) = Some it" "st_delivered_at it = None" "st_failure_reason it = None"
    using assms(2) by (auto simp: valid_item_def split: option.splits if_splits)
  moreover from outbox_inv_stored [OF assms(1) this(1)] this(3) have "st_failed_at it = None"
    by (simp add: stored_ok_def)
  ultimately show ?thesis using outbox_inv_stored [OF assms(1)] by blast
qed

lemma settle_inv:
  assumes "outbox_inv s" and "valid_item c s = Some it"
    and "stored_ok (claim_msg c) it \<and> st_delivered_at it = None \<and> st_failure_reason it = None
      \<and> st_failed_at it = None \<Longrightarrow> stored_ok (claim_msg c) it'"
  shows "outbox_inv (put_item (claim_msg c) it' s)"
  using assms valid_item_Some [OF assms(1,2)] by (intro put_item_inv) auto

lemma delivered_inv: "outbox_inv s \<Longrightarrow> outbox_inv (snd (outbox_delivered c on s))"
  by (auto simp: outbox_delivered_def split: sum.splits option.splits)
    (erule settle_inv, assumption, auto simp: stored_ok_def)

lemma retry_inv: "outbox_inv s \<Longrightarrow> outbox_inv (snd (outbox_retry c on s))"
  by (auto simp: outbox_retry_def check_envelope_def split: sum.splits option.splits if_splits)
    (erule settle_inv, assumption, auto simp: stored_ok_def check_envelope_def)

lemma failed_inv: "outbox_inv s \<Longrightarrow> outbox_inv (snd (outbox_failed c reason on s))"
  by (auto simp: outbox_failed_def split: sum.splits option.splits)
    (erule settle_inv, assumption, auto simp: stored_ok_def)

lemma purge_delivered_inv: "outbox_inv s \<Longrightarrow> outbox_inv (snd (purge_delivered plan s))"
  by (simp add: purge_delivered_def Let_def pop_items_inv)

lemma archive_failed_inv: "outbox_inv s \<Longrightarrow> outbox_inv (snd (archive_failed plan archive s))"
  by (simp add: archive_failed_def Let_def pop_items_inv split: sum.splits)

interpretation outbox_machine: guarded_machine outbox_step outbox_inv valid_call
proof
  fix s :: "'p outbox_store" and x
  assume "outbox_inv s" and "valid_call x s"
  then show "outbox_inv (snd (outbox_step x s))"
    by (cases x) (simp_all add: add_inv claim_inv delivered_inv retry_inv failed_inv purge_delivered_inv
        archive_failed_inv)
qed

section \<open>A claim is exclusive until it expires\<close>

definition outbox_held :: "'p outbox_claim \<Rightarrow> 'p outbox_store \<Rightarrow> bool" where
  "outbox_held c s \<longleftrightarrow> (\<exists>it. valid_item c s = Some it \<and> st_claimed_until it = Some (oc_claimed_until c))"

text \<open>Calls that claim before the expiry of \<open>c\<close> and settle other claims.\<close>

fun by_others :: "'p outbox_claim \<Rightarrow> 'p outbox_call \<Rightarrow> 'p outbox_store \<Rightarrow> bool" where
  "by_others c (Add env) s \<longleftrightarrow> check_envelope env = Inr env"
| "by_others c (Claim now limit ttl uuid) s \<longleftrightarrow> (\<forall>t. require_aware_utc now = Inr t \<longrightarrow> t < oc_claimed_until c)"
| "by_others c (Settle_delivered c' on) s \<longleftrightarrow> oc_claim_id c' \<noteq> oc_claim_id c"
| "by_others c (Settle_retry c' on) s \<longleftrightarrow> oc_claim_id c' \<noteq> oc_claim_id c"
| "by_others c (Settle_failed c' reason on) s \<longleftrightarrow> oc_claim_id c' \<noteq> oc_claim_id c"
| "by_others c _ s \<longleftrightarrow> True"

lemma pop_batch_keeps:
  assumes inv: "outbox_inv s" and it: "dict_get (obs_items s) m = Some it" and "\<not> P (m, it)"
  shows "dict_get (pop_all (map message_key (select_batch P key n (obs_items s))) (obs_items s)) m = Some it"
  unfolding message_key_batch [OF inv]
  using assms by (intro pop_selected_keeps) (auto simp: outbox_inv_def dest: select_batch_subset)

lemma held_put:
  "outbox_held c s \<Longrightarrow> valid_item c' s = Some it' \<Longrightarrow> oc_claim_id c' \<noteq> oc_claim_id c \<Longrightarrow>
     outbox_held c (put_item (claim_msg c') it s)"
  by (cases "claim_msg c = claim_msg c'")
    (auto simp: outbox_held_def put_item_def dict_simps valid_item_def split: option.splits if_splits)

lemma held_same_items:
  assumes "outbox_held c s" and "\<And>it. dict_get (obs_items s) (claim_msg c) = Some it \<Longrightarrow>
      st_delivered_at it = None \<Longrightarrow> st_failure_reason it = None \<Longrightarrow> st_claimed_until it = Some (oc_claimed_until c)
      \<Longrightarrow> dict_get (obs_items s') (claim_msg c) = Some it"
  shows "outbox_held c s'"
  using assms by (auto simp: outbox_held_def valid_item_def split: option.splits if_splits)

interpretation outbox_hold: guarded_machine outbox_step
    "\<lambda>s. outbox_inv s \<and> outbox_held c s" "by_others c"
  for c :: "'p outbox_claim"
proof (unfold_locales, elim conjE, intro conjI)
  fix s :: "'p outbox_store" and x
  assume inv: "outbox_inv s" and h: "outbox_held c s" and g: "by_others c x s"
  have "valid_call x s" using g by (cases x) auto
  with inv show "outbox_inv (snd (outbox_step x s))" by (rule outbox_machine.inv_step)
  show "outbox_held c (snd (outbox_step x s))"
  proof (cases x)
    case (Add env)
    with h show ?thesis
      by (auto simp: outbox_add_def intro!: held_same_items [OF h]) (auto simp: put_item_def dict_simps)
  next
    case (Claim now limit ttl uuid)
    then have "dict_get (obs_items (snd (outbox_step x s))) (claim_msg c) = Some it"
      if "dict_get (obs_items s) (claim_msg c) = Some it" "st_claimed_until it = Some (oc_claimed_until c)" for it
      using g that claim_leaves_unclaimable(1) [OF inv that(1)] by (fastforce simp: claimable_def)
    with held_same_items [OF h] show ?thesis by blast
  next
    case (Settle_delivered c' on)
    with h g show ?thesis by (auto simp: outbox_delivered_def held_put split: sum.splits option.splits)
  next
    case (Settle_retry c' on)
    with h g show ?thesis by (auto simp: outbox_retry_def held_put split: sum.splits option.splits)
  next
    case (Settle_failed c' reason on)
    with h g show ?thesis by (auto simp: outbox_failed_def held_put split: sum.splits option.splits)
  next
    case (Purge_delivered plan)
    with h show ?thesis
      by (auto simp: purge_delivered_def Let_def delivered_due_def intro!: held_same_items [OF h] pop_batch_keeps [OF inv])
  next
    case (Archive_failed plan archive)
    with h show ?thesis
      by (auto simp: archive_failed_def Let_def failed_due_def split: sum.splits
          intro!: held_same_items [OF h] pop_batch_keeps [OF inv])
  qed
qed

lemma claim_holds:
  assumes inv: "outbox_inv s" and ret: "outbox_claim_items now limit ttl uuid s = (Inr cs, s')" and c: "c \<in> set cs"
  shows "outbox_held c s'"
proof (cases rule: claim_cases [of now limit ttl uuid s])
  case (claims t)
  let ?e = "eligible t limit s"
  have cs: "cs = mk_claims uuid (t + ttl) 0 ?e" "s' = mark_claims uuid (t + ttl) 0 ?e s" using claims(5) ret by auto
  with c obtain i where i: "i < length ?e" "c = mk_claims uuid (t + ttl) 0 ?e ! i" by (auto simp: in_set_conv_nth)
  have "claimable t (?e ! i)" using eligible_subset(2) [OF inv nth_mem [OF i(1)]] .
  with mark_claims_get [OF eligible_distinct [OF inv] i(1), of uuid "t + ttl" 0 s] show ?thesis
    unfolding i(2) mk_claims_nth [OF i(1)] cs(2)
    by (simp add: outbox_held_def valid_item_def claimed_item_def claimable_def)
qed (use ret c in auto)

text \<open>C20.  A claim is exclusive until it expires: after a claim call that returned \<open>c\<close>, through any
  calls that settle other claims and claim before the expiry of \<open>c\<close> (additions, purges and
  archiving included), no claim call before that expiry returns the message of \<open>c\<close> again, and
  the holder can still record its delivery.\<close>

theorem outbox_claim_is_exclusive:
  assumes inv: "outbox_inv s" and claim: "outbox_claim_items now limit ttl uuid s = (Inr cs, s1)" and c: "c \<in> set cs"
    and calls: "guarded (by_others c) outbox_step xs s1"
    and later: "require_aware_utc now' = Inr t" "t < oc_claimed_until c"
  shows "(\<forall>limit' ttl' uuid' cs'. fst (outbox_claim_items now' limit' ttl' uuid' (snd (run outbox_step xs s1))) = Inr cs'
            \<longrightarrow> claim_msg c \<notin> claim_msg ` set cs')
    \<and> fst (outbox_delivered c now' (snd (run outbox_step xs s1))) = Inr True"
proof -
  have "outbox_inv s1" using claim_inv [OF inv, of now limit ttl uuid] claim by simp
  then have run: "outbox_inv (snd (run outbox_step xs s1)) \<and> outbox_held c (snd (run outbox_step xs s1))"
    using calls claim_holds [OF inv claim c] by (intro outbox_hold.run_inv) auto
  then obtain it where it: "valid_item c (snd (run outbox_step xs s1)) = Some it"
      "st_claimed_until it = Some (oc_claimed_until c)"
    by (auto simp: outbox_held_def)
  then have g: "dict_get (obs_items (snd (run outbox_step xs s1))) (claim_msg c) = Some it"
    by (auto simp: valid_item_def split: option.splits if_splits)
  have un: "\<not> claimable u it" if "require_aware_utc now' = Inr u" for u
    using that later it(2) by (simp add: claimable_def)
  show ?thesis
    using claim_leaves_unclaimable(2) [where now = now', OF conjunct1 [OF run] g un] it(1) later(1)
    by (auto simp: outbox_delivered_def)
qed

theorem outbox_claim_is_exclusive_witness:
  "fst (outbox_delivered \<lparr>oc_claim_id = ''c'', oc_envelope = harness_envelope ''b'' () 0 3, oc_claimed_until = 14\<rparr>
      (utc_datetime 13)
      (snd (run outbox_step [Claim (utc_datetime 10) 5 100 (\<lambda>_. ''d'')]
        (snd (outbox_claim_items (utc_datetime 4) 1 10 (\<lambda>_. ''c'') sample_outbox))))) = Inr True"
proof -
  have "outbox_claim_items (utc_datetime 4) 1 10 (\<lambda>_. ''c'') sample_outbox =
      (Inr [\<lparr>oc_claim_id = ''c'', oc_envelope = harness_envelope ''b'' () 0 3, oc_claimed_until = 14\<rparr>],
       snd (outbox_claim_items (utc_datetime 4) 1 10 (\<lambda>_. ''c'') sample_outbox))"
    using claim_spec [OF require_aware_utc_datetime, of 1 10 4 14 "\<lambda>_. ''c''" sample_outbox]
    by (simp add: sample_outbox_eligible dt_plus_def dt_max_def) (simp add: sample_item_def)
  from outbox_claim_is_exclusive [OF sample_outbox_inv this, of _ "[Claim (utc_datetime 10) 5 100 (\<lambda>_. ''d'')]"
      "utc_datetime 13" 13]
  show ?thesis by simp
qed

section \<open>Delivered and failed messages stay settled\<close>

definition outbox_terminal :: "opaque_id \<Rightarrow> 'p stored \<Rightarrow> 'p outbox_store \<Rightarrow> bool" where
  "outbox_terminal m it s \<longleftrightarrow> dict_get (obs_items s) m = Some it
     \<and> (st_delivered_at it \<noteq> None \<or> st_failure_reason it \<noteq> None)"

text \<open>Maintenance that takes effect does not reach the message's settlement time.\<close>

fun not_expiring :: "opaque_id \<Rightarrow> 'p stored \<Rightarrow> 'p outbox_call \<Rightarrow> 'p outbox_store \<Rightarrow> bool" where
  "not_expiring m it (Add env) s \<longleftrightarrow> check_envelope env = Inr env"
| "not_expiring m it (Purge_delivered plan) s \<longleftrightarrow> mp_dry_run plan \<or> \<not> delivered_due plan (m, it)"
| "not_expiring m it (Archive_failed plan archive) s \<longleftrightarrow> mp_dry_run plan \<or> \<not> failed_due plan (m, it)"
| "not_expiring m it _ s \<longleftrightarrow> True"

lemma terminal_put:
  "outbox_terminal m it s \<Longrightarrow> valid_item c s = Some it' \<Longrightarrow> outbox_terminal m it (put_item (claim_msg c) it'' s)"
  by (cases "claim_msg c = m")
    (auto simp: outbox_terminal_def valid_item_def put_item_def dict_simps split: option.splits if_splits)

interpretation outbox_settled: guarded_machine outbox_step
    "\<lambda>s. outbox_inv s \<and> outbox_terminal m it s" "not_expiring m it"
  for m and it :: "'p stored"
proof (unfold_locales, elim conjE, intro conjI)
  fix s :: "'p outbox_store" and x
  assume inv: "outbox_inv s" and h: "outbox_terminal m it s" and g: "not_expiring m it x s"
  have "valid_call x s" using g by (cases x) auto
  with inv show "outbox_inv (snd (outbox_step x s))" by (rule outbox_machine.inv_step)
  from h have get: "dict_get (obs_items s) m = Some it" by (simp add: outbox_terminal_def)
  show "outbox_terminal m it (snd (outbox_step x s))"
  proof (cases x)
    case (Add env)
    with h show ?thesis by (auto simp: outbox_add_def outbox_terminal_def put_item_def dict_simps)
  next
    case (Claim now limit ttl uuid)
    have "\<not> claimable t it" for t using h by (auto simp: claimable_def outbox_terminal_def)
    with Claim h claim_leaves_unclaimable(1) [OF inv get] show ?thesis by (simp add: outbox_terminal_def)
  next
    case (Settle_delivered c' on)
    with h show ?thesis by (auto simp: outbox_delivered_def terminal_put split: sum.splits option.splits)
  next
    case (Settle_retry c' on)
    with h show ?thesis by (auto simp: outbox_retry_def terminal_put split: sum.splits option.splits)
  next
    case (Settle_failed c' reason on)
    with h show ?thesis by (auto simp: outbox_failed_def terminal_put split: sum.splits option.splits)
  next
    case (Purge_delivered plan)
    with h g pop_batch_keeps [OF inv get] show ?thesis
      by (auto simp: purge_delivered_def Let_def outbox_terminal_def)
  next
    case (Archive_failed plan archive)
    with h g pop_batch_keeps [OF inv get] show ?thesis
      by (auto simp: archive_failed_def Let_def outbox_terminal_def split: sum.splits)
  qed
qed

text \<open>A settled message is final: once a message is delivered or failed, through every run whose
  maintenance does not reach it, its record does not change at all, every claim call leaves it
  out, adding it again reports a duplicate and no old claim can settle it a second time.\<close>

theorem outbox_settled_message_is_final:
  assumes inv: "outbox_inv s" and it: "dict_get (obs_items s) m = Some it"
    and settled: "st_delivered_at it \<noteq> None \<or> st_failure_reason it \<noteq> None"
    and calls: "guarded (not_expiring m it) outbox_step xs s"
  shows "dict_get (obs_items (snd (run outbox_step xs s))) m = Some it
    \<and> (\<forall>now limit ttl uuid cs. fst (outbox_claim_items now limit ttl uuid (snd (run outbox_step xs s))) = Inr cs
          \<longrightarrow> m \<notin> claim_msg ` set cs)
    \<and> (\<forall>env. oe_message_id env = m \<longrightarrow> fst (outbox_add env (snd (run outbox_step xs s))) = Inr OutboxDuplicate)
    \<and> (\<forall>c t. claim_msg c = m \<longrightarrow> fst (outbox_delivered c (utc_datetime t) (snd (run outbox_step xs s))) = Inr False)"
proof -
  have "outbox_inv (snd (run outbox_step xs s)) \<and> outbox_terminal m it (snd (run outbox_step xs s))"
    using inv it settled calls by (intro outbox_settled.run_inv) (auto simp: outbox_terminal_def)
  then have run: "outbox_inv (snd (run outbox_step xs s))" "dict_get (obs_items (snd (run outbox_step xs s))) m = Some it"
    by (auto simp: outbox_terminal_def)
  have "\<not> claimable t it" for t using settled by (auto simp: claimable_def)
  with claim_leaves_unclaimable(2) [OF run] run(2) settled show ?thesis
    by (auto simp: outbox_add_def outbox_delivered_def valid_item_def)
qed

theorem outbox_settled_message_is_final_witness:
  "fst (outbox_add (harness_envelope ''b'' () 8 8)
     (snd (run outbox_step [Claim (utc_datetime 10) 5 100 (\<lambda>_. ''d'')]
       (put_item (OpaqueId ''b'') (sample_item ''b'' 3\<lparr>st_delivered_at := Some 5\<rparr>) sample_outbox)))) = Inr OutboxDuplicate"
proof -
  let ?s = "put_item (OpaqueId ''b'') (sample_item ''b'' 3\<lparr>st_delivered_at := Some 5\<rparr>) sample_outbox"
  have "outbox_inv ?s"
    by (rule put_item_inv [OF sample_outbox_inv])
      (simp_all add: sample_outbox_defs stored_ok_def check_envelope_def)
  from outbox_settled_message_is_final [OF this, of "OpaqueId ''b''" "sample_item ''b'' 3\<lparr>st_delivered_at := Some 5\<rparr>"
      "[Claim (utc_datetime 10) 5 100 (\<lambda>_. ''d'')]"]
  show ?thesis by (auto simp: harness_envelope_def put_item_def dict_simps)
qed

section \<open>Archiving\<close>

definition archived :: "opaque_id \<times> 'p stored \<Rightarrow> 'p failed_outbox_envelope" where
  "archived p = \<lparr>fe_envelope = st_envelope (snd p), fe_reason = the (st_failure_reason (snd p)),
                 fe_failed_at = the (st_failed_at (snd p))\<rparr>"

lemma failed_envelopes_archived:
  assumes "\<forall>p\<in>set ps. st_failure_reason (snd p) \<notin> {None, Some []} \<and> st_failed_at (snd p) \<noteq> None"
  shows "failed_envelopes ps = Inr (map archived ps)"
  using assms by (induction ps) (auto simp: mk_failed_envelope_def archived_def)

text \<open>Archiving loses nothing: a run of \<open>archive_failed\<close> that takes effect hands the callback exactly
  the failed messages it is about to remove, with their reasons and failure times; when the
  callback raises, its error is returned and no message is removed, and when it returns, every
  message that is gone was in the archived batch.\<close>

theorem archive_failed_loses_nothing:
  assumes inv: "outbox_inv s" and live: "\<not> mp_dry_run plan"
    and batch: "batch = select_batch (failed_due plan) (failed_age plan) (mp_batch_size plan) (obs_items s)"
      "batch \<noteq> []"
  shows "(\<forall>e. archive (map archived batch) = Inl e \<longrightarrow> archive_failed plan archive s = (Inl e, s))
    \<and> (archive (map archived batch) = Inr () \<longrightarrow>
        fst (archive_failed plan archive s) = batch_summary False (length batch)
        \<and> (\<forall>m it. dict_get (obs_items s) m = Some it \<longrightarrow>
              (if (m, it) \<in> set batch then dict_get (obs_items (snd (archive_failed plan archive s))) m = None
               else dict_get (obs_items (snd (archive_failed plan archive s))) m = Some it)))"
proof -
  have sub: "set batch \<subseteq> set (obs_items s)" by (auto simp: batch(1) dest: select_batch_subset)
  have "st_failure_reason (snd p) \<notin> {None, Some []} \<and> st_failed_at (snd p) \<noteq> None" if "p \<in> set batch" for p
  proof -
    have "dict_get (obs_items s) (fst p) = Some (snd p)"
      using that sub inv by (auto simp: outbox_inv_def dict_get_iff)
    with outbox_inv_stored [OF inv this] that show ?thesis
      by (auto simp: batch(1) stored_ok_def failed_due_def dest!: select_batch_subset)
  qed
  then have env: "failed_envelopes batch = Inr (map archived batch)" by (simp add: failed_envelopes_archived)
  have keys: "map message_key batch = map fst batch" by (rule message_key_selected [OF inv sub])
  have gone: "(if (m, it) \<in> set batch then dict_get (pop_all (map fst batch) (obs_items s)) m = None
      else dict_get (pop_all (map fst batch) (obs_items s)) m = Some it)"
    if "dict_get (obs_items s) m = Some it" for m it
    using that inv sub pop_selected_keeps [of "obs_items s" batch m it]
    by (auto simp: outbox_inv_def pop_all_get rev_image_eqI)
  have "archive_failed plan archive s =
      (case archive (map archived batch) of
         Inl e \<Rightarrow> (Inl e, s)
       | Inr _ \<Rightarrow> (batch_summary False (length batch), s\<lparr>obs_items := pop_all (map fst batch) (obs_items s)\<rparr>))"
    unfolding archive_failed_def Let_def batch(1) [symmetric] keys env using live batch(2) by (simp split: sum.split)
  with gone show ?thesis by auto
qed

theorem archive_failed_loses_nothing_witness:
  "archive_failed \<lparr>mp_cutoff = 9, mp_batch_size = 1, mp_dry_run = False\<rparr> (\<lambda>_. Inl RuntimeError)
     (put_item (OpaqueId ''b'') (sample_item ''b'' 3\<lparr>st_failure_reason := Some ''r'', st_failed_at := Some 5\<rparr>) sample_outbox)
   = (Inl RuntimeError,
      put_item (OpaqueId ''b'') (sample_item ''b'' 3\<lparr>st_failure_reason := Some ''r'', st_failed_at := Some 5\<rparr>) sample_outbox)"
proof -
  let ?it = "sample_item ''b'' 3\<lparr>st_failure_reason := Some ''r'', st_failed_at := Some 5\<rparr>"
  let ?s = "put_item (OpaqueId ''b'') ?it sample_outbox"
  let ?plan = "\<lparr>mp_cutoff = 9, mp_batch_size = 1, mp_dry_run = False\<rparr>"
  have inv: "outbox_inv ?s"
    by (rule put_item_inv [OF sample_outbox_inv]) (simp_all add: sample_outbox_defs stored_ok_def check_envelope_def)
  have "select_batch (failed_due ?plan) (failed_age ?plan) 1 (obs_items ?s) = [(OpaqueId ''b'', ?it)]"
    by (simp add: select_batch_def failed_due_def sample_outbox_defs put_item_def)
  then show ?thesis
    using archive_failed_loses_nothing [OF inv, of ?plan "[(OpaqueId ''b'', ?it)]" "\<lambda>_. Inl RuntimeError"] by simp
qed

lemmas outbox_eval = outbox_add_def outbox_claim_items_def outbox_delivered_def outbox_retry_def outbox_failed_def
  put_item_def new_stored_def valid_item_def check_envelope_def claimable_def claim_order_def Let_def

text \<open>The in-memory outbox passes its conformance harness for every capacity of at least two.\<close>

theorem outbox_harness_passes:
  assumes "InMemoryOutboxStore cap = Inr s" and "2 \<le> cap" and "0 \<le> now" and "now + seconds 120 \<le> dt_max"
  shows "fst (outbox_exercise mem_outbox_port uuid p now s) = Inr ()"
proof -
  have s: "s = \<lparr>obs_capacity = cap, obs_items = []\<rparr>"
    using assms(1) by (simp add: InMemoryOutboxStore_def split: if_splits)
  show ?thesis
    using assms(2,3,4)
    by (simp add: s outbox_exercise_def mem_outbox_port_def outbox_eval harness_envelope_def seconds_def
        sbind_def sassert_def expect_value_error_def dt_plus_def)
qed

theorem outbox_harness_passes_witness:
  "fst (outbox_exercise mem_outbox_port (\<lambda>_ _. ''c'') () 0 \<lparr>obs_capacity = 2, obs_items = []\<rparr>) = Inr ()"
  by (rule outbox_harness_passes [of 2]) (simp_all add: InMemoryOutboxStore_def seconds_def dt_max_def)

end
