(* ===== verification/Receipts.thy ===== *)
theory Receipts
  imports Core Maintenance "HOL-Library.Finite_Map"
begin

text \<open>
  Model of \<open>src/src/pytitect/receipts.py\<close>: typed operation receipts, their state machine,
  the in-memory store with compare-and-set transitions, and the reconciler that resolves
  uncertain receipts.  Shown: every stored receipt moves only along the state machine,
  confirmed receipts never change, and the reconciler confirms a receipt only by winning
  the compare-and-set against whatever other clients do between its calls.
\<close>

declare map_of_eq_Some_iff [simp del] Some_eq_map_of_iff [simp del]

section \<open>States and receipts\<close>

datatype receipt_state = ACCEPTED | PROCESSING | COMPLETED | REJECTED | CONFLICTED | UNCERTAIN

datatype receipt_kind = MUTATION | COMMAND | RUN | OPERATION | TERMINAL_BOUNDARY

fun transitions :: "receipt_state \<Rightarrow> receipt_state list" where
  "transitions ACCEPTED = [PROCESSING, REJECTED, CONFLICTED, UNCERTAIN]"
| "transitions PROCESSING = [COMPLETED, REJECTED, CONFLICTED, UNCERTAIN]"
| "transitions COMPLETED = []"
| "transitions REJECTED = []"
| "transitions CONFLICTED = []"
| "transitions UNCERTAIN = []"

text \<open>
  Dataclass equality compares the classes too, and \<open>replace\<close> keeps the class, so the class
  is part of the value; the subclasses fix their kind.  Metadata is a finite map, equal
  up to order; results and metadata values are compared by the program's \<open>==\<close>.
\<close>

datatype receipt_class =
  PlainReceipt | MutationReceipt | CommandReceipt | RunReceipt | OperationReceipt | TerminalBoundaryReceipt

fun class_kind :: "receipt_class \<Rightarrow> receipt_kind \<Rightarrow> receipt_kind" where
  "class_kind PlainReceipt k = k"
| "class_kind MutationReceipt _ = MUTATION"
| "class_kind CommandReceipt _ = COMMAND"
| "class_kind RunReceipt _ = RUN"
| "class_kind OperationReceipt _ = OPERATION"
| "class_kind TerminalBoundaryReceipt _ = TERMINAL_BOUNDARY"

record ('r, 'm) receipt =
  rc_class :: receipt_class
  rc_receipt_id :: opaque_id
  rc_kind :: receipt_kind
  rc_state :: receipt_state
  rc_created_at :: instant
  rc_updated_at :: instant
  rc_result :: "'r option"
  rc_metadata :: "(string, 'm) fmap"

definition check_receipt :: "('r, 'm) receipt \<Rightarrow> ('r, 'm) receipt res" where
  "check_receipt r =
     (if rc_updated_at r < rc_created_at r then Inl ValueError
      else if 64 < fcard (fmdom (rc_metadata r)) then Inl ValueError
      else Inr r)"

definition mk_receipt ::
    "receipt_class \<Rightarrow> opaque_id \<Rightarrow> receipt_kind \<Rightarrow> receipt_state \<Rightarrow> datetime \<Rightarrow> datetime \<Rightarrow> 'r option
     \<Rightarrow> (string, 'm) fmap \<Rightarrow> ('r, 'm) receipt res" where
  "mk_receipt cls rid kind st created updated result metadata =
     and_then (require_aware_utc created) (\<lambda>c.
     and_then (require_aware_utc updated) (\<lambda>u.
     check_receipt \<lparr>rc_class = cls, rc_receipt_id = rid, rc_kind = class_kind cls kind, rc_state = st,
                    rc_created_at = c, rc_updated_at = u, rc_result = result, rc_metadata = metadata\<rparr>))"

datatype invalid_reason = TimestampBackwards | TransitionNotAllowed | ResultRequired

datatype ('r, 'm) transition_result =
    ReceiptTransitioned "('r, 'm) receipt"
  | InvalidTransition receipt_state receipt_state invalid_reason

text \<open>\<open>replace(self, state=target, updated_at=at, result=result)\<close>, validation included.\<close>

definition replace_state ::
    "('r, 'm) receipt \<Rightarrow> receipt_state \<Rightarrow> instant \<Rightarrow> 'r option \<Rightarrow> ('r, 'm) receipt res" where
  "replace_state r target t result =
     check_receipt (r\<lparr>rc_state := target, rc_updated_at := t, rc_result := result\<rparr>)"

definition receipt_transition ::
    "('r, 'm) receipt \<Rightarrow> receipt_state \<Rightarrow> datetime \<Rightarrow> 'r option \<Rightarrow> ('r, 'm) transition_result res" where
  "receipt_transition r target on result =
     and_then (require_aware_utc on) (\<lambda>t.
       if t < rc_updated_at r then Inr (InvalidTransition (rc_state r) target TimestampBackwards)
       else if target \<notin> set (transitions (rc_state r))
         then Inr (InvalidTransition (rc_state r) target TransitionNotAllowed)
       else if target = COMPLETED \<and> result = None
         then Inr (InvalidTransition (rc_state r) target ResultRequired)
       else and_then (replace_state r target t result) (\<lambda>r'. Inr (ReceiptTransitioned r')))"

section \<open>The store\<close>

record ('r, 'm, 's) receipt_port =
  get_op :: "opaque_id \<Rightarrow> ('s, ('r, 'm) receipt option) act"
  add_op :: "('r, 'm) receipt \<Rightarrow> ('s, bool) act"
  transition_op :: "('r, 'm) receipt \<Rightarrow> ('r, 'm) receipt \<Rightarrow> ('s, bool) act"
  reconcile_op :: "('r, 'm) receipt \<Rightarrow> ('r, 'm) receipt \<Rightarrow> ('s, bool) act"

record ('r, 'm) receipt_store =
  rcs_capacity :: int
  rcs_receipts :: "(opaque_id, ('r, 'm) receipt) dict"

definition InMemoryReceiptStore :: "int \<Rightarrow> ('r, 'm) receipt_store res" where
  "InMemoryReceiptStore capacity =
     (if capacity \<le> 0 then Inl ValueError else Inr \<lparr>rcs_capacity = capacity, rcs_receipts = []\<rparr>)"

definition receipt_get :: "opaque_id \<Rightarrow> (('r, 'm) receipt_store, ('r, 'm) receipt option) act" where
  "receipt_get rid s = (Inr (dict_get (rcs_receipts s) rid), s)"

definition receipt_add :: "('r, 'm) receipt \<Rightarrow> (('r, 'm) receipt_store, bool) act" where
  "receipt_add r s =
     (if dict_get (rcs_receipts s) (rc_receipt_id r) \<noteq> None then (Inr False, s)
      else if rcs_capacity s \<le> int (length (rcs_receipts s)) then (Inl OverflowError, s)
      else (Inr True, s\<lparr>rcs_receipts := dict_set (rc_receipt_id r) r (rcs_receipts s)\<rparr>))"

text \<open>The compare-and-set shared by \<open>transition\<close> and \<open>reconcile_uncertain\<close>.\<close>

definition receipt_cas :: "('r, 'm) receipt \<Rightarrow> ('r, 'm) receipt \<Rightarrow> (('r, 'm) receipt_store, bool) act" where
  "receipt_cas r target s =
     (if dict_get (rcs_receipts s) (rc_receipt_id r) \<noteq> Some r then (Inr False, s)
      else (Inr True, s\<lparr>rcs_receipts := dict_set (rc_receipt_id r) target (rcs_receipts s)\<rparr>))"

definition store_transition :: "('r, 'm) receipt \<Rightarrow> ('r, 'm) receipt \<Rightarrow> (('r, 'm) receipt_store, bool) act" where
  "store_transition r target s =
     (case receipt_transition r (rc_state target) (utc_datetime (rc_updated_at target)) (rc_result target) of
        Inl e \<Rightarrow> (Inl e, s)
      | Inr proposed \<Rightarrow>
          if proposed \<noteq> ReceiptTransitioned target then (Inr False, s)
          else receipt_cas r target s)"

fun terminal_for :: "bool \<Rightarrow> receipt_state \<Rightarrow> bool" where
  "terminal_for unc UNCERTAIN = unc"
| "terminal_for unc st = (st \<in> {COMPLETED, REJECTED, CONFLICTED})"

definition receipt_due :: "purge_uncertain_plan \<Rightarrow> opaque_id \<times> ('r, 'm) receipt \<Rightarrow> bool" where
  "receipt_due plan p \<longleftrightarrow> terminal_for (mp_include_uncertain plan) (rc_state (snd p))
     \<and> rc_updated_at (snd p) \<le> mp_cutoff plan"

definition receipt_age :: "purge_uncertain_plan \<Rightarrow> opaque_id \<times> ('r, 'm) receipt \<Rightarrow> instant \<times> string" where
  "receipt_age plan p = (rc_updated_at (snd p), oid_value (rc_receipt_id (snd p)))"

definition receipt_purge :: "purge_uncertain_plan \<Rightarrow> (('r, 'm) receipt_store, maintenance_summary) act" where
  "receipt_purge plan s =
     (let selected = select_batch (receipt_due plan) (receipt_age plan) (mp_batch_size plan) (rcs_receipts s) in
      (batch_summary (mp_dry_run plan) (length selected),
       if mp_dry_run plan then s
       else s\<lparr>rcs_receipts := pop_all (map (\<lambda>p. rc_receipt_id (snd p)) selected) (rcs_receipts s)\<rparr>))"

definition valid_reconciliation :: "('r, 'm) receipt \<Rightarrow> ('r, 'm) receipt \<Rightarrow> bool" where
  "valid_reconciliation r target \<longleftrightarrow>
     rc_state r = UNCERTAIN \<and> rc_state target \<in> {COMPLETED, REJECTED, CONFLICTED}
     \<and> rc_receipt_id target = rc_receipt_id r \<and> rc_kind target = rc_kind r
     \<and> rc_created_at target = rc_created_at r \<and> rc_updated_at r \<le> rc_updated_at target
     \<and> rc_metadata target = rc_metadata r
     \<and> (rc_state target \<noteq> COMPLETED \<or> rc_result target \<noteq> None)"

definition reconcile_uncertain :: "('r, 'm) receipt \<Rightarrow> ('r, 'm) receipt \<Rightarrow> (('r, 'm) receipt_store, bool) act" where
  "reconcile_uncertain r target s =
     (if \<not> valid_reconciliation r target then (Inr False, s) else receipt_cas r target s)"

definition mem_receipt_port :: "('r, 'm, ('r, 'm) receipt_store) receipt_port" where
  "mem_receipt_port = \<lparr>get_op = receipt_get, add_op = receipt_add, transition_op = store_transition,
                       reconcile_op = reconcile_uncertain\<rparr>"

section \<open>The reconciler\<close>

datatype uncertain_reason = AbsentOrSettled | ReconciliationBackwards | ChangedConcurrently

datatype ('r, 'm) reconciliation_result =
    ConfirmedCompleted "('r, 'm) receipt"
  | ConfirmedRejected "('r, 'm) receipt"
  | ConfirmedConflicted "('r, 'm) receipt"
  | StillUncertain "('r, 'm) receipt option" uncertain_reason

definition confirmed :: "('r, 'm) receipt \<Rightarrow> ('r, 'm) reconciliation_result" where
  "confirmed r =
     (if rc_state r = COMPLETED then ConfirmedCompleted r
      else if rc_state r = REJECTED then ConfirmedRejected r
      else ConfirmedConflicted r)"

text \<open>
  The reconciler makes separate calls on the store and holds no lock between them:
  \<open>others 0\<close> is what other clients do to the store between its read and its
  compare-and-set, \<open>others 1\<close> what they do between a lost compare-and-set and the second
  read.
\<close>

definition reconcile ::
    "('r, 'm, 's) receipt_port \<Rightarrow> (nat \<Rightarrow> 's \<Rightarrow> 's) \<Rightarrow> opaque_id \<Rightarrow> receipt_state \<Rightarrow> datetime \<Rightarrow> 'r option
     \<Rightarrow> ('s, ('r, 'm) reconciliation_result) act" where
  "reconcile port others rid target on result =
     sbind (slift (require_aware_utc on)) (\<lambda>t.
     if target \<notin> {COMPLETED, REJECTED, CONFLICTED} then sraise ValueError
     else
       sbind (get_op port rid) (\<lambda>cur.
       case cur of
         None \<Rightarrow> sreturn (StillUncertain None AbsentOrSettled)
       | Some r \<Rightarrow>
           if rc_state r \<noteq> UNCERTAIN then sreturn (StillUncertain (Some r) AbsentOrSettled)
           else if t < rc_updated_at r then sreturn (StillUncertain (Some r) ReconciliationBackwards)
           else if target = COMPLETED \<and> result = None then sraise ValueError
           else
             sbind (slift (replace_state r target t result)) (\<lambda>r'.
             sbind (\<lambda>s. reconcile_op port r r' (others 0 s)) (\<lambda>won.
             if \<not> won
             then sbind (\<lambda>s. get_op port rid (others 1 s)) (\<lambda>now. sreturn (StillUncertain now ChangedConcurrently))
             else sreturn (confirmed r')))))"

section \<open>The conformance harness\<close>

definition receipt_exercise :: "('r, 'm, 's) receipt_port \<Rightarrow> 'r \<Rightarrow> instant \<Rightarrow> ('s, unit) act" where
  "receipt_exercise port value now =
     (let dt = utc_datetime; later = now + seconds 1 in
      sbind (slift (mk_receipt MutationReceipt (OpaqueId ''accepted'') MUTATION ACCEPTED (dt now) (dt now) None fmempty))
        (\<lambda>accepted.
      sbind (add_op port accepted) (\<lambda>a0.
      sbind (sassert a0) (\<lambda>_.
      sbind (add_op port accepted) (\<lambda>a1.
      sbind (sassert (\<not> a1)) (\<lambda>_.
      sbind (get_op port (rc_receipt_id accepted)) (\<lambda>g0.
      sbind (sassert (g0 = Some accepted)) (\<lambda>_.
      sbind (slift (receipt_transition accepted PROCESSING (dt later) None)) (\<lambda>tr.
      case tr of InvalidTransition _ _ _ \<Rightarrow> sraise AssertionError
      | ReceiptTransitioned processing \<Rightarrow>
        sbind (transition_op port accepted processing) (\<lambda>t0.
        sbind (sassert t0) (\<lambda>_.
        sbind (transition_op port accepted processing) (\<lambda>t1.
        sbind (sassert (\<not> t1)) (\<lambda>_.
        sbind (slift (mk_receipt MutationReceipt (OpaqueId ''uncertain'') MUTATION UNCERTAIN (dt now) (dt now) None fmempty))
          (\<lambda>uncertain.
        sbind (add_op port uncertain) (\<lambda>a2.
        sbind (sassert a2) (\<lambda>_.
        sbind (slift (replace_state uncertain COMPLETED later (Some value))) (\<lambda>completed.
        sbind (reconcile_op port uncertain completed) (\<lambda>c0.
        sbind (sassert c0) (\<lambda>_.
        sbind (reconcile_op port uncertain completed) (\<lambda>c1.
        sbind (sassert (\<not> c1)) (\<lambda>_.
        sbind (get_op port (rc_receipt_id uncertain)) (\<lambda>g1.
        sassert (g1 = Some completed)))))))))))))))))))))))"

section \<open>Calls, invariant, state machine\<close>

datatype ('r, 'm) receipt_call =
    Get opaque_id
  | Add "('r, 'm) receipt"
  | Transition "('r, 'm) receipt" "('r, 'm) receipt"
  | Reconcile "('r, 'm) receipt" "('r, 'm) receipt"
  | Purge purge_uncertain_plan

datatype ('r, 'm) receipt_reply =
    GetReply "('r, 'm) receipt option res" | BoolReply "bool res" | PurgeReply "maintenance_summary res"

fun receipt_call_step ::
    "('r, 'm) receipt_call \<Rightarrow> ('r, 'm) receipt_store \<Rightarrow> ('r, 'm) receipt_reply \<times> ('r, 'm) receipt_store" where
  "receipt_call_step (Get rid) s = apfst GetReply (receipt_get rid s)"
| "receipt_call_step (Add r) s = apfst BoolReply (receipt_add r s)"
| "receipt_call_step (Transition r t) s = apfst BoolReply (store_transition r t s)"
| "receipt_call_step (Reconcile r t) s = apfst BoolReply (reconcile_uncertain r t s)"
| "receipt_call_step (Purge plan) s = apfst PurgeReply (receipt_purge plan s)"

text \<open>Receipts are validated by their constructor.\<close>

fun constructed :: "('r, 'm) receipt_call \<Rightarrow> ('r, 'm) receipt_store \<Rightarrow> bool" where
  "constructed (Add r) s \<longleftrightarrow> check_receipt r = Inr r"
| "constructed (Reconcile r t) s \<longleftrightarrow> check_receipt t = Inr t"
| "constructed _ s \<longleftrightarrow> True"

definition receipt_ok :: "opaque_id \<Rightarrow> ('r, 'm) receipt \<Rightarrow> bool" where
  "receipt_ok rid r \<longleftrightarrow> rc_receipt_id r = rid \<and> check_receipt r = Inr r"

definition receipt_inv :: "('r, 'm) receipt_store \<Rightarrow> bool" where
  "receipt_inv s \<longleftrightarrow> 0 < rcs_capacity s \<and> dict_ok (rcs_receipts s)
     \<and> int (length (rcs_receipts s)) \<le> rcs_capacity s
     \<and> (\<forall>rid r. dict_get (rcs_receipts s) rid = Some r \<longrightarrow> receipt_ok rid r)"

lemma receipt_inv_ok: "receipt_inv s \<Longrightarrow> dict_get (rcs_receipts s) rid = Some r \<Longrightarrow> receipt_ok rid r"
  by (simp add: receipt_inv_def)

text \<open>One edge of the machine: a declared transition, or the resolution of an uncertain receipt.\<close>

inductive receipt_step :: "('r, 'm) receipt \<Rightarrow> ('r, 'm) receipt \<Rightarrow> bool" where
  advance: "target \<in> set (transitions (rc_state r)) \<Longrightarrow> rc_updated_at r \<le> t \<Longrightarrow>
      (target = COMPLETED \<Longrightarrow> result \<noteq> None) \<Longrightarrow>
      receipt_step r (r\<lparr>rc_state := target, rc_updated_at := t, rc_result := result\<rparr>)"
| resolve: "valid_reconciliation r r' \<Longrightarrow> receipt_step r r'"

inductive_cases receipt_stepE: "receipt_step r r'"

abbreviation confirmed_state :: "receipt_state \<Rightarrow> bool" where
  "confirmed_state st \<equiv> st \<in> {COMPLETED, REJECTED, CONFLICTED}"

lemma receipt_step_confirmed: "receipt_step r r' \<Longrightarrow> \<not> confirmed_state (rc_state r)"
  by (auto elim!: receipt_stepE simp: valid_reconciliation_def)

lemma receipt_step_identity:
  "receipt_step r r' \<Longrightarrow> rc_receipt_id r' = rc_receipt_id r \<and> rc_kind r' = rc_kind r
     \<and> rc_created_at r' = rc_created_at r \<and> rc_metadata r' = rc_metadata r \<and> rc_updated_at r \<le> rc_updated_at r'
     \<and> (rc_state r' = COMPLETED \<longrightarrow> rc_result r' \<noteq> None)"
  by (auto elim!: receipt_stepE simp: valid_reconciliation_def)

lemma receipt_steps_confirmed:
  "receipt_step\<^sup>*\<^sup>* r r' \<Longrightarrow> confirmed_state (rc_state r) \<Longrightarrow> r' = r"
  by (induction rule: converse_rtranclp_induct) (auto dest: receipt_step_confirmed)

lemma receipt_steps_identity:
  "receipt_step\<^sup>*\<^sup>* r r' \<Longrightarrow> rc_receipt_id r' = rc_receipt_id r \<and> rc_kind r' = rc_kind r
     \<and> rc_created_at r' = rc_created_at r \<and> rc_metadata r' = rc_metadata r \<and> rc_updated_at r \<le> rc_updated_at r'"
  by (induction rule: rtranclp_induct) (use receipt_step_identity in force)+

lemma receipt_transition_step:
  "receipt_transition r st on result = Inr (ReceiptTransitioned r') \<Longrightarrow> receipt_step r r' \<and> check_receipt r' = Inr r'"
  by (auto simp: receipt_transition_def replace_state_def and_then_eq_Inr check_receipt_def
      split: if_splits intro!: advance)

lemma receipt_cas_inv:
  "receipt_inv s \<Longrightarrow> receipt_ok (rc_receipt_id r) target \<Longrightarrow> receipt_inv (snd (receipt_cas r target s))"
  by (auto simp: receipt_cas_def receipt_inv_def dict_simps)

lemma receipt_add_inv: "receipt_inv s \<Longrightarrow> check_receipt r = Inr r \<Longrightarrow> receipt_inv (snd (receipt_add r s))"
  by (auto simp: receipt_add_def receipt_inv_def receipt_ok_def dict_simps)

lemma store_transition_inv: "receipt_inv s \<Longrightarrow> receipt_inv (snd (store_transition r target s))"
  by (auto simp: store_transition_def receipt_ok_def split: sum.splits intro!: receipt_cas_inv
      dest!: receipt_transition_step receipt_step_identity)

lemma reconcile_uncertain_inv:
  "receipt_inv s \<Longrightarrow> check_receipt target = Inr target \<Longrightarrow> receipt_inv (snd (reconcile_uncertain r target s))"
  by (auto simp: reconcile_uncertain_def receipt_ok_def valid_reconciliation_def intro!: receipt_cas_inv)

lemma receipt_purge_inv: "receipt_inv s \<Longrightarrow> receipt_inv (snd (receipt_purge plan s))"
  by (auto simp: receipt_purge_def Let_def receipt_inv_def dict_simps split: if_splits)

interpretation receipt_machine: guarded_machine receipt_call_step receipt_inv constructed
proof
  fix s :: "('r, 'm) receipt_store" and x
  assume "receipt_inv s" and "constructed x s"
  then show "receipt_inv (snd (receipt_call_step x s))"
    by (cases x) (simp_all add: receipt_get_def receipt_add_inv store_transition_inv reconcile_uncertain_inv
        receipt_purge_inv)
qed

lemma receipt_keys:
  assumes "receipt_inv s" and "set sel \<subseteq> set (rcs_receipts s)"
  shows "map (\<lambda>p. rc_receipt_id (snd p)) sel = map fst sel"
  using assms by (auto simp: receipt_inv_def receipt_ok_def dict_get_iff subset_iff)

lemma receipt_keys_batch:
  "receipt_inv s \<Longrightarrow> map (\<lambda>p. rc_receipt_id (snd p)) (select_batch P key n (rcs_receipts s))
     = map fst (select_batch P key n (rcs_receipts s))"
  by (rule receipt_keys) (auto dest: select_batch_subset)

interpretation receipt_retention: retention receipt_purge rcs_receipts receipt_due receipt_age
    "\<lambda>p. maintenance_plan.truncate p" receipt_inv
  by unfold_locales (simp_all add: receipt_purge_def Let_def receipt_keys_batch maintenance_plan.truncate_def,
      simp add: receipt_inv_def)

section \<open>The history of one receipt\<close>

definition history :: "opaque_id \<Rightarrow> ('r, 'm) receipt \<Rightarrow> ('r, 'm) receipt_store \<Rightarrow> bool" where
  "history rid r s \<longleftrightarrow> (\<exists>r'. dict_get (rcs_receipts s) rid = Some r' \<and> receipt_step\<^sup>*\<^sup>* r r')"

text \<open>A purge that takes effect does not select the receipt.\<close>

fun retained :: "opaque_id \<Rightarrow> ('r, 'm) receipt_call \<Rightarrow> ('r, 'm) receipt_store \<Rightarrow> bool" where
  "retained rid (Purge plan) s \<longleftrightarrow> mp_dry_run plan \<or>
     (\<forall>r. dict_get (rcs_receipts s) rid = Some r \<longrightarrow> \<not> receipt_due plan (rid, r))"
| "retained rid c s \<longleftrightarrow> constructed c s"

lemma history_cas:
  assumes "receipt_inv s" and "history rid r0 s" and "receipt_step r target"
  shows "history rid r0 (snd (receipt_cas r target s))"
  using assms by (auto simp: history_def receipt_cas_def dict_simps intro: rtranclp.rtrancl_into_rtrancl)

lemma receipt_purge_keeps:
  assumes inv: "receipt_inv s" and r: "dict_get (rcs_receipts s) rid = Some r"
    and keep: "mp_dry_run plan \<or> \<not> receipt_due plan (rid, r)"
  shows "dict_get (rcs_receipts (snd (receipt_purge plan s))) rid = Some r"
proof (cases "mp_dry_run plan")
  case False
  let ?sel = "select_batch (receipt_due plan) (receipt_age plan) (mp_batch_size plan) (rcs_receipts s)"
  have "dict_get (pop_all (map fst ?sel) (rcs_receipts s)) rid = Some r"
    using assms False by (intro pop_selected_keeps) (auto simp: receipt_inv_def dest: select_batch_subset)
  with False show ?thesis by (simp add: receipt_purge_def Let_def receipt_keys_batch [OF inv])
qed (use r in \<open>simp add: receipt_purge_def Let_def\<close>)

interpretation receipt_history: guarded_machine receipt_call_step
    "\<lambda>s. receipt_inv s \<and> history rid r0 s" "retained rid"
  for rid and r0 :: "('r, 'm) receipt"
proof (unfold_locales, elim conjE, intro conjI)
  fix s :: "('r, 'm) receipt_store" and x
  assume inv: "receipt_inv s" and h: "history rid r0 s" and g: "retained rid x s"
  have "constructed x s" using g by (cases x) auto
  with inv show "receipt_inv (snd (receipt_call_step x s))" by (rule receipt_machine.inv_step)
  show "history rid r0 (snd (receipt_call_step x s))"
  proof (cases x)
    case (Get r)
    with h show ?thesis by (simp add: receipt_get_def)
  next
    case (Add r)
    with h show ?thesis by (auto simp: receipt_add_def history_def dict_simps)
  next
    case (Transition r t)
    with h history_cas [OF inv h] show ?thesis
      by (auto simp: store_transition_def split: sum.splits dest: receipt_transition_step)
  next
    case (Reconcile r t)
    with h history_cas [OF inv h resolve] show ?thesis by (auto simp: reconcile_uncertain_def)
  next
    case (Purge plan)
    with h g receipt_purge_keeps [OF inv] show ?thesis by (fastforce simp: history_def)
  qed
qed

section \<open>Properties\<close>

text \<open>Stored receipts follow the state machine: through every run of calls whose purges do not
  select it, a stored receipt stays stored and changes only along declared transitions or by
  the resolution of an uncertain state; its identity, kind, creation time and metadata never
  change, its update time never decreases, and once completed, rejected or conflicted it never
  changes at all.\<close>

theorem receipts_follow_state_machine:
  assumes inv: "receipt_inv s" and r: "dict_get (rcs_receipts s) rid = Some r"
    and calls: "guarded (retained rid) receipt_call_step cs s"
  shows "\<exists>r'. dict_get (rcs_receipts (snd (run receipt_call_step cs s))) rid = Some r' \<and> receipt_step\<^sup>*\<^sup>* r r'
    \<and> rc_receipt_id r' = rid \<and> rc_kind r' = rc_kind r \<and> rc_created_at r' = rc_created_at r
    \<and> rc_metadata r' = rc_metadata r \<and> rc_updated_at r \<le> rc_updated_at r'
    \<and> (confirmed_state (rc_state r) \<longrightarrow> r' = r)"
proof -
  have "receipt_inv (snd (run receipt_call_step cs s)) \<and> history rid r (snd (run receipt_call_step cs s))"
    using inv r calls by (intro receipt_history.run_inv) (auto simp: history_def)
  then obtain r' where r': "dict_get (rcs_receipts (snd (run receipt_call_step cs s))) rid = Some r'" "receipt_step\<^sup>*\<^sup>* r r'"
    by (auto simp: history_def)
  moreover have "rc_receipt_id r = rid" using inv r by (simp add: receipt_inv_def receipt_ok_def)
  ultimately show ?thesis using receipt_steps_identity [OF r'(2)] receipt_steps_confirmed [OF r'(2)] by blast
qed

definition sample_receipt :: "receipt_state \<Rightarrow> (nat, unit) receipt" where
  "sample_receipt st = \<lparr>rc_class = CommandReceipt, rc_receipt_id = OpaqueId ''r'', rc_kind = COMMAND, rc_state = st,
     rc_created_at = 3, rc_updated_at = 5, rc_result = None, rc_metadata = fmempty\<rparr>"

definition sample_receipts :: "receipt_state \<Rightarrow> (nat, unit) receipt_store" where
  "sample_receipts st = \<lparr>rcs_capacity = 2, rcs_receipts = [(OpaqueId ''r'', sample_receipt st)]\<rparr>"

lemma sample_receipt_fields [simp]:
  "rc_state (sample_receipt st) = st" "rc_updated_at (sample_receipt st) = 5"
  by (simp_all add: sample_receipt_def)

lemma sample_receipts_inv: "receipt_inv (sample_receipts st)"
  by (simp add: receipt_inv_def receipt_ok_def check_receipt_def sample_receipts_def sample_receipt_def fcard_fempty)

lemma sample_receipts_get [simp]: "dict_get (rcs_receipts (sample_receipts st)) (OpaqueId ''r'') = Some (sample_receipt st)"
  by (simp add: sample_receipts_def)

theorem receipts_follow_state_machine_witness:
  "\<exists>r'. dict_get (rcs_receipts (snd (run receipt_call_step
       [Transition (sample_receipt ACCEPTED) ((sample_receipt ACCEPTED)\<lparr>rc_state := PROCESSING, rc_updated_at := 6\<rparr>)]
       (sample_receipts ACCEPTED)))) (OpaqueId ''r'') = Some r' \<and> rc_created_at r' = 3 \<and> rc_kind r' = COMMAND"
  using receipts_follow_state_machine [OF sample_receipts_inv sample_receipts_get,
      of "[Transition (sample_receipt ACCEPTED) ((sample_receipt ACCEPTED)\<lparr>rc_state := PROCESSING, rc_updated_at := 6\<rparr>)]"]
  by (auto simp: sample_receipt_def)

text \<open>The reconciler confirms exactly by winning the compare-and-set: for an uncertain receipt and
  a valid confirmation it returns the confirmed receipt and stores it if the receipt is still
  the one it read after whatever other clients did in between; otherwise it reports the receipt
  as changed concurrently, with its present value, and writes nothing.\<close>

theorem reconciler_confirms_by_winning:
  assumes inv: "receipt_inv s" and r: "dict_get (rcs_receipts s) rid = Some r" "rc_state r = UNCERTAIN"
    and now: "require_aware_utc on = Inr t" "rc_updated_at r \<le> t"
    and target: "confirmed_state target" "target = COMPLETED \<longrightarrow> result \<noteq> None"
  shows "reconcile mem_receipt_port others rid target on result s =
    (let r' = r\<lparr>rc_state := target, rc_updated_at := t, rc_result := result\<rparr>; s1 = others 0 s in
     if dict_get (rcs_receipts s1) rid = Some r
     then (Inr (confirmed r'), s1\<lparr>rcs_receipts := dict_set rid r' (rcs_receipts s1)\<rparr>)
     else (Inr (StillUncertain (dict_get (rcs_receipts (others 1 s1)) rid) ChangedConcurrently), others 1 s1))"
proof -
  let ?r' = "r\<lparr>rc_state := target, rc_updated_at := t, rc_result := result\<rparr>"
  have ok: "rc_receipt_id r = rid" "rc_created_at r \<le> rc_updated_at r" "\<not> 64 < fcard (fmdom (rc_metadata r))"
    using receipt_inv_ok [OF inv r(1)] by (auto simp: receipt_ok_def check_receipt_def split: if_splits)
  have rep: "replace_state r target t result = Inr ?r'"
    using ok now(2) by (simp add: replace_state_def check_receipt_def)
  have valid: "valid_reconciliation r ?r'"
    using r(2) now(2) target by (auto simp: valid_reconciliation_def)
  show ?thesis
    using target r now rep valid ok(1)
    by (auto simp: reconcile_def sbind_def mem_receipt_port_def receipt_get_def reconcile_uncertain_def
        receipt_cas_def Let_def)
qed

theorem reconciler_confirms_by_winning_witness:
  "fst (reconcile mem_receipt_port
      (\<lambda>i. if i = 0 then (\<lambda>s. snd (reconcile mem_receipt_port (\<lambda>_ s. s) (OpaqueId ''r'') REJECTED (utc_datetime 8) None s))
           else (\<lambda>s. s))
      (OpaqueId ''r'') COMPLETED (utc_datetime 9) (Some 7) (sample_receipts UNCERTAIN))
   = Inr (StillUncertain (Some ((sample_receipt UNCERTAIN)\<lparr>rc_state := REJECTED, rc_updated_at := 8\<rparr>)) ChangedConcurrently)"
proof -
  note rule = reconciler_confirms_by_winning [OF sample_receipts_inv sample_receipts_get sample_receipt_fields(1)
      require_aware_utc_datetime]
  show ?thesis
    by (simp add: rule Let_def dict_simps) (simp add: sample_receipt_def)
qed

text \<open>The in-memory receipt store passes its conformance harness for every capacity of at least two.\<close>

theorem receipt_harness_passes:
  assumes "InMemoryReceiptStore cap = Inr s" and "2 \<le> cap"
  shows "fst (receipt_exercise mem_receipt_port v now s) = Inr ()"
proof -
  have s: "s = \<lparr>rcs_capacity = cap, rcs_receipts = []\<rparr>"
    using assms(1) by (simp add: InMemoryReceiptStore_def split: if_splits)
  show ?thesis
    using assms(2)
    by (simp add: s receipt_exercise_def mem_receipt_port_def mk_receipt_def check_receipt_def receipt_add_def
        receipt_get_def receipt_transition_def replace_state_def store_transition_def receipt_cas_def
        reconcile_uncertain_def valid_reconciliation_def sbind_def sassert_def seconds_def Let_def
        fcard_fempty)
qed

theorem receipt_harness_passes_witness:
  "fst (receipt_exercise mem_receipt_port (1::nat) 0 (\<lparr>rcs_capacity = 2, rcs_receipts = []\<rparr> :: (nat, unit) receipt_store)) = Inr ()"
  by (rule receipt_harness_passes [of 2]) (simp_all add: InMemoryReceiptStore_def)

end
