(* ===== verification/Checkpoints.thy ===== *)
theory Checkpoints
  imports Core
begin

text \<open>
  Model of \<open>src/src/pytitect/checkpoints.py\<close>: the in-memory compare-and-set checkpoint store and
  the two coordinators.  The transaction boundary is not code of the repository: it is a
  parameter, assumed to commit a body that returns and to restore the state when the body
  raises.  Shown: successful advances of a stream form a chain, the atomic coordinator moves
  state and checkpoint together or not at all, and the deferred coordinator reports a
  checkpoint as confirmed only when it is stored.
\<close>

section \<open>Checkpoints\<close>

text \<open>A checkpoint is a non-empty byte string.\<close>

datatype checkpoint = Checkpoint (cp_value: string)

definition mk_checkpoint :: "string \<Rightarrow> checkpoint res" where
  "mk_checkpoint v = (if v = [] then Inl ValueError else Inr (Checkpoint v))"

record 'p checkpoint_item =
  ci_checkpoint :: checkpoint
  ci_payload :: 'p

definition validate_stream :: "string \<Rightarrow> unit res" where
  "validate_stream stream = check (stream \<noteq> []) ValueError"

record 's checkpoint_port =
  load_op :: "string \<Rightarrow> ('s, checkpoint option) act"
  load_for_update_op :: "string \<Rightarrow> ('s, checkpoint option) act"
  advance_op :: "string \<Rightarrow> checkpoint option \<Rightarrow> checkpoint \<Rightarrow> ('s, bool) act"

section \<open>The in-memory store\<close>

text \<open>The operations work on every extension of the store's record: the coordinators run them in a
  world that also holds the application's state.\<close>

record checkpoint_store =
  cks_capacity :: int
  cks_values :: "(string, checkpoint) dict"

record 'a checkpoint_world = checkpoint_store +
  cw_app :: 'a

definition InMemoryCheckpointStore :: "int \<Rightarrow> checkpoint_store res" where
  "InMemoryCheckpointStore capacity =
     (if capacity \<le> 0 then Inl ValueError else Inr \<lparr>cks_capacity = capacity, cks_values = []\<rparr>)"

definition checkpoint_load :: "string \<Rightarrow> ('z checkpoint_store_scheme, checkpoint option) act" where
  "checkpoint_load stream s =
     (case validate_stream stream of
        Inl e \<Rightarrow> (Inl e, s)
      | Inr _ \<Rightarrow> (Inr (dict_get (cks_values s) stream), s))"

definition checkpoint_load_for_update :: "string \<Rightarrow> ('z checkpoint_store_scheme, checkpoint option) act" where
  "checkpoint_load_for_update stream = checkpoint_load stream"

definition checkpoint_advance ::
    "string \<Rightarrow> checkpoint option \<Rightarrow> checkpoint \<Rightarrow> ('z checkpoint_store_scheme, bool) act" where
  "checkpoint_advance stream expected cp s =
     (case validate_stream stream of
        Inl e \<Rightarrow> (Inl e, s)
      | Inr _ \<Rightarrow>
          if dict_get (cks_values s) stream \<noteq> expected then (Inr False, s)
          else if dict_get (cks_values s) stream = None \<and> cks_capacity s \<le> int (length (cks_values s))
            then (Inl OverflowError, s)
          else (Inr True, s\<lparr>cks_values := dict_set stream cp (cks_values s)\<rparr>))"

definition mem_checkpoint_port :: "('z checkpoint_store_scheme) checkpoint_port" where
  "mem_checkpoint_port = \<lparr>load_op = checkpoint_load, load_for_update_op = checkpoint_load_for_update,
                          advance_op = checkpoint_advance\<rparr>"

section \<open>Coordinators\<close>

record checkpoint_batch_result =
  cb_applied :: int
  cb_previous :: "checkpoint option"
  cb_pending :: "checkpoint option"

datatype atomic_checkpoint_result =
    AtomicCheckpointConfirmed checkpoint_batch_result
  | StaleCheckpoint "checkpoint option" "checkpoint option"

datatype deferred_checkpoint_result =
    StateCommittedCheckpointConfirmed checkpoint_batch_result
  | StateCommittedCheckpointUnconfirmed checkpoint_batch_result

text \<open>What can leave a transaction body: an ordinary exception, or the private
  \<open>_RollbackStaleCheckpoint\<close> with the result it carries.\<close>

datatype body_failure = Raised exn | RollbackStaleCheckpoint "checkpoint option" "checkpoint option"

type_synonym ('e, 's, 'a) body = "'s \<Rightarrow> ('e + 'a) \<times> 's"

text \<open>An iterator yields its items and then ends, or raises.\<close>

record 'p item_source =
  is_items :: "'p checkpoint_item list"
  is_error :: "exn option"

definition matching_aliases :: "string option \<Rightarrow> string option \<Rightarrow> unit res" where
  "matching_aliases store_alias transaction_alias =
     check (\<not> (store_alias \<noteq> None \<and> transaction_alias \<noteq> None \<and> store_alias \<noteq> transaction_alias)) ValueError"

text \<open>The loop of both coordinators; its locals \<open>last\<close> and \<open>applied\<close> are the accumulators.\<close>

fun apply_items ::
    "('p \<Rightarrow> ('s, unit) act) \<Rightarrow> 'p checkpoint_item list \<Rightarrow> exn option \<Rightarrow> checkpoint option \<Rightarrow> int
     \<Rightarrow> ('s, checkpoint option \<times> int) act" where
  "apply_items apply_state [] err lst applied =
     (case err of None \<Rightarrow> sreturn (lst, applied) | Some e \<Rightarrow> sraise e)"
| "apply_items apply_state (it # its) err lst applied =
     sbind (apply_state (ci_payload it)) (\<lambda>_.
       apply_items apply_state its err (Some (ci_checkpoint it)) (applied + 1))"

definition atomic_body ::
    "'s checkpoint_port \<Rightarrow> ('p \<Rightarrow> ('s, unit) act) \<Rightarrow> string \<Rightarrow> 'p item_source
     \<Rightarrow> (body_failure, 's, checkpoint_batch_result) body" where
  "atomic_body port apply_state stream src s =
     (case load_for_update_op port stream s of
        (Inl e, s1) \<Rightarrow> (Inl (Raised e), s1)
      | (Inr previous, s1) \<Rightarrow>
          case apply_items apply_state (is_items src) (is_error src) None 0 s1 of
            (Inl e, s2) \<Rightarrow> (Inl (Raised e), s2)
          | (Inr (None, applied), s2) \<Rightarrow>
              (Inr \<lparr>cb_applied = applied, cb_previous = previous, cb_pending = None\<rparr>, s2)
          | (Inr (Some lst, applied), s2) \<Rightarrow>
              (case advance_op port stream previous lst s2 of
                 (Inl e, s3) \<Rightarrow> (Inl (Raised e), s3)
               | (Inr False, s3) \<Rightarrow> (Inl (RollbackStaleCheckpoint previous (Some lst)), s3)
               | (Inr True, s3) \<Rightarrow>
                   (Inr \<lparr>cb_applied = applied, cb_previous = previous, cb_pending = Some lst\<rparr>, s3)))"

text \<open>\<open>atomic\<close> is the transaction boundary around a body.\<close>

definition atomic_apply ::
    "'s checkpoint_port
     \<Rightarrow> ((body_failure, 's, checkpoint_batch_result) body \<Rightarrow> (body_failure, 's, checkpoint_batch_result) body)
     \<Rightarrow> ('p \<Rightarrow> ('s, unit) act) \<Rightarrow> string \<Rightarrow> 'p item_source \<Rightarrow> ('s, atomic_checkpoint_result) act" where
  "atomic_apply port atomic apply_state stream src s =
     (case validate_stream stream of
        Inl e \<Rightarrow> (Inl e, s)
      | Inr _ \<Rightarrow>
          case atomic (atomic_body port apply_state stream src) s of
            (Inl (RollbackStaleCheckpoint previous attempted), s') \<Rightarrow> (Inr (StaleCheckpoint previous attempted), s')
          | (Inl (Raised e), s') \<Rightarrow> (Inl e, s')
          | (Inr batch, s') \<Rightarrow> (Inr (AtomicCheckpointConfirmed batch), s'))"

text \<open>The deferred coordinator reads and advances outside the transaction: \<open>others 0\<close> and
  \<open>others 1\<close> are what other clients do after the read and after the commit.\<close>

definition deferred_apply ::
    "'s checkpoint_port
     \<Rightarrow> (('s, checkpoint option \<times> int) act \<Rightarrow> ('s, checkpoint option \<times> int) act) \<Rightarrow> (nat \<Rightarrow> 's \<Rightarrow> 's)
     \<Rightarrow> ('p \<Rightarrow> ('s, unit) act) \<Rightarrow> string \<Rightarrow> 'p item_source \<Rightarrow> ('s, deferred_checkpoint_result) act" where
  "deferred_apply port atomic others apply_state stream src =
     sbind (slift (validate_stream stream)) (\<lambda>_.
     sbind (load_op port stream) (\<lambda>previous.
     sbind (\<lambda>s. atomic (apply_items apply_state (is_items src) (is_error src) None 0) (others 0 s)) (\<lambda>(lst, applied).
     let batch = \<lparr>cb_applied = applied, cb_previous = previous, cb_pending = lst\<rparr> in
     case lst of
       None \<Rightarrow> sreturn (StateCommittedCheckpointConfirmed batch)
     | Some cp \<Rightarrow>
         sbind (\<lambda>s. advance_op port stream previous cp (others 1 s)) (\<lambda>ok.
           sreturn (if ok then StateCommittedCheckpointConfirmed batch
                    else StateCommittedCheckpointUnconfirmed batch)))))"

section \<open>The conformance harness\<close>

definition checkpoint_exercise :: "'s checkpoint_port \<Rightarrow> ('s, unit) act" where
  "checkpoint_exercise port =
     (let stream = ''stream'' in
      sbind (slift (mk_checkpoint ''one'')) (\<lambda>first.
      sbind (slift (mk_checkpoint ''two'')) (\<lambda>second.
      sbind (load_op port stream) (\<lambda>l0.
      sbind (sassert (l0 = None)) (\<lambda>_.
      sbind (load_for_update_op port stream) (\<lambda>l1.
      sbind (sassert (l1 = None)) (\<lambda>_.
      sbind (advance_op port stream None first) (\<lambda>a0.
      sbind (sassert a0) (\<lambda>_.
      sbind (load_op port stream) (\<lambda>l2.
      sbind (sassert (l2 = Some first)) (\<lambda>_.
      sbind (load_for_update_op port stream) (\<lambda>l3.
      sbind (sassert (l3 = Some first)) (\<lambda>_.
      sbind (advance_op port stream None second) (\<lambda>a1.
      sbind (sassert (\<not> a1)) (\<lambda>_.
      sbind (advance_op port stream (Some first) second) (\<lambda>a2.
      sbind (sassert a2) (\<lambda>_.
      sbind (load_op port stream) (\<lambda>l4.
      sassert (l4 = Some second)))))))))))))))))))"

section \<open>Transactions\<close>

text \<open>
  What the boundary documents: a body that raises leaves the state as it was and its
  exception is raised again; a body that returns is committed, unless the commit itself
  fails with an error of \<open>errors\<close>, which restores the state too.
\<close>

definition transactional :: "'e set \<Rightarrow> (('e, 's, 'a) body \<Rightarrow> ('e, 's, 'a) body) \<Rightarrow> bool" where
  "transactional errors atomic \<longleftrightarrow> (\<forall>m s.
     case m s of
       (Inl e, s') \<Rightarrow> atomic m s = (Inl e, s)
     | (Inr x, s') \<Rightarrow> atomic m s = (Inr x, s') \<or> (\<exists>e\<in>errors. atomic m s = (Inl e, s)))"

definition rollback_atomic :: "('e, 's, 'a) body \<Rightarrow> ('e, 's, 'a) body" where
  "rollback_atomic m s = (case m s of (Inl e, s') \<Rightarrow> (Inl e, s) | (Inr x, s') \<Rightarrow> (Inr x, s'))"

lemma rollback_atomic_transactional: "transactional errors rollback_atomic"
  by (auto simp: transactional_def rollback_atomic_def split: prod.splits sum.splits)

lemma transactional_cases:
  assumes "transactional errors atomic"
  obtains (raised) e s' where "m s = (Inl e, s')" "atomic m s = (Inl e, s)"
  | (committed) x s' where "m s = (Inr x, s')" "atomic m s = (Inr x, s')"
  | (aborted) x s' e where "m s = (Inr x, s')" "e \<in> errors" "atomic m s = (Inl e, s)"
proof -
  note law = assms [unfolded transactional_def, rule_format, of m s]
  show thesis
  proof (cases "m s")
    case (Pair r s')
    with law show thesis by (cases r) (auto intro: raised committed aborted)
  qed
qed

section \<open>What the coordinators rely on\<close>

locale checkpoint_contract =
  fixes port :: "'s checkpoint_port"
    and position :: "'s \<Rightarrow> string \<Rightarrow> checkpoint option"
  assumes load: "stream \<noteq> [] \<Longrightarrow> load_op port stream s = (Inr (position s stream), s)"
    and load_for_update: "stream \<noteq> [] \<Longrightarrow> load_for_update_op port stream s = (Inr (position s stream), s)"
    and advance_stale: "stream \<noteq> [] \<Longrightarrow> position s stream \<noteq> expected \<Longrightarrow>
        advance_op port stream expected cp s = (Inr False, s)"
    and advance_current: "stream \<noteq> [] \<Longrightarrow> position s stream = expected \<Longrightarrow>
        (\<exists>s'. advance_op port stream expected cp s = (Inr True, s') \<and> position s' = (position s)(stream \<mapsto> cp))
        \<or> advance_op port stream expected cp s = (Inl OverflowError, s) \<and> expected = None"

text \<open>The payloads applied one after the other.\<close>

fun apply_all :: "('p \<Rightarrow> ('s, unit) act) \<Rightarrow> 'p list \<Rightarrow> ('s, unit) act" where
  "apply_all f [] = sreturn ()"
| "apply_all f (p # ps) = sbind (f p) (\<lambda>_. apply_all f ps)"

definition last_checkpoint :: "'p item_source \<Rightarrow> checkpoint option" where
  "last_checkpoint src = (if is_items src = [] then None else Some (ci_checkpoint (last (is_items src))))"

lemma apply_items_spec:
  "apply_items f its err lst n s =
     (case apply_all f (map ci_payload its) s of
        (Inl e, s') \<Rightarrow> (Inl e, s')
      | (Inr _, s') \<Rightarrow>
          (case err of
             Some e \<Rightarrow> (Inl e, s')
           | None \<Rightarrow> (Inr (if its = [] then lst else Some (ci_checkpoint (last its)), n + int (length its)), s')))"
  by (induction its arbitrary: lst n s) (auto simp: sbind_def split: prod.splits sum.splits option.splits)

lemma apply_source_spec:
  "apply_items f (is_items src) err None 0 s =
     (case apply_all f (map ci_payload (is_items src)) s of
        (Inl e, s') \<Rightarrow> (Inl e, s')
      | (Inr _, s') \<Rightarrow>
          (case err of
             Some e \<Rightarrow> (Inl e, s')
           | None \<Rightarrow> (Inr (last_checkpoint src, int (length (is_items src))), s')))"
  by (simp add: apply_items_spec last_checkpoint_def split: prod.splits sum.splits option.splits)

context checkpoint_contract
begin

definition batch_for :: "'p item_source \<Rightarrow> string \<Rightarrow> 's \<Rightarrow> checkpoint_batch_result" where
  "batch_for src stream s =
     \<lparr>cb_applied = int (length (is_items src)), cb_previous = position s stream, cb_pending = last_checkpoint src\<rparr>"

lemma atomic_body_cases:
  assumes "stream \<noteq> []"
  obtains (raised) e s' where "atomic_body port f stream src s = (Inl (Raised e), s')"
  | (stale) s1 s' where "apply_all f (map ci_payload (is_items src)) s = (Inr (), s1)"
      "position s1 stream \<noteq> position s stream"
      "atomic_body port f stream src s = (Inl (RollbackStaleCheckpoint (position s stream) (last_checkpoint src)), s')"
  | (empty) s' where "apply_all f (map ci_payload (is_items src)) s = (Inr (), s')"
      "is_error src = None" "last_checkpoint src = None" "atomic_body port f stream src s = (Inr (batch_for src stream s), s')"
  | (advanced) s1 s' cp where "apply_all f (map ci_payload (is_items src)) s = (Inr (), s1)"
      "is_error src = None" "last_checkpoint src = Some cp" "position s1 stream = position s stream"
      "advance_op port stream (position s stream) cp s1 = (Inr True, s')" "position s' = (position s1)(stream \<mapsto> cp)"
      "atomic_body port f stream src s = (Inr (batch_for src stream s), s')"
proof (cases "apply_all f (map ci_payload (is_items src)) s")
  case run: (Pair r s1)
  note body = atomic_body_def load_for_update [OF assms] apply_source_spec run
  show thesis
  proof (cases r)
    case (Inl e)
    then show thesis by (intro raised) (simp add: body)
  next
    case (Inr u)
    show thesis
    proof (cases "is_error src")
      case (Some e)
      with Inr show thesis by (intro raised) (simp add: body)
    next
      case None
      show thesis
      proof (cases "last_checkpoint src")
        case none: None
        with Inr None show thesis by (intro empty) (simp_all add: body batch_for_def)
      next
        case (Some cp)
        show thesis
        proof (cases "position s1 stream = position s stream")
          case False
          with Inr None Some show thesis
            by (intro stale) (simp_all add: body advance_stale [OF assms False])
        next
          case True
          from advance_current [OF assms True, of cp] show thesis
          proof (elim disjE exE conjE)
            fix s'
            assume "advance_op port stream (position s stream) cp s1 = (Inr True, s')"
              "position s' = (position s1)(stream \<mapsto> cp)"
            with Inr None Some True show thesis by (intro advanced) (simp_all add: body batch_for_def)
          next
            assume "advance_op port stream (position s stream) cp s1 = (Inl OverflowError, s1)"
            with Inr None Some show thesis by (intro raised) (simp add: body)
          qed
        qed
      qed
    qed
  qed
qed

lemma atomic_all_or_nothing:
  assumes "stream \<noteq> []" and tx: "transactional (range Raised) atomic"
    and ret: "atomic_apply port atomic f stream src s = (r, s')"
  shows "case r of
      Inr (AtomicCheckpointConfirmed b) \<Rightarrow>
        is_error src = None \<and> b = batch_for src stream s
        \<and> (\<exists>s1. apply_all f (map ci_payload (is_items src)) s = (Inr (), s1)
             \<and> (case last_checkpoint src of
                  None \<Rightarrow> s' = s1
                | Some cp \<Rightarrow> position s1 stream = position s stream
                    \<and> advance_op port stream (position s stream) cp s1 = (Inr True, s')
                    \<and> position s' = (position s1)(stream \<mapsto> cp)))
    | Inr (StaleCheckpoint previous attempted) \<Rightarrow>
        s' = s \<and> previous = position s stream \<and> attempted = last_checkpoint src
        \<and> (\<exists>s1. apply_all f (map ci_payload (is_items src)) s = (Inr (), s1) \<and> position s1 stream \<noteq> position s stream)
    | Inl e \<Rightarrow> s' = s"
proof -
  have vs: "validate_stream stream = Inr ()" using assms(1) by (simp add: validate_stream_def)
  show ?thesis
    using tx
  proof (cases rule: transactional_cases [where m = "atomic_body port f stream src" and s = s])
    case (raised e s1)
    then show ?thesis
      by (cases rule: atomic_body_cases [OF assms(1), of f src s]) (use ret in \<open>auto simp: atomic_apply_def vs\<close>)
  next
    case (committed x s1)
    then show ?thesis
      by (cases rule: atomic_body_cases [OF assms(1), of f src s]) (use ret in \<open>auto simp: atomic_apply_def vs\<close>)
  next
    case (aborted x s1 e)
    then show ?thesis using ret by (auto simp: atomic_apply_def vs)
  qed
qed

lemma deferred_reports_truthfully:
  assumes "stream \<noteq> []" and tx: "transactional errors atomic"
    and ret: "deferred_apply port atomic others f stream src s = (Inr r, s')"
  shows "is_error src = None
    \<and> (\<exists>s1. apply_all f (map ci_payload (is_items src)) (others 0 s) = (Inr (), s1)
        \<and> (case r of
             StateCommittedCheckpointConfirmed b \<Rightarrow> b = batch_for src stream s
               \<and> (case last_checkpoint src of
                    None \<Rightarrow> s' = s1
                  | Some cp \<Rightarrow> position (others 1 s1) stream = position s stream \<and> position s' stream = Some cp)
           | StateCommittedCheckpointUnconfirmed b \<Rightarrow> b = batch_for src stream s \<and> s' = others 1 s1
               \<and> last_checkpoint src \<noteq> None \<and> position s' stream \<noteq> position s stream))"
proof -
  have vs: "validate_stream stream = Inr ()" using assms(1) by (simp add: validate_stream_def)
  let ?m = "apply_items f (is_items src) (is_error src) None 0"
  from ret obtain x s1 where m: "?m (others 0 s) = (Inr x, s1)" and a: "atomic ?m (others 0 s) = (Inr x, s1)"
    by (cases rule: transactional_cases [OF tx, of ?m "others 0 s"])
      (auto simp: deferred_apply_def sbind_def vs load [OF assms(1)])
  then have run: "is_error src = None" "apply_all f (map ci_payload (is_items src)) (others 0 s) = (Inr (), s1)"
    and x: "x = (last_checkpoint src, int (length (is_items src)))"
    by (auto simp: apply_source_spec split: prod.splits sum.splits option.splits)
  let ?b = "batch_for src stream s"
  have eq: "deferred_apply port atomic others f stream src s =
      (case last_checkpoint src of
         None \<Rightarrow> (Inr (StateCommittedCheckpointConfirmed ?b), s1)
       | Some cp \<Rightarrow> sbind (advance_op port stream (position s stream) cp) (\<lambda>ok. sreturn
           (if ok then StateCommittedCheckpointConfirmed ?b else StateCommittedCheckpointUnconfirmed ?b)) (others 1 s1))"
    using a x by (cases "last_checkpoint src") (simp_all add: deferred_apply_def sbind_def vs load [OF assms(1)] batch_for_def Let_def
        split: prod.splits sum.splits)
  show ?thesis
  proof (cases "last_checkpoint src")
    case None
    with run eq ret show ?thesis by auto
  next
    case (Some cp)
    show ?thesis
    proof (cases "position (others 1 s1) stream = position s stream")
      case False
      with run eq ret Some advance_stale [OF assms(1) False, of cp] show ?thesis by (auto simp: sbind_def)
    next
      case True
      with run eq ret Some advance_current [OF assms(1) True, of cp] show ?thesis by (auto simp: sbind_def)
    qed
  qed
qed

end

interpretation mem_checkpoints: checkpoint_contract mem_checkpoint_port "\<lambda>s. dict_get (cks_values s)"
  by unfold_locales
    (auto simp: mem_checkpoint_port_def checkpoint_load_def checkpoint_load_for_update_def checkpoint_advance_def
      validate_stream_def check_def dict_simps fun_eq_iff)

section \<open>Calls on the store\<close>

datatype checkpoint_call = Load string | LoadForUpdate string | Advance string "checkpoint option" checkpoint

datatype checkpoint_reply = LoadReply "checkpoint option res" | AdvanceReply "bool res"

fun checkpoint_step ::
    "checkpoint_call \<Rightarrow> 'z checkpoint_store_scheme \<Rightarrow> checkpoint_reply \<times> 'z checkpoint_store_scheme" where
  "checkpoint_step (Load stream) s = apfst LoadReply (checkpoint_load stream s)"
| "checkpoint_step (LoadForUpdate stream) s = apfst LoadReply (checkpoint_load_for_update stream s)"
| "checkpoint_step (Advance stream expected cp) s = apfst AdvanceReply (checkpoint_advance stream expected cp s)"

text \<open>An accepted advance of a stream, as an (expected, new) pair.\<close>

fun advanced :: "string \<Rightarrow> checkpoint_call \<Rightarrow> checkpoint_reply \<Rightarrow> (checkpoint option \<times> checkpoint) option" where
  "advanced stream (Advance stream' expected cp) (AdvanceReply (Inr True)) =
     (if stream' = stream then Some (expected, cp) else None)"
| "advanced stream _ _ = None"

definition checkpoint_inv :: "'z checkpoint_store_scheme \<Rightarrow> bool" where
  "checkpoint_inv s \<longleftrightarrow> 0 < cks_capacity s \<and> dict_ok (cks_values s) \<and> int (length (cks_values s)) \<le> cks_capacity s"

interpretation checkpoint_machine: guarded_machine checkpoint_step checkpoint_inv "\<lambda>_ _. True"
proof
  fix s :: "'z checkpoint_store_scheme" and x
  assume "checkpoint_inv s"
  then show "checkpoint_inv (snd (checkpoint_step x s))"
    by (cases x) (auto simp: checkpoint_inv_def checkpoint_load_def checkpoint_load_for_update_def
        checkpoint_advance_def dict_simps split: sum.splits)
qed

interpretation checkpoint_cas: cas_machine checkpoint_step "\<lambda>s. dict_get (cks_values s)" advanced
proof
  fix stream x expected cp and s :: "'z checkpoint_store_scheme"
  assume "advanced stream x (fst (checkpoint_step x s)) = Some (expected, cp)"
  then show "dict_get (cks_values s) stream = expected
      \<and> dict_get (cks_values (snd (checkpoint_step x s))) stream = Some cp"
    by (cases x) (auto simp: checkpoint_advance_def dict_simps split: sum.splits if_splits)
next
  fix stream x and s :: "'z checkpoint_store_scheme"
  assume "advanced stream x (fst (checkpoint_step x s)) = None"
  then show "dict_get (cks_values (snd (checkpoint_step x s))) stream = dict_get (cks_values s) stream"
    by (cases x) (auto simp: checkpoint_advance_def checkpoint_load_def checkpoint_load_for_update_def dict_simps
        split: sum.splits if_splits)
qed

section \<open>Properties\<close>

text \<open>C21.  No checkpoint advance is lost: in every sequence of calls, the accepted advances of a stream
  form a chain in which each one expected exactly what the one before it stored (the first, what
  the store held), the store ends with the last one, and it never exceeds its capacity.\<close>

theorem checkpoint_advances_form_chain:
  assumes "checkpoint_inv s"
  shows "chained (dict_get (cks_values s) stream) (winners (advanced stream) cs (fst (run checkpoint_step cs s)))
    \<and> dict_get (cks_values (snd (run checkpoint_step cs s))) stream =
        final_value (dict_get (cks_values s) stream) (winners (advanced stream) cs (fst (run checkpoint_step cs s)))
    \<and> int (length (cks_values (snd (run checkpoint_step cs s)))) \<le> cks_capacity (snd (run checkpoint_step cs s))"
  using checkpoint_cas.winners_chained [of s stream cs] checkpoint_machine.run_inv [OF assms guarded_True, of cs]
  by (simp add: checkpoint_inv_def)

theorem checkpoint_advances_form_chain_witness:
  "chained None (winners (advanced ''s'') [Advance ''s'' None (Checkpoint ''a''), Advance ''s'' (Some (Checkpoint ''a'')) (Checkpoint ''b'')]
     (fst (run checkpoint_step [Advance ''s'' None (Checkpoint ''a''), Advance ''s'' (Some (Checkpoint ''a'')) (Checkpoint ''b'')]
       \<lparr>cks_capacity = 1, cks_values = []\<rparr>)))"
  using checkpoint_advances_form_chain [of "\<lparr>cks_capacity = 1, cks_values = []\<rparr>" "''s''"
      "[Advance ''s'' None (Checkpoint ''a''), Advance ''s'' (Some (Checkpoint ''a'')) (Checkpoint ''b'')]"]
  by (simp add: checkpoint_inv_def)

text \<open>C22.  Atomic coordination is all or nothing: with a transaction boundary that rolls back a failing
  body, a confirmed result means that every payload was applied in order to the state and that the
  checkpoint stored for the stream is the last item's, and nothing else of the checkpoints changed;
  a stale result or an exception (of the iterator, a payload, the store or the commit) leaves both
  the state and the checkpoint as they were, and staleness is reported only when the checkpoint
  moved while the batch was applied.\<close>

theorem atomic_checkpoint_is_all_or_nothing:
  assumes "stream \<noteq> []" and "transactional (range Raised) atomic"
    and "atomic_apply mem_checkpoint_port atomic f stream src s = (r, s')"
  shows "case r of
      Inr (AtomicCheckpointConfirmed b) \<Rightarrow>
        is_error src = None
        \<and> b = \<lparr>cb_applied = int (length (is_items src)), cb_previous = dict_get (cks_values s) stream,
               cb_pending = last_checkpoint src\<rparr>
        \<and> (\<exists>s1. apply_all f (map ci_payload (is_items src)) s = (Inr (), s1)
             \<and> (case last_checkpoint src of
                  None \<Rightarrow> s' = s1
                | Some cp \<Rightarrow> dict_get (cks_values s1) stream = dict_get (cks_values s) stream
                    \<and> s' = s1\<lparr>cks_values := dict_set stream cp (cks_values s1)\<rparr>))
    | Inr (StaleCheckpoint previous attempted) \<Rightarrow>
        s' = s \<and> previous = dict_get (cks_values s) stream \<and> attempted = last_checkpoint src
        \<and> (\<exists>s1. apply_all f (map ci_payload (is_items src)) s = (Inr (), s1)
             \<and> dict_get (cks_values s1) stream \<noteq> previous)
    | Inl e \<Rightarrow> s' = s"
proof -
  have adv: "s2 = s1\<lparr>cks_values := dict_set stream cp (cks_values s1)\<rparr>"
    if "advance_op mem_checkpoint_port stream expected cp s1 = (Inr True, s2)"
    for expected cp and s1 s2 :: "'a checkpoint_store_scheme"
    using that by (auto simp: mem_checkpoint_port_def checkpoint_advance_def split: sum.splits if_splits)
  note law = mem_checkpoints.atomic_all_or_nothing [OF assms]
  show ?thesis
  proof (cases r)
    case (Inr res)
    then show ?thesis
    proof (cases res)
      case (AtomicCheckpointConfirmed b)
      with law Inr obtain s1 where "is_error src = None" "b = mem_checkpoints.batch_for src stream s"
          "apply_all f (map ci_payload (is_items src)) s = (Inr (), s1)"
          "case last_checkpoint src of None \<Rightarrow> s' = s1
           | Some cp \<Rightarrow> dict_get (cks_values s1) stream = dict_get (cks_values s) stream
              \<and> advance_op mem_checkpoint_port stream (dict_get (cks_values s) stream) cp s1 = (Inr True, s')"
        by (auto split: option.splits)
      with Inr AtomicCheckpointConfirmed show ?thesis
        by (auto simp: mem_checkpoints.batch_for_def dest: adv split: option.splits)
    qed (use law Inr in auto)
  qed (use law in auto)
qed

definition sample_source :: "nat item_source" where
  "sample_source = \<lparr>is_items = [\<lparr>ci_checkpoint = Checkpoint ''a'', ci_payload = 2\<rparr>,
     \<lparr>ci_checkpoint = Checkpoint ''b'', ci_payload = 3\<rparr>], is_error = None\<rparr>"

definition sample_world :: "nat list checkpoint_world" where
  "sample_world = \<lparr>cks_capacity = 3, cks_values = [(''s'', Checkpoint ''z'')], cw_app = []\<rparr>"

definition record_payload :: "nat \<Rightarrow> (nat list checkpoint_world, unit) act" where
  "record_payload p w = (Inr (), w\<lparr>cw_app := cw_app w @ [p]\<rparr>)"

lemmas sample_checkpoint_defs = sample_source_def sample_world_def record_payload_def

theorem atomic_checkpoint_is_all_or_nothing_witness:
  "snd (atomic_apply mem_checkpoint_port rollback_atomic record_payload ''s'' sample_source sample_world)
     = \<lparr>cks_capacity = 3, cks_values = [(''s'', Checkpoint ''b'')], cw_app = [2, 3]\<rparr>"
proof -
  let ?call = "atomic_apply mem_checkpoint_port rollback_atomic record_payload ''s'' sample_source sample_world"
  let ?b = "\<lparr>cb_applied = 2, cb_previous = Some (Checkpoint ''z''), cb_pending = Some (Checkpoint ''b'')\<rparr>"
  have "fst ?call = Inr (AtomicCheckpointConfirmed ?b)"
    by (simp add: atomic_apply_def rollback_atomic_def atomic_body_def validate_stream_def check_def
        mem_checkpoint_port_def checkpoint_load_for_update_def checkpoint_load_def checkpoint_advance_def
        sbind_def sample_checkpoint_defs)
  then have "?call = (Inr (AtomicCheckpointConfirmed ?b), snd ?call)" by (metis prod.collapse)
  from atomic_checkpoint_is_all_or_nothing [OF _ rollback_atomic_transactional this]
  show ?thesis by (auto simp: sample_checkpoint_defs last_checkpoint_def sbind_def)
qed

text \<open>Deferred coordination reports truthfully: whatever other clients do after the read and after
  the commit, a result says that every payload was applied and committed; it is confirmed only if
  the checkpoint of the stream was still the one read before the batch and is now the last item's
  (or the batch was empty), and it is unconfirmed exactly because the checkpoint had moved, which is
  then left as it is.\<close>

theorem deferred_checkpoint_reports_truthfully:
  assumes "stream \<noteq> []" and "transactional errors atomic"
    and "deferred_apply mem_checkpoint_port atomic others f stream src s = (Inr r, s')"
  shows "is_error src = None
    \<and> (\<exists>s1. apply_all f (map ci_payload (is_items src)) (others 0 s) = (Inr (), s1)
        \<and> (case r of
             StateCommittedCheckpointConfirmed b \<Rightarrow>
               (case last_checkpoint src of
                  None \<Rightarrow> s' = s1
                | Some cp \<Rightarrow> dict_get (cks_values (others 1 s1)) stream = dict_get (cks_values s) stream
                    \<and> dict_get (cks_values s') stream = Some cp)
           | StateCommittedCheckpointUnconfirmed b \<Rightarrow>
               s' = others 1 s1 \<and> cb_pending b = last_checkpoint src \<and> last_checkpoint src \<noteq> None
               \<and> dict_get (cks_values s') stream \<noteq> dict_get (cks_values s) stream))"
  using mem_checkpoints.deferred_reports_truthfully [OF assms]
  by (auto simp: mem_checkpoints.batch_for_def split: deferred_checkpoint_result.splits)

theorem deferred_checkpoint_reports_truthfully_witness:
  "dict_get (cks_values (snd (deferred_apply mem_checkpoint_port rollback_atomic (\<lambda>_ w. w) record_payload ''s''
     sample_source sample_world))) ''s'' = Some (Checkpoint ''b'')"
proof -
  let ?call = "deferred_apply mem_checkpoint_port rollback_atomic (\<lambda>_ w. w) record_payload ''s'' sample_source sample_world"
  let ?b = "\<lparr>cb_applied = 2, cb_previous = Some (Checkpoint ''z''), cb_pending = Some (Checkpoint ''b'')\<rparr>"
  have "fst ?call = Inr (StateCommittedCheckpointConfirmed ?b)"
    by (simp add: deferred_apply_def rollback_atomic_def validate_stream_def check_def
        mem_checkpoint_port_def checkpoint_load_def checkpoint_advance_def sbind_def sample_checkpoint_defs Let_def)
  then have "?call = (Inr (StateCommittedCheckpointConfirmed ?b), snd ?call)" by (metis prod.collapse)
  from deferred_checkpoint_reports_truthfully [OF _ rollback_atomic_transactional this]
  show ?thesis by (auto simp: last_checkpoint_def sample_source_def)
qed

lemma checkpoint_harness_passes:
  assumes "InMemoryCheckpointStore cap = Inr s"
  shows "fst (checkpoint_exercise mem_checkpoint_port s) = Inr ()"
proof -
  have s: "s = \<lparr>cks_capacity = cap, cks_values = []\<rparr>" "0 < cap"
    using assms by (auto simp: InMemoryCheckpointStore_def split: if_splits)
  then show ?thesis
    by (simp add: checkpoint_exercise_def mem_checkpoint_port_def checkpoint_load_def checkpoint_load_for_update_def
        checkpoint_advance_def validate_stream_def check_def mk_checkpoint_def sbind_def sassert_def Let_def)
qed

end
