(* ===== verification/EventSourcing.thy ===== *)
theory EventSourcing
  imports Core "HOL-Library.Finite_Map"
begin

text \<open>
  Model of \<open>src/src/pytitect/event_sourcing.py\<close>: optimistic appends to event streams, bounded pages
  of a stream and of the whole log, and snapshots, as the in-memory store implements them.
  The store refines one append-only log: every stream is the subsequence of its events,
  versions and positions are gapless, and paging reconstructs the log under concurrent
  appends.
\<close>

declare map_of_eq_Some_iff [simp del] Some_eq_map_of_iff [simp del]

section \<open>Events\<close>

datatype stream_id = StreamId (sid_category: string) (sid_stream_id: string)

definition mk_stream_id :: "string \<Rightarrow> string \<Rightarrow> stream_id res" where
  "mk_stream_id category sid = (if category = [] \<or> sid = [] then Inl ValueError else Inr (StreamId category sid))"

record new_event =
  ne_event_id :: string
  ne_event_type :: string
  ne_payload :: json
  ne_occurred_at :: instant
  ne_metadata :: "(string, json) fmap"

definition mk_new_event ::
    "string \<Rightarrow> string \<Rightarrow> json \<Rightarrow> datetime \<Rightarrow> (string, json) fmap \<Rightarrow> new_event res" where
  "mk_new_event eid etype payload occurred metadata =
     (if eid = [] \<or> etype = [] then Inl ValueError
      else
        and_then (validate_json payload) (\<lambda>_.
        and_then (require_aware_utc occurred) (\<lambda>t.
        if 32 < fcard (fmdom metadata) then Inl ValueError
        else Inr \<lparr>ne_event_id = eid, ne_event_type = etype, ne_payload = payload, ne_occurred_at = t,
                  ne_metadata = metadata\<rparr>)))"

record stored_event =
  se_stream :: stream_id
  se_stream_version :: int
  se_global_position :: int
  se_event :: new_event

definition mk_stored_event :: "stream_id \<Rightarrow> int \<Rightarrow> int \<Rightarrow> new_event \<Rightarrow> stored_event res" where
  "mk_stored_event stream version position ev =
     (if version \<le> 0 \<or> position \<le> 0 then Inl ValueError
      else Inr \<lparr>se_stream = stream, se_stream_version = version, se_global_position = position, se_event = ev\<rparr>)"

datatype append_result =
    AppendCommitted int int "stored_event list"
  | WrongExpectedVersion int int
  | DuplicateEventId string

record event_page =
  pg_events :: "stored_event list"
  pg_next_position :: int
  pg_complete :: bool

record snapshot =
  sn_stream :: stream_id
  sn_version :: int
  sn_state :: json
  sn_created_at :: instant

definition mk_snapshot :: "stream_id \<Rightarrow> int \<Rightarrow> json \<Rightarrow> datetime \<Rightarrow> snapshot res" where
  "mk_snapshot stream version st created =
     (if version \<le> 0 then Inl ValueError
      else
        and_then (validate_json st) (\<lambda>_.
        and_then (require_aware_utc created) (\<lambda>t.
        Inr \<lparr>sn_stream = stream, sn_version = version, sn_state = st, sn_created_at = t\<rparr>)))"

section \<open>The in-memory store\<close>

record 's event_port =
  append_op :: "stream_id \<Rightarrow> int \<Rightarrow> new_event list \<Rightarrow> ('s, append_result) act"
  read_stream_op :: "stream_id \<Rightarrow> int \<Rightarrow> int \<Rightarrow> ('s, event_page) act"
  read_all_op :: "int \<Rightarrow> int \<Rightarrow> ('s, event_page) act"
  load_snapshot_op :: "stream_id \<Rightarrow> ('s, snapshot option) act"
  save_snapshot_op :: "snapshot \<Rightarrow> int option \<Rightarrow> ('s, bool) act"

record event_store =
  evs_capacity :: int
  evs_max_page_size :: int
  evs_streams :: "(stream_id, stored_event list) dict"
  evs_all :: "stored_event list"
  evs_event_ids :: "string set"
  evs_snapshots :: "(stream_id, snapshot) dict"

definition InMemoryEventStore :: "int \<Rightarrow> int \<Rightarrow> event_store res" where
  "InMemoryEventStore capacity max_page_size =
     (if capacity \<le> 0 \<or> max_page_size \<le> 0 then Inl ValueError
      else Inr \<lparr>evs_capacity = capacity, evs_max_page_size = max_page_size, evs_streams = [], evs_all = [],
                evs_event_ids = {}, evs_snapshots = []\<rparr>)"

text \<open>\<open>self._streams.get(stream, [])\<close>.\<close>

definition stream_events :: "stream_id \<Rightarrow> event_store \<Rightarrow> stored_event list" where
  "stream_events stream s = (case dict_get (evs_streams s) stream of None \<Rightarrow> [] | Some es \<Rightarrow> es)"

text \<open>The generator over \<open>enumerate(events, start=1)\<close>: \<open>n\<close> is the index of the next event.\<close>

fun number_events :: "stream_id \<Rightarrow> int \<Rightarrow> int \<Rightarrow> int \<Rightarrow> new_event list \<Rightarrow> stored_event list res" where
  "number_events stream actual tot n [] = Inr []"
| "number_events stream actual tot n (ev # evs) =
     and_then (mk_stored_event stream (actual + n) (tot + n) ev) (\<lambda>e.
     and_then (number_events stream actual tot (n + 1) evs) (\<lambda>es. Inr (e # es)))"

definition event_append :: "stream_id \<Rightarrow> int \<Rightarrow> new_event list \<Rightarrow> (event_store, append_result) act" where
  "event_append stream expected events s =
     (if expected < 0 then (Inl ValueError, s)
      else if events = [] then (Inl ValueError, s)
      else
        let ids = map ne_event_id events in
        case find (\<lambda>i. 1 < count_list ids i) ids of
          Some i \<Rightarrow> (Inr (DuplicateEventId i), s)
        | None \<Rightarrow>
            let actual = int (length (stream_events stream s)) in
            if actual \<noteq> expected then (Inr (WrongExpectedVersion expected actual), s)
            else
              case find (\<lambda>i. i \<in> evs_event_ids s) ids of
                Some i \<Rightarrow> (Inr (DuplicateEventId i), s)
              | None \<Rightarrow>
                  if evs_capacity s < int (length (evs_all s)) + int (length events) then (Inl OverflowError, s)
                  else
                    case number_events stream actual (int (length (evs_all s))) 1 events of
                      Inl e \<Rightarrow> (Inl e, s)
                    | Inr stored \<Rightarrow>
                        (Inr (AppendCommitted (se_stream_version (hd stored)) (se_stream_version (last stored)) stored),
                         s\<lparr>evs_streams := dict_set stream (stream_events stream s @ stored) (evs_streams s),
                           evs_all := evs_all s @ stored,
                           evs_event_ids := evs_event_ids s \<union> set ids\<rparr>))"

definition page_arguments :: "int \<Rightarrow> int \<Rightarrow> event_store \<Rightarrow> unit res" where
  "page_arguments position limit s =
     (if position < 0 then Inl ValueError
      else if \<not> (1 \<le> limit \<and> limit \<le> evs_max_page_size s) then Inl ValueError
      else Inr ())"

definition mk_page :: "(stored_event \<Rightarrow> int) \<Rightarrow> int \<Rightarrow> int \<Rightarrow> stored_event list \<Rightarrow> event_page" where
  "mk_page pos after limit available =
     (let selected = take (nat limit) available in
      \<lparr>pg_events = selected, pg_next_position = (if selected = [] then after else pos (last selected)),
       pg_complete = (int (length available) \<le> limit)\<rparr>)"

definition read_stream :: "stream_id \<Rightarrow> int \<Rightarrow> int \<Rightarrow> (event_store, event_page) act" where
  "read_stream stream after limit s =
     (case page_arguments after limit s of
        Inl e \<Rightarrow> (Inl e, s)
      | Inr _ \<Rightarrow> (Inr (mk_page se_stream_version after limit
                   (filter (\<lambda>e. after < se_stream_version e) (stream_events stream s))), s))"

definition read_all :: "int \<Rightarrow> int \<Rightarrow> (event_store, event_page) act" where
  "read_all after limit s =
     (case page_arguments after limit s of
        Inl e \<Rightarrow> (Inl e, s)
      | Inr _ \<Rightarrow> (Inr (mk_page se_global_position after limit
                   (filter (\<lambda>e. after < se_global_position e) (evs_all s))), s))"

definition load_snapshot :: "stream_id \<Rightarrow> (event_store, snapshot option) act" where
  "load_snapshot stream s = (Inr (dict_get (evs_snapshots s) stream), s)"

definition save_snapshot :: "snapshot \<Rightarrow> int option \<Rightarrow> (event_store, bool) act" where
  "save_snapshot sn expected s =
     (if map_option sn_version (dict_get (evs_snapshots s) (sn_stream sn)) \<noteq> expected then (Inr False, s)
      else if int (length (stream_events (sn_stream sn) s)) < sn_version sn then (Inl ValueError, s)
      else (Inr True, s\<lparr>evs_snapshots := dict_set (sn_stream sn) sn (evs_snapshots s)\<rparr>))"

definition mem_event_port :: "event_store event_port" where
  "mem_event_port = \<lparr>append_op = event_append, read_stream_op = read_stream, read_all_op = read_all,
                     load_snapshot_op = load_snapshot, save_snapshot_op = save_snapshot\<rparr>"

section \<open>Invariant\<close>

definition event_inv :: "event_store \<Rightarrow> bool" where
  "event_inv s \<longleftrightarrow> 0 < evs_capacity s \<and> 0 < evs_max_page_size s \<and> dict_ok (evs_streams s)
     \<and> int (length (evs_all s)) \<le> evs_capacity s
     \<and> consecutive (map se_global_position (evs_all s))
     \<and> (\<forall>st. stream_events st s = filter (\<lambda>e. se_stream e = st) (evs_all s))
     \<and> (\<forall>st. consecutive (map se_stream_version (stream_events st s)))
     \<and> distinct (map (\<lambda>e. ne_event_id (se_event e)) (evs_all s))
     \<and> evs_event_ids s = set (map (\<lambda>e. ne_event_id (se_event e)) (evs_all s))
     \<and> (\<forall>st sn. dict_get (evs_snapshots s) st = Some sn \<longrightarrow>
           sn_stream sn = st \<and> sn_version sn \<le> int (length (stream_events st s)))"

lemma number_events_ok:
  assumes "0 \<le> actual" "0 \<le> tot" "1 \<le> n"
  shows "number_events stream actual tot n evs =
    Inr (map (\<lambda>i. \<lparr>se_stream = stream, se_stream_version = actual + n + int i, se_global_position = tot + n + int i,
                     se_event = evs ! i\<rparr>) [0..<length evs])"
  using assms(3)
proof (induction evs arbitrary: n)
  case (Cons ev evs)
  have upt: "[0..<length (ev # evs)] = 0 # map Suc [0..<length evs]"
    by (simp add: map_Suc_upt upt_conv_Cons del: upt_Suc)
  show ?case
    unfolding upt using assms(1,2) Cons.prems Cons.IH [of "n + 1"] by (simp add: mk_stored_event_def algebra_simps)
qed simp

lemma filter_after:
  assumes "consecutive (map pos xs)" and "0 \<le> p"
  shows "filter (\<lambda>e. p < pos e) xs = drop (nat p) xs"
proof -
  have "pos (xs ! i) = int i + 1" if "i < length xs" for i
    using assms(1) that by (simp add: consecutive_def)
  then have "\<forall>e\<in>set (take (nat p) xs). \<not> p < pos e" "\<forall>e\<in>set (drop (nat p) xs). p < pos e"
    using assms(2) by (auto simp: in_set_conv_nth)
  then have "filter (\<lambda>e. p < pos e) (take (nat p) xs @ drop (nat p) xs) = drop (nat p) xs"
    by (simp only: filter_append) simp
  then show ?thesis by simp
qed

lemma distinct_by_count: "\<forall>x\<in>set xs. \<not> 1 < count_list xs x \<Longrightarrow> distinct xs"
proof (induction xs)
  case (Cons x xs)
  have "count_list xs y \<le> count_list (x # xs) y" for y by simp
  with Cons.prems have "\<forall>y\<in>set xs. \<not> 1 < count_list xs y" by (meson le_less_trans not_less list.set_intros(2))
  moreover have "x \<notin> set xs" using Cons.prems by (auto simp: count_list_0_iff [symmetric] simp del: count_list_0_iff)
  ultimately show ?case using Cons.IH by simp
qed simp

text \<open>The effect of an append that gets past its guards.\<close>

definition appended :: "stream_id \<Rightarrow> new_event list \<Rightarrow> event_store \<Rightarrow> stored_event list" where
  "appended stream events s =
     map (\<lambda>i. \<lparr>se_stream = stream, se_stream_version = int (length (stream_events stream s)) + 1 + int i,
               se_global_position = int (length (evs_all s)) + 1 + int i, se_event = events ! i\<rparr>) [0..<length events]"

lemma appended_simps [simp]:
  "length (appended stream events s) = length events"
  "map se_event (appended stream events s) = events"
  "e \<in> set (appended stream events s) \<Longrightarrow> se_stream e = stream"
  by (auto simp: appended_def map_nth comp_def intro: nth_equalityI)

lemma event_append_cases:
  obtains (rejected) r where "event_append stream expected events s = (r, s)"
      "\<And>v w es. r \<noteq> Inr (AppendCommitted v w es)"
  | (committed) "event_append stream expected events s =
       (Inr (AppendCommitted (expected + 1) (expected + int (length events)) (appended stream events s)),
        s\<lparr>evs_streams := dict_set stream (stream_events stream s @ appended stream events s) (evs_streams s),
          evs_all := evs_all s @ appended stream events s,
          evs_event_ids := evs_event_ids s \<union> set (map ne_event_id events)\<rparr>)"
      "0 \<le> expected" "events \<noteq> []" "distinct (map ne_event_id events)"
      "int (length (stream_events stream s)) = expected"
      "set (map ne_event_id events) \<inter> evs_event_ids s = {}"
      "int (length (evs_all s)) + int (length events) \<le> evs_capacity s"
proof (cases "\<exists>v w es. fst (event_append stream expected events s) = Inr (AppendCommitted v w es)")
  case False
  then have "snd (event_append stream expected events s) = s"
    by (auto simp: event_append_def Let_def split: option.splits sum.splits if_splits)
  with False show thesis by (intro rejected [of "fst (event_append stream expected events s)"]) (auto simp: prod_eq_iff)
next
  case True
  let ?ids = "map ne_event_id events"
  have g: "0 \<le> expected" "events \<noteq> []" "find (\<lambda>i. 1 < count_list ?ids i) ?ids = None"
      "int (length (stream_events stream s)) = expected" "find (\<lambda>i. i \<in> evs_event_ids s) ?ids = None"
      "int (length (evs_all s)) + int (length events) \<le> evs_capacity s"
    using True by (auto simp: event_append_def Let_def split: option.splits sum.splits if_splits)
  have d: "distinct ?ids" "set ?ids \<inter> evs_event_ids s = {}"
    using g(3,5) by (auto simp: find_None_iff intro!: distinct_by_count simp del: distinct_map)
  have num: "number_events stream expected (int (length (evs_all s))) 1 events = Inr (appended stream events s)"
    using g(1,4) by (simp add: number_events_ok appended_def)
  have "int (length events - Suc 0) = int (length events) - 1" using g(2) by (cases events) auto
  then have "se_stream_version (hd (appended stream events s)) = expected + 1"
      "se_stream_version (last (appended stream events s)) = expected + int (length events)"
    using g(2,4) by (auto simp: appended_def hd_map last_map)
  with g num have "event_append stream expected events s =
       (Inr (AppendCommitted (expected + 1) (expected + int (length events)) (appended stream events s)),
        s\<lparr>evs_streams := dict_set stream (stream_events stream s @ appended stream events s) (evs_streams s),
          evs_all := evs_all s @ appended stream events s,
          evs_event_ids := evs_event_ids s \<union> set (map ne_event_id events)\<rparr>)"
    by (auto simp: event_append_def Let_def)
  then show thesis by (rule committed) (use g d in auto)
qed

lemma event_invD:
  assumes "event_inv s"
  shows "0 < evs_capacity s" "0 < evs_max_page_size s" "dict_ok (evs_streams s)"
    "int (length (evs_all s)) \<le> evs_capacity s" "consecutive (map se_global_position (evs_all s))"
    "stream_events st s = filter (\<lambda>e. se_stream e = st) (evs_all s)"
    "consecutive (map se_stream_version (stream_events st s))"
    "distinct (map (\<lambda>e. ne_event_id (se_event e)) (evs_all s))"
    "evs_event_ids s = set (map (\<lambda>e. ne_event_id (se_event e)) (evs_all s))"
    "dict_get (evs_snapshots s) st = Some sn \<Longrightarrow>
       sn_stream sn = st \<and> sn_version sn \<le> int (length (stream_events st s))"
  using assms unfolding event_inv_def by blast+

lemma event_append_inv:
  assumes inv: "event_inv s"
  shows "event_inv (snd (event_append stream expected events s))"
proof (cases rule: event_append_cases [of stream expected events s])
  case committed
  let ?new = "appended stream events s"
  let ?s = "snd (event_append stream expected events s)"
  have streams: "stream_events st ?s = (if st = stream then stream_events st s @ ?new else stream_events st s)" for st
    using committed(1) by (simp add: stream_events_def dict_simps)
  have other: "filter (\<lambda>e. se_stream e = st) ?new = (if st = stream then ?new else [])" for st
    by (cases "st = stream") (auto simp: filter_id_conv filter_empty_conv)
  have ids: "map (\<lambda>e. ne_event_id (se_event e)) ?new = map ne_event_id events"
    by (rule nth_equalityI) (auto simp: appended_def)
  have pos: "consecutive (map se_global_position (evs_all s @ ?new))"
    unfolding map_append by (rule consecutive_append [OF event_invD(5) [OF inv]]) (auto simp: appended_def)
  have vers: "consecutive (map se_stream_version (stream_events stream s @ ?new))"
    unfolding map_append by (rule consecutive_append [OF event_invD(7) [OF inv]]) (auto simp: appended_def)
  have snaps: "sn_stream sn = st \<and> sn_version sn \<le> int (length (stream_events st ?s))"
    if "dict_get (evs_snapshots s) st = Some sn" for st sn
    using event_invD(10) [OF inv that] by (auto simp: streams)
  have dist: "distinct (map (\<lambda>e. ne_event_id (se_event e)) (evs_all s @ ?new))"
    using event_invD(8) [OF inv] committed(4,6) unfolding map_append ids distinct_append event_invD(9) [OF inv] by blast
  have set: "evs_event_ids s \<union> set (map ne_event_id events) = set (map (\<lambda>e. ne_event_id (se_event e)) (evs_all s @ ?new))"
    unfolding map_append ids set_append event_invD(9) [OF inv] ..
  have new: "evs_all ?s = evs_all s @ ?new" "evs_capacity ?s = evs_capacity s" "evs_max_page_size ?s = evs_max_page_size s"
      "evs_snapshots ?s = evs_snapshots s" "evs_event_ids ?s = evs_event_ids s \<union> set (map ne_event_id events)"
      "dict_ok (evs_streams ?s)"
    using committed(1) event_invD(3) [OF inv] by simp_all
  show ?thesis
    unfolding event_inv_def new(1-5) streams set filter_append other
    using event_invD(1,2) [OF inv] new(6) pos dist vers committed(7) event_invD(7) [OF inv] snaps
    by (simp add: streams event_invD(6) [OF inv, symmetric])
qed (use inv in auto)

lemma save_snapshot_inv:
  assumes inv: "event_inv s"
  shows "event_inv (snd (save_snapshot sn expected s))"
proof (cases "fst (save_snapshot sn expected s) = Inr True")
  case True
  let ?s = "s\<lparr>evs_snapshots := dict_set (sn_stream sn) sn (evs_snapshots s)\<rparr>"
  have ok: "snd (save_snapshot sn expected s) = ?s" "sn_version sn \<le> int (length (stream_events (sn_stream sn) s))"
    using True by (auto simp: save_snapshot_def split: if_splits)
  have st: "stream_events st ?s = stream_events st s" for st by (simp add: stream_events_def)
  show ?thesis
    unfolding event_inv_def ok(1) st
    using event_invD [OF inv] ok(2) by (simp add: dict_simps)
next
  case False
  then have "snd (save_snapshot sn expected s) = s" by (auto simp: save_snapshot_def split: if_splits)
  with inv show ?thesis by simp
qed

section \<open>Calls\<close>

datatype event_call =
    Append stream_id int "new_event list"
  | ReadStream stream_id int int
  | ReadAll int int
  | LoadSnapshot stream_id
  | SaveSnapshot snapshot "int option"

datatype event_reply =
    AppendReply "append_result res" | PageReply "event_page res" | SnapshotReply "snapshot option res"
  | SaveReply "bool res"

fun event_step :: "event_call \<Rightarrow> event_store \<Rightarrow> event_reply \<times> event_store" where
  "event_step (Append st v evs) s = apfst AppendReply (event_append st v evs s)"
| "event_step (ReadStream st after limit) s = apfst PageReply (read_stream st after limit s)"
| "event_step (ReadAll after limit) s = apfst PageReply (read_all after limit s)"
| "event_step (LoadSnapshot st) s = apfst SnapshotReply (load_snapshot st s)"
| "event_step (SaveSnapshot sn v) s = apfst SaveReply (save_snapshot sn v s)"

lemma reads_keep [simp]:
  "snd (read_stream st after limit s) = s" "snd (read_all after limit s) = s" "snd (load_snapshot st s) = s"
  by (simp_all add: read_stream_def read_all_def load_snapshot_def split: sum.splits)

interpretation event_machine: guarded_machine event_step event_inv "\<lambda>_ _. True"
proof
  fix s x
  assume "event_inv s"
  then show "event_inv (snd (event_step x s))"
    by (cases x) (simp_all add: event_append_inv save_snapshot_inv)
qed

text \<open>The log only grows.\<close>

definition extends :: "event_store \<Rightarrow> event_store \<Rightarrow> bool" where
  "extends s0 s \<longleftrightarrow> (\<exists>new. evs_all s = evs_all s0 @ new) 
     \<and> evs_max_page_size s = evs_max_page_size s0 \<and> evs_capacity s = evs_capacity s0"

lemma extends_refl [simp]: "extends s s"
  by (simp add: extends_def)

lemma extends_step: "extends s0 s \<Longrightarrow> extends s0 (snd (event_step x s))"
proof (cases x)
  case (Append st v evs)
  then show "extends s0 s \<Longrightarrow> ?thesis"
    by (cases rule: event_append_cases [of st v evs s]) (auto simp: extends_def)
qed (auto simp: extends_def save_snapshot_def)

interpretation event_growth: guarded_machine event_step "\<lambda>s. event_inv s \<and> extends s0 s" "\<lambda>_ _. True" for s0
  by unfold_locales (auto intro: extends_step event_machine.inv_step)

section \<open>The interface of log readers\<close>

text \<open>
  \<open>log\<close> is the sequence of stored events.  Positions are gapless, a page is the next
  slice of the log and reading changes nothing; the projection runtime relies on this.
\<close>

locale event_log =
  fixes port :: "'s event_port"
    and log :: "'s \<Rightarrow> stored_event list"
    and page_limit :: "'s \<Rightarrow> int"
    and inv :: "'s \<Rightarrow> bool"
  assumes positions: "inv s \<Longrightarrow> i < length (log s) \<Longrightarrow> se_global_position (log s ! i) = int i + 1"
    and page: "inv s \<Longrightarrow> 0 \<le> after \<Longrightarrow> 1 \<le> limit \<Longrightarrow> limit \<le> page_limit s \<Longrightarrow>
        read_all_op port after limit s =
          (Inr \<lparr>pg_events = take (nat limit) (drop (nat after) (log s)),
                pg_next_position = (if length (log s) \<le> nat after then after
                                    else min (after + limit) (int (length (log s)))),
                pg_complete = (int (length (log s)) \<le> after + limit)\<rparr>, s)"
    and page_error: "\<not> (0 \<le> after \<and> 1 \<le> limit \<and> limit \<le> page_limit s) \<Longrightarrow>
        read_all_op port after limit s = (Inl ValueError, s)"

lemma read_all_page:
  assumes inv: "event_inv s" and args: "0 \<le> after" "1 \<le> limit" "limit \<le> evs_max_page_size s"
  shows "read_all after limit s =
    (Inr \<lparr>pg_events = take (nat limit) (drop (nat after) (evs_all s)),
          pg_next_position = (if length (evs_all s) \<le> nat after then after
                              else min (after + limit) (int (length (evs_all s)))),
          pg_complete = (int (length (evs_all s)) \<le> after + limit)\<rparr>, s)"
proof -
  let ?sel = "take (nat limit) (drop (nat after) (evs_all s))"
  have c: "consecutive (map se_global_position (evs_all s))" using inv by (simp add: event_inv_def)
  have last: "se_global_position (last ?sel) = min (after + limit) (int (length (evs_all s)))"
    if "\<not> length (evs_all s) \<le> nat after"
  proof -
    let ?n = "length ?sel - 1"
    have n: "length ?sel = min (nat limit) (length (evs_all s) - nat after)" by simp
    with that args have "0 < length ?sel" by auto
    then have "last ?sel = evs_all s ! (nat after + ?n)" "nat after + ?n < length (evs_all s)"
      by (auto simp: last_conv_nth)
    with c have "se_global_position (last ?sel) = int (nat after + ?n) + 1" by (simp add: consecutive_def)
    with that args show ?thesis by (simp only: n) (auto simp: min_def)
  qed
  show ?thesis
    using args last
    by (auto simp: read_all_def page_arguments_def mk_page_def Let_def filter_after [OF c args(1)])
qed

interpretation mem_events: event_log mem_event_port evs_all evs_max_page_size event_inv
proof
  show "se_global_position (evs_all s ! i) = int i + 1" if "event_inv s" "i < length (evs_all s)" for s i
    using that by (simp add: event_inv_def consecutive_def)
qed (simp_all add: mem_event_port_def read_all_page, auto simp: read_all_def page_arguments_def)

section \<open>Paging under concurrent calls\<close>

text \<open>
  A reader that starts after \<open>p\<close> and follows \<open>next_position\<close>: before each page other clients
  make the calls of one schedule entry.  It returns the events it read, its position and the
  store.
\<close>

fun follow :: "int \<Rightarrow> event_call list list \<Rightarrow> int \<Rightarrow> event_store \<Rightarrow> stored_event list \<times> int \<times> event_store" where
  "follow limit [] p s = ([], p, s)"
| "follow limit (others # rest) p s =
     (let s1 = snd (run event_step others s) in
      case read_all p limit s1 of
        (Inl _, s2) \<Rightarrow> ([], p, s2)
      | (Inr page, s2) \<Rightarrow>
          let (es, p', s3) = follow limit rest (pg_next_position page) s2 in (pg_events page @ es, p', s3))"

lemma run_grows:
  assumes "event_inv s"
  obtains new where "event_inv (snd (run event_step cs s))" "evs_all (snd (run event_step cs s)) = evs_all s @ new"
    "evs_max_page_size (snd (run event_step cs s)) = evs_max_page_size s"
  using event_growth.run_inv [of s s cs] assms by (auto simp: extends_def)

lemma slices:
  assumes "p \<le> q" "q \<le> r"
  shows "drop p (take q xs) @ drop q (take r xs) = drop p (take r xs)"
proof -
  have "take ((q - p) + (r - q)) (drop p xs) = take (q - p) (drop p xs) @ take (r - q) (drop (q - p) (drop p xs))"
    by (rule take_add)
  with assms show ?thesis by (simp add: drop_take)
qed

text \<open>With no other calls the reader covers \<open>limit\<close> events per page.\<close>

definition quiet :: "event_call list list \<Rightarrow> bool" where
  "quiet schedule \<longleftrightarrow> (\<forall>cs\<in>set schedule. cs = [])"

definition next_position :: "int \<Rightarrow> int \<Rightarrow> event_store \<Rightarrow> int" where
  "next_position p limit s = min (p + limit) (int (length (evs_all s)))"

lemma read_next:
  assumes "event_inv s" and "0 \<le> p" "p \<le> int (length (evs_all s))" and "1 \<le> limit" "limit \<le> evs_max_page_size s"
  shows "read_all p limit s =
    (Inr \<lparr>pg_events = drop (nat p) (take (nat (next_position p limit s)) (evs_all s)),
          pg_next_position = next_position p limit s, pg_complete = (int (length (evs_all s)) \<le> p + limit)\<rparr>, s)"
proof -
  have "take (nat limit) (drop (nat p) (evs_all s)) = drop (nat p) (take (nat (next_position p limit s)) (evs_all s))"
    using assms(2,4) by (auto simp: next_position_def drop_take min_def nat_diff_distrib nat_add_distrib)
  with read_all_page [OF assms(1,2,4,5)] assms(2,3,4) show ?thesis by (auto simp: next_position_def)
qed

lemma follow_spec:
  assumes "event_inv s" and "0 \<le> p" "p \<le> int (length (evs_all s))" and "1 \<le> limit" "limit \<le> evs_max_page_size s"
  shows "\<exists>es p' s'. follow limit schedule p s = (es, p', s') \<and> event_inv s' \<and> (\<exists>new. evs_all s' = evs_all s @ new)
    \<and> p \<le> p' \<and> p' \<le> int (length (evs_all s')) \<and> es = drop (nat p) (take (nat p') (evs_all s'))
    \<and> (quiet schedule \<longrightarrow> s' = s \<and> p' = min (p + limit * int (length schedule)) (int (length (evs_all s))))"
  using assms
proof (induction schedule arbitrary: p s)
  case Nil
  then show ?case by simp
next
  case (Cons others schedule)
  let ?s1 = "snd (run event_step others s)"
  obtain new where new: "event_inv ?s1" "evs_all ?s1 = evs_all s @ new" "evs_max_page_size ?s1 = evs_max_page_size s"
    by (rule run_grows [OF Cons.prems(1)])
  let ?q = "next_position p limit ?s1"
  have pg: "read_all p limit ?s1 = (Inr \<lparr>pg_events = drop (nat p) (take (nat ?q) (evs_all ?s1)),
      pg_next_position = ?q, pg_complete = (int (length (evs_all ?s1)) \<le> p + limit)\<rparr>, ?s1)"
    using Cons.prems new by (intro read_next) auto
  have q: "p \<le> ?q" "0 \<le> ?q" "?q \<le> int (length (evs_all ?s1))"
    using Cons.prems new(2) by (auto simp: next_position_def)
  have lim: "limit \<le> evs_max_page_size ?s1" using new(3) Cons.prems(5) by simp
  from Cons.IH [OF new(1) q(2,3) Cons.prems(4) lim] obtain es p' s' new' where
    IH: "follow limit schedule ?q ?s1 = (es, p', s')" "event_inv s'" "evs_all s' = evs_all ?s1 @ new'"
      "?q \<le> p'" "p' \<le> int (length (evs_all s'))" "es = drop (nat ?q) (take (nat p') (evs_all s'))"
      "quiet schedule \<longrightarrow> s' = ?s1 \<and> p' = min (?q + limit * int (length schedule)) (int (length (evs_all ?s1)))"
    by blast
  have "take (nat ?q) (evs_all ?s1) = take (nat ?q) (evs_all s')" using q(3) IH(3) by simp
  then have es: "drop (nat p) (take (nat ?q) (evs_all ?s1)) @ es = drop (nat p) (take (nat p') (evs_all s'))"
    using slices [of "nat p" "nat ?q" "nat p'" "evs_all s'"] q(1) IH(4) by (simp add: IH(6))
  have step: "follow limit (others # schedule) p s = (drop (nat p) (take (nat ?q) (evs_all ?s1)) @ es, p', s')"
    using pg IH(1) by (simp add: Let_def)
  have quiet: "s' = s \<and> p' = min (p + limit * int (length (others # schedule))) (int (length (evs_all s)))"
    if "quiet (others # schedule)"
  proof -
    have "?s1 = s" "quiet schedule" using that by (simp_all add: quiet_def)
    moreover have "min (min (p + limit) n + k) n = min (p + (limit + k)) n" if "0 \<le> k" for n k :: int
      using that by auto
    moreover have "0 \<le> limit * int (length schedule)" using Cons.prems(4) by simp
    moreover have "limit * int (length (others # schedule)) = limit + limit * int (length schedule)"
      by (simp add: algebra_simps)
    ultimately show ?thesis using IH(7) by (simp only: next_position_def)
  qed
  have "p \<le> p'" "\<exists>new. evs_all s' = evs_all s @ new" using q(1) IH(3,4) new(2) by auto
  with step es quiet IH(2,5) show ?case by blast
qed

section \<open>Properties\<close>

text \<open>C23.  The log is gapless: after every sequence of calls on a new store, the global positions are
  1, 2, 3, ... in order, every stream is exactly the subsequence of its events with versions 1, 2,
  3, ..., no event identifier occurs twice, the capacity is respected and no snapshot is ahead of
  its stream.\<close>

theorem event_log_is_gapless:
  assumes "InMemoryEventStore cap page_size = Inr s0" and "s = snd (run event_step cs s0)"
  shows "consecutive (map se_global_position (evs_all s))
    \<and> (\<forall>st. stream_events st s = filter (\<lambda>e. se_stream e = st) (evs_all s)
          \<and> consecutive (map se_stream_version (stream_events st s)))
    \<and> distinct (map (\<lambda>e. ne_event_id (se_event e)) (evs_all s))
    \<and> int (length (evs_all s)) \<le> cap
    \<and> (\<forall>st sn. dict_get (evs_snapshots s) st = Some sn \<longrightarrow> sn_version sn \<le> int (length (stream_events st s)))"
proof -
  have s0: "event_inv s0" "evs_capacity s0 = cap"
    using assms(1) by (auto simp: InMemoryEventStore_def event_inv_def stream_events_def split: if_splits)
  have inv: "event_inv s" using event_machine.run_inv [OF s0(1), of cs] assms(2) by simp
  have cap: "evs_capacity s = cap"
    using event_growth.run_inv [of s0 s0 cs] s0 assms(2) by (simp add: extends_def)
  show ?thesis using event_invD [OF inv] cap by metis
qed

definition sample_event :: "string \<Rightarrow> new_event" where
  "sample_event eid = \<lparr>ne_event_id = eid, ne_event_type = ''t'', ne_payload = JNull, ne_occurred_at = 0,
     ne_metadata = fmempty\<rparr>"

theorem event_log_is_gapless_witness:
  "consecutive (map se_global_position (evs_all (snd (run event_step
     [Append (StreamId ''c'' ''1'') 0 [sample_event ''a'', sample_event ''b''], Append (StreamId ''c'' ''2'') 0 [sample_event ''d'']]
     \<lparr>evs_capacity = 9, evs_max_page_size = 2, evs_streams = [], evs_all = [], evs_event_ids = {}, evs_snapshots = []\<rparr>))))"
  by (rule conjunct1 [OF event_log_is_gapless [of 9 2, OF _ refl]]) (simp add: InMemoryEventStore_def)

text \<open>Optimistic concurrency: once an append expecting version \<open>v\<close> has committed, its events keep
  their places in the log through every run, and no later append to that stream expecting \<open>v\<close> or
  less can commit, so of two writers that read the same version at most one succeeds.\<close>

theorem committed_append_excludes_rivals:
  assumes inv: "event_inv s" and commit: "event_append st v evs s = (Inr (AppendCommitted a b es), s1)"
    and s2: "s2 = snd (run event_step cs s1)"
  shows "a = v + 1 \<and> b = v + int (length evs) \<and> map se_event es = evs
    \<and> (\<exists>new. evs_all s2 = evs_all s @ es @ new)
    \<and> (\<forall>w evs' a' b' es'. w \<le> v \<longrightarrow> fst (event_append st w evs' s2) \<noteq> Inr (AppendCommitted a' b' es'))"
proof (cases rule: event_append_cases [of st v evs s])
  case rejected
  with commit show ?thesis by auto
next
  case committed
  with commit have s1: "es = appended st evs s" "a = v + 1" "b = v + int (length evs)" "evs_all s1 = evs_all s @ es"
      "stream_events st s1 = stream_events st s @ es"
    by (auto simp: stream_events_def dict_simps)
  have inv1: "event_inv s1" using event_append_inv [OF inv, of st v evs] commit by simp
  obtain new where new: "event_inv s2" "evs_all s2 = evs_all s1 @ new" using run_grows [OF inv1] s2 by metis
  have "stream_events st s2 = stream_events st s1 @ filter (\<lambda>e. se_stream e = st) new"
    by (simp add: event_invD(6) [OF new(1)] event_invD(6) [OF inv1] new(2))
  then have len: "v < int (length (stream_events st s2))"
    using s1(1,5) committed(3,5) by (cases evs) auto
  have "fst (event_append st w evs' s2) \<noteq> Inr (AppendCommitted a' b' es')" if "w \<le> v" for w evs' a' b' es'
    using that len by (cases rule: event_append_cases [of st w evs' s2]) auto
  with s1 new(2) show ?thesis by auto
qed

definition new_events_store :: event_store where
  "new_events_store = \<lparr>evs_capacity = 9, evs_max_page_size = 2, evs_streams = [], evs_all = [], evs_event_ids = {},
     evs_snapshots = []\<rparr>"

lemma new_events_store_inv: "event_inv new_events_store"
  by (simp add: new_events_store_def event_inv_def stream_events_def)

theorem committed_append_excludes_rivals_witness:
  "\<forall>es. fst (event_append (StreamId ''c'' ''1'') 0 [sample_event ''x'']
     (snd (event_append (StreamId ''c'' ''1'') 0 [sample_event ''a''] new_events_store))) \<noteq> Inr (AppendCommitted 1 1 es)"
proof -
  let ?call = "event_append (StreamId ''c'' ''1'') 0 [sample_event ''a''] new_events_store"
  have "\<exists>es. ?call = (Inr (AppendCommitted 1 1 es), snd ?call)"
    by (simp add: event_append_def stream_events_def new_events_store_def sample_event_def mk_stored_event_def)
  then show ?thesis
    using committed_append_excludes_rivals [OF new_events_store_inv, of "StreamId ''c'' ''1''" 0 "[sample_event ''a'']"
        1 1 _ "snd ?call" "snd ?call" "[]"]
    by auto
qed

text \<open>C24.  Paging reads the log exactly once: a reader that starts at position \<open>p\<close> and follows
  \<open>next_position\<close>, while other clients make any calls before each page, has read exactly the events
  of the final log between \<open>p\<close> and its position, in order, with none skipped or repeated; and
  without other calls each page makes the full progress the log allows, so enough pages reach its
  end.\<close>

theorem paging_reads_log_exactly_once:
  assumes "event_inv s" and "0 \<le> p" "p \<le> int (length (evs_all s))" and "1 \<le> limit" "limit \<le> evs_max_page_size s"
  shows "\<exists>es p' s'. follow limit schedule p s = (es, p', s') \<and> (\<exists>new. evs_all s' = evs_all s @ new)
    \<and> p \<le> p' \<and> p' \<le> int (length (evs_all s')) \<and> es = drop (nat p) (take (nat p') (evs_all s'))
    \<and> (quiet schedule \<longrightarrow> p' = min (p + limit * int (length schedule)) (int (length (evs_all s))))"
  using follow_spec [OF assms, of schedule] by metis

theorem paging_reads_log_exactly_once_witness:
  "\<exists>es p' s'. follow 2 [[], [Append (StreamId ''c'' ''1'') 0 [sample_event ''a'']]] 0 new_events_store = (es, p', s')
     \<and> 0 \<le> p' \<and> es = drop 0 (take (nat p') (evs_all s'))"
  using paging_reads_log_exactly_once [OF new_events_store_inv, of 0 2 "[[], [Append (StreamId ''c'' ''1'') 0 [sample_event ''a'']]]"]
  by (auto simp: new_events_store_def)

end
