(* ===== verification/Projections.thy ===== *)
theory Projections
  imports EventSourcing
begin

text \<open>
  Model of \<open>src/src/pytitect/projections.py\<close>: the in-memory projection store, rebuild runs, and
  the runtime that feeds projections from an event store.  Shown: a projected state is
  always the replay of the log up to its checkpoint, whatever other clients do between the
  calls of the runtime; rebuilds reach their watermark; and the store can exceed its
  capacity by completing a rebuild.
\<close>

declare map_of_eq_Some_iff [simp del] Some_eq_map_of_iff [simp del]

section \<open>Data\<close>

datatype projection_key = ProjectionKey (pk_name: string) (pk_partition: string)

definition mk_projection_key :: "string \<Rightarrow> string \<Rightarrow> projection_key res" where
  "mk_projection_key name part =
     (if name = [] \<or> part = [] then Inl ValueError else Inr (ProjectionKey name part))"

record projection_state =
  ps_key :: projection_key
  ps_version :: int
  ps_checkpoint :: int
  ps_state :: json

definition mk_projection_state :: "projection_key \<Rightarrow> int \<Rightarrow> int \<Rightarrow> json \<Rightarrow> projection_state res" where
  "mk_projection_state key version checkpoint st =
     (if version \<le> 0 \<or> checkpoint < 0 then Inl ValueError
      else and_then (validate_json st) (\<lambda>_.
        Inr \<lparr>ps_key = key, ps_version = version, ps_checkpoint = checkpoint, ps_state = st\<rparr>))"

datatype projection_apply_result =
    ProjectionApplied projection_state int
  | StaleProjectionCheckpoint int int
  | ProjectionVersionMismatch int int

datatype rebuild_status = RUNNING | COMPLETED

record rebuild_run =
  rb_run_id :: string
  rb_key :: projection_key
  rb_projection_version :: int
  rb_through_position :: int
  rb_batch_size :: int
  rb_next_position :: int
  rb_state :: json
  rb_status :: rebuild_status

definition check_rebuild_run :: "rebuild_run \<Rightarrow> rebuild_run res" where
  "check_rebuild_run r =
     (if rb_run_id r = [] \<or> rb_projection_version r \<le> 0 then Inl ValueError
      else if rb_through_position r < 0
        \<or> \<not> (0 \<le> rb_next_position r \<and> rb_next_position r \<le> rb_through_position r)
        \<or> rb_batch_size r \<le> 0 then Inl ValueError
      else and_then (validate_json (rb_state r)) (\<lambda>_. Inr r))"

section \<open>The in-memory store\<close>

record projection_store =
  prs_capacity :: int
  prs_states :: "(projection_key, projection_state) dict"
  prs_rebuilds :: "(string, rebuild_run) dict"

definition InMemoryProjectionStore :: "int \<Rightarrow> projection_store res" where
  "InMemoryProjectionStore capacity =
     (if capacity \<le> 0 then Inl ValueError
      else Inr \<lparr>prs_capacity = capacity, prs_states = [], prs_rebuilds = []\<rparr>)"

definition projection_load :: "projection_key \<Rightarrow> (projection_store, projection_state option) act" where
  "projection_load key s = (Inr (dict_get (prs_states s) key), s)"

text \<open>\<open>any(later.global_position <= earlier.global_position for earlier, later in pairwise(events))\<close>.\<close>

fun unordered :: "stored_event list \<Rightarrow> bool" where
  "unordered (e1 # e2 # es) \<longleftrightarrow> se_global_position e2 \<le> se_global_position e1 \<or> unordered (e2 # es)"
| "unordered _ \<longleftrightarrow> False"

definition projection_apply ::
    "projection_key \<Rightarrow> int \<Rightarrow> int \<Rightarrow> json \<Rightarrow> stored_event list
     \<Rightarrow> (projection_store, projection_apply_result) act" where
  "projection_apply key expected version st events s =
     (case validate_json st of
        Inl e \<Rightarrow> (Inl e, s)
      | Inr _ \<Rightarrow>
          if version \<le> 0 then (Inl ValueError, s)
          else if unordered events then (Inl ValueError, s)
          else if events \<noteq> [] \<and> se_global_position (hd events) \<le> expected then (Inl ValueError, s)
          else
            let current = dict_get (prs_states s) key;
                actual = (case current of None \<Rightarrow> 0 | Some c \<Rightarrow> ps_checkpoint c) in
            if actual \<noteq> expected then (Inr (StaleProjectionCheckpoint expected actual), s)
            else if (case current of None \<Rightarrow> False | Some c \<Rightarrow> ps_version c \<noteq> version)
              then (Inr (ProjectionVersionMismatch version (ps_version (the current))), s)
            else if current = None \<and> prs_capacity s \<le> int (length (prs_states s)) then (Inl OverflowError, s)
            else
              let checkpoint = (if events = [] then expected else se_global_position (last events)) in
              case mk_projection_state key version checkpoint st of
                Inl e \<Rightarrow> (Inl e, s)
              | Inr projected \<Rightarrow>
                  (Inr (ProjectionApplied projected (int (length events))),
                   s\<lparr>prs_states := dict_set key projected (prs_states s)\<rparr>))"

definition begin_rebuild :: "rebuild_run \<Rightarrow> (projection_store, bool) act" where
  "begin_rebuild rr s =
     (if dict_get (prs_rebuilds s) (rb_run_id rr) \<noteq> None then (Inr False, s)
      else if prs_capacity s \<le> int (length (prs_states s)) + int (length (prs_rebuilds s))
        then (Inl OverflowError, s)
      else (Inr True, s\<lparr>prs_rebuilds := dict_set (rb_run_id rr) rr (prs_rebuilds s)\<rparr>))"

definition load_rebuild :: "string \<Rightarrow> (projection_store, rebuild_run option) act" where
  "load_rebuild run_id s = (Inr (dict_get (prs_rebuilds s) run_id), s)"

text \<open>The completed projection replaces the active one unless that is further ahead or newer.\<close>

definition superseded :: "rebuild_run \<Rightarrow> int \<Rightarrow> projection_store \<Rightarrow> bool" where
  "superseded rr next s =
     (case dict_get (prs_states s) (rb_key rr) of
        None \<Rightarrow> False
      | Some active \<Rightarrow> next < ps_checkpoint active \<or> rb_projection_version rr < ps_version active)"

definition advance_rebuild ::
    "string \<Rightarrow> int \<Rightarrow> json \<Rightarrow> int \<Rightarrow> bool \<Rightarrow> (projection_store, rebuild_run option) act" where
  "advance_rebuild run_id expected st next complete s =
     (case validate_json st of
        Inl e \<Rightarrow> (Inl e, s)
      | Inr _ \<Rightarrow>
          case dict_get (prs_rebuilds s) run_id of
            None \<Rightarrow> (Inr None, s)
          | Some current \<Rightarrow>
              if rb_status current \<noteq> RUNNING \<or> rb_next_position current \<noteq> expected then (Inr None, s)
              else if \<not> (rb_next_position current \<le> next \<and> next \<le> rb_through_position current)
                \<or> complete \<noteq> (next = rb_through_position current) then (Inl ValueError, s)
              else if complete \<and> superseded current next s then (Inr None, s)
              else
                case check_rebuild_run (current\<lparr>rb_state := st, rb_next_position := next,
                       rb_status := (if complete then COMPLETED else RUNNING)\<rparr>) of
                  Inl e \<Rightarrow> (Inl e, s)
                | Inr advanced \<Rightarrow>
                    let s1 = s\<lparr>prs_rebuilds := dict_set run_id advanced (prs_rebuilds s)\<rparr> in
                    if complete
                    then
                      (case mk_projection_state (rb_key current) (rb_projection_version current) next st of
                         Inl e \<Rightarrow> (Inl e, s1)
                       | Inr projected \<Rightarrow>
                           (Inr (Some advanced), s1\<lparr>prs_states := dict_set (rb_key current) projected (prs_states s1)\<rparr>))
                    else (Inr (Some advanced), s1))"

section \<open>The runtime\<close>

text \<open>The reducer is the application's function; it may raise.\<close>

record projection_definition =
  pd_version :: int
  pd_initial_state :: json
  pd_reduce :: "json \<Rightarrow> stored_event \<Rightarrow> json res"

definition mk_projection_definition ::
    "int \<Rightarrow> json \<Rightarrow> (json \<Rightarrow> stored_event \<Rightarrow> json res) \<Rightarrow> projection_definition res" where
  "mk_projection_definition version initial reduce =
     (if version \<le> 0 then Inl ValueError
      else and_then (validate_json initial) (\<lambda>_.
        Inr \<lparr>pd_version = version, pd_initial_state = initial, pd_reduce = reduce\<rparr>))"

fun reduce_events :: "projection_definition \<Rightarrow> json \<Rightarrow> stored_event list \<Rightarrow> json res" where
  "reduce_events d st [] = Inr st"
| "reduce_events d st (e # es) =
     and_then (pd_reduce d st e) (\<lambda>st'.
     and_then (validate_json st') (\<lambda>_. reduce_events d st' es))"

text \<open>
  The runtime works on a projection store and an event store.  It holds no lock across its
  calls: \<open>others i\<close> is what other clients do to both before its \<open>i\<close>-th call.
\<close>

record 's projection_world =
  pw_store :: projection_store
  pw_events :: 's

definition on_store :: "(projection_store, 'a) act \<Rightarrow> ('s projection_world, 'a) act" where
  "on_store m w = (case m (pw_store w) of (r, s) \<Rightarrow> (r, w\<lparr>pw_store := s\<rparr>))"

definition on_events :: "('s, 'a) act \<Rightarrow> ('s projection_world, 'a) act" where
  "on_events m w = (case m (pw_events w) of (r, s) \<Rightarrow> (r, w\<lparr>pw_events := s\<rparr>))"

definition project_once ::
    "'s event_port \<Rightarrow> (nat \<Rightarrow> 's projection_world \<Rightarrow> 's projection_world) \<Rightarrow> projection_key
     \<Rightarrow> projection_definition \<Rightarrow> int \<Rightarrow> ('s projection_world, projection_apply_result) act" where
  "project_once events others key d limit =
     sbind (\<lambda>w. on_store (projection_load key) (others 0 w)) (\<lambda>current.
     let checkpoint = (case current of None \<Rightarrow> 0 | Some c \<Rightarrow> ps_checkpoint c) in
     if (case current of None \<Rightarrow> False | Some c \<Rightarrow> ps_version c \<noteq> pd_version d)
     then sreturn (ProjectionVersionMismatch (pd_version d) (ps_version (the current)))
     else
       sbind (\<lambda>w. on_events (read_all_op events checkpoint limit) (others 1 w)) (\<lambda>page.
       sbind (slift (reduce_events d (case current of None \<Rightarrow> pd_initial_state d | Some c \<Rightarrow> ps_state c)
                (pg_events page))) (\<lambda>st.
       \<lambda>w. on_store (projection_apply key checkpoint (pd_version d) st (pg_events page)) (others 2 w))))"

text \<open>The computation of \<open>resume_rebuild\<close> between its read and its write: the reduced state, the next
  position and whether the watermark is reached.\<close>

definition rebuild_progress ::
    "projection_definition \<Rightarrow> rebuild_run \<Rightarrow> stored_event list \<Rightarrow> (json \<times> int \<times> bool) res" where
  "rebuild_progress d rr events =
     (let selected = filter (\<lambda>e. se_global_position e \<le> rb_through_position rr) events in
      and_then (reduce_events d (rb_state rr) selected) (\<lambda>st.
      let next = (if selected = [] then rb_next_position rr else se_global_position (last selected));
          complete = (next = rb_through_position rr) in
      if selected = [] \<and> \<not> complete then Inl RuntimeError else Inr (st, next, complete)))"

definition resume_rebuild ::
    "'s event_port \<Rightarrow> (nat \<Rightarrow> 's projection_world \<Rightarrow> 's projection_world) \<Rightarrow> string
     \<Rightarrow> projection_definition \<Rightarrow> ('s projection_world, rebuild_run) act" where
  "resume_rebuild events others run_id d =
     sbind (\<lambda>w. on_store (load_rebuild run_id) (others 0 w)) (\<lambda>found.
     case found of
       None \<Rightarrow> sraise LookupError
     | Some rr \<Rightarrow>
         if rb_projection_version rr \<noteq> pd_version d then sraise ValueError
         else if rb_status rr = COMPLETED then sreturn rr
         else
           sbind (\<lambda>w. on_events (read_all_op events (rb_next_position rr) (rb_batch_size rr)) (others 1 w)) (\<lambda>page.
           sbind (slift (rebuild_progress d rr (pg_events page))) (\<lambda>(st, next, complete).
           sbind (\<lambda>w. on_store (advance_rebuild run_id (rb_next_position rr) st next complete) (others 2 w))
             (\<lambda>advanced.
           case advanced of None \<Rightarrow> sraise RuntimeError | Some rr' \<Rightarrow> sreturn rr'))))"

section \<open>Replay\<close>

definition replay :: "projection_definition \<Rightarrow> stored_event list \<Rightarrow> int \<Rightarrow> json res" where
  "replay d log n = reduce_events d (pd_initial_state d) (take (nat n) log)"

lemma reduce_events_append:
  "reduce_events d st (xs @ ys) = and_then (reduce_events d st xs) (\<lambda>st'. reduce_events d st' ys)"
  by (induction xs arbitrary: st) (auto simp: and_then_def split: sum.splits)

lemma reduce_events_valid:
  "reduce_events d st es = Inr st' \<Longrightarrow> validate_json st = Inr () \<Longrightarrow> validate_json st' = Inr ()"
  by (induction es arbitrary: st) (auto simp: and_then_eq_Inr)

lemma replay_extend: "n \<le> int (length log) \<Longrightarrow> replay d (log @ new) n = replay d log n"
  by (simp add: replay_def)

lemma replay_slice:
  assumes "replay d log n = Inr st" and "reduce_events d st (take k (drop (nat n) log)) = Inr st'"
    and "0 \<le> n" "n \<le> int (length log)"
  shows "replay d log (n + int (length (take k (drop (nat n) log)))) = Inr st'"
proof -
  let ?es = "take k (drop (nat n) log)"
  have "nat (n + int (length ?es)) = nat n + length ?es" using assms(3) by simp
  moreover have "take (nat n + length ?es) log = take (nat n) log @ ?es" by (auto simp: take_add min_def)
  ultimately show ?thesis using assms(1,2) by (simp add: replay_def reduce_events_append)
qed

lemma filter_upto:
  assumes "\<And>i. i < length xs \<Longrightarrow> pos (xs ! i) = n + int i + 1"
  shows "filter (\<lambda>e. pos e \<le> t) xs = take (nat (t - n)) xs"
proof -
  let ?k = "nat (t - n)"
  have "\<forall>e\<in>set (take ?k xs). pos e \<le> t" "\<forall>e\<in>set (drop ?k xs). \<not> pos e \<le> t"
    using assms by (auto simp: in_set_conv_nth split: if_splits)
  then have "filter (\<lambda>e. pos e \<le> t) (take ?k xs @ drop ?k xs) = take ?k xs"
    by (simp only: filter_append) simp
  then show ?thesis by simp
qed

text \<open>
  Every stored state and every rebuild of the current version of its projection is the
  replay of the log up to its checkpoint.
\<close>

definition state_faithful :: "stored_event list \<Rightarrow> projection_definition \<Rightarrow> projection_state \<Rightarrow> bool" where
  "state_faithful log d ps \<longleftrightarrow> 0 \<le> ps_checkpoint ps \<and> ps_checkpoint ps \<le> int (length log)
     \<and> (ps_version ps = pd_version d \<longrightarrow> replay d log (ps_checkpoint ps) = Inr (ps_state ps))"

definition rebuild_faithful :: "stored_event list \<Rightarrow> projection_definition \<Rightarrow> rebuild_run \<Rightarrow> bool" where
  "rebuild_faithful log d r \<longleftrightarrow> check_rebuild_run r = Inr r \<and> rb_next_position r \<le> int (length log)
     \<and> (rb_projection_version r = pd_version d \<longrightarrow> replay d log (rb_next_position r) = Inr (rb_state r))"

definition faithful ::
    "('s \<Rightarrow> stored_event list) \<Rightarrow> ('s \<Rightarrow> bool) \<Rightarrow> (projection_key \<Rightarrow> projection_definition)
     \<Rightarrow> 's projection_world \<Rightarrow> bool" where
  "faithful log I defs w \<longleftrightarrow> I (pw_events w)
     \<and> (\<forall>key ps. dict_get (prs_states (pw_store w)) key = Some ps \<longrightarrow> state_faithful (log (pw_events w)) (defs key) ps)
     \<and> (\<forall>rid r. dict_get (prs_rebuilds (pw_store w)) rid = Some r \<longrightarrow>
          rb_run_id r = rid \<and> rebuild_faithful (log (pw_events w)) (defs (rb_key r)) r)"

lemma faithfulD:
  assumes "faithful log I defs w"
  shows "I (pw_events w)"
    "dict_get (prs_states (pw_store w)) key = Some ps \<Longrightarrow> state_faithful (log (pw_events w)) (defs key) ps"
    "dict_get (prs_rebuilds (pw_store w)) rid = Some r \<Longrightarrow> rb_run_id r = rid"
    "dict_get (prs_rebuilds (pw_store w)) rid = Some r \<Longrightarrow> rebuild_faithful (log (pw_events w)) (defs (rb_key r)) r"
  using assms unfolding faithful_def by blast+

lemma state_faithful_extend: "state_faithful log d ps \<Longrightarrow> state_faithful (log @ new) d ps"
  by (auto simp: state_faithful_def replay_extend)

lemma rebuild_faithful_extend: "rebuild_faithful log d r \<Longrightarrow> rebuild_faithful (log @ new) d r"
  by (auto simp: rebuild_faithful_def replay_extend)

lemma faithful_put_state:
  "faithful log I defs w \<Longrightarrow> state_faithful (log (pw_events w)) (defs key) ps \<Longrightarrow>
     faithful log I defs (w\<lparr>pw_store := (pw_store w)\<lparr>prs_states := dict_set key ps (prs_states (pw_store w))\<rparr>\<rparr>)"
  by (auto simp: faithful_def dict_simps)

lemma faithful_put_rebuild:
  "faithful log I defs w \<Longrightarrow> rb_run_id r = rid \<Longrightarrow> rebuild_faithful (log (pw_events w)) (defs (rb_key r)) r \<Longrightarrow>
     faithful log I defs (w\<lparr>pw_store := (pw_store w)\<lparr>prs_rebuilds := dict_set rid r (prs_rebuilds (pw_store w))\<rparr>\<rparr>)"
  by (auto simp: faithful_def dict_simps)

lemma mk_projection_state_Inr:
  "mk_projection_state key v c st = Inr ps \<Longrightarrow> ps = \<lparr>ps_key = key, ps_version = v, ps_checkpoint = c, ps_state = st\<rparr> \<and> 0 \<le> c"
  by (auto simp: mk_projection_state_def and_then_eq_Inr split: if_splits)

text \<open>The write of the runtime: any replayed state may be stored.\<close>

lemma apply_keeps_faithful:
  assumes f: "faithful log I defs w" and st: "replay (defs key) (log (pw_events w)) c' = Inr st"
    and c': "c' = (if es = [] then c else se_global_position (last es))" "c' \<le> int (length (log (pw_events w)))"
    and call: "on_store (projection_apply key c (pd_version (defs key)) st es) w = (r, w')"
  shows "faithful log I defs w'"
    "r = Inr (ProjectionApplied ps n) \<Longrightarrow> dict_get (prs_states (pw_store w')) key = Some ps
       \<and> ps = \<lparr>ps_key = key, ps_version = pd_version (defs key), ps_checkpoint = c', ps_state = st\<rparr> \<and> n = int (length es)"
proof -
  have cases: "w' = w \<and> (\<forall>ps n. r \<noteq> Inr (ProjectionApplied ps n))
    \<or> (\<exists>ps. mk_projection_state key (pd_version (defs key)) c' st = Inr ps \<and> r = Inr (ProjectionApplied ps (int (length es)))
        \<and> w' = w\<lparr>pw_store := (pw_store w)\<lparr>prs_states := dict_set key ps (prs_states (pw_store w))\<rparr>\<rparr>)"
    using call c'(1) by (auto simp: on_store_def projection_apply_def Let_def split: sum.splits if_splits option.splits)
  have ok: "state_faithful (log (pw_events w)) (defs key) ps" if "mk_projection_state key (pd_version (defs key)) c' st = Inr ps" for ps
    using mk_projection_state_Inr [OF that] st c'(2) by (simp add: state_faithful_def)
  show "faithful log I defs w'" using cases f ok faithful_put_state [OF f] by auto
  show "dict_get (prs_states (pw_store w')) key = Some ps
       \<and> ps = \<lparr>ps_key = key, ps_version = pd_version (defs key), ps_checkpoint = c', ps_state = st\<rparr> \<and> n = int (length es)"
    if "r = Inr (ProjectionApplied ps n)"
    using cases that mk_projection_state_Inr by (auto simp: dict_simps)
qed

lemma check_rebuild_run_Inr: "check_rebuild_run r = Inr r' \<Longrightarrow> r' = r \<and> 0 \<le> rb_next_position r"
  by (auto simp: check_rebuild_run_def and_then_eq_Inr split: if_splits)

lemma advance_rebuild_cases:
  assumes "advance_rebuild rid c st next complete s = (r, s')"
  obtains (kept) "s' = s" "\<And>x. r \<noteq> Inr (Some x)"
  | (advanced) current adv where "dict_get (prs_rebuilds s) rid = Some current" "rb_next_position current = c"
      "adv = current\<lparr>rb_state := st, rb_next_position := next, rb_status := (if complete then COMPLETED else RUNNING)\<rparr>"
      "check_rebuild_run adv = Inr adv" "c \<le> next" "complete = (next = rb_through_position current)"
      "complete \<longrightarrow> \<not> superseded current next s" "r = Inr (Some adv)"
      "s' = s\<lparr>prs_rebuilds := dict_set rid adv (prs_rebuilds s),
             prs_states := (if complete
                then dict_set (rb_key current) \<lparr>ps_key = rb_key current, ps_version = rb_projection_version current,
                       ps_checkpoint = next, ps_state = st\<rparr> (prs_states s) else prs_states s)\<rparr>"
proof (cases "\<exists>x. r = Inr (Some x)")
  case True
  then obtain adv where adv: "r = Inr (Some adv)" by blast
  then obtain current where current: "dict_get (prs_rebuilds s) rid = Some current" "rb_next_position current = c"
      "c \<le> next" "complete = (next = rb_through_position current)" "complete \<longrightarrow> \<not> superseded current next s"
      "check_rebuild_run (current\<lparr>rb_state := st, rb_next_position := next,
         rb_status := (if complete then COMPLETED else RUNNING)\<rparr>) = Inr adv"
    using assms by (auto simp: advance_rebuild_def Let_def split: sum.splits option.splits if_splits)
  note ok = check_rebuild_run_Inr [OF current(6)]
  have "s' = s\<lparr>prs_rebuilds := dict_set rid adv (prs_rebuilds s),
      prs_states := (if complete
         then dict_set (rb_key current) \<lparr>ps_key = rb_key current, ps_version = rb_projection_version current,
                ps_checkpoint = next, ps_state = st\<rparr> (prs_states s) else prs_states s)\<rparr>"
    using assms adv current
    by (auto simp: advance_rebuild_def Let_def split: sum.splits option.splits if_splits dest!: mk_projection_state_Inr)
  with current ok adv show thesis by (intro advanced) auto
next
  case False
  have "s' = s"
    using assms False
    by (auto simp: advance_rebuild_def Let_def check_rebuild_run_def mk_projection_state_def and_then_eq_Inr
        split: sum.splits option.splits if_splits)
  with False show thesis by (intro kept) auto
qed

lemma advance_keeps_faithful:
  assumes f: "faithful log I defs w"
    and same: "\<And>cur. dict_get (prs_rebuilds (pw_store w)) rid = Some cur \<Longrightarrow>
        rb_key cur = key \<and> rb_projection_version cur = pd_version (defs key)"
    and st: "replay (defs key) (log (pw_events w)) next = Inr st" "0 \<le> next" "next \<le> int (length (log (pw_events w)))"
    and call: "on_store (advance_rebuild rid c st next complete) w = (r, w')"
  shows "faithful log I defs w'"
proof -
  obtain s' where s': "advance_rebuild rid c st next complete (pw_store w) = (r, s')" "w' = w\<lparr>pw_store := s'\<rparr>"
    using call by (auto simp: on_store_def split: prod.splits)
  from s'(1) show ?thesis
  proof (cases rule: advance_rebuild_cases)
    case kept
    with s'(2) f show ?thesis by simp
  next
    case (advanced current adv)
    have id: "rb_key current = key" "rb_projection_version current = pd_version (defs key)" "rb_run_id current = rid"
      using same [OF advanced(1)] faithfulD(3) [OF f advanced(1)] by auto
    have adv: "rb_run_id adv = rid" "rebuild_faithful (log (pw_events w)) (defs (rb_key adv)) adv"
      using advanced(3,4) id st by (auto simp: rebuild_faithful_def)
    have ps: "state_faithful (log (pw_events w)) (defs key) \<lparr>ps_key = key, ps_version = rb_projection_version current,
        ps_checkpoint = next, ps_state = st\<rparr>"
      using st id by (simp add: state_faithful_def)
    show ?thesis
    proof (cases complete)
      case True
      with faithful_put_state [OF faithful_put_rebuild [OF f adv], of key] ps advanced(9) s'(2) id(1) show ?thesis by simp
    next
      case False
      with faithful_put_rebuild [OF f adv] advanced(9) s'(2) show ?thesis by simp
    qed
  qed
qed

section \<open>The runtime over any event log\<close>

text \<open>
  What other clients may do between two calls: keep the states faithful, append to the
  log, and start or advance rebuilds; a rebuild keeps its projection, version, watermark
  and batch size.
\<close>

definition same_rebuilds :: "projection_store \<Rightarrow> projection_store \<Rightarrow> bool" where
  "same_rebuilds s s' \<longleftrightarrow> (\<forall>rid r. dict_get (prs_rebuilds s) rid = Some r \<longrightarrow>
     (\<exists>r'. dict_get (prs_rebuilds s') rid = Some r' \<and> rb_key r' = rb_key r
       \<and> rb_projection_version r' = rb_projection_version r \<and> rb_through_position r' = rb_through_position r
       \<and> rb_batch_size r' = rb_batch_size r))"

lemma same_rebuilds_refl [simp]: "same_rebuilds s s"
  by (simp add: same_rebuilds_def)

lemma same_rebuilds_trans:
  assumes "same_rebuilds s s'" and "same_rebuilds s' s''"
  shows "same_rebuilds s s''"
  unfolding same_rebuilds_def
proof (intro allI impI)
  fix rid r
  assume "dict_get (prs_rebuilds s) rid = Some r"
  with assms(1) obtain r' where r': "dict_get (prs_rebuilds s') rid = Some r'" "rb_key r' = rb_key r"
      "rb_projection_version r' = rb_projection_version r" "rb_through_position r' = rb_through_position r"
      "rb_batch_size r' = rb_batch_size r"
    by (auto simp: same_rebuilds_def)
  from assms(2) r'(1) obtain r'' where "dict_get (prs_rebuilds s'') rid = Some r''" "rb_key r'' = rb_key r'"
      "rb_projection_version r'' = rb_projection_version r'" "rb_through_position r'' = rb_through_position r'"
      "rb_batch_size r'' = rb_batch_size r'"
    unfolding same_rebuilds_def by blast
  with r' show "\<exists>r''. dict_get (prs_rebuilds s'') rid = Some r'' \<and> rb_key r'' = rb_key r
      \<and> rb_projection_version r'' = rb_projection_version r \<and> rb_through_position r'' = rb_through_position r
      \<and> rb_batch_size r'' = rb_batch_size r"
    by simp
qed

definition evolves ::
    "('s \<Rightarrow> stored_event list) \<Rightarrow> 's projection_world \<Rightarrow> 's projection_world \<Rightarrow> bool" where
  "evolves log w w' \<longleftrightarrow> (\<exists>new. log (pw_events w') = log (pw_events w) @ new) \<and> same_rebuilds (pw_store w) (pw_store w')"

lemma evolves_refl [simp]: "evolves log w w"
  by (simp add: evolves_def)

lemma evolves_trans: "evolves log w w' \<Longrightarrow> evolves log w' w'' \<Longrightarrow> evolves log w w''"
  by (auto simp: evolves_def intro: same_rebuilds_trans)

definition benign ::
    "('s \<Rightarrow> stored_event list) \<Rightarrow> ('s \<Rightarrow> bool) \<Rightarrow> (projection_key \<Rightarrow> projection_definition)
     \<Rightarrow> ('s projection_world \<Rightarrow> 's projection_world) \<Rightarrow> bool" where
  "benign log I defs f \<longleftrightarrow> (\<forall>w. faithful log I defs w \<longrightarrow> faithful log I defs (f w) \<and> evolves log w (f w))"

lemma benignD:
  assumes "benign log I defs f" and "faithful log I defs w"
  obtains new where "faithful log I defs (f w)" "log (pw_events (f w)) = log (pw_events w) @ new"
    "same_rebuilds (pw_store w) (pw_store (f w))" "evolves log w (f w)"
  using assms unfolding benign_def evolves_def by blast

lemma benign_id [simp]: "benign log I defs (\<lambda>w. w)"
  by (simp add: benign_def)

lemma apply_keeps_rebuilds: "prs_rebuilds (snd (projection_apply key c v st es s)) = prs_rebuilds s"
  by (simp add: projection_apply_def Let_def split: sum.split option.split)

lemma apply_evolves: "evolves log w (snd (on_store (projection_apply key c v st es) w))"
  using apply_keeps_rebuilds [of key c v st es "pw_store w"]
  by (auto simp: on_store_def evolves_def same_rebuilds_def split: prod.split)

lemma advance_evolves: "evolves log w (snd (on_store (advance_rebuild rid c st next complete) w))"
proof -
  obtain r s' where s': "advance_rebuild rid c st next complete (pw_store w) = (r, s')" by fastforce
  then have "same_rebuilds (pw_store w) s'"
    by (cases rule: advance_rebuild_cases) (auto simp: same_rebuilds_def dict_simps)
  with s' show ?thesis by (auto simp: on_store_def evolves_def)
qed

context event_log
begin

lemma page_cases:
  assumes "inv s"
  obtains (error) e where "read_all_op port c k s = (Inl e, s)"
  | (read) pg where "read_all_op port c k s = (Inr pg, s)" "pg_events pg = take (nat k) (drop (nat c) (log s))" "0 \<le> c" "1 \<le> k"
proof (cases "0 \<le> c \<and> 1 \<le> k \<and> k \<le> page_limit s")
  case True
  then show thesis using page [OF assms] that(2) by auto
next
  case False
  then show thesis using page_error that(1) by blast
qed

lemma slice_position:
  assumes "inv s" and "take k (drop (nat c) (log s)) \<noteq> []" and "0 \<le> c"
  shows "se_global_position (last (take k (drop (nat c) (log s)))) = c + int (length (take k (drop (nat c) (log s))))"
proof -
  let ?es = "take k (drop (nat c) (log s))"
  have "last ?es = log s ! (nat c + (length ?es - 1))" "nat c + (length ?es - 1) < length (log s)"
    using assms(2) by (auto simp: last_conv_nth)
  with positions [OF assms(1)] have "se_global_position (last ?es) = int (nat c + (length ?es - 1)) + 1" by simp
  moreover have "0 < length ?es" using assms(2) by blast
  ultimately show ?thesis using assms(3) by (simp del: length_take)
qed

lemma slice_end: "0 \<le> c \<Longrightarrow> c \<le> int (length (log s)) \<Longrightarrow>
    c + int (length (take k (drop (nat c) (log s)))) \<le> int (length (log s))"
  by auto

text \<open>Reading and reducing the next page of a replayed state gives a replayed state.\<close>

lemma reduced_slice:
  assumes "inv s" and "replay d (log s) c = Inr st" and "0 \<le> c" "c \<le> int (length (log s))"
    and "reduce_events d st (take k (drop (nat c) (log s))) = Inr st'"
    and "c' = (if take k (drop (nat c) (log s)) = [] then c else se_global_position (last (take k (drop (nat c) (log s)))))"
  shows "replay d (log s) c' = Inr st'" "c \<le> c'" "c' \<le> int (length (log s))"
proof -
  let ?es = "take k (drop (nat c) (log s))"
  have c': "c' = c + int (length ?es)"
    using assms(6) slice_position [OF assms(1) _ assms(3), of k] by (cases "?es = []") (auto simp del: length_take)
  show "replay d (log s) c' = Inr st'" unfolding c' by (rule replay_slice [OF assms(2,5,3,4)])
  show "c \<le> c'" "c' \<le> int (length (log s))" unfolding c' using slice_end [OF assms(3,4)] by (simp_all del: length_take)
qed

lemma project_once_faithful:
  assumes f: "faithful log inv defs w" and others: "\<And>i. benign log inv defs (others i)"
    and call: "project_once port others key (defs key) limit w = (r, w')"
  shows "faithful log inv defs w'"
    and "r = Inr (ProjectionApplied ps n) \<Longrightarrow> dict_get (prs_states (pw_store w')) key = Some ps
      \<and> ps_version ps = pd_version (defs key) \<and> replay (defs key) (log (pw_events w')) (ps_checkpoint ps) = Inr (ps_state ps)"
proof -
  let ?d = "defs key" and ?w0 = "others 0 w"
  let ?cur = "dict_get (prs_states (pw_store ?w0)) key"
  let ?c = "case ?cur of None \<Rightarrow> 0 | Some c \<Rightarrow> ps_checkpoint c"
  let ?st = "case ?cur of None \<Rightarrow> pd_initial_state ?d | Some c \<Rightarrow> ps_state c"
  let ?Q = "faithful log inv defs w' \<and> (\<forall>ps n. r = Inr (ProjectionApplied ps n) \<longrightarrow>
      dict_get (prs_states (pw_store w')) key = Some ps \<and> ps_version ps = pd_version ?d
      \<and> replay ?d (log (pw_events w')) (ps_checkpoint ps) = Inr (ps_state ps))"
  have f0: "faithful log inv defs ?w0" by (rule benignD [OF others f])
  obtain new1 where w1: "faithful log inv defs (others 1 ?w0)" "log (pw_events (others 1 ?w0)) = log (pw_events ?w0) @ new1"
    by (rule benignD [OF others f0])
  let ?w1 = "others 1 ?w0"
  obtain new2 where w2: "faithful log inv defs (others 2 ?w1)" "log (pw_events (others 2 ?w1)) = log (pw_events ?w1) @ new2"
    by (rule benignD [OF others w1(1)])
  have same [simp]: "w\<lparr>pw_store := pw_store w\<rparr> = w" "w\<lparr>pw_events := pw_events w\<rparr> = w" for w :: "'a projection_world"
    by simp_all
  have ?Q
  proof (cases "case ?cur of None \<Rightarrow> False | Some c \<Rightarrow> ps_version c \<noteq> pd_version ?d")
    case True
    with call f0 show ?thesis
      by (auto simp: project_once_def sbind_def on_store_def projection_load_def Let_def)
  next
    case False
    have start: "replay ?d (log (pw_events ?w0)) ?c = Inr ?st" "0 \<le> ?c" "?c \<le> int (length (log (pw_events ?w0)))"
      using False faithfulD(2) [OF f0, of key]
      by (auto simp: state_faithful_def replay_def split: option.splits)
    then have start1: "replay ?d (log (pw_events ?w1)) ?c = Inr ?st" "?c \<le> int (length (log (pw_events ?w1)))"
      unfolding w1(2) by (simp_all add: replay_extend)
    note inv1 = faithfulD(1) [OF w1(1)]
    from inv1 show ?thesis
    proof (cases rule: page_cases [where c = ?c and k = limit])
      case (error e)
      with call False w1(1) show ?thesis
        by (auto simp: project_once_def sbind_def on_store_def on_events_def projection_load_def Let_def)
    next
      case (read pg)
      let ?es = "take (nat limit) (drop (nat ?c) (log (pw_events ?w1)))"
      show ?thesis
      proof (cases "reduce_events ?d ?st ?es")
        case (Inl e)
        with call False read w1(1) show ?thesis
          by (auto simp: project_once_def sbind_def on_store_def on_events_def projection_load_def Let_def)
      next
        case (Inr st')
        let ?c' = "if ?es = [] then ?c else se_global_position (last ?es)"
        have sl: "replay ?d (log (pw_events ?w1)) ?c' = Inr st'" "?c' \<le> int (length (log (pw_events ?w1)))"
          using reduced_slice [OF inv1 start1(1) start(2) start1(2) Inr refl] by auto
        have sl2: "replay ?d (log (pw_events (others 2 ?w1))) ?c' = Inr st'"
            "?c' \<le> int (length (log (pw_events (others 2 ?w1))))"
          unfolding w2(2) using sl by (simp_all add: replay_extend)
        have ap: "on_store (projection_apply key ?c (pd_version ?d) st' ?es) (others 2 ?w1) = (r, w')"
          using call False read Inr
          by (auto simp: project_once_def sbind_def on_store_def on_events_def projection_load_def Let_def)
        have ev: "pw_events w' = pw_events (others 2 ?w1)" using ap by (auto simp: on_store_def split: prod.splits)
        show ?thesis
          using apply_keeps_faithful [OF w2(1) sl2(1) refl sl2(2) ap] sl2(1) unfolding ev by auto
      qed
    qed
  qed
  then show "faithful log inv defs w'"
    "r = Inr (ProjectionApplied ps n) \<Longrightarrow> dict_get (prs_states (pw_store w')) key = Some ps
      \<and> ps_version ps = pd_version (defs key) \<and> replay (defs key) (log (pw_events w')) (ps_checkpoint ps) = Inr (ps_state ps)"
    by blast+
qed

lemma rebuild_progress_replay:
  assumes inv: "inv s" and rr: "rebuild_faithful (log s) d rr" "rb_projection_version rr = pd_version d"
    and pg: "rebuild_progress d rr (take k (drop (nat (rb_next_position rr)) (log s))) = Inr (st, next, complete)"
  shows "replay d (log s) next = Inr st" "0 \<le> next" "next \<le> int (length (log s))"
proof -
  let ?c = "rb_next_position rr" and ?t = "rb_through_position rr"
  let ?sel = "take (min (nat (?t - ?c)) k) (drop (nat ?c) (log s))"
  have st: "0 \<le> ?c" "replay d (log s) ?c = Inr (rb_state rr)" "?c \<le> int (length (log s))"
    using rr check_rebuild_run_Inr by (auto simp: rebuild_faithful_def)
  have "filter (\<lambda>e. se_global_position e \<le> ?t) (take k (drop (nat ?c) (log s))) = ?sel"
    by (subst filter_upto [where n = ?c]) (use positions [OF inv] st(1) in \<open>auto simp: min.commute\<close>)
  with pg have sel: "reduce_events d (rb_state rr) ?sel = Inr st"
      "next = (if ?sel = [] then ?c else se_global_position (last ?sel))"
    by (auto simp: rebuild_progress_def Let_def and_then_eq_Inr split: if_splits)
  from reduced_slice [OF inv st(2,1,3) sel]
  show "replay d (log s) next = Inr st" "0 \<le> next" "next \<le> int (length (log s))" using st(1) by linarith+
qed

lemma resume_rebuild_faithful:
  assumes f: "faithful log inv defs w" and others: "\<And>i. benign log inv defs (others i)"
    and run: "dict_get (prs_rebuilds (pw_store w)) rid = Some r0"
    and call: "resume_rebuild port others rid (defs (rb_key r0)) w = (r, w')"
  shows "faithful log inv defs w'"
proof -
  let ?d = "defs (rb_key r0)" and ?w0 = "others 0 w"
  have w0: "faithful log inv defs ?w0" "same_rebuilds (pw_store w) (pw_store ?w0)"
    using benignD [OF others f, of 0] by metis+
  then obtain rr where rr: "dict_get (prs_rebuilds (pw_store ?w0)) rid = Some rr" "rb_key rr = rb_key r0"
    using run by (fastforce simp: same_rebuilds_def)
  define w1 where "w1 = others 1 ?w0"
  obtain new1 where w1: "faithful log inv defs w1" "log (pw_events w1) = log (pw_events ?w0) @ new1"
      "same_rebuilds (pw_store ?w0) (pw_store w1)"
    unfolding w1_def by (rule benignD [OF others w0(1)])
  define w2 where "w2 = others 2 w1"
  obtain new2 where w2: "faithful log inv defs w2" "log (pw_events w2) = log (pw_events w1) @ new2"
      "same_rebuilds (pw_store w1) (pw_store w2)"
    unfolding w2_def by (rule benignD [OF others w1(1)])
  have o: "others (Suc 0) ?w0 = w1" "others 2 w1 = w2" by (simp_all add: w1_def w2_def)
  have load: "on_store (load_rebuild rid) ?w0 = (Inr (Some rr), ?w0)" by (simp add: on_store_def load_rebuild_def rr(1))
  show ?thesis
  proof (cases "rb_projection_version rr \<noteq> pd_version ?d \<or> rb_status rr = COMPLETED")
    case True
    with call load w0(1) show ?thesis by (auto simp: resume_rebuild_def sbind_def split: if_splits)
  next
    case go: False
    have ok: "rebuild_faithful (log (pw_events w1)) ?d rr"
      unfolding w1(2) using faithfulD(4) [OF w0(1) rr(1)] rr(2) by (simp add: rebuild_faithful_extend)
    note inv1 = faithfulD(1) [OF w1(1)]
    from inv1 show ?thesis
    proof (cases rule: page_cases [where c = "rb_next_position rr" and k = "rb_batch_size rr"])
      case (error e)
      with call load go w1(1) show ?thesis
        by (auto simp: resume_rebuild_def sbind_def on_events_def o)
    next
      case (read pg)
      then have page: "on_events (read_all_op port (rb_next_position rr) (rb_batch_size rr)) w1 = (Inr pg, w1)"
        by (simp add: on_events_def)
      show ?thesis
      proof (cases "rebuild_progress ?d rr (pg_events pg)")
        case (Inl e)
        with call load go page w1(1) show ?thesis by (auto simp: resume_rebuild_def sbind_def o)
      next
        case (Inr x)
        then obtain st nx complete where x: "rebuild_progress ?d rr (pg_events pg) = Inr (st, nx, complete)"
          by (cases x) auto
        have sl: "replay ?d (log (pw_events w2)) nx = Inr st" "0 \<le> nx" "nx \<le> int (length (log (pw_events w2)))"
          using rebuild_progress_replay [OF inv1 ok _ x [unfolded read(2)]] go unfolding w2(2)
          by (auto simp: replay_extend)
        have "same_rebuilds (pw_store ?w0) (pw_store w2)" by (rule same_rebuilds_trans [OF w1(3) w2(3)])
        then have run2: "rb_key cur = rb_key r0 \<and> rb_projection_version cur = pd_version ?d"
          if "dict_get (prs_rebuilds (pw_store w2)) rid = Some cur" for cur
          using that rr go by (fastforce simp: same_rebuilds_def)
        obtain y w3 where adv: "on_store (advance_rebuild rid (rb_next_position rr) st nx complete) w2 = (y, w3)"
          by fastforce
        have "w' = w3"
          using call load go page x adv
          by (auto simp: resume_rebuild_def sbind_def o split: sum.splits option.splits)
        with advance_keeps_faithful [OF w2(1) run2 sl adv] show ?thesis by simp
      qed
    qed
  qed
qed

end

section \<open>Runs of the runtime\<close>

text \<open>
  \<open>defs\<close> is the application's table of projection definitions.  A rebuild starts at
  position zero with the initial state and the version of its projection, and is resumed
  with the definition of its projection.
\<close>

datatype runtime_call = Project projection_key int | Begin rebuild_run | Resume string | Events event_call

datatype runtime_reply =
    ProjectReply "projection_apply_result res" | BeginReply "bool res" | ResumeReply "rebuild_run res"
  | EventsReply event_reply

definition run_definition ::
    "(projection_key \<Rightarrow> projection_definition) \<Rightarrow> string \<Rightarrow> 's projection_world \<Rightarrow> projection_definition" where
  "run_definition defs rid w =
     defs (case dict_get (prs_rebuilds (pw_store w)) rid of None \<Rightarrow> ProjectionKey [] [] | Some r \<Rightarrow> rb_key r)"

fun runtime_step ::
    "(projection_key \<Rightarrow> projection_definition) \<Rightarrow> runtime_call \<Rightarrow> event_store projection_world
     \<Rightarrow> runtime_reply \<times> event_store projection_world" where
  "runtime_step defs (Project key limit) w =
     apfst ProjectReply (project_once mem_event_port (\<lambda>_ w. w) key (defs key) limit w)"
| "runtime_step defs (Begin r) w = apfst BeginReply (on_store (begin_rebuild r) w)"
| "runtime_step defs (Resume rid) w =
     apfst ResumeReply (resume_rebuild mem_event_port (\<lambda>_ w. w) rid (run_definition defs rid w) w)"
| "runtime_step defs (Events c) w = (EventsReply (fst (event_step c (pw_events w))), w\<lparr>pw_events := snd (event_step c (pw_events w))\<rparr>)"

fun call_ok :: "(projection_key \<Rightarrow> projection_definition) \<Rightarrow> runtime_call \<Rightarrow> bool" where
  "call_ok defs (Begin r) \<longleftrightarrow> check_rebuild_run r = Inr r \<and> rb_next_position r = 0
     \<and> rb_state r = pd_initial_state (defs (rb_key r)) \<and> rb_projection_version r = pd_version (defs (rb_key r))"
| "call_ok defs _ \<longleftrightarrow> True"

abbreviation faithful_mem ::
    "(projection_key \<Rightarrow> projection_definition) \<Rightarrow> event_store projection_world \<Rightarrow> bool" where
  "faithful_mem defs w \<equiv> faithful evs_all event_inv defs w"

lemma on_events_read:
  "on_events (read_all_op mem_event_port c k) w = (fst (read_all c k (pw_events w)), w)"
  by (cases "read_all c k (pw_events w)") (use reads_keep(2) [of c k "pw_events w"] in \<open>simp add: on_events_def mem_event_port_def\<close>)

lemma on_store_reads:
  "on_store (projection_load key) w = (Inr (dict_get (prs_states (pw_store w)) key), w)"
  "on_store (load_rebuild rid) w = (Inr (dict_get (prs_rebuilds (pw_store w)) rid), w)"
  by (simp_all add: on_store_def projection_load_def load_rebuild_def)

lemma project_once_evolves: "evolves evs_all w (snd (project_once mem_event_port (\<lambda>_ w. w) key d limit w))"
  by (simp add: project_once_def sbind_def on_store_reads on_events_read Let_def apply_evolves
      split: prod.split sum.split)

lemma resume_rebuild_evolves: "evolves evs_all w (snd (resume_rebuild mem_event_port (\<lambda>_ w. w) rid d w))"
proof -
  have "evolves evs_all w w'" if "on_store (advance_rebuild rid c st nx complete) w = (x, w')" for c st nx complete x w'
    using advance_evolves [of evs_all w rid c st nx complete] that by simp
  then show ?thesis
    by (auto simp: resume_rebuild_def sbind_def on_store_reads on_events_read split: prod.splits sum.splits option.splits)
qed

lemma runtime_step_keeps:
  assumes f: "faithful_mem defs w" and ok: "call_ok defs c"
  shows "faithful_mem defs (snd (runtime_step defs c w)) \<and> evolves evs_all w (snd (runtime_step defs c w))"
proof (cases c)
  case (Project key limit)
  with mem_events.project_once_faithful(1) [OF f, of "\<lambda>_ w. w" key limit]
    project_once_evolves [of w key "defs key" limit] show ?thesis
    by (cases "project_once mem_event_port (\<lambda>_ w. w) key (defs key) limit w") auto
next
  case (Begin r)
  with ok have "rebuild_faithful (evs_all (pw_events w)) (defs (rb_key r)) r"
    by (simp add: rebuild_faithful_def replay_def)
  with faithful_put_rebuild [OF f] Begin f show ?thesis
    by (auto simp: on_store_def begin_rebuild_def evolves_def same_rebuilds_def dict_simps)
next
  case (Resume rid)
  show ?thesis
  proof (cases "dict_get (prs_rebuilds (pw_store w)) rid")
    case None
    with Resume f show ?thesis by (simp add: resume_rebuild_def sbind_def on_store_reads)
  next
    case (Some r)
    with Resume mem_events.resume_rebuild_faithful [OF f, of "\<lambda>_ w. w" rid r]
      resume_rebuild_evolves [of w rid "run_definition defs rid w"]
    show ?thesis
      by (cases "resume_rebuild mem_event_port (\<lambda>_ w. w) rid (defs (rb_key r)) w") (auto simp: run_definition_def)
  qed
next
  case (Events e)
  have inv: "event_inv (snd (event_step e (pw_events w)))"
    using faithfulD(1) [OF f] by (rule event_machine.inv_step) simp
  obtain new where new: "evs_all (snd (event_step e (pw_events w))) = evs_all (pw_events w) @ new"
    using extends_step [OF extends_refl [of "pw_events w"], of e] by (auto simp: extends_def)
  with Events inv faithfulD [OF f] show ?thesis
    by (auto simp: faithful_def evolves_def intro: state_faithful_extend rebuild_faithful_extend)
qed

interpretation runtime_machine: guarded_machine "runtime_step defs"
    "\<lambda>w. faithful_mem defs w \<and> evolves evs_all w0 w" "\<lambda>c _. call_ok defs c"
  for defs w0
  by unfold_locales (use runtime_step_keeps evolves_trans in blast)

lemma guarded_list_all: "list_all P cs \<Longrightarrow> guarded (\<lambda>c _. P c) step cs s"
  by (induction cs arbitrary: s) auto

lemma schedule_benign:
  assumes "list_all (call_ok defs) cs"
  shows "benign evs_all event_inv defs (\<lambda>w. snd (run (runtime_step defs) cs w))"
  unfolding benign_def
  using runtime_machine.run_inv [OF _ guarded_list_all [OF assms]] by (metis evolves_refl)

section \<open>Properties\<close>

text \<open>C25.  A projection is the replay of the log: after any calls of the runtime and of the event store on
  new stores, and with any such calls in between the load, the read and the write of one more
  projection round, every stored state of its projection's current version is exactly the result of
  reducing the first \<open>checkpoint\<close> events of the log from the initial state, in order and each once.\<close>

theorem projection_is_replay_of_log:
  assumes new: "InMemoryEventStore cap page_size = Inr es" "InMemoryProjectionStore cap' = Inr ps"
    and calls: "list_all (call_ok defs) cs" "\<And>i. list_all (call_ok defs) (schedule i)"
    and w: "w = snd (run (runtime_step defs) cs \<lparr>pw_store = ps, pw_events = es\<rparr>)"
    and round: "project_once mem_event_port (\<lambda>i w. snd (run (runtime_step defs) (schedule i) w)) key (defs key) limit w = (r, w')"
    and stored: "dict_get (prs_states (pw_store w')) key' = Some st" "ps_version st = pd_version (defs key')"
  shows "0 \<le> ps_checkpoint st \<and> ps_checkpoint st \<le> int (length (evs_all (pw_events w')))
    \<and> replay (defs key') (evs_all (pw_events w')) (ps_checkpoint st) = Inr (ps_state st)"
proof -
  have "faithful_mem defs \<lparr>pw_store = ps, pw_events = es\<rparr>"
    using new by (auto simp: faithful_def InMemoryProjectionStore_def InMemoryEventStore_def event_inv_def
        stream_events_def split: if_splits)
  then have "faithful_mem defs w"
    unfolding w using runtime_machine.run_inv [OF _ guarded_list_all [OF calls(1)]] by (metis evolves_refl)
  from mem_events.project_once_faithful(1) [OF this schedule_benign [OF calls(2)] round]
  have "state_faithful (evs_all (pw_events w')) (defs key') st" using stored(1) by (rule faithfulD(2))
  with stored(2) show ?thesis by (simp add: state_faithful_def)
qed

definition count_definition :: projection_definition where
  "count_definition = \<lparr>pd_version = 1, pd_initial_state = JInt 0,
     pd_reduce = (\<lambda>st e. case st of JInt n \<Rightarrow> Inr (JInt (n + 1)) | _ \<Rightarrow> Inl TypeError)\<rparr>"

definition empty_world :: "event_store projection_world" where
  "empty_world = \<lparr>pw_store = \<lparr>prs_capacity = 4, prs_states = [], prs_rebuilds = []\<rparr>, pw_events = new_events_store\<rparr>"

lemma validate_JInt [simp]: "validate_json (JInt n) = Inr ()"
  by (simp add: validate_json_def validate_json_with_def enter_def default_limits_def)

lemmas projection_eval = project_once_def sbind_def on_store_def projection_load_def on_events_def mem_event_port_def
  read_all_def page_arguments_def mk_page_def projection_apply_def mk_projection_state_def Let_def

theorem projection_is_replay_of_log_witness:
  "replay count_definition (evs_all (pw_events (snd (project_once mem_event_port
      (\<lambda>i w. snd (run (runtime_step (\<lambda>_. count_definition)) [] w)) (ProjectionKey ''p'' ''0'') count_definition 2
      (snd (run (runtime_step (\<lambda>_. count_definition)) [Events (Append (StreamId ''c'' ''1'') 0 [sample_event ''a''])]
        empty_world)))))) 1 = Inr (JInt 1)"
proof -
  let ?w = "snd (run (runtime_step (\<lambda>_. count_definition)) [Events (Append (StreamId ''c'' ''1'') 0 [sample_event ''a''])] empty_world)"
  let ?call = "project_once mem_event_port (\<lambda>i w. snd (run (runtime_step (\<lambda>_. count_definition)) [] w))
      (ProjectionKey ''p'' ''0'') count_definition 2 ?w"
  have new: "InMemoryEventStore 9 2 = Inr (pw_events empty_world)" "InMemoryProjectionStore 4 = Inr (pw_store empty_world)"
    by (simp_all add: InMemoryEventStore_def InMemoryProjectionStore_def empty_world_def new_events_store_def)
  have st: "dict_get (prs_states (pw_store (snd ?call))) (ProjectionKey ''p'' ''0'')
      = Some \<lparr>ps_key = ProjectionKey ''p'' ''0'', ps_version = 1, ps_checkpoint = 1, ps_state = JInt 1\<rparr>"
    by (simp add: projection_eval empty_world_def new_events_store_def event_append_def stream_events_def
        sample_event_def mk_stored_event_def count_definition_def)
  have w: "\<lparr>pw_store = pw_store empty_world, pw_events = pw_events empty_world\<rparr> = empty_world" by simp
  have call: "?call = (fst ?call, snd ?call)" by simp
  from projection_is_replay_of_log [OF new, where defs = "\<lambda>_. count_definition" and schedule = "\<lambda>_. []"
      and cs = "[Events (Append (StreamId ''c'' ''1'') 0 [sample_event ''a''])]", unfolded w, OF _ _ refl call st]
  show ?thesis by (simp add: count_definition_def)
qed

section \<open>Rebuilds reach their watermark\<close>

text \<open>\<open>resume_rebuild\<close> called until it returns a completed run, at most \<open>n\<close> times.\<close>

fun resume_until ::
    "nat \<Rightarrow> string \<Rightarrow> projection_definition \<Rightarrow> (event_store projection_world, rebuild_run) act" where
  "resume_until 0 rid d = resume_rebuild mem_event_port (\<lambda>_ w. w) rid d"
| "resume_until (Suc n) rid d =
     sbind (resume_rebuild mem_event_port (\<lambda>_ w. w) rid d) (\<lambda>rr.
       if rb_status rr = COMPLETED then sreturn rr else resume_until n rid d)"

definition total_reducer :: "projection_definition \<Rightarrow> bool" where
  "total_reducer d \<longleftrightarrow> (\<forall>st e. \<exists>st'. pd_reduce d st e = Inr st' \<and> validate_json st' = Inr ())"

lemma total_reduce:
  assumes "total_reducer d" and "validate_json st = Inr ()"
  obtains st' where "reduce_events d st es = Inr st'" "validate_json st' = Inr ()"
proof -
  have "\<exists>st'. reduce_events d st es = Inr st' \<and> validate_json st' = Inr ()"
    using assms(2)
  proof (induction es arbitrary: st)
    case (Cons e es)
    from assms(1) obtain st1 where "pd_reduce d st e = Inr st1" "validate_json st1 = Inr ()"
      unfolding total_reducer_def by blast
    with Cons.IH show ?case by simp
  qed simp
  then show thesis using that by blast
qed

text \<open>The conditions under which a running rebuild can finish.\<close>

definition can_finish :: "projection_definition \<Rightarrow> string \<Rightarrow> rebuild_run \<Rightarrow> event_store projection_world \<Rightarrow> bool" where
  "can_finish d rid rr w \<longleftrightarrow> dict_get (prs_rebuilds (pw_store w)) rid = Some rr \<and> rb_status rr = RUNNING
     \<and> rb_projection_version rr = pd_version d \<and> rb_batch_size rr \<le> evs_max_page_size (pw_events w)
     \<and> rb_through_position rr \<le> int (length (evs_all (pw_events w)))
     \<and> \<not> superseded rr (rb_through_position rr) (pw_store w)"

lemma check_rebuild_runD:
  assumes "check_rebuild_run r = Inr r"
  shows "0 \<le> rb_next_position r" "rb_next_position r \<le> rb_through_position r" "0 < rb_batch_size r"
    "validate_json (rb_state r) = Inr ()" "rb_run_id r \<noteq> []" "0 < rb_projection_version r"
  using assms by (auto simp: check_rebuild_run_def and_then_eq_Inr split: if_splits)

lemma rebuild_progress_total:
  assumes inv: "event_inv s" and rr: "check_rebuild_run rr = Inr rr" and d: "total_reducer d"
    and t: "rb_through_position rr \<le> int (length (evs_all s))"
  obtains st where "rebuild_progress d rr (take (nat (rb_batch_size rr)) (drop (nat (rb_next_position rr)) (evs_all s))) =
      Inr (st, min (rb_next_position rr + rb_batch_size rr) (rb_through_position rr),
           rb_through_position rr \<le> rb_next_position rr + rb_batch_size rr)" "validate_json st = Inr ()"
proof -
  let ?c = "rb_next_position rr" and ?t = "rb_through_position rr" and ?b = "rb_batch_size rr"
  note ok = check_rebuild_runD [OF rr]
  let ?k = "min (nat (?t - ?c)) (nat ?b)"
  let ?sel = "take ?k (drop (nat ?c) (evs_all s))"
  have len: "length ?sel = ?k" using t ok by auto
  have sel: "filter (\<lambda>e. se_global_position e \<le> ?t) (take (nat ?b) (drop (nat ?c) (evs_all s))) = ?sel"
    by (subst filter_upto [where n = ?c]) (use mem_events.positions [OF inv] ok(1) in \<open>auto simp: min.commute\<close>)
  obtain st where st: "reduce_events d (rb_state rr) ?sel = Inr st" "validate_json st = Inr ()"
    by (rule total_reduce [OF d ok(4)])
  have nx: "(if ?sel = [] then ?c else se_global_position (last ?sel)) = min (?c + ?b) ?t"
  proof (cases "?sel = []")
    case True
    then have "?k = 0" using len by (metis list.size(3))
    with True ok show ?thesis by auto
  next
    case False
    with mem_events.slice_position [OF inv False ok(1)] ok show ?thesis by (simp only: len) (auto simp: min_def)
  qed
  have "?sel = [] \<Longrightarrow> ?c = ?t"
  proof -
    assume "?sel = []"
    then have "?k = 0" using len by (metis list.size(3))
    with ok show ?thesis by auto
  qed
  with nx st ok show thesis
    by (intro that [of st]) (auto simp: rebuild_progress_def sel Let_def)
qed

lemma resume_progress:
  assumes f: "faithful_mem defs w" and go: "can_finish d rid rr w" and d: "d = defs (rb_key rr)" "total_reducer d"
  obtains st rr' w' where "resume_rebuild mem_event_port (\<lambda>_ w. w) rid d w = (Inr rr', w')" "faithful_mem defs w'"
    "rr' = rr\<lparr>rb_state := st, rb_next_position := min (rb_next_position rr + rb_batch_size rr) (rb_through_position rr),
              rb_status := (if rb_through_position rr \<le> rb_next_position rr + rb_batch_size rr then COMPLETED else RUNNING)\<rparr>"
    "dict_get (prs_rebuilds (pw_store w')) rid = Some rr'" "pw_events w' = pw_events w"
    "prs_states (pw_store w') = (if rb_status rr' = COMPLETED
       then dict_set (rb_key rr) \<lparr>ps_key = rb_key rr, ps_version = pd_version d, ps_checkpoint = rb_through_position rr,
              ps_state = st\<rparr> (prs_states (pw_store w)) else prs_states (pw_store w))"
proof -
  let ?c = "rb_next_position rr" and ?t = "rb_through_position rr" and ?b = "rb_batch_size rr"
  let ?n = "min (?c + ?b) ?t" and ?done = "?t \<le> ?c + ?b"
  have g: "dict_get (prs_rebuilds (pw_store w)) rid = Some rr" "rb_status rr = RUNNING" "rb_projection_version rr = pd_version d"
      "?b \<le> evs_max_page_size (pw_events w)" "?t \<le> int (length (evs_all (pw_events w)))" "\<not> superseded rr ?t (pw_store w)"
    using go by (auto simp: can_finish_def)
  have rr: "check_rebuild_run rr = Inr rr" "rb_run_id rr = rid"
    using faithfulD(3,4) [OF f g(1)] by (auto simp: rebuild_faithful_def)
  note ok = check_rebuild_runD [OF rr(1)] and inv = faithfulD(1) [OF f]
  obtain st where st: "rebuild_progress d rr (take (nat ?b) (drop (nat ?c) (evs_all (pw_events w)))) = Inr (st, ?n, ?done)"
      "validate_json st = Inr ()"
    by (rule rebuild_progress_total [OF inv rr(1) d(2) g(5)])
  let ?rr = "rr\<lparr>rb_state := st, rb_next_position := ?n, rb_status := (if ?done then COMPLETED else RUNNING)\<rparr>"
  let ?s = "(pw_store w)\<lparr>prs_rebuilds := dict_set rid ?rr (prs_rebuilds (pw_store w)),
      prs_states := (if ?done then dict_set (rb_key rr) \<lparr>ps_key = rb_key rr, ps_version = pd_version d,
         ps_checkpoint = ?t, ps_state = st\<rparr> (prs_states (pw_store w)) else prs_states (pw_store w))\<rparr>"
  have chk: "check_rebuild_run ?rr = Inr ?rr" using ok st(2) by (auto simp: check_rebuild_run_def)
  have adv: "advance_rebuild rid ?c st ?n ?done (pw_store w) = (Inr (Some ?rr), ?s)"
    using g ok st(2) chk by (auto simp: advance_rebuild_def Let_def mk_projection_state_def min_def)
  have page: "read_all ?c ?b (pw_events w) =
      (Inr \<lparr>pg_events = take (nat ?b) (drop (nat ?c) (evs_all (pw_events w))),
            pg_next_position = (if length (evs_all (pw_events w)) \<le> nat ?c then ?c
                                else min (?c + ?b) (int (length (evs_all (pw_events w))))),
            pg_complete = (int (length (evs_all (pw_events w))) \<le> ?c + ?b)\<rparr>, pw_events w)"
    using ok g(4) by (intro read_all_page [OF inv]) auto
  have call: "resume_rebuild mem_event_port (\<lambda>_ w. w) rid d w = (Inr ?rr, w\<lparr>pw_store := ?s\<rparr>)"
    using g st(1) adv
    by (simp add: resume_rebuild_def sbind_def on_store_reads on_events_read page on_store_def [of "advance_rebuild rid ?c st ?n ?done"])
  have "faithful_mem defs (w\<lparr>pw_store := ?s\<rparr>)"
    using mem_events.resume_rebuild_faithful [OF f _ g(1), of "\<lambda>_ w. w"] call d(1) by simp
  with call show thesis
    by (intro that [of ?rr "w\<lparr>pw_store := ?s\<rparr>" st]) (simp_all add: dict_simps)
qed

lemma can_finish_step:
  assumes "can_finish d rid rr w" and "rr' = rr\<lparr>rb_state := st, rb_next_position := n, rb_status := RUNNING\<rparr>"
    and "dict_get (prs_rebuilds (pw_store w')) rid = Some rr'" "pw_events w' = pw_events w"
    "prs_states (pw_store w') = prs_states (pw_store w)"
  shows "can_finish d rid rr' w'"
  using assms by (simp add: can_finish_def superseded_def split: option.splits)

lemma resume_finishes:
  assumes f: "faithful_mem defs w" and go: "can_finish d rid rr w" and d: "d = defs (rb_key rr)" "total_reducer d"
  obtains (finished) rr1 w1 st where "resume_rebuild mem_event_port (\<lambda>_ w. w) rid d w = (Inr rr1, w1)"
      "rb_status rr1 = COMPLETED" "rb_next_position rr1 = rb_through_position rr"
      "dict_get (prs_states (pw_store w1)) (rb_key rr) = Some \<lparr>ps_key = rb_key rr, ps_version = pd_version d,
         ps_checkpoint = rb_through_position rr, ps_state = st\<rparr>"
      "replay d (evs_all (pw_events w)) (rb_through_position rr) = Inr st"
  | (continues) rr1 w1 where "resume_rebuild mem_event_port (\<lambda>_ w. w) rid d w = (Inr rr1, w1)"
      "rb_status rr1 = RUNNING" "faithful_mem defs w1" "can_finish d rid rr1 w1" "pw_events w1 = pw_events w"
      "rb_key rr1 = rb_key rr" "rb_through_position rr1 = rb_through_position rr"
      "rb_next_position rr < rb_next_position rr1" "rb_next_position rr < rb_through_position rr"
proof -
  let ?t = "rb_through_position rr" and ?c = "rb_next_position rr"
  obtain st rr1 w1 where r1: "resume_rebuild mem_event_port (\<lambda>_ w. w) rid d w = (Inr rr1, w1)" "faithful_mem defs w1"
    "rr1 = rr\<lparr>rb_state := st, rb_next_position := min (?c + rb_batch_size rr) ?t,
              rb_status := (if ?t \<le> ?c + rb_batch_size rr then COMPLETED else RUNNING)\<rparr>"
    "dict_get (prs_rebuilds (pw_store w1)) rid = Some rr1" "pw_events w1 = pw_events w"
    "prs_states (pw_store w1) = (if rb_status rr1 = COMPLETED
       then dict_set (rb_key rr) \<lparr>ps_key = rb_key rr, ps_version = pd_version d, ps_checkpoint = ?t, ps_state = st\<rparr>
              (prs_states (pw_store w)) else prs_states (pw_store w))"
    by (rule resume_progress [OF assms])
  show thesis
  proof (cases "?t \<le> ?c + rb_batch_size rr")
    case True
    have get: "dict_get (prs_states (pw_store w1)) (rb_key rr) =
        Some \<lparr>ps_key = rb_key rr, ps_version = pd_version d, ps_checkpoint = ?t, ps_state = st\<rparr>"
      using r1(3,6) True by (simp add: dict_simps)
    from faithfulD(2) [OF r1(2) get] d(1) have "replay d (evs_all (pw_events w)) ?t = Inr st"
      by (simp add: state_faithful_def r1(5))
    with r1(1,3) True get show thesis by (intro finished [of rr1 w1 st]) auto
  next
    case False
    have "0 < rb_batch_size rr"
      using faithfulD(4) [OF f, of rid rr] go check_rebuild_runD(3) by (simp add: can_finish_def rebuild_faithful_def)
    then have fields: "rb_status rr1 = RUNNING" "rb_key rr1 = rb_key rr" "rb_through_position rr1 = ?t"
        "?c < rb_next_position rr1" "?c < ?t"
      unfolding r1(3) using False by simp_all
    have "prs_states (pw_store w1) = prs_states (pw_store w)" using r1(6) fields(1) by simp
    moreover have "rr1 = rr\<lparr>rb_state := st, rb_next_position := min (?c + rb_batch_size rr) ?t, rb_status := RUNNING\<rparr>"
      using r1(3) False by simp
    ultimately have "can_finish d rid rr1 w1" using can_finish_step [OF go _ r1(4,5)] by blast
    with r1(1,2,5) fields show thesis by (intro continues [of rr1 w1])
  qed
qed

lemma resume_until_finishes:
  assumes "faithful_mem defs w" and "can_finish d rid rr w" and "d = defs (rb_key rr)" and "total_reducer d"
    and "rb_through_position rr - rb_next_position rr \<le> int n"
  shows "\<exists>rr' w' st. resume_until n rid d w = (Inr rr', w') \<and> rb_status rr' = COMPLETED
    \<and> rb_next_position rr' = rb_through_position rr
    \<and> dict_get (prs_states (pw_store w')) (rb_key rr) = Some \<lparr>ps_key = rb_key rr, ps_version = pd_version d,
          ps_checkpoint = rb_through_position rr, ps_state = st\<rparr>
    \<and> replay d (evs_all (pw_events w)) (rb_through_position rr) = Inr st"
  using assms
proof (induction n arbitrary: rr w)
  case (0 rr w)
  from 0(1-4) show ?case
  proof (cases rule: resume_finishes)
    case finished
    then show ?thesis by auto
  next
    case continues
    with 0(5) show ?thesis by simp
  qed
next
  case (Suc n rr w)
  from Suc.prems(1-4) show ?case
  proof (cases rule: resume_finishes)
    case finished
    then show ?thesis by (auto simp: sbind_def)
  next
    case (continues rr1 w1)
    with Suc.prems(3,4,5) Suc.IH [OF continues(3,4)] show ?thesis by (auto simp: sbind_def)
  qed
qed

text \<open>C26.  A rebuild reaches its watermark: a running rebuild whose watermark the log covers, whose batch
  fits a page, whose reducer is total and which no newer state supersedes completes within as many
  resumptions as events are missing plus one, and the active projection is then the replay of the
  log up to the watermark, at the rebuild's version.\<close>

theorem rebuild_reaches_watermark:
  assumes "faithful_mem defs w" and "can_finish d rid rr w" and "d = defs (rb_key rr)" and "total_reducer d"
  shows "\<exists>rr' w' st. resume_until (nat (rb_through_position rr - rb_next_position rr)) rid d w = (Inr rr', w')
    \<and> rb_status rr' = COMPLETED \<and> rb_next_position rr' = rb_through_position rr
    \<and> dict_get (prs_states (pw_store w')) (rb_key rr) = Some \<lparr>ps_key = rb_key rr, ps_version = pd_version d,
          ps_checkpoint = rb_through_position rr, ps_state = st\<rparr>
    \<and> replay d (evs_all (pw_events w)) (rb_through_position rr) = Inr st"
  by (rule resume_until_finishes [OF assms]) simp

definition constant_definition :: projection_definition where
  "constant_definition = \<lparr>pd_version = 1, pd_initial_state = JInt 0, pd_reduce = (\<lambda>st e. Inr (JInt 5))\<rparr>"

definition sample_rebuild :: "string \<Rightarrow> projection_key \<Rightarrow> int \<Rightarrow> rebuild_run" where
  "sample_rebuild rid key t = \<lparr>rb_run_id = rid, rb_key = key, rb_projection_version = 1, rb_through_position = t,
     rb_batch_size = 2, rb_next_position = 0, rb_state = JInt 0, rb_status = RUNNING\<rparr>"

theorem rebuild_reaches_watermark_witness:
  "\<exists>rr' w'. resume_until 1 ''r'' constant_definition
     (snd (run (runtime_step (\<lambda>_. constant_definition))
        [Events (Append (StreamId ''c'' ''1'') 0 [sample_event ''a'']), Begin (sample_rebuild ''r'' (ProjectionKey ''p'' ''0'') 1)]
        empty_world)) = (Inr rr', w') \<and> rb_status rr' = COMPLETED"
proof -
  let ?defs = "\<lambda>_. constant_definition" and ?rr = "sample_rebuild ''r'' (ProjectionKey ''p'' ''0'') 1"
  let ?cs = "[Events (Append (StreamId ''c'' ''1'') 0 [sample_event ''a'']), Begin ?rr]"
  let ?w = "snd (run (runtime_step ?defs) ?cs empty_world)"
  have "faithful_mem ?defs empty_world"
    using new_events_store_inv by (simp add: faithful_def empty_world_def)
  moreover have "list_all (call_ok ?defs) ?cs"
    by (simp add: sample_rebuild_def constant_definition_def check_rebuild_run_def)
  ultimately have f: "faithful_mem ?defs ?w"
    using runtime_machine.run_inv [OF _ guarded_list_all] by (metis evolves_refl)
  have go: "can_finish constant_definition ''r'' ?rr ?w"
    by (simp add: can_finish_def superseded_def on_store_def begin_rebuild_def event_append_def stream_events_def
        mk_stored_event_def sample_event_def sample_rebuild_def empty_world_def new_events_store_def constant_definition_def)
  have "total_reducer constant_definition" by (simp add: total_reducer_def constant_definition_def)
  from rebuild_reaches_watermark [OF f go refl this] show ?thesis by (auto simp: sample_rebuild_def)
qed

text \<open>The capacity of the projection store does not bound its states: with capacity one, beginning a
  rebuild of one projection, applying another and completing the rebuild are all accepted, and the
  store then holds two states.\<close>

theorem completed_rebuild_exceeds_capacity:
  "(case InMemoryProjectionStore 1 of
      Inl _ \<Rightarrow> False
    | Inr s0 \<Rightarrow>
        let (b, s1) = begin_rebuild (sample_rebuild ''r'' (ProjectionKey ''a'' ''0'') 0) s0;
            (p, s2) = projection_apply (ProjectionKey ''b'' ''0'') 0 1 (JInt 0) [] s1;
            (a, s3) = advance_rebuild ''r'' 0 (JInt 0) 0 True s2 in
        b = Inr True \<and> (\<exists>st. p = Inr (ProjectionApplied st 0)) \<and> (\<exists>rr. a = Inr (Some rr))
        \<and> prs_capacity s3 = 1 \<and> length (prs_states s3) = 2 \<and> length (prs_rebuilds s3) = 1)"
  by (simp add: InMemoryProjectionStore_def begin_rebuild_def sample_rebuild_def projection_apply_def
      mk_projection_state_def advance_rebuild_def superseded_def check_rebuild_run_def Let_def)

end
