(* ===== verification/Claims.thy ===== *)
theory Claims
  imports Prelude
begin

text \<open>
  The claim loop that the process-timer store and the job store share: walk the items in
  claim order, skip those that cannot be claimed, mark the others until the limit is
  reached.  Marking an item writes it back under its key; it may raise after a partial
  write (the addition \<open>now + claim_ttl\<close> overflows after the token was increased), which ends
  the loop.
\<close>

datatype ('i, 'c) mark = Marked 'i 'c | MarkFailed exn 'i

fun claim_each ::
    "(nat \<Rightarrow> 'i \<Rightarrow> ('i, 'c) mark) \<Rightarrow> ('i \<Rightarrow> bool) \<Rightarrow> ('i \<Rightarrow> 'k) \<Rightarrow> int \<Rightarrow> 'i list \<Rightarrow> 'c list
     \<Rightarrow> ('k, 'i) dict \<Rightarrow> 'c list res \<times> ('k, 'i) dict" where
  "claim_each mark ok key limit [] claimed d = (Inr claimed, d)"
| "claim_each mark ok key limit (it # its) claimed d =
     (if limit \<le> int (length claimed) then (Inr claimed, d)
      else if \<not> ok it then claim_each mark ok key limit its claimed d
      else
        case mark (length claimed) it of
          MarkFailed e it' \<Rightarrow> (Inl e, dict_set (key it) it' d)
        | Marked it' c \<Rightarrow> claim_each mark ok key limit its (claimed @ [c]) (dict_set (key it) it' d))"

lemma claim_each_untouched:
  "k \<notin> key ` {i \<in> set its. ok i} \<Longrightarrow>
     dict_get (snd (claim_each mark ok key limit its claimed d)) k = dict_get d k"
proof (induction its arbitrary: claimed d)
  case (Cons i its)
  have k: "k \<notin> key ` {j \<in> set its. ok j}" using Cons.prems by auto
  show ?case
  proof (cases "ok i")
    case True
    then have "k \<noteq> key i" using Cons.prems by auto
    with True Cons.IH [OF k] show ?thesis by (simp add: dict_simps split: mark.split)
  next
    case False
    with Cons.IH [OF k] show ?thesis by simp
  qed
qed simp

lemma claim_each_item:
  assumes "distinct (map key its)" and "i \<in> set its" and "dict_get d (key i) = Some i"
    and "claim_each mark ok key limit its claimed d = (r, d')"
  obtains (same) "dict_get d' (key i) = Some i"
  | (marked) n i' c where "ok i" "mark n i = Marked i' c" "dict_get d' (key i) = Some i'" "\<And>cs. r = Inr cs \<Longrightarrow> c \<in> set cs"
  | (failed) n e i' where "ok i" "mark n i = MarkFailed e i'" "dict_get d' (key i) = Some i'" "r = Inl e"
proof -
  have kept: "claim_each mark ok key limit its claimed d = (Inr cs, d') \<Longrightarrow> set claimed \<subseteq> set cs" for its claimed d cs d'
  proof (induction its arbitrary: claimed d)
    case (Cons j its)
    then show ?case by (fastforce split: if_splits mark.splits)
  qed simp
  have "dict_get d' (key i) = Some i
    \<or> (\<exists>n i' c. ok i \<and> mark n i = Marked i' c \<and> dict_get d' (key i) = Some i' \<and> (\<forall>cs. r = Inr cs \<longrightarrow> c \<in> set cs))
    \<or> (\<exists>n e i'. ok i \<and> mark n i = MarkFailed e i' \<and> dict_get d' (key i) = Some i' \<and> r = Inl e)"
    using assms
  proof (induction its arbitrary: claimed d)
    case (Cons j its)
    show ?case
    proof (cases "limit \<le> int (length claimed) \<or> \<not> ok j")
      case True
      then consider "d' = d" | "claim_each mark ok key limit its claimed d = (r, d')" "i = j" "key j \<notin> key ` set its"
        | "claim_each mark ok key limit its claimed d = (r, d')" "i \<in> set its"
        using Cons.prems(1,2,4) by (auto split: if_splits)
      then show ?thesis
      proof cases
        case 2
        then have "key i \<notin> key ` {k \<in> set its. ok k}" by auto
        from claim_each_untouched [OF this, of mark limit claimed d] 2(1) Cons.prems(3) show ?thesis by simp
      next
        case 3
        with Cons show ?thesis by simp
      qed (use Cons.prems(3) in simp)
    next
      case go: False
      show ?thesis
      proof (cases "mark (length claimed) j")
        case (MarkFailed e j')
        with go Cons.prems show ?thesis by (cases "key i = key j") (auto simp: dict_simps image_iff)
      next
        case (Marked j' c)
        with go Cons.prems(4) have rest: "claim_each mark ok key limit its (claimed @ [c]) (dict_set (key j) j' d) = (r, d')"
          by simp
        show ?thesis
        proof (cases "key i = key j")
          case True
          then have ij: "i = j" using Cons.prems(1,2) by (auto simp: image_iff)
          have "key j \<notin> key ` {i \<in> set its. ok i}" using Cons.prems(1) by auto
          then have "dict_get d' (key j) = Some j'" using claim_each_untouched [of "key j" key its ok] rest
            by (metis dict_get_set snd_conv)
          with Marked go ij kept [of its "claimed @ [c]"] rest show ?thesis by fastforce
        next
          case False
          with Cons.IH [OF _ _ _ rest] Cons.prems show ?thesis by (auto simp: dict_simps)
        qed
      qed
    qed
  qed simp
  then show thesis using that by blast
qed

text \<open>The claims are those of the first \<open>limit\<close> claimable items, each once and in order.\<close>

lemma claim_each_claims:
  assumes "\<And>n i i' c. mark n i = Marked i' c \<Longrightarrow> ckey c = key i"
    and "claim_each mark ok key limit its claimed d = (Inr cs, d')"
  shows "map ckey cs = map ckey claimed @ map key (take (nat (limit - int (length claimed))) (filter ok its))"
  using assms(2)
proof (induction its arbitrary: claimed d)
  case (Cons i its)
  show ?case
  proof (cases "limit \<le> int (length claimed)")
    case False
    then have n: "nat (limit - int (length claimed)) = Suc (nat (limit - int (length claimed) - 1))" by simp
    show ?thesis
    proof (cases "ok i")
      case True
      with Cons.prems False obtain i' c where m: "mark (length claimed) i = Marked i' c"
          "claim_each mark ok key limit its (claimed @ [c]) (dict_set (key i) i' d) = (Inr cs, d')"
        by (auto split: mark.splits)
      from Cons.IH [OF m(2)] assms(1) [OF m(1)] n True show ?thesis by (simp add: algebra_simps)
    next
      case False
      with Cons \<open>\<not> limit \<le> int (length claimed)\<close> show ?thesis by simp
    qed
  qed (use Cons.prems in simp)
qed simp

lemma claim_each_from_items:
  assumes "distinct (map key its)" and "\<forall>i\<in>set its. dict_get d (key i) = Some i"
    and "claim_each mark ok key limit its claimed d = (Inr cs, d')" and "c \<in> set cs" "c \<notin> set claimed"
  obtains i n i' where "i \<in> set its" "ok i" "mark n i = Marked i' c" "dict_get d' (key i) = Some i'"
proof -
  have "\<exists>i n i'. i \<in> set its \<and> ok i \<and> mark n i = Marked i' c \<and> dict_get d' (key i) = Some i'"
    using assms
  proof (induction its arbitrary: claimed d)
    case (Cons j its)
    show ?case
    proof (cases "limit \<le> int (length claimed) \<or> \<not> ok j")
      case True
      with Cons.prems Cons.IH [of d claimed] show ?thesis by (auto split: if_splits)
    next
      case False
      with Cons.prems(3) obtain j' c' where m: "mark (length claimed) j = Marked j' c'"
          "claim_each mark ok key limit its (claimed @ [c']) (dict_set (key j) j' d) = (Inr cs, d')"
        by (auto split: mark.splits)
      show ?thesis
      proof (cases "c = c'")
        case True
        have "key j \<notin> key ` {i \<in> set its. ok i}" using Cons.prems(1) by auto
        then have "dict_get d' (key j) = Some j'" using claim_each_untouched [of "key j" key its ok] m(2)
          by (metis dict_get_set snd_conv)
        with m(1) True False show ?thesis by auto
      next
        case neq: False
        have "\<forall>i\<in>set its. dict_get (dict_set (key j) j' d) (key i) = Some i"
          using Cons.prems(1,2) by (auto simp: dict_simps image_iff)
        with Cons.IH [OF _ _ m(2) Cons.prems(4)] Cons.prems(1,5) neq show ?thesis by auto
      qed
    qed
  qed simp
  then show thesis using that by blast
qed

lemma claim_each_keys:
  "\<forall>i\<in>set its. dict_get d (key i) \<noteq> None \<Longrightarrow>
     map fst (snd (claim_each mark ok key limit its claimed d)) = map fst d"
proof (induction its arbitrary: claimed d)
  case (Cons i its)
  have upd: "map fst (dict_set (key i) i' d) = map fst d" for i'
    using Cons.prems by (auto simp: update_keys map_of_eq_None_iff)
  have "\<forall>j\<in>set its. dict_get (dict_set (key i) i' d) (key j) \<noteq> None" for i'
    using Cons.prems by (auto simp: dict_simps)
  with Cons upd show ?case by (simp split: mark.split)
qed simp

text \<open>The items of a dictionary in claim order.\<close>

definition claim_items :: "('i \<Rightarrow> 'o::linorder) \<Rightarrow> ('k, 'i) dict \<Rightarrow> 'i list" where
  "claim_items order d = sort_key order (map snd d)"

definition keyed :: "('i \<Rightarrow> 'k) \<Rightarrow> ('k, 'i) dict \<Rightarrow> bool" where
  "keyed key d \<longleftrightarrow> dict_ok d \<and> (\<forall>k i. dict_get d k = Some i \<longrightarrow> key i = k)"

lemma keyedD: "keyed key d \<Longrightarrow> dict_get d k = Some i \<Longrightarrow> key i = k"
  by (simp add: keyed_def)

lemma claim_items_keyed:
  assumes "keyed key d"
  shows "distinct (map key (claim_items order d))" "i \<in> set (claim_items order d) \<longleftrightarrow> dict_get d (key i) = Some i"
proof -
  have snd: "map key (map snd d) = map fst d"
    using assms by (auto simp: keyed_def dict_get_iff)
  have ok: "dict_ok d" using assms by (simp add: keyed_def)
  with snd have "distinct (map key (map snd d))" by metis
  then have "distinct (map snd d) \<and> inj_on key (set (map snd d))" by (simp only: distinct_map)
  then show "distinct (map key (claim_items order d))" by (simp add: claim_items_def distinct_map)
  show "i \<in> set (claim_items order d) \<longleftrightarrow> dict_get d (key i) = Some i"
    using assms ok by (auto simp: claim_items_def keyed_def dict_get_iff image_iff) force+
qed

end
