(* ===== verification/Processes.thy ===== *)
theory Processes
  imports Core Claims
begin

text \<open>
  Model of \<open>src/src/pytitect/processes.py\<close>: process-manager state with optimistic versions,
  effects and timers, the in-memory store, the registry of deciders and the runtime that
  handles one input.  Shown: the versions of a process form one sequence and decisions
  are recorded once, timers complete at most once and stale timer claims are fenced off,
  and the runtime commits a decision only against the state it was made from.
\<close>

section \<open>Data\<close>

datatype process_key = ProcessKey (prk_name: string) (prk_instance_id: string)

definition mk_process_key :: "string \<Rightarrow> string \<Rightarrow> process_key res" where
  "mk_process_key name iid = (if name = [] \<or> iid = [] then Inl ValueError else Inr (ProcessKey name iid))"

datatype process_status = RUNNING | COMPENSATING | COMPLETED | COMPENSATED | FAILED

datatype process_effect_kind = INTEGRATION_EVENT | COMMAND | TASK | COMPENSATION

record process_effect =
  pe_effect_id :: string
  pe_kind :: process_effect_kind
  pe_name :: string
  pe_payload :: json

definition mk_process_effect :: "string \<Rightarrow> process_effect_kind \<Rightarrow> string \<Rightarrow> json \<Rightarrow> process_effect res" where
  "mk_process_effect eid kind name payload =
     (if eid = [] \<or> name = [] then Inl ValueError
      else and_then (validate_json payload) (\<lambda>_.
        Inr \<lparr>pe_effect_id = eid, pe_kind = kind, pe_name = name, pe_payload = payload\<rparr>))"

record timer_schedule =
  ts_timer_id :: string
  ts_due_at :: instant
  ts_effect :: process_effect

definition mk_timer_schedule :: "string \<Rightarrow> datetime \<Rightarrow> process_effect \<Rightarrow> timer_schedule res" where
  "mk_timer_schedule tid due effect =
     (if tid = [] then Inl ValueError
      else and_then (require_aware_utc due) (\<lambda>t. Inr \<lparr>ts_timer_id = tid, ts_due_at = t, ts_effect = effect\<rparr>))"

record process_state =
  pst_key :: process_key
  pst_version :: int
  pst_status :: process_status
  pst_state :: json
  pst_updated_at :: instant

definition mk_process_state ::
    "process_key \<Rightarrow> int \<Rightarrow> process_status \<Rightarrow> json \<Rightarrow> instant \<Rightarrow> process_state res" where
  "mk_process_state key version status st t =
     (if version \<le> 0 then Inl ValueError
      else and_then (validate_json st) (\<lambda>_.
        Inr \<lparr>pst_key = key, pst_version = version, pst_status = status, pst_state = st, pst_updated_at = t\<rparr>))"

record process_decision =
  dc_state :: json
  dc_status :: process_status
  dc_effects :: "process_effect list"
  dc_schedule :: "timer_schedule list"
  dc_cancel_timers :: "string list"

definition check_process_decision :: "process_decision \<Rightarrow> process_decision res" where
  "check_process_decision d =
     and_then (validate_json (dc_state d)) (\<lambda>_.
       if \<not> distinct (map pe_effect_id (dc_effects d)) \<or> \<not> distinct (map ts_timer_id (dc_schedule d))
         then Inl ValueError
       else if set (map ts_timer_id (dc_schedule d)) \<inter> set (dc_cancel_timers d) \<noteq> {} then Inl ValueError
       else Inr d)"

datatype process_apply_result =
    ProcessApplied process_state int int int
  | StaleProcessVersion int int

record process_timer =
  pt_process :: process_key
  pt_timer_id :: string
  pt_due_at :: instant
  pt_effect :: process_effect
  pt_fencing_token :: int

record process_timer_claim =
  tc_timer :: process_timer
  tc_claim_id :: string
  tc_claimed_until :: instant

section \<open>The in-memory store\<close>

datatype timer_key = TimerKey process_key string

datatype effect_entry = EffectEntry process_key process_effect

record timer_entry =
  tm_value :: process_timer
  tm_terminal :: bool
  tm_claim_id :: "string option"
  tm_claimed_until :: "instant option"

record process_store =
  pms_capacity :: int
  pms_states :: "(process_key, process_state) dict"
  pms_timers :: "(timer_key, timer_entry) dict"
  pms_effects :: "(string, effect_entry) dict"

record 's process_port =
  load_op :: "process_key \<Rightarrow> ('s, process_state option) act"
  apply_op :: "process_key \<Rightarrow> int \<Rightarrow> process_decision \<Rightarrow> datetime \<Rightarrow> ('s, process_apply_result) act"
  claim_timers_op :: "datetime \<Rightarrow> int \<Rightarrow> timedelta \<Rightarrow> (nat \<Rightarrow> string) \<Rightarrow> ('s, process_timer_claim list) act"
  complete_timer_op :: "process_timer_claim \<Rightarrow> ('s, bool) act"

definition InMemoryProcessManagerStore :: "int \<Rightarrow> process_store res" where
  "InMemoryProcessManagerStore capacity =
     (if capacity \<le> 0 then Inl ValueError
      else Inr \<lparr>pms_capacity = capacity, pms_states = [], pms_timers = [], pms_effects = []\<rparr>)"

definition pending_effects :: "process_store \<Rightarrow> effect_entry list" where
  "pending_effects s = map snd (sort_key fst (pms_effects s))"

definition process_load :: "process_key \<Rightarrow> (process_store, process_state option) act" where
  "process_load key s = (Inr (dict_get (pms_states s) key), s)"

text \<open>The loop over \<open>cancel_timers\<close>, counting the timers it makes terminal.\<close>

fun cancel_timers ::
    "process_key \<Rightarrow> string list \<Rightarrow> int \<Rightarrow> (timer_key, timer_entry) dict \<Rightarrow> int \<times> (timer_key, timer_entry) dict" where
  "cancel_timers key [] n d = (n, d)"
| "cancel_timers key (tid # tids) n d =
     (case dict_get d (TimerKey key tid) of
        None \<Rightarrow> cancel_timers key tids n d
      | Some pending \<Rightarrow>
          if tm_terminal pending then cancel_timers key tids n d
          else cancel_timers key tids (n + 1) (dict_set (TimerKey key tid) (pending\<lparr>tm_terminal := True\<rparr>) d))"

definition new_timer :: "process_key \<Rightarrow> timer_schedule \<Rightarrow> timer_entry" where
  "new_timer key sch =
     \<lparr>tm_value = \<lparr>pt_process = key, pt_timer_id = ts_timer_id sch, pt_due_at = ts_due_at sch,
                  pt_effect = ts_effect sch, pt_fencing_token = 0\<rparr>,
      tm_terminal = False, tm_claim_id = None, tm_claimed_until = None\<rparr>"

definition schedule_timers ::
    "process_key \<Rightarrow> timer_schedule list \<Rightarrow> (timer_key, timer_entry) dict \<Rightarrow> (timer_key, timer_entry) dict" where
  "schedule_timers key schs d =
     fold (\<lambda>sch. dict_set (TimerKey key (ts_timer_id sch)) (new_timer key sch)) schs d"

definition record_effects ::
    "process_key \<Rightarrow> process_effect list \<Rightarrow> (string, effect_entry) dict
     \<Rightarrow> (string, effect_entry) dict" where
  "record_effects key effects d = fold (\<lambda>e. dict_set (pe_effect_id e) (EffectEntry key e)) effects d"

definition process_apply ::
    "process_key \<Rightarrow> int \<Rightarrow> process_decision \<Rightarrow> datetime \<Rightarrow> (process_store, process_apply_result) act" where
  "process_apply key expected decision on s =
     (case require_aware_utc on of
        Inl e \<Rightarrow> (Inl e, s)
      | Inr t \<Rightarrow>
          if expected < 0 then (Inl ValueError, s)
          else
            let current = dict_get (pms_states s) key;
                actual = (case current of None \<Rightarrow> 0 | Some c \<Rightarrow> pst_version c) in
            if actual \<noteq> expected then (Inr (StaleProcessVersion expected actual), s)
            else if \<exists>sch\<in>set (dc_schedule decision). dict_get (pms_timers s) (TimerKey key (ts_timer_id sch)) \<noteq> None
              then (Inl ValueError, s)
            else if \<exists>e\<in>set (dc_effects decision). dict_get (pms_effects s) (pe_effect_id e) \<noteq> None
              then (Inl ValueError, s)
            else
              let new_items = of_bool (current = None) + int (length (dc_schedule decision))
                                + int (length (dc_effects decision));
                  tot = int (length (pms_states s)) + int (length (pms_timers s)) + int (length (pms_effects s)) in
              if pms_capacity s < tot + new_items then (Inl OverflowError, s)
              else
                case mk_process_state key (actual + 1) (dc_status decision) (dc_state decision) t of
                  Inl e \<Rightarrow> (Inl e, s)
                | Inr st \<Rightarrow>
                    let (cancelled, timers) = cancel_timers key (dc_cancel_timers decision) 0 (pms_timers s) in
                    (Inr (ProcessApplied st (int (length (dc_effects decision)))
                            (int (length (dc_schedule decision))) cancelled),
                     s\<lparr>pms_timers := schedule_timers key (dc_schedule decision) timers,
                       pms_effects := record_effects key (dc_effects decision) (pms_effects s),
                       pms_states := dict_set key st (pms_states s)\<rparr>))"

definition claim_arguments :: "int \<Rightarrow> timedelta \<Rightarrow> unit res" where
  "claim_arguments limit claim_ttl =
     (if limit \<le> 0 then Inl ValueError else if claim_ttl \<le> 0 then Inl ValueError else Inr ())"

definition timer_key_of :: "timer_entry \<Rightarrow> timer_key" where
  "timer_key_of t = TimerKey (pt_process (tm_value t)) (pt_timer_id (tm_value t))"

definition timer_order :: "timer_entry \<Rightarrow> instant \<times> string \<times> string \<times> string" where
  "timer_order t = (pt_due_at (tm_value t), prk_name (pt_process (tm_value t)),
     prk_instance_id (pt_process (tm_value t)), pt_timer_id (tm_value t))"

definition timer_claimable :: "instant \<Rightarrow> timer_entry \<Rightarrow> bool" where
  "timer_claimable now t \<longleftrightarrow> \<not> (tm_terminal t \<or> now < pt_due_at (tm_value t))
     \<and> \<not> (case tm_claimed_until t of None \<Rightarrow> False | Some u \<Rightarrow> now < u)"

text \<open>The body of the claim loop: the token and the claim identifier are written before the addition
  that can overflow.\<close>

definition mark_timer ::
    "(nat \<Rightarrow> string) \<Rightarrow> instant \<Rightarrow> timedelta \<Rightarrow> nat \<Rightarrow> timer_entry \<Rightarrow> (timer_entry, process_timer_claim) mark" where
  "mark_timer uuid now ttl n t =
     (let value = (tm_value t)\<lparr>pt_fencing_token := pt_fencing_token (tm_value t) + 1\<rparr>;
          t1 = t\<lparr>tm_value := value, tm_claim_id := Some (uuid n)\<rparr> in
      case dt_plus now ttl of
        Inl e \<Rightarrow> MarkFailed e t1
      | Inr until \<Rightarrow> Marked (t1\<lparr>tm_claimed_until := Some until\<rparr>)
          \<lparr>tc_timer = value, tc_claim_id = uuid n, tc_claimed_until = until\<rparr>)"

definition claim_timers ::
    "datetime \<Rightarrow> int \<Rightarrow> timedelta \<Rightarrow> (nat \<Rightarrow> string) \<Rightarrow> (process_store, process_timer_claim list) act" where
  "claim_timers now limit claim_ttl uuid s =
     (case and_then (require_aware_utc now) (\<lambda>t. and_then (claim_arguments limit claim_ttl) (\<lambda>_. Inr t)) of
        Inl e \<Rightarrow> (Inl e, s)
      | Inr t \<Rightarrow>
          case claim_each (mark_timer uuid t claim_ttl) (timer_claimable t) timer_key_of limit
                 (claim_items timer_order (pms_timers s)) [] (pms_timers s) of
            (r, timers) \<Rightarrow> (r, s\<lparr>pms_timers := timers\<rparr>))"

definition complete_timer :: "process_timer_claim \<Rightarrow> (process_store, bool) act" where
  "complete_timer c s =
     (let idn = TimerKey (pt_process (tc_timer c)) (pt_timer_id (tc_timer c)) in
      case dict_get (pms_timers s) idn of
        None \<Rightarrow> (Inr False, s)
      | Some t \<Rightarrow>
          if tm_terminal t \<or> tm_claim_id t \<noteq> Some (tc_claim_id c)
             \<or> pt_fencing_token (tm_value t) \<noteq> pt_fencing_token (tc_timer c) then (Inr False, s)
          else (Inr True, s\<lparr>pms_timers := dict_set idn
                  (t\<lparr>tm_terminal := True, tm_claim_id := None, tm_claimed_until := None\<rparr>) (pms_timers s)\<rparr>))"

definition mem_process_port :: "process_store process_port" where
  "mem_process_port = \<lparr>load_op = process_load, apply_op = process_apply, claim_timers_op = claim_timers,
                       complete_timer_op = complete_timer\<rparr>"

section \<open>Registry and runtime\<close>

type_synonym process_decider = "process_state option \<Rightarrow> json \<Rightarrow> process_decision res"

record process_manager_binding =
  pb_name :: string
  pb_decide :: process_decider

definition mk_process_manager_binding :: "string \<Rightarrow> process_decider \<Rightarrow> process_manager_binding res" where
  "mk_process_manager_binding name decide =
     (if name = [] then Inl ValueError else Inr \<lparr>pb_name = name, pb_decide = decide\<rparr>)"

fun register :: "process_manager_binding list \<Rightarrow> (string, process_decider) dict \<Rightarrow> (string, process_decider) dict res" where
  "register [] values = Inr values"
| "register (b # bs) values =
     (if dict_get values (pb_name b) \<noteq> None then Inl ValueError
      else register bs (dict_set (pb_name b) (pb_decide b) values))"

definition ProcessManagerRegistry :: "process_manager_binding list \<Rightarrow> (string, process_decider) dict res" where
  "ProcessManagerRegistry bindings = register bindings []"

definition require_decider :: "(string, process_decider) dict \<Rightarrow> string \<Rightarrow> process_decider res" where
  "require_decider values name = (case dict_get values name of None \<Rightarrow> Inl LookupError | Some d \<Rightarrow> Inr d)"

text \<open>\<open>others\<close> is what other clients do to the store between the load and the apply.\<close>

definition handle ::
    "'s process_port \<Rightarrow> ('s \<Rightarrow> 's) \<Rightarrow> (string, process_decider) dict \<Rightarrow> datetime \<Rightarrow> process_key \<Rightarrow> json
     \<Rightarrow> ('s, process_apply_result) act" where
  "handle port others registry now key input =
     sbind (slift (validate_json input)) (\<lambda>_.
     sbind (load_op port key) (\<lambda>current.
     let expected = (case current of None \<Rightarrow> 0 | Some c \<Rightarrow> pst_version c) in
     sbind (slift (and_then (require_decider registry (prk_name key)) (\<lambda>decide. decide current input))) (\<lambda>decision.
     \<lambda>s. apply_op port key expected decision now (others s))))"

section \<open>Calls and invariant\<close>

datatype process_call =
    Load process_key
  | Apply process_key int process_decision datetime
  | ClaimTimers datetime int timedelta "nat \<Rightarrow> string"
  | CompleteTimer process_timer_claim

datatype process_reply =
    LoadReply "process_state option res" | ApplyReply "process_apply_result res"
  | ClaimReply "process_timer_claim list res" | CompleteReply "bool res"

fun process_step :: "process_call \<Rightarrow> process_store \<Rightarrow> process_reply \<times> process_store" where
  "process_step (Load key) s = apfst LoadReply (process_load key s)"
| "process_step (Apply key v d on) s = apfst ApplyReply (process_apply key v d on s)"
| "process_step (ClaimTimers now limit ttl uuid) s = apfst ClaimReply (claim_timers now limit ttl uuid s)"
| "process_step (CompleteTimer c) s = apfst CompleteReply (complete_timer c s)"

text \<open>Decisions are validated by their constructor.\<close>

fun decision_ok :: "process_call \<Rightarrow> process_store \<Rightarrow> bool" where
  "decision_ok (Apply key v d on) s \<longleftrightarrow> check_process_decision d = Inr d"
| "decision_ok _ s \<longleftrightarrow> True"

definition process_inv :: "process_store \<Rightarrow> bool" where
  "process_inv s \<longleftrightarrow> 0 < pms_capacity s \<and> dict_ok (pms_states s)
     \<and> (\<forall>key st. dict_get (pms_states s) key = Some st \<longrightarrow> pst_key st = key \<and> 0 < pst_version st)
     \<and> keyed timer_key_of (pms_timers s) \<and> dict_ok (pms_effects s)
     \<and> int (length (pms_states s)) + int (length (pms_timers s)) + int (length (pms_effects s)) \<le> pms_capacity s"

lemma process_invD:
  assumes "process_inv s"
  shows "keyed timer_key_of (pms_timers s)" "dict_get (pms_states s) key = Some st \<Longrightarrow> pst_key st = key \<and> 0 < pst_version st"
    "dict_ok (pms_timers s)"
  using assms unfolding process_inv_def keyed_def by blast+

definition evolve :: "timer_entry \<Rightarrow> timer_entry \<Rightarrow> bool" where
  "evolve t t' \<longleftrightarrow> timer_key_of t' = timer_key_of t
     \<and> pt_fencing_token (tm_value t) \<le> pt_fencing_token (tm_value t') \<and> (tm_terminal t \<longrightarrow> t' = t)"

lemma evolve_refl [simp]: "evolve t t"
  by (simp add: evolve_def)

lemma evolve_trans: "evolve t t' \<Longrightarrow> evolve t' t'' \<Longrightarrow> evolve t t''"
  by (auto simp: evolve_def)

lemma cancel_timers_spec:
  assumes "keyed timer_key_of d"
  shows "keyed timer_key_of (snd (cancel_timers key tids n d))"
    and "length (snd (cancel_timers key tids n d)) = length d"
    and "dict_get d tk = None \<Longrightarrow> dict_get (snd (cancel_timers key tids n d)) tk = None"
    and "dict_get d tk = Some t \<Longrightarrow> \<exists>t'. dict_get (snd (cancel_timers key tids n d)) tk = Some t' \<and> evolve t t'"
proof (atomize (full), use assms in \<open>induction tids arbitrary: n d t\<close>)
  case (Cons tid tids)
  show ?case
  proof (cases "dict_get d (TimerKey key tid)")
    case None
    with Cons show ?thesis by simp
  next
    case (Some p)
    show ?thesis
    proof (cases "tm_terminal p")
      case True
      with Some Cons show ?thesis by simp
    next
      case False
      let ?d = "dict_set (TimerKey key tid) (p\<lparr>tm_terminal := True\<rparr>) d"
      have p: "timer_key_of p = TimerKey key tid" by (rule keyedD [OF Cons.prems Some])
      have keyed: "keyed timer_key_of ?d"
        using Cons.prems p by (auto simp: keyed_def dict_simps timer_key_of_def)
      have ev: "\<exists>t'. dict_get ?d tk = Some t' \<and> evolve t t'" if "dict_get d tk = Some t" for t
        using that Some False by (auto simp: dict_simps evolve_def timer_key_of_def)
      have len: "length ?d = length d" using Some by (simp add: dict_simps)
      have none: "dict_get d tk = None \<Longrightarrow> dict_get ?d tk = None" using Some by (auto simp: dict_simps)
      have "\<exists>t'. dict_get (snd (cancel_timers key tids (n + 1) ?d)) tk = Some t' \<and> evolve t t'"
        if "dict_get d tk = Some t"
        using ev [OF that] Cons.IH [OF keyed, of "n + 1"] by (blast intro: evolve_trans)
      with Cons.IH [OF keyed, of "n + 1"] Some False len none show ?thesis by simp
    qed
  qed
qed auto

lemma schedule_timers_spec:
  assumes "keyed timer_key_of d" and "\<forall>sch\<in>set schs. dict_get d (TimerKey key (ts_timer_id sch)) = None"
  shows "keyed timer_key_of (schedule_timers key schs d)"
    and "length (schedule_timers key schs d) \<le> length d + length schs"
    and "dict_get d tk = Some t \<Longrightarrow> dict_get (schedule_timers key schs d) tk = Some t"
proof -
  let ?k = "\<lambda>sch. TimerKey key (ts_timer_id sch)"
  show "length (schedule_timers key schs d) \<le> length d + length schs"
    unfolding schedule_timers_def by (rule fold_set_length)
  show "dict_get (schedule_timers key schs d) tk = Some t" if "dict_get d tk = Some t"
    unfolding schedule_timers_def using that assms(2) by (subst fold_set_other) auto
  show "keyed timer_key_of (schedule_timers key schs d)"
    unfolding schedule_timers_def using assms(1)
  proof (induction schs arbitrary: d)
    case (Cons sch schs)
    have "timer_key_of (new_timer key sch) = ?k sch" by (simp add: timer_key_of_def new_timer_def)
    with Cons.prems have "keyed timer_key_of (dict_set (?k sch) (new_timer key sch) d)"
      by (auto simp: keyed_def dict_simps)
    with Cons.IH show ?case by simp
  qed simp
qed

lemma process_apply_cases:
  obtains (rejected) r where "process_apply key expected d on s = (r, s)" "\<And>st a b c. r \<noteq> Inr (ProcessApplied st a b c)"
  | (applied) t st n where "require_aware_utc on = Inr t" "0 \<le> expected"
      "(case dict_get (pms_states s) key of None \<Rightarrow> 0 | Some c \<Rightarrow> pst_version c) = expected"
      "\<forall>sch\<in>set (dc_schedule d). dict_get (pms_timers s) (TimerKey key (ts_timer_id sch)) = None"
      "\<forall>e\<in>set (dc_effects d). dict_get (pms_effects s) (pe_effect_id e) = None"
      "int (length (pms_states s)) + int (length (pms_timers s)) + int (length (pms_effects s))
         + of_bool (dict_get (pms_states s) key = None) + int (length (dc_schedule d)) + int (length (dc_effects d))
         \<le> pms_capacity s"
      "st = \<lparr>pst_key = key, pst_version = expected + 1, pst_status = dc_status d, pst_state = dc_state d, pst_updated_at = t\<rparr>"
      "process_apply key expected d on s =
         (Inr (ProcessApplied st (int (length (dc_effects d))) (int (length (dc_schedule d))) n),
          s\<lparr>pms_timers := schedule_timers key (dc_schedule d) (snd (cancel_timers key (dc_cancel_timers d) 0 (pms_timers s))),
            pms_effects := record_effects key (dc_effects d) (pms_effects s),
            pms_states := dict_set key st (pms_states s)\<rparr>)"
proof (cases "\<exists>st a b c. fst (process_apply key expected d on s) = Inr (ProcessApplied st a b c)")
  case False
  then have "snd (process_apply key expected d on s) = s"
    by (auto simp: process_apply_def Let_def split: sum.splits if_splits prod.splits)
  with False show thesis by (intro rejected [of "fst (process_apply key expected d on s)"]) (auto simp: prod_eq_iff)
next
  case True
  obtain n where n: "fst (cancel_timers key (dc_cancel_timers d) 0 (pms_timers s)) = n" by blast
  from True show thesis
    by (intro applied [of "dt_micros on" _ n])
      (auto simp: process_apply_def Let_def mk_process_state_def and_then_eq_Inr require_aware_utc_def n [symmetric]
        split: sum.splits if_splits prod.splits)
qed

lemma process_apply_inv:
  assumes inv: "process_inv s"
  shows "process_inv (snd (process_apply key expected d on s))"
proof (cases rule: process_apply_cases [of key expected d on s])
  case (applied t st n)
  let ?timers = "snd (cancel_timers key (dc_cancel_timers d) 0 (pms_timers s))"
  note ct = cancel_timers_spec [OF process_invD(1) [OF inv], where key = key and tids = "dc_cancel_timers d" and n = 0]
  have new: "\<forall>sch\<in>set (dc_schedule d). dict_get ?timers (TimerKey key (ts_timer_id sch)) = None"
    using applied(4) ct(3) by blast
  note sch = schedule_timers_spec [OF ct(1) new]
  have "length (record_effects key (dc_effects d) (pms_effects s)) \<le> length (pms_effects s) + length (dc_effects d)"
    unfolding record_effects_def by (rule fold_set_length)
  moreover have "dict_ok (record_effects key (dc_effects d) (pms_effects s))"
    using inv unfolding record_effects_def process_inv_def by (blast intro: fold_set_ok)
  moreover have "length (dict_set key st (pms_states s)) = length (pms_states s) + of_bool (dict_get (pms_states s) key = None)"
    by (simp add: dict_simps)
  ultimately show ?thesis
    using inv sch(1,2) ct(2) applied(2,6,7) unfolding applied(8) by (auto simp: process_inv_def dict_simps)
qed (use inv in auto)

lemma mark_timer_key: "mark_timer uuid now ttl n t = Marked t' c \<Longrightarrow> timer_key_of t' = timer_key_of t \<and>
    TimerKey (pt_process (tc_timer c)) (pt_timer_id (tc_timer c)) = timer_key_of t
    \<and> pt_fencing_token (tc_timer c) = pt_fencing_token (tm_value t) + 1 \<and> tm_value t' = tc_timer c
    \<and> tm_claim_id t' = Some (tc_claim_id c) \<and> tm_terminal t' = tm_terminal t"
  by (auto simp: mark_timer_def Let_def timer_key_of_def split: sum.splits)

lemma mark_timer_evolves:
  assumes "timer_claimable now' t"
  shows "mark_timer uuid now ttl n t = Marked t' c \<Longrightarrow> evolve t t'" "mark_timer uuid now ttl n t = MarkFailed e t' \<Longrightarrow> evolve t t'"
  using assms by (auto simp: mark_timer_def Let_def evolve_def timer_key_of_def timer_claimable_def split: sum.splits)

lemma claim_timers_cases:
  obtains (rejected) e where "claim_timers now limit ttl uuid s = (Inl e, s)"
  | (claimed) t r timers where "require_aware_utc now = Inr t"
      "claim_each (mark_timer uuid t ttl) (timer_claimable t) timer_key_of limit (claim_items timer_order (pms_timers s)) []
         (pms_timers s) = (r, timers)"
      "claim_timers now limit ttl uuid s = (r, s\<lparr>pms_timers := timers\<rparr>)"
proof (cases "and_then (require_aware_utc now) (\<lambda>t. and_then (claim_arguments limit ttl) (\<lambda>_. Inr t))")
  case (Inl e)
  then show thesis by (intro rejected) (simp add: claim_timers_def)
next
  case (Inr t)
  obtain r timers where "claim_each (mark_timer uuid t ttl) (timer_claimable t) timer_key_of limit
      (claim_items timer_order (pms_timers s)) [] (pms_timers s) = (r, timers)" by fastforce
  with Inr show thesis by (intro claimed) (auto simp: claim_timers_def and_then_eq_Inr)
qed

lemma claim_timers_evolve:
  assumes inv: "process_inv s" and t: "dict_get (pms_timers s) tk = Some t"
  shows "\<exists>t'. dict_get (pms_timers (snd (claim_timers now limit ttl uuid s))) tk = Some t' \<and> evolve t t'"
proof (cases rule: claim_timers_cases [of now limit ttl uuid s])
  case (claimed u r timers)
  note k = process_invD(1) [OF inv]
  have tk: "timer_key_of t = tk" by (rule keyedD [OF k t])
  with t have mem: "t \<in> set (claim_items timer_order (pms_timers s))" by (simp add: claim_items_keyed(2) [OF k])
  have "dict_get (pms_timers s) (timer_key_of t) = Some t" using t tk by simp
  with claim_items_keyed(1) [OF k] mem have "\<exists>t'. dict_get timers tk = Some t' \<and> evolve t t'"
    using claimed(2) by (cases rule: claim_each_item) (auto simp: tk intro: mark_timer_evolves)
  with claimed(3) show ?thesis by simp
qed (use t in auto)

lemma claim_timers_inv:
  assumes inv: "process_inv s"
  shows "process_inv (snd (claim_timers now limit ttl uuid s))"
proof (cases rule: claim_timers_cases [of now limit ttl uuid s])
  case (claimed u r timers)
  note k = process_invD(1) [OF inv]
  have "\<forall>i\<in>set (claim_items timer_order (pms_timers s)). dict_get (pms_timers s) (timer_key_of i) \<noteq> None"
    using claim_items_keyed(2) [OF k] by auto
  from claim_each_keys [OF this, of "mark_timer uuid u ttl" "timer_claimable u" limit "[]"] claimed(2)
  have keys: "map fst timers = map fst (pms_timers s)" by simp
  then have len: "length timers = length (pms_timers s)" by (metis length_map)
  have "timer_key_of t' = tk" if t': "dict_get timers tk = Some t'" for tk t'
  proof -
    have "tk \<in> fst ` set (pms_timers s)" using t' keys by (metis list.set_map map_of_eq_None_iff option.distinct(1))
    then obtain t where t: "dict_get (pms_timers s) tk = Some t" by (metis map_of_eq_None_iff not_None_eq)
    from claim_timers_evolve [OF inv t, of now limit ttl uuid] claimed(3) t' keyedD [OF k t] show ?thesis
      by (auto simp: evolve_def)
  qed
  with k keys have "keyed timer_key_of timers" by (auto simp: keyed_def)
  with inv claimed(3) len show ?thesis by (auto simp: process_inv_def)
qed (use inv in auto)

lemma complete_timer_inv: "process_inv s \<Longrightarrow> process_inv (snd (complete_timer c s))"
  by (auto simp: complete_timer_def Let_def process_inv_def keyed_def timer_key_of_def dict_simps split: option.splits)

interpretation process_machine: guarded_machine process_step process_inv decision_ok
proof
  fix s x
  assume "process_inv s"
  then show "process_inv (snd (process_step x s))"
    by (cases x) (simp_all add: process_load_def process_apply_inv claim_timers_inv complete_timer_inv)
qed

section \<open>Timers over runs\<close>

lemma timer_step:
  assumes inv: "process_inv s" and t: "dict_get (pms_timers s) tk = Some t"
  shows "\<exists>t'. dict_get (pms_timers (snd (process_step x s))) tk = Some t' \<and> evolve t t'"
proof (cases x)
  case (Load key)
  with t show ?thesis by (simp add: process_load_def)
next
  case (Apply key v d on)
  show ?thesis
  proof (cases rule: process_apply_cases [of key v d on s])
    case rejected
    with Apply t show ?thesis by simp
  next
    case (applied u st n)
    note ct = cancel_timers_spec [OF process_invD(1) [OF inv], where key = key and tids = "dc_cancel_timers d" and n = 0]
    have "\<forall>sch\<in>set (dc_schedule d). dict_get (snd (cancel_timers key (dc_cancel_timers d) 0 (pms_timers s)))
        (TimerKey key (ts_timer_id sch)) = None"
      using applied(4) ct(3) by blast
    from schedule_timers_spec(3) [OF ct(1) this] ct(4) [OF t] applied(8) Apply show ?thesis by auto
  qed
next
  case (ClaimTimers now limit ttl uuid)
  with claim_timers_evolve [OF inv t] show ?thesis by simp
next
  case (CompleteTimer c)
  with t show ?thesis
    by (auto simp: complete_timer_def Let_def dict_simps evolve_def timer_key_of_def split: option.splits)
qed

definition timer_from :: "timer_key \<Rightarrow> timer_entry \<Rightarrow> process_store \<Rightarrow> bool" where
  "timer_from tk t0 s \<longleftrightarrow> (\<exists>t. dict_get (pms_timers s) tk = Some t \<and> evolve t0 t)"

interpretation timer_history: guarded_machine process_step "\<lambda>s. process_inv s \<and> timer_from tk t0 s" decision_ok for tk t0
proof (unfold_locales, elim conjE, intro conjI)
  fix s x
  assume inv: "process_inv s" and h: "timer_from tk t0 s" and g: "decision_ok x s"
  show "process_inv (snd (process_step x s))" using inv g by (rule process_machine.inv_step)
  show "timer_from tk t0 (snd (process_step x s))"
    using h timer_step [OF inv] unfolding timer_from_def by (blast intro: evolve_trans)
qed

abbreviation claim_key :: "process_timer_claim \<Rightarrow> timer_key" where
  "claim_key c \<equiv> TimerKey (pt_process (tc_timer c)) (pt_timer_id (tc_timer c))"

text \<open>The replies of the completions of one timer, in order.\<close>

fun completions :: "timer_key \<Rightarrow> process_call list \<Rightarrow> process_reply list \<Rightarrow> bool list" where
  "completions tk (CompleteTimer c # cs) (CompleteReply (Inr b) # rs) =
     (if claim_key c = tk then b # completions tk cs rs else completions tk cs rs)"
| "completions tk (_ # cs) (_ # rs) = completions tk cs rs"
| "completions tk _ _ = []"

lemma completions_Cons:
  "completions tk (x # cs) (r # rs) =
     (case (x, r) of (CompleteTimer c, CompleteReply (Inr b)) \<Rightarrow> (if claim_key c = tk then [b] else []) | _ \<Rightarrow> [])
     @ completions tk cs rs"
  by (cases "(tk, x # cs, r # rs)" rule: completions.cases) (auto split: process_call.split)

lemma complete_timer_cases:
  obtains (stale) "complete_timer c s = (Inr False, s)"
  | (completes) t where "dict_get (pms_timers s) (claim_key c) = Some t" "\<not> tm_terminal t"
      "complete_timer c s = (Inr True, s\<lparr>pms_timers := dict_set (claim_key c)
         (t\<lparr>tm_terminal := True, tm_claim_id := None, tm_claimed_until := None\<rparr>) (pms_timers s)\<rparr>)"
proof (cases "dict_get (pms_timers s) (claim_key c)")
  case None
  then show thesis by (intro stale) (simp add: complete_timer_def Let_def)
next
  case (Some t)
  then show thesis
    using stale completes [of t] by (cases "fst (complete_timer c s) = Inr True") (auto simp: complete_timer_def Let_def split: if_splits)
qed

lemma terminal_never_completes:
  assumes "process_inv s" and "dict_get (pms_timers s) tk = Some t" and "tm_terminal t"
    and "guarded decision_ok process_step cs s"
  shows "True \<notin> set (completions tk cs (fst (run process_step cs s)))"
  using assms
proof (induction cs arbitrary: s)
  case (Cons x cs)
  have later: "process_inv (snd (process_step x s))" "dict_get (pms_timers (snd (process_step x s))) tk = Some t"
    using Cons.prems process_machine.inv_step timer_step [OF Cons.prems(1,2), of x] by (auto simp: evolve_def)
  have "fst (process_step x s) \<noteq> CompleteReply (Inr True)" if "x = CompleteTimer c" "claim_key c = tk" for c
    using that Cons.prems(2,3) by (simp add: complete_timer_def)
  then show ?case
    using Cons.IH [OF later Cons.prems(3)] Cons.prems(4)
    by (auto simp: completions_Cons split: process_call.splits process_reply.splits sum.splits)
qed simp

lemma timer_completes_once_run:
  assumes "process_inv s" and "guarded decision_ok process_step cs s"
  shows "length (filter id (completions tk cs (fst (run process_step cs s)))) \<le> 1"
  using assms
proof (induction cs arbitrary: s)
  case (Cons x cs)
  let ?s = "snd (process_step x s)"
  have inv: "process_inv ?s" and g: "guarded decision_ok process_step cs ?s"
    using Cons.prems process_machine.inv_step by auto
  show ?case
  proof (cases "\<exists>c. x = CompleteTimer c \<and> claim_key c = tk \<and> fst (process_step x s) = CompleteReply (Inr True)")
    case True
    then obtain c where c: "x = CompleteTimer c" "claim_key c = tk" "fst (complete_timer c s) = Inr True" by auto
    then obtain t where "dict_get (pms_timers ?s) tk = Some t" "tm_terminal t"
      by (cases rule: complete_timer_cases [of c s]) (auto simp: dict_simps)
    then have "True \<notin> set (completions tk cs (fst (run process_step cs ?s)))"
      using terminal_never_completes [OF inv] g by blast
    then have "filter id (completions tk cs (fst (run process_step cs ?s))) = []" by (auto simp: filter_empty_conv)
    with c show ?thesis by (simp add: completions_Cons id_def)
  next
    case False
    with Cons.IH [OF inv g] show ?thesis
      by (auto simp: completions_Cons split: process_call.splits process_reply.splits sum.splits)
  qed
qed simp

lemma timer_claimed:
  assumes inv: "process_inv s" and claims: "claim_timers now limit ttl uuid s = (Inr claims, s1)" and c: "c \<in> set claims"
  obtains t t' where "dict_get (pms_timers s) (claim_key c) = Some t" "dict_get (pms_timers s1) (claim_key c) = Some t'"
    "pt_fencing_token (tc_timer c) = pt_fencing_token (tm_value t) + 1" "tm_value t' = tc_timer c"
proof (cases rule: claim_timers_cases [of now limit ttl uuid s])
  case (claimed u r timers)
  note k = process_invD(1) [OF inv]
  have here: "\<forall>i\<in>set (claim_items timer_order (pms_timers s)). dict_get (pms_timers s) (timer_key_of i) = Some i"
    using claim_items_keyed(2) [OF k] by blast
  have run: "claim_each (mark_timer uuid u ttl) (timer_claimable u) timer_key_of limit
      (claim_items timer_order (pms_timers s)) [] (pms_timers s) = (Inr claims, timers)"
    using claimed claims by simp
  obtain t n t' where "t \<in> set (claim_items timer_order (pms_timers s))" "mark_timer uuid u ttl n t = Marked t' c"
      "dict_get timers (timer_key_of t) = Some t'"
    by (rule claim_each_from_items [OF claim_items_keyed(1) [OF k] here run c]) auto
  with that [of t t'] here mark_timer_key claimed(3) claims show thesis by fastforce
qed (use claims in simp)

lemma timer_token_run:
  assumes "process_inv s" and "guarded decision_ok process_step cs s" and "dict_get (pms_timers s) tk = Some t"
  obtains t' where "dict_get (pms_timers (snd (run process_step cs s))) tk = Some t'"
    "pt_fencing_token (tm_value t) \<le> pt_fencing_token (tm_value t')"
  using timer_history.run_inv [OF _ assms(2), of tk t] assms(1,3) by (auto simp: timer_from_def evolve_def)

section \<open>States and effects over runs\<close>

definition state_version :: "process_key \<Rightarrow> process_store \<Rightarrow> int" where
  "state_version key s = (case dict_get (pms_states s) key of None \<Rightarrow> 0 | Some c \<Rightarrow> pst_version c)"

text \<open>The versions of the decisions of one process that were accepted, in order.\<close>

fun accepted_versions :: "process_key \<Rightarrow> process_call list \<Rightarrow> process_reply list \<Rightarrow> int list" where
  "accepted_versions key (Apply k v d on # cs) (ApplyReply (Inr (ProcessApplied st a b c)) # rs) =
     (if k = key then pst_version st # accepted_versions key cs rs else accepted_versions key cs rs)"
| "accepted_versions key (_ # cs) (_ # rs) = accepted_versions key cs rs"
| "accepted_versions key _ _ = []"

lemma record_effects_keeps:
  "dict_get d i = Some x \<Longrightarrow> \<forall>e\<in>set effects. dict_get d (pe_effect_id e) = None \<Longrightarrow>
     dict_get (record_effects key effects d) i = Some x"
  unfolding record_effects_def by (subst fold_set_other) auto

lemma record_effects_get:
  "distinct (map pe_effect_id effects) \<Longrightarrow> e \<in> set effects \<Longrightarrow>
     dict_get (record_effects key effects d) (pe_effect_id e) = Some (EffectEntry key e)"
  unfolding record_effects_def by (rule fold_set_get)

lemma other_calls_keep_states:
  "pms_states (snd (claim_timers now limit ttl uuid s)) = pms_states s"
  "pms_effects (snd (claim_timers now limit ttl uuid s)) = pms_effects s"
  "pms_states (snd (complete_timer c s)) = pms_states s"
  "pms_effects (snd (complete_timer c s)) = pms_effects s"
  by (auto simp: claim_timers_def complete_timer_def Let_def split: sum.splits prod.splits option.splits)

lemma effect_step:
  "dict_get (pms_effects s) i = Some e \<Longrightarrow> dict_get (pms_effects (snd (process_step x s))) i = Some e"
proof (cases x)
  case (Apply key v d on)
  assume "dict_get (pms_effects s) i = Some e"
  with Apply show ?thesis
    by (cases rule: process_apply_cases [of key v d on s]) (auto simp: record_effects_keeps)
qed (auto simp: process_load_def other_calls_keep_states)

lemma effect_run:
  "dict_get (pms_effects s) i = Some e \<Longrightarrow> dict_get (pms_effects (snd (run process_step cs s))) i = Some e"
  by (induction cs arbitrary: s) (simp_all add: effect_step)

lemma state_step:
  obtains (same) "dict_get (pms_states (snd (process_step x s))) key = dict_get (pms_states s) key"
      "\<And>cs rs. accepted_versions key (x # cs) (fst (process_step x s) # rs) = accepted_versions key cs rs"
  | (decided) "state_version key (snd (process_step x s)) = state_version key s + 1"
      "\<And>cs rs. accepted_versions key (x # cs) (fst (process_step x s) # rs)
         = (state_version key s + 1) # accepted_versions key cs rs"
proof (cases x)
  case (Apply k v d on)
  show thesis
  proof (cases rule: process_apply_cases [of k v d on s])
    case (rejected r)
    have "accepted_versions key (x # cs) (ApplyReply r # rs) = accepted_versions key cs rs" for cs rs
      using rejected(2) Apply by (cases "(key, x # cs, ApplyReply r # rs)" rule: accepted_versions.cases) auto
    with same rejected(1) Apply show ?thesis by simp
  next
    case (applied t st n)
    show ?thesis
    proof (cases "k = key")
      case True
      with applied Apply decided show ?thesis by (simp add: state_version_def dict_simps)
    next
      case False
      with applied Apply same show ?thesis by (simp add: dict_simps)
    qed
  qed
qed (use same in \<open>simp_all add: process_load_def other_calls_keep_states\<close>)

text \<open>\<open>vs\<close> is \<open>v + 1, v + 2, ...\<close>.\<close>

definition counts_from :: "int \<Rightarrow> int list \<Rightarrow> bool" where
  "counts_from v vs \<longleftrightarrow> (\<forall>i<length vs. vs ! i = v + 1 + int i)"

lemma counts_from_Cons: "counts_from (v + 1) vs \<Longrightarrow> counts_from v ((v + 1) # vs)"
  by (auto simp: counts_from_def nth_Cons')

lemma state_run:
  "counts_from (state_version key s) (accepted_versions key cs (fst (run process_step cs s)))"
  "state_version key (snd (run process_step cs s))
     = state_version key s + int (length (accepted_versions key cs (fst (run process_step cs s))))"
  "state_version key (snd (run process_step cs s)) = state_version key s \<Longrightarrow>
     dict_get (pms_states (snd (run process_step cs s))) key = dict_get (pms_states s) key"
proof (atomize (full), induction cs arbitrary: s)
  case (Cons x cs)
  note IH = Cons.IH [of "snd (process_step x s)"]
  show ?case
  proof (cases rule: state_step [of x s key])
    case same
    then have v: "state_version key (snd (process_step x s)) = state_version key s" by (simp add: state_version_def)
    from IH show ?thesis unfolding run_Cons same(2) v same(1) .
  next
    case decided
    from IH counts_from_Cons show ?thesis unfolding run_Cons decided by auto
  qed
qed (simp add: counts_from_def)

section \<open>Properties\<close>

text \<open>C27.  A timer completes at most once: in every run of calls, of all completions of one timer of one
  process at most one is accepted, whoever holds claims on it, and a timer that is terminal (completed
  or cancelled) is never completed again.\<close>

theorem process_timer_completes_at_most_once:
  assumes "process_inv s" and "guarded decision_ok process_step cs s"
  shows "length (filter id (completions tk cs (fst (run process_step cs s)))) \<le> 1
    \<and> (\<forall>t. dict_get (pms_timers s) tk = Some t \<and> tm_terminal t \<longrightarrow>
          True \<notin> set (completions tk cs (fst (run process_step cs s))))"
  using timer_completes_once_run [OF assms] terminal_never_completes [OF assms(1) _ _ assms(2)] by blast

definition sample_effect :: "string \<Rightarrow> process_effect" where
  "sample_effect i = \<lparr>pe_effect_id = i, pe_kind = TASK, pe_name = ''t'', pe_payload = JNull\<rparr>"

definition sample_decision :: process_decision where
  "sample_decision = \<lparr>dc_state = JNull, dc_status = RUNNING, dc_effects = [sample_effect ''e''],
     dc_schedule = [\<lparr>ts_timer_id = ''t'', ts_due_at = 5, ts_effect = sample_effect ''x''\<rparr>], dc_cancel_timers = []\<rparr>"

definition empty_processes :: process_store where
  "empty_processes = \<lparr>pms_capacity = 10, pms_states = [], pms_timers = [], pms_effects = []\<rparr>"

definition sample_call :: process_call where
  "sample_call = Apply (ProcessKey ''p'' ''1'') 0 sample_decision (utc_datetime 0)"

lemma empty_processes_inv: "process_inv empty_processes"
  by (simp add: process_inv_def empty_processes_def keyed_def)

lemma sample_decision_ok [simp]: "check_process_decision sample_decision = Inr sample_decision"
  by (simp add: check_process_decision_def sample_decision_def sample_effect_def validate_json_def
      validate_json_with_def enter_def default_limits_def)

lemma sample_applied:
  "snd (process_step sample_call empty_processes) =
     empty_processes\<lparr>pms_timers := [(TimerKey (ProcessKey ''p'' ''1'') ''t'', new_timer (ProcessKey ''p'' ''1'')
         \<lparr>ts_timer_id = ''t'', ts_due_at = 5, ts_effect = sample_effect ''x''\<rparr>)],
       pms_effects := [(''e'', EffectEntry (ProcessKey ''p'' ''1'') (sample_effect ''e''))],
       pms_states := [(ProcessKey ''p'' ''1'', \<lparr>pst_key = ProcessKey ''p'' ''1'', pst_version = 1,
         pst_status = RUNNING, pst_state = JNull, pst_updated_at = 0\<rparr>)]\<rparr>"
  by (simp add: sample_call_def process_apply_def empty_processes_def sample_decision_def sample_effect_def
      mk_process_state_def validate_json_def validate_json_with_def enter_def default_limits_def
      schedule_timers_def record_effects_def new_timer_def)

definition sample_claim :: process_timer_claim where
  "sample_claim = \<lparr>tc_timer = \<lparr>pt_process = ProcessKey ''p'' ''1'', pt_timer_id = ''t'', pt_due_at = 5,
      pt_effect = sample_effect ''x'', pt_fencing_token = 1\<rparr>, tc_claim_id = ''u'', tc_claimed_until = 16\<rparr>"

theorem process_timer_completes_at_most_once_witness:
  "let cs = [sample_call, ClaimTimers (utc_datetime 6) 1 10 (\<lambda>_. ''u''), CompleteTimer sample_claim, CompleteTimer sample_claim];
       oks = completions (TimerKey (ProcessKey ''p'' ''1'') ''t'') cs (fst (run process_step cs empty_processes))
   in length (filter id oks) \<le> 1 \<and> oks = [True, False]"
proof -
  let ?cs = "[sample_call, ClaimTimers (utc_datetime 6) 1 10 (\<lambda>_. ''u''), CompleteTimer sample_claim, CompleteTimer sample_claim]"
  have "guarded decision_ok process_step ?cs empty_processes" by (simp add: sample_call_def)
  from process_timer_completes_at_most_once [OF empty_processes_inv this, of "TimerKey (ProcessKey ''p'' ''1'') ''t''"]
  have "length (filter id (completions (TimerKey (ProcessKey ''p'' ''1'') ''t'') ?cs (fst (run process_step ?cs empty_processes)))) \<le> 1"
    by blast
  moreover have "completions (TimerKey (ProcessKey ''p'' ''1'') ''t'') ?cs (fst (run process_step ?cs empty_processes)) = [True, False]"
    by (simp add: completions_Cons sample_applied claim_timers_def claim_arguments_def claim_items_def mark_timer_def
        timer_claimable_def new_timer_def timer_key_of_def dt_plus_def dt_max_def complete_timer_def sample_claim_def Let_def
        dict_simps) (simp add: sample_call_def)
  ultimately show ?thesis by (simp add: Let_def)
qed

text \<open>Timer claims are fenced: once a timer has been claimed again, a completion with an older claim on
  it is refused and changes nothing, at every later point of every run of calls, even when both claims
  drew the same identifier; and the newer claim carries the next fencing token or a later one.\<close>

theorem superseded_timer_claim_is_stale:
  assumes "process_inv s" and "claim_timers now limit ttl uuid s = (Inr claims, s1)" and "c \<in> set claims"
    and "guarded decision_ok process_step cs s1"
    and "claim_timers now' limit' ttl' uuid' (snd (run process_step cs s1)) = (Inr claims', s2)"
    and "c' \<in> set claims'" and "claim_key c' = claim_key c"
    and "guarded decision_ok process_step cs' s2"
  shows "complete_timer c (snd (run process_step cs' s2)) = (Inr False, snd (run process_step cs' s2))
    \<and> pt_fencing_token (tc_timer c) < pt_fencing_token (tc_timer c')"
proof -
  obtain t1 where t1: "dict_get (pms_timers s1) (claim_key c) = Some t1" "tm_value t1 = tc_timer c"
    by (rule timer_claimed [OF assms(1-3)]) auto
  have inv1: "process_inv s1" using claim_timers_inv [OF assms(1)] assms(2) by (metis snd_conv)
  have inv1': "process_inv (snd (run process_step cs s1))" by (rule process_machine.run_inv [OF inv1 assms(4)])
  have inv2: "process_inv s2" using claim_timers_inv [OF inv1'] assms(5) by (metis snd_conv)
  obtain t where t: "dict_get (pms_timers (snd (run process_step cs s1))) (claim_key c) = Some t"
      "pt_fencing_token (tm_value t1) \<le> pt_fencing_token (tm_value t)"
    by (rule timer_token_run [OF inv1 assms(4) t1(1)])
  obtain t2 where t2: "dict_get (pms_timers s2) (claim_key c) = Some t2" "tm_value t2 = tc_timer c'"
      "pt_fencing_token (tc_timer c') = pt_fencing_token (tm_value t) + 1"
    by (rule timer_claimed [OF inv1' assms(5,6)]) (use t(1) assms(7) in auto)
  obtain t3 where t3: "dict_get (pms_timers (snd (run process_step cs' s2))) (claim_key c) = Some t3"
      "pt_fencing_token (tm_value t2) \<le> pt_fencing_token (tm_value t3)"
    by (rule timer_token_run [OF inv2 assms(8) t2(1)])
  show ?thesis using t1 t t2 t3 by (simp add: complete_timer_def)
qed

lemma sample_claims:
  "claim_timers (utc_datetime 6) 1 10 (\<lambda>_. ''u'') (snd (process_step sample_call empty_processes)) =
     (Inr [sample_claim], snd (claim_timers (utc_datetime 6) 1 10 (\<lambda>_. ''u'') (snd (process_step sample_call empty_processes))))"
  "\<exists>c. c \<noteq> sample_claim \<and> claim_key c = claim_key sample_claim \<and>
     (let s = snd (claim_timers (utc_datetime 6) 1 10 (\<lambda>_. ''u'') (snd (process_step sample_call empty_processes))) in
     claim_timers (utc_datetime 20) 1 10 (\<lambda>_. ''u'') s = (Inr [c], snd (claim_timers (utc_datetime 20) 1 10 (\<lambda>_. ''u'') s)))"
  by (simp_all add: sample_applied claim_timers_def claim_arguments_def claim_items_def mark_timer_def
        timer_claimable_def new_timer_def timer_key_of_def dt_plus_def dt_max_def sample_claim_def Let_def
        dict_simps)

theorem superseded_timer_claim_is_stale_witness:
  "let s = snd (process_step sample_call empty_processes);
       s1 = snd (claim_timers (utc_datetime 6) 1 10 (\<lambda>_. ''u'') s);
       s2 = snd (claim_timers (utc_datetime 20) 1 10 (\<lambda>_. ''u'') s1)
   in complete_timer sample_claim s2 = (Inr False, s2)"
proof -
  have inv: "process_inv (snd (process_step sample_call empty_processes))"
    by (rule process_machine.inv_step) (simp_all add: empty_processes_inv sample_call_def)
  from sample_claims(2) obtain c where c: "claim_key c = claim_key sample_claim"
    "(let s = snd (claim_timers (utc_datetime 6) 1 10 (\<lambda>_. ''u'') (snd (process_step sample_call empty_processes))) in
     claim_timers (utc_datetime 20) 1 10 (\<lambda>_. ''u'') s = (Inr [c], snd (claim_timers (utc_datetime 20) 1 10 (\<lambda>_. ''u'') s)))"
    by blast
  from superseded_timer_claim_is_stale [OF inv sample_claims(1), of sample_claim "[]" _ _ _ _ _ _ c "[]"] c
  show ?thesis unfolding Let_def by simp
qed

text \<open>The decisions of a process form one history: in every run of calls the accepted decisions of a process
  produce the versions \<open>v + 1, v + 2, ...\<close> with no gap and no repetition, where \<open>v\<close> is its version at
  the start, the version at the end counts them, and an effect that is recorded stays recorded as it was.\<close>

theorem process_versions_are_serial:
  "counts_from (state_version key s) (accepted_versions key cs (fst (run process_step cs s)))
   \<and> state_version key (snd (run process_step cs s))
       = state_version key s + int (length (accepted_versions key cs (fst (run process_step cs s))))
   \<and> (\<forall>i e. dict_get (pms_effects s) i = Some e \<longrightarrow> dict_get (pms_effects (snd (run process_step cs s))) i = Some e)"
  using state_run(1,2) effect_run by blast

theorem process_versions_are_serial_witness:
  "let cs = [sample_call, sample_call, Apply (ProcessKey ''p'' ''1'') 1
               (sample_decision\<lparr>dc_effects := [], dc_schedule := []\<rparr>) (utc_datetime 1)]
   in accepted_versions (ProcessKey ''p'' ''1'') cs (fst (run process_step cs empty_processes)) = [1, 2]
      \<and> counts_from 0 [1, 2]"
proof -
  let ?cs = "[sample_call, sample_call, Apply (ProcessKey ''p'' ''1'') 1
               (sample_decision\<lparr>dc_effects := [], dc_schedule := []\<rparr>) (utc_datetime 1)]"
  have "accepted_versions (ProcessKey ''p'' ''1'') ?cs (fst (run process_step ?cs empty_processes)) = [1, 2]"
    by (simp add: sample_applied)
      (simp add: sample_call_def process_apply_def empty_processes_def sample_decision_def sample_effect_def
      mk_process_state_def validate_json_def validate_json_with_def enter_def default_limits_def
      schedule_timers_def record_effects_def new_timer_def)
  moreover have "state_version (ProcessKey ''p'' ''1'') empty_processes = 0"
    by (simp add: state_version_def empty_processes_def)
  ultimately show ?thesis
    using process_versions_are_serial [of "ProcessKey ''p'' ''1''" empty_processes ?cs] by (simp add: Let_def)
qed

text \<open>The runtime never commits a decision on a state it was not made from: whatever other clients do
  to the store between the load and the apply, when an input is accepted the process is still in the
  state the decider saw, the new state carries the next version and exactly the decided status and data, and
  every effect of the decision is recorded; when the process has moved on meanwhile, the input is
  reported stale and the store is what the others left.\<close>

theorem process_manager_commits_decision_on_its_state:
  assumes "\<forall>name decide. dict_get registry name = Some decide \<longrightarrow>
      (\<forall>c i d. decide c i = Inr d \<longrightarrow> check_process_decision d = Inr d)"
    and "handle mem_process_port (\<lambda>s. snd (run process_step cs s)) registry now key input s = (Inr r, s')"
  shows "let current = dict_get (pms_states s) key; s1 = snd (run process_step cs s) in
    \<exists>decide d. require_decider registry (prk_name key) = Inr decide \<and> decide current input = Inr d
      \<and> (case r of
           ProcessApplied st effects timers cancelled \<Rightarrow>
             dict_get (pms_states s1) key = current \<and> dict_get (pms_states s') key = Some st
             \<and> pst_version st = state_version key s + 1 \<and> pst_status st = dc_status d \<and> pst_state st = dc_state d
             \<and> (\<forall>e\<in>set (dc_effects d). dict_get (pms_effects s') (pe_effect_id e) = Some (EffectEntry key e))
         | StaleProcessVersion expected actual \<Rightarrow>
             expected = state_version key s \<and> actual = state_version key s1 \<and> expected < actual \<and> s' = s1)"
proof -
  let ?s1 = "snd (run process_step cs s)"
  obtain decide d where dec: "require_decider registry (prk_name key) = Inr decide"
      "decide (dict_get (pms_states s) key) input = Inr d"
      "process_apply key (state_version key s) d now ?s1 = (Inr r, s')"
    using assms(2) by (auto simp: handle_def sbind_def mem_process_port_def process_load_def state_version_def Let_def
        and_then_eq_Inr split: prod.splits sum.splits)
  have ok: "distinct (map pe_effect_id (dc_effects d))"
  proof -
    have "dict_get registry (prk_name key) = Some decide"
      using dec(1) by (auto simp: require_decider_def split: option.splits)
    with assms(1) dec(2) have "check_process_decision d = Inr d" by blast
    then show ?thesis by (auto simp: check_process_decision_def and_then_eq_Inr split: if_splits)
  qed
  show ?thesis
  proof (cases rule: process_apply_cases [of key "state_version key s" d now ?s1])
    case (rejected r')
    then have "\<exists>e a. r = StaleProcessVersion e a" using dec(3) by (cases r) auto
    then obtain a where "r = StaleProcessVersion (state_version key s) a" "a = state_version key ?s1" "state_version key s \<noteq> a"
      using dec(3) by (auto simp: process_apply_def Let_def state_version_def [symmetric] split: sum.splits if_splits prod.splits)
    with dec rejected state_run(2) [of key cs s] show ?thesis by (auto simp: Let_def)
  next
    case (applied t st n)
    then have same: "dict_get (pms_states ?s1) key = dict_get (pms_states s) key"
      using state_run(3) [of key cs s] by (simp add: state_version_def)
    have "\<forall>e\<in>set (dc_effects d). dict_get (pms_effects s') (pe_effect_id e) = Some (EffectEntry key e)"
      using applied(8) dec(3) record_effects_get [OF ok] by auto
    with applied(7,8) dec same show ?thesis by (auto simp: Let_def dict_simps)
  qed
qed

theorem process_manager_commits_decision_on_its_state_witness:
  "let registry = [(''p'', \<lambda>c i. Inr sample_decision)];
       (r, s') = handle mem_process_port (\<lambda>s. snd (run process_step [] s)) registry (utc_datetime 0)
                   (ProcessKey ''p'' ''1'') JNull empty_processes
   in \<exists>st. r = Inr (ProcessApplied st 1 1 0) \<and> pst_version st = 1 \<and> dict_get (pms_states s') (ProcessKey ''p'' ''1'') = Some st"
proof -
  let ?reg = "[(''p'', \<lambda>c i. Inr sample_decision)]"
  have v: "process_apply (ProcessKey ''p'' ''1'') 0 sample_decision (utc_datetime 0) empty_processes =
      (Inr (ProcessApplied \<lparr>pst_key = ProcessKey ''p'' ''1'', pst_version = 1, pst_status = RUNNING, pst_state = JNull,
          pst_updated_at = 0\<rparr> 1 1 0), snd (process_step sample_call empty_processes))"
    by (simp add: sample_call_def process_apply_def empty_processes_def sample_decision_def sample_effect_def
      mk_process_state_def validate_json_def validate_json_with_def enter_def default_limits_def)
  then have h: "handle mem_process_port (\<lambda>s. snd (run process_step [] s)) ?reg (utc_datetime 0) (ProcessKey ''p'' ''1'') JNull
      empty_processes = (Inr (ProcessApplied \<lparr>pst_key = ProcessKey ''p'' ''1'', pst_version = 1, pst_status = RUNNING,
          pst_state = JNull, pst_updated_at = 0\<rparr> 1 1 0), snd (process_step sample_call empty_processes))"
    by (simp add: handle_def sbind_def mem_process_port_def process_load_def require_decider_def validate_json_def
        validate_json_with_def enter_def default_limits_def) (simp add: empty_processes_def)
  have "\<forall>name decide. dict_get ?reg name = Some decide \<longrightarrow> (\<forall>c i d. decide c i = Inr d \<longrightarrow> check_process_decision d = Inr d)"
    by auto
  from process_manager_commits_decision_on_its_state [OF this h] h show ?thesis by (auto simp: Let_def)
qed

end
