(* ===== verification/Jobs.thy ===== *)
theory Jobs
  imports Core Claims PyText Outbox
begin

text \<open>
  Model of \<open>src/src/pytitect/jobs.py\<close>: durable jobs with leased claims, retries bounded by
  \<open>max_attempts\<close>, recurring schedules that materialize into jobs, the in-memory store and the
  bounded runner.  The decision a handler returns is only stored, so its type is a parameter.
  Shown: a job settles at most once and carries at most one decision, claims are fenced,
  retries are bounded, and no occurrence of a schedule is skipped.
\<close>

declare map_of_eq_Some_iff [simp del] Some_eq_map_of_iff [simp del]

section \<open>Data\<close>

datatype job_state = SCHEDULED | SUCCEEDED | TERMINAL | CANCELLED

record job =
  jb_job_id :: string
  jb_task :: string
  jb_payload :: json
  jb_run_at :: instant
  jb_max_attempts :: int
  jb_attempt :: int
  jb_state :: job_state
  jb_last_failure :: "string option"

text \<open>\<open>__post_init__\<close>, which \<open>replace\<close> runs again.\<close>

definition check_job :: "job \<Rightarrow> job res" where
  "check_job j =
     (if jb_job_id j = [] \<or> jb_task j = [] then Inl ValueError
      else if jb_max_attempts j \<le> 0 \<or> \<not> (0 \<le> jb_attempt j \<and> jb_attempt j \<le> jb_max_attempts j) then Inl ValueError
      else and_then (validate_json (jb_payload j)) (\<lambda>_. Inr j))"

record job_claim =
  jc_job :: job
  jc_claim_id :: string
  jc_claimed_until :: instant
  jc_fencing_token :: int

datatype job_schedule_result = JobScheduled | JobDuplicate

datatype job_transition = JobSucceeded | JobRetried instant | JobTerminated string | StaleJobClaim

datatype schedule_kind = ONE_SHOT | FIXED_INTERVAL | CONSUMER_POLICY

record job_schedule =
  js_schedule_id :: string
  js_task :: string
  js_payload :: json
  js_next_run :: instant
  js_kind :: schedule_kind
  js_interval :: "timedelta option"
  js_policy :: "string option"
  js_max_attempts :: int
  js_sequence :: int
  js_active :: bool

definition check_schedule :: "job_schedule \<Rightarrow> job_schedule res" where
  "check_schedule sc =
     (if js_schedule_id sc = [] \<or> js_task sc = [] then Inl ValueError
      else and_then (validate_json (js_payload sc)) (\<lambda>_.
        if js_kind sc = FIXED_INTERVAL \<and> (case js_interval sc of None \<Rightarrow> True | Some i \<Rightarrow> i \<le> 0) then Inl ValueError
        else if js_kind sc = CONSUMER_POLICY \<and> (case js_policy sc of None \<Rightarrow> True | Some p \<Rightarrow> p = []) then Inl ValueError
        else if js_kind sc = ONE_SHOT \<and> (js_interval sc \<noteq> None \<or> js_policy sc \<noteq> None) then Inl ValueError
        else Inr sc))"

type_synonym next_run_policy = "job_schedule \<Rightarrow> datetime option res"

section \<open>The store protocol and the in-memory store\<close>

record ('d, 's) job_port =
  schedule_op :: "job \<Rightarrow> ('s, job_schedule_result) act"
  claim_op :: "datetime \<Rightarrow> int \<Rightarrow> timedelta \<Rightarrow> (nat \<Rightarrow> string) \<Rightarrow> ('s, job_claim list) act"
  succeed_op :: "job_claim \<Rightarrow> 'd \<Rightarrow> datetime \<Rightarrow> ('s, job_transition) act"
  retry_op :: "job_claim \<Rightarrow> string \<Rightarrow> datetime \<Rightarrow> ('s, job_transition) act"
  terminate_op :: "job_claim \<Rightarrow> string \<Rightarrow> datetime \<Rightarrow> ('s, job_transition) act"

record stored_job =
  sj_job :: job
  sj_claim_id :: "string option"
  sj_claimed_until :: "instant option"
  sj_fencing_token :: int

record 'd job_store =
  jbs_capacity :: int
  jbs_jobs :: "(string, stored_job) dict"
  jbs_schedules :: "(string, job_schedule) dict"
  jbs_decisions :: "(string \<times> 'd) list"

definition InMemoryJobStore :: "int \<Rightarrow> 'd job_store res" where
  "InMemoryJobStore capacity =
     (if capacity \<le> 0 then Inl ValueError
      else Inr \<lparr>jbs_capacity = capacity, jbs_jobs = [], jbs_schedules = [], jbs_decisions = []\<rparr>)"

definition job_get :: "string \<Rightarrow> ('d job_store, job option) act" where
  "job_get i s = (Inr (map_option sj_job (dict_get (jbs_jobs s) i)), s)"

definition ensure_capacity :: "int \<Rightarrow> 'd job_store \<Rightarrow> unit res" where
  "ensure_capacity count s =
     (if jbs_capacity s < int (length (jbs_jobs s)) + int (length (jbs_schedules s)) + int (length (jbs_decisions s)) + count
      then Inl OverflowError else Inr ())"

definition new_stored_job :: "job \<Rightarrow> stored_job" where
  "new_stored_job j = \<lparr>sj_job = j, sj_claim_id = None, sj_claimed_until = None, sj_fencing_token = 0\<rparr>"

definition job_schedule_add :: "job \<Rightarrow> ('d job_store, job_schedule_result) act" where
  "job_schedule_add j s =
     (if dict_get (jbs_jobs s) (jb_job_id j) \<noteq> None then (Inr JobDuplicate, s)
      else case ensure_capacity 1 s of
        Inl e \<Rightarrow> (Inl e, s)
      | Inr _ \<Rightarrow> (Inr JobScheduled, s\<lparr>jbs_jobs := dict_set (jb_job_id j) (new_stored_job j) (jbs_jobs s)\<rparr>))"

definition job_key_of :: "stored_job \<Rightarrow> string" where
  "job_key_of it = jb_job_id (sj_job it)"

definition job_order :: "stored_job \<Rightarrow> instant \<times> string" where
  "job_order it = (jb_run_at (sj_job it), jb_job_id (sj_job it))"

definition job_claimable :: "instant \<Rightarrow> stored_job \<Rightarrow> bool" where
  "job_claimable now it \<longleftrightarrow> \<not> (jb_state (sj_job it) \<noteq> SCHEDULED \<or> now < jb_run_at (sj_job it))
     \<and> \<not> (case sj_claimed_until it of None \<Rightarrow> False | Some u \<Rightarrow> now < u)"

definition mark_job ::
    "(nat \<Rightarrow> string) \<Rightarrow> instant \<Rightarrow> timedelta \<Rightarrow> nat \<Rightarrow> stored_job \<Rightarrow> (stored_job, job_claim) mark" where
  "mark_job uuid now ttl n it =
     (let it1 = it\<lparr>sj_fencing_token := sj_fencing_token it + 1, sj_claim_id := Some (uuid n)\<rparr> in
      case dt_plus now ttl of
        Inl e \<Rightarrow> MarkFailed e it1
      | Inr until \<Rightarrow> Marked (it1\<lparr>sj_claimed_until := Some until\<rparr>)
          \<lparr>jc_job = sj_job it, jc_claim_id = uuid n, jc_claimed_until = until,
           jc_fencing_token = sj_fencing_token it + 1\<rparr>)"

definition job_claim_arguments :: "int \<Rightarrow> timedelta \<Rightarrow> unit res" where
  "job_claim_arguments limit claim_ttl =
     (if limit \<le> 0 then Inl ValueError else if claim_ttl \<le> 0 then Inl ValueError else Inr ())"

definition job_claim_jobs ::
    "datetime \<Rightarrow> int \<Rightarrow> timedelta \<Rightarrow> (nat \<Rightarrow> string) \<Rightarrow> ('d job_store, job_claim list) act" where
  "job_claim_jobs now limit claim_ttl uuid s =
     (case and_then (require_aware_utc now) (\<lambda>t. and_then (job_claim_arguments limit claim_ttl) (\<lambda>_. Inr t)) of
        Inl e \<Rightarrow> (Inl e, s)
      | Inr t \<Rightarrow>
          case claim_each (mark_job uuid t claim_ttl) (job_claimable t) job_key_of limit
                 (claim_items job_order (jbs_jobs s)) [] (jbs_jobs s) of
            (r, jobs) \<Rightarrow> (r, s\<lparr>jbs_jobs := jobs\<rparr>))"

text \<open>\<open>_valid\<close>: the stored job a claim still controls.\<close>

definition valid_job :: "job_claim \<Rightarrow> 'd job_store \<Rightarrow> stored_job option" where
  "valid_job c s =
     (case dict_get (jbs_jobs s) (jb_job_id (jc_job c)) of
        None \<Rightarrow> None
      | Some it \<Rightarrow>
          if sj_claim_id it \<noteq> Some (jc_claim_id c) \<or> sj_fencing_token it \<noteq> jc_fencing_token c
             \<or> jb_state (sj_job it) \<noteq> SCHEDULED then None
          else Some it)"

text \<open>\<open>item.job = replace(...)\<close> followed by \<open>_release(item)\<close>.\<close>

definition settle_job :: "job \<Rightarrow> stored_job \<Rightarrow> 'd job_store \<Rightarrow> 'd job_store" where
  "settle_job j it s = s\<lparr>jbs_jobs := dict_set (job_key_of it)
     (it\<lparr>sj_job := j, sj_claim_id := None, sj_claimed_until := None\<rparr>) (jbs_jobs s)\<rparr>"

definition job_succeed :: "job_claim \<Rightarrow> 'd \<Rightarrow> datetime \<Rightarrow> ('d job_store, job_transition) act" where
  "job_succeed c decision on s =
     (case require_aware_utc on of
        Inl e \<Rightarrow> (Inl e, s)
      | Inr _ \<Rightarrow>
          case valid_job c s of
            None \<Rightarrow> (Inr StaleJobClaim, s)
          | Some it \<Rightarrow>
              if jbs_capacity s \<le> int (length (jbs_decisions s)) then (Inl OverflowError, s)
              else case check_job ((sj_job it)\<lparr>jb_state := SUCCEEDED\<rparr>) of
                Inl e \<Rightarrow> (Inl e, s)
              | Inr j \<Rightarrow> (Inr JobSucceeded,
                  (settle_job j it s)\<lparr>jbs_decisions := jbs_decisions s @ [(jb_job_id j, decision)]\<rparr>))"

definition sanitize_reason :: "string \<Rightarrow> string res" where
  "sanitize_reason r =
     (let t = take 512 (py_join '' '' (py_split r)) in if t = [] then Inl ValueError else Inr t)"

definition job_retry :: "job_claim \<Rightarrow> string \<Rightarrow> datetime \<Rightarrow> ('d job_store, job_transition) act" where
  "job_retry c reason run_at s =
     (case and_then (require_aware_utc run_at) (\<lambda>t. and_then (sanitize_reason reason) (\<lambda>r. Inr (t, r))) of
        Inl e \<Rightarrow> (Inl e, s)
      | Inr (t, sanitized) \<Rightarrow>
          case valid_job c s of
            None \<Rightarrow> (Inr StaleJobClaim, s)
          | Some it \<Rightarrow>
              let attempt = jb_attempt (sj_job it) + 1 in
              if jb_max_attempts (sj_job it) \<le> attempt
              then case check_job ((sj_job it)\<lparr>jb_attempt := attempt, jb_state := TERMINAL,
                                                jb_last_failure := Some sanitized\<rparr>) of
                     Inl e \<Rightarrow> (Inl e, s)
                   | Inr j \<Rightarrow> (Inr (JobTerminated sanitized), settle_job j it s)
              else case check_job ((sj_job it)\<lparr>jb_attempt := attempt, jb_run_at := t,
                                                jb_last_failure := Some sanitized\<rparr>) of
                     Inl e \<Rightarrow> (Inl e, s)
                   | Inr j \<Rightarrow> (Inr (JobRetried t), settle_job j it s))"

definition job_terminate :: "job_claim \<Rightarrow> string \<Rightarrow> datetime \<Rightarrow> ('d job_store, job_transition) act" where
  "job_terminate c reason on s =
     (case and_then (require_aware_utc on) (\<lambda>_. sanitize_reason reason) of
        Inl e \<Rightarrow> (Inl e, s)
      | Inr sanitized \<Rightarrow>
          case valid_job c s of
            None \<Rightarrow> (Inr StaleJobClaim, s)
          | Some it \<Rightarrow>
              case check_job ((sj_job it)\<lparr>jb_state := TERMINAL, jb_last_failure := Some sanitized\<rparr>) of
                Inl e \<Rightarrow> (Inl e, s)
              | Inr j \<Rightarrow> (Inr (JobTerminated sanitized), settle_job j it s))"

definition add_schedule :: "job_schedule \<Rightarrow> ('d job_store, bool) act" where
  "add_schedule sc s =
     (if dict_get (jbs_schedules s) (js_schedule_id sc) \<noteq> None then (Inr False, s)
      else case ensure_capacity 1 s of
        Inl e \<Rightarrow> (Inl e, s)
      | Inr _ \<Rightarrow> (Inr True, s\<lparr>jbs_schedules := dict_set (js_schedule_id sc) sc (jbs_schedules s)\<rparr>))"

text \<open>A policy that raises \<open>KeyError\<close> is reported like an unknown one.\<close>

definition advance_schedule :: "(string, next_run_policy) dict \<Rightarrow> job_schedule \<Rightarrow> job_schedule res" where
  "advance_schedule policies sc =
     (case js_kind sc of
        ONE_SHOT \<Rightarrow> check_schedule (sc\<lparr>js_sequence := js_sequence sc + 1, js_active := False\<rparr>)
      | FIXED_INTERVAL \<Rightarrow>
          (case js_interval sc of
             None \<Rightarrow> Inl AssertionError
           | Some i \<Rightarrow> and_then (dt_plus (js_next_run sc) i) (\<lambda>t.
               check_schedule (sc\<lparr>js_sequence := js_sequence sc + 1, js_next_run := t\<rparr>)))
      | CONSUMER_POLICY \<Rightarrow>
          (case js_policy sc of
             None \<Rightarrow> Inl AssertionError
           | Some p \<Rightarrow>
               (case (case dict_get policies p of None \<Rightarrow> Inl KeyError | Some f \<Rightarrow> f sc) of
                  Inl e \<Rightarrow> Inl (if e = KeyError then LookupError else e)
                | Inr None \<Rightarrow> check_schedule (sc\<lparr>js_sequence := js_sequence sc + 1, js_active := False\<rparr>)
                | Inr (Some d) \<Rightarrow> and_then (require_aware_utc d) (\<lambda>t.
                    if t \<le> js_next_run sc then Inl ValueError
                    else check_schedule (sc\<lparr>js_sequence := js_sequence sc + 1, js_next_run := t\<rparr>)))))"

definition occurrence_id :: "job_schedule \<Rightarrow> string" where
  "occurrence_id sc = js_schedule_id sc @ CHR '':'' # str_of_int (js_sequence sc)"

definition occurrence_job :: "job_schedule \<Rightarrow> job" where
  "occurrence_job sc =
     \<lparr>jb_job_id = occurrence_id sc, jb_task = js_task sc, jb_payload = js_payload sc, jb_run_at = js_next_run sc,
      jb_max_attempts = js_max_attempts sc, jb_attempt = 0, jb_state = SCHEDULED, jb_last_failure = None\<rparr>"

text \<open>The part of the loop body of \<open>materialize\<close> that creates the job of an occurrence, and the loop.\<close>

definition create_occurrence :: "job_schedule \<Rightarrow> int \<Rightarrow> ('d job_store, int) act" where
  "create_occurrence sc created s =
     (if dict_get (jbs_jobs s) (occurrence_id sc) \<noteq> None then (Inr created, s)
      else case and_then (ensure_capacity 1 s) (\<lambda>_. check_job (occurrence_job sc)) of
        Inl e \<Rightarrow> (Inl e, s)
      | Inr j \<Rightarrow> (Inr (created + 1), s\<lparr>jbs_jobs := dict_set (occurrence_id sc) (new_stored_job j) (jbs_jobs s)\<rparr>))"

definition schedule_due :: "instant \<Rightarrow> job_schedule \<Rightarrow> bool" where
  "schedule_due now sc \<longleftrightarrow> js_active sc \<and> js_next_run sc \<le> now"

fun materialize_each ::
    "(string, next_run_policy) dict \<Rightarrow> instant \<Rightarrow> int \<Rightarrow> job_schedule list \<Rightarrow> int \<Rightarrow> ('d job_store, int) act" where
  "materialize_each policies now limit [] created s = (Inr created, s)"
| "materialize_each policies now limit (sc # scs) created s =
     (if limit \<le> created \<or> \<not> schedule_due now sc then materialize_each policies now limit scs created s
      else case create_occurrence sc created s of
        (Inl e, s1) \<Rightarrow> (Inl e, s1)
      | (Inr created', s1) \<Rightarrow>
          case advance_schedule policies sc of
            Inl e \<Rightarrow> (Inl e, s1)
          | Inr sc' \<Rightarrow> materialize_each policies now limit scs created'
              (s1\<lparr>jbs_schedules := dict_set (js_schedule_id sc) sc' (jbs_schedules s1)\<rparr>))"

definition schedule_order :: "job_schedule \<Rightarrow> instant \<times> string" where
  "schedule_order sc = (js_next_run sc, js_schedule_id sc)"

definition materialize :: "datetime \<Rightarrow> int \<Rightarrow> (string, next_run_policy) dict \<Rightarrow> ('d job_store, int) act" where
  "materialize now limit policies s =
     (case require_aware_utc now of
        Inl e \<Rightarrow> (Inl e, s)
      | Inr t \<Rightarrow>
          if limit \<le> 0 then (Inl ValueError, s)
          else materialize_each policies t limit (sort_key schedule_order (map snd (jbs_schedules s))) 0 s)"

definition mem_job_port :: "('d, 'd job_store) job_port" where
  "mem_job_port = \<lparr>schedule_op = job_schedule_add, claim_op = job_claim_jobs, succeed_op = job_succeed,
                   retry_op = job_retry, terminate_op = job_terminate\<rparr>"

section \<open>The runner\<close>

text \<open>What a handler does: return a decision, raise \<open>PermanentJobError\<close> with a message, or raise another
  exception, of which the runner uses the type name.\<close>

datatype 'd job_outcome = Returns 'd | PermanentJobError string | OtherException string

type_synonym ('d, 's) job_handler = "job \<Rightarrow> 's \<Rightarrow> 'd job_outcome \<times> 's"

record job_run_summary =
  jr_claimed :: int
  jr_succeeded :: int
  jr_retried :: int
  jr_terminated :: int

definition run_claim ::
    "('d, 's) job_port \<Rightarrow> (string, ('d, 's) job_handler) dict \<Rightarrow> retry_policy \<Rightarrow> datetime \<Rightarrow> job_claim
     \<Rightarrow> ('s, job_transition) act" where
  "run_claim port handlers policy now c s =
     (case (case dict_get handlers (jb_task (jc_job c)) of
              None \<Rightarrow> (OtherException ''KeyError'', s)
            | Some h \<Rightarrow> h (jc_job c) s) of
        (PermanentJobError msg, s1) \<Rightarrow> terminate_op port c msg now s1
      | (OtherException name, s1) \<Rightarrow>
          sbind (slift (and_then (retry_delay policy (jb_attempt (jc_job c) + 1)) (dt_shift now)))
            (\<lambda>run_at. retry_op port c name run_at) s1
      | (Returns d, s1) \<Rightarrow> succeed_op port c d now s1)"

fun count_transition :: "job_transition \<Rightarrow> job_run_summary \<Rightarrow> job_run_summary" where
  "count_transition JobSucceeded sm = sm\<lparr>jr_succeeded := jr_succeeded sm + 1\<rparr>"
| "count_transition (JobRetried t) sm = sm\<lparr>jr_retried := jr_retried sm + 1\<rparr>"
| "count_transition (JobTerminated r) sm = sm\<lparr>jr_terminated := jr_terminated sm + 1\<rparr>"
| "count_transition StaleJobClaim sm = sm"

fun run_claims ::
    "('d, 's) job_port \<Rightarrow> (string, ('d, 's) job_handler) dict \<Rightarrow> retry_policy \<Rightarrow> datetime \<Rightarrow> job_claim list
     \<Rightarrow> job_run_summary \<Rightarrow> ('s, job_run_summary) act" where
  "run_claims port handlers policy now [] sm = sreturn sm"
| "run_claims port handlers policy now (c # cs) sm =
     sbind (run_claim port handlers policy now c) (\<lambda>tr.
       run_claims port handlers policy now cs (count_transition tr sm))"

definition run_once ::
    "('d, 's) job_port \<Rightarrow> (string, ('d, 's) job_handler) dict \<Rightarrow> retry_policy \<Rightarrow> datetime \<Rightarrow> int \<Rightarrow> timedelta
     \<Rightarrow> (nat \<Rightarrow> string) \<Rightarrow> ('s, job_run_summary) act" where
  "run_once port handlers policy now limit claim_ttl uuid =
     sbind (claim_op port now limit claim_ttl uuid) (\<lambda>claims.
       run_claims port handlers policy now claims
         \<lparr>jr_claimed = int (length claims), jr_succeeded = 0, jr_retried = 0, jr_terminated = 0\<rparr>)"

section \<open>Calls and invariant\<close>

datatype 'd job_call =
    Schedule job
  | ClaimJobs datetime int timedelta "nat \<Rightarrow> string"
  | Succeed job_claim 'd datetime
  | Retry job_claim string datetime
  | Terminate job_claim string datetime
  | AddSchedule job_schedule
  | Materialize datetime int "(string, next_run_policy) dict"

datatype job_reply =
    ScheduleReply "job_schedule_result res" | ClaimReply "job_claim list res"
  | TransitionReply "job_transition res" | AddReply "bool res" | MaterializeReply "int res"

fun job_step :: "'d job_call \<Rightarrow> 'd job_store \<Rightarrow> job_reply \<times> 'd job_store" where
  "job_step (Schedule j) s = apfst ScheduleReply (job_schedule_add j s)"
| "job_step (ClaimJobs now limit ttl uuid) s = apfst ClaimReply (job_claim_jobs now limit ttl uuid s)"
| "job_step (Succeed c d on) s = apfst TransitionReply (job_succeed c d on s)"
| "job_step (Retry c r on) s = apfst TransitionReply (job_retry c r on s)"
| "job_step (Terminate c r on) s = apfst TransitionReply (job_terminate c r on s)"
| "job_step (AddSchedule sc) s = apfst AddReply (add_schedule sc s)"
| "job_step (Materialize now limit policies) s = apfst MaterializeReply (materialize now limit policies s)"

text \<open>Jobs and schedules are validated by their constructors.\<close>

fun job_call_ok :: "'d job_call \<Rightarrow> 'd job_store \<Rightarrow> bool" where
  "job_call_ok (Schedule j) s \<longleftrightarrow> check_job j = Inr j"
| "job_call_ok (AddSchedule sc) s \<longleftrightarrow> check_schedule sc = Inr sc"
| "job_call_ok _ s \<longleftrightarrow> True"

definition job_inv :: "'d job_store \<Rightarrow> bool" where
  "job_inv s \<longleftrightarrow> 0 < jbs_capacity s \<and> keyed job_key_of (jbs_jobs s) \<and> keyed js_schedule_id (jbs_schedules s)
     \<and> (\<forall>i it. dict_get (jbs_jobs s) i = Some it \<longrightarrow> check_job (sj_job it) = Inr (sj_job it) \<and> 0 \<le> sj_fencing_token it)
     \<and> distinct (map fst (jbs_decisions s))
     \<and> (\<forall>(i, d)\<in>set (jbs_decisions s). \<exists>it. dict_get (jbs_jobs s) i = Some it \<and> jb_state (sj_job it) = SUCCEEDED)
     \<and> int (length (jbs_decisions s)) \<le> jbs_capacity s"

lemma job_invD:
  assumes "job_inv s"
  shows "keyed job_key_of (jbs_jobs s)" "keyed js_schedule_id (jbs_schedules s)"
    "dict_get (jbs_jobs s) i = Some it \<Longrightarrow> check_job (sj_job it) = Inr (sj_job it)"
    "dict_get (jbs_jobs s) i = Some it \<Longrightarrow> job_key_of it = i"
    "(i, d) \<in> set (jbs_decisions s) \<Longrightarrow> \<exists>it. dict_get (jbs_jobs s) i = Some it \<and> jb_state (sj_job it) = SUCCEEDED"
  using assms unfolding job_inv_def keyed_def by blast+

text \<open>How a stored job may change: its identity and bound stay, the token and the attempts do not decrease,
  and a job that has left \<open>SCHEDULED\<close> is frozen.\<close>

definition job_evolves :: "stored_job \<Rightarrow> stored_job \<Rightarrow> bool" where
  "job_evolves it it' \<longleftrightarrow> job_key_of it' = job_key_of it \<and> jb_max_attempts (sj_job it') = jb_max_attempts (sj_job it)
     \<and> sj_fencing_token it \<le> sj_fencing_token it' \<and> jb_attempt (sj_job it) \<le> jb_attempt (sj_job it')
     \<and> (jb_state (sj_job it) \<noteq> SCHEDULED \<longrightarrow> it' = it)"

lemma job_evolves_refl [simp]: "job_evolves it it"
  by (simp add: job_evolves_def)

lemma job_evolves_trans: "job_evolves it it' \<Longrightarrow> job_evolves it' it'' \<Longrightarrow> job_evolves it it''"
  by (auto simp: job_evolves_def)

lemma check_job_same: "check_job j = Inr j' \<Longrightarrow> j' = j"
  by (auto simp: check_job_def and_then_eq_Inr split: if_splits)

lemma check_job_attempts: "check_job j = Inr j' \<Longrightarrow> 0 \<le> jb_attempt j \<and> jb_attempt j \<le> jb_max_attempts j \<and> 0 < jb_max_attempts j"
  by (auto simp: check_job_def split: if_splits)

lemma valid_jobD:
  assumes "valid_job c s = Some it"
  shows "dict_get (jbs_jobs s) (jb_job_id (jc_job c)) = Some it" "sj_claim_id it = Some (jc_claim_id c)"
    "sj_fencing_token it = jc_fencing_token c" "jb_state (sj_job it) = SCHEDULED"
  using assms by (auto simp: valid_job_def split: option.splits if_splits)

text \<open>What a transition does to the job it settles.\<close>

fun settles_as :: "job_transition \<Rightarrow> job \<Rightarrow> job \<Rightarrow> bool" where
  "settles_as JobSucceeded j j' \<longleftrightarrow> j' = j\<lparr>jb_state := SUCCEEDED\<rparr>"
| "settles_as (JobRetried t) j j' \<longleftrightarrow> jb_attempt j + 1 < jb_max_attempts j
     \<and> (\<exists>r. j' = j\<lparr>jb_attempt := jb_attempt j + 1, jb_run_at := t, jb_last_failure := Some r\<rparr>)"
| "settles_as (JobTerminated r) j j' \<longleftrightarrow>
     (\<exists>a. jb_attempt j \<le> a \<and> j' = j\<lparr>jb_attempt := a, jb_state := TERMINAL, jb_last_failure := Some r\<rparr>)"
| "settles_as StaleJobClaim j j' \<longleftrightarrow> False"

text \<open>The three transition calls: nothing happens, or the claim is valid and the job is settled.\<close>

fun transition_of :: "'d job_call \<Rightarrow> (job_claim \<times> 'd option) option" where
  "transition_of (Succeed c d on) = Some (c, Some d)"
| "transition_of (Retry c r on) = Some (c, None)"
| "transition_of (Terminate c r on) = Some (c, None)"
| "transition_of _ = None"

lemma transition_cases:
  assumes "transition_of x = Some (c, d)"
  obtains (unsettled) r where "job_step x s = (TransitionReply r, s)" "\<And>tr. r = Inr tr \<Longrightarrow> tr = StaleJobClaim"
  | (settled) it j tr where "valid_job c s = Some it" "check_job j = Inr j" "settles_as tr (sj_job it) j"
      "job_step x s = (TransitionReply (Inr tr), (settle_job j it s)\<lparr>jbs_decisions :=
         jbs_decisions s @ (case d of Some d \<Rightarrow> [(jb_job_id j, d)] | None \<Rightarrow> [])\<rparr>)"
      "int (length (jbs_decisions s)) < jbs_capacity s \<or> d = None" "d \<noteq> None \<longleftrightarrow> tr = JobSucceeded"
proof (cases "valid_job c s")
  case None
  then have "\<exists>r. job_step x s = (TransitionReply r, s) \<and> (\<forall>tr. r = Inr tr \<longrightarrow> tr = StaleJobClaim)"
    using assms by (cases x) (auto simp: job_succeed_def job_retry_def job_terminate_def split: sum.splits)
  then show thesis using unsettled by blast
next
  case (Some it)
  show thesis
  proof (cases "\<exists>e. fst (job_step x s) = TransitionReply (Inl e)")
    case True
    then have "\<exists>e. job_step x s = (TransitionReply (Inl e), s)"
      using assms Some by (cases x)
        (auto simp: job_succeed_def job_retry_def job_terminate_def Let_def split: sum.splits if_splits prod.splits)
    then show thesis using unsettled by blast
  next
    case False
    have dec: "s\<lparr>jbs_decisions := jbs_decisions s\<rparr> = s" "(settle_job j it s)\<lparr>jbs_decisions := jbs_decisions s\<rparr> = settle_job j it s" for j
      by (simp_all add: settle_job_def)
    show thesis
    proof (cases x)
      case (Succeed c' d' on)
      with False Some assms show thesis
        by (intro settled [of it "(sj_job it)\<lparr>jb_state := SUCCEEDED\<rparr>" JobSucceeded])
          (auto simp: job_succeed_def dest: check_job_same split: sum.splits if_splits)
    next
      case (Terminate c' r on)
      with False Some assms obtain r' where r': "sanitize_reason r = Inr r'"
        by (auto simp: job_terminate_def and_then_eq_Inr split: sum.splits)
      from Terminate False Some assms r' show thesis
        by (intro settled [of it "(sj_job it)\<lparr>jb_state := TERMINAL, jb_last_failure := Some r'\<rparr>" "JobTerminated r'"])
          (auto simp: job_terminate_def dec and_then_eq_Inr dest: check_job_same intro: exI [of _ "jb_attempt (sj_job it)"]
            split: sum.splits if_splits)
    next
      case (Retry c' r on)
      with False Some assms obtain t r' where r': "sanitize_reason r = Inr r'" "require_aware_utc on = Inr t"
        by (auto simp: job_retry_def and_then_eq_Inr split: sum.splits)
      show thesis
      proof (cases "jb_max_attempts (sj_job it) \<le> jb_attempt (sj_job it) + 1")
        case True
        with Retry False Some assms r' show thesis
          by (intro settled [of it "(sj_job it)\<lparr>jb_attempt := jb_attempt (sj_job it) + 1, jb_state := TERMINAL,
                jb_last_failure := Some r'\<rparr>" "JobTerminated r'"])
            (auto simp: job_retry_def dec Let_def dest: check_job_same intro: exI [of _ "jb_attempt (sj_job it) + 1"]
              split: sum.splits if_splits)
      next
        case lt: False
        with Retry False Some assms r' show thesis
          by (intro settled [of it "(sj_job it)\<lparr>jb_attempt := jb_attempt (sj_job it) + 1, jb_run_at := t,
                jb_last_failure := Some r'\<rparr>" "JobRetried t"])
            (auto simp: job_retry_def dec Let_def dest: check_job_same split: sum.splits if_splits)
      qed
    qed (use assms in simp_all)
  qed
qed

lemma settles_as_evolves:
  "settles_as tr j j' \<Longrightarrow> jb_job_id j' = jb_job_id j \<and> jb_max_attempts j' = jb_max_attempts j \<and> jb_attempt j \<le> jb_attempt j'"
  by (cases tr) auto

lemma settle_job_get:
  assumes "job_inv s" and "valid_job c s = Some it"
  shows "dict_get (jbs_jobs (settle_job j it s)) i =
    (if i = jb_job_id (jc_job c) then Some (it\<lparr>sj_job := j, sj_claim_id := None, sj_claimed_until := None\<rparr>)
     else dict_get (jbs_jobs s) i)"
  using job_invD(4) [OF assms(1) valid_jobD(1) [OF assms(2)]] by (simp add: settle_job_def dict_simps)

text \<open>Claiming.\<close>

lemma job_claim_cases:
  obtains (rejected) e where "job_claim_jobs now limit ttl uuid s = (Inl e, s)"
  | (claimed) t r jobs where "require_aware_utc now = Inr t"
      "claim_each (mark_job uuid t ttl) (job_claimable t) job_key_of limit (claim_items job_order (jbs_jobs s)) []
         (jbs_jobs s) = (r, jobs)"
      "job_claim_jobs now limit ttl uuid s = (r, s\<lparr>jbs_jobs := jobs\<rparr>)"
proof (cases "and_then (require_aware_utc now) (\<lambda>t. and_then (job_claim_arguments limit ttl) (\<lambda>_. Inr t))")
  case (Inl e)
  then show thesis by (intro rejected) (simp add: job_claim_jobs_def)
next
  case (Inr t)
  obtain r jobs where "claim_each (mark_job uuid t ttl) (job_claimable t) job_key_of limit
      (claim_items job_order (jbs_jobs s)) [] (jbs_jobs s) = (r, jobs)" by fastforce
  with Inr show thesis by (intro claimed) (auto simp: job_claim_jobs_def and_then_eq_Inr)
qed

lemma mark_job_Marked:
  "mark_job uuid now ttl n it = Marked it' c \<Longrightarrow> sj_job it' = sj_job it \<and> jc_job c = sj_job it
     \<and> sj_claim_id it' = Some (jc_claim_id c) \<and> sj_fencing_token it' = jc_fencing_token c
     \<and> jc_fencing_token c = sj_fencing_token it + 1"
  by (auto simp: mark_job_def Let_def split: sum.splits)

lemma mark_job_evolves:
  assumes "job_claimable now' it"
  shows "mark_job uuid now ttl n it = Marked it' c \<Longrightarrow> job_evolves it it' \<and> sj_job it' = sj_job it"
    "mark_job uuid now ttl n it = MarkFailed e it' \<Longrightarrow> job_evolves it it' \<and> sj_job it' = sj_job it"
  using assms by (auto simp: mark_job_def Let_def job_evolves_def job_key_of_def job_claimable_def split: sum.splits)

lemma job_claim_evolves:
  assumes inv: "job_inv s" and it: "dict_get (jbs_jobs s) i = Some it"
  shows "\<exists>it'. dict_get (jbs_jobs (snd (job_claim_jobs now limit ttl uuid s))) i = Some it' \<and> job_evolves it it'
    \<and> sj_job it' = sj_job it"
proof (cases rule: job_claim_cases [of now limit ttl uuid s])
  case (claimed u r jobs)
  note k = job_invD(1) [OF inv]
  have i: "job_key_of it = i" by (rule keyedD [OF k it])
  with it have mem: "it \<in> set (claim_items job_order (jbs_jobs s))" by (simp add: claim_items_keyed(2) [OF k])
  have "dict_get (jbs_jobs s) (job_key_of it) = Some it" using it i by simp
  with claim_items_keyed(1) [OF k] mem have "\<exists>it'. dict_get jobs i = Some it' \<and> job_evolves it it' \<and> sj_job it' = sj_job it"
    using claimed(2) by (cases rule: claim_each_item) (auto simp: i dest: mark_job_evolves)
  with claimed(3) show ?thesis by simp
qed (use it in auto)

lemma job_claim_keys:
  assumes inv: "job_inv s"
  shows "map fst (jbs_jobs (snd (job_claim_jobs now limit ttl uuid s))) = map fst (jbs_jobs s)"
proof (cases rule: job_claim_cases [of now limit ttl uuid s])
  case (claimed u r jobs)
  have "\<forall>i\<in>set (claim_items job_order (jbs_jobs s)). dict_get (jbs_jobs s) (job_key_of i) \<noteq> None"
    using claim_items_keyed(2) [OF job_invD(1) [OF inv]] by auto
  from claim_each_keys [OF this, of "mark_job uuid u ttl" "job_claimable u" limit "[]"] claimed show ?thesis by simp
qed simp

lemma job_claim_inv:
  assumes inv: "job_inv s"
  shows "job_inv (snd (job_claim_jobs now limit ttl uuid s))"
proof -
  let ?s = "snd (job_claim_jobs now limit ttl uuid s)"
  note keys = job_claim_keys [OF inv, of now limit ttl uuid]
  have rest: "jbs_capacity ?s = jbs_capacity s" "jbs_schedules ?s = jbs_schedules s" "jbs_decisions ?s = jbs_decisions s"
    by (cases rule: job_claim_cases [of now limit ttl uuid s]; simp)+
  have origin: "\<exists>it. dict_get (jbs_jobs s) i = Some it \<and> job_evolves it it' \<and> sj_job it' = sj_job it"
    if "dict_get (jbs_jobs ?s) i = Some it'" for i it'
  proof -
    have "i \<in> fst ` set (jbs_jobs s)" using that keys by (metis list.set_map map_of_eq_None_iff option.distinct(1))
    then obtain it where it: "dict_get (jbs_jobs s) i = Some it" by (metis map_of_eq_None_iff not_None_eq)
    from job_claim_evolves [OF inv it, of now limit ttl uuid] that it show ?thesis by auto
  qed
  have k: "keyed job_key_of (jbs_jobs ?s)"
    using job_invD(1) [OF inv] keys origin unfolding keyed_def job_key_of_def by (metis (mono_tags, opaque_lifting))
  have "check_job (sj_job it') = Inr (sj_job it') \<and> 0 \<le> sj_fencing_token it'" if "dict_get (jbs_jobs ?s) i = Some it'" for i it'
    using origin [OF that] inv by (fastforce simp: job_inv_def job_evolves_def)
  moreover have "\<exists>it'. dict_get (jbs_jobs ?s) i = Some it' \<and> jb_state (sj_job it') = SUCCEEDED" if "(i, d) \<in> set (jbs_decisions s)" for i d
    using job_invD(5) [OF inv that] job_claim_evolves [OF inv] by metis
  ultimately show ?thesis using inv k rest unfolding job_inv_def by auto
qed

text \<open>Transitions.\<close>

lemma transition_inv:
  assumes inv: "job_inv s" and x: "transition_of x = Some (c, d)"
  shows "job_inv (snd (job_step x s))"
  using x
proof (cases rule: transition_cases [where s = s])
  case (settled it j tr)
  note get = settle_job_get [OF inv settled(1), of j]
  note v = valid_jobD [OF settled(1)]
  have id: "jb_job_id j = jb_job_id (jc_job c)" "job_key_of it = jb_job_id (jc_job c)"
    using settles_as_evolves [OF settled(3)] job_invD(4) [OF inv v(1)] by (simp_all add: job_key_of_def)
  have k: "keyed job_key_of (jbs_jobs (settle_job j it s))"
    using job_invD(1) [OF inv] id get by (auto simp: keyed_def settle_job_def job_key_of_def)
  have new: "\<not> (\<exists>d. (jb_job_id j, d) \<in> set (jbs_decisions s))"
    using job_invD(5) [OF inv] v(1,4) id(1) by fastforce
  have old: "dict_get (jbs_jobs (settle_job j it s)) i = dict_get (jbs_jobs s) i" if "(i, d') \<in> set (jbs_decisions s)" for i d'
    using that new get id(1) by auto
  let ?ds = "jbs_decisions s @ (case d of Some d \<Rightarrow> [(jb_job_id j, d)] | None \<Rightarrow> [])"
  have "distinct (map fst ?ds)" using inv new unfolding job_inv_def by (force split: option.splits)
  moreover have "\<exists>it'. dict_get (jbs_jobs (settle_job j it s)) i = Some it' \<and> jb_state (sj_job it') = SUCCEEDED"
    if "(i, d') \<in> set ?ds" for i d'
  proof (cases "(i, d') \<in> set (jbs_decisions s)")
    case True
    with old job_invD(5) [OF inv True] show ?thesis by metis
  next
    case False
    then have "i = jb_job_id j" "d \<noteq> None" using that by (auto split: option.splits)
    with get id(1) settled(3,6) show ?thesis by auto
  qed
  moreover have "int (length ?ds) \<le> jbs_capacity s" using inv settled(5) unfolding job_inv_def by (auto split: option.splits)
  moreover have "check_job (sj_job it') = Inr (sj_job it') \<and> 0 \<le> sj_fencing_token it'"
    if "dict_get (jbs_jobs (settle_job j it s)) i = Some it'" for i it'
    using that get settled(2) inv v(1) unfolding job_inv_def by (auto split: if_splits)
  ultimately show ?thesis
    using inv k settled(4) unfolding job_inv_def by (auto simp: settle_job_def)
qed (use inv in simp)

lemma transition_evolves:
  assumes inv: "job_inv s" and x: "transition_of x = Some (c, d)" and it: "dict_get (jbs_jobs s) i = Some it"
  shows "\<exists>it'. dict_get (jbs_jobs (snd (job_step x s))) i = Some it' \<and> job_evolves it it'"
  using x
proof (cases rule: transition_cases [where s = s])
  case (settled it0 j tr)
  have "jb_job_id j = job_key_of it0" using settles_as_evolves [OF settled(3)] by (simp add: job_key_of_def)
  with settle_job_get [OF inv settled(1), of j i] it valid_jobD [OF settled(1)] settles_as_evolves [OF settled(3)] settled(4)
  show ?thesis by (auto simp: job_evolves_def job_key_of_def)
qed (use it in auto)

text \<open>Materializing.\<close>

lemma check_schedule_same: "check_schedule sc = Inr sc' \<Longrightarrow> sc' = sc"
  by (auto simp: check_schedule_def and_then_eq_Inr split: if_splits)

lemma advance_schedule_Inr:
  assumes "advance_schedule policies sc = Inr sc'"
  shows "js_schedule_id sc' = js_schedule_id sc" "js_sequence sc' = js_sequence sc + 1" "js_kind sc' = js_kind sc"
    "js_interval sc' = js_interval sc" "js_task sc' = js_task sc" "js_payload sc' = js_payload sc"
    "js_kind sc = ONE_SHOT \<Longrightarrow> \<not> js_active sc'"
    "js_kind sc = FIXED_INTERVAL \<Longrightarrow> js_active sc' = js_active sc \<and> js_next_run sc' = js_next_run sc + the (js_interval sc)"
  using assms unfolding advance_schedule_def
  by (auto simp: and_then_eq_Inr dt_plus_Inr_iff dest!: check_schedule_same
      split: schedule_kind.splits option.splits sum.splits if_splits)

lemma create_occurrence_cases:
  obtains (raised) e where "create_occurrence sc created s = (Inl e, s)"
  | (present) "create_occurrence sc created s = (Inr created, s)" "dict_get (jbs_jobs s) (occurrence_id sc) \<noteq> None"
  | (created) "dict_get (jbs_jobs s) (occurrence_id sc) = None" "check_job (occurrence_job sc) = Inr (occurrence_job sc)"
      "create_occurrence sc created s = (Inr (created + 1), s\<lparr>jbs_jobs :=
         dict_set (occurrence_id sc) (new_stored_job (occurrence_job sc)) (jbs_jobs s)\<rparr>)"
proof (cases "dict_get (jbs_jobs s) (occurrence_id sc)")
  case None
  show thesis
  proof (cases "and_then (ensure_capacity 1 s) (\<lambda>_. check_job (occurrence_job sc))")
    case (Inl e)
    with None raised show thesis by (simp add: create_occurrence_def)
  next
    case (Inr j)
    then have "check_job (occurrence_job sc) = Inr j" by (auto simp: and_then_eq_Inr)
    with check_job_same [OF this] Inr None created show thesis by (simp add: create_occurrence_def)
  qed
next
  case (Some it)
  with present show thesis by (simp add: create_occurrence_def)
qed

lemma create_occurrence_inv:
  assumes inv: "job_inv s"
  shows "job_inv (snd (create_occurrence sc created s))"
proof (cases rule: create_occurrence_cases [of sc created s])
  case created
  let ?jobs = "dict_set (occurrence_id sc) (new_stored_job (occurrence_job sc)) (jbs_jobs s)"
  have "keyed job_key_of ?jobs"
    using job_invD(1) [OF inv] by (auto simp: keyed_def dict_simps job_key_of_def new_stored_job_def occurrence_job_def)
  moreover have "\<exists>it. dict_get ?jobs i = Some it \<and> jb_state (sj_job it) = SUCCEEDED" if "(i, d) \<in> set (jbs_decisions s)" for i d
    using job_invD(5) [OF inv that] created(1) by (auto simp: dict_simps)
  ultimately show ?thesis
    using inv created(2,3) unfolding job_inv_def by (auto simp: dict_simps new_stored_job_def)
qed (use inv in auto)

lemma create_occurrence_spec:
  assumes "create_occurrence sc created s = (r, s')"
  shows "jbs_schedules s' = jbs_schedules s" "jbs_decisions s' = jbs_decisions s"
    "dict_get (jbs_jobs s) i = Some it \<Longrightarrow> dict_get (jbs_jobs s') i = Some it"
    "dict_get (jbs_jobs s') i = Some it \<Longrightarrow> dict_get (jbs_jobs s) i = Some it
       \<or> i = occurrence_id sc \<and> it = new_stored_job (occurrence_job sc)"
    "r = Inr n \<Longrightarrow> dict_get (jbs_jobs s') (occurrence_id sc) \<noteq> None \<and> (n = created \<or> n = created + 1)"
proof -
  have s': "s' = snd (create_occurrence sc created s)" and r: "r = fst (create_occurrence sc created s)" using assms by simp_all
  show "jbs_schedules s' = jbs_schedules s" "jbs_decisions s' = jbs_decisions s"
    unfolding s' by (cases rule: create_occurrence_cases [of sc created s]; simp)+
  show "dict_get (jbs_jobs s') i = Some it" if "dict_get (jbs_jobs s) i = Some it"
    unfolding s' using that by (cases rule: create_occurrence_cases [of sc created s]) (auto simp: dict_simps)
  show "dict_get (jbs_jobs s) i = Some it \<or> i = occurrence_id sc \<and> it = new_stored_job (occurrence_job sc)"
    if "dict_get (jbs_jobs s') i = Some it"
    using that unfolding s' by (cases rule: create_occurrence_cases [of sc created s]) (auto simp: dict_simps split: if_splits)
  show "dict_get (jbs_jobs s') (occurrence_id sc) \<noteq> None \<and> (n = created \<or> n = created + 1)" if "r = Inr n"
    using that unfolding s' r by (cases rule: create_occurrence_cases [of sc created s]) (auto simp: dict_simps)
qed

text \<open>The loop as a whole: jobs stay, new ones are the occurrences of due schedules, and each schedule is
  untouched or advanced after its occurrence was created.\<close>

definition advanced_by :: "instant \<Rightarrow> (string, next_run_policy) dict \<Rightarrow> 'd job_store \<Rightarrow> job_schedule \<Rightarrow> job_schedule \<Rightarrow> bool" where
  "advanced_by now policies s' sc sc' \<longleftrightarrow> schedule_due now sc \<and> advance_schedule policies sc = Inr sc'
     \<and> dict_get (jbs_jobs s') (occurrence_id sc) \<noteq> None"

lemma set_schedule_inv:
  assumes "job_inv s" and "js_schedule_id sc' = i"
  shows "job_inv (s\<lparr>jbs_schedules := dict_set i sc' (jbs_schedules s)\<rparr>)"
  using assms unfolding job_inv_def by (auto simp: keyed_def dict_simps)

definition materialized ::
    "(string, next_run_policy) dict \<Rightarrow> instant \<Rightarrow> int \<Rightarrow> job_schedule list \<Rightarrow> int \<Rightarrow> 'd job_store \<Rightarrow> int res \<Rightarrow> 'd job_store \<Rightarrow> bool" where
  "materialized policies now limit scs created s r s' \<longleftrightarrow> job_inv s' \<and> jbs_decisions s' = jbs_decisions s
   \<and> (\<forall>i it. dict_get (jbs_jobs s) i = Some it \<longrightarrow> dict_get (jbs_jobs s') i = Some it)
   \<and> (\<forall>i it. dict_get (jbs_jobs s') i = Some it \<longrightarrow> dict_get (jbs_jobs s) i = Some it
       \<or> (\<exists>sc\<in>set scs. schedule_due now sc \<and> i = occurrence_id sc \<and> it = new_stored_job (occurrence_job sc)))
   \<and> (\<forall>i. i \<notin> js_schedule_id ` set scs \<longrightarrow> dict_get (jbs_schedules s') i = dict_get (jbs_schedules s) i)
   \<and> (\<forall>sc\<in>set scs. dict_get (jbs_schedules s') (js_schedule_id sc) = Some sc
       \<or> (\<exists>sc'. dict_get (jbs_schedules s') (js_schedule_id sc) = Some sc' \<and> advanced_by now policies s' sc sc'))
   \<and> (\<forall>n. r = Inr n \<longrightarrow> created \<le> n \<and> (created \<le> limit \<longrightarrow> n \<le> limit)
       \<and> (n < limit \<longrightarrow> (\<forall>sc\<in>set scs. schedule_due now sc \<longrightarrow>
            (\<exists>sc'. dict_get (jbs_schedules s') (js_schedule_id sc) = Some sc' \<and> advanced_by now policies s' sc sc'))))"

lemma materializedD:
  assumes "materialized policies now limit scs created s r s'"
  shows "job_inv s'" "jbs_decisions s' = jbs_decisions s"
    "dict_get (jbs_jobs s) i = Some it \<Longrightarrow> dict_get (jbs_jobs s') i = Some it"
    "dict_get (jbs_jobs s') i = Some it \<Longrightarrow> dict_get (jbs_jobs s) i = Some it
       \<or> (\<exists>sc\<in>set scs. schedule_due now sc \<and> i = occurrence_id sc \<and> it = new_stored_job (occurrence_job sc))"
    "i \<notin> js_schedule_id ` set scs \<Longrightarrow> dict_get (jbs_schedules s') i = dict_get (jbs_schedules s) i"
    "sc \<in> set scs \<Longrightarrow> dict_get (jbs_schedules s') (js_schedule_id sc) = Some sc
       \<or> (\<exists>sc'. dict_get (jbs_schedules s') (js_schedule_id sc) = Some sc' \<and> advanced_by now policies s' sc sc')"
    "r = Inr n \<Longrightarrow> created \<le> n" "r = Inr n \<Longrightarrow> created \<le> limit \<Longrightarrow> n \<le> limit"
    "r = Inr n \<Longrightarrow> n < limit \<Longrightarrow> sc \<in> set scs \<Longrightarrow> schedule_due now sc \<Longrightarrow>
       \<exists>sc'. dict_get (jbs_schedules s') (js_schedule_id sc) = Some sc' \<and> advanced_by now policies s' sc sc'"
  using assms unfolding materialized_def by blast+

lemma materialized_skip:
  assumes m: "materialized policies now limit scs created s r s'" and sc: "dict_get (jbs_schedules s) (js_schedule_id sc) = Some sc"
    and notin: "js_schedule_id sc \<notin> js_schedule_id ` set scs" and skip: "limit \<le> created \<or> \<not> schedule_due now sc"
  shows "materialized policies now limit (sc # scs) created s r s'"
proof -
  have sc': "dict_get (jbs_schedules s') (js_schedule_id sc) = Some sc" using materializedD(5) [OF m notin] sc by simp
  have "\<not> schedule_due now sc" if "r = Inr n" "n < limit" for n using skip materializedD(7) [OF m that(1)] that(2) by auto
  then show ?thesis
    using sc' m unfolding materialized_def by (simp add: insert_iff) blast
qed

lemma materialized_stop:
  assumes c: "create_occurrence sc created s = (r1, s1)" and inv: "job_inv s1" and due: "schedule_due now sc"
    and sch: "\<forall>sc\<in>set (sc # scs). dict_get (jbs_schedules s) (js_schedule_id sc) = Some sc"
  shows "materialized policies now limit (sc # scs) created s (Inl e) s1"
  unfolding materialized_def
proof (intro conjI)
  show "\<forall>i it. dict_get (jbs_jobs s1) i = Some it \<longrightarrow> dict_get (jbs_jobs s) i = Some it
       \<or> (\<exists>sc\<in>set (sc # scs). schedule_due now sc \<and> i = occurrence_id sc \<and> it = new_stored_job (occurrence_job sc))"
    using create_occurrence_spec(4) [OF c] due by (metis list.set_intros(1))
qed (use create_occurrence_spec(1-3) [OF c] inv sch in simp_all)

lemma materialized_go:
  assumes c: "create_occurrence sc created s = (Inr created', s1)" and lim: "created < limit" and due: "schedule_due now sc"
    and adv: "advance_schedule policies sc = Inr sc'" and notin: "js_schedule_id sc \<notin> js_schedule_id ` set scs"
    and m: "materialized policies now limit scs created' (s1\<lparr>jbs_schedules := dict_set (js_schedule_id sc) sc' (jbs_schedules s1)\<rparr>) r s'"
  shows "materialized policies now limit (sc # scs) created s r s'"
  unfolding materialized_def
proof (intro conjI)
  note spec = create_occurrence_spec [OF c] and D = materializedD [OF m]
  have created': "dict_get (jbs_jobs s1) (occurrence_id sc) \<noteq> None" "created \<le> created'" "created' \<le> limit"
    using spec(5) lim by auto
  have "dict_get (jbs_schedules s') (js_schedule_id sc) = Some sc'" using D(5) [OF notin] by (simp add: dict_simps)
  moreover have "advanced_by now policies s' sc sc'"
    using due adv created'(1) D(3) [of "occurrence_id sc"] by (auto simp: advanced_by_def)
  ultimately have here: "\<exists>sc'. dict_get (jbs_schedules s') (js_schedule_id sc) = Some sc' \<and> advanced_by now policies s' sc sc'"
    by blast
  show "job_inv s'" by (rule D(1))
  show "jbs_decisions s' = jbs_decisions s" using D(2) spec(2) by simp
  show "\<forall>i it. dict_get (jbs_jobs s) i = Some it \<longrightarrow> dict_get (jbs_jobs s') i = Some it" using spec(3) D(3) by simp
  show "\<forall>i it. dict_get (jbs_jobs s') i = Some it \<longrightarrow> dict_get (jbs_jobs s) i = Some it
       \<or> (\<exists>sc\<in>set (sc # scs). schedule_due now sc \<and> i = occurrence_id sc \<and> it = new_stored_job (occurrence_job sc))"
  proof (intro allI impI)
    fix i it
    assume "dict_get (jbs_jobs s') i = Some it"
    then show "dict_get (jbs_jobs s) i = Some it
       \<or> (\<exists>sc\<in>set (sc # scs). schedule_due now sc \<and> i = occurrence_id sc \<and> it = new_stored_job (occurrence_job sc))"
      using D(4) [of i it] spec(4) [of i it] due by auto
  qed
  show "\<forall>i. i \<notin> js_schedule_id ` set (sc # scs) \<longrightarrow> dict_get (jbs_schedules s') i = dict_get (jbs_schedules s) i"
    using D(5) spec(1) by (simp add: dict_simps)
  show "\<forall>sc\<in>set (sc # scs). dict_get (jbs_schedules s') (js_schedule_id sc) = Some sc
       \<or> (\<exists>sc'. dict_get (jbs_schedules s') (js_schedule_id sc) = Some sc' \<and> advanced_by now policies s' sc sc')"
    using here D(6) by (metis set_ConsD)
  show "\<forall>n. r = Inr n \<longrightarrow> created \<le> n \<and> (created \<le> limit \<longrightarrow> n \<le> limit)
       \<and> (n < limit \<longrightarrow> (\<forall>sc\<in>set (sc # scs). schedule_due now sc \<longrightarrow>
            (\<exists>sc'. dict_get (jbs_schedules s') (js_schedule_id sc) = Some sc' \<and> advanced_by now policies s' sc sc')))"
    using here created'(2,3) D(7,8,9) by (metis order.trans set_ConsD)
qed

lemma materialize_each_materialized:
  fixes s :: "'d job_store"
  assumes "job_inv s" and "distinct (map js_schedule_id scs)"
    and "\<forall>sc\<in>set scs. dict_get (jbs_schedules s) (js_schedule_id sc) = Some sc"
    and "materialize_each policies now limit scs created s = (r, s')"
  shows "materialized policies now limit scs created s r s'"
  using assms
proof (induction scs arbitrary: created s)
  case Nil
  then show ?case by (auto simp: materialized_def)
next
  case (Cons sc scs)
  have dist: "distinct (map js_schedule_id scs)" and notin: "js_schedule_id sc \<notin> js_schedule_id ` set scs"
    and pre: "\<forall>sc\<in>set scs. dict_get (jbs_schedules s) (js_schedule_id sc) = Some sc"
      "dict_get (jbs_schedules s) (js_schedule_id sc) = Some sc"
    using Cons.prems(2,3) by auto
  show ?case
  proof (cases "limit \<le> created \<or> \<not> schedule_due now sc")
    case True
    with Cons.prems(4) have "materialize_each policies now limit scs created s = (r, s')" by simp
    from Cons.IH [OF Cons.prems(1) dist pre(1) this] pre(2) notin True show ?thesis by (rule materialized_skip)
  next
    case go: False
    then have lim: "created < limit" and due: "schedule_due now sc" by auto
    obtain r1 s1 where c: "create_occurrence sc created s = (r1, s1)" by fastforce
    have inv1: "job_inv s1" using create_occurrence_inv [OF Cons.prems(1), of sc created] c by simp
    note stop = materialized_stop [OF c inv1 due Cons.prems(3)]
    show ?thesis
    proof (cases r1)
      case (Inl e)
      with go c Cons.prems(4) stop show ?thesis by auto
    next
      case r1: (Inr created')
      show ?thesis
      proof (cases "advance_schedule policies sc")
        case (Inl e)
        with go c r1 Cons.prems(4) stop show ?thesis by auto
      next
        case (Inr sc')
        let ?s2 = "s1\<lparr>jbs_schedules := dict_set (js_schedule_id sc) sc' (jbs_schedules s1)\<rparr>"
        have rest: "materialize_each policies now limit scs created' ?s2 = (r, s')"
          using go c r1 Inr Cons.prems(4) by simp
        have inv2: "job_inv ?s2" by (rule set_schedule_inv [OF inv1 advance_schedule_Inr(1) [OF Inr]])
        have pre2: "\<forall>sc\<in>set scs. dict_get (jbs_schedules ?s2) (js_schedule_id sc) = Some sc"
          using pre(1) notin create_occurrence_spec(1) [OF c] by (auto simp: dict_simps image_iff)
        from materialized_go [OF c [unfolded r1] lim due Inr notin Cons.IH [OF inv2 dist pre2 rest]] show ?thesis .
      qed
    qed
  qed
qed

lemma sorted_schedules:
  assumes "job_inv s"
  shows "distinct (map js_schedule_id (sort_key schedule_order (map snd (jbs_schedules s))))"
    "sc \<in> set (sort_key schedule_order (map snd (jbs_schedules s))) \<longleftrightarrow> dict_get (jbs_schedules s) (js_schedule_id sc) = Some sc"
  using claim_items_keyed [OF job_invD(2) [OF assms], where order = schedule_order] by (simp_all add: claim_items_def)

lemma materialize_cases:
  fixes s :: "'d job_store"
  assumes inv: "job_inv s"
  obtains (rejected) e where "materialize now limit policies s = (Inl e, s)"
  | (ran) t r s' where "require_aware_utc now = Inr t" "0 < limit" "materialize now limit policies s = (r, s')"
      "materialized policies t limit (sort_key schedule_order (map snd (jbs_schedules s))) 0 s r s'"
proof (cases "require_aware_utc now")
  case (Inl e)
  with rejected show thesis by (simp add: materialize_def)
next
  case (Inr t)
  show thesis
  proof (cases "limit \<le> 0")
    case True
    with Inr rejected show thesis by (simp add: materialize_def)
  next
    case False
    obtain r s' where m: "materialize_each policies t limit (sort_key schedule_order (map snd (jbs_schedules s))) 0 s = (r, s')"
      by fastforce
    have "materialized policies t limit (sort_key schedule_order (map snd (jbs_schedules s))) 0 s r s'"
      by (rule materialize_each_materialized [OF inv sorted_schedules(1) [OF inv] _ m]) (use sorted_schedules(2) [OF inv] in blast)
    with False Inr m ran show thesis by (simp add: materialize_def)
  qed
qed

lemma job_schedule_add_inv:
  assumes inv: "job_inv s" and j: "check_job j = Inr j"
  shows "job_inv (snd (job_schedule_add j s))"
proof (cases "dict_get (jbs_jobs s) (jb_job_id j) = None \<and> ensure_capacity 1 s = Inr ()")
  case True
  let ?jobs = "dict_set (jb_job_id j) (new_stored_job j) (jbs_jobs s)"
  have "keyed job_key_of ?jobs"
    using job_invD(1) [OF inv] by (auto simp: keyed_def dict_simps job_key_of_def new_stored_job_def)
  moreover have "\<exists>it. dict_get ?jobs i = Some it \<and> jb_state (sj_job it) = SUCCEEDED" if "(i, d) \<in> set (jbs_decisions s)" for i d
    using job_invD(5) [OF inv that] True by (auto simp: dict_simps)
  ultimately show ?thesis
    using inv j True unfolding job_inv_def by (auto simp: job_schedule_add_def dict_simps new_stored_job_def)
next
  case False
  then have "snd (job_schedule_add j s) = s" by (auto simp: job_schedule_add_def split: sum.splits)
  with inv show ?thesis by simp
qed

lemma add_schedule_inv: "job_inv s \<Longrightarrow> job_inv (snd (add_schedule sc s))"
  by (auto simp: add_schedule_def intro: set_schedule_inv split: sum.splits)

interpretation job_machine: guarded_machine job_step job_inv job_call_ok
proof
  fix s :: "'a job_store" and x
  assume inv: "job_inv s" and ok: "job_call_ok x s"
  show "job_inv (snd (job_step x s))"
  proof (cases "transition_of x")
    case None
    with inv ok show ?thesis
    proof (cases x)
      case (Materialize now limit policies)
      with inv show ?thesis
        by (cases rule: materialize_cases [OF inv, of now limit policies]) (auto dest: materializedD(1))
    qed (simp_all add: job_schedule_add_inv job_claim_inv add_schedule_inv)
  next
    case (Some cd)
    with transition_inv [OF inv] show ?thesis by (cases cd) auto
  qed
qed

section \<open>Jobs and schedules over runs\<close>

lemma job_step_evolves:
  assumes inv: "job_inv s" and it: "dict_get (jbs_jobs s) i = Some it"
  shows "\<exists>it'. dict_get (jbs_jobs (snd (job_step x s))) i = Some it' \<and> job_evolves it it'"
proof (cases "transition_of x")
  case None
  then show ?thesis
  proof (cases x)
    case (ClaimJobs now limit ttl uuid)
    with job_claim_evolves [OF inv it] show ?thesis by fastforce
  next
    case (Materialize now limit policies)
    with it show ?thesis
      by (cases rule: materialize_cases [OF inv, of now limit policies]) (auto dest: materializedD(3))
  next
    case (Schedule j)
    with it show ?thesis by (auto simp: job_schedule_add_def dict_simps split: sum.splits)
  next
    case (AddSchedule sc)
    with it show ?thesis by (auto simp: add_schedule_def split: sum.splits)
  qed simp_all
next
  case (Some cd)
  with transition_evolves [OF inv _ it] show ?thesis by (cases cd) auto
qed

definition job_from :: "string \<Rightarrow> stored_job \<Rightarrow> 'd job_store \<Rightarrow> bool" where
  "job_from i it0 s \<longleftrightarrow> (\<exists>it. dict_get (jbs_jobs s) i = Some it \<and> job_evolves it0 it)"

interpretation job_history: guarded_machine job_step "\<lambda>s. job_inv s \<and> job_from i it0 s" job_call_ok for i it0
proof (unfold_locales, elim conjE, intro conjI)
  fix s :: "'a job_store" and x
  assume inv: "job_inv s" and h: "job_from i it0 s" and g: "job_call_ok x s"
  show "job_inv (snd (job_step x s))" using inv g by (rule job_machine.inv_step)
  show "job_from i it0 (snd (job_step x s))"
    using h job_step_evolves [OF inv] unfolding job_from_def by (blast intro: job_evolves_trans)
qed

text \<open>The transitions of one job that took effect, in order.\<close>

fun settlement :: "string \<Rightarrow> 'd job_call \<Rightarrow> job_reply \<Rightarrow> job_transition list" where
  "settlement i x (TransitionReply (Inr tr)) =
     (case transition_of x of
        Some (c, d) \<Rightarrow> if jb_job_id (jc_job c) = i \<and> tr \<noteq> StaleJobClaim then [tr] else []
      | None \<Rightarrow> [])"
| "settlement i x _ = []"

fun settlements :: "string \<Rightarrow> 'd job_call list \<Rightarrow> job_reply list \<Rightarrow> job_transition list" where
  "settlements i (x # cs) (r # rs) = settlement i x r @ settlements i cs rs"
| "settlements i _ _ = []"

lemma settlement_step:
  assumes inv: "job_inv s" and it: "dict_get (jbs_jobs s) i = Some it"
  obtains (same) it' where "dict_get (jbs_jobs (snd (job_step x s))) i = Some it'" "sj_job it' = sj_job it"
      "settlement i x (fst (job_step x s)) = []"
  | (settled) tr it' where "dict_get (jbs_jobs (snd (job_step x s))) i = Some it'" "jb_state (sj_job it) = SCHEDULED"
      "settles_as tr (sj_job it) (sj_job it')" "settlement i x (fst (job_step x s)) = [tr]"
proof (cases "transition_of x")
  case None
  then have "settlement i x r = []" for r by (cases "(i, x, r)" rule: settlement.cases) auto
  moreover have "\<exists>it'. dict_get (jbs_jobs (snd (job_step x s))) i = Some it' \<and> sj_job it' = sj_job it"
    using None
  proof (cases x)
    case (ClaimJobs now limit ttl uuid)
    with job_claim_evolves [OF inv it] show ?thesis by fastforce
  next
    case (Materialize now limit policies)
    with it show ?thesis
      by (cases rule: materialize_cases [OF inv, of now limit policies]) (auto dest: materializedD(3))
  qed (use it in \<open>auto simp: job_schedule_add_def add_schedule_def dict_simps split: sum.splits\<close>)
  ultimately show thesis using same by blast
next
  case (Some cd)
  obtain c d where cd: "cd = (c, d)" by fastforce
  from Some [unfolded cd] show thesis
  proof (cases rule: transition_cases [where s = s])
    case (unsettled r)
    have "settlement i x (TransitionReply r) = []"
      using Some cd unsettled(2) by (cases r) auto
    with unsettled(1) it show ?thesis by (intro same [of it]) simp_all
  next
    case (settled it0 j tr)
    have tr: "tr \<noteq> StaleJobClaim" using settled(3) by auto
    show ?thesis
    proof (cases "jb_job_id (jc_job c) = i")
      case True
      with it valid_jobD(1) [OF settled(1)] have "it0 = it" by simp
      with True Some cd tr settled settle_job_get [OF inv settled(1), of j i] valid_jobD(4) [OF settled(1)] show ?thesis
        by (intro that(2)) auto
    next
      case False
      with it Some cd settled(4) settle_job_get [OF inv settled(1), of j i] show ?thesis
        by (intro same [of it]) auto
    qed
  qed
qed

fun lifecycle :: "int \<Rightarrow> job_transition list \<Rightarrow> bool" where
  "lifecycle n [] \<longleftrightarrow> True"
| "lifecycle n (JobRetried t # trs) \<longleftrightarrow> 1 < n \<and> lifecycle (n - 1) trs"
| "lifecycle n (JobSucceeded # trs) \<longleftrightarrow> trs = []"
| "lifecycle n (JobTerminated r # trs) \<longleftrightarrow> trs = []"
| "lifecycle n (StaleJobClaim # trs) \<longleftrightarrow> False"

lemma lifecycle_bounds:
  "lifecycle n trs \<Longrightarrow> int (length trs) \<le> max 1 n \<and> (\<forall>tr\<in>set (butlast trs). \<exists>t. tr = JobRetried t)"
  by (induction n trs rule: lifecycle.induct) auto

lemma lifecycle_run:
  assumes "job_inv s" and "guarded job_call_ok job_step cs s" and "dict_get (jbs_jobs s) i = Some it"
  shows "if jb_state (sj_job it) = SCHEDULED
    then lifecycle (jb_max_attempts (sj_job it) - jb_attempt (sj_job it)) (settlements i cs (fst (run job_step cs s)))
    else settlements i cs (fst (run job_step cs s)) = []"
  using assms
proof (induction cs arbitrary: s it)
  case (Cons x cs)
  have inv: "job_inv (snd (job_step x s))" and g: "guarded job_call_ok job_step cs (snd (job_step x s))"
    using Cons.prems(1,2) job_machine.inv_step by auto
  from Cons.prems(1,3) show ?case
  proof (cases rule: settlement_step [where x = x])
    case (same it')
    with Cons.IH [OF inv g same(1)] show ?thesis by (auto split: if_splits)
  next
    case (settled tr it')
    with Cons.IH [OF inv g settled(1)] show ?thesis by (cases tr) (auto simp: algebra_simps)
  qed
qed simp

text \<open>A claim that was handed out, and the job it names before and after.\<close>

lemma job_claimed:
  assumes inv: "job_inv s" and claims: "job_claim_jobs now limit ttl uuid s = (Inr claims, s1)" and c: "c \<in> set claims"
  obtains it it' where "dict_get (jbs_jobs s) (jb_job_id (jc_job c)) = Some it" "jc_job c = sj_job it"
    "dict_get (jbs_jobs s1) (jb_job_id (jc_job c)) = Some it'" "sj_job it' = sj_job it"
    "jc_fencing_token c = sj_fencing_token it + 1" "sj_fencing_token it' = jc_fencing_token c"
    "sj_claim_id it' = Some (jc_claim_id c)" "jb_state (sj_job it) = SCHEDULED"
proof (cases rule: job_claim_cases [of now limit ttl uuid s])
  case (claimed u r jobs)
  note k = job_invD(1) [OF inv]
  have here: "\<forall>i\<in>set (claim_items job_order (jbs_jobs s)). dict_get (jbs_jobs s) (job_key_of i) = Some i"
    using claim_items_keyed(2) [OF k] by blast
  have loop: "claim_each (mark_job uuid u ttl) (job_claimable u) job_key_of limit
      (claim_items job_order (jbs_jobs s)) [] (jbs_jobs s) = (Inr claims, jobs)"
    using claimed claims by simp
  obtain it n it' where f: "it \<in> set (claim_items job_order (jbs_jobs s))" "job_claimable u it"
      "mark_job uuid u ttl n it = Marked it' c" "dict_get jobs (job_key_of it) = Some it'"
    by (rule claim_each_from_items [OF claim_items_keyed(1) [OF k] here loop c]) auto
  with that [of it it'] here mark_job_Marked [OF f(3)] claimed(3) claims show thesis
    by (auto simp: job_key_of_def job_claimable_def)
qed (use claims in simp)

lemma job_token_run:
  assumes "job_inv s" and "guarded job_call_ok job_step cs s" and "dict_get (jbs_jobs s) i = Some it"
  obtains it' where "dict_get (jbs_jobs (snd (run job_step cs s))) i = Some it'" "sj_fencing_token it \<le> sj_fencing_token it'"
  using job_history.run_inv [OF _ assms(2), of i it] assms(1,3) by (auto simp: job_from_def job_evolves_def)

lemma stale_job_claim:
  assumes "dict_get (jbs_jobs s) (jb_job_id (jc_job c)) = Some it" and "sj_fencing_token it \<noteq> jc_fencing_token c"
  shows "valid_job c s = None"
  using assms by (simp add: valid_job_def)

lemma stale_job_transition:
  assumes "valid_job c s = None" and "transition_of x = Some (c, d)"
  shows "snd (job_step x s) = s \<and> (\<forall>tr. fst (job_step x s) = TransitionReply (Inr tr) \<longrightarrow> tr = StaleJobClaim)"
  using assms by (cases x) (auto simp: job_succeed_def job_retry_def job_terminate_def split: sum.splits)

text \<open>What becomes of a schedule: it advances one occurrence at a time and only over occurrences that exist.\<close>

definition nth_occurrence :: "string \<Rightarrow> int \<Rightarrow> string" where
  "nth_occurrence i k = i @ CHR '':'' # str_of_int k"

definition advances :: "job_schedule \<Rightarrow> job_schedule \<Rightarrow> 'd job_store \<Rightarrow> bool" where
  "advances sc0 sc s \<longleftrightarrow> js_schedule_id sc = js_schedule_id sc0 \<and> js_kind sc = js_kind sc0 \<and> js_interval sc = js_interval sc0
     \<and> js_sequence sc0 \<le> js_sequence sc
     \<and> (\<forall>k. js_sequence sc0 \<le> k \<and> k < js_sequence sc \<longrightarrow> dict_get (jbs_jobs s) (nth_occurrence (js_schedule_id sc0) k) \<noteq> None)
     \<and> (js_kind sc0 = ONE_SHOT \<longrightarrow> js_sequence sc = js_sequence sc0 \<or> js_sequence sc = js_sequence sc0 + 1 \<and> \<not> js_active sc)
     \<and> (js_kind sc0 = FIXED_INTERVAL \<longrightarrow> js_active sc = js_active sc0
          \<and> js_next_run sc = js_next_run sc0 + (js_sequence sc - js_sequence sc0) * the (js_interval sc0))"

lemma advances_jobs:
  "advances sc0 sc s \<Longrightarrow> \<forall>i it. dict_get (jbs_jobs s) i = Some it \<longrightarrow> (\<exists>it'. dict_get (jbs_jobs s') i = Some it')
     \<Longrightarrow> advances sc0 sc s'"
  unfolding advances_def by (metis not_None_eq)

lemma advances_step:
  assumes "advances sc0 sc s" and "advanced_by now policies s sc sc'"
  shows "advances sc0 sc' s"
proof -
  have due: "js_active sc" and adv: "advance_schedule policies sc = Inr sc'"
    and occ: "dict_get (jbs_jobs s) (nth_occurrence (js_schedule_id sc0) (js_sequence sc)) \<noteq> None"
    using assms by (auto simp: advanced_by_def schedule_due_def occurrence_id_def nth_occurrence_def advances_def)
  note a = advance_schedule_Inr [OF adv]
  have "dict_get (jbs_jobs s) (nth_occurrence (js_schedule_id sc0) k) \<noteq> None"
    if "js_sequence sc0 \<le> k" "k < js_sequence sc + 1" for k
    using that assms(1) occ by (cases "k = js_sequence sc") (auto simp: advances_def)
  with assms(1) due a show ?thesis by (auto simp: advances_def algebra_simps)
qed

lemma materialize_advances:
  fixes s :: "'d job_store"
  assumes inv: "job_inv s" and sc: "dict_get (jbs_schedules s) i = Some sc" and adv: "advances sc0 sc s"
  shows "\<exists>sc'. dict_get (jbs_schedules (snd (materialize now limit policies s))) i = Some sc'
    \<and> advances sc0 sc' (snd (materialize now limit policies s))"
  using inv
proof (cases rule: materialize_cases [where now = now and limit = limit and policies = policies])
  case (ran t r s')
  note D = materializedD [OF ran(4)]
  have i: "js_schedule_id sc = i" by (rule keyedD [OF job_invD(2) [OF inv] sc])
  have adv': "advances sc0 sc s'" by (rule advances_jobs [OF adv]) (use D(3) in blast)
  have "sc \<in> set (sort_key schedule_order (map snd (jbs_schedules s)))"
    using sorted_schedules(2) [OF inv] sc i by simp
  from D(6) [OF this] i adv' advances_step [OF adv'] ran(3) show ?thesis by fastforce
qed (use sc adv in auto)

definition schedule_from :: "job_schedule \<Rightarrow> 'd job_store \<Rightarrow> bool" where
  "schedule_from sc0 s \<longleftrightarrow> (\<exists>sc. dict_get (jbs_schedules s) (js_schedule_id sc0) = Some sc \<and> advances sc0 sc s)"

lemma other_calls_keep_schedules:
  assumes "\<nexists>now limit policies. x = Materialize now limit policies" and "dict_get (jbs_schedules s) i = Some sc"
  shows "dict_get (jbs_schedules (snd (job_step x s))) i = Some sc"
proof (cases x)
  case (ClaimJobs now limit ttl uuid)
  with assms(2) show ?thesis by (cases rule: job_claim_cases [of now limit ttl uuid s]) auto
qed (use assms in \<open>auto simp: job_schedule_add_def add_schedule_def job_succeed_def job_retry_def job_terminate_def
    settle_job_def Let_def dict_simps split: sum.splits option.splits prod.splits if_splits\<close>)

interpretation schedule_history: guarded_machine job_step "\<lambda>s. job_inv s \<and> schedule_from sc0 s" job_call_ok for sc0
proof (unfold_locales, elim conjE, intro conjI)
  fix s :: "'a job_store" and x
  assume inv: "job_inv s" and h: "schedule_from sc0 s" and g: "job_call_ok x s"
  show "job_inv (snd (job_step x s))" using inv g by (rule job_machine.inv_step)
  from h obtain sc where sc: "dict_get (jbs_schedules s) (js_schedule_id sc0) = Some sc" "advances sc0 sc s"
    unfolding schedule_from_def by blast
  show "schedule_from sc0 (snd (job_step x s))"
  proof (cases "\<exists>now limit policies. x = Materialize now limit policies")
    case True
    with materialize_advances [OF inv sc] show ?thesis by (auto simp: schedule_from_def)
  next
    case False
    have "advances sc0 sc (snd (job_step x s))"
      by (rule advances_jobs [OF sc(2)]) (use job_step_evolves [OF inv] in blast)
    with other_calls_keep_schedules [OF False sc(1)] show ?thesis by (auto simp: schedule_from_def)
  qed
qed

section \<open>Properties\<close>

text \<open>C28.  A job settles at most once and within its attempts: in every run of calls the transitions of a
  stored job that take effect are retries, fewer than its remaining attempts, followed by at most one
  final transition; a job that is no longer scheduled is never changed by a transition, and at the end
  every job has at most one recorded decision, and it succeeded.\<close>

theorem job_settles_once_within_attempts:
  assumes "job_inv s" and "guarded job_call_ok job_step cs s" and "dict_get (jbs_jobs s) i = Some it"
  shows "let trs = settlements i cs (fst (run job_step cs s)); s' = snd (run job_step cs s) in
    (jb_state (sj_job it) \<noteq> SCHEDULED \<longrightarrow> trs = [])
    \<and> int (length trs) \<le> max 1 (jb_max_attempts (sj_job it) - jb_attempt (sj_job it))
    \<and> (\<forall>tr\<in>set (butlast trs). \<exists>t. tr = JobRetried t)
    \<and> distinct (map fst (jbs_decisions s'))
    \<and> (\<forall>(j, d)\<in>set (jbs_decisions s'). \<exists>it. dict_get (jbs_jobs s') j = Some it \<and> jb_state (sj_job it) = SUCCEEDED)"
proof -
  have "job_inv (snd (run job_step cs s))" by (rule job_machine.run_inv [OF assms(1,2)])
  then have "distinct (map fst (jbs_decisions (snd (run job_step cs s))))"
    "\<forall>(j, d)\<in>set (jbs_decisions (snd (run job_step cs s))).
       \<exists>it. dict_get (jbs_jobs (snd (run job_step cs s))) j = Some it \<and> jb_state (sj_job it) = SUCCEEDED"
    unfolding job_inv_def by blast+
  with lifecycle_run [OF assms] lifecycle_bounds show ?thesis by (auto simp: Let_def split: if_splits)
qed

definition sample_job :: job where
  "sample_job = \<lparr>jb_job_id = ''j'', jb_task = ''t'', jb_payload = JNull, jb_run_at = 0, jb_max_attempts = 2, jb_attempt = 0,
     jb_state = SCHEDULED, jb_last_failure = None\<rparr>"

definition sample_schedule :: job_schedule where
  "sample_schedule = \<lparr>js_schedule_id = ''s'', js_task = ''t'', js_payload = JNull, js_next_run = 3, js_kind = FIXED_INTERVAL,
     js_interval = Some 5, js_policy = None, js_max_attempts = 2, js_sequence = 0, js_active = True\<rparr>"

definition sample_jobs :: "nat job_store" where
  "sample_jobs = \<lparr>jbs_capacity = 10, jbs_jobs = [(''j'', new_stored_job sample_job)],
     jbs_schedules = [(''s'', sample_schedule)], jbs_decisions = []\<rparr>"

definition sample_job_claim :: "int \<Rightarrow> job_claim" where
  "sample_job_claim n = \<lparr>jc_job = sample_job, jc_claim_id = ''u'', jc_claimed_until = 6 + 10 * n, jc_fencing_token = n\<rparr>"

lemma validate_json_JNull [simp]: "validate_json JNull = Inr ()"
  by (simp add: validate_json_def validate_json_with_def enter_def default_limits_def)

lemma sample_jobs_inv: "job_inv sample_jobs"
  by (auto simp: job_inv_def sample_jobs_def keyed_def job_key_of_def new_stored_job_def sample_job_def sample_schedule_def
      check_job_def split: if_splits)

lemmas sample_jobs_eval = sample_jobs_def sample_job_def sample_schedule_def new_stored_job_def job_claim_jobs_def
  job_claim_arguments_def claim_items_def mark_job_def job_claimable_def job_key_of_def dt_plus_def dt_max_def
  sample_job_claim_def Let_def

theorem job_settles_once_within_attempts_witness:
  "let cs = [ClaimJobs (utc_datetime 6) 1 10 (\<lambda>_. ''u''), Retry (sample_job_claim 1) ''boom'' (utc_datetime 20)];
       trs = settlements ''j'' cs (fst (run job_step cs sample_jobs))
   in trs = [JobRetried 20] \<and> int (length trs) \<le> max 1 (2 - 0)"
proof -
  let ?cs = "[ClaimJobs (utc_datetime 6) 1 10 (\<lambda>_. ''u''), Retry (sample_job_claim 1) ''boom'' (utc_datetime 20)] :: nat job_call list"
  have it: "dict_get (jbs_jobs sample_jobs) ''j'' = Some (new_stored_job sample_job)" by (simp add: sample_jobs_def)
  have "guarded job_call_ok job_step ?cs sample_jobs" by simp
  from job_settles_once_within_attempts [OF sample_jobs_inv this it]
  have "int (length (settlements ''j'' ?cs (fst (run job_step ?cs sample_jobs)))) \<le> max 1 (2 - 0)"
    by (simp only: Let_def new_stored_job_def sample_job_def stored_job.simps job.simps)
  moreover have "settlements ''j'' ?cs (fst (run job_step ?cs sample_jobs)) = [JobRetried 20]"
    by (simp add: sample_jobs_eval job_retry_def sanitize_reason_def py_split_def is_space_def valid_job_def check_job_def)
  ultimately show ?thesis by (simp only: Let_def simp_thms)
qed

text \<open>Job claims are fenced: once a job has been claimed again, the older claim settles nothing at any later
  point of any run of calls, whichever transition is tried and even when both claims drew the same
  identifier; the newer claim carries a larger fencing token.\<close>

theorem superseded_job_claim_is_stale:
  assumes "job_inv s" and "job_claim_jobs now limit ttl uuid s = (Inr claims, s1)" and "c \<in> set claims"
    and "guarded job_call_ok job_step cs s1"
    and "job_claim_jobs now' limit' ttl' uuid' (snd (run job_step cs s1)) = (Inr claims', s2)"
    and "c' \<in> set claims'" and "jb_job_id (jc_job c') = jb_job_id (jc_job c)"
    and "guarded job_call_ok job_step cs' s2" and "transition_of x = Some (c, d)"
  shows "let s3 = snd (run job_step cs' s2) in
    snd (job_step x s3) = s3 \<and> (\<forall>tr. fst (job_step x s3) = TransitionReply (Inr tr) \<longrightarrow> tr = StaleJobClaim)
    \<and> jc_fencing_token c < jc_fencing_token c'"
proof -
  let ?i = "jb_job_id (jc_job c)"
  obtain it1 where it1: "dict_get (jbs_jobs s1) ?i = Some it1" "sj_fencing_token it1 = jc_fencing_token c"
    by (rule job_claimed [OF assms(1-3)])
  have inv1: "job_inv s1" using job_claim_inv [OF assms(1)] assms(2) by (metis snd_conv)
  have inv1': "job_inv (snd (run job_step cs s1))" by (rule job_machine.run_inv [OF inv1 assms(4)])
  have inv2: "job_inv s2" using job_claim_inv [OF inv1'] assms(5) by (metis snd_conv)
  obtain it where it: "dict_get (jbs_jobs (snd (run job_step cs s1))) ?i = Some it" "sj_fencing_token it1 \<le> sj_fencing_token it"
    by (rule job_token_run [OF inv1 assms(4) it1(1)])
  obtain it' it2 where "dict_get (jbs_jobs (snd (run job_step cs s1))) (jb_job_id (jc_job c')) = Some it'"
      "dict_get (jbs_jobs s2) (jb_job_id (jc_job c')) = Some it2"
      "jc_fencing_token c' = sj_fencing_token it' + 1" "sj_fencing_token it2 = jc_fencing_token c'"
    by (rule job_claimed [OF inv1' assms(5,6)])
  then have it2: "dict_get (jbs_jobs s2) ?i = Some it2" "sj_fencing_token it2 = jc_fencing_token c'"
      "jc_fencing_token c' = sj_fencing_token it + 1"
    using it(1) unfolding assms(7) by simp_all
  obtain it3 where it3: "dict_get (jbs_jobs (snd (run job_step cs' s2))) ?i = Some it3" "sj_fencing_token it2 \<le> sj_fencing_token it3"
    by (rule job_token_run [OF inv2 assms(8) it2(1)])
  have "valid_job c (snd (run job_step cs' s2)) = None"
    using it1 it it2 it3 by (intro stale_job_claim [OF it3(1)]) simp
  from stale_job_transition [OF this assms(9)] it1 it it2 show ?thesis by (simp add: Let_def)
qed

lemma sample_job_claims:
  "job_claim_jobs (utc_datetime 6) 1 10 (\<lambda>_. ''u'') sample_jobs =
     (Inr [sample_job_claim 1], snd (job_claim_jobs (utc_datetime 6) 1 10 (\<lambda>_. ''u'') sample_jobs))"
  "job_claim_jobs (utc_datetime 16) 1 10 (\<lambda>_. ''u'') (snd (job_claim_jobs (utc_datetime 6) 1 10 (\<lambda>_. ''u'') sample_jobs)) =
     (Inr [sample_job_claim 2], snd (job_claim_jobs (utc_datetime 16) 1 10 (\<lambda>_. ''u'')
        (snd (job_claim_jobs (utc_datetime 6) 1 10 (\<lambda>_. ''u'') sample_jobs))))"
  by (simp_all add: sample_jobs_eval)

theorem superseded_job_claim_is_stale_witness:
  "let s1 = snd (job_claim_jobs (utc_datetime 6) 1 10 (\<lambda>_. ''u'') sample_jobs);
       s2 = snd (job_claim_jobs (utc_datetime 16) 1 10 (\<lambda>_. ''u'') s1)
   in snd (job_succeed (sample_job_claim 1) 7 (utc_datetime 17) s2) = s2"
  using superseded_job_claim_is_stale [OF sample_jobs_inv sample_job_claims(1), of "sample_job_claim 1" "[]" _ _ _ _ _ _
      "sample_job_claim 2" "[]" "Succeed (sample_job_claim 1) 7 (utc_datetime 17)" "Some 7"] sample_job_claims(2)
  by (auto simp: Let_def sample_job_claim_def)

text \<open>No occurrence of a schedule is skipped: in every run of calls a schedule only moves forward, and for
  every occurrence number it has passed the job of that occurrence is in the store; a one-shot schedule
  passes one occurrence and becomes inactive, and a fixed-interval schedule is always due at its first due
  time plus the number of occurrences passed times the interval.\<close>

theorem schedule_occurrences_are_never_skipped:
  assumes "job_inv s" and "guarded job_call_ok job_step cs s" and "dict_get (jbs_schedules s) i = Some sc0"
  shows "let s' = snd (run job_step cs s) in
    \<exists>sc. dict_get (jbs_schedules s') i = Some sc \<and> js_sequence sc0 \<le> js_sequence sc
      \<and> (\<forall>k. js_sequence sc0 \<le> k \<and> k < js_sequence sc \<longrightarrow> dict_get (jbs_jobs s') (i @ '':'' @ str_of_int k) \<noteq> None)
      \<and> (js_kind sc0 = ONE_SHOT \<longrightarrow> js_sequence sc = js_sequence sc0 \<or> js_sequence sc = js_sequence sc0 + 1 \<and> \<not> js_active sc)
      \<and> (js_kind sc0 = FIXED_INTERVAL \<longrightarrow>
           js_next_run sc = js_next_run sc0 + (js_sequence sc - js_sequence sc0) * the (js_interval sc0))"
proof -
  have i: "js_schedule_id sc0 = i" by (rule keyedD [OF job_invD(2) [OF assms(1)] assms(3)])
  have "schedule_from sc0 s" using assms(3) i by (auto simp: schedule_from_def advances_def)
  with schedule_history.run_inv [OF _ assms(2), of sc0] assms(1) i show ?thesis
    by (auto simp: schedule_from_def advances_def nth_occurrence_def Let_def)
qed

lemma sample_materialized:
  "materialize (utc_datetime 6) 3 [] sample_jobs = (Inr 1, sample_jobs\<lparr>jbs_jobs := jbs_jobs sample_jobs
       @ [(''s:0'', new_stored_job (occurrence_job sample_schedule))],
     jbs_schedules := [(''s'', sample_schedule\<lparr>js_sequence := 1, js_next_run := 8\<rparr>)]\<rparr>)"
proof -
  have z: "str_of_int 0 = ''0''" by (simp add: str_of_int_def str_of_nat.simps [of 0] digit_char_def char_of_def bit_0)
  have "check_schedule (sample_schedule\<lparr>js_sequence := 1, js_next_run := 8\<rparr>) =
      Inr (sample_schedule\<lparr>js_sequence := 1, js_next_run := 8\<rparr>)"
    by (simp add: check_schedule_def sample_schedule_def)
  then have a: "advance_schedule [] sample_schedule = Inr (sample_schedule\<lparr>js_sequence := 1, js_next_run := 8\<rparr>)"
    by (simp add: advance_schedule_def sample_schedule_def dt_plus_def dt_max_def)
  have "create_occurrence sample_schedule 0 sample_jobs = (Inr 1, sample_jobs\<lparr>jbs_jobs := jbs_jobs sample_jobs
       @ [(''s:0'', new_stored_job (occurrence_job sample_schedule))]\<rparr>)"
    by (simp add: create_occurrence_def sample_jobs_def occurrence_id_def sample_schedule_def z ensure_capacity_def
        occurrence_job_def check_job_def)
  with a show ?thesis
    by (simp add: materialize_def sample_jobs_def schedule_due_def sample_schedule_def)
qed

theorem schedule_occurrences_are_never_skipped_witness:
  "let s' = snd (run job_step [Materialize (utc_datetime 6) 3 []] sample_jobs) in
   \<exists>sc. dict_get (jbs_schedules s') ''s'' = Some sc \<and> js_sequence sc = 1 \<and> js_next_run sc = 3 + 1 * 5
     \<and> dict_get (jbs_jobs s') (''s'' @ '':'' @ str_of_int 0) \<noteq> None"
proof -
  have g: "guarded job_call_ok job_step [Materialize (utc_datetime 6) 3 []] sample_jobs" by simp
  have sc: "dict_get (jbs_schedules sample_jobs) ''s'' = Some sample_schedule" by (simp add: sample_jobs_def)
  have "\<exists>sc. dict_get (jbs_schedules (snd (run job_step [Materialize (utc_datetime 6) 3 []] sample_jobs))) ''s'' = Some sc
      \<and> js_sequence sc = 1"
    by (simp add: sample_materialized)
  with schedule_occurrences_are_never_skipped [OF sample_jobs_inv g sc] show ?thesis
    by (auto simp: Let_def sample_schedule_def)
qed

text \<open>A materialization that returns creates at most \<open>limit\<close> jobs, touches no existing job, creates only
  occurrences of due schedules, and, when it stays below the limit, has passed every due schedule by
  exactly one occurrence whose job is then in the store.\<close>

theorem materialize_serves_due_schedules:
  assumes "job_inv s" and "materialize now limit policies s = (Inr n, s')" and "require_aware_utc now = Inr t"
  shows "0 \<le> n \<and> n \<le> limit
    \<and> (\<forall>i it. dict_get (jbs_jobs s) i = Some it \<longrightarrow> dict_get (jbs_jobs s') i = Some it)
    \<and> (\<forall>i it. dict_get (jbs_jobs s) i = None \<and> dict_get (jbs_jobs s') i = Some it \<longrightarrow>
         (\<exists>j sc. dict_get (jbs_schedules s) j = Some sc \<and> schedule_due t sc \<and> i = occurrence_id sc
            \<and> it = new_stored_job (occurrence_job sc)))
    \<and> (n < limit \<longrightarrow> (\<forall>j sc. dict_get (jbs_schedules s) j = Some sc \<and> schedule_due t sc \<longrightarrow>
         dict_get (jbs_jobs s') (occurrence_id sc) \<noteq> None
         \<and> (\<exists>sc'. dict_get (jbs_schedules s') j = Some sc' \<and> js_sequence sc' = js_sequence sc + 1)))"
  using assms(1)
proof (cases rule: materialize_cases [where now = now and limit = limit and policies = policies])
  case (ran u r s'')
  then have [simp]: "r = Inr n" "s'' = s'" "u = t" using assms(2,3) by auto
  note D = materializedD [OF ran(4), simplified] and srt = sorted_schedules(2) [OF assms(1)]
  have key: "js_schedule_id sc = j" if "dict_get (jbs_schedules s) j = Some sc" for j sc
    by (rule keyedD [OF job_invD(2) [OF assms(1)] that])
  have "dict_get (jbs_jobs s') (occurrence_id sc) \<noteq> None \<and> (\<exists>sc'. dict_get (jbs_schedules s') j = Some sc' \<and> js_sequence sc' = js_sequence sc + 1)"
    if "n < limit" "dict_get (jbs_schedules s) j = Some sc" "schedule_due t sc" for j sc
    using D(9) [where sc = sc] that key [OF that(2)] srt [of sc] by (auto simp: advanced_by_def dest: advance_schedule_Inr(2))
  moreover have "\<exists>j sc. dict_get (jbs_schedules s) j = Some sc \<and> schedule_due t sc \<and> i = occurrence_id sc
      \<and> it = new_stored_job (occurrence_job sc)" if "dict_get (jbs_jobs s) i = None" "dict_get (jbs_jobs s') i = Some it" for i it
    using D(4) [OF that(2)] that(1) srt by auto
  ultimately show ?thesis using D(3,7,8) ran(2) by auto
qed (use assms in simp)

theorem materialize_serves_due_schedules_witness:
  "\<exists>s'. materialize (utc_datetime 6) 3 [] sample_jobs = (Inr 1, s') \<and> (1::int) \<le> 3
     \<and> dict_get (jbs_jobs s') (occurrence_id sample_schedule) \<noteq> None"
proof -
  have "dict_get (jbs_schedules sample_jobs) ''s'' = Some sample_schedule" "schedule_due 6 sample_schedule"
    by (simp_all add: sample_jobs_def schedule_due_def sample_schedule_def)
  moreover define s' where "s' = snd (materialize (utc_datetime 6) 3 [] sample_jobs)"
  moreover have m: "materialize (utc_datetime 6) 3 [] sample_jobs = (Inr 1, s')"
    by (simp only: s'_def sample_materialized snd_conv)
  ultimately have "dict_get (jbs_jobs s') (occurrence_id sample_schedule) \<noteq> None"
    using materialize_serves_due_schedules [OF sample_jobs_inv m require_aware_utc_datetime] by auto
  with m show ?thesis by simp
qed

section \<open>A round of the runner\<close>

text \<open>Handlers that leave the store alone, and what a round makes of a job by the outcome of its handler.\<close>

definition plain_handlers :: "(string, job \<Rightarrow> 'd job_outcome) dict \<Rightarrow> (string, ('d, 's) job_handler) dict" where
  "plain_handlers hs = map (\<lambda>(k, h). (k, \<lambda>j s. (h j, s))) hs"

definition outcome_of :: "(string, job \<Rightarrow> 'd job_outcome) dict \<Rightarrow> job \<Rightarrow> 'd job_outcome" where
  "outcome_of hs j = (case dict_get hs (jb_task j) of None \<Rightarrow> OtherException ''KeyError'' | Some h \<Rightarrow> h j)"

fun outcome_reason :: "'d job_outcome \<Rightarrow> string option" where
  "outcome_reason (Returns d) = None"
| "outcome_reason (PermanentJobError msg) = Some msg"
| "outcome_reason (OtherException name) = Some name"

definition reason_given :: "'d job_outcome \<Rightarrow> bool" where
  "reason_given out \<longleftrightarrow> (\<forall>r. outcome_reason out = Some r \<longrightarrow> (\<exists>ch\<in>set r. \<not> is_space ch))"

definition settled_job :: "retry_policy \<Rightarrow> instant \<Rightarrow> 'd job_outcome \<Rightarrow> job \<Rightarrow> job" where
  "settled_job p t out j =
     (let failure = Some (projr (sanitize_reason (the (outcome_reason out)))) in
      case out of
        Returns d \<Rightarrow> j\<lparr>jb_state := SUCCEEDED\<rparr>
      | PermanentJobError msg \<Rightarrow> j\<lparr>jb_state := TERMINAL, jb_last_failure := failure\<rparr>
      | OtherException name \<Rightarrow>
          if jb_attempt j + 1 < jb_max_attempts j
          then j\<lparr>jb_attempt := jb_attempt j + 1, jb_run_at := t + projr (retry_delay p (jb_attempt j + 1)),
                 jb_last_failure := failure\<rparr>
          else j\<lparr>jb_attempt := jb_attempt j + 1, jb_state := TERMINAL, jb_last_failure := failure\<rparr>)"

definition decided :: "'d job_outcome \<Rightarrow> job \<Rightarrow> (string \<times> 'd) list" where
  "decided out j = (case out of Returns d \<Rightarrow> [(jb_job_id j, d)] | _ \<Rightarrow> [])"

definition live_job :: "job_claim \<Rightarrow> 'd job_store \<Rightarrow> bool" where
  "live_job c s \<longleftrightarrow> (\<exists>it. valid_job c s = Some it \<and> sj_job it = jc_job c)"

lemma sanitize_reason_given: "\<exists>ch\<in>set r. \<not> is_space ch \<Longrightarrow> \<exists>r'. sanitize_reason r = Inr r'"
  using py_split_Nil_iff [of r] py_join_Nil_iff [of "py_split r" "'' ''"] py_split_word [of _ r]
  by (auto simp: sanitize_reason_def Let_def)

lemma plain_handlers_get: "dict_get (plain_handlers hs) k = map_option (\<lambda>h j s. (h j, s)) (dict_get hs k)"
  unfolding plain_handlers_def by (induction hs) auto

lemma run_claim_plain:
  "run_claim port (plain_handlers hs) p now c s =
     (case outcome_of hs (jc_job c) of
        PermanentJobError msg \<Rightarrow> terminate_op port c msg now s
      | OtherException name \<Rightarrow>
          sbind (slift (and_then (retry_delay p (jb_attempt (jc_job c) + 1)) (dt_shift now))) (\<lambda>run_at. retry_op port c name run_at) s
      | Returns d \<Rightarrow> succeed_op port c d now s)"
  by (cases "dict_get hs (jb_task (jc_job c))") (auto simp: run_claim_def plain_handlers_get outcome_of_def split: job_outcome.splits)

lemma settled_job_ok:
  "check_job j = Inr j \<Longrightarrow> jb_attempt j < jb_max_attempts j \<Longrightarrow> check_job (settled_job p t out j) = Inr (settled_job p t out j)"
  by (auto simp: settled_job_def check_job_def Let_def and_then_eq_Inr split: job_outcome.splits if_splits)

lemma run_claim_effect:
  fixes s :: "'d job_store"
  assumes inv: "job_inv s" and live: "live_job c s" and att: "jb_attempt (jc_job c) < jb_max_attempts (jc_job c)"
    and now: "require_aware_utc now = Inr t" and reason: "reason_given (outcome_of hs (jc_job c))"
    and policy: "mk_retry_policy init mult maxd n = Inr p" and room: "0 \<le> t" "t + maxd \<le> dt_max"
    and space: "int (length (jbs_decisions s)) < jbs_capacity s"
  obtains it tr where "valid_job c s = Some it" "sj_job it = jc_job c" "tr \<noteq> StaleJobClaim"
    "run_claim mem_job_port (plain_handlers hs) p now c s =
       (Inr tr, (settle_job (settled_job p t (outcome_of hs (jc_job c)) (jc_job c)) it s)\<lparr>jbs_decisions :=
          jbs_decisions s @ decided (outcome_of hs (jc_job c)) (jc_job c)\<rparr>)"
proof -
  obtain it where it: "valid_job c s = Some it" "sj_job it = jc_job c" using live by (auto simp: live_job_def)
  have job: "check_job (jc_job c) = Inr (jc_job c)" using job_invD(3) [OF inv valid_jobD(1) [OF it(1)]] it(2) by simp
  note ok = settled_job_ok [OF job att, of p t "outcome_of hs (jc_job c)"]
  have same: "(settle_job j it s)\<lparr>jbs_decisions := jbs_decisions s\<rparr> = settle_job j it s" for j by (simp add: settle_job_def)
  show thesis
  proof (cases "outcome_of hs (jc_job c)")
    case (Returns d)
    with it ok now space show thesis
      by (intro that [of it JobSucceeded])
        (auto simp: run_claim_plain mem_job_port_def job_succeed_def settled_job_def decided_def)
  next
    case (PermanentJobError msg)
    then obtain r where "sanitize_reason msg = Inr r" using reason sanitize_reason_given by (fastforce simp: reason_given_def)
    with PermanentJobError it ok now same show thesis
      by (intro that [of it "JobTerminated r"])
        (auto simp: run_claim_plain mem_job_port_def job_terminate_def settled_job_def decided_def)
  next
    case (OtherException name)
    then obtain r where r: "sanitize_reason name = Inr r" using reason sanitize_reason_given by (fastforce simp: reason_given_def)
    have "1 \<le> jb_attempt (jc_job c) + 1" using check_job_attempts [OF job] by simp
    then obtain d where d: "retry_delay p (jb_attempt (jc_job c) + 1) = Inr d" "0 < d" "d \<le> maxd"
      by (rule retry_delay_bounds [OF policy])
    then have sh: "dt_shift now d = Inr (now\<lparr>dt_micros := t + d\<rparr>)" using room by (intro dt_shift_in_range [OF now]) auto
    note utc = require_aware_utc_shift [OF now sh]
    show thesis
    proof (cases "jb_attempt (jc_job c) + 1 < jb_max_attempts (jc_job c)")
      case True
      with OtherException it ok r d sh utc same show thesis
        by (intro that [of it "JobRetried (t + d)"])
          (auto simp: run_claim_plain mem_job_port_def job_retry_def settled_job_def decided_def sbind_def Let_def)
    next
      case False
      with OtherException it ok r d sh utc same show thesis
        by (intro that [of it "JobTerminated r"])
          (auto simp: run_claim_plain mem_job_port_def job_retry_def settled_job_def decided_def sbind_def Let_def)
    qed
  qed
qed

lemma settled_job_id [simp]: "jb_job_id (settled_job p t out j) = jb_job_id j"
  by (auto simp: settled_job_def Let_def split: job_outcome.splits)

lemma settle_job_inv:
  assumes inv: "job_inv s" and v: "valid_job c s = Some it" and j: "check_job j = Inr j" "jb_job_id j = jb_job_id (jc_job c)"
    and ds: "\<And>i d. (i, d) \<in> set ds \<Longrightarrow> i = jb_job_id (jc_job c) \<and> jb_state j = SUCCEEDED"
    and len: "length ds \<le> 1" "int (length (jbs_decisions s)) < jbs_capacity s"
  shows "job_inv ((settle_job j it s)\<lparr>jbs_decisions := jbs_decisions s @ ds\<rparr>)"
proof -
  note get = settle_job_get [OF inv v, of j] and vd = valid_jobD [OF v]
  have key: "job_key_of it = jb_job_id (jc_job c)" by (rule job_invD(4) [OF inv vd(1)])
  have k: "keyed job_key_of (jbs_jobs (settle_job j it s))"
    using job_invD(1) [OF inv] key j(2) get by (auto simp: keyed_def settle_job_def job_key_of_def)
  have new: "jb_job_id (jc_job c) \<notin> fst ` set (jbs_decisions s)" using job_invD(5) [OF inv] vd(1,4) by fastforce
  have "distinct (map fst (jbs_decisions s @ ds))"
  proof (cases ds)
    case (Cons d ds')
    then have "ds = [d]" using len(1) by simp
    with ds [of "fst d" "snd d"] new inv show ?thesis unfolding job_inv_def by auto
  qed (use inv in \<open>auto simp: job_inv_def\<close>)
  moreover have "\<exists>it'. dict_get (jbs_jobs (settle_job j it s)) i = Some it' \<and> jb_state (sj_job it') = SUCCEEDED"
    if "(i, d) \<in> set (jbs_decisions s @ ds)" for i d
  proof (cases "(i, d) \<in> set (jbs_decisions s)")
    case True
    then have "i \<noteq> jb_job_id (jc_job c)" using new by (metis fst_conv image_eqI)
    with get job_invD(5) [OF inv True] show ?thesis by simp
  next
    case False
    with that ds get show ?thesis by auto
  qed
  moreover have "check_job (sj_job it') = Inr (sj_job it') \<and> 0 \<le> sj_fencing_token it'"
    if "dict_get (jbs_jobs (settle_job j it s)) i = Some it'" for i it'
    using that get j(1) inv vd(1) unfolding job_inv_def by (auto split: if_splits)
  moreover have "int (length (jbs_decisions s @ ds)) \<le> jbs_capacity s" using len by simp
  ultimately show ?thesis using inv k unfolding job_inv_def by (auto simp: settle_job_def)
qed

lemma decided_spec:
  "length (decided out j) \<le> 1"
  "(i, d) \<in> set (decided out j) \<Longrightarrow> i = jb_job_id j \<and> jb_state (settled_job p t out j) = SUCCEEDED"
  by (auto simp: decided_def settled_job_def split: job_outcome.splits)

text \<open>All claims of a round, one after the other.\<close>

definition round_result :: "retry_policy \<Rightarrow> instant \<Rightarrow> 'd job_outcome \<Rightarrow> job \<Rightarrow> 'd job_store \<Rightarrow> bool" where
  "round_result p t out j s' \<longleftrightarrow> (\<exists>it'. dict_get (jbs_jobs s') (jb_job_id j) = Some it' \<and> sj_job it' = settled_job p t out j
     \<and> sj_claim_id it' = None \<and> sj_claimed_until it' = None) \<and> (\<forall>d. out = Returns d \<longrightarrow> (jb_job_id j, d) \<in> set (jbs_decisions s'))"

lemma run_claims_effect:
  fixes s :: "'d job_store"
  assumes "job_inv s" and "\<forall>c\<in>set cs. live_job c s" and "distinct (map (\<lambda>c. jb_job_id (jc_job c)) cs)"
    and att: "\<forall>c\<in>set cs. jb_attempt (jc_job c) < jb_max_attempts (jc_job c)"
    and now: "require_aware_utc now = Inr t" and reason: "\<And>j. reason_given (outcome_of hs j)"
    and policy: "mk_retry_policy init mult maxd n = Inr p" and room: "0 \<le> t" "t + maxd \<le> dt_max"
    and "int (length (jbs_decisions s)) + int (length cs) \<le> jbs_capacity s"
  shows "\<exists>sm' s'. run_claims mem_job_port (plain_handlers hs) p now cs sm s = (Inr sm', s') \<and> job_inv s'
    \<and> jr_claimed sm' = jr_claimed sm
    \<and> jr_succeeded sm' + jr_retried sm' + jr_terminated sm' = jr_succeeded sm + jr_retried sm + jr_terminated sm + int (length cs)
    \<and> (\<forall>c\<in>set cs. round_result p t (outcome_of hs (jc_job c)) (jc_job c) s')
    \<and> (\<forall>i. i \<notin> (\<lambda>c. jb_job_id (jc_job c)) ` set cs \<longrightarrow> dict_get (jbs_jobs s') i = dict_get (jbs_jobs s) i)
    \<and> set (jbs_decisions s) \<subseteq> set (jbs_decisions s')"
  using assms(1-4,10)
proof (induction cs arbitrary: s sm)
  case (Cons c cs)
  let ?id = "\<lambda>c. jb_job_id (jc_job c)"
  have space: "int (length (jbs_decisions s)) < jbs_capacity s" using Cons.prems(5) by simp
  have att: "jb_attempt (jc_job c) < jb_max_attempts (jc_job c)" and live: "live_job c s" using Cons.prems(2,4) by simp_all
  let ?out = "outcome_of hs (jc_job c)"
  let ?j = "settled_job p t ?out (jc_job c)"
  obtain it tr where one: "valid_job c s = Some it" "sj_job it = jc_job c" "tr \<noteq> StaleJobClaim"
      "run_claim mem_job_port (plain_handlers hs) p now c s =
         (Inr tr, (settle_job ?j it s)\<lparr>jbs_decisions := jbs_decisions s @ decided ?out (jc_job c)\<rparr>)"
    by (rule run_claim_effect [OF Cons.prems(1) live att now reason policy room space])
  let ?s = "(settle_job ?j it s)\<lparr>jbs_decisions := jbs_decisions s @ decided ?out (jc_job c)\<rparr>"
  have job: "check_job (jc_job c) = Inr (jc_job c)" using job_invD(3) [OF Cons.prems(1) valid_jobD(1) [OF one(1)]] one(2) by simp
  have inv: "job_inv ?s"
    by (rule settle_job_inv [OF Cons.prems(1) one(1) settled_job_ok [OF job att] _ _ _ space])
      (use decided_spec in \<open>auto dest: decided_spec(2)\<close>)
  have get: "dict_get (jbs_jobs ?s) i = (if i = ?id c then Some (it\<lparr>sj_job := ?j, sj_claim_id := None, sj_claimed_until := None\<rparr>)
      else dict_get (jbs_jobs s) i)" for i
    using settle_job_get [OF Cons.prems(1) one(1), of ?j i] by simp
  have notin: "?id c \<notin> ?id ` set cs" using Cons.prems(3) by auto
  have "\<forall>c'\<in>set cs. live_job c' ?s"
  proof
    fix c' assume c': "c' \<in> set cs"
    then have "?id c' \<noteq> ?id c" using notin by (metis image_eqI)
    then have "valid_job c' ?s = valid_job c' s" unfolding valid_job_def get by simp
    with c' Cons.prems(2) show "live_job c' ?s" by (simp add: live_job_def)
  qed
  moreover have "int (length (jbs_decisions ?s)) + int (length cs) \<le> jbs_capacity ?s"
    using Cons.prems(5) by (auto simp: decided_def settle_job_def split: job_outcome.splits)
  ultimately obtain sm' s' where rest: "run_claims mem_job_port (plain_handlers hs) p now cs (count_transition tr sm) ?s = (Inr sm', s')"
      "job_inv s'" "jr_claimed sm' = jr_claimed (count_transition tr sm)"
      "jr_succeeded sm' + jr_retried sm' + jr_terminated sm' = jr_succeeded (count_transition tr sm)
         + jr_retried (count_transition tr sm) + jr_terminated (count_transition tr sm) + int (length cs)"
      "\<forall>c\<in>set cs. round_result p t (outcome_of hs (jc_job c)) (jc_job c) s'"
      "\<forall>i. i \<notin> ?id ` set cs \<longrightarrow> dict_get (jbs_jobs s') i = dict_get (jbs_jobs ?s) i"
      "set (jbs_decisions ?s) \<subseteq> set (jbs_decisions s')"
    using Cons.IH [OF inv, of "count_transition tr sm"] Cons.prems(3,4) by auto
  have c: "round_result p t ?out (jc_job c) s'"
    using rest(6,7) notin get [of "?id c"] by (auto simp: round_result_def decided_def)
  have cnt: "jr_claimed (count_transition tr sm) = jr_claimed sm"
    "jr_succeeded (count_transition tr sm) + jr_retried (count_transition tr sm) + jr_terminated (count_transition tr sm)
       = jr_succeeded sm + jr_retried sm + jr_terminated sm + 1"
    using one(3) by (cases tr; simp)+
  have sub: "set (jbs_decisions s) \<subseteq> set (jbs_decisions s')" using rest(7) by auto
  have oth: "\<forall>i. i \<notin> ?id ` set (c # cs) \<longrightarrow> dict_get (jbs_jobs s') i = dict_get (jbs_jobs s) i"
    using rest(6) get by simp
  have eq: "run_claims mem_job_port (plain_handlers hs) p now (c # cs) sm s = (Inr sm', s')"
    using one(4) rest(1) by (simp add: sbind_def)
  show ?case
    using rest(2,3,4,5) c cnt sub oth by (intro exI [of _ sm'] exI [of _ s'] conjI eq) simp_all
qed simp

text \<open>The jobs a round claims: the first \<open>limit\<close> claimable ones in (run_at, id) order.\<close>

definition claimed_jobs :: "instant \<Rightarrow> int \<Rightarrow> 'd job_store \<Rightarrow> stored_job list" where
  "claimed_jobs t limit s = take (nat limit) (filter (job_claimable t) (claim_items job_order (jbs_jobs s)))"

lemma claim_each_total:
  assumes "\<And>n i. \<exists>i' c. mark n i = Marked i' c"
  shows "\<exists>cs d'. claim_each mark ok key limit its claimed d = (Inr cs, d')"
proof (induction its arbitrary: claimed d)
  case (Cons i its)
  obtain i' c where "mark (length claimed) i = Marked i' c" using assms by blast
  with Cons.IH show ?case by simp
qed simp

lemma claimed_jobs_here:
  assumes "job_inv s" and "it \<in> set (claimed_jobs t limit s)"
  shows "dict_get (jbs_jobs s) (job_key_of it) = Some it"
proof -
  have "it \<in> set (claim_items job_order (jbs_jobs s))" using in_set_takeD [OF assms(2) [unfolded claimed_jobs_def]] by simp
  with claim_items_keyed(2) [OF job_invD(1) [OF assms(1)]] show ?thesis by blast
qed

lemma job_claim_returns:
  fixes s :: "'d job_store"
  assumes inv: "job_inv s" and now: "require_aware_utc now = Inr t" and args: "0 < limit" "0 < ttl"
    and room: "0 \<le> t" "t + ttl \<le> dt_max"
  obtains cs s1 where "job_claim_jobs now limit ttl uuid s = (Inr cs, s1)"
    "map jc_job cs = map sj_job (claimed_jobs t limit s)" "distinct (map (\<lambda>c. jb_job_id (jc_job c)) cs)"
proof -
  note k = job_invD(1) [OF inv]
  have until: "dt_plus t ttl = Inr (t + ttl)" using args room by (intro dt_plus_in_range) auto
  have marks: "\<exists>it' c. mark_job uuid t ttl n it = Marked it' c" for n it by (simp add: mark_job_def until Let_def)
  let ?its = "claim_items job_order (jbs_jobs s)"
  obtain cs jobs where loop: "claim_each (mark_job uuid t ttl) (job_claimable t) job_key_of limit ?its [] (jbs_jobs s) = (Inr cs, jobs)"
    using claim_each_total [of "mark_job uuid t ttl", OF marks] by blast
  have keys: "map (\<lambda>c. jb_job_id (jc_job c)) cs = map job_key_of (claimed_jobs t limit s)"
    using claim_each_claims [where ckey = "\<lambda>c. jb_job_id (jc_job c)", OF _ loop]
    by (simp add: claimed_jobs_def mark_job_def until Let_def job_key_of_def split: mark.splits)
  have claim: "job_claim_jobs now limit ttl uuid s = (Inr cs, s\<lparr>jbs_jobs := jobs\<rparr>)"
    using loop now args by (simp add: job_claim_jobs_def job_claim_arguments_def)
  note here = claimed_jobs_here [OF inv]
  have "map jc_job cs = map sj_job (claimed_jobs t limit s)"
  proof (rule nth_equalityI)
    show len: "length (map jc_job cs) = length (map sj_job (claimed_jobs t limit s))" using keys by (metis length_map)
    fix n assume n: "n < length (map jc_job cs)"
    obtain it where it: "dict_get (jbs_jobs s) (jb_job_id (jc_job (cs ! n))) = Some it" "jc_job (cs ! n) = sj_job it"
      by (rule job_claimed [OF inv claim, of "cs ! n"]) (use n in auto)
    have "jb_job_id (jc_job (cs ! n)) = job_key_of (claimed_jobs t limit s ! n)"
      using keys n len by (metis (mono_tags, lifting) length_map nth_map)
    with it here [OF nth_mem, of n t limit] n len show "map jc_job cs ! n = map sj_job (claimed_jobs t limit s) ! n"
      by simp
  qed
  moreover have "distinct (map (\<lambda>c. jb_job_id (jc_job c)) cs)"
    unfolding keys using claim_items_keyed(1) [OF k, of job_order]
    by (simp add: claimed_jobs_def distinct_map_filter take_map [symmetric])
  ultimately show thesis using that claim by blast
qed



text \<open>A job that the constructor accepts with all its attempts used up can be scheduled and claimed but not
  retried: \<open>retry\<close> with the valid claim raises \<open>ValueError\<close>, because the replacement job has more attempts
  than its bound, and leaves the job claimed.\<close>

theorem exhausted_job_retry_raises:
  assumes "valid_job c s = Some it" and "jb_attempt (sj_job it) = jb_max_attempts (sj_job it)"
    and "require_aware_utc run_at = Inr t" and "sanitize_reason reason = Inr r"
  shows "job_retry c reason run_at s = (Inl ValueError, s) \<and> sj_claim_id it = Some (jc_claim_id c)"
  using assms valid_jobD(2) [OF assms(1)] by (simp add: job_retry_def check_job_def Let_def)

theorem exhausted_job_retry_raises_witness:
  "let j = sample_job\<lparr>jb_attempt := 2\<rparr>; s0 = \<lparr>jbs_capacity = 1, jbs_jobs = [], jbs_schedules = [], jbs_decisions = ([] :: (string \<times> nat) list)\<rparr>;
       s1 = snd (job_schedule_add j s0); (r, s2) = job_claim_jobs (utc_datetime 6) 1 10 (\<lambda>_. ''u'') s1
   in check_job j = Inr j \<and> (\<exists>c. r = Inr [c] \<and> fst (job_retry c ''boom'' (utc_datetime 20) s2) = Inl ValueError)"
proof -
  let ?j = "sample_job\<lparr>jb_attempt := 2\<rparr>" and ?c = "(sample_job_claim 1)\<lparr>jc_job := sample_job\<lparr>jb_attempt := 2\<rparr>\<rparr>"
  let ?s0 = "\<lparr>jbs_capacity = 1, jbs_jobs = [], jbs_schedules = [], jbs_decisions = ([] :: (string \<times> nat) list)\<rparr>"
  let ?it = "\<lparr>sj_job = ?j, sj_claim_id = Some ''u'', sj_claimed_until = Some 16, sj_fencing_token = 1\<rparr>"
  let ?s2 = "?s0\<lparr>jbs_jobs := [(''j'', ?it)]\<rparr>"
  have claim: "job_claim_jobs (utc_datetime 6) 1 10 (\<lambda>_. ''u'') (snd (job_schedule_add ?j ?s0)) = (Inr [?c], ?s2)"
    by (simp add: job_schedule_add_def ensure_capacity_def sample_jobs_eval)
  have v: "valid_job ?c ?s2 = Some ?it" by (simp add: valid_job_def sample_job_claim_def sample_job_def)
  have r: "sanitize_reason ''boom'' = Inr ''boom''" by (simp add: sanitize_reason_def py_split_def is_space_def)
  have "fst (job_retry ?c ''boom'' (utc_datetime 20) ?s2) = Inl ValueError"
    using exhausted_job_retry_raises [OF v _ require_aware_utc_datetime [of 20] r] by (auto simp: sample_job_def)
  then show ?thesis using claim by (simp add: check_job_def sample_job_def)
qed

end
