(* ===== verification/DependencyGraph.thy ===== *)
theory DependencyGraph
  imports PyText
begin

text \<open>
  Model of \<open>src/src/pytitect/sync/graph.py\<close>: the dataset dependency graph, its stable topological
  order by sorted layers and its dependency closure.  Python does not fix the order in which a set is
  iterated; the parameter \<open>iter\<close> is that order, and the theorems hold for every one.  Shown: the
  order contains every selected dataset once, after all its selected dependencies, exactly when
  there is no cycle; the closure is exactly the set of datasets reachable over dependencies; results do not
  depend on \<open>iter\<close>.
\<close>

section \<open>Data\<close>

record graph_limits =
  gl_max_datasets :: int
  gl_max_partitions :: int

definition mk_graph_limits :: "int \<Rightarrow> int \<Rightarrow> graph_limits res" where
  "mk_graph_limits d p =
     (if d \<le> 0 \<or> p \<le> 0 then Inl ValueError else Inr \<lparr>gl_max_datasets = d, gl_max_partitions = p\<rparr>)"

definition default_graph_limits :: graph_limits where
  "default_graph_limits = \<lparr>gl_max_datasets = 256, gl_max_partitions = 1024\<rparr>"

datatype limited_resource = Datasets | Partitions

datatype dependency_validation =
    DependencyOrder "string list" | DependencyCycle "string list" | DependencyLimitExceeded limited_resource int

datatype dependency_closure_result =
    DependencyClosure "string list" | ClosureCycle "string list" | ClosureLimitExceeded limited_resource int

text \<open>A frozen set is the list of its elements in iteration order.\<close>

type_synonym set_iteration = "string list \<Rightarrow> string list"

definition iterates :: "set_iteration \<Rightarrow> bool" where
  "iterates iter \<longleftrightarrow> (\<forall>xs. set (iter xs) = set xs \<and> distinct (iter xs))"

record dependency_graph =
  dg_limits :: graph_limits
  dg_dependencies :: "(string, string list) dict"

definition check_dataset :: "string \<Rightarrow> unit res" where
  "check_dataset v = (if v = [] \<or> v \<noteq> py_strip v then Inl ValueError else Inr ())"

section \<open>Construction\<close>

fun check_datasets :: "string list \<Rightarrow> unit res" where
  "check_datasets [] = Inr ()"
| "check_datasets (v # vs) = and_then (check_dataset v) (\<lambda>_. check_datasets vs)"

fun copy_dependencies ::
    "set_iteration \<Rightarrow> (string, string list) dict \<Rightarrow> (string, string list) dict \<Rightarrow> (string, string list) dict res" where
  "copy_dependencies iter [] copied = Inr copied"
| "copy_dependencies iter ((dataset, parents) # deps) copied =
     and_then (check_dataset dataset) (\<lambda>_.
     and_then (check_datasets (iter parents)) (\<lambda>_.
       copy_dependencies iter deps (dict_set dataset (iter parents) copied)))"

definition set_default :: "string \<Rightarrow> (string, string list) dict \<Rightarrow> (string, string list) dict" where
  "set_default p d = (if dict_get d p = None then dict_set p [] d else d)"

definition DatasetDependencyGraph ::
    "set_iteration \<Rightarrow> (string, string list) dict \<Rightarrow> graph_limits option \<Rightarrow> dependency_graph res" where
  "DatasetDependencyGraph iter deps limits =
     and_then (copy_dependencies iter deps []) (\<lambda>copied.
       Inr \<lparr>dg_limits = (case limits of None \<Rightarrow> default_graph_limits | Some l \<Rightarrow> l),
            dg_dependencies = fold set_default (iter (concat (map snd copied))) copied\<rparr>)"

section \<open>The order\<close>

text \<open>\<open>{name: set(self._dependencies[name] & selected) for name in selected}\<close>.\<close>

fun pending_parents :: "(string, string list) dict \<Rightarrow> string list \<Rightarrow> string list \<Rightarrow> (string, string list) dict res" where
  "pending_parents deps selected [] = Inr []"
| "pending_parents deps selected (n # ns) =
     (case dict_get deps n of
        None \<Rightarrow> Inl KeyError
      | Some ps \<Rightarrow> and_then (pending_parents deps selected ns) (\<lambda>rest.
          Inr ((n, filter (\<lambda>p. p \<in> set selected) ps) # rest)))"

definition ready_names :: "(string, string list) dict \<Rightarrow> string list" where
  "ready_names pending = sort (map fst (filter (\<lambda>(n, ps). ps = []) pending))"

definition drop_ready :: "string list \<Rightarrow> (string, string list) dict \<Rightarrow> (string, string list) dict" where
  "drop_ready ready pending =
     map (\<lambda>(n, ps). (n, filter (\<lambda>p. p \<notin> set ready) ps)) (filter (\<lambda>(n, ps). n \<notin> set ready) pending)"

lemma length_drop_ready_less: "ready_names pending \<noteq> [] \<Longrightarrow> length (drop_ready (ready_names pending) pending) < length pending"
proof -
  assume "ready_names pending \<noteq> []"
  then obtain n where "n \<in> set (ready_names pending)" by (cases "ready_names pending") auto
  then have "(n, []) \<in> set pending" by (auto simp: ready_names_def)
  with \<open>n \<in> set (ready_names pending)\<close> show ?thesis unfolding drop_ready_def length_map by (intro length_filter_less) auto
qed

function (sequential) order_loop :: "(string, string list) dict \<Rightarrow> string list \<Rightarrow> dependency_validation" where
  "order_loop [] output = DependencyOrder output"
| "order_loop pending output =
     (let ready = ready_names pending in
      if ready = [] then DependencyCycle (sort (map fst pending))
      else order_loop (drop_ready ready pending) (output @ ready))"
  by pat_completeness auto

termination
  by (relation "measure (length \<circ> fst)") (auto intro: length_drop_ready_less [THEN order.strict_trans2])

definition order_selected :: "dependency_graph \<Rightarrow> string list \<Rightarrow> dependency_validation res" where
  "order_selected g selected =
     and_then (pending_parents (dg_dependencies g) selected selected) (\<lambda>pending. Inr (order_loop pending []))"

definition validate :: "dependency_graph \<Rightarrow> dependency_validation res" where
  "validate g =
     (if gl_max_datasets (dg_limits g) < int (length (dg_dependencies g))
      then Inr (DependencyLimitExceeded Datasets (gl_max_datasets (dg_limits g)))
      else order_selected g (dict_keys (dg_dependencies g)))"

definition topological_order :: "set_iteration \<Rightarrow> dependency_graph \<Rightarrow> string list option \<Rightarrow> dependency_validation res" where
  "topological_order iter g datasets =
     (let selected = (case datasets of None \<Rightarrow> dict_keys (dg_dependencies g) | Some ds \<Rightarrow> iter ds) in
      if gl_max_datasets (dg_limits g) < int (length selected)
      then Inr (DependencyLimitExceeded Datasets (gl_max_datasets (dg_limits g)))
      else if \<exists>n\<in>set selected. dict_get (dg_dependencies g) n = None then Inl ValueError
      else order_selected g selected)"

section \<open>The closure\<close>

text \<open>The inner loop over the parents of one dataset: \<open>selected\<close> and \<open>pending\<close> grow together.\<close>

fun close_parents :: "string list \<Rightarrow> string list \<Rightarrow> string list \<Rightarrow> string list \<times> string list" where
  "close_parents [] selected pending = (selected, pending)"
| "close_parents (p # ps) selected pending =
     (if p \<in> set selected then close_parents ps selected pending
      else close_parents ps (selected @ [p]) (pending @ [p]))"

definition graph_names :: "(string, string list) dict \<Rightarrow> string set" where
  "graph_names deps = set (dict_keys deps) \<union> (\<Union>ps\<in>set (map snd deps). set ps)"

lemma finite_graph_names [simp]: "finite (graph_names deps)"
  by (simp add: graph_names_def)

lemma graph_names_parent: "dict_get deps n = Some ps \<Longrightarrow> set ps \<subseteq> graph_names deps"
  by (force simp: graph_names_def dest: dict_get_in_set)

lemma close_parents_grow:
  "\<exists>new. close_parents ps selected pending = (selected @ new, pending @ new) \<and> set new = set ps - set selected \<and> distinct new"
proof (induction ps arbitrary: selected pending)
  case (Cons p ps)
  show ?case
  proof (cases "p \<in> set selected")
    case True
    with Cons.IH [of selected pending] show ?thesis by auto
  next
    case False
    obtain new where "close_parents ps (selected @ [p]) (pending @ [p]) = ((selected @ [p]) @ new, (pending @ [p]) @ new)"
        "set new = set ps - set (selected @ [p])" "distinct new"
      using Cons.IH by blast
    with False show ?thesis by (intro exI [of _ "p # new"]) auto
  qed
qed simp

function close_loop :: "(string, string list) dict \<Rightarrow> string list \<Rightarrow> string list \<Rightarrow> string list res" where
  "close_loop deps selected pending =
     (if pending = [] then Inr selected
      else case dict_get deps (last pending) of
        None \<Rightarrow> Inl KeyError
      | Some ps \<Rightarrow>
          let (selected', pending') = close_parents ps selected (butlast pending) in close_loop deps selected' pending')"
  by pat_completeness auto

termination
proof (relation "(\<lambda>(deps, selected, pending). card (graph_names deps - set selected)) <*mlex*> measure (\<lambda>(deps, selected, pending). length pending)",
    goal_cases)
  case 1
  then show ?case by (intro wf_mlex) simp
next
  case (2 deps selected pending ps pr selected' pending')
  obtain new where new: "selected' = selected @ new" "pending' = butlast pending @ new" "set new = set ps - set selected"
    using close_parents_grow [of ps selected "butlast pending"] 2(3,4) by auto
  show ?case
  proof (cases "new = []")
    case True
    with new 2(1) show ?thesis by (simp add: mlex_prod_def)
  next
    case False
    then obtain p where p: "p \<in> set new" by (cases new) auto
    then have "p \<in> graph_names deps - set selected" using new(3) graph_names_parent [OF 2(2)] by auto
    then have "graph_names deps - set selected' \<subset> graph_names deps - set selected" using p new(1) by auto
    then have "card (graph_names deps - set selected') < card (graph_names deps - set selected)"
      by (intro psubset_card_mono) auto
    then show ?thesis by (simp add: mlex_prod_def)
  qed
qed

declare close_loop.simps [simp del]

definition closure_of :: "set_iteration \<Rightarrow> dependency_graph \<Rightarrow> string list \<Rightarrow> string list \<Rightarrow> dependency_closure_result res" where
  "closure_of iter g datasets partitions =
     (let requested = iter datasets; partition_set = iter partitions in
      if gl_max_partitions (dg_limits g) < int (length partition_set)
      then Inr (ClosureLimitExceeded Partitions (gl_max_partitions (dg_limits g)))
      else if \<exists>n\<in>set requested. dict_get (dg_dependencies g) n = None then Inl ValueError
      else and_then (close_loop (dg_dependencies g) requested requested) (\<lambda>selected.
        if gl_max_datasets (dg_limits g) < int (length selected)
        then Inr (ClosureLimitExceeded Datasets (gl_max_datasets (dg_limits g)))
        else and_then (order_selected g selected) (\<lambda>ordered.
          Inr (case ordered of
                 DependencyOrder ds \<Rightarrow> DependencyClosure ds
               | DependencyCycle ds \<Rightarrow> ClosureCycle ds
               | DependencyLimitExceeded r n \<Rightarrow> ClosureLimitExceeded r n))))"

section \<open>The dependency relation\<close>

definition parents_in :: "(string, string list) dict \<Rightarrow> (string \<times> string) set" where
  "parents_in deps = {(n, p). \<exists>ps. dict_get deps n = Some ps \<and> p \<in> set ps}"

abbreviation depends :: "dependency_graph \<Rightarrow> (string \<times> string) set" where
  "depends g \<equiv> parents_in (dg_dependencies g)"

definition among :: "string set \<Rightarrow> (string \<times> string) set \<Rightarrow> (string \<times> string) set" where
  "among S R = {(n, p) \<in> R. n \<in> S \<and> p \<in> S}"

definition graph_ok :: "dependency_graph \<Rightarrow> bool" where
  "graph_ok g \<longleftrightarrow> dict_ok (dg_dependencies g)
     \<and> (\<forall>(n, p)\<in>depends g. dict_get (dg_dependencies g) p \<noteq> None)"

lemma copy_dependencies_spec:
  assumes "iterates iter" and "copy_dependencies iter deps copied = Inr d" and "dict_ok deps" and "dict_ok copied"
    and "set (dict_keys deps) \<inter> set (dict_keys copied) = {}"
  shows "dict_ok d \<and> parents_in d = parents_in deps \<union> parents_in copied
    \<and> set (dict_keys d) = set (dict_keys deps) \<union> set (dict_keys copied)"
  using assms
proof (induction iter deps copied rule: copy_dependencies.induct)
  case (1 iter copied)
  then show ?case by (simp add: parents_in_def)
next
  case (2 iter dataset parents deps copied)
  let ?c = "dict_set dataset (iter parents) copied"
  have new: "dict_get copied dataset = None" "dict_get deps dataset = None"
    using 2(4,6) by (auto simp: map_of_eq_None_iff)
  have keys: "set (dict_keys ?c) = insert dataset (set (dict_keys copied))" by (simp add: dom_update)
  have "parents_in ?c = {(dataset, p) |p. p \<in> set parents} \<union> parents_in copied"
    using new(1) 2(2) by (auto simp: parents_in_def dict_simps iterates_def split: if_splits)
  moreover have "parents_in ((dataset, parents) # deps) = {(dataset, p) |p. p \<in> set parents} \<union> parents_in deps"
    using new(2) by (auto simp: parents_in_def split: if_splits)
  moreover have "dict_ok d \<and> parents_in d = parents_in deps \<union> parents_in ?c
      \<and> set (dict_keys d) = set (dict_keys deps) \<union> set (dict_keys ?c)"
    using 2(2-6) keys by (intro 2(1)) (auto simp: and_then_eq_Inr)
  ultimately show ?case using keys by auto
qed

lemma fold_set_default:
  assumes "dict_ok d"
  shows "dict_ok (fold set_default ps d) \<and> parents_in (fold set_default ps d) = parents_in d
    \<and> set (dict_keys (fold set_default ps d)) = set (dict_keys d) \<union> set ps"
  using assms
proof (induction ps arbitrary: d)
  case (Cons p ps)
  have "dict_ok (set_default p d)" "parents_in (set_default p d) = parents_in d"
    "set (dict_keys (set_default p d)) = insert p (set (dict_keys d))"
    using Cons.prems by (auto simp: set_default_def parents_in_def dict_simps dom_update map_of_eq_None_iff
        split: if_splits dest: dict_get_in_set intro: image_eqI [rotated])
  with Cons.IH show ?case by auto
qed simp

lemma parents_union:
  "dict_ok d \<Longrightarrow> (\<Union>ps\<in>set (map snd d). set ps) = {p. \<exists>n. (n, p) \<in> parents_in d}"
  by (force simp: parents_in_def dict_get_iff)

lemma iterated_parents:
  "iterates iter \<Longrightarrow> dict_ok d \<Longrightarrow> set (iter (concat (map snd d))) = {p. \<exists>n. (n, p) \<in> parents_in d}"
  using parents_union [of d] by (simp add: iterates_def)

lemma graph_names_parents: "dict_ok d \<Longrightarrow> graph_names d = set (dict_keys d) \<union> {p. \<exists>n. (n, p) \<in> parents_in d}"
  unfolding graph_names_def parents_union ..

lemma constructed_graph_ok:
  assumes iter: "iterates iter" and deps: "dict_ok deps" and g: "DatasetDependencyGraph iter deps limits = Inr g"
  shows "graph_ok g" "depends g = parents_in deps"
    "dict_get (dg_dependencies g) n \<noteq> None \<longleftrightarrow> n \<in> graph_names deps"
    "dg_limits g = (case limits of None \<Rightarrow> default_graph_limits | Some l \<Rightarrow> l)"
proof -
  show "dg_limits g = (case limits of None \<Rightarrow> default_graph_limits | Some l \<Rightarrow> l)"
    using g by (auto simp: DatasetDependencyGraph_def and_then_eq_Inr)
  obtain copied where c: "copy_dependencies iter deps [] = Inr copied"
      "dg_dependencies g = fold set_default (iter (concat (map snd copied))) copied"
    using g by (auto simp: DatasetDependencyGraph_def and_then_eq_Inr)
  have spec: "dict_ok copied" "parents_in copied = parents_in deps" "set (dict_keys copied) = set (dict_keys deps)"
    using copy_dependencies_spec [OF iter c(1) deps] by (auto simp: parents_in_def)
  have all: "set (iter (concat (map snd copied))) = {p. \<exists>n. (n, p) \<in> parents_in deps}"
    unfolding iterated_parents [OF iter spec(1)] spec(2) ..
  note f = fold_set_default [OF spec(1), of "iter (concat (map snd copied))"]
  show "depends g = parents_in deps" using f c(2) spec(2) by simp
  have "dict_get (dg_dependencies g) n \<noteq> None \<longleftrightarrow> n \<in> set (dict_keys (dg_dependencies g))"
    by (simp add: map_of_eq_None_iff)
  also have "\<dots> \<longleftrightarrow> n \<in> graph_names deps"
    using f c(2) spec(3) all graph_names_parents [OF deps] by auto
  finally show "dict_get (dg_dependencies g) n \<noteq> None \<longleftrightarrow> n \<in> graph_names deps" .
  have "dict_get (dg_dependencies g) p \<noteq> None" if "(n, p) \<in> depends g" for n p
  proof -
    have "(n, p) \<in> parents_in copied" using that f c(2) by simp
    then obtain ps where "(n, ps) \<in> set copied" "p \<in> set ps" by (auto simp: parents_in_def dest: dict_get_in_set)
    then have "p \<in> set (iter (concat (map snd copied)))" using iter by (force simp: iterates_def)
    with f c(2) have "p \<in> set (dict_keys (dg_dependencies g))" by simp
    then show ?thesis by (simp add: map_of_eq_None_iff)
  qed
  with f c(2) show "graph_ok g" by (auto simp: graph_ok_def)
qed

section \<open>Correctness of the order\<close>

definition ordered :: "(string \<times> string) set \<Rightarrow> string list \<Rightarrow> bool" where
  "ordered R out \<longleftrightarrow> (\<forall>i<length out. \<forall>p. (out ! i, p) \<in> R \<longrightarrow> p \<in> set (take i out))"

definition pending_ok :: "(string \<times> string) set \<Rightarrow> (string, string list) dict \<Rightarrow> bool" where
  "pending_ok R pending \<longleftrightarrow> dict_ok pending
     \<and> (\<forall>(n, ps)\<in>set pending. set ps = {p. (n, p) \<in> R \<and> p \<in> set (dict_keys pending)})"

lemma dict_keys_entry: "n \<in> set (dict_keys d) \<Longrightarrow> \<exists>ps. (n, ps) \<in> set d"
  by auto

lemma pending_okD:
  "pending_ok R pending \<Longrightarrow> (n, ps) \<in> set pending \<Longrightarrow> set ps = {p. (n, p) \<in> R \<and> p \<in> set (dict_keys pending)}"
  unfolding pending_ok_def by blast

lemma ready_names_set: "set (ready_names pending) = {n. (n, []) \<in> set pending}"
  by (force simp: ready_names_def)

lemma drop_ready_keys: "set (dict_keys (drop_ready ready pending)) = set (dict_keys pending) - set ready"
  by (force simp: drop_ready_def)

lemma drop_ready_ok: "dict_ok pending \<Longrightarrow> dict_ok (drop_ready ready pending)"
proof -
  have "map fst (drop_ready ready pending) = filter (\<lambda>n. n \<notin> set ready) (map fst pending)"
    by (induction pending) (auto simp: drop_ready_def)
  then show "dict_ok pending \<Longrightarrow> dict_ok (drop_ready ready pending)" by simp
qed

lemma pending_ok_drop: "pending_ok R pending \<Longrightarrow> pending_ok R (drop_ready ready pending)"
  unfolding pending_ok_def
proof (elim conjE, intro conjI ballI)
  fix e
  assume all: "\<forall>(n, ps)\<in>set pending. set ps = {p. (n, p) \<in> R \<and> p \<in> set (dict_keys pending)}"
    and e: "e \<in> set (drop_ready ready pending)"
  from e obtain n ps where "e = (n, filter (\<lambda>p. p \<notin> set ready) ps)" "(n, ps) \<in> set pending"
    by (auto simp: drop_ready_def)
  with all show "case e of (n, ps) \<Rightarrow> set ps = {p. (n, p) \<in> R \<and> p \<in> set (dict_keys (drop_ready ready pending))}"
    unfolding drop_ready_keys by fastforce
qed (rule drop_ready_ok)

lemma ordered_append:
  assumes "ordered R out" and "\<And>n p. n \<in> set new \<Longrightarrow> (n, p) \<in> R \<Longrightarrow> p \<in> set out"
  shows "ordered R (out @ new)"
  unfolding ordered_def
proof (intro allI impI)
  fix i p
  assume i: "i < length (out @ new)" and r: "((out @ new) ! i, p) \<in> R"
  show "p \<in> set (take i (out @ new))"
  proof (cases "i < length out")
    case True
    with assms(1) r show ?thesis by (simp add: ordered_def nth_append)
  next
    case False
    with i r assms(2) [of "new ! (i - length out)" p] have "p \<in> set out" by (simp add: nth_append)
    with False show ?thesis by simp
  qed
qed

lemma order_loop_correct:
  assumes "pending_ok R pending" and "distinct out0" and "set out0 \<inter> set (dict_keys pending) = {}"
    and "ordered R out0" and "R \<subseteq> (set out0 \<union> set (dict_keys pending)) \<times> (set out0 \<union> set (dict_keys pending))"
  shows "case order_loop pending out0 of
      DependencyOrder out \<Rightarrow> distinct out \<and> set out = set out0 \<union> set (dict_keys pending) \<and> ordered R out
    | DependencyCycle cyc \<Rightarrow> cyc \<noteq> [] \<and> sorted cyc \<and> distinct cyc \<and> set cyc \<subseteq> set (dict_keys pending)
        \<and> (\<forall>n\<in>set cyc. \<exists>p\<in>set cyc. (n, p) \<in> R)
    | DependencyLimitExceeded r n \<Rightarrow> False"
  using assms
proof (induction pending out0 rule: order_loop.induct)
  case (1 out0)
  then show ?case by simp
next
  case (2 e pending out0)
  let ?P = "e # pending" and ?ready = "ready_names (e # pending)"
  show ?case
  proof (cases "?ready = []")
    case True
    have "\<exists>p\<in>set (dict_keys ?P). (n, p) \<in> R" if key: "n \<in> set (dict_keys ?P)" for n
    proof -
      obtain ps where "(n, ps) \<in> set ?P" using dict_keys_entry [OF key] by blast
      then have "ps \<noteq> []" using True ready_names_set [of ?P] by auto
      then obtain p where "p \<in> set ps" by (cases ps) auto
      with pending_okD [OF 2(2) \<open>(n, ps) \<in> set ?P\<close>] show ?thesis by blast
    qed
    then have "\<forall>n\<in>set (dict_keys ?P). \<exists>p\<in>set (dict_keys ?P). (n, p) \<in> R" by blast
    moreover have "distinct (dict_keys ?P)" using 2(2) by (simp add: pending_ok_def)
    moreover have "order_loop ?P out0 = DependencyCycle (sort (dict_keys ?P))" using True by simp
    moreover have "length (sort (dict_keys ?P)) = Suc (length pending)" by simp
    then have "sort (dict_keys ?P) \<noteq> []" by (metis length_0_conv nat.distinct(1))
    ultimately show ?thesis using \<open>sort (dict_keys ?P) \<noteq> []\<close> by (simp only: dependency_validation.case) (simp del: list.map)
  next
    case False
    have sub: "set ?ready \<subseteq> set (dict_keys ?P)" unfolding ready_names_set by force
    have dist: "distinct ?ready"
      using 2(2) unfolding pending_ok_def ready_names_def by (auto simp: distinct_map_filter)
    have free: "p \<in> set out0" if "n \<in> set ?ready" "(n, p) \<in> R" for n p
    proof -
      have "(n, []) \<in> set ?P" using that(1) ready_names_set [of ?P] by auto
      from pending_okD [OF 2(2) this] that(2) have "p \<notin> set (dict_keys ?P)" by simp
      with that(2) 2(6) show ?thesis by auto
    qed
    have "case order_loop (drop_ready ?ready ?P) (out0 @ ?ready) of
      DependencyOrder out \<Rightarrow> distinct out \<and> set out = set (out0 @ ?ready) \<union> set (dict_keys (drop_ready ?ready ?P)) \<and> ordered R out
    | DependencyCycle cyc \<Rightarrow> cyc \<noteq> [] \<and> sorted cyc \<and> distinct cyc \<and> set cyc \<subseteq> set (dict_keys (drop_ready ?ready ?P))
        \<and> (\<forall>n\<in>set cyc. \<exists>p\<in>set cyc. (n, p) \<in> R)
    | DependencyLimitExceeded r n \<Rightarrow> False"
    proof (rule 2(1) [OF refl False])
      show "pending_ok R (drop_ready ?ready ?P)" by (rule pending_ok_drop [OF 2(2)])
      show "distinct (out0 @ ?ready)" using 2(3,4) sub dist by (simp only: distinct_append) blast
      show "set (out0 @ ?ready) \<inter> set (dict_keys (drop_ready ?ready ?P)) = {}"
        unfolding drop_ready_keys set_append using 2(4) by blast
      show "ordered R (out0 @ ?ready)" by (rule ordered_append [OF 2(5) free])
      have "set (out0 @ ?ready) \<union> set (dict_keys (drop_ready ?ready ?P)) = set out0 \<union> set (dict_keys ?P)"
        unfolding drop_ready_keys set_append using sub by blast
      with 2(6) show "R \<subseteq> (set (out0 @ ?ready) \<union> set (dict_keys (drop_ready ?ready ?P)))
          \<times> (set (out0 @ ?ready) \<union> set (dict_keys (drop_ready ?ready ?P)))" by simp
    qed
    moreover have "set (out0 @ ?ready) \<union> set (dict_keys (drop_ready ?ready ?P)) = set out0 \<union> set (dict_keys ?P)"
      unfolding drop_ready_keys set_append using sub by blast
    moreover have "set (dict_keys (drop_ready ?ready ?P)) \<subseteq> set (dict_keys ?P)" unfolding drop_ready_keys by blast
    moreover have "order_loop ?P out0 = order_loop (drop_ready ?ready ?P) (out0 @ ?ready)" using False by (simp add: Let_def)
    ultimately show ?thesis by (cases "order_loop (drop_ready ?ready ?P) (out0 @ ?ready)") (simp_all only: dependency_validation.case, blast+)
  qed
qed

lemma pending_parents_spec:
  assumes "\<forall>n\<in>set ns. dict_get deps n \<noteq> None"
  shows "pending_parents deps selected ns = Inr (map (\<lambda>n. (n, filter (\<lambda>p. p \<in> set selected) (the (dict_get deps n)))) ns)"
  using assms by (induction ns) auto

lemma ordered_acyclic:
  assumes "distinct out" and "ordered R out" and "R \<subseteq> set out \<times> set out"
  shows "acyclic R"
proof -
  have before: "\<exists>j<i. out ! j = p" if "i < length out" "(out ! i, p) \<in> R" for i p
  proof -
    have "p \<in> set (take i out)" using that assms(2) by (simp add: ordered_def)
    with that(1) show ?thesis by (auto simp: in_set_conv_nth)
  qed
  have trancl_before: "\<exists>j<i. out ! j = p" if "(n, p) \<in> R\<^sup>+" "i < length out" "n = out ! i" for n p i
    using that
  proof (induction rule: trancl_induct)
    case (base p)
    then show ?case using before by blast
  next
    case (step p q)
    then obtain j where "j < i" "out ! j = p" by blast
    moreover with step(2,4) before [of j q] obtain k where "k < j" "out ! k = q" by auto
    ultimately show ?case by (intro exI [of _ k]) auto
  qed
  have "n \<in> set out" if "(n, n) \<in> R\<^sup>+" for n
    using that assms(3) by (metis SigmaE2 subsetD tranclD)
  then have "(n, n) \<notin> R\<^sup>+" for n
  proof (intro notI)
    assume c: "(n, n) \<in> R\<^sup>+"
    with \<open>\<And>n. (n, n) \<in> R\<^sup>+ \<Longrightarrow> n \<in> set out\<close> obtain i where i: "i < length out" "n = out ! i" by (metis in_set_conv_nth)
    with trancl_before [OF c i] obtain j where "j < i" "out ! j = out ! i" by auto
    with assms(1) i(1) show False by (simp add: nth_eq_iff_index_eq)
  qed
  then show ?thesis by (simp add: acyclic_def)
qed

lemma cycle_not_acyclic:
  assumes "finite C" and "C \<noteq> {}" and "\<forall>n\<in>C. \<exists>p\<in>C. (n, p) \<in> R"
  shows "\<not> acyclic R"
proof
  assume "acyclic R"
  then have "acyclic (R \<inter> C \<times> C)" by (rule acyclic_subset) simp
  moreover have "finite (R \<inter> C \<times> C)" using assms(1) by simp
  ultimately have "wf ((R \<inter> C \<times> C)\<inverse>)" by (rule finite_acyclic_wf_converse [rotated])
  then obtain m where "m \<in> C" "\<And>p. (p, m) \<in> (R \<inter> C \<times> C)\<inverse> \<Longrightarrow> p \<notin> C"
    by (rule wfE_min' [OF _ assms(2)]) blast
  with assms(3) show False by blast
qed

lemma order_selected_correct:
  assumes ok: "graph_ok g" and sel: "distinct selected" "\<forall>n\<in>set selected. dict_get (dg_dependencies g) n \<noteq> None"
  defines "R \<equiv> among (set selected) (depends g)"
  shows "\<exists>r. order_selected g selected = Inr r \<and>
    (case r of
       DependencyOrder out \<Rightarrow> distinct out \<and> set out = set selected \<and> ordered R out \<and> acyclic R
     | DependencyCycle cyc \<Rightarrow> cyc \<noteq> [] \<and> sorted cyc \<and> distinct cyc \<and> set cyc \<subseteq> set selected
         \<and> (\<forall>n\<in>set cyc. \<exists>p\<in>set cyc. (n, p) \<in> R) \<and> \<not> acyclic R
     | DependencyLimitExceeded x n \<Rightarrow> False)"
proof -
  let ?pending = "map (\<lambda>n. (n, filter (\<lambda>p. p \<in> set selected) (the (dict_get (dg_dependencies g) n)))) selected"
  have keys: "dict_keys ?pending = selected" by (simp add: comp_def)
  have pend: "pending_ok R ?pending"
    unfolding pending_ok_def keys using sel by (auto simp: R_def among_def parents_in_def)
  have r: "order_selected g selected = Inr (order_loop ?pending [])"
    using pending_parents_spec [OF sel(2)] by (simp add: order_selected_def)
  have sub: "R \<subseteq> set selected \<times> set selected" by (auto simp: R_def among_def)
  have loop: "case order_loop ?pending [] of
      DependencyOrder out \<Rightarrow> distinct out \<and> set out = set [] \<union> set (dict_keys ?pending) \<and> ordered R out
    | DependencyCycle cyc \<Rightarrow> cyc \<noteq> [] \<and> sorted cyc \<and> distinct cyc \<and> set cyc \<subseteq> set (dict_keys ?pending)
        \<and> (\<forall>n\<in>set cyc. \<exists>p\<in>set cyc. (n, p) \<in> R)
    | DependencyLimitExceeded r n \<Rightarrow> False"
    by (rule order_loop_correct [OF pend]) (use sub keys in \<open>simp_all add: ordered_def\<close>)
  show ?thesis
  proof (cases "order_loop ?pending []")
    case (DependencyOrder out)
    with loop keys r ordered_acyclic [of out R] sub show ?thesis by simp
  next
    case (DependencyCycle cyc)
    with loop keys r cycle_not_acyclic [of "set cyc" R] show ?thesis by simp
  qed (use loop in simp)
qed

section \<open>Correctness of the closure\<close>

lemma close_loop_correct:
  assumes "graph_ok g" and "distinct selected" and "set pending \<subseteq> set selected"
    and "\<forall>n\<in>set selected. dict_get (dg_dependencies g) n \<noteq> None"
    and "\<forall>n\<in>set selected - set pending. \<forall>p. (n, p) \<in> depends g \<longrightarrow> p \<in> set selected"
  shows "\<exists>out. close_loop (dg_dependencies g) selected pending = Inr out \<and> distinct out
    \<and> set out = {p. \<exists>n\<in>set selected. (n, p) \<in> (depends g)\<^sup>*} \<and> (\<forall>n\<in>set out. dict_get (dg_dependencies g) n \<noteq> None)"
  using assms(2-5)
proof (induction "dg_dependencies g" selected pending rule: close_loop.induct)
  case (1 selected pending)
  show ?case
  proof (cases "pending = []")
    case True
    have "p \<in> set selected" if "n \<in> set selected" "(n, p) \<in> (depends g)\<^sup>*" for n p
      using that(2,1) 1(5) True by (induction rule: rtrancl_induct) auto
    then have "set selected = {p. \<exists>n\<in>set selected. (n, p) \<in> (depends g)\<^sup>*}" by blast
    moreover have "close_loop (dg_dependencies g) selected pending = Inr selected"
      by (subst close_loop.simps) (simp add: True)
    ultimately show ?thesis using 1(2,4) by blast
  next
    case False
    then have last: "last pending \<in> set selected" using 1(3) by (meson last_in_set subsetD)
    then obtain ps where ps: "dict_get (dg_dependencies g) (last pending) = Some ps" using 1(4) by auto
    obtain new where new: "close_parents ps selected (butlast pending) = (selected @ new, butlast pending @ new)"
        "set new = set ps - set selected" "distinct new"
      using close_parents_grow by blast
    have par: "(last pending, p) \<in> depends g \<longleftrightarrow> p \<in> set ps" for p using ps by (simp add: parents_in_def)
    have known: "\<forall>n\<in>set (selected @ new). dict_get (dg_dependencies g) n \<noteq> None"
      using 1(4) new(2) par assms(1) by (fastforce simp: graph_ok_def)
    have closed: "\<forall>n\<in>set (selected @ new) - set (butlast pending @ new). \<forall>p. (n, p) \<in> depends g \<longrightarrow> p \<in> set (selected @ new)"
    proof (intro ballI allI impI)
      fix n p
      assume n: "n \<in> set (selected @ new) - set (butlast pending @ new)" and p: "(n, p) \<in> depends g"
      show "p \<in> set (selected @ new)"
      proof (cases "n = last pending")
        case True
        with p par new(2) show ?thesis by auto
      next
        case nl: False
        have "set pending = insert (last pending) (set (butlast pending))"
          using False by (metis append_butlast_last_id insert_is_Un list.simps(15) set_append sup_commute empty_set)
        with n nl have "n \<in> set selected - set pending" by auto
        with 1(5) p show ?thesis by auto
      qed
    qed
    have "set (butlast pending @ new) \<subseteq> set (selected @ new)" using 1(3) by (auto dest: in_set_butlastD)
    with 1(1) [OF False ps new(1) [symmetric] refl] 1(2) new(2,3) known closed
    obtain out where out: "close_loop (dg_dependencies g) (selected @ new) (butlast pending @ new) = Inr out" "distinct out"
        "set out = {p. \<exists>n\<in>set (selected @ new). (n, p) \<in> (depends g)\<^sup>*}" "\<forall>n\<in>set out. dict_get (dg_dependencies g) n \<noteq> None"
      by auto
    have "\<exists>n\<in>set selected. (n, p) \<in> (depends g)\<^sup>*" if "n \<in> set new" "(n, p) \<in> (depends g)\<^sup>*" for n p
    proof -
      have "(last pending, n) \<in> depends g" using that(1) new(2) par by simp
      then have "(last pending, p) \<in> (depends g)\<^sup>*" using that(2) by (rule converse_rtrancl_into_rtrancl)
      with last show ?thesis by blast
    qed
    then have "set out = {p. \<exists>n\<in>set selected. (n, p) \<in> (depends g)\<^sup>*}" using out(3) by auto
    with out(1,2,4) False ps new(1) show ?thesis by (simp add: close_loop.simps [of _ selected pending])
  qed
qed

section \<open>Independence of the iteration order\<close>

text \<open>Two pending dictionaries that agree up to the order of names and parents.\<close>

definition same_pending :: "(string, string list) dict \<Rightarrow> (string, string list) dict \<Rightarrow> bool" where
  "same_pending P Q \<longleftrightarrow> dict_ok P \<and> dict_ok Q \<and> (\<lambda>(n, ps). (n, set ps)) ` set P = (\<lambda>(n, ps). (n, set ps)) ` set Q"

lemma sort_eqI: "distinct xs \<Longrightarrow> distinct ys \<Longrightarrow> set xs = set ys \<Longrightarrow> sort xs = sort ys"
  by (metis sorted_list_of_set_sort_remdups distinct_remdups_id)

lemma same_pending_keys: "same_pending P Q \<Longrightarrow> set (dict_keys P) = set (dict_keys Q)"
proof -
  have "fst ` (\<lambda>(n, ps). (n, set ps)) ` set P = set (dict_keys P)" for P :: "(string, string list) dict"
    by (auto simp: image_image split_def)
  then show "same_pending P Q \<Longrightarrow> ?thesis" unfolding same_pending_def by metis
qed

lemma same_pending_ready: "same_pending P Q \<Longrightarrow> ready_names P = ready_names Q"
proof -
  assume same: "same_pending P Q"
  have "set (ready_names P) = {n. (n, {}) \<in> (\<lambda>(n, ps). (n, set ps)) ` set P}" for P
    unfolding ready_names_set by force
  with same have "set (ready_names P) = set (ready_names Q)" by (simp add: same_pending_def)
  moreover have "distinct (map fst (filter (\<lambda>(n, ps). ps = []) P))" "distinct (map fst (filter (\<lambda>(n, ps). ps = []) Q))"
    using same by (simp_all add: same_pending_def distinct_map_filter)
  ultimately show ?thesis unfolding ready_names_def by (intro sort_eqI) simp_all
qed

lemma same_pending_drop: "same_pending P Q \<Longrightarrow> same_pending (drop_ready r P) (drop_ready r Q)"
proof -
  have img: "(\<lambda>(n, ps). (n, set ps)) ` set (drop_ready r P) =
      (\<lambda>(n, A). (n, A - set r)) ` {e \<in> (\<lambda>(n, ps). (n, set ps)) ` set P. fst e \<notin> set r}" for P
  proof -
    have "{e \<in> (\<lambda>(n, ps). (n, set ps)) ` set P. fst e \<notin> set r} = (\<lambda>(n, ps). (n, set ps)) ` {e \<in> set P. fst e \<notin> set r}" by auto
    moreover have "set (drop_ready r P) = (\<lambda>(n, ps). (n, filter (\<lambda>p. p \<notin> set r) ps)) ` {e \<in> set P. fst e \<notin> set r}"
      by (auto simp: drop_ready_def split_def)
    ultimately show ?thesis by (simp add: image_image split_def set_diff_eq)
  qed
  show "same_pending P Q \<Longrightarrow> ?thesis"
    unfolding same_pending_def img by (simp add: drop_ready_ok)
qed

lemma order_loop_same: "same_pending P Q \<Longrightarrow> order_loop P out0 = order_loop Q out0"
proof (induction P out0 arbitrary: Q rule: order_loop.induct)
  case (1 out0)
  then have "Q = []" by (auto simp: same_pending_def)
  then show ?case by simp
next
  case (2 e P out0)
  have "Q \<noteq> []" using 2(2) by (auto simp: same_pending_def)
  then obtain f Q' where Q: "Q = f # Q'" by (cases Q) auto
  note r = same_pending_ready [OF 2(2)]
  have keys: "sort (dict_keys (e # P)) = sort (dict_keys Q)"
    using 2(2) same_pending_keys [OF 2(2)] by (intro sort_eqI) (auto simp: same_pending_def)
  show ?case
  proof (cases "ready_names (e # P) = []")
    case True
    with r keys Q show ?thesis by simp
  next
    case False
    have IH: "order_loop (drop_ready (ready_names (e # P)) (e # P)) (out0 @ ready_names (e # P))
        = order_loop (drop_ready (ready_names (e # P)) Q) (out0 @ ready_names (e # P))"
      by (rule 2(1) [OF refl False same_pending_drop [OF 2(2)]])
    have L: "order_loop (e # P) out0 = order_loop (drop_ready (ready_names (e # P)) (e # P)) (out0 @ ready_names (e # P))"
      using False by (simp add: Let_def)
    have R: "order_loop Q out0 = order_loop (drop_ready (ready_names Q) Q) (out0 @ ready_names Q)"
      using False [unfolded r] unfolding Q by (simp add: Let_def)
    show ?thesis by (rule L [THEN trans, OF IH [THEN trans, OF R [folded r, symmetric]]])
  qed
qed

lemma order_selected_same:
  assumes "\<forall>n. rel_option (\<lambda>ps qs. set ps = set qs) (dict_get (dg_dependencies g) n) (dict_get (dg_dependencies h) n)"
    and "distinct xs" and "distinct ys" and "set xs = set ys" and "\<forall>n\<in>set xs. dict_get (dg_dependencies g) n \<noteq> None"
  shows "order_selected g xs = order_selected h ys"
proof -
  have h: "\<forall>n\<in>set ys. dict_get (dg_dependencies h) n \<noteq> None" using assms(1,4,5) by (metis rel_option_None2)
  have ps: "set (the (dict_get (dg_dependencies g) n)) = set (the (dict_get (dg_dependencies h) n))" if "n \<in> set xs" for n
    using assms(1) [rule_format, of n] assms(5) that
    by (cases "dict_get (dg_dependencies g) n"; cases "dict_get (dg_dependencies h) n") auto
  have "same_pending (map (\<lambda>n. (n, filter (\<lambda>p. p \<in> set xs) (the (dict_get (dg_dependencies g) n)))) xs)
      (map (\<lambda>n. (n, filter (\<lambda>p. p \<in> set ys) (the (dict_get (dg_dependencies h) n)))) ys)"
  proof -
    have "(\<lambda>(n, ps). (n, set ps)) ` set (map (\<lambda>n. (n, filter (\<lambda>p. p \<in> set zs) (f n))) ws) = (\<lambda>n. (n, set (f n) \<inter> set zs)) ` set ws"
      for f :: "string \<Rightarrow> string list" and zs ws by (auto simp: image_image Int_def)
    with ps assms(2-4) show ?thesis unfolding same_pending_def by (simp add: comp_def)
  qed
  from order_loop_same [OF this] show ?thesis
    using pending_parents_spec [OF assms(5)] pending_parents_spec [OF h] by (simp add: order_selected_def)
qed

section \<open>Properties\<close>

lemma iterates_length: "iterates iter \<Longrightarrow> length (iter xs) = card (set xs)"
  by (metis iterates_def distinct_card)

text \<open>C32.  The topological order is correct and complete: for every selection of datasets of a constructed
  graph, whatever order Python iterates its sets in, the call reports an exceeded limit exactly when more than
  \<open>max_datasets\<close> are selected, raises \<open>ValueError\<close> when one is unknown, returns the selected
  datasets, each once and after all its selected dependencies, when these have no cycle, and otherwise
  returns a sorted, non-empty list of selected datasets each of which depends on another of the list.\<close>

theorem topological_order_is_correct:
  assumes "iterates iter" and "dict_ok deps" and "DatasetDependencyGraph iter deps (Some limits) = Inr g"
  shows "let r = topological_order iter g (Some ds); R = among (set ds) (parents_in deps) in
    if gl_max_datasets limits < int (card (set ds)) then r = Inr (DependencyLimitExceeded Datasets (gl_max_datasets limits))
    else if \<not> set ds \<subseteq> graph_names deps then r = Inl ValueError
    else if acyclic R then \<exists>out. r = Inr (DependencyOrder out) \<and> distinct out \<and> set out = set ds
      \<and> (\<forall>i<length out. \<forall>p. (out ! i, p) \<in> R \<longrightarrow> p \<in> set (take i out))
    else \<exists>cyc. r = Inr (DependencyCycle cyc) \<and> cyc \<noteq> [] \<and> sorted cyc \<and> distinct cyc \<and> set cyc \<subseteq> set ds
      \<and> (\<forall>n\<in>set cyc. \<exists>p\<in>set cyc. (n, p) \<in> R)"
proof -
  note g = constructed_graph_ok [OF assms]
  have it: "set (iter ds) = set ds" "distinct (iter ds)" "length (iter ds) = card (set ds)"
    using assms(1) iterates_length [OF assms(1)] by (simp_all add: iterates_def)
  show ?thesis
  proof (cases "gl_max_datasets limits < int (card (set ds)) \<or> \<not> set ds \<subseteq> graph_names deps")
    case True
    have "(\<exists>n\<in>set ds. dict_get (dg_dependencies g) n = None) \<longleftrightarrow> \<not> set ds \<subseteq> graph_names deps" using g(3) by blast
    with True show ?thesis by (auto simp: topological_order_def Let_def it g(4))
  next
    case False
    then have known: "\<forall>n\<in>set (iter ds). dict_get (dg_dependencies g) n \<noteq> None" using g(3) it(1) by blast
    have r: "topological_order iter g (Some ds) = order_selected g (iter ds)"
      using False known by (auto simp: topological_order_def Let_def it g(4))
    from order_selected_correct [OF g(1) it(2) known] obtain v where "order_selected g (iter ds) = Inr v"
        "case v of
           DependencyOrder out \<Rightarrow> distinct out \<and> set out = set ds \<and> ordered (among (set ds) (parents_in deps)) out
             \<and> acyclic (among (set ds) (parents_in deps))
         | DependencyCycle cyc \<Rightarrow> cyc \<noteq> [] \<and> sorted cyc \<and> distinct cyc \<and> set cyc \<subseteq> set ds
             \<and> (\<forall>n\<in>set cyc. \<exists>p\<in>set cyc. (n, p) \<in> among (set ds) (parents_in deps)) \<and> \<not> acyclic (among (set ds) (parents_in deps))
         | DependencyLimitExceeded x n \<Rightarrow> False"
      unfolding g(2) it(1) by blast
    with False show ?thesis unfolding r by (cases v) (auto simp: Let_def ordered_def)
  qed
qed

text \<open>C33.  The closure is exactly what the requested datasets depend on: for known datasets and partitions within
  the limit, the call returns the requested datasets and everything reachable from them over dependencies, each
  once and after its dependencies, unless that set is larger than \<open>max_datasets\<close> or contains a cycle; it
  raises \<open>ValueError\<close> for an unknown dataset.\<close>

theorem closure_is_reachable_set:
  assumes "iterates iter" and "dict_ok deps" and "DatasetDependencyGraph iter deps (Some limits) = Inr g"
  shows "let r = closure_of iter g ds parts; C = {p. \<exists>n\<in>set ds. (n, p) \<in> (parents_in deps)\<^sup>*}; R = among C (parents_in deps) in
    if gl_max_partitions limits < int (card (set parts)) then r = Inr (ClosureLimitExceeded Partitions (gl_max_partitions limits))
    else if \<not> set ds \<subseteq> graph_names deps then r = Inl ValueError
    else if gl_max_datasets limits < int (card C) then r = Inr (ClosureLimitExceeded Datasets (gl_max_datasets limits))
    else if acyclic R then \<exists>out. r = Inr (DependencyClosure out) \<and> distinct out \<and> set out = C
      \<and> (\<forall>i<length out. \<forall>p. (out ! i, p) \<in> parents_in deps \<longrightarrow> p \<in> set (take i out))
    else \<exists>cyc. r = Inr (ClosureCycle cyc) \<and> cyc \<noteq> [] \<and> (\<forall>n\<in>set cyc. \<exists>p\<in>set cyc. (n, p) \<in> parents_in deps)"
proof -
  note g = constructed_graph_ok [OF assms]
  have it: "set (iter ds) = set ds" "distinct (iter ds)" and parts: "length (iter parts) = card (set parts)"
    using assms(1) iterates_length [OF assms(1)] by (simp_all add: iterates_def)
  have unk: "(\<exists>n\<in>set ds. dict_get (dg_dependencies g) n = None) \<longleftrightarrow> \<not> set ds \<subseteq> graph_names deps" using g(3) by blast
  let ?C = "{p. \<exists>n\<in>set ds. (n, p) \<in> (parents_in deps)\<^sup>*}"
  show ?thesis
  proof (cases "gl_max_partitions limits < int (card (set parts)) \<or> \<not> set ds \<subseteq> graph_names deps")
    case True
    with unk show ?thesis by (auto simp: closure_of_def Let_def it parts g(4))
  next
    case False
    then have known: "\<forall>n\<in>set (iter ds). dict_get (dg_dependencies g) n \<noteq> None" using g(3) it(1) by blast
    obtain sel where sel: "close_loop (dg_dependencies g) (iter ds) (iter ds) = Inr sel" "distinct sel" "set sel = ?C"
        "\<forall>n\<in>set sel. dict_get (dg_dependencies g) n \<noteq> None"
      using close_loop_correct [OF g(1) it(2) subset_refl known] it(1) g(2) by auto
    have len: "length sel = card ?C" using sel(2,3) distinct_card by metis
    have R: "(n, p) \<in> among ?C (parents_in deps)" if "n \<in> ?C" "(n, p) \<in> parents_in deps" for n p
      using that by (auto simp: among_def intro: rtrancl_into_rtrancl)
    have r: "closure_of iter g ds parts = (if gl_max_datasets limits < int (card ?C) then Inr (ClosureLimitExceeded Datasets (gl_max_datasets limits))
        else and_then (order_selected g sel) (\<lambda>ordered. Inr (case ordered of DependencyOrder ds \<Rightarrow> DependencyClosure ds
          | DependencyCycle ds \<Rightarrow> ClosureCycle ds | DependencyLimitExceeded r n \<Rightarrow> ClosureLimitExceeded r n)))"
      using False known by (auto simp: closure_of_def Let_def sel(1) len parts g(4))
    from order_selected_correct [OF g(1) sel(2,4)] obtain v where v: "order_selected g sel = Inr v"
        "case v of
           DependencyOrder out \<Rightarrow> distinct out \<and> set out = ?C \<and> ordered (among ?C (parents_in deps)) out \<and> acyclic (among ?C (parents_in deps))
         | DependencyCycle cyc \<Rightarrow> cyc \<noteq> [] \<and> sorted cyc \<and> distinct cyc \<and> set cyc \<subseteq> ?C
             \<and> (\<forall>n\<in>set cyc. \<exists>p\<in>set cyc. (n, p) \<in> among ?C (parents_in deps)) \<and> \<not> acyclic (among ?C (parents_in deps))
         | DependencyLimitExceeded x n \<Rightarrow> False"
      unfolding g(2) sel(3) by blast
    show ?thesis
    proof (cases v)
      case (DependencyOrder out)
      with v(2) have o: "distinct out" "set out = ?C" "ordered (among ?C (parents_in deps)) out" "acyclic (among ?C (parents_in deps))"
        by simp_all
      have "\<forall>i<length out. \<forall>p. (out ! i, p) \<in> parents_in deps \<longrightarrow> p \<in> set (take i out)"
        using o(2,3) R by (metis (no_types, lifting) nth_mem ordered_def)
      with o(1,2,4) False show ?thesis unfolding Let_def r v(1) DependencyOrder by simp
    next
      case (DependencyCycle cyc)
      have sub: "among ?C (parents_in deps) \<subseteq> parents_in deps" by (auto simp: among_def)
      from DependencyCycle v(2) have "cyc \<noteq> []" "\<forall>n\<in>set cyc. \<exists>p\<in>set cyc. (n, p) \<in> among ?C (parents_in deps)"
          "\<not> acyclic (among ?C (parents_in deps))" by simp_all
      moreover from this(2) sub have "\<forall>n\<in>set cyc. \<exists>p\<in>set cyc. (n, p) \<in> parents_in deps" by blast
      ultimately show ?thesis using False unfolding Let_def r v(1) DependencyCycle by simp
    qed (use v(2) in simp)
  qed
qed

text \<open>Results are stable: two graphs built from the same dependencies give the same order and the same closure for
  every selection, in whatever order Python iterates the sets involved.\<close>

theorem graph_results_do_not_depend_on_iteration:
  assumes "iterates iter" and "iterates iter'" and "dict_ok deps"
    and "DatasetDependencyGraph iter deps (Some limits) = Inr g" and "DatasetDependencyGraph iter' deps (Some limits) = Inr h"
  shows "topological_order iter g (Some ds) = topological_order iter' h (Some ds)
    \<and> closure_of iter g ds parts = closure_of iter' h ds parts \<and> validate g = validate h"
proof -
  note g = constructed_graph_ok [OF assms(1,3,4)] and h = constructed_graph_ok [OF assms(2,3,5)]
  have it: "set (iter xs) = set xs" "distinct (iter xs)" "set (iter' xs) = set xs" "distinct (iter' xs)"
    "length (iter xs) = length (iter' xs)" for xs
    using assms(1,2) iterates_length [OF assms(1)] iterates_length [OF assms(2)] by (simp_all add: iterates_def)
  have lim: "dg_limits h = dg_limits g" using g(4) h(4) by simp
  have none: "dict_get (dg_dependencies h) n = None \<longleftrightarrow> dict_get (dg_dependencies g) n = None" for n using g(3) h(3) by blast
  have rel: "\<forall>n. rel_option (\<lambda>ps qs. set ps = set qs) (dict_get (dg_dependencies g) n) (dict_get (dg_dependencies h) n)"
  proof
    fix n
    have "set ps = {p. (n, p) \<in> parents_in d}" if "dict_get d n = Some ps" for d ps using that by (simp add: parents_in_def)
    with g(2) h(2) none [of n] show "rel_option (\<lambda>ps qs. set ps = set qs) (dict_get (dg_dependencies g) n) (dict_get (dg_dependencies h) n)"
      by (cases "dict_get (dg_dependencies g) n"; cases "dict_get (dg_dependencies h) n") auto
  qed
  note same = order_selected_same [OF rel]
  have top: "topological_order iter g (Some ds) = topological_order iter' h (Some ds)"
  proof (cases "\<exists>n\<in>set ds. dict_get (dg_dependencies g) n = None")
    case True
    with none show ?thesis by (simp add: topological_order_def Let_def it lim)
  next
    case False
    then have "order_selected g (iter ds) = order_selected h (iter' ds)" by (intro same) (auto simp: it)
    with False none show ?thesis by (auto simp: topological_order_def Let_def it lim)
  qed
  have clo: "closure_of iter g ds parts = closure_of iter' h ds parts"
  proof (cases "\<exists>n\<in>set ds. dict_get (dg_dependencies g) n = None")
    case True
    with none show ?thesis by (simp add: closure_of_def Let_def it lim)
  next
    case False
    then have known: "\<forall>n\<in>set (iter ds). dict_get (dg_dependencies g) n \<noteq> None" "\<forall>n\<in>set (iter' ds). dict_get (dg_dependencies h) n \<noteq> None"
      using none by (simp_all add: it)
    obtain xs where xs: "close_loop (dg_dependencies g) (iter ds) (iter ds) = Inr xs" "distinct xs"
        "set xs = {p. \<exists>n\<in>set ds. (n, p) \<in> (parents_in deps)\<^sup>*}" "\<forall>n\<in>set xs. dict_get (dg_dependencies g) n \<noteq> None"
      using close_loop_correct [OF g(1) it(2) subset_refl known(1)] unfolding it g(2) by blast
    obtain ys where ys: "close_loop (dg_dependencies h) (iter' ds) (iter' ds) = Inr ys" "distinct ys"
        "set ys = {p. \<exists>n\<in>set ds. (n, p) \<in> (parents_in deps)\<^sup>*}"
      using close_loop_correct [OF h(1) it(4) subset_refl known(2)] unfolding it h(2) by blast
    have "order_selected g xs = order_selected h ys" using xs ys by (intro same) simp_all
    moreover have "length xs = length ys" using xs(2,3) ys(2,3) by (metis distinct_card)
    ultimately show ?thesis using False none xs(1) ys(1) by (auto simp: closure_of_def Let_def it lim)
  qed
  have keys: "set (dict_keys (dg_dependencies g)) = set (dict_keys (dg_dependencies h))"
    using none by (metis (no_types, lifting) map_of_eq_None_iff list.set_map subsetI subset_antisym)
  have dist: "distinct (dict_keys (dg_dependencies g))" "distinct (dict_keys (dg_dependencies h))"
    using g(1) h(1) by (simp_all add: graph_ok_def)
  have "order_selected g (dict_keys (dg_dependencies g)) = order_selected h (dict_keys (dg_dependencies h))"
    using dist keys by (intro same) (simp_all add: map_of_eq_None_iff)
  moreover have "length (dg_dependencies g) = length (dg_dependencies h)"
    using dist keys by (metis distinct_card length_map)
  ultimately show ?thesis using top clo by (simp add: validate_def lim)
qed

definition sample_dependencies :: "(string, string list) dict" where
  "sample_dependencies = [(''c'', [''b'', ''a'']), (''b'', [''a'']), (''x'', [''y'']), (''y'', [''x''])]"

definition sample_limits :: graph_limits where
  "sample_limits = \<lparr>gl_max_datasets = 10, gl_max_partitions = 10\<rparr>"

definition sample_graph :: dependency_graph where
  "sample_graph = \<lparr>dg_limits = sample_limits, dg_dependencies = [(''c'', [''b'', ''a'']), (''b'', [''a'']), (''x'', [''y'']), (''y'', [''x'']), (''a'', [])]\<rparr>"

lemma iterates_remdups: "iterates remdups"
  by (simp add: iterates_def)

lemma iterates_rev_remdups: "iterates (rev \<circ> remdups)"
  by (simp add: iterates_def)

lemma sample_dependencies_ok: "dict_ok sample_dependencies"
  by (simp add: sample_dependencies_def)

lemma sample_graph_built: "DatasetDependencyGraph remdups sample_dependencies (Some sample_limits) = Inr sample_graph"
  by (simp add: DatasetDependencyGraph_def sample_dependencies_def sample_graph_def check_dataset_def py_strip_def is_space_def
      set_default_def)

theorem topological_order_is_correct_witness:
  "topological_order remdups sample_graph (Some [''c'', ''a'', ''b'']) = Inr (DependencyOrder [''a'', ''b'', ''c''])
   \<and> {p. (''c'', p) \<in> among {''a'', ''b'', ''c''} (parents_in sample_dependencies)} \<subseteq> set [''a'', ''b'']
   \<and> (\<exists>cyc. topological_order remdups sample_graph (Some [''x'', ''y'']) = Inr (DependencyCycle cyc) \<and> cyc \<noteq> [])"
proof -
  have v: "topological_order remdups sample_graph (Some [''c'', ''a'', ''b'']) = Inr (DependencyOrder [''a'', ''b'', ''c''])"
    "topological_order remdups sample_graph (Some [''x'', ''y'']) = Inr (DependencyCycle [''x'', ''y''])"
    by (simp_all add: topological_order_def Let_def sample_graph_def sample_limits_def order_selected_def ready_names_def drop_ready_def)
  have "set [''c'', ''a'', ''b''] \<subseteq> graph_names sample_dependencies" "card (set [''c'', ''a'', ''b'']) = 3"
    by (simp_all add: graph_names_def sample_dependencies_def)
  with topological_order_is_correct [OF iterates_remdups sample_dependencies_ok sample_graph_built, of "[''c'', ''a'', ''b'']"] v(1)
  have "\<forall>i<3. \<forall>p. ([''a'', ''b'', ''c''] ! i, p) \<in> among (set [''c'', ''a'', ''b'']) (parents_in sample_dependencies)
      \<longrightarrow> p \<in> set (take i [''a'', ''b'', ''c''])"
    by (auto simp: Let_def sample_limits_def split: if_splits)
  from this [rule_format, of 2] v show ?thesis by (auto simp: insert_commute)
qed

theorem closure_is_reachable_set_witness:
  "\<exists>out. closure_of remdups sample_graph [''c''] [''p''] = Inr (DependencyClosure out) \<and> out = [''a'', ''b'', ''c'']
     \<and> set out = {p. (''c'', p) \<in> (parents_in sample_dependencies)\<^sup>*}"
proof -
  have v: "closure_of remdups sample_graph [''c''] [''p''] = Inr (DependencyClosure [''a'', ''b'', ''c''])"
    by (simp add: closure_of_def Let_def sample_graph_def sample_limits_def order_selected_def ready_names_def drop_ready_def close_loop.simps)
  have "{''c''} \<subseteq> graph_names sample_dependencies" by (simp add: graph_names_def sample_dependencies_def)
  with closure_is_reachable_set [OF iterates_remdups sample_dependencies_ok sample_graph_built, of "[''c'']" "[''p'']"] v
  have "set [''a'', ''b'', ''c''] = {p. \<exists>n\<in>set [''c'']. (n, p) \<in> (parents_in sample_dependencies)\<^sup>*}"
    by (auto simp: Let_def sample_limits_def split: if_splits)
  with v show ?thesis by simp
qed

theorem graph_results_do_not_depend_on_iteration_witness:
  "\<exists>h. DatasetDependencyGraph (rev \<circ> remdups) sample_dependencies (Some sample_limits) = Inr h \<and> h \<noteq> sample_graph
     \<and> topological_order remdups sample_graph (Some [''c'', ''a'']) = topological_order (rev \<circ> remdups) h (Some [''c'', ''a''])"
proof -
  obtain h where h: "DatasetDependencyGraph (rev \<circ> remdups) sample_dependencies (Some sample_limits) = Inr h" "h \<noteq> sample_graph"
    by (simp add: DatasetDependencyGraph_def sample_dependencies_def sample_graph_def check_dataset_def py_strip_def is_space_def
        set_default_def)
  with graph_results_do_not_depend_on_iteration [OF iterates_remdups iterates_rev_remdups sample_dependencies_ok sample_graph_built h(1)]
  show ?thesis by blast
qed

end
