(* ===== verification/Batches.thy ===== *)
theory Batches
  imports Idempotency PyText
begin

text \<open>
  Model of the store of \<open>src/src/pytitect/sync/batches.py\<close>: the retained, resumable state machine of a
  mutation batch with its leases, progress and receipts, kept in memory.  The coordinator over it is in
  \<open>BatchCoordinator\<close>.  Shown: the store keeps progress and receipts in agreement, a lease advances a batch
  at most once, and a completed batch is replayed until its retention ends.
\<close>

section \<open>Data\<close>

datatype batch_policy = ALL_OR_NOTHING | PER_ITEM

datatype batch_state = PROCESSING | PARTIALLY_COMMITTED | COMPLETED | UNCERTAIN

record batch_limits =
  bt_max_items :: int
  bt_max_bytes :: int

definition mk_batch_limits :: "int \<Rightarrow> int \<Rightarrow> batch_limits res" where
  "mk_batch_limits items bytes =
     (if items \<le> 0 \<or> bytes \<le> 0 then Inl ValueError else Inr \<lparr>bt_max_items = items, bt_max_bytes = bytes\<rparr>)"

record batch_item =
  it_item_id :: string
  it_payload :: json

definition mk_batch_item :: "string \<Rightarrow> json \<Rightarrow> batch_item res" where
  "mk_batch_item i p =
     (if i = [] \<or> i \<noteq> py_strip i then Inl ValueError else Inr \<lparr>it_item_id = i, it_payload = p\<rparr>)"

record 'r item_receipt =
  ir_item_id :: string
  ir_result :: 'r
  ir_replayed :: bool

datatype 'r batch_result =
    BatchCommitted "'r item_receipt list"
  | BatchReplay "'r item_receipt list"
  | BatchConflict "string option" string
  | BatchInProgress "string option" instant
  | BatchUncertain "string option" string
  | BatchItemsCommittedEnvelopeUnconfirmed "'r item_receipt list"

record 'r batch_lease =
  bl_namespace :: string
  bl_batch_id :: string
  bl_token :: string
  bl_state :: batch_state
  bl_next_index :: int
  bl_total_items :: int
  bl_receipts :: "'r item_receipt list"
  bl_expires_at :: instant
  bl_resumed :: bool

definition check_batch_lease :: "'r batch_lease \<Rightarrow> 'r batch_lease res" where
  "check_batch_lease l =
     (if bl_namespace l = [] \<or> bl_batch_id l = [] \<or> bl_token l = [] then Inl ValueError
      else if bl_state l \<notin> {PROCESSING, PARTIALLY_COMMITTED} then Inl ValueError
      else if \<not> (0 \<le> bl_next_index l \<and> bl_next_index l \<le> bl_total_items l) then Inl ValueError
      else if bl_next_index l \<noteq> int (length (bl_receipts l)) then Inl ValueError
      else Inr l)"

text \<open>The results of the store's operations; \<open>Early\<close> carries the replay, conflict, in-progress or uncertain
  result of \<open>begin\<close>.\<close>

datatype 'r begin_result = Leased "'r batch_lease" | Early "'r batch_result"
datatype 'r renew_lease_result = MutationBatchLeaseRenewed "'r batch_lease" | RenewStaleBatchLease string
datatype 'r advance_result = MutationBatchProgressed "'r batch_lease" | AdvanceStaleBatchLease string
datatype complete_batch_result = MutationBatchCompleted instant | CompleteStaleBatchLease string
datatype uncertain_batch_result = MutationBatchMarkedUncertain instant | UncertainStaleBatchLease string

definition stale_reason :: string where
  "stale_reason = ''batch lease is absent, expired, or no longer authoritative''"

section \<open>The store protocol and the in-memory store\<close>

record ('r, 's) batch_port =
  begin_op :: "string \<Rightarrow> string \<Rightarrow> fingerprint \<Rightarrow> int \<Rightarrow> datetime \<Rightarrow> timedelta \<Rightarrow> string \<Rightarrow> ('s, 'r begin_result) act"
  renew_lease_op :: "'r batch_lease \<Rightarrow> datetime \<Rightarrow> timedelta \<Rightarrow> ('s, 'r renew_lease_result) act"
  advance_op :: "'r batch_lease \<Rightarrow> 'r item_receipt \<Rightarrow> datetime \<Rightarrow> timedelta \<Rightarrow> ('s, 'r advance_result) act"
  complete_batch_op :: "'r batch_lease \<Rightarrow> datetime \<Rightarrow> timedelta \<Rightarrow> ('s, complete_batch_result) act"
  uncertain_batch_op :: "'r batch_lease \<Rightarrow> string \<Rightarrow> datetime \<Rightarrow> timedelta \<Rightarrow> ('s, uncertain_batch_result) act"

datatype batch_identity = BatchIdentity (bid_namespace: string) (bid_batch_id: string)

record 'r stored_batch =
  sb_fingerprint :: fingerprint
  sb_total_items :: int
  sb_token :: string
  sb_state :: batch_state
  sb_next_index :: int
  sb_receipts :: "'r item_receipt list"
  sb_lease_expires_at :: instant
  sb_retention_expires_at :: "instant option"
  sb_uncertainty_reason :: "string option"

record 'r batch_store =
  bs_capacity :: int
  bs_entries :: "(batch_identity, 'r stored_batch) dict"
  bs_tokens :: "(string, batch_identity) dict"

definition InMemoryMutationBatchStore :: "int \<Rightarrow> 'r batch_store res" where
  "InMemoryMutationBatchStore capacity =
     (if capacity \<le> 0 then Inl ValueError else Inr \<lparr>bs_capacity = capacity, bs_entries = [], bs_tokens = []\<rparr>)"

definition validate_begin :: "string \<Rightarrow> string \<Rightarrow> int \<Rightarrow> datetime \<Rightarrow> timedelta \<Rightarrow> instant res" where
  "validate_begin ns bid total_items now lease_ttl =
     and_then (require_aware_utc now) (\<lambda>t.
       if lease_ttl \<le> 0 then Inl ValueError
       else if ns = [] \<or> bid = [] then Inl ValueError
       else if total_items < 0 then Inl ValueError
       else Inr t)"

definition terminal_expired :: "instant \<Rightarrow> batch_identity \<times> 'r stored_batch \<Rightarrow> bool" where
  "terminal_expired now p \<longleftrightarrow> sb_state (snd p) = COMPLETED
     \<and> (case sb_retention_expires_at (snd p) of None \<Rightarrow> False | Some u \<Rightarrow> u \<le> now)"

definition purge_terminal :: "instant \<Rightarrow> 'r batch_store \<Rightarrow> 'r batch_store" where
  "purge_terminal now s =
     s\<lparr>bs_entries := pop_all (map fst (filter (terminal_expired now) (bs_entries s))) (bs_entries s)\<rparr>"

text \<open>\<open>_lease\<close>: the constructor of a lease checks the stored progress.\<close>

definition issue_lease :: "batch_identity \<Rightarrow> bool \<Rightarrow> 'r stored_batch \<Rightarrow> 'r batch_lease res" where
  "issue_lease idn resumed b =
     check_batch_lease
       \<lparr>bl_namespace = bid_namespace idn, bl_batch_id = bid_batch_id idn, bl_token = sb_token b, bl_state = sb_state b,
        bl_next_index = sb_next_index b, bl_total_items = sb_total_items b, bl_receipts = sb_receipts b,
        bl_expires_at = sb_lease_expires_at b, bl_resumed = resumed\<rparr>"

definition put_batch :: "batch_identity \<Rightarrow> 'r stored_batch \<Rightarrow> 'r batch_store \<Rightarrow> 'r batch_store" where
  "put_batch idn b s = s\<lparr>bs_entries := dict_set idn b (bs_entries s)\<rparr>"

definition drop_token :: "string \<Rightarrow> 'r batch_store \<Rightarrow> 'r batch_store" where
  "drop_token tok s = s\<lparr>bs_tokens := dict_pop tok (bs_tokens s)\<rparr>"

definition add_token :: "string \<Rightarrow> batch_identity \<Rightarrow> 'r batch_store \<Rightarrow> 'r batch_store" where
  "add_token tok idn s = s\<lparr>bs_tokens := dict_set tok idn (bs_tokens s)\<rparr>"

text \<open>A known batch: the branches of \<open>begin\<close> in order.  When the lease has expired the old token is
  dropped and the new one written before the addition that can overflow.\<close>

definition begin_known ::
    "batch_identity \<Rightarrow> fingerprint \<Rightarrow> int \<Rightarrow> instant \<Rightarrow> timedelta \<Rightarrow> string \<Rightarrow> 'r stored_batch \<Rightarrow> ('r batch_store, 'r begin_result) act" where
  "begin_known idn fp total_items t lease_ttl uuid cur s =
     (if sb_fingerprint cur \<noteq> fp \<or> sb_total_items cur \<noteq> total_items
        then (Inr (Early (BatchConflict None ''the batch ID was used with different items'')), s)
      else if sb_state cur = COMPLETED then (Inr (Early (BatchReplay (sb_receipts cur))), s)
      else if sb_state cur = UNCERTAIN
        then (Inr (Early (BatchUncertain None (case sb_uncertainty_reason cur of
                Some r \<Rightarrow> if r = [] then ''the prior batch outcome is unknown'' else r
              | None \<Rightarrow> ''the prior batch outcome is unknown''))), s)
      else if t < sb_lease_expires_at cur then (Inr (Early (BatchInProgress None (sb_lease_expires_at cur))), s)
      else
        let s1 = drop_token (sb_token cur) s; cur1 = cur\<lparr>sb_token := uuid\<rparr> in
        case dt_plus t lease_ttl of
          Inl e \<Rightarrow> (Inl e, put_batch idn cur1 s1)
        | Inr u \<Rightarrow>
            let cur2 = cur1\<lparr>sb_lease_expires_at := u\<rparr>; s2 = add_token uuid idn (put_batch idn cur2 s1) in
            (case issue_lease idn True cur2 of Inl e \<Rightarrow> (Inl e, s2) | Inr l \<Rightarrow> (Inr (Leased l), s2)))"

definition begin_new ::
    "batch_identity \<Rightarrow> fingerprint \<Rightarrow> int \<Rightarrow> instant \<Rightarrow> timedelta \<Rightarrow> string \<Rightarrow> ('r batch_store, 'r begin_result) act" where
  "begin_new idn fp total_items t lease_ttl uuid s =
     (if bs_capacity s \<le> int (length (bs_entries s))
        then (Inr (Early (BatchUncertain None ''mutation batch capacity exceeded; no lease was issued'')), s)
      else
        case dt_plus t lease_ttl of
          Inl e \<Rightarrow> (Inl e, s)
        | Inr u \<Rightarrow>
            let b = \<lparr>sb_fingerprint = fp, sb_total_items = total_items, sb_token = uuid, sb_state = PROCESSING,
                     sb_next_index = 0, sb_receipts = [], sb_lease_expires_at = u, sb_retention_expires_at = None,
                     sb_uncertainty_reason = None\<rparr>;
                s1 = add_token uuid idn (put_batch idn b s) in
            (case issue_lease idn False b of Inl e \<Rightarrow> (Inl e, s1) | Inr l \<Rightarrow> (Inr (Leased l), s1)))"

definition batch_begin ::
    "string \<Rightarrow> string \<Rightarrow> fingerprint \<Rightarrow> int \<Rightarrow> datetime \<Rightarrow> timedelta \<Rightarrow> string \<Rightarrow> ('r batch_store, 'r begin_result) act" where
  "batch_begin ns bid fp total_items now lease_ttl uuid s =
     (case validate_begin ns bid total_items now lease_ttl of
        Inl e \<Rightarrow> (Inl e, s)
      | Inr t \<Rightarrow>
          let idn = BatchIdentity ns bid; s1 = purge_terminal t s in
          case dict_get (bs_entries s1) idn of
            Some cur \<Rightarrow> begin_known idn fp total_items t lease_ttl uuid cur
              (s1\<lparr>bs_entries := move_to_end idn (bs_entries s1)\<rparr>)
          | None \<Rightarrow> begin_new idn fp total_items t lease_ttl uuid s1)"

definition lease_identity :: "'r batch_lease \<Rightarrow> batch_identity" where
  "lease_identity l = BatchIdentity (bl_namespace l) (bl_batch_id l)"

definition active_batch :: "'r batch_lease \<Rightarrow> instant \<Rightarrow> 'r batch_store \<Rightarrow> 'r stored_batch option" where
  "active_batch l now s =
     (if dict_get (bs_tokens s) (bl_token l) \<noteq> Some (lease_identity l) then None
      else case dict_get (bs_entries s) (lease_identity l) of
        None \<Rightarrow> None
      | Some cur \<Rightarrow>
          if sb_token cur \<noteq> bl_token l \<or> sb_state cur \<notin> {PROCESSING, PARTIALLY_COMMITTED}
             \<or> sb_lease_expires_at cur \<le> now \<or> sb_lease_expires_at cur \<noteq> bl_expires_at l
             \<or> sb_next_index cur \<noteq> bl_next_index l \<or> sb_receipts cur \<noteq> bl_receipts l then None
          else Some cur)"

definition positive_at :: "datetime \<Rightarrow> timedelta \<Rightarrow> instant res" where
  "positive_at now ttl = and_then (require_aware_utc now) (\<lambda>t. if ttl \<le> 0 then Inl ValueError else Inr t)"

definition batch_renew :: "'r batch_lease \<Rightarrow> datetime \<Rightarrow> timedelta \<Rightarrow> ('r batch_store, 'r renew_lease_result) act" where
  "batch_renew l now lease_ttl s =
     (case positive_at now lease_ttl of
        Inl e \<Rightarrow> (Inl e, s)
      | Inr t \<Rightarrow>
          case active_batch l t s of
            None \<Rightarrow> (Inr (RenewStaleBatchLease stale_reason), s)
          | Some cur \<Rightarrow>
              case dt_plus t lease_ttl of
                Inl e \<Rightarrow> (Inl e, s)
              | Inr u \<Rightarrow>
                  let cur1 = cur\<lparr>sb_lease_expires_at := u\<rparr>; s1 = put_batch (lease_identity l) cur1 s in
                  (case issue_lease (lease_identity l) (bl_resumed l) cur1 of
                     Inl e \<Rightarrow> (Inl e, s1)
                   | Inr l' \<Rightarrow> (Inr (MutationBatchLeaseRenewed l'), s1)))"

text \<open>The receipt, the index and the state are written before the addition that can overflow.\<close>

definition batch_advance ::
    "'r batch_lease \<Rightarrow> 'r item_receipt \<Rightarrow> datetime \<Rightarrow> timedelta \<Rightarrow> ('r batch_store, 'r advance_result) act" where
  "batch_advance l receipt now lease_ttl s =
     (case positive_at now lease_ttl of
        Inl e \<Rightarrow> (Inl e, s)
      | Inr t \<Rightarrow>
          case active_batch l t s of
            None \<Rightarrow> (Inr (AdvanceStaleBatchLease ''batch progress is stale or already complete''), s)
          | Some cur \<Rightarrow>
              if sb_total_items cur \<le> sb_next_index cur
              then (Inr (AdvanceStaleBatchLease ''batch progress is stale or already complete''), s)
              else
                let cur1 = cur\<lparr>sb_receipts := sb_receipts cur @ [receipt], sb_next_index := sb_next_index cur + 1,
                               sb_state := PARTIALLY_COMMITTED\<rparr> in
                case dt_plus t lease_ttl of
                  Inl e \<Rightarrow> (Inl e, put_batch (lease_identity l) cur1 s)
                | Inr u \<Rightarrow>
                    let cur2 = cur1\<lparr>sb_lease_expires_at := u\<rparr>; s1 = put_batch (lease_identity l) cur2 s in
                    (case issue_lease (lease_identity l) (bl_resumed l) cur2 of
                       Inl e \<Rightarrow> (Inl e, s1)
                     | Inr l' \<Rightarrow> (Inr (MutationBatchProgressed l'), s1)))"

definition batch_complete :: "'r batch_lease \<Rightarrow> datetime \<Rightarrow> timedelta \<Rightarrow> ('r batch_store, complete_batch_result) act" where
  "batch_complete l now retention_ttl s =
     (case positive_at now retention_ttl of
        Inl e \<Rightarrow> (Inl e, s)
      | Inr t \<Rightarrow>
          case active_batch l t s of
            None \<Rightarrow> (Inr (CompleteStaleBatchLease ''batch is stale or has uncommitted items''), s)
          | Some cur \<Rightarrow>
              if sb_next_index cur \<noteq> sb_total_items cur
              then (Inr (CompleteStaleBatchLease ''batch is stale or has uncommitted items''), s)
              else
                let cur1 = cur\<lparr>sb_state := COMPLETED\<rparr> in
                case dt_plus t retention_ttl of
                  Inl e \<Rightarrow> (Inl e, put_batch (lease_identity l) cur1 s)
                | Inr u \<Rightarrow> (Inr (MutationBatchCompleted u),
                    drop_token (sb_token cur) (put_batch (lease_identity l) (cur1\<lparr>sb_retention_expires_at := Some u\<rparr>) s)))"

definition batch_uncertain ::
    "'r batch_lease \<Rightarrow> string \<Rightarrow> datetime \<Rightarrow> timedelta \<Rightarrow> ('r batch_store, uncertain_batch_result) act" where
  "batch_uncertain l reason now retention_ttl s =
     (case positive_at now retention_ttl of
        Inl e \<Rightarrow> (Inl e, s)
      | Inr t \<Rightarrow>
          if reason = [] then (Inl ValueError, s)
          else case active_batch l t s of
            None \<Rightarrow> (Inr (UncertainStaleBatchLease stale_reason), s)
          | Some cur \<Rightarrow>
              let cur1 = cur\<lparr>sb_state := UNCERTAIN, sb_uncertainty_reason := Some reason\<rparr> in
              case dt_plus t retention_ttl of
                Inl e \<Rightarrow> (Inl e, put_batch (lease_identity l) cur1 s)
              | Inr u \<Rightarrow> (Inr (MutationBatchMarkedUncertain u),
                  drop_token (sb_token cur) (put_batch (lease_identity l) (cur1\<lparr>sb_retention_expires_at := Some u\<rparr>) s)))"

definition batch_due :: "purge_uncertain_plan \<Rightarrow> batch_identity \<times> 'r stored_batch \<Rightarrow> bool" where
  "batch_due plan p \<longleftrightarrow> (sb_state (snd p) = COMPLETED \<or> sb_state (snd p) = UNCERTAIN \<and> mp_include_uncertain plan)
     \<and> (case sb_retention_expires_at (snd p) of None \<Rightarrow> False | Some u \<Rightarrow> u \<le> mp_cutoff plan)"

definition batch_age :: "purge_uncertain_plan \<Rightarrow> batch_identity \<times> 'r stored_batch \<Rightarrow> instant \<times> string \<times> string" where
  "batch_age plan p = (the (sb_retention_expires_at (snd p)), bid_namespace (fst p), bid_batch_id (fst p))"

definition batch_purge :: "purge_uncertain_plan \<Rightarrow> ('r batch_store, maintenance_summary) act" where
  "batch_purge plan s =
     (let selected = select_batch (batch_due plan) (batch_age plan) (mp_batch_size plan) (bs_entries s) in
      (batch_summary (mp_dry_run plan) (length selected),
       if mp_dry_run plan then s else s\<lparr>bs_entries := pop_all (map fst selected) (bs_entries s)\<rparr>))"

definition mem_batch_port :: "('r, 'r batch_store) batch_port" where
  "mem_batch_port = \<lparr>begin_op = batch_begin, renew_lease_op = batch_renew, advance_op = batch_advance,
                     complete_batch_op = batch_complete, uncertain_batch_op = batch_uncertain\<rparr>"

section \<open>The conformance harness\<close>

definition is_leased :: "'r begin_result \<Rightarrow> bool" where
  "is_leased r = (case r of Leased l \<Rightarrow> True | Early e \<Rightarrow> False)"

definition the_lease :: "'r begin_result \<Rightarrow> 'r batch_lease" where
  "the_lease r = (case r of Leased l \<Rightarrow> l)"

definition is_in_progress :: "'r begin_result \<Rightarrow> bool" where
  "is_in_progress r = (case r of Early (BatchInProgress i u) \<Rightarrow> True | _ \<Rightarrow> False)"

definition is_conflict :: "'r begin_result \<Rightarrow> bool" where
  "is_conflict r = (case r of Early (BatchConflict i m) \<Rightarrow> True | _ \<Rightarrow> False)"

definition is_uncertain :: "'r begin_result \<Rightarrow> bool" where
  "is_uncertain r = (case r of Early (BatchUncertain i m) \<Rightarrow> True | _ \<Rightarrow> False)"

text \<open>\<open>fp1\<close> and \<open>fp2\<close> are the fingerprints of \<open>{"items": [1]}\<close> and \<open>{"items": [2]}\<close>; \<open>uuid\<close> numbers the UUIDs
  that the calls of \<open>begin\<close> draw.\<close>

definition batch_exercise ::
    "('r, 's) batch_port \<Rightarrow> fingerprint \<Rightarrow> fingerprint \<Rightarrow> (nat \<Rightarrow> string) \<Rightarrow> 'r \<Rightarrow> datetime \<Rightarrow> ('s, unit) act" where
  "batch_exercise port fp1 fp2 uuid result now =
     (let lease_ttl = seconds 60; retention_ttl = seconds 3600; receipt = \<lparr>ir_item_id = ''item'', ir_result = result, ir_replayed = False\<rparr>;
          start = (\<lambda>fp t n. begin_op port ''test'' ''batch'' fp 1 t lease_ttl (uuid n)) in
      sbind (start fp1 now 0) (\<lambda>b0. sbind (sassert (is_leased b0)) (\<lambda>_.
      sbind (start fp1 now 1) (\<lambda>b1. sbind (sassert (is_in_progress b1)) (\<lambda>_.
      sbind (start fp2 now 2) (\<lambda>b2. sbind (sassert (is_conflict b2)) (\<lambda>_.
      sbind (slift (dt_shift now (seconds 1))) (\<lambda>renewed_at.
      sbind (renew_lease_op port (the_lease b0) renewed_at lease_ttl) (\<lambda>r0.
      case r0 of RenewStaleBatchLease _ \<Rightarrow> sraise AssertionError | MutationBatchLeaseRenewed l1 \<Rightarrow>
      sbind (renew_lease_op port (the_lease b0) renewed_at lease_ttl) (\<lambda>r1.
      sbind (sassert (case r1 of RenewStaleBatchLease r \<Rightarrow> True | MutationBatchLeaseRenewed l \<Rightarrow> False)) (\<lambda>_.
      sbind (advance_op port l1 receipt renewed_at lease_ttl) (\<lambda>a0.
      case a0 of AdvanceStaleBatchLease _ \<Rightarrow> sraise AssertionError | MutationBatchProgressed l2 \<Rightarrow>
      sbind (complete_batch_op port l2 renewed_at retention_ttl) (\<lambda>c0.
      sbind (sassert (case c0 of MutationBatchCompleted u \<Rightarrow> True | CompleteStaleBatchLease r \<Rightarrow> False)) (\<lambda>_.
      sbind (slift (dt_shift now lease_ttl)) (\<lambda>later.
      sbind (start fp1 later 3) (\<lambda>b3. sbind (sassert (b3 = Early (BatchReplay [receipt]))) (\<lambda>_.
      sbind (slift (dt_shift renewed_at retention_ttl)) (\<lambda>retained.
      sbind (start fp1 retained 4) (\<lambda>b4. sbind (sassert (is_leased b4)) (\<lambda>_.
      sbind (uncertain_batch_op port (the_lease b4) ''outcome unknown'' retained retention_ttl) (\<lambda>m0.
      sbind (sassert (case m0 of MutationBatchMarkedUncertain u \<Rightarrow> True | UncertainStaleBatchLease r \<Rightarrow> False)) (\<lambda>_.
      sbind (slift (dt_shift retained lease_ttl)) (\<lambda>final.
      sbind (start fp1 final 5) (\<lambda>b5. sassert (is_uncertain b5)))))))))))))))))))))))))"

section \<open>Invariant and runs\<close>

definition batch_ok :: "'r stored_batch \<Rightarrow> bool" where
  "batch_ok b \<longleftrightarrow> sb_next_index b = int (length (sb_receipts b)) \<and> sb_next_index b \<le> sb_total_items b
     \<and> (sb_state b = PROCESSING \<longrightarrow> sb_receipts b = []) \<and> (sb_state b = COMPLETED \<longrightarrow> sb_next_index b = sb_total_items b)"

definition batch_inv :: "'r batch_store \<Rightarrow> bool" where
  "batch_inv s \<longleftrightarrow> 0 < bs_capacity s \<and> dict_ok (bs_entries s) \<and> int (length (bs_entries s)) \<le> bs_capacity s
     \<and> (\<forall>idn b. dict_get (bs_entries s) idn = Some b \<longrightarrow> batch_ok b)"

lemma batch_invD:
  assumes "batch_inv s"
  shows "dict_ok (bs_entries s)" "dict_get (bs_entries s) idn = Some b \<Longrightarrow> batch_ok b"
  using assms by (simp_all add: batch_inv_def)

lemma batch_token_simps [simp]:
  "bs_entries (drop_token tok s) = bs_entries s" "bs_entries (add_token tok idn s) = bs_entries s"
  "bs_capacity (drop_token tok s) = bs_capacity s" "bs_capacity (add_token tok idn s) = bs_capacity s"
  "bs_capacity (put_batch idn b s) = bs_capacity s" "bs_tokens (put_batch idn b s) = bs_tokens s"
  "bs_entries (put_batch idn b s) = dict_set idn b (bs_entries s)"
  by (simp_all add: drop_token_def add_token_def put_batch_def)

lemma put_batch_inv:
  assumes "batch_inv s" and "dict_get (bs_entries s) idn = Some b0" and "batch_ok b" and "bs_entries s1 = dict_set idn b (bs_entries s)"
    and "bs_capacity s1 = bs_capacity s"
  shows "batch_inv s1"
  using assms unfolding batch_inv_def by (auto simp: dict_simps)

lemma active_batchD:
  assumes "active_batch l t s = Some b"
  shows "dict_get (bs_entries s) (lease_identity l) = Some b" "sb_token b = bl_token l" "sb_receipts b = bl_receipts l"
    "sb_next_index b = bl_next_index l" "sb_state b = PROCESSING \<or> sb_state b = PARTIALLY_COMMITTED" "t < sb_lease_expires_at b"
  using assms by (auto simp: active_batch_def split: if_splits option.splits)

lemma issue_lease_Inr:
  assumes "issue_lease idn rsm b = Inr l"
  shows "lease_identity l = idn" "bl_token l = sb_token b" "bl_receipts l = sb_receipts b" "bl_next_index l = sb_next_index b"
    "bl_total_items l = sb_total_items b" "bl_expires_at l = sb_lease_expires_at b" "bl_resumed l = rsm" "bl_state l = sb_state b"
  using assms by (auto simp: issue_lease_def check_batch_lease_def lease_identity_def split: if_splits)

text \<open>A call on a lease finds it stale and changes nothing, or writes the batch back once.\<close>

datatype 'r lease_call =
    RenewLease datetime timedelta | AdvanceBatch "'r item_receipt" datetime timedelta | CompleteBatch datetime timedelta
  | MarkBatch string datetime timedelta

datatype 'r batch_call =
    Begin string string fingerprint int datetime timedelta string
  | OnLease "'r batch_lease" "'r lease_call"
  | PurgeBatches purge_uncertain_plan

datatype 'r batch_reply =
    BeginReply "'r begin_result res" | RenewReply "'r renew_lease_result res" | AdvanceReply "'r advance_result res"
  | CompleteReply "complete_batch_result res" | MarkReply "uncertain_batch_result res" | PurgeReply "maintenance_summary res"

fun lease_step :: "'r batch_lease \<Rightarrow> 'r lease_call \<Rightarrow> 'r batch_store \<Rightarrow> 'r batch_reply \<times> 'r batch_store" where
  "lease_step l (RenewLease now ttl) s = apfst RenewReply (batch_renew l now ttl s)"
| "lease_step l (AdvanceBatch r now ttl) s = apfst AdvanceReply (batch_advance l r now ttl s)"
| "lease_step l (CompleteBatch now ttl) s = apfst CompleteReply (batch_complete l now ttl s)"
| "lease_step l (MarkBatch reason now ttl) s = apfst MarkReply (batch_uncertain l reason now ttl s)"

fun batch_step :: "'r batch_call \<Rightarrow> 'r batch_store \<Rightarrow> 'r batch_reply \<times> 'r batch_store" where
  "batch_step (Begin ns bid fp n now ttl uuid) s = apfst BeginReply (batch_begin ns bid fp n now ttl uuid s)"
| "batch_step (OnLease l x) s = lease_step l x s"
| "batch_step (PurgeBatches plan) s = apfst PurgeReply (batch_purge plan s)"

fun stale_reply :: "'r batch_reply \<Rightarrow> bool" where
  "stale_reply (RenewReply (Inr (RenewStaleBatchLease r))) = True"
| "stale_reply (AdvanceReply (Inr (AdvanceStaleBatchLease r))) = True"
| "stale_reply (CompleteReply (Inr (CompleteStaleBatchLease r))) = True"
| "stale_reply (MarkReply (Inr (UncertainStaleBatchLease r))) = True"
| "stale_reply _ = False"

lemma lease_step_cases:
  obtains (unchanged) "snd (lease_step l x s) = s"
  | (written) t b b' where "active_batch l t s = Some b" "bs_entries (snd (lease_step l x s)) = dict_set (lease_identity l) b' (bs_entries s)"
      "bs_capacity (snd (lease_step l x s)) = bs_capacity s" "batch_ok b \<Longrightarrow> batch_ok b'" "sb_token b' = sb_token b"
      "length (sb_receipts b) \<le> length (sb_receipts b')" "sb_fingerprint b' = sb_fingerprint b" "sb_total_items b' = sb_total_items b"
proof (cases x)
  case (RenewLease now ttl)
  show thesis
  proof (cases "snd (lease_step l x s) = s")
    case False
    with RenewLease obtain t b u where b: "positive_at now ttl = Inr t" "active_batch l t s = Some b" "dt_plus t ttl = Inr u"
      by (auto simp: batch_renew_def split: sum.splits option.splits)
    with RenewLease show thesis
      by (intro written [of t b "b\<lparr>sb_lease_expires_at := u\<rparr>"])
        (auto simp: batch_renew_def Let_def batch_ok_def split: sum.splits)
  qed (rule unchanged)
next
  case (AdvanceBatch r now ttl)
  show thesis
  proof (cases "snd (lease_step l x s) = s")
    case False
    with AdvanceBatch obtain t b where b: "positive_at now ttl = Inr t" "active_batch l t s = Some b" "\<not> sb_total_items b \<le> sb_next_index b"
      by (auto simp: batch_advance_def split: sum.splits option.splits if_splits)
    let ?b = "b\<lparr>sb_receipts := sb_receipts b @ [r], sb_next_index := sb_next_index b + 1, sb_state := PARTIALLY_COMMITTED\<rparr>"
    from b AdvanceBatch show thesis
      by (cases "dt_plus t ttl")
        (auto simp: batch_advance_def Let_def batch_ok_def split: sum.splits
          intro: written [of t b ?b] written [of t b "?b\<lparr>sb_lease_expires_at := projr (dt_plus t ttl)\<rparr>"])
  qed (rule unchanged)
next
  case (CompleteBatch now ttl)
  show thesis
  proof (cases "snd (lease_step l x s) = s")
    case False
    with CompleteBatch obtain t b where b: "positive_at now ttl = Inr t" "active_batch l t s = Some b" "sb_next_index b = sb_total_items b"
      by (auto simp: batch_complete_def split: sum.splits option.splits if_splits)
    with active_batchD(5) [OF b(2)] CompleteBatch show thesis
      by (cases "dt_plus t ttl")
        (auto simp: batch_complete_def Let_def batch_ok_def split: sum.splits
          intro: written [of t b "b\<lparr>sb_state := COMPLETED\<rparr>"]
            written [of t b "b\<lparr>sb_state := COMPLETED, sb_retention_expires_at := Some (projr (dt_plus t ttl))\<rparr>"])
  qed (rule unchanged)
next
  case (MarkBatch reason now ttl)
  show thesis
  proof (cases "snd (lease_step l x s) = s")
    case False
    with MarkBatch obtain t b where b: "positive_at now ttl = Inr t" "active_batch l t s = Some b" "reason \<noteq> []"
      by (auto simp: batch_uncertain_def split: sum.splits option.splits if_splits)
    let ?b = "b\<lparr>sb_state := UNCERTAIN, sb_uncertainty_reason := Some reason\<rparr>"
    from b MarkBatch show thesis
      by (cases "dt_plus t ttl")
        (auto simp: batch_uncertain_def Let_def batch_ok_def split: sum.splits
          intro: written [of t b ?b] written [of t b "?b\<lparr>sb_retention_expires_at := Some (projr (dt_plus t ttl))\<rparr>"])
  qed (rule unchanged)
qed


text \<open>A call of \<open>begin\<close> keeps the live entries, gives an expired batch the new token, or adds a batch.\<close>

lemma purge_terminal_get:
  assumes "dict_ok (bs_entries s)"
  shows "dict_get (bs_entries (purge_terminal t s)) k =
    (case dict_get (bs_entries s) k of None \<Rightarrow> None | Some b \<Rightarrow> if terminal_expired t (k, b) then None else Some b)"
proof -
  have "k \<in> fst ` set (filter (terminal_expired t) (bs_entries s)) \<longleftrightarrow>
      (\<exists>b. dict_get (bs_entries s) k = Some b \<and> terminal_expired t (k, b))"
    using assms by (force simp: dict_get_iff image_iff)
  then show ?thesis by (auto simp: purge_terminal_def dict_simps split: option.splits)
qed

lemma purge_terminal_simps [simp]:
  "bs_capacity (purge_terminal t s) = bs_capacity s" "bs_tokens (purge_terminal t s) = bs_tokens s"
  by (simp_all add: purge_terminal_def)

lemma purge_terminal_inv: "batch_inv s \<Longrightarrow> batch_inv (purge_terminal t s)"
  using purge_terminal_get [of s t] unfolding batch_inv_def
  by (fastforce simp: purge_terminal_def split: option.splits if_splits)

definition reissued :: "string \<Rightarrow> 'r stored_batch \<Rightarrow> 'r stored_batch \<Rightarrow> bool" where
  "reissued uuid b b' \<longleftrightarrow> sb_token b' = uuid \<and> sb_receipts b' = sb_receipts b \<and> sb_next_index b' = sb_next_index b
     \<and> sb_total_items b' = sb_total_items b \<and> sb_state b' = sb_state b"

lemma begin_known_frame:
  assumes "dict_get (bs_entries s) idn = Some b"
  obtains (same) "snd (begin_known idn fp n t ttl uuid b s) = s"
  | (again) b' where "bs_entries (snd (begin_known idn fp n t ttl uuid b s)) = dict_set idn b' (bs_entries s)"
      "bs_capacity (snd (begin_known idn fp n t ttl uuid b s)) = bs_capacity s" "reissued uuid b b'"
      "sb_state b \<notin> {COMPLETED, UNCERTAIN}"
proof (cases "snd (begin_known idn fp n t ttl uuid b s) = s")
  case False
  let ?b = "b\<lparr>sb_token := uuid\<rparr>"
  from False have live: "\<not> (sb_fingerprint b \<noteq> fp \<or> sb_total_items b \<noteq> n)" "sb_state b \<noteq> COMPLETED" "sb_state b \<noteq> UNCERTAIN"
    "\<not> t < sb_lease_expires_at b"
    by (auto simp: begin_known_def split: if_splits)
  show thesis
  proof (cases "dt_plus t ttl")
    case (Inl e)
    with live show thesis by (intro again [of ?b]) (simp_all add: begin_known_def Let_def reissued_def)
  next
    case (Inr u)
    with live show thesis
      by (intro again [of "?b\<lparr>sb_lease_expires_at := u\<rparr>"])
        (simp_all add: begin_known_def Let_def reissued_def split: sum.splits)
  qed
qed (rule same)

definition first_batch :: "string \<Rightarrow> int \<Rightarrow> 'r stored_batch \<Rightarrow> bool" where
  "first_batch uuid n b \<longleftrightarrow> sb_token b = uuid \<and> sb_receipts b = [] \<and> sb_next_index b = 0 \<and> sb_total_items b = n
     \<and> sb_state b = PROCESSING"

lemma begin_new_frame:
  obtains (same) "snd (begin_new idn fp n t ttl uuid s) = s"
  | (added) b where "bs_entries (snd (begin_new idn fp n t ttl uuid s)) = dict_set idn b (bs_entries s)"
      "bs_capacity (snd (begin_new idn fp n t ttl uuid s)) = bs_capacity s" "first_batch uuid n b"
      "int (length (bs_entries s)) < bs_capacity s"
proof (cases "snd (begin_new idn fp n t ttl uuid s) = s")
  case False
  then obtain u where "\<not> bs_capacity s \<le> int (length (bs_entries s))" "dt_plus t ttl = Inr u"
    by (auto simp: begin_new_def split: if_splits sum.splits)
  then show thesis
    by (intro added [of "\<lparr>sb_fingerprint = fp, sb_total_items = n, sb_token = uuid, sb_state = PROCESSING,
                     sb_next_index = 0, sb_receipts = [], sb_lease_expires_at = u, sb_retention_expires_at = None,
                     sb_uncertainty_reason = None\<rparr>"])
      (simp_all add: begin_new_def Let_def first_batch_def split: sum.splits)
qed (rule same)

lemma begin_cases:
  assumes "batch_inv s"
  obtains (refused) e where "batch_begin ns bid fp n now ttl uuid s = (Inl e, s)"
  | (kept) t where "validate_begin ns bid n now ttl = Inr t"
      "dict_get (bs_entries (snd (batch_begin ns bid fp n now ttl uuid s))) = dict_get (bs_entries (purge_terminal t s))"
  | (again) t b b' where "validate_begin ns bid n now ttl = Inr t" "dict_get (bs_entries s) (BatchIdentity ns bid) = Some b"
      "sb_state b \<notin> {COMPLETED, UNCERTAIN}" "reissued uuid b b'"
      "dict_get (bs_entries (snd (batch_begin ns bid fp n now ttl uuid s)))
         = (dict_get (bs_entries (purge_terminal t s)))(BatchIdentity ns bid \<mapsto> b')"
  | (added) t b where "validate_begin ns bid n now ttl = Inr t" "dict_get (bs_entries (purge_terminal t s)) (BatchIdentity ns bid) = None"
      "first_batch uuid n b"
      "dict_get (bs_entries (snd (batch_begin ns bid fp n now ttl uuid s)))
         = (dict_get (bs_entries (purge_terminal t s)))(BatchIdentity ns bid \<mapsto> b)"
proof (cases "validate_begin ns bid n now ttl")
  case (Inl e)
  then show thesis by (intro refused) (simp add: batch_begin_def)
next
  case (Inr t)
  let ?idn = "BatchIdentity ns bid" and ?p = "purge_terminal t s"
  let ?s = "snd (batch_begin ns bid fp n now ttl uuid s)"
  show thesis
  proof (cases "dict_get (bs_entries ?p) ?idn")
    case None
    with Inr have eq: "?s = snd (begin_new ?idn fp n t ttl uuid ?p)" by (simp add: batch_begin_def Let_def)
    show thesis
      by (rule begin_new_frame [of ?idn fp n t ttl uuid ?p])
        (use Inr None eq in \<open>auto simp: fun_eq_iff dict_simps intro: kept added\<close>)
  next
    case (Some b)
    let ?q = "?p\<lparr>bs_entries := move_to_end ?idn (bs_entries ?p)\<rparr>"
    from Inr Some have eq: "?s = snd (begin_known ?idn fp n t ttl uuid b ?q)" by (simp add: batch_begin_def Let_def)
    have b: "dict_get (bs_entries s) ?idn = Some b"
      using Some purge_terminal_get [OF batch_invD(1) [OF assms]] by (simp split: option.splits if_splits)
    have q: "dict_get (bs_entries ?q) ?idn = Some b" using Some by (simp add: dict_simps)
    show thesis
      by (rule begin_known_frame [OF q, of fp n t ttl uuid])
        (use Inr eq b in \<open>auto simp: fun_eq_iff dict_simps intro: kept again\<close>)
  qed
qed

lemma batch_begin_inv:
  assumes "batch_inv s"
  shows "batch_inv (snd (batch_begin ns bid fp n now ttl uuid s))"
proof (cases "validate_begin ns bid n now ttl")
  case (Inl e)
  with assms show ?thesis by (simp add: batch_begin_def)
next
  case (Inr t)
  let ?idn = "BatchIdentity ns bid" and ?p = "purge_terminal t s"
  have p: "batch_inv ?p" by (rule purge_terminal_inv [OF assms])
  from Inr have n: "0 \<le> n" by (auto simp: validate_begin_def and_then_eq_Inr split: if_splits)
  show ?thesis
  proof (cases "dict_get (bs_entries ?p) ?idn")
    case None
    with Inr have eq: "snd (batch_begin ns bid fp n now ttl uuid s) = snd (begin_new ?idn fp n t ttl uuid ?p)"
      by (simp add: batch_begin_def Let_def)
    show ?thesis unfolding eq
    proof (cases rule: begin_new_frame [of ?idn fp n t ttl uuid ?p])
      case same
      with p show "batch_inv (snd (begin_new ?idn fp n t ttl uuid ?p))" by simp
    next
      case (added b)
      then have "batch_ok b" using n by (simp add: first_batch_def batch_ok_def)
      with p None added show "batch_inv (snd (begin_new ?idn fp n t ttl uuid ?p))"
        by (auto simp: batch_inv_def dict_simps split: if_splits)
    qed
  next
    case (Some b)
    let ?q = "?p\<lparr>bs_entries := move_to_end ?idn (bs_entries ?p)\<rparr>"
    from Inr Some have eq: "snd (batch_begin ns bid fp n now ttl uuid s) = snd (begin_known ?idn fp n t ttl uuid b ?q)"
      by (simp add: batch_begin_def Let_def)
    have q: "batch_inv ?q" "dict_get (bs_entries ?q) ?idn = Some b"
      using p Some by (simp_all add: batch_inv_def dict_simps)
    have ok: "batch_ok b" by (rule batch_invD(2) [OF p Some])
    show ?thesis unfolding eq using q(2)
    proof (cases rule: begin_known_frame [where fp = fp and n = n and t = t and ttl = ttl and uuid = uuid])
      case same
      with q show "batch_inv (snd (begin_known ?idn fp n t ttl uuid b ?q))" by simp
    next
      case (again b')
      show "batch_inv (snd (begin_known ?idn fp n t ttl uuid b ?q))"
        by (rule put_batch_inv [OF q _ again(1,2)]) (use ok again(3) in \<open>auto simp: batch_ok_def reissued_def\<close>)
    qed
  qed
qed

interpretation batch_retention: retention batch_purge bs_entries batch_due batch_age maintenance_plan.truncate batch_inv
  by unfold_locales (simp_all add: batch_purge_def Let_def batch_inv_def maintenance_plan.defs)

lemma batch_purge_get:
  assumes "batch_inv s"
  shows "dict_get (bs_entries (snd (batch_purge plan s))) k = dict_get (bs_entries s) k
      \<or> dict_get (bs_entries (snd (batch_purge plan s))) k = None"
  by (simp add: batch_purge_def Let_def dict_simps)

interpretation batch_machine: guarded_machine batch_step batch_inv "\<lambda>_ _. True"
proof
  fix s :: "'a batch_store" and c
  assume inv: "batch_inv s"
  show "batch_inv (snd (batch_step c s))"
  proof (cases c)
    case (Begin ns bid fp n now ttl uuid)
    with inv show ?thesis by (simp add: batch_begin_inv)
  next
    case (OnLease l x)
    show ?thesis unfolding OnLease batch_step.simps
    proof (cases rule: lease_step_cases [of l x s])
      case unchanged
      with inv show "batch_inv (snd (lease_step l x s))" by simp
    next
      case (written t b b')
      have b: "dict_get (bs_entries s) (lease_identity l) = Some b" by (rule active_batchD(1) [OF written(1)])
      show "batch_inv (snd (lease_step l x s))"
        by (rule put_batch_inv [OF inv b _ written(2,3)]) (rule written(4) [OF batch_invD(2) [OF inv b]])
    qed
  next
    case (PurgeBatches plan)
    have "dict_ok (bs_entries (snd (batch_purge plan s)))" "int (length (bs_entries (snd (batch_purge plan s)))) \<le> bs_capacity s"
      "bs_capacity (snd (batch_purge plan s)) = bs_capacity s"
      using inv by (simp_all add: batch_purge_def Let_def batch_inv_def)
    moreover have "batch_ok b" if "dict_get (bs_entries (snd (batch_purge plan s))) k = Some b" for k b
      using that batch_purge_get [OF inv, of plan k] batch_invD(2) [OF inv] by auto
    ultimately show ?thesis using inv by (simp add: PurgeBatches batch_inv_def)
  qed
qed

section \<open>A lease is spent once\<close>

text \<open>The lease \<open>l\<close> is spent when its batch has another token, more receipts than the lease knows or a final state.\<close>

definition spent :: "'r batch_lease \<Rightarrow> 'r batch_store \<Rightarrow> bool" where
  "spent l s \<longleftrightarrow> (\<forall>b. dict_get (bs_entries s) (lease_identity l) = Some b \<longrightarrow>
     sb_token b \<noteq> bl_token l \<or> length (bl_receipts l) < length (sb_receipts b) \<or> sb_state b \<in> {COMPLETED, UNCERTAIN})"

fun never_issues :: "string \<Rightarrow> 'r batch_call \<Rightarrow> 'r batch_store \<Rightarrow> bool" where
  "never_issues tok (Begin ns bid fp n now ttl uuid) s \<longleftrightarrow> uuid \<noteq> tok"
| "never_issues tok (OnLease l x) s \<longleftrightarrow> True"
| "never_issues tok (PurgeBatches plan) s \<longleftrightarrow> True"

lemma spent_inactive: "spent l s \<Longrightarrow> active_batch l t s = None"
  using active_batchD [of l t s] by (cases "active_batch l t s") (auto simp: spent_def)

lemma spent_lease_step:
  assumes "spent l s"
  shows "snd (lease_step l x s) = s" "stale_reply (fst (lease_step l x s)) \<or> fst (lease_step l x s) \<in>
     {RenewReply (Inl ValueError), AdvanceReply (Inl ValueError), CompleteReply (Inl ValueError), MarkReply (Inl ValueError)}"
  using spent_inactive [OF assms]
  by (cases x; force simp: batch_renew_def batch_advance_def batch_complete_def batch_uncertain_def positive_at_def
      require_aware_utc_def and_then_def split: sum.splits if_splits)+

lemma spent_mono:
  assumes "spent l s"
    and "\<And>b'. dict_get (bs_entries s') (lease_identity l) = Some b' \<Longrightarrow>
       dict_get (bs_entries s) (lease_identity l) = Some b' \<or> sb_token b' \<noteq> bl_token l"
  shows "spent l s'"
  using assms unfolding spent_def by blast

interpretation spent_lease: guarded_machine batch_step "\<lambda>s. batch_inv s \<and> spent l s" "never_issues (bl_token l)"
  for l :: "'a batch_lease"
proof (unfold_locales, intro conjI)
  fix s :: "'a batch_store" and c
  assume pre: "batch_inv s \<and> spent l s" and g: "never_issues (bl_token l) c s"
  then have inv: "batch_inv s" and sp: "spent l s" by simp_all
  show "batch_inv (snd (batch_step c s))" by (rule batch_machine.inv_step [OF inv TrueI])
  show "spent l (snd (batch_step c s))"
  proof (cases c)
    case (Begin ns bid fp n now ttl uuid)
    with g have u: "uuid \<noteq> bl_token l" by simp
    have sub: "dict_get (bs_entries s) k = Some b'" if "dict_get (bs_entries (purge_terminal t s)) k = Some b'" for t k b'
      using that purge_terminal_get [OF batch_invD(1) [OF inv], of t k] by (simp split: option.splits if_splits)
    show ?thesis unfolding Begin batch_step.simps
      by (rule begin_cases [OF inv, of ns bid fp n now ttl uuid]; rule spent_mono [OF sp])
        (use u sub in \<open>auto simp: reissued_def first_batch_def split: if_splits\<close>)
  next
    case (OnLease l' x)
    show ?thesis unfolding OnLease batch_step.simps
    proof (cases rule: lease_step_cases [of l' x s])
      case unchanged
      with sp show "spent l (snd (lease_step l' x s))" by simp
    next
      case (written t b b')
      note b = active_batchD [OF written(1)]
      show "spent l (snd (lease_step l' x s))"
      proof (cases "lease_identity l = lease_identity l'")
        case True
        with sp b written(5,6) show ?thesis by (auto simp: spent_def written(2) dict_simps)
      next
        case False
        with sp show ?thesis by (auto simp: spent_def written(2) dict_simps)
      qed
    qed
  next
    case (PurgeBatches plan)
    show ?thesis unfolding PurgeBatches
      by (rule spent_mono [OF sp]) (use batch_purge_get [OF inv, of plan "lease_identity l"] in auto)
  qed
qed

lemma advanceE:
  assumes "batch_advance l r now ttl s = (Inr (MutationBatchProgressed l'), s')"
  obtains t b b' where "active_batch l t s = Some b" "issue_lease (lease_identity l) (bl_resumed l) b' = Inr l'"
    "s' = put_batch (lease_identity l) b' s" "sb_receipts b' = bl_receipts l @ [r]" "sb_next_index b' = bl_next_index l + 1"
    "sb_token b' = bl_token l"
proof -
  from assms obtain t where t: "positive_at now ttl = Inr t" by (auto simp: batch_advance_def split: sum.splits)
  with assms obtain b where b: "active_batch l t s = Some b" by (auto simp: batch_advance_def split: option.splits)
  note D = active_batchD [OF b]
  from assms t b obtain u where u: "dt_plus t ttl = Inr u" "\<not> sb_total_items b \<le> sb_next_index b"
    by (auto simp: batch_advance_def Let_def split: sum.splits if_splits)
  let ?b = "b\<lparr>sb_receipts := sb_receipts b @ [r], sb_next_index := sb_next_index b + 1, sb_state := PARTIALLY_COMMITTED,
      sb_lease_expires_at := u\<rparr>"
  from assms t b u have "issue_lease (lease_identity l) (bl_resumed l) ?b = Inr l'" "s' = put_batch (lease_identity l) ?b s"
    by (auto simp: batch_advance_def Let_def split: sum.splits)
  with b D that [of t b ?b] show thesis by simp
qed

lemma used_lease_is_spent:
  assumes "batch_advance l r now ttl s = (Inr (MutationBatchProgressed l'), s') \<or> batch_complete l now ttl s = (Inr (MutationBatchCompleted u), s')
    \<or> batch_uncertain l reason now ttl s = (Inr (MutationBatchMarkedUncertain u), s')"
  shows "spent l s'"
  using assms
proof (elim disjE)
  assume h: "batch_advance l r now ttl s = (Inr (MutationBatchProgressed l'), s')"
  then show ?thesis by (rule advanceE) (simp add: spent_def dict_simps)
next
  assume "batch_complete l now ttl s = (Inr (MutationBatchCompleted u), s')"
  then show ?thesis
    by (auto simp: batch_complete_def spent_def Let_def dict_simps split: sum.splits option.splits if_splits)
next
  assume "batch_uncertain l reason now ttl s = (Inr (MutationBatchMarkedUncertain u), s')"
  then show ?thesis
    by (auto simp: batch_uncertain_def spent_def Let_def dict_simps split: sum.splits option.splits if_splits)
qed

lemma advance_extends_lease:
  assumes "batch_advance l r now ttl s = (Inr (MutationBatchProgressed l'), s')"
  shows "bl_receipts l' = bl_receipts l @ [r]" "bl_next_index l' = bl_next_index l + 1" "bl_token l' = bl_token l"
    "lease_identity l' = lease_identity l"
proof -
  obtain b' where b': "issue_lease (lease_identity l) (bl_resumed l) b' = Inr l'" "sb_receipts b' = bl_receipts l @ [r]"
      "sb_next_index b' = bl_next_index l + 1" "sb_token b' = bl_token l"
    by (rule advanceE [OF assms]) blast
  with issue_lease_Inr [OF b'(1)] show "bl_receipts l' = bl_receipts l @ [r]" "bl_next_index l' = bl_next_index l + 1"
    "bl_token l' = bl_token l" "lease_identity l' = lease_identity l" by simp_all
qed

lemma renew_keeps_lease:
  assumes "batch_renew l now ttl s = (Inr (MutationBatchLeaseRenewed l'), s')"
  shows "bl_receipts l' = bl_receipts l" "bl_next_index l' = bl_next_index l" "lease_identity l' = lease_identity l"
proof -
  from assms obtain t where t: "positive_at now ttl = Inr t" by (auto simp: batch_renew_def split: sum.splits)
  with assms obtain b where b: "active_batch l t s = Some b" by (auto simp: batch_renew_def split: option.splits)
  note D = active_batchD [OF b]
  from assms t b obtain u where u: "dt_plus t ttl = Inr u" by (auto simp: batch_renew_def Let_def split: sum.splits)
  with assms t b have "issue_lease (lease_identity l) (bl_resumed l) (b\<lparr>sb_lease_expires_at := u\<rparr>) = Inr l'"
    by (auto simp: batch_renew_def Let_def split: sum.splits)
  from issue_lease_Inr [OF this] D show "bl_receipts l' = bl_receipts l" "bl_next_index l' = bl_next_index l"
    "lease_identity l' = lease_identity l" by simp_all
qed

section \<open>Completed batches\<close>

definition batch_completed_as :: "batch_identity \<Rightarrow> fingerprint \<Rightarrow> int \<Rightarrow> 'r item_receipt list \<Rightarrow> instant \<Rightarrow> 'r batch_store \<Rightarrow> bool" where
  "batch_completed_as idn fp n rs ex s \<longleftrightarrow> (\<exists>b. dict_get (bs_entries s) idn = Some b \<and> sb_state b = COMPLETED
     \<and> sb_retention_expires_at b = Some ex \<and> sb_fingerprint b = fp \<and> sb_total_items b = n \<and> sb_receipts b = rs)"

fun batch_before :: "instant \<Rightarrow> 'r batch_call \<Rightarrow> 'r batch_store \<Rightarrow> bool" where
  "batch_before ex (Begin ns bid fp n now ttl uuid) s \<longleftrightarrow> dt_micros now < ex"
| "batch_before ex (OnLease l x) s \<longleftrightarrow> True"
| "batch_before ex (PurgeBatches plan) s \<longleftrightarrow> mp_dry_run plan \<or> mp_cutoff plan < ex"

lemma validate_begin_Inr:
  assumes "validate_begin ns bid n now ttl = Inr t"
  shows "t = dt_micros now"
  using assms by (auto simp: validate_begin_def and_then_eq_Inr require_aware_utc_def split: if_splits)

lemma purge_terminal_keeps:
  assumes "batch_inv s" and "dict_get (bs_entries s) k = Some b" and "\<not> terminal_expired t (k, b)"
  shows "dict_get (bs_entries (purge_terminal t s)) k = Some b"
  using assms purge_terminal_get [OF batch_invD(1) [OF assms(1)], of t k] by simp

interpretation kept_batch: guarded_machine batch_step
    "\<lambda>s. batch_inv s \<and> batch_completed_as idn fp n rs ex s" "batch_before ex"
  for idn :: batch_identity and fp :: fingerprint and n :: int and rs :: "'a item_receipt list" and ex :: instant
proof (unfold_locales, intro conjI)
  fix s :: "'a batch_store" and c
  assume pre: "batch_inv s \<and> batch_completed_as idn fp n rs ex s" and g: "batch_before ex c s"
  then have inv: "batch_inv s" by simp
  from pre obtain b where b: "dict_get (bs_entries s) idn = Some b" "sb_state b = COMPLETED" "sb_retention_expires_at b = Some ex"
      "sb_fingerprint b = fp" "sb_total_items b = n" "sb_receipts b = rs"
    by (auto simp: batch_completed_as_def)
  have kept: "batch_completed_as idn fp n rs ex s'" if "dict_get (bs_entries s') idn = Some b" for s' :: "'a batch_store"
    using that b by (simp add: batch_completed_as_def)
  show "batch_inv (snd (batch_step c s))" by (rule batch_machine.inv_step [OF inv TrueI])
  show "batch_completed_as idn fp n rs ex (snd (batch_step c s))"
  proof (cases c)
    case (Begin ns bid fp' m now ttl uuid)
    have p: "dict_get (bs_entries (purge_terminal t s)) idn = Some b" if "validate_begin ns bid m now ttl = Inr t" for t
      by (rule purge_terminal_keeps [OF inv b(1)])
        (use g Begin b(3) validate_begin_Inr [OF that] in \<open>simp add: terminal_expired_def\<close>)
    show ?thesis unfolding Begin batch_step.simps
      by (rule begin_cases [OF inv, of ns bid fp' m now ttl uuid]; rule kept) (use p b in \<open>auto split: if_splits\<close>)
  next
    case (OnLease l x)
    have "idn \<noteq> lease_identity l" if "active_batch l t s = Some b1" for t b1
      using active_batchD(1,5) [OF that] b(1,2) by auto
    note other = this
    show ?thesis unfolding OnLease batch_step.simps
    proof (cases rule: lease_step_cases [of l x s])
      case unchanged
      with b(1) show "batch_completed_as idn fp n rs ex (snd (lease_step l x s))" by (intro kept) simp
    next
      case (written t b1 b2)
      with b(1) other [OF written(1)] show "batch_completed_as idn fp n rs ex (snd (lease_step l x s))"
        by (intro kept) (simp add: dict_simps)
    qed
  next
    case (PurgeBatches plan)
    have "\<not> (batch_due plan (idn, b) \<and> \<not> mp_dry_run plan)"
      using g PurgeBatches b(3) by (auto simp: batch_due_def)
    with batch_retention.removed_are_due [OF inv dict_get_in_set [OF b(1)], of plan]
    have "(idn, b) \<in> set (bs_entries (snd (batch_purge plan s)))"
      by (auto simp: maintenance_plan.defs)
    moreover have "batch_inv (snd (batch_purge plan s))"
      using batch_machine.inv_step [OF inv TrueI, of "PurgeBatches plan"] by simp
    ultimately have "dict_get (bs_entries (snd (batch_purge plan s))) idn = Some b"
      by (simp add: dict_get_iff batch_invD(1))
    then show ?thesis unfolding PurgeBatches by (intro kept) simp
  qed
qed

lemma completed_batch_begin:
  assumes "batch_inv s" and "batch_completed_as (BatchIdentity ns bid) fp n rs ex s" and "validate_begin ns bid m now ttl = Inr t"
    and "t < ex"
  shows "fst (batch_begin ns bid fp' m now ttl uuid s) =
    Inr (Early (if fp' = fp \<and> m = n then BatchReplay rs else BatchConflict None ''the batch ID was used with different items''))"
proof -
  from assms(2) obtain b where b: "dict_get (bs_entries s) (BatchIdentity ns bid) = Some b" "sb_state b = COMPLETED"
      "sb_retention_expires_at b = Some ex" "sb_fingerprint b = fp" "sb_total_items b = n" "sb_receipts b = rs"
    by (auto simp: batch_completed_as_def)
  have "dict_get (bs_entries (purge_terminal t s)) (BatchIdentity ns bid) = Some b"
    by (rule purge_terminal_keeps [OF assms(1) b(1)]) (use assms(4) b(3) in \<open>simp add: terminal_expired_def\<close>)
  with assms(3) b show ?thesis by (auto simp: batch_begin_def Let_def begin_known_def)
qed

lemma complete_retains:
  assumes "batch_complete l now ttl s = (Inr (MutationBatchCompleted ex), s')"
  shows "\<exists>b. dict_get (bs_entries s) (lease_identity l) = Some b
    \<and> batch_completed_as (lease_identity l) (sb_fingerprint b) (bl_next_index l) (bl_receipts l) ex s'"
  using assms
  by (fastforce simp: batch_complete_def batch_completed_as_def Let_def dict_simps split: sum.splits option.splits if_splits
      dest: active_batchD)

section \<open>Properties\<close>

definition sample_batch :: "int batch_store" where
  "sample_batch = snd (batch_begin ''ns'' ''b'' ''f'' 1 (utc_datetime 0) 10 ''t1'' \<lparr>bs_capacity = 3, bs_entries = [], bs_tokens = []\<rparr>)"

definition sample_lease :: "int batch_lease" where
  "sample_lease = \<lparr>bl_namespace = ''ns'', bl_batch_id = ''b'', bl_token = ''t1'', bl_state = PROCESSING, bl_next_index = 0,
     bl_total_items = 1, bl_receipts = [], bl_expires_at = 10, bl_resumed = False\<rparr>"

definition sample_receipt :: "int item_receipt" where
  "sample_receipt = \<lparr>ir_item_id = ''i'', ir_result = 7, ir_replayed = False\<rparr>"

definition sample_advanced_lease :: "int batch_lease" where
  "sample_advanced_lease = sample_lease\<lparr>bl_state := PARTIALLY_COMMITTED, bl_next_index := 1, bl_receipts := [sample_receipt],
     bl_expires_at := 15\<rparr>"

definition sample_advanced :: "int batch_store" where
  "sample_advanced = snd (batch_advance sample_lease sample_receipt (utc_datetime 5) 10 sample_batch)"

lemmas batch_eval = batch_begin_def validate_begin_def purge_terminal_def terminal_expired_def begin_known_def begin_new_def
  issue_lease_def check_batch_lease_def put_batch_def drop_token_def add_token_def move_to_end_def pop_all_def dt_plus_def
  batch_renew_def batch_advance_def batch_complete_def batch_uncertain_def active_batch_def positive_at_def lease_identity_def Let_def

lemma sample_batch_eq:
  "sample_batch = \<lparr>bs_capacity = 3, bs_entries = [(BatchIdentity ''ns'' ''b'', \<lparr>sb_fingerprint = ''f'', sb_total_items = 1,
     sb_token = ''t1'', sb_state = PROCESSING, sb_next_index = 0, sb_receipts = [], sb_lease_expires_at = 10,
     sb_retention_expires_at = None, sb_uncertainty_reason = None\<rparr>)], bs_tokens = [(''t1'', BatchIdentity ''ns'' ''b'')]\<rparr>"
  by (simp add: sample_batch_def batch_eval dt_max_def)

lemma sample_batch_inv: "batch_inv sample_batch"
  unfolding sample_batch_def by (rule batch_begin_inv) (simp add: batch_inv_def)

lemma sample_advances:
  "batch_advance sample_lease sample_receipt (utc_datetime 5) 10 sample_batch = (Inr (MutationBatchProgressed sample_advanced_lease), sample_advanced)"
  by (simp add: sample_advanced_def sample_batch_eq sample_lease_def sample_advanced_lease_def batch_eval dt_max_def)

lemma sample_advanced_eq:
  "sample_advanced = \<lparr>bs_capacity = 3, bs_entries = [(BatchIdentity ''ns'' ''b'', \<lparr>sb_fingerprint = ''f'', sb_total_items = 1,
     sb_token = ''t1'', sb_state = PARTIALLY_COMMITTED, sb_next_index = 1, sb_receipts = [sample_receipt], sb_lease_expires_at = 15,
     sb_retention_expires_at = None, sb_uncertainty_reason = None\<rparr>)], bs_tokens = [(''t1'', BatchIdentity ''ns'' ''b'')]\<rparr>"
  by (simp add: sample_advanced_def sample_batch_eq sample_lease_def batch_eval dt_max_def)

lemma sample_advanced_inv: "batch_inv sample_advanced"
  using batch_machine.inv_step [OF sample_batch_inv TrueI, of "OnLease sample_lease (AdvanceBatch sample_receipt (utc_datetime 5) 10)"]
  by (simp add: sample_advances)

text \<open>The capacity and the agreement of progress and receipts hold in every run of calls from a new store.\<close>

theorem batch_runs_keep_invariant:
  assumes "InMemoryMutationBatchStore capacity = Inr s"
  shows "batch_inv (snd (run batch_step calls s))"
proof -
  from assms have "batch_inv s"
    by (auto simp: InMemoryMutationBatchStore_def batch_inv_def split: if_splits)
  then show ?thesis by (rule batch_machine.run_inv) simp
qed

text \<open>A lease is spent once: after a lease advanced its batch (which extends the receipts of the lease by exactly that
  receipt), completed it or marked it uncertain, then in every later run of calls by anyone in which no new lease
  draws the same token, every further call on that lease is refused as stale (or for its arguments) and
  changes nothing.  So no item of a batch is recorded twice under one lease.\<close>

theorem batch_lease_is_spent_once:
  assumes "batch_inv s"
    and used: "batch_advance l r now ttl s = (Inr (MutationBatchProgressed l'), s')
      \<or> batch_complete l now ttl s = (Inr (MutationBatchCompleted u), s')
      \<or> batch_uncertain l reason now ttl s = (Inr (MutationBatchMarkedUncertain u), s')"
    and others: "guarded (never_issues (bl_token l)) batch_step calls s'"
  shows "let s'' = snd (run batch_step calls s') in
      snd (lease_step l x s'') = s''
      \<and> (stale_reply (fst (lease_step l x s'')) \<or> fst (lease_step l x s'') \<in>
          {RenewReply (Inl ValueError), AdvanceReply (Inl ValueError), CompleteReply (Inl ValueError), MarkReply (Inl ValueError)})
      \<and> (batch_advance l r now ttl s = (Inr (MutationBatchProgressed l'), s') \<longrightarrow> bl_receipts l' = bl_receipts l @ [r])"
proof -
  have "snd (batch_step (OnLease l (AdvanceBatch r now ttl)) s) = s' \<or> snd (batch_step (OnLease l (CompleteBatch now ttl)) s) = s'
      \<or> snd (batch_step (OnLease l (MarkBatch reason now ttl)) s) = s'"
    using used by auto
  then have "batch_inv s'" using batch_machine.inv_step [OF assms(1) TrueI] by metis
  with used_lease_is_spent [OF used] have "spent l (snd (run batch_step calls s'))"
    using spent_lease.run_inv [OF _ others] by blast
  then show ?thesis unfolding Let_def using spent_lease_step advance_extends_lease(1) [of l r now ttl s l' s'] by blast
qed

theorem batch_lease_is_spent_once_witness:
  "stale_reply (fst (lease_step sample_lease (AdvanceBatch sample_receipt (utc_datetime 6) 10)
     (snd (run batch_step [Begin ''ns'' ''c'' ''f'' 1 (utc_datetime 6) 10 ''t2''] sample_advanced))))"
proof -
  let ?s = "snd (run batch_step [Begin ''ns'' ''c'' ''f'' 1 (utc_datetime 6) 10 ''t2''] sample_advanced)"
  have "\<exists>r. fst (lease_step sample_lease (AdvanceBatch sample_receipt (utc_datetime 6) 10) ?s) = AdvanceReply (Inr r)"
    by (simp add: sample_advanced_eq sample_lease_def batch_eval dt_max_def)
  with batch_lease_is_spent_once [OF sample_batch_inv disjI1 [OF sample_advances],
      of "[Begin ''ns'' ''c'' ''f'' 1 (utc_datetime 6) 10 ''t2'']" "AdvanceBatch sample_receipt (utc_datetime 6) 10"]
  show ?thesis by (auto simp: Let_def sample_lease_def)
qed

text \<open>A completed batch is replayed: after a completion retained until \<open>ex\<close>, through every run of calls in which
  \<open>begin\<close> is called before \<open>ex\<close> and live purges have cutoffs before \<open>ex\<close>, a valid \<open>begin\<close> of the batch before \<open>ex\<close>
  returns the receipts of the completing lease when the items are the same, and a conflict when they differ.\<close>

theorem completed_batch_is_replayed:
  assumes "batch_inv s" and "batch_complete l now ttl s = (Inr (MutationBatchCompleted ex), s')"
    and "guarded (batch_before ex) batch_step calls s'"
    and "dict_get (bs_entries s) (lease_identity l) = Some b"
    and "validate_begin (bl_namespace l) (bl_batch_id l) n now' ttl' = Inr t" and "t < ex"
  shows "fst (batch_begin (bl_namespace l) (bl_batch_id l) fp n now' ttl' uuid (snd (run batch_step calls s'))) =
    Inr (Early (if fp = sb_fingerprint b \<and> n = bl_next_index l then BatchReplay (bl_receipts l)
                else BatchConflict None ''the batch ID was used with different items''))"
proof -
  have "batch_inv s'" using batch_machine.inv_step [OF assms(1) TrueI, of "OnLease l (CompleteBatch now ttl)"] assms(2) by simp
  moreover have "batch_completed_as (lease_identity l) (sb_fingerprint b) (bl_next_index l) (bl_receipts l) ex s'"
    using complete_retains [OF assms(2)] assms(4) by simp
  ultimately have "batch_inv (snd (run batch_step calls s')) \<and> batch_completed_as (lease_identity l) (sb_fingerprint b)
      (bl_next_index l) (bl_receipts l) ex (snd (run batch_step calls s'))"
    using kept_batch.run_inv [OF _ assms(3)] by blast
  then show ?thesis
    using completed_batch_begin [OF _ _ assms(5,6), of "snd (run batch_step calls s')"] by (simp add: lease_identity_def)
qed

theorem completed_batch_is_replayed_witness:
  "fst (batch_begin ''ns'' ''b'' ''f'' 1 (utc_datetime 50) 10 ''t3'' (snd (run batch_step
      [Begin ''ns'' ''c'' ''g'' 2 (utc_datetime 20) 10 ''t2'', OnLease sample_advanced_lease (RenewLease (utc_datetime 30) 10)]
      (snd (batch_complete sample_advanced_lease (utc_datetime 6) 100 sample_advanced)))))
   = Inr (Early (BatchReplay [sample_receipt]))"
proof -
  let ?b = "\<lparr>sb_fingerprint = ''f'', sb_total_items = 1, sb_token = ''t1'', sb_state = PARTIALLY_COMMITTED, sb_next_index = 1,
     sb_receipts = [sample_receipt], sb_lease_expires_at = 15, sb_retention_expires_at = None, sb_uncertainty_reason = None\<rparr>"
  have "batch_complete sample_advanced_lease (utc_datetime 6) 100 sample_advanced
      = (Inr (MutationBatchCompleted 106), snd (batch_complete sample_advanced_lease (utc_datetime 6) 100 sample_advanced))"
    by (simp add: sample_advanced_eq sample_advanced_lease_def sample_lease_def batch_eval dt_max_def)
  from completed_batch_is_replayed [OF sample_advanced_inv this,
      of "[Begin ''ns'' ''c'' ''g'' 2 (utc_datetime 20) 10 ''t2'', OnLease sample_advanced_lease (RenewLease (utc_datetime 30) 10)]"
        ?b 1 "utc_datetime 50" 10 50 "''f''" "''t3''"]
  show ?thesis
    by (simp add: sample_advanced_eq sample_advanced_lease_def sample_lease_def lease_identity_def validate_begin_def
        utc_datetime_def require_aware_utc_def)
qed

text \<open>The in-memory batch store passes its conformance harness.\<close>

theorem batch_harness_passes:
  assumes "InMemoryMutationBatchStore cap = Inr s" and "inj uuid" and "\<forall>n. uuid n \<noteq> []" and "fp1 \<noteq> fp2"
    and "0 \<le> now" and "now + seconds 7261 \<le> dt_max"
  shows "fst (batch_exercise mem_batch_port fp1 fp2 uuid v (utc_datetime now) s) = Inr ()"
proof -
  have s: "s = \<lparr>bs_capacity = cap, bs_entries = [], bs_tokens = []\<rparr>" "0 < cap"
    using assms(1) by (auto simp: InMemoryMutationBatchStore_def split: if_splits)
  have u: "uuid i = uuid j \<longleftrightarrow> i = j" for i j using assms(2) by (simp add: inj_eq)
  show ?thesis
    using assms(3-6) s(2)
    by (simp add: s(1) batch_exercise_def mem_batch_port_def batch_eval seconds_def sbind_def sassert_def u
        is_leased_def the_lease_def is_in_progress_def is_conflict_def is_uncertain_def dt_shift_def utc_datetime_def
        require_aware_utc_def)
qed

end
