(* ===== verification/Canonical.thy ===== *)
theory Canonical
  imports Core
begin

text \<open>
  Model of the validator and canonicalizer of \<open>src/src/pytitect/security/canonical.py\<close> and of the fingerprints of
  \<open>src/src/pytitect/core.py\<close> built on a canonicalizer.  The RFC 8785 serializer is a third-party package and the
  digest a parameter.  Shown: the validator accepts exactly the interoperable values, and a canonical form exists
  only for them.
\<close>

definition max_safe_integer :: int where
  "max_safe_integer = 9007199254740991"

definition ijson_string :: "string \<Rightarrow> unit res" where
  "ijson_string s = check (\<not> (\<exists>c\<in>set s. (0xD800::nat) \<le> of_char c \<and> of_char c \<le> (0xDFFF::nat))) ValueError"

text \<open>The nested function \<open>visit\<close>; a list is visited in order, a dictionary key before its value.\<close>

fun validate_ijson :: "json \<Rightarrow> unit res"
  and ijson_all :: "json list \<Rightarrow> unit res"
  and ijson_members :: "(json_key \<times> json) list \<Rightarrow> unit res" where
  "validate_ijson JNull = Inr ()"
| "validate_ijson (JBool b) = Inr ()"
| "validate_ijson (JInt n) = check (\<bar>n\<bar> \<le> max_safe_integer) ValueError"
| "validate_ijson (JFloat x) = check (is_finite x) ValueError"
| "validate_ijson (JStr s) = ijson_string s"
| "validate_ijson (JList vs) = ijson_all vs"
| "validate_ijson (JDict ms) = ijson_members ms"
| "validate_ijson (JOther t) = Inl ValueError"
| "ijson_all [] = Inr ()"
| "ijson_all (v # vs) = and_then (validate_ijson v) (\<lambda>_. ijson_all vs)"
| "ijson_members [] = Inr ()"
| "ijson_members ((k, v) # ms) =
     (case k of
        KOther t \<Rightarrow> Inl ValueError
      | KStr s \<Rightarrow> and_then (ijson_string s) (\<lambda>_. and_then (validate_ijson v) (\<lambda>_. ijson_members ms)))"

text \<open>\<open>rfc8785\<close> is the serializer of the optional package, absent when it is not installed.\<close>

definition canonical_json :: "(json \<Rightarrow> string res) option \<Rightarrow> json \<Rightarrow> string res" where
  "canonical_json rfc8785 v =
     and_then (validate_ijson v) (\<lambda>_.
       case rfc8785 of
         None \<Rightarrow> Inl RuntimeError
       | Some dumps \<Rightarrow>
           (case dumps v of
              Inr b \<Rightarrow> Inr b
            | Inl e \<Rightarrow> Inl (if e \<in> {TypeError, ValueError, OverflowError} then ValueError else e)))"

text \<open>\<open>sha256_fingerprint\<close> of a JSON value; \<open>digest\<close> is the hexadecimal SHA-256 of a byte string.\<close>

definition sha256_fingerprint :: "(string \<Rightarrow> string) \<Rightarrow> (json \<Rightarrow> string res) \<Rightarrow> json \<Rightarrow> string res" where
  "sha256_fingerprint digest canonicalizer v = and_then (canonicalizer v) (\<lambda>payload. Inr (digest payload))"

section \<open>Acceptance\<close>

text \<open>Values whose integers are exact doubles, whose floats are finite and whose keys are strings.\<close>

fun interoperable :: "json \<Rightarrow> bool" where
  "interoperable JNull = True"
| "interoperable (JBool b) = True"
| "interoperable (JInt n) = (\<bar>n\<bar> \<le> max_safe_integer)"
| "interoperable (JFloat x) = is_finite x"
| "interoperable (JStr s) = True"
| "interoperable (JList vs) = (\<forall>v\<in>set vs. interoperable v)"
| "interoperable (JDict ms) = (\<forall>m\<in>set ms. (\<exists>s. fst m = KStr s) \<and> interoperable (snd m))"
| "interoperable (JOther t) = False"

lemma ijson_string_ok [simp]: "ijson_string s = Inr ()"
proof -
  have "of_char c < (256::nat)" for c :: char
    using nat_of_char_less_256 [of c] by simp
  then have "\<not> 0xD800 \<le> (of_char c :: nat)" for c :: char
    using not_le order_less_le_trans [of "of_char c" 256 "0xD800 :: nat"] by simp
  then show ?thesis by (simp add: ijson_string_def check_def)
qed

lemma validate_ijson_correct:
  "validate_ijson v = (if interoperable v then Inr () else Inl ValueError)"
  "ijson_all vs = (if \<forall>v\<in>set vs. interoperable v then Inr () else Inl ValueError)"
  "ijson_members ms = (if \<forall>m\<in>set ms. (\<exists>s. fst m = KStr s) \<and> interoperable (snd m) then Inr () else Inl ValueError)"
proof (induction v and vs and ms rule: validate_ijson_ijson_all_ijson_members.induct)
  case (12 k v ms)
  then show ?case by (cases k) auto
qed (auto simp: check_def)

lemma canonical_json_interoperable: "canonical_json rfc v = Inr b \<Longrightarrow> interoperable v"
  by (simp add: canonical_json_def and_then_eq_Inr validate_ijson_correct split: if_splits)

end
