(* ===== verification/BatchCoordinator.thy ===== *)
theory BatchCoordinator
  imports Batches Canonical
begin

text \<open>
  Model of \<open>MutationBatchCoordinator\<close> of \<open>src/src/pytitect/sync/batches.py\<close>.  The coordinator reads a clock,
  draws UUIDs (inside the stores), calls the batch store, the item store and the application's mutation, and runs
  them in transactions.  The state of an execution is a session: how many clock readings and UUIDs were taken, and
  the world that the transactions roll back.  Shown: a batch that does not commit under the all-or-nothing policy
  leaves the world as it was, a committed batch is retained with the receipts that were returned, and items whose
  receipts are retained are not mutated again.
\<close>

section \<open>Bodies\<close>

record 'w session =
  ss_ticks :: nat
  ss_draws :: nat
  ss_world :: 'w

text \<open>What leaves a body: an exception, or the private \<open>_RollbackBatch\<close> with the result it carries.\<close>

datatype 'r batch_failure = Raised exn | RollbackBatch "'r batch_result"

type_synonym ('w, 'r, 'a) batch_body = "'w session \<Rightarrow> ('r batch_failure + 'a) \<times> 'w session"

definition breturn :: "'a \<Rightarrow> ('w, 'r, 'a) batch_body" where
  "breturn x s = (Inr x, s)"

definition braise :: "'r batch_failure \<Rightarrow> ('w, 'r, 'a) batch_body" where
  "braise e s = (Inl e, s)"

definition bbind :: "('w, 'r, 'a) batch_body \<Rightarrow> ('a \<Rightarrow> ('w, 'r, 'b) batch_body) \<Rightarrow> ('w, 'r, 'b) batch_body" where
  "bbind m f s = (case m s of (Inl e, s') \<Rightarrow> (Inl e, s') | (Inr x, s') \<Rightarrow> f x s')"

definition blift :: "'a res \<Rightarrow> ('w, 'r, 'a) batch_body" where
  "blift r = (case r of Inl e \<Rightarrow> braise (Raised e) | Inr x \<Rightarrow> breturn x)"

definition on_world :: "('w, 'a) act \<Rightarrow> ('w, 'r, 'a) batch_body" where
  "on_world m s =
     (case m (ss_world s) of
        (Inl e, w) \<Rightarrow> (Inl (Raised e), s\<lparr>ss_world := w\<rparr>)
      | (Inr x, w) \<Rightarrow> (Inr x, s\<lparr>ss_world := w\<rparr>))"

section \<open>The coordinator\<close>

text \<open>
  \<open>co_clock n\<close> and \<open>co_uuid n\<close> are the \<open>n\<close>-th clock reading and the UUID available to the \<open>n\<close>-th call that can
  draw one; \<open>co_rfc8785\<close> and \<open>co_digest\<close> are the serializer and the digest of the fingerprints.
\<close>

record ('r, 'w) coordinator =
  co_batches :: "('r, 'w) batch_port"
  co_items :: "('r item_receipt, 'w) idem_port"
  co_using :: string
  co_limits :: batch_limits
  co_clock :: "nat \<Rightarrow> datetime"
  co_uuid :: "nat \<Rightarrow> string"
  co_rfc8785 :: "(json \<Rightarrow> string res) option"
  co_digest :: "string \<Rightarrow> string"

text \<open>The constructor; an alias is \<^const>\<open>None\<close> when the object has no attribute \<open>using\<close>.\<close>

definition MutationBatchCoordinator ::
    "('r, 'w) batch_port \<Rightarrow> string option \<Rightarrow> ('r item_receipt, 'w) idem_port \<Rightarrow> string option \<Rightarrow> string option \<Rightarrow> string
     \<Rightarrow> batch_limits option \<Rightarrow> (nat \<Rightarrow> datetime) \<Rightarrow> (nat \<Rightarrow> string) \<Rightarrow> (json \<Rightarrow> string res) option \<Rightarrow> (string \<Rightarrow> string)
     \<Rightarrow> ('r, 'w) coordinator res" where
  "MutationBatchCoordinator batches batch_alias items item_alias tx_alias alias limits clock uuid rfc8785 digest =
     (let differs = (\<lambda>a. case a of None \<Rightarrow> False | Some v \<Rightarrow> v \<noteq> alias) in
      if alias = [] \<or> differs batch_alias \<or> differs item_alias \<or> differs tx_alias then Inl ValueError
      else Inr \<lparr>co_batches = batches, co_items = items, co_using = alias,
                co_limits = (case limits of Some l \<Rightarrow> l | None \<Rightarrow> \<lparr>bt_max_items = 1000, bt_max_bytes = 1048576\<rparr>),
                co_clock = clock, co_uuid = uuid, co_rfc8785 = rfc8785, co_digest = digest\<rparr>)"

text \<open>The transaction boundary \<open>atomic()\<close>, once for every type of value a body returns.\<close>

record ('r, 'w) batch_transaction =
  tx_result :: "('w, 'r, 'r batch_result) batch_body \<Rightarrow> ('w, 'r, 'r batch_result) batch_body"
  tx_progress :: "('w, 'r, 'r batch_lease \<times> 'r item_receipt list) batch_body \<Rightarrow> ('w, 'r, 'r batch_lease \<times> 'r item_receipt list) batch_body"
  tx_finish :: "('w, 'r, bool) batch_body \<Rightarrow> ('w, 'r, bool) batch_body"

definition read_clock :: "('r, 'w) coordinator \<Rightarrow> ('w, 'r, datetime) batch_body" where
  "read_clock co s = (Inr (co_clock co (ss_ticks s)), s\<lparr>ss_ticks := Suc (ss_ticks s)\<rparr>)"

definition draw_uuid :: "('r, 'w) coordinator \<Rightarrow> ('w, 'r, string) batch_body" where
  "draw_uuid co s = (Inr (co_uuid co (ss_draws s)), s\<lparr>ss_draws := Suc (ss_draws s)\<rparr>)"

definition fingerprint_of :: "('r, 'w) coordinator \<Rightarrow> json \<Rightarrow> fingerprint res" where
  "fingerprint_of co v = sha256_fingerprint (co_digest co) (canonical_json (co_rfc8785 co)) v"

definition items_json :: "batch_item list \<Rightarrow> json" where
  "items_json items = JList (map (\<lambda>it. JDict [(KStr ''id'', JStr (it_item_id it)), (KStr ''payload'', it_payload it)]) items)"

definition validate_items :: "('r, 'w) coordinator \<Rightarrow> batch_item list \<Rightarrow> unit res" where
  "validate_items co items =
     (if bt_max_items (co_limits co) < int (length items) then Inl ValueError
      else if \<not> distinct (map it_item_id items) then Inl ValueError
      else and_then (canonical_json (co_rfc8785 co) (JDict [(KStr ''items'', items_json items)])) (\<lambda>payload.
        if bt_max_bytes (co_limits co) < int (length payload) then Inl ValueError else Inr ()))"

definition coordinator_begin_batch ::
    "('r, 'w) coordinator \<Rightarrow> string \<Rightarrow> string \<Rightarrow> fingerprint \<Rightarrow> int \<Rightarrow> idem_policy \<Rightarrow> ('w, 'r, 'r begin_result) batch_body" where
  "coordinator_begin_batch co ns bid fp total_items policy =
     bbind (read_clock co) (\<lambda>now. bbind (draw_uuid co) (\<lambda>uuid.
       on_world (begin_op (co_batches co) ns bid fp total_items now (execution_lease_ttl policy) uuid)))"

definition renew_batch ::
    "('r, 'w) coordinator \<Rightarrow> 'r batch_lease \<Rightarrow> string option \<Rightarrow> idem_policy \<Rightarrow> ('w, 'r, 'r batch_lease) batch_body" where
  "renew_batch co lease item_id policy =
     bbind (read_clock co) (\<lambda>now.
     bbind (on_world (renew_lease_op (co_batches co) lease now (execution_lease_ttl policy))) (\<lambda>renewal.
       case renewal of
         MutationBatchLeaseRenewed l \<Rightarrow> breturn l
       | RenewStaleBatchLease reason \<Rightarrow> braise (RollbackBatch (BatchUncertain item_id reason))))"

definition finish ::
    "('r, 'w) coordinator \<Rightarrow> 'r batch_lease \<Rightarrow> idem_policy \<Rightarrow> ('w, 'r, bool) batch_body" where
  "finish co lease policy =
     bbind (read_clock co) (\<lambda>now.
     bbind (on_world (renew_lease_op (co_batches co) lease now (execution_lease_ttl policy))) (\<lambda>renewal.
       case renewal of
         RenewStaleBatchLease reason \<Rightarrow> breturn False
       | MutationBatchLeaseRenewed l \<Rightarrow>
           bbind (read_clock co) (\<lambda>now'.
           bbind (on_world (complete_batch_op (co_batches co) l now' (result_retention_ttl policy))) (\<lambda>completed.
             breturn (case completed of MutationBatchCompleted u \<Rightarrow> True | CompleteStaleBatchLease r \<Rightarrow> False)))))"

definition reserve_item ::
    "('r, 'w) coordinator \<Rightarrow> string \<Rightarrow> batch_item \<Rightarrow> idem_policy \<Rightarrow> string \<Rightarrow> ('w, 'r, 'r item_receipt idem_decision) batch_body" where
  "reserve_item co bid it policy ns =
     bbind (blift (mk_idem_scope ns bid (''mutation-item:'' @ it_item_id it))) (\<lambda>scope.
     bbind (blift (fingerprint_of co (it_payload it))) (\<lambda>fp.
     bbind (read_clock co) (\<lambda>now. bbind (draw_uuid co) (\<lambda>uuid.
       on_world (reserve_op (co_items co) scope (it_item_id it) fp now (execution_lease_ttl policy) uuid)))))"

definition item_decision :: "'v idem_decision \<Rightarrow> string \<Rightarrow> 'r batch_result option" where
  "item_decision d i =
     (case d of
        Conflict reason \<Rightarrow> Some (BatchConflict (Some i) reason)
      | InProgress retry_after \<Rightarrow> Some (BatchInProgress (Some i) retry_after)
      | Uncertain reason \<Rightarrow> Some (BatchUncertain (Some i) reason)
      | _ \<Rightarrow> None)"

definition unprovable :: string where
  "unprovable = ''a committed item receipt is no longer provable within retention''"

text \<open>The loop of \<open>_prove_prefix\<close> over \<open>zip(..., strict=True)\<close>.\<close>

fun prove_items ::
    "('r, 'w) coordinator \<Rightarrow> idem_policy \<Rightarrow> 'r batch_lease \<Rightarrow> batch_item list \<Rightarrow> 'r item_receipt list \<Rightarrow> 'r item_receipt list
     \<Rightarrow> ('w, 'r, 'r batch_lease \<times> 'r item_receipt list) batch_body" where
  "prove_items co policy lease [] [] proven = breturn (lease, proven)"
| "prove_items co policy lease (it # its) (stored # rs) proven =
     bbind (renew_batch co lease (Some (it_item_id it)) policy) (\<lambda>l.
     bbind (reserve_item co (bl_batch_id l) it policy (bl_namespace l)) (\<lambda>decision.
       if decision = Replay (Some stored) then prove_items co policy l its rs (proven @ [stored\<lparr>ir_replayed := True\<rparr>])
       else
         bbind (case decision of
                  Execute tok \<Rightarrow> bbind (read_clock co) (\<lambda>now. bbind (on_world (abandon_op (co_items co) tok now)) (\<lambda>_. breturn ()))
                | _ \<Rightarrow> breturn ()) (\<lambda>_.
         bbind (read_clock co) (\<lambda>now.
         bbind (on_world (uncertain_batch_op (co_batches co) l unprovable now (uncertainty_retention_ttl policy))) (\<lambda>_.
           braise (RollbackBatch (BatchUncertain (Some (it_item_id it)) unprovable)))))))"
| "prove_items co policy lease _ _ proven = braise (Raised ValueError)"

definition prove_prefix ::
    "('r, 'w) coordinator \<Rightarrow> 'r batch_lease \<Rightarrow> batch_item list \<Rightarrow> idem_policy
     \<Rightarrow> ('w, 'r, 'r batch_lease \<times> 'r item_receipt list) batch_body" where
  "prove_prefix co lease items policy =
     (if \<not> bl_resumed lease then breturn (lease, bl_receipts lease)
      else prove_items co policy lease (take (nat (bl_next_index lease)) items) (bl_receipts lease) [])"

text \<open>The receipt of a reserved item: the retained one, or that of a mutation completed under the item's lease.  A
  replayed value that is \<open>None\<close> has no attribute \<open>item_id\<close>.\<close>

definition settle_item ::
    "('r, 'w) coordinator \<Rightarrow> batch_item \<Rightarrow> 'r item_receipt idem_decision \<Rightarrow> (batch_item \<Rightarrow> string \<Rightarrow> ('w, 'r) act)
     \<Rightarrow> idem_policy \<Rightarrow> ('w, 'r, 'r item_receipt) batch_body" where
  "settle_item co it decision mutate policy =
     (case decision of
        Execute tok \<Rightarrow>
          bbind (read_clock co) (\<lambda>now.
          bbind (on_world (renew_op (co_items co) tok now (execution_lease_ttl policy))) (\<lambda>renewal.
            case renewal of
              RenewStaleReservation \<Rightarrow>
                braise (RollbackBatch (BatchUncertain (Some (it_item_id it)) ''item lease renewal failed before mutation''))
            | ReservationRenewed u \<Rightarrow>
                bbind (on_world (mutate it (co_using co))) (\<lambda>result.
                let receipt = \<lparr>ir_item_id = it_item_id it, ir_result = result, ir_replayed = False\<rparr> in
                bbind (read_clock co) (\<lambda>now'.
                bbind (on_world (complete_op (co_items co) tok receipt now' (result_retention_ttl policy))) (\<lambda>completed.
                  case completed of
                    ReservationCompleted u' \<Rightarrow> breturn receipt
                  | CompleteStaleReservation \<Rightarrow>
                      braise (RollbackBatch (BatchUncertain (Some (it_item_id it)) ''item receipt CAS failed; mutation rolled back'')))))))
      | Replay (Some stored) \<Rightarrow>
          if ir_item_id stored \<noteq> it_item_id it
          then braise (RollbackBatch (BatchUncertain (Some (it_item_id it)) ''stored item receipt identity does not match''))
          else breturn (stored\<lparr>ir_replayed := True\<rparr>)
      | _ \<Rightarrow> braise (Raised (OtherError ''AttributeError'')))"

definition apply_reserved_item ::
    "('r, 'w) coordinator \<Rightarrow> 'r batch_lease \<Rightarrow> batch_item \<Rightarrow> 'r item_receipt idem_decision \<Rightarrow> (batch_item \<Rightarrow> string \<Rightarrow> ('w, 'r) act)
     \<Rightarrow> idem_policy \<Rightarrow> ('w, 'r, 'r batch_lease \<times> 'r item_receipt) batch_body" where
  "apply_reserved_item co lease it decision mutate policy =
     bbind (renew_batch co lease (Some (it_item_id it)) policy) (\<lambda>l.
     bbind (settle_item co it decision mutate policy) (\<lambda>receipt.
     bbind (read_clock co) (\<lambda>now.
     bbind (on_world (advance_op (co_batches co) l (receipt\<lparr>ir_replayed := False\<rparr>) now (execution_lease_ttl policy))) (\<lambda>progressed.
       case progressed of
         MutationBatchProgressed l' \<Rightarrow> breturn (l', receipt)
       | AdvanceStaleBatchLease r \<Rightarrow>
           braise (RollbackBatch (BatchUncertain (Some (it_item_id it)) ''batch progress CAS failed; item rolled back''))))))"

definition apply_item ::
    "('r, 'w) coordinator \<Rightarrow> 'r batch_lease \<Rightarrow> string \<Rightarrow> batch_item \<Rightarrow> (batch_item \<Rightarrow> string \<Rightarrow> ('w, 'r) act) \<Rightarrow> idem_policy \<Rightarrow> string
     \<Rightarrow> ('w, 'r, 'r batch_lease \<times> 'r item_receipt) batch_body" where
  "apply_item co lease bid it mutate policy ns =
     bbind (renew_batch co lease (Some (it_item_id it)) policy) (\<lambda>l.
     bbind (reserve_item co bid it policy ns) (\<lambda>decision.
       case item_decision decision (it_item_id it) of
         Some early \<Rightarrow> braise (RollbackBatch early)
       | None \<Rightarrow> apply_reserved_item co l it decision mutate policy))"

section \<open>All or nothing\<close>

fun reserve_all ::
    "('r, 'w) coordinator \<Rightarrow> idem_policy \<Rightarrow> string \<Rightarrow> string \<Rightarrow> 'r batch_lease \<Rightarrow> batch_item list \<Rightarrow> (batch_item \<times> 'r item_receipt idem_decision) list
     \<Rightarrow> ('w, 'r, 'r batch_lease \<times> (batch_item \<times> 'r item_receipt idem_decision) list) batch_body" where
  "reserve_all co policy ns bid lease [] reservations = breturn (lease, reservations)"
| "reserve_all co policy ns bid lease (it # its) reservations =
     bbind (renew_batch co lease (Some (it_item_id it)) policy) (\<lambda>l.
     bbind (reserve_item co bid it policy ns) (\<lambda>decision.
       case item_decision decision (it_item_id it) of
         Some early \<Rightarrow> braise (RollbackBatch early)
       | None \<Rightarrow> reserve_all co policy ns bid l its (reservations @ [(it, decision)])))"

fun apply_all ::
    "('r, 'w) coordinator \<Rightarrow> idem_policy \<Rightarrow> (batch_item \<Rightarrow> string \<Rightarrow> ('w, 'r) act) \<Rightarrow> 'r batch_lease
     \<Rightarrow> (batch_item \<times> 'r item_receipt idem_decision) list \<Rightarrow> 'r item_receipt list
     \<Rightarrow> ('w, 'r, 'r batch_lease \<times> 'r item_receipt list) batch_body" where
  "apply_all co policy mutate lease [] receipts = breturn (lease, receipts)"
| "apply_all co policy mutate lease ((it, decision) # rest) receipts =
     bbind (apply_reserved_item co lease it decision mutate policy) (\<lambda>(l, receipt).
       apply_all co policy mutate l rest (receipts @ [receipt]))"

definition commit_all ::
    "('r, 'w) coordinator \<Rightarrow> string \<Rightarrow> string \<Rightarrow> batch_item list \<Rightarrow> (batch_item \<Rightarrow> string \<Rightarrow> ('w, 'r) act) \<Rightarrow> idem_policy
     \<Rightarrow> 'r batch_lease \<Rightarrow> ('w, 'r, 'r batch_result) batch_body" where
  "commit_all co ns bid items mutate policy lease =
     bbind (prove_prefix co lease items policy) (\<lambda>(l, receipts).
     bbind (reserve_all co policy ns bid l (drop (nat (bl_next_index l)) items) []) (\<lambda>(l', reservations).
     bbind (apply_all co policy mutate l' reservations receipts) (\<lambda>(l'', receipts').
     bbind (finish co l'' policy) (\<lambda>finished.
       if finished then breturn (BatchCommitted receipts')
       else braise (RollbackBatch (BatchUncertain None ''final batch CAS failed''))))))"

definition all_or_nothing_body ::
    "('r, 'w) coordinator \<Rightarrow> string \<Rightarrow> string \<Rightarrow> fingerprint \<Rightarrow> batch_item list \<Rightarrow> (batch_item \<Rightarrow> string \<Rightarrow> ('w, 'r) act) \<Rightarrow> idem_policy
     \<Rightarrow> ('w, 'r, 'r batch_result) batch_body" where
  "all_or_nothing_body co ns bid fp items mutate policy =
     bbind (coordinator_begin_batch co ns bid fp (int (length items)) policy) (\<lambda>decision.
       case decision of
         Early early \<Rightarrow> (case early of BatchReplay rs \<Rightarrow> breturn early | _ \<Rightarrow> braise (RollbackBatch early))
       | Leased lease \<Rightarrow> commit_all co ns bid items mutate policy lease)"

text \<open>\<open>except _RollbackBatch as failure: return failure.result\<close>.\<close>

definition catch_rollback :: "('r batch_failure + 'r batch_result) \<times> 'w session \<Rightarrow> 'r batch_result res \<times> 'w session" where
  "catch_rollback p =
     (case p of
        (Inl (RollbackBatch r), s) \<Rightarrow> (Inr r, s)
      | (Inl (Raised e), s) \<Rightarrow> (Inl e, s)
      | (Inr r, s) \<Rightarrow> (Inr r, s))"

definition all_or_nothing ::
    "('r, 'w) coordinator \<Rightarrow> ('r, 'w) batch_transaction \<Rightarrow> string \<Rightarrow> string \<Rightarrow> fingerprint \<Rightarrow> batch_item list
     \<Rightarrow> (batch_item \<Rightarrow> string \<Rightarrow> ('w, 'r) act) \<Rightarrow> idem_policy \<Rightarrow> ('w session, 'r batch_result) act" where
  "all_or_nothing co tx ns bid fp items mutate policy s =
     catch_rollback (tx_result tx (all_or_nothing_body co ns bid fp items mutate policy) s)"

section \<open>Item by item\<close>

text \<open>Each item is applied, and its receipt appended, in a transaction of its own.\<close>

fun per_item_loop ::
    "('r, 'w) coordinator \<Rightarrow> ('r, 'w) batch_transaction \<Rightarrow> string \<Rightarrow> string \<Rightarrow> (batch_item \<Rightarrow> string \<Rightarrow> ('w, 'r) act) \<Rightarrow> idem_policy
     \<Rightarrow> 'r batch_lease \<Rightarrow> batch_item list \<Rightarrow> 'r item_receipt list \<Rightarrow> ('w, 'r, 'r batch_lease \<times> 'r item_receipt list) batch_body" where
  "per_item_loop co tx ns bid mutate policy lease [] receipts = breturn (lease, receipts)"
| "per_item_loop co tx ns bid mutate policy lease (it # its) receipts =
     bbind (tx_progress tx
         (bbind (apply_item co lease bid it mutate policy ns) (\<lambda>(l, receipt). breturn (l, receipts @ [receipt])))) (\<lambda>(l, receipts').
       per_item_loop co tx ns bid mutate policy l its receipts')"

definition commit_each ::
    "('r, 'w) coordinator \<Rightarrow> ('r, 'w) batch_transaction \<Rightarrow> string \<Rightarrow> string \<Rightarrow> batch_item list
     \<Rightarrow> (batch_item \<Rightarrow> string \<Rightarrow> ('w, 'r) act) \<Rightarrow> idem_policy \<Rightarrow> 'r batch_lease \<Rightarrow> ('w, 'r, 'r batch_result) batch_body" where
  "commit_each co tx ns bid items mutate policy lease =
     bbind (tx_progress tx (prove_prefix co lease items policy)) (\<lambda>(l, receipts).
     bbind (per_item_loop co tx ns bid mutate policy l (drop (nat (bl_next_index l)) items) receipts) (\<lambda>(l', receipts').
     bbind (tx_finish tx (finish co l' policy)) (\<lambda>finished.
       breturn (if finished then BatchCommitted receipts' else BatchItemsCommittedEnvelopeUnconfirmed receipts'))))"

definition per_item ::
    "('r, 'w) coordinator \<Rightarrow> ('r, 'w) batch_transaction \<Rightarrow> string \<Rightarrow> string \<Rightarrow> fingerprint \<Rightarrow> batch_item list
     \<Rightarrow> (batch_item \<Rightarrow> string \<Rightarrow> ('w, 'r) act) \<Rightarrow> idem_policy \<Rightarrow> ('w session, 'r batch_result) act" where
  "per_item co tx ns bid fp items mutate policy s =
     catch_rollback
       (bbind (coordinator_begin_batch co ns bid fp (int (length items)) policy) (\<lambda>decision.
          case decision of
            Early early \<Rightarrow> breturn early
          | Leased lease \<Rightarrow> commit_each co tx ns bid items mutate policy lease) s)"

definition policy_value :: "batch_policy \<Rightarrow> string" where
  "policy_value p = (case p of ALL_OR_NOTHING \<Rightarrow> ''all_or_nothing'' | PER_ITEM \<Rightarrow> ''per_item'')"

definition execute ::
    "('r, 'w) coordinator \<Rightarrow> ('r, 'w) batch_transaction \<Rightarrow> string \<Rightarrow> batch_item list \<Rightarrow> batch_policy
     \<Rightarrow> (batch_item \<Rightarrow> string \<Rightarrow> ('w, 'r) act) \<Rightarrow> idem_policy \<Rightarrow> string \<Rightarrow> ('w session, 'r batch_result) act" where
  "execute co tx bid items policy mutate idempotency ns s =
     (if bid = [] \<or> ns = [] then (Inl ValueError, s)
      else case and_then (validate_items co items) (\<lambda>_.
          fingerprint_of co (JDict [(KStr ''policy'', JStr (policy_value policy)), (KStr ''items'', items_json items)])) of
        Inl e \<Rightarrow> (Inl e, s)
      | Inr fp \<Rightarrow>
          (case policy of
             ALL_OR_NOTHING \<Rightarrow> all_or_nothing co tx ns bid fp items mutate idempotency s
           | PER_ITEM \<Rightarrow> per_item co tx ns bid fp items mutate idempotency s))"

section \<open>Transactions\<close>

text \<open>
  What the boundary documents: a body that raises leaves the world as it was (clock readings and UUIDs stay used);
  a body that returns is committed, unless the commit fails with an exception, which restores the world too.
\<close>

definition restores :: "(('w, 'r, 'a) batch_body \<Rightarrow> ('w, 'r, 'a) batch_body) \<Rightarrow> bool" where
  "restores atomic \<longleftrightarrow> (\<forall>m s.
     case m s of
       (Inl e, s') \<Rightarrow> atomic m s = (Inl e, s'\<lparr>ss_world := ss_world s\<rparr>)
     | (Inr x, s') \<Rightarrow> atomic m s = (Inr x, s') \<or> (\<exists>e. atomic m s = (Inl (Raised e), s'\<lparr>ss_world := ss_world s\<rparr>)))"

definition batch_transactional :: "('r, 'w) batch_transaction \<Rightarrow> bool" where
  "batch_transactional tx \<longleftrightarrow> restores (tx_result tx) \<and> restores (tx_progress tx) \<and> restores (tx_finish tx)"

lemma restores_cases:
  assumes "restores atomic"
  obtains (raised) e s' where "m s = (Inl e, s')" "atomic m s = (Inl e, s'\<lparr>ss_world := ss_world s\<rparr>)"
  | (committed) x s' where "m s = (Inr x, s')" "atomic m s = (Inr x, s')"
  | (aborted) x s' e where "m s = (Inr x, s')" "atomic m s = (Inl (Raised e), s'\<lparr>ss_world := ss_world s\<rparr>)"
proof -
  note law = assms [unfolded restores_def, rule_format, of m s]
  obtain r s' where m: "m s = (r, s')" by fastforce
  show thesis
  proof (cases r)
    case (Inl e)
    with m law raised show thesis by simp
  next
    case (Inr x)
    with m law committed aborted show thesis by auto
  qed
qed

section \<open>Reasoning about bodies\<close>

text \<open>A rollback carries a conflict, work in progress or an uncertain outcome.\<close>

fun rollback_ok :: "'r batch_failure \<Rightarrow> bool" where
  "rollback_ok (RollbackBatch (BatchCommitted rs)) = False"
| "rollback_ok (RollbackBatch (BatchReplay rs)) = False"
| "rollback_ok (RollbackBatch (BatchItemsCommittedEnvelopeUnconfirmed rs)) = False"
| "rollback_ok _ = True"

text \<open>\<open>P\<close> is kept whatever happens, every value returned satisfies \<open>Q\<close>, and failures are as above.\<close>

definition ensures :: "('w \<Rightarrow> bool) \<Rightarrow> ('w, 'r, 'a) batch_body \<Rightarrow> ('a \<Rightarrow> bool) \<Rightarrow> bool" where
  "ensures P m Q \<longleftrightarrow> (\<forall>s. P (ss_world s) \<longrightarrow>
     P (ss_world (snd (m s))) \<and> (case fst (m s) of Inl e \<Rightarrow> rollback_ok e | Inr x \<Rightarrow> Q x))"

lemma ensuresI:
  assumes "\<And>s. P (ss_world s) \<Longrightarrow> P (ss_world (snd (m s)))"
    and "\<And>s x s'. P (ss_world s) \<Longrightarrow> m s = (Inr x, s') \<Longrightarrow> Q x"
    and "\<And>s e s'. P (ss_world s) \<Longrightarrow> m s = (Inl e, s') \<Longrightarrow> rollback_ok e"
  shows "ensures P m Q"
  unfolding ensures_def using assms by (force split: sum.splits simp: prod_eq_iff)

lemma ensuresD:
  assumes "ensures P m Q" and "P (ss_world s)"
  shows "P (ss_world (snd (m s)))" "m s = (Inr x, s') \<Longrightarrow> Q x" "m s = (Inl e, s') \<Longrightarrow> rollback_ok e"
  using assms by (auto simp: ensures_def split: sum.splits)

lemma ensures_weaken: "ensures P m Q \<Longrightarrow> (\<And>x. Q x \<Longrightarrow> R x) \<Longrightarrow> ensures P m R"
  by (auto simp: ensures_def split: sum.splits)

named_theorems body_rules

lemma ensures_return [body_rules]: "Q x \<Longrightarrow> ensures P (breturn x) Q"
  by (simp add: ensures_def breturn_def)

lemma ensures_raise [body_rules]: "rollback_ok e \<Longrightarrow> ensures P (braise e) Q"
  by (simp add: ensures_def braise_def)

lemma ensures_lift [body_rules]: "(\<And>x. r = Inr x \<Longrightarrow> Q x) \<Longrightarrow> ensures P (blift r) Q"
  by (cases r) (auto simp: blift_def intro: body_rules)

lemma ensures_bind:
  fixes P :: "'w \<Rightarrow> bool"
  assumes m: "ensures P m Q" and f: "\<And>x. Q x \<Longrightarrow> ensures P (f x) R"
  shows "ensures P (bbind m f) R"
  unfolding ensures_def
proof (intro allI impI)
  fix s :: "'w session" assume s: "P (ss_world s)"
  obtain r s' where r: "m s = (r, s')" by fastforce
  note w = ensuresD(1) [OF m s]
  show "P (ss_world (snd (bbind m f s))) \<and> (case fst (bbind m f s) of Inl e \<Rightarrow> rollback_ok e | Inr x \<Rightarrow> R x)"
  proof (cases r)
    case (Inl e)
    with r w ensuresD(3) [OF m s] show ?thesis by (simp add: bbind_def)
  next
    case (Inr x)
    with r have "Q x" by (simp add: ensuresD(2) [OF m s])
    then have "ensures P (f x) R" by (rule f)
    with Inr r w show ?thesis by (simp add: bbind_def ensures_def)
  qed
qed

lemma ensures_decision:
  "ensures P m Q \<Longrightarrow> ensures P (case item_decision d i of Some early \<Rightarrow> braise (RollbackBatch early) | None \<Rightarrow> m) Q"
  by (auto simp: item_decision_def split: idem_decision.split intro: body_rules)

lemma ensures_clock [body_rules]: "ensures P (read_clock co) (\<lambda>now. \<exists>n. now = co_clock co n)"
  by (auto simp: ensures_def read_clock_def)

lemma ensures_draw [body_rules]: "ensures P (draw_uuid co) (\<lambda>u. \<exists>n. u = co_uuid co n)"
  by (auto simp: ensures_def draw_uuid_def)

lemma ensures_world:
  fixes P :: "'w \<Rightarrow> bool"
  assumes "\<And>w. P w \<Longrightarrow> P (snd (m w))" and "\<And>w x w'. P w \<Longrightarrow> m w = (Inr x, w') \<Longrightarrow> Q x"
  shows "ensures P (on_world m) Q"
proof (rule ensuresI)
  fix s :: "'w session" assume "P (ss_world s)"
  with assms(1) [of "ss_world s"] show "P (ss_world (snd (on_world m s)))"
    by (auto simp: on_world_def split: prod.splits sum.splits)
next
  fix s :: "'w session" and x s' assume "P (ss_world s)" "on_world m s = (Inr x, s')"
  with assms(2) [of "ss_world s" x] show "Q x" by (auto simp: on_world_def split: prod.splits sum.splits)
next
  fix s :: "'w session" and e :: "'r batch_failure" and s' assume "on_world m s = (Inl e, s')"
  then show "rollback_ok e" by (auto simp: on_world_def split: prod.splits sum.splits)
qed

lemma ensures_tx:
  fixes P :: "'w \<Rightarrow> bool"
  assumes "restores atomic" and "ensures P m Q"
  shows "ensures P (atomic m) Q"
proof (rule ensuresI)
  fix s :: "'w session" assume s: "P (ss_world s)"
  show "P (ss_world (snd (atomic m s)))"
    by (rule restores_cases [OF assms(1), of m s]) (use s ensuresD(1) [OF assms(2) s] in auto)
next
  fix s :: "'w session" and x s' assume s: "P (ss_world s)" and r: "atomic m s = (Inr x, s')"
  then show "Q x"
    by (cases rule: restores_cases [OF assms(1), of m s]) (use ensuresD(2) [OF assms(2) s] in auto)
next
  fix s :: "'w session" and e s' assume s: "P (ss_world s)" and r: "atomic m s = (Inl e, s')"
  then show "rollback_ok e"
    by (cases rule: restores_cases [OF assms(1), of m s]) (use ensuresD(3) [OF assms(2) s] in auto)
qed

section \<open>The coordinator over the in-memory stores\<close>

text \<open>The world of the in-memory stores and an application state, which the mutation works on.\<close>

record ('r, 'a) sync_world =
  sw_batches :: "'r batch_store"
  sw_items :: "'r item_receipt idem_store"
  sw_app :: 'a

definition within_batches :: "('r batch_store, 'x) act \<Rightarrow> (('r, 'a) sync_world, 'x) act" where
  "within_batches m w = (case m (sw_batches w) of (r, b) \<Rightarrow> (r, w\<lparr>sw_batches := b\<rparr>))"

definition within_items :: "('r item_receipt idem_store, 'x) act \<Rightarrow> (('r, 'a) sync_world, 'x) act" where
  "within_items m w = (case m (sw_items w) of (r, b) \<Rightarrow> (r, w\<lparr>sw_items := b\<rparr>))"

definition within_app :: "('a, 'x) act \<Rightarrow> (('r, 'a) sync_world, 'x) act" where
  "within_app m w = (case m (sw_app w) of (r, b) \<Rightarrow> (r, w\<lparr>sw_app := b\<rparr>))"

definition sync_batches :: "('r, ('r, 'a) sync_world) batch_port" where
  "sync_batches =
     \<lparr>begin_op = (\<lambda>ns bid fp n now ttl uuid. within_batches (batch_begin ns bid fp n now ttl uuid)),
      renew_lease_op = (\<lambda>l now ttl. within_batches (batch_renew l now ttl)),
      advance_op = (\<lambda>l r now ttl. within_batches (batch_advance l r now ttl)),
      complete_batch_op = (\<lambda>l now ttl. within_batches (batch_complete l now ttl)),
      uncertain_batch_op = (\<lambda>l reason now ttl. within_batches (batch_uncertain l reason now ttl))\<rparr>"

definition sync_items :: "('r item_receipt, ('r, 'a) sync_world) idem_port" where
  "sync_items =
     \<lparr>reserve_op = (\<lambda>sc k fp now ttl uuid. within_items (reserve sc k fp now ttl uuid)),
      renew_op = (\<lambda>tok now ttl. within_items (renew tok now ttl)),
      complete_op = (\<lambda>tok v now ttl. within_items (complete tok v now ttl)),
      mark_uncertain_op = (\<lambda>tok reason now ttl. within_items (mark_uncertain tok reason now ttl)),
      abandon_op = (\<lambda>tok now. within_items (abandon tok now))\<rparr>"

definition mem_coordinator ::
    "string \<Rightarrow> batch_limits \<Rightarrow> (nat \<Rightarrow> datetime) \<Rightarrow> (nat \<Rightarrow> string) \<Rightarrow> (json \<Rightarrow> string res) option \<Rightarrow> (string \<Rightarrow> string)
     \<Rightarrow> ('r, ('r, 'a) sync_world) coordinator" where
  "mem_coordinator alias limits clock uuid rfc8785 digest =
     \<lparr>co_batches = sync_batches, co_items = sync_items, co_using = alias, co_limits = limits, co_clock = clock, co_uuid = uuid,
      co_rfc8785 = rfc8785, co_digest = digest\<rparr>"

definition app_mutate :: "(batch_item \<Rightarrow> string \<Rightarrow> ('a, 'r) act) \<Rightarrow> batch_item \<Rightarrow> string \<Rightarrow> (('r, 'a) sync_world, 'r) act" where
  "app_mutate f it alias = within_app (f it alias)"

lemma mem_coordinator_simps [simp]:
  "co_batches (mem_coordinator al lim clock uuid rfc dig) = sync_batches"
  "co_items (mem_coordinator al lim clock uuid rfc dig) = sync_items"
  "co_clock (mem_coordinator al lim clock uuid rfc dig) = clock"
  "co_limits (mem_coordinator al lim clock uuid rfc dig) = lim"
  "fingerprint_of (mem_coordinator al lim clock uuid rfc dig) v = sha256_fingerprint dig (canonical_json rfc) v"
  by (simp_all add: mem_coordinator_def fingerprint_of_def)

text \<open>The batch is known to the store with its fingerprint and number of items.\<close>

definition batch_known :: "batch_identity \<Rightarrow> fingerprint \<Rightarrow> int \<Rightarrow> 'r batch_store \<Rightarrow> bool" where
  "batch_known idn fp n s \<longleftrightarrow> batch_inv s
     \<and> (\<exists>b. dict_get (bs_entries s) idn = Some b \<and> sb_fingerprint b = fp \<and> sb_total_items b = n)"

definition known_world ::
    "batch_identity \<Rightarrow> fingerprint \<Rightarrow> int \<Rightarrow> ('r item_receipt idem_store \<Rightarrow> bool) \<Rightarrow> ('a \<Rightarrow> bool) \<Rightarrow> ('r, 'a) sync_world \<Rightarrow> bool" where
  "known_world idn fp n I A w \<longleftrightarrow> batch_known idn fp n (sw_batches w) \<and> I (sw_items w) \<and> A (sw_app w)"

lemma lease_step_known:
  assumes "batch_known idn fp n s"
  shows "batch_known idn fp n (snd (lease_step l x s))"
proof -
  from assms have inv: "batch_inv s" by (simp add: batch_known_def)
  have "batch_inv (snd (lease_step l x s))" using batch_machine.inv_step [OF inv TrueI, of "OnLease l x"] by simp
  moreover have "\<exists>b. dict_get (bs_entries (snd (lease_step l x s))) idn = Some b \<and> sb_fingerprint b = fp \<and> sb_total_items b = n"
  proof (cases rule: lease_step_cases [of l x s])
    case unchanged
    with assms show ?thesis by (simp add: batch_known_def)
  next
    case (written t b b')
    with assms active_batchD(1) [OF written(1)] show ?thesis by (auto simp: batch_known_def dict_simps)
  qed
  ultimately show ?thesis by (simp add: batch_known_def)
qed

lemma lease_ops_known:
  assumes "batch_known idn fp n s"
  shows "batch_known idn fp n (snd (batch_renew l now ttl s))" "batch_known idn fp n (snd (batch_advance l r now ttl s))"
    "batch_known idn fp n (snd (batch_complete l now ttl s))" "batch_known idn fp n (snd (batch_uncertain l reason now ttl s))"
  using lease_step_known [OF assms, of l "RenewLease now ttl"] lease_step_known [OF assms, of l "AdvanceBatch r now ttl"]
    lease_step_known [OF assms, of l "CompleteBatch now ttl"] lease_step_known [OF assms, of l "MarkBatch reason now ttl"]
  by simp_all

lemma complete_known:
  assumes "batch_known idn fp n s" and "batch_complete l now ttl s = (Inr (MutationBatchCompleted ex), s')" and "lease_identity l = idn"
  shows "batch_completed_as idn fp n (bl_receipts l) ex s'"
proof -
  from assms(2) obtain t where t: "positive_at now ttl = Inr t" by (auto simp: batch_complete_def split: sum.splits)
  with assms(2) obtain b where b: "active_batch l t s = Some b" by (auto simp: batch_complete_def split: option.splits)
  from active_batchD [OF b] assms(1,3) have "sb_fingerprint b = fp" "sb_total_items b = n" "sb_receipts b = bl_receipts l"
    by (auto simp: batch_known_def)
  with assms(2,3) t b show ?thesis
    by (auto simp: batch_complete_def batch_completed_as_def Let_def dict_simps split: sum.splits if_splits)
qed

lemma check_batch_lease_Inr:
  assumes "check_batch_lease l = Inr l'"
  shows "l' = l" "bl_next_index l = int (length (bl_receipts l))" "bl_next_index l \<le> bl_total_items l"
  using assms by (auto simp: check_batch_lease_def split: if_splits)

lemma begin_leasedE:
  assumes inv: "batch_inv s" and leased: "batch_begin ns bid fp n now ttl uuid s = (Inr (Leased l), s')"
  obtains b where "dict_get (bs_entries s') (BatchIdentity ns bid) = Some b" "sb_fingerprint b = fp" "sb_total_items b = n"
      "issue_lease (BatchIdentity ns bid) (bl_resumed l) b = Inr l" "\<not> bl_resumed l \<longrightarrow> sb_receipts b = []"
      "dict_get (bs_entries s) (BatchIdentity ns bid) = None \<longrightarrow> \<not> bl_resumed l"
proof -
  let ?idn = "BatchIdentity ns bid"
  from leased obtain t where t: "validate_begin ns bid n now ttl = Inr t" by (auto simp: batch_begin_def split: sum.splits)
  have old: "dict_get (bs_entries s) ?idn \<noteq> None" if "dict_get (bs_entries (purge_terminal t s)) ?idn = Some cur" for cur
    using that purge_terminal_get [OF batch_invD(1) [OF inv], of t ?idn] by (auto split: option.splits)
  show thesis
  proof (cases "dict_get (bs_entries (purge_terminal t s)) ?idn")
    case None
    with leased t obtain u where u: "dt_plus t ttl = Inr u"
      by (auto simp: batch_begin_def begin_new_def Let_def split: sum.splits if_splits)
    let ?b = "\<lparr>sb_fingerprint = fp, sb_total_items = n, sb_token = uuid, sb_state = PROCESSING,
                     sb_next_index = 0, sb_receipts = [], sb_lease_expires_at = u, sb_retention_expires_at = None,
                     sb_uncertainty_reason = None\<rparr>"
    from leased t None u have i: "issue_lease ?idn False ?b = Inr l" "dict_get (bs_entries s') ?idn = Some ?b"
      by (auto simp: batch_begin_def begin_new_def Let_def dict_simps split: sum.splits if_splits)
    with issue_lease_Inr(7) [OF i(1)] that [of ?b] show thesis by simp
  next
    case (Some cur)
    with leased t have live: "sb_fingerprint cur = fp" "sb_total_items cur = n"
      by (auto simp: batch_begin_def begin_known_def Let_def split: if_splits)
    from leased t Some obtain u where u: "dt_plus t ttl = Inr u"
      by (auto simp: batch_begin_def begin_known_def Let_def split: sum.splits if_splits)
    let ?b = "cur\<lparr>sb_token := uuid, sb_lease_expires_at := u\<rparr>"
    from leased t Some u have i: "issue_lease ?idn True ?b = Inr l" "dict_get (bs_entries s') ?idn = Some ?b"
      by (auto simp: batch_begin_def begin_known_def Let_def dict_simps split: sum.splits if_splits)
    with issue_lease_Inr(7) [OF i(1)] that [of ?b] live old [OF Some] show thesis by simp
  qed
qed

lemma begin_leased:
  assumes inv: "batch_inv s" and leased: "batch_begin ns bid fp n now ttl uuid s = (Inr (Leased l), s')"
  shows "batch_known (BatchIdentity ns bid) fp n s'" "lease_identity l = BatchIdentity ns bid"
    "bl_next_index l = int (length (bl_receipts l))" "bl_next_index l \<le> n" "\<not> bl_resumed l \<longrightarrow> bl_receipts l = []"
    "dict_get (bs_entries s) (BatchIdentity ns bid) = None \<longrightarrow> \<not> bl_resumed l"
proof -
  let ?idn = "BatchIdentity ns bid"
  obtain b where b: "dict_get (bs_entries s') ?idn = Some b" "sb_fingerprint b = fp" "sb_total_items b = n"
      "issue_lease ?idn (bl_resumed l) b = Inr l" "\<not> bl_resumed l \<longrightarrow> sb_receipts b = []"
      "dict_get (bs_entries s) ?idn = None \<longrightarrow> \<not> bl_resumed l"
    by (rule begin_leasedE [OF assms])
  have inv': "batch_inv s'" using batch_begin_inv [OF inv, of ns bid fp n now ttl uuid] leased by simp
  note L = issue_lease_Inr [OF b(4)] and ok = batch_invD(2) [OF inv' b(1)]
  from inv' b(1-3) show "batch_known ?idn fp n s'" by (simp add: batch_known_def)
  from L ok b(3) show "lease_identity l = ?idn" "bl_next_index l = int (length (bl_receipts l))" "bl_next_index l \<le> n"
    by (simp_all add: batch_ok_def)
  from L b(5,6) show "\<not> bl_resumed l \<longrightarrow> bl_receipts l = []" "dict_get (bs_entries s) ?idn = None \<longrightarrow> \<not> bl_resumed l" by simp_all
qed

text \<open>A lease that ran out is issued again: the batch is neither completed nor uncertain.\<close>

lemma begin_again:
  assumes inv: "batch_inv s" and leased: "batch_begin ns bid fp n now ttl uuid s = (Inr (Leased l), s')"
    and again: "validate_begin ns bid n now' ttl' = Inr t" "bl_expires_at l \<le> t" "dt_plus t ttl' = Inr u" "uuid' \<noteq> []"
  shows "\<exists>l'. fst (batch_begin ns bid fp n now' ttl' uuid' s') = Inr (Leased l')"
proof -
  let ?idn = "BatchIdentity ns bid"
  obtain b where b: "dict_get (bs_entries s') ?idn = Some b" "sb_fingerprint b = fp" "sb_total_items b = n"
      "issue_lease ?idn (bl_resumed l) b = Inr l" "\<not> bl_resumed l \<longrightarrow> sb_receipts b = []"
      "dict_get (bs_entries s) ?idn = None \<longrightarrow> \<not> bl_resumed l"
    by (rule begin_leasedE [OF inv leased])
  have inv': "batch_inv s'" using batch_begin_inv [OF inv, of ns bid fp n now ttl uuid] leased by simp
  note L = issue_lease_Inr [OF b(4)]
  from b(4) have st: "sb_state b \<in> {PROCESSING, PARTIALLY_COMMITTED}" "ns \<noteq> []" "bid \<noteq> []"
      "0 \<le> sb_next_index b" "sb_next_index b \<le> n" "sb_next_index b = int (length (sb_receipts b))"
    using b(3) by (auto simp: issue_lease_def check_batch_lease_def split: if_splits)
  have "dict_get (bs_entries (purge_terminal t s')) ?idn = Some b"
    by (rule purge_terminal_keeps [OF inv' b(1)]) (use st(1) in \<open>auto simp: terminal_expired_def\<close>)
  with st again b(2,3) L(6) show ?thesis
    by (auto simp: batch_begin_def begin_known_def Let_def issue_lease_def check_batch_lease_def)
qed

lemma bbind_Inr:
  assumes "bbind m f s = (Inr y, s')"
  obtains x s1 where "m s = (Inr x, s1)" "f x s1 = (Inr y, s')"
  using assms by (auto simp: bbind_def split: prod.splits sum.splits)

lemma ensures_batches:
  assumes "\<And>s. batch_known idn fp n s \<Longrightarrow> batch_known idn fp n (snd (m s))" and "\<And>s x s'. m s = (Inr x, s') \<Longrightarrow> Q x"
  shows "ensures (known_world idn fp n I A) (on_world (within_batches m)) Q"
  by (rule ensures_world) (use assms in \<open>fastforce simp: known_world_def within_batches_def split: prod.splits\<close>)+

lemma ensures_items:
  assumes "\<And>s. I s \<Longrightarrow> I (snd (m s))" and "\<And>s x s'. I s \<Longrightarrow> m s = (Inr x, s') \<Longrightarrow> Q x"
  shows "ensures (known_world idn fp n I A) (on_world (within_items m)) Q"
  by (rule ensures_world) (use assms in \<open>fastforce simp: known_world_def within_items_def split: prod.splits\<close>)+

lemma ensures_app:
  assumes "\<And>a. A a \<Longrightarrow> A (snd (m a))"
  shows "ensures (known_world idn fp n I A) (on_world (within_app m)) (\<lambda>_. True)"
  by (rule ensures_world) (use assms in \<open>fastforce simp: known_world_def within_app_def split: prod.splits\<close>)+

lemma begin_stage:
  assumes "coordinator_begin_batch co ns bid fp n policy s = (r, s1)" and "co_batches co = sync_batches"
  shows "sw_items (ss_world s1) = sw_items (ss_world s)" "sw_app (ss_world s1) = sw_app (ss_world s)"
    "\<exists>now u. batch_begin ns bid fp n now (execution_lease_ttl policy) u (sw_batches (ss_world s))
       = (case r of Inl (Raised e) \<Rightarrow> Inl e | Inr d \<Rightarrow> Inr d, sw_batches (ss_world s1)) \<and> (\<forall>x. r \<noteq> Inl (RollbackBatch x))"
proof -
  let ?now = "co_clock co (ss_ticks s)" and ?u = "co_uuid co (ss_draws s)"
  obtain x b where x: "batch_begin ns bid fp n ?now (execution_lease_ttl policy) ?u (sw_batches (ss_world s)) = (x, b)" by fastforce
  have "coordinator_begin_batch co ns bid fp n policy s = (case x of Inl e \<Rightarrow> Inl (Raised e) | Inr d \<Rightarrow> Inr d,
      s\<lparr>ss_ticks := Suc (ss_ticks s), ss_draws := Suc (ss_draws s), ss_world := (ss_world s)\<lparr>sw_batches := b\<rparr>\<rparr>)"
    using x assms(2)
    by (cases x) (simp_all add: coordinator_begin_batch_def bbind_def read_clock_def draw_uuid_def on_world_def sync_batches_def
        within_batches_def)
  with assms(1) have r: "r = (case x of Inl e \<Rightarrow> Inl (Raised e) | Inr d \<Rightarrow> Inr d)"
      "ss_world s1 = (ss_world s)\<lparr>sw_batches := b\<rparr>" by auto
  then show "sw_items (ss_world s1) = sw_items (ss_world s)" "sw_app (ss_world s1) = sw_app (ss_world s)" by simp_all
  have "batch_begin ns bid fp n ?now (execution_lease_ttl policy) ?u (sw_batches (ss_world s))
       = (case r of Inl (Raised e) \<Rightarrow> Inl e | Inr d \<Rightarrow> Inr d, sw_batches (ss_world s1)) \<and> (\<forall>x. r \<noteq> Inl (RollbackBatch x))"
    using x r by (cases x) simp_all
  then show "\<exists>now u. batch_begin ns bid fp n now (execution_lease_ttl policy) u (sw_batches (ss_world s))
       = (case r of Inl (Raised e) \<Rightarrow> Inl e | Inr d \<Rightarrow> Inr d, sw_batches (ss_world s1)) \<and> (\<forall>x. r \<noteq> Inl (RollbackBatch x))"
    by blast
qed

lemma begin_stage_leased:
  assumes "coordinator_begin_batch co ns bid fp n policy s = (Inr (Leased lease), s1)" and "co_batches co = sync_batches"
    and "batch_inv (sw_batches (ss_world s))"
  shows "batch_known (BatchIdentity ns bid) fp n (sw_batches (ss_world s1))" "lease_identity lease = BatchIdentity ns bid"
    "bl_next_index lease = int (length (bl_receipts lease))" "bl_next_index lease \<le> n" "\<not> bl_resumed lease \<longrightarrow> bl_receipts lease = []"
    "dict_get (bs_entries (sw_batches (ss_world s))) (BatchIdentity ns bid) = None \<longrightarrow> \<not> bl_resumed lease"
proof -
  from begin_stage(3) [OF assms(1,2)] obtain now u where
    "batch_begin ns bid fp n now (execution_lease_ttl policy) u (sw_batches (ss_world s)) = (Inr (Leased lease), sw_batches (ss_world s1))"
    by auto
  note L = begin_leased [OF assms(3) this]
  show "batch_known (BatchIdentity ns bid) fp n (sw_batches (ss_world s1))" "lease_identity lease = BatchIdentity ns bid"
    "bl_next_index lease = int (length (bl_receipts lease))" "bl_next_index lease \<le> n" "\<not> bl_resumed lease \<longrightarrow> bl_receipts lease = []"
    "dict_get (bs_entries (sw_batches (ss_world s))) (BatchIdentity ns bid) = None \<longrightarrow> \<not> bl_resumed lease"
    by (fact L)+
qed

text \<open>The execution of an accepted batch, by its policy.\<close>

lemma executeE:
  assumes "execute co tx bid items policy mutate idem ns s = (r, s')"
  obtains (refused) e where "r = Inl e" "s' = s"
  | (all) fp where "policy = ALL_OR_NOTHING" "all_or_nothing co tx ns bid fp items mutate idem s = (r, s')"
      "fingerprint_of co (JDict [(KStr ''policy'', JStr (policy_value policy)), (KStr ''items'', items_json items)]) = Inr fp"
  | (each) fp where "policy = PER_ITEM" "per_item co tx ns bid fp items mutate idem s = (r, s')"
      "fingerprint_of co (JDict [(KStr ''policy'', JStr (policy_value policy)), (KStr ''items'', items_json items)]) = Inr fp"
proof (cases "bid = [] \<or> ns = []")
  case True
  with assms refused show thesis by (auto simp: execute_def)
next
  case args: False
  let ?f = "fingerprint_of co (JDict [(KStr ''policy'', JStr (policy_value policy)), (KStr ''items'', items_json items)])"
  show thesis
  proof (cases "and_then (validate_items co items) (\<lambda>_. ?f)")
    case (Inl e)
    with assms args refused show thesis by (auto simp: execute_def simp del: append_Cons)
  next
    case (Inr fp)
    then have fp: "?f = Inr fp" by (simp add: and_then_eq_Inr)
    show thesis
    proof (cases policy)
      case ALL_OR_NOTHING
      with assms args Inr fp show thesis by (intro all) (simp_all add: execute_def)
    next
      case PER_ITEM
      with assms args Inr fp show thesis by (intro each) (simp_all add: execute_def)
    qed
  qed
qed

lemma batch_begin_early: "batch_begin ns bid fp n now ttl uuid w \<noteq> (Inr (Early (BatchCommitted rs)), w')"
proof -
  have "fst (begin_known idn fp n t ttl uuid b z) \<noteq> Inr (Early (BatchCommitted rs))"
      "fst (begin_new idn fp n t ttl uuid z) \<noteq> Inr (Early (BatchCommitted rs))" for idn t b and z :: "'a batch_store"
    by (simp_all add: begin_known_def begin_new_def Let_def split: sum.split)
  then have "fst (batch_begin ns bid fp n now ttl uuid w) \<noteq> Inr (Early (BatchCommitted rs))"
    by (simp add: batch_begin_def Let_def split: sum.split option.split)
  then show ?thesis by auto
qed

lemma begin_never_commits:
  assumes "coordinator_begin_batch co ns bid fp n policy s = (Inr (Early early), s1)" and "co_batches co = sync_batches"
  shows "early \<noteq> BatchCommitted rs"
  using begin_stage(3) [OF assms] batch_begin_early by fastforce

text \<open>
  A session on one batch: \<open>I\<close> and \<open>A\<close> are kept of the item store and of the application, a reservation of an item
  of \<open>items\<close> decides as \<open>D\<close> allows, and settling it gives a receipt that satisfies \<open>M\<close>.  The progress of the lease follows.
\<close>

locale batch_session =
  fixes co :: "('r, ('r, 'a) sync_world) coordinator" and policy :: idem_policy and ns bid :: string
    and fp :: fingerprint and n :: int and I :: "'r item_receipt idem_store \<Rightarrow> bool" and A :: "'a \<Rightarrow> bool"
    and items :: "batch_item set" and D :: "batch_item \<Rightarrow> 'r item_receipt idem_decision \<Rightarrow> bool"
    and mutate :: "batch_item \<Rightarrow> string \<Rightarrow> (('r, 'a) sync_world, 'r) act" and M :: "batch_item \<Rightarrow> 'r item_receipt \<Rightarrow> bool"
  assumes stores: "co_batches co = sync_batches" "co_items co = sync_items"
    and reserving: "it \<in> items \<Longrightarrow> ensures (known_world (BatchIdentity ns bid) fp n I A) (reserve_item co bid it policy ns) (D it)"
    and settling: "it \<in> items \<Longrightarrow> D it d \<Longrightarrow> ensures (known_world (BatchIdentity ns bid) fp n I A) (settle_item co it d mutate policy) (M it)"
    and abandoning: "I s \<Longrightarrow> I (snd (abandon tok now s))"
begin

abbreviation kept :: "('r, 'a) sync_world \<Rightarrow> bool" where
  "kept \<equiv> known_world (BatchIdentity ns bid) fp n I A"

definition follows :: "'r batch_lease \<Rightarrow> 'r item_receipt list \<Rightarrow> 'r batch_lease \<Rightarrow> bool" where
  "follows lease new l \<longleftrightarrow> lease_identity l = lease_identity lease \<and> bl_next_index l = bl_next_index lease + int (length new)
     \<and> bl_receipts l = bl_receipts lease @ map (\<lambda>r. r\<lparr>ir_replayed := False\<rparr>) new"

lemma follows_refl [simp]: "follows l [] l"
  by (simp add: follows_def)

lemma follows_trans: "follows l xs l' \<Longrightarrow> follows l' ys l'' \<Longrightarrow> follows l (xs @ ys) l''"
  by (simp add: follows_def)

lemma renewing: "ensures kept (renew_batch co lease i policy) (follows lease [])"
  unfolding renew_batch_def stores sync_batches_def
  by (rule ensures_bind [OF ensures_clock], simp, rule ensures_bind,
      rule ensures_batches [where Q = "\<lambda>r. \<forall>l. r = MutationBatchLeaseRenewed l \<longrightarrow> follows lease [] l"])
    (auto simp: lease_ops_known follows_def renew_keeps_lease split: renew_lease_result.splits intro: body_rules)

lemma applying:
  assumes "it \<in> items" and "D it d"
  shows "ensures kept (apply_reserved_item co lease it d mutate policy) (\<lambda>(l, r). follows lease [r] l \<and> M it r)"
  unfolding apply_reserved_item_def
proof (rule ensures_bind [OF renewing], rule ensures_bind [OF settling [OF assms]], rule ensures_bind [OF ensures_clock])
  fix l r now
  assume l: "follows lease [] l" and r: "M it r" and "\<exists>n. now = co_clock co n"
  let ?Q = "\<lambda>p. \<forall>l'. p = MutationBatchProgressed l' \<longrightarrow> follows l [r] l'"
  have "ensures kept (on_world (advance_op (co_batches co) l (r\<lparr>ir_replayed := False\<rparr>) now (execution_lease_ttl policy))) ?Q"
    unfolding stores sync_batches_def
    by simp (rule ensures_batches, auto simp: lease_ops_known follows_def advance_extends_lease)
  then show "ensures kept (bbind (on_world (advance_op (co_batches co) l (r\<lparr>ir_replayed := False\<rparr>) now (execution_lease_ttl policy)))
      (\<lambda>progressed. case progressed of MutationBatchProgressed l' \<Rightarrow> breturn (l', r)
        | AdvanceStaleBatchLease m \<Rightarrow> braise (RollbackBatch (BatchUncertain (Some (it_item_id it)) ''batch progress CAS failed; item rolled back''))))
      (\<lambda>(l, r). follows lease [r] l \<and> M it r)"
    by (rule ensures_bind) (use follows_trans [OF l] r in \<open>auto split: advance_result.splits intro!: body_rules\<close>)
qed

lemma applying_one:
  assumes "it \<in> items"
  shows "ensures kept (apply_item co lease bid it mutate policy ns) (\<lambda>(l, r). follows lease [r] l \<and> M it r)"
  unfolding apply_item_def
proof (rule ensures_bind [OF renewing], rule ensures_bind [OF reserving [OF assms]], rule ensures_decision)
  fix l d assume l: "follows lease [] l" and d: "D it d"
  show "ensures kept (apply_reserved_item co l it d mutate policy) (\<lambda>(l, r). follows lease [r] l \<and> M it r)"
    by (rule ensures_weaken [OF applying [OF assms d]]) (use follows_trans [OF l] in auto)
qed

lemma reserving_all:
  assumes "set its \<subseteq> items" and "\<forall>p\<in>set res. fst p \<in> items \<and> D (fst p) (snd p)"
  shows "ensures kept (reserve_all co policy ns bid lease its res)
    (\<lambda>(l, res'). follows lease [] l \<and> map fst res' = map fst res @ its \<and> (\<forall>p\<in>set res'. fst p \<in> items \<and> D (fst p) (snd p)))"
  using assms
proof (induction its arbitrary: lease res)
  case Nil
  then show ?case by (auto intro: body_rules)
next
  case (Cons it its)
  then have it: "it \<in> items" by simp
  show ?case unfolding reserve_all.simps
  proof (rule ensures_bind [OF renewing], rule ensures_bind [OF reserving [OF it]], rule ensures_decision)
    fix l d assume l: "follows lease [] l" and d: "D it d"
    show "ensures kept (reserve_all co policy ns bid l its (res @ [(it, d)]))
      (\<lambda>(l, res'). follows lease [] l \<and> map fst res' = map fst res @ it # its \<and> (\<forall>p\<in>set res'. fst p \<in> items \<and> D (fst p) (snd p)))"
      by (rule ensures_weaken [OF Cons.IH]) (use Cons.prems d follows_trans [OF l] in auto)
  qed
qed

definition grown :: "'r batch_lease \<Rightarrow> batch_item list \<Rightarrow> 'r item_receipt list \<Rightarrow> 'r batch_lease \<times> 'r item_receipt list \<Rightarrow> bool" where
  "grown lease its rs p \<longleftrightarrow> (\<exists>new. snd p = rs @ new \<and> follows lease new (fst p) \<and> list_all2 M its new)"

lemma grown_Nil: "grown lease [] rs (lease, rs)"
  by (auto simp: grown_def)

lemma grown_Cons: "follows lease [r] l \<Longrightarrow> M it r \<Longrightarrow> grown l its (rs @ [r]) p \<Longrightarrow> grown lease (it # its) rs p"
  unfolding grown_def using follows_trans [of lease "[r]" l] by force

lemma applying_all:
  assumes "\<forall>p\<in>set res. fst p \<in> items \<and> D (fst p) (snd p)"
  shows "ensures kept (apply_all co policy mutate lease res rs) (grown lease (map fst res) rs)"
  using assms
proof (induction res arbitrary: lease rs)
  case Nil
  then show ?case by (auto intro: body_rules grown_Nil)
next
  case (Cons p res)
  obtain it d where p: "p = (it, d)" by fastforce
  with Cons.prems have it: "it \<in> items" "D it d" by simp_all
  show ?case unfolding p apply_all.simps
    by (rule ensures_bind [OF applying [OF it]], clarsimp, rule ensures_weaken [OF Cons.IH])
      (use Cons.prems in \<open>auto intro: grown_Cons\<close>)
qed

lemma looping:
  assumes "restores (tx_progress tx)" and "set its \<subseteq> items"
  shows "ensures kept (per_item_loop co tx ns bid mutate policy lease its rs) (grown lease its rs)"
  using assms(2)
proof (induction its arbitrary: lease rs)
  case Nil
  then show ?case by (auto intro: body_rules grown_Nil)
next
  case (Cons it its)
  then have it: "it \<in> items" by simp
  have "ensures kept (bbind (apply_item co lease bid it mutate policy ns) (\<lambda>(l, receipt). breturn (l, rs @ [receipt])))
      (\<lambda>(l, rs'). \<exists>r. rs' = rs @ [r] \<and> follows lease [r] l \<and> M it r)"
    by (rule ensures_bind [OF applying_one [OF it]]) (auto intro: body_rules)
  from ensures_tx [OF assms(1) this] show ?case unfolding per_item_loop.simps
    by (rule ensures_bind) (use Cons in \<open>auto intro!: ensures_weaken [OF Cons.IH] intro: grown_Cons\<close>)
qed

lemma proving:
  assumes "set its \<subseteq> items" and "lease_identity lease = BatchIdentity ns bid"
  shows "ensures kept (prove_items co policy lease its stored proven)
    (\<lambda>(l, pr). follows lease [] l \<and> pr = proven @ map (\<lambda>r. r\<lparr>ir_replayed := True\<rparr>) stored
      \<and> list_all2 (\<lambda>it r. D it (Replay (Some r))) its stored)"
  using assms
proof (induction its arbitrary: lease stored proven)
  case Nil
  then show ?case by (cases stored) (auto intro: body_rules)
next
  case (Cons it its)
  then have it: "it \<in> items" by simp
  show ?case
  proof (cases stored)
    case (Cons r rs)
    let ?Q = "\<lambda>(l, pr). follows lease [] l \<and> pr = proven @ map (\<lambda>r. r\<lparr>ir_replayed := True\<rparr>) stored
      \<and> list_all2 (\<lambda>it r. D it (Replay (Some r))) (it # its) stored"
    have "ensures kept (bbind (reserve_item co (bl_batch_id l) it policy (bl_namespace l)) (\<lambda>decision.
       if decision = Replay (Some r) then prove_items co policy l its rs (proven @ [r\<lparr>ir_replayed := True\<rparr>])
       else bbind (case decision of
              Execute tok \<Rightarrow> bbind (read_clock co) (\<lambda>now. bbind (on_world (abandon_op (co_items co) tok now)) (\<lambda>_. breturn ()))
            | _ \<Rightarrow> breturn ()) (\<lambda>_.
         bbind (read_clock co) (\<lambda>now.
         bbind (on_world (uncertain_batch_op (co_batches co) l unprovable now (uncertainty_retention_ttl policy))) (\<lambda>_.
           braise (RollbackBatch (BatchUncertain (Some (it_item_id it)) unprovable))))))) ?Q"
      if l: "follows lease [] l" for l
    proof -
      have idn: "bl_batch_id l = bid" "bl_namespace l = ns" using l Cons.prems(2) by (simp_all add: follows_def lease_identity_def)
      have rest: "ensures kept (prove_items co policy l its rs (proven @ [r\<lparr>ir_replayed := True\<rparr>])) ?Q" if d: "D it (Replay (Some r))"
        by (rule ensures_weaken [OF Cons.IH]) (use Cons.prems l d Cons follows_trans [OF l] in \<open>auto simp: follows_def\<close>)
      have "ensures kept (on_world (abandon_op (co_items co) tok now)) (\<lambda>_. True)"
          "ensures kept (on_world (uncertain_batch_op (co_batches co) l m now u)) (\<lambda>_. True)" for tok now m u
        by (simp_all add: stores sync_items_def sync_batches_def ensures_items ensures_batches abandoning lease_ops_known)
      then show ?thesis unfolding idn
        by (intro ensures_bind [OF reserving [OF it]])
          (auto intro!: rest ensures_bind [OF ensures_clock] ensures_bind [where Q = "\<lambda>_. True"] body_rules split: idem_decision.splits)
    qed
    then show ?thesis unfolding Cons prove_items.simps by (rule ensures_bind [OF renewing])
  qed (simp add: body_rules)
qed

definition proven_prefix :: "'r batch_lease \<Rightarrow> batch_item list \<Rightarrow> 'r item_receipt list \<Rightarrow> bool" where
  "proven_prefix lease its pr \<longleftrightarrow>
     (if bl_resumed lease
      then pr = map (\<lambda>r. r\<lparr>ir_replayed := True\<rparr>) (bl_receipts lease)
        \<and> list_all2 (\<lambda>it r. D it (Replay (Some r))) (take (nat (bl_next_index lease)) its) (bl_receipts lease)
      else pr = bl_receipts lease)"

lemma proving_prefix:
  assumes "set its \<subseteq> items" and "lease_identity lease = BatchIdentity ns bid"
  shows "ensures kept (prove_prefix co lease its policy) (\<lambda>(l, pr). follows lease [] l \<and> proven_prefix lease its pr)"
proof -
  have "set (take (nat (bl_next_index lease)) its) \<subseteq> items" using assms(1) by (auto dest: in_set_takeD)
  from proving [OF this assms(2), of "bl_receipts lease" "[]"] show ?thesis
    by (auto simp: prove_prefix_def proven_prefix_def intro: body_rules)
qed

lemma finishing: "ensures kept (finish co lease policy) (\<lambda>_. True)"
  unfolding finish_def stores sync_batches_def
  by (auto intro!: ensures_bind [OF ensures_clock] ensures_bind [where Q = "\<lambda>_. True"] body_rules ensures_batches
      split: renew_lease_result.splits simp: lease_ops_known)

lemma finished:
  assumes "kept (ss_world s)" and "lease_identity lease = BatchIdentity ns bid" and "finish co lease policy s = (Inr True, s')"
  shows "\<exists>ex. batch_completed_as (BatchIdentity ns bid) fp n (bl_receipts lease) ex (sw_batches (ss_world s'))"
proof -
  let ?w = "sw_batches (ss_world s)"
  from assms(3) obtain now l b1 now' ex b2 where r: "batch_renew lease now (execution_lease_ttl policy) ?w = (Inr (MutationBatchLeaseRenewed l), b1)"
      "batch_complete l now' (result_retention_ttl policy) b1 = (Inr (MutationBatchCompleted ex), b2)" "sw_batches (ss_world s') = b2"
    by (auto simp: finish_def bbind_def breturn_def read_clock_def on_world_def stores sync_batches_def within_batches_def
        split: prod.splits sum.splits renew_lease_result.splits complete_batch_result.splits)
  have "batch_known (BatchIdentity ns bid) fp n b1"
    using lease_ops_known(1) [of _ fp n ?w lease now "execution_lease_ttl policy"] assms(1) r(1) by (simp add: known_world_def)
  from complete_known [OF this r(2)] renew_keeps_lease [OF r(1)] assms(2) r(3) show ?thesis by auto
qed

text \<open>The receipts of a committed batch: the proven prefix, then one receipt per remaining item; the store retains them.\<close>

definition outcome :: "'r batch_lease \<Rightarrow> batch_item list \<Rightarrow> 'r item_receipt list \<Rightarrow> bool" where
  "outcome lease its rs \<longleftrightarrow> (\<exists>pr new. rs = pr @ new \<and> proven_prefix lease its pr
     \<and> list_all2 M (drop (nat (bl_next_index lease)) its) new)"

definition retained :: "'r item_receipt list \<Rightarrow> ('r, 'a) sync_world \<Rightarrow> bool" where
  "retained rs w \<longleftrightarrow> (\<exists>ex stored. batch_completed_as (BatchIdentity ns bid) fp n stored ex (sw_batches w)
     \<and> map (\<lambda>r. r\<lparr>ir_replayed := False\<rparr>) stored = map (\<lambda>r. r\<lparr>ir_replayed := False\<rparr>) rs)"

lemma prefix_receipts:
  assumes "proven_prefix lease its pr" and "follows lease new l"
  shows "map (\<lambda>r. r\<lparr>ir_replayed := False\<rparr>) (bl_receipts l) = map (\<lambda>r. r\<lparr>ir_replayed := False\<rparr>) (pr @ new)"
  using assms by (auto simp: proven_prefix_def follows_def split: if_splits)

lemma finished_retains:
  assumes "kept (ss_world s)" and "lease_identity lease = BatchIdentity ns bid" and "proven_prefix lease its pr" and "follows lease new l"
    and "finish co l policy s = (Inr True, s')"
  shows "retained (pr @ new) (ss_world s')"
proof -
  have "lease_identity l = BatchIdentity ns bid" using assms(2,4) by (simp add: follows_def)
  from finished [OF assms(1) this assms(5)] prefix_receipts [OF assms(3,4)] show ?thesis unfolding retained_def by blast
qed

lemma all_or_nothing_outcome:
  assumes k: "kept (ss_world s)" and its: "set its \<subseteq> items" and l: "lease_identity lease = BatchIdentity ns bid"
    and body: "commit_all co ns bid its mutate policy lease s = (Inr r, s')"
  shows "\<exists>rs. r = BatchCommitted rs \<and> outcome lease its rs \<and> retained rs (ss_world s')"
proof -
  from body obtain l1 pr s1 l2 res s2 l3 rs s3 fin s4 where
      p: "prove_prefix co lease its policy s = (Inr (l1, pr), s1)"
      and q: "reserve_all co policy ns bid l1 (drop (nat (bl_next_index l1)) its) [] s1 = (Inr (l2, res), s2)"
      and a: "apply_all co policy mutate l2 res pr s2 = (Inr (l3, rs), s3)"
      and f: "finish co l3 policy s3 = (Inr fin, s4)"
      and e: "fin" "r = BatchCommitted rs" "s' = s4"
    by (clarsimp simp: commit_all_def commit_each_def bbind_def breturn_def braise_def split: prod.splits sum.splits if_splits)
  note P = ensuresD [OF proving_prefix [OF its l] k]
  have k1: "kept (ss_world s1)" and pr: "follows lease [] l1" "proven_prefix lease its pr" using P(1) P(2) [OF p] p by simp_all
  have sub: "set (drop (nat (bl_next_index l1)) its) \<subseteq> items" using its by (auto dest: in_set_dropD)
  note Q = ensuresD [OF reserving_all [OF sub, of "[]"] k1]
  have k2: "kept (ss_world s2)" and res: "follows l1 [] l2" "map fst res = drop (nat (bl_next_index l1)) its"
      "\<forall>p\<in>set res. fst p \<in> items \<and> D (fst p) (snd p)"
    using Q(1) [of l1] Q(2) [OF _ q] q by simp_all
  note R = ensuresD [OF applying_all [OF res(3)] k2]
  have k3: "kept (ss_world s3)" and g: "grown l2 (drop (nat (bl_next_index l1)) its) pr (l3, rs)"
    using R(1) [of l2 pr] R(2) [OF a] a by (simp_all add: res(2))
  then obtain new where new: "rs = pr @ new" "follows l2 new l3" "list_all2 M (drop (nat (bl_next_index l1)) its) new"
    by (auto simp: grown_def)
  have fl: "follows lease new l3" using follows_trans [OF follows_trans [OF pr(1) res(1)] new(2)] by simp
  have "bl_next_index l1 = bl_next_index lease" using pr(1) by (simp add: follows_def)
  with new pr(2) have "outcome lease its rs" by (auto simp: outcome_def)
  moreover from f e finished_retains [OF k3 l pr(2) fl] new(1) have "retained rs (ss_world s')" by simp
  ultimately show ?thesis using e(2) by blast
qed

lemma per_item_outcome:
  assumes tx: "batch_transactional tx" and k: "kept (ss_world s)" and its: "set its \<subseteq> items" and l: "lease_identity lease = BatchIdentity ns bid"
    and body: "commit_each co tx ns bid its mutate policy lease s = (Inr r, s')"
  shows "\<exists>rs. outcome lease its rs \<and> (r = BatchCommitted rs \<and> retained rs (ss_world s') \<or> r = BatchItemsCommittedEnvelopeUnconfirmed rs)"
proof -
  have tx1: "restores (tx_progress tx)" "restores (tx_finish tx)" using tx by (simp_all add: batch_transactional_def)
  from body obtain l1 pr s1 l3 rs s3 fin s4 where
      p: "tx_progress tx (prove_prefix co lease its policy) s = (Inr (l1, pr), s1)"
      and a: "per_item_loop co tx ns bid mutate policy l1 (drop (nat (bl_next_index l1)) its) pr s1 = (Inr (l3, rs), s3)"
      and f: "tx_finish tx (finish co l3 policy) s3 = (Inr fin, s4)"
      and e: "r = (if fin then BatchCommitted rs else BatchItemsCommittedEnvelopeUnconfirmed rs)" "s' = s4"
    by (clarsimp simp: commit_all_def commit_each_def bbind_def breturn_def braise_def split: prod.splits sum.splits if_splits)
  note P = ensuresD [OF ensures_tx [OF tx1(1) proving_prefix [OF its l]] k]
  have k1: "kept (ss_world s1)" and pr: "follows lease [] l1" "proven_prefix lease its pr" using P(1) P(2) [OF p] p by simp_all
  have sub: "set (drop (nat (bl_next_index l1)) its) \<subseteq> items" using its by (auto dest: in_set_dropD)
  note R = ensuresD [OF looping [OF tx1(1) sub] k1]
  have k3: "kept (ss_world s3)" and g: "grown l1 (drop (nat (bl_next_index l1)) its) pr (l3, rs)" using R(1) [of l1 pr] R(2) [OF a] a by simp_all
  then obtain new where new: "rs = pr @ new" "follows l1 new l3" "list_all2 M (drop (nat (bl_next_index l1)) its) new"
    by (auto simp: grown_def)
  have fl: "follows lease new l3" using follows_trans [OF pr(1) new(2)] by simp
  have "bl_next_index l1 = bl_next_index lease" using pr(1) by (simp add: follows_def)
  with new pr(2) have "outcome lease its rs" by (auto simp: outcome_def)
  moreover have "finish co l3 policy s3 = (Inr fin, s4)"
    using f by (cases rule: restores_cases [OF tx1(2), of "finish co l3 policy" s3]) auto
  then have "fin \<Longrightarrow> retained rs (ss_world s4)" using finished_retains [OF k3 l pr(2) fl] new(1) by simp
  ultimately show ?thesis using e by (auto split: if_splits)
qed

lemma per_item_keeps:
  assumes "batch_transactional tx" and "set its \<subseteq> items" and "lease_identity lease = BatchIdentity ns bid"
  shows "ensures kept (commit_each co tx ns bid its mutate policy lease) (\<lambda>_. True)"
proof -
  have tx: "restores (tx_progress tx)" "restores (tx_finish tx)" using assms(1) by (simp_all add: batch_transactional_def)
  have sub: "set (drop k its) \<subseteq> items" for k using assms(2) by (auto dest: in_set_dropD)
  show ?thesis unfolding commit_each_def
    by (rule ensures_bind [OF ensures_tx [OF tx(1) proving_prefix [OF assms(2,3)]]], clarsimp,
        rule ensures_bind [OF looping [OF tx(1) sub]], clarsimp,
        rule ensures_bind [OF ensures_tx [OF tx(2) finishing]], rule ensures_return, rule TrueI)
qed

lemma all_or_nothing_keeps:
  assumes "set its \<subseteq> items" and "lease_identity lease = BatchIdentity ns bid"
  shows "ensures kept (commit_all co ns bid its mutate policy lease) (\<lambda>_. True)"
proof -
  have sub: "set (drop k its) \<subseteq> items" for k using assms(1) by (auto dest: in_set_dropD)
  show ?thesis unfolding commit_all_def
    by (rule ensures_bind [OF proving_prefix [OF assms]], clarsimp, rule ensures_bind [OF reserving_all [OF sub]], simp,
        clarsimp, rule ensures_bind [OF applying_all], simp, clarsimp, rule ensures_bind [OF finishing])
      (auto intro: body_rules)
qed

lemma outcome_length:
  assumes "outcome lease its rs" and "bl_next_index lease = int (length (bl_receipts lease))" and "bl_next_index lease \<le> int (length its)"
  shows "length rs = length its"
  using assms by (auto simp: outcome_def proven_prefix_def split: if_splits dest!: list_all2_lengthD)

definition committed :: "batch_item list \<Rightarrow> ('r, 'a) sync_world \<Rightarrow> 'r item_receipt list \<Rightarrow> ('r, 'a) sync_world \<Rightarrow> bool" where
  "committed its w rs w' \<longleftrightarrow> (\<exists>lease. outcome lease its rs \<and> retained rs w' \<and> length rs = length its
     \<and> bl_next_index lease = int (length (bl_receipts lease)) \<and> (\<not> bl_resumed lease \<longrightarrow> bl_receipts lease = [])
     \<and> (dict_get (bs_entries (sw_batches w)) (BatchIdentity ns bid) = None \<longrightarrow> \<not> bl_resumed lease))"

lemma committedE:
  assumes "committed its w rs w'"
  obtains lease where "outcome lease its rs" "retained rs w'" "length rs = length its" "bl_next_index lease = int (length (bl_receipts lease))"
    "\<not> bl_resumed lease \<longrightarrow> bl_receipts lease = []"
    "dict_get (bs_entries (sw_batches w)) (BatchIdentity ns bid) = None \<longrightarrow> \<not> bl_resumed lease"
proof -
  from assms [unfolded committed_def] show thesis
    by (rule exE) (elim conjE, rule that)
qed

lemma begin_then:
  assumes pre: "batch_inv (sw_batches (ss_world s))" "I (sw_items (ss_world s))" "A (sw_app (ss_world s))" and n: "n = int (length its)"
    and k: "\<forall>lease. lease_identity lease = BatchIdentity ns bid \<longrightarrow> ensures kept (k lease) (\<lambda>_. True)"
    and out: "\<forall>lease s rs s'. kept (ss_world s) \<longrightarrow> lease_identity lease = BatchIdentity ns bid \<longrightarrow>
      k lease s = (Inr (BatchCommitted rs), s') \<longrightarrow> outcome lease its rs \<and> retained rs (ss_world s')"
    and e: "\<forall>early s. e early s = (Inr early, s) \<or> e early s = (Inl (RollbackBatch early), s)"
    and m: "bbind (coordinator_begin_batch co ns bid fp n policy) (\<lambda>d. case d of Early early \<Rightarrow> e early | Leased lease \<Rightarrow> k lease) s = (r, s')"
  shows "I (sw_items (ss_world s')) \<and> A (sw_app (ss_world s'))" "r \<noteq> Inl (RollbackBatch (BatchCommitted rs))"
    "r = Inr (BatchCommitted rs) \<Longrightarrow> committed its (ss_world s) rs (ss_world s')"
proof -
  obtain d s1 where d: "coordinator_begin_batch co ns bid fp n policy s = (d, s1)" by fastforce
  note st = begin_stage [OF d stores(1)]
  have "(I (sw_items (ss_world s')) \<and> A (sw_app (ss_world s'))) \<and> r \<noteq> Inl (RollbackBatch (BatchCommitted rs))
      \<and> (r = Inr (BatchCommitted rs) \<longrightarrow> committed its (ss_world s) rs (ss_world s'))"
  proof (cases d)
    case (Inl f)
    with d m st pre show ?thesis by (auto simp: bbind_def)
  next
    case (Inr b)
    show ?thesis
    proof (cases b)
      case (Early early)
      with d Inr have "early \<noteq> BatchCommitted rs" using begin_never_commits [OF _ stores(1)] by blast
      with d m st pre Inr Early e [rule_format, of early s1] show ?thesis by (auto simp: bbind_def)
    next
      case (Leased lease)
      note L = begin_stage_leased [OF d [unfolded Inr Leased] stores(1) pre(1)]
      have kept: "kept (ss_world s1)" using L(1) st pre by (simp add: known_world_def)
      have k': "k lease s1 = (r, s')" using d m Inr Leased by (simp add: bbind_def)
      note K = ensuresD [OF k [rule_format, OF L(2)] kept]
      have "I (sw_items (ss_world s')) \<and> A (sw_app (ss_world s'))" using K(1) k' by (simp add: known_world_def)
      moreover have "r \<noteq> Inl (RollbackBatch (BatchCommitted rs))" using K(3) k' by force
      moreover have "committed its (ss_world s) rs (ss_world s')" if "r = Inr (BatchCommitted rs)"
      proof -
        note o = out [rule_format, OF kept L(2) k' [unfolded that]]
        have "length rs = length its" using outcome_length [of lease its rs] o L(3,4) n by simp
        with o L(3,5,6) show ?thesis unfolding committed_def by (intro exI [of _ lease] conjI) simp_all
      qed
      ultimately show ?thesis by blast
    qed
  qed
  then show "I (sw_items (ss_world s')) \<and> A (sw_app (ss_world s'))" "r \<noteq> Inl (RollbackBatch (BatchCommitted rs))"
    "r = Inr (BatchCommitted rs) \<Longrightarrow> committed its (ss_world s) rs (ss_world s')" by blast+
qed

lemma executing:
  assumes tx: "batch_transactional tx" and its: "set its \<subseteq> items" and n: "n = int (length its)"
    and pre: "batch_inv (sw_batches (ss_world s))" "I (sw_items (ss_world s))" "A (sw_app (ss_world s))"
    and fp: "fingerprint_of co (JDict [(KStr ''policy'', JStr (policy_value pol)), (KStr ''items'', items_json its)]) = Inr fp"
    and ex: "execute co tx bid its pol mutate policy ns s = (r, s')"
  shows "I (sw_items (ss_world s')) \<and> A (sw_app (ss_world s'))
    \<and> (\<forall>rs. r = Inr (BatchCommitted rs) \<longrightarrow> committed its (ss_world s) rs (ss_world s'))"
  using ex
proof (cases rule: executeE)
  case (refused e)
  with pre show ?thesis by simp
next
  case (all fp')
  with fp n have "fp' = fp" by simp
  let ?m = "all_or_nothing_body co ns bid fp its mutate policy"
  have body: "I (sw_items (ss_world s2)) \<and> A (sw_app (ss_world s2))" "x \<noteq> Inl (RollbackBatch (BatchCommitted rs))"
      "x = Inr (BatchCommitted rs) \<Longrightarrow> committed its (ss_world s) rs (ss_world s2)"
    if "?m s = (x, s2)" for x s2 rs
  proof -
    note m = that [unfolded all_or_nothing_body_def, folded n]
    have e: "\<forall>early z. (case early of BatchReplay rs \<Rightarrow> breturn early | _ \<Rightarrow> braise (RollbackBatch early)) z = (Inr early, z)
       \<or> (case early of BatchReplay rs \<Rightarrow> breturn early | _ \<Rightarrow> braise (RollbackBatch early)) z = (Inl (RollbackBatch early), z)"
      by (auto simp: breturn_def braise_def split: batch_result.splits)
    have out: "\<forall>lease z rs s''. kept (ss_world z) \<longrightarrow> lease_identity lease = BatchIdentity ns bid \<longrightarrow>
        commit_all co ns bid its mutate policy lease z = (Inr (BatchCommitted rs), s'') \<longrightarrow> outcome lease its rs \<and> retained rs (ss_world s'')"
      using all_or_nothing_outcome [OF _ its] by fastforce
    have k: "\<forall>lease. lease_identity lease = BatchIdentity ns bid \<longrightarrow>
        ensures kept (commit_all co ns bid its mutate policy lease) (\<lambda>_. True)"
      using all_or_nothing_keeps [OF its] by blast
    note B = begin_then [OF pre n k out e m]
    show "I (sw_items (ss_world s2)) \<and> A (sw_app (ss_world s2))" "x \<noteq> Inl (RollbackBatch (BatchCommitted rs))"
      "x = Inr (BatchCommitted rs) \<Longrightarrow> committed its (ss_world s) rs (ss_world s2)"
      using B by blast+
  qed
  have "restores (tx_result tx)" using tx by (simp add: batch_transactional_def)
  then show ?thesis
  proof (cases rule: restores_cases [where m = ?m and s = s])
    case (raised e s1)
    with all(2) body(2) [OF raised(1)] pre \<open>fp' = fp\<close> show ?thesis
      by (auto simp: all_or_nothing_def catch_rollback_def split: batch_failure.splits)
  next
    case (committed x s1)
    with all(2) body(1,3) [OF committed(1)] \<open>fp' = fp\<close> show ?thesis by (auto simp: all_or_nothing_def catch_rollback_def)
  next
    case (aborted x s1 e)
    with all(2) pre \<open>fp' = fp\<close> show ?thesis by (auto simp: all_or_nothing_def catch_rollback_def)
  qed
next
  case (each fp')
  with fp n have fp': "fp' = fp" by simp
  let ?m = "bbind (coordinator_begin_batch co ns bid fp n policy)
      (\<lambda>d. case d of Early early \<Rightarrow> breturn early | Leased lease \<Rightarrow> commit_each co tx ns bid its mutate policy lease)"
  obtain x s2 where m: "?m s = (x, s2)" by fastforce
  have out: "\<forall>lease z rs s''. kept (ss_world z) \<longrightarrow> lease_identity lease = BatchIdentity ns bid \<longrightarrow>
      commit_each co tx ns bid its mutate policy lease z = (Inr (BatchCommitted rs), s'') \<longrightarrow> outcome lease its rs \<and> retained rs (ss_world s'')"
    using per_item_outcome [OF tx _ its] by fastforce
  have k: "\<forall>lease. lease_identity lease = BatchIdentity ns bid \<longrightarrow>
      ensures kept (commit_each co tx ns bid its mutate policy lease) (\<lambda>_. True)"
    using per_item_keeps [OF tx its] by blast
  have e: "\<forall>early z. breturn early z = (Inr early, z) \<or> breturn early z = (Inl (RollbackBatch early), z)"
    by (simp add: breturn_def)
  note B = begin_then [OF pre n k out e m]
  have "catch_rollback (x, s2) = (r, s')" using each(2) m by (simp add: per_item_def fp' n)
  with B show ?thesis by (auto simp: catch_rollback_def split: sum.splits batch_failure.splits)
qed

end

section \<open>Two sessions\<close>

text \<open>Any session over the in-memory stores: a new receipt carries the identifier of its item.\<close>

lemma renew_completed_any: "ensures (known_world idn fp n (\<lambda>_. True) (\<lambda>_. True)) (on_world (within_items m)) (\<lambda>_. True)"
  by (rule ensures_items) simp_all

interpretation any_session: batch_session "mem_coordinator al lim clock uuid rfc dig" policy ns bid fp n "\<lambda>_. True" "\<lambda>_. True" UNIV
    "\<lambda>_ _. True" "app_mutate f" "\<lambda>it r. ir_item_id r = it_item_id it"
  for al lim clock uuid rfc dig policy ns bid fp n and f :: "batch_item \<Rightarrow> string \<Rightarrow> ('a, 'r) act"
proof (unfold_locales, goal_cases)
  case (3 it)
  show ?case unfolding reserve_item_def
    by (auto intro!: ensures_bind [OF ensures_clock] ensures_bind [OF ensures_draw] ensures_bind [where Q = "\<lambda>_. True"] body_rules
        renew_completed_any simp: sync_items_def)
next
  case (4 it d)
  show ?case unfolding settle_item_def Let_def app_mutate_def
    by (auto intro!: ensures_bind [OF ensures_clock] ensures_bind [OF renew_completed_any] ensures_bind [OF ensures_app] body_rules
        split: idem_decision.split option.split renew_reservation.split complete_reservation.split simp: sync_items_def)
qed simp_all

text \<open>A session in which the receipts of the items are retained: every reservation replays, nothing is mutated.\<close>

definition item_identity :: "string \<Rightarrow> string \<Rightarrow> batch_item \<Rightarrow> identity" where
  "item_identity ns bid it =
     Identity \<lparr>isc_namespace = ns, isc_subject = bid, isc_operation = ''mutation-item:'' @ it_item_id it\<rparr> (it_item_id it)"

definition items_retained ::
    "string \<Rightarrow> string \<Rightarrow> batch_item set \<Rightarrow> (batch_item \<Rightarrow> fingerprint) \<Rightarrow> (batch_item \<Rightarrow> 'r item_receipt) \<Rightarrow> instant
     \<Rightarrow> 'r item_receipt idem_store \<Rightarrow> bool" where
  "items_retained ns bid its fpv v ex s \<longleftrightarrow> idem_inv s \<and> (\<forall>it\<in>its. completed_as (item_identity ns bid it) (fpv it) (v it) ex s)"

definition read_before :: "(nat \<Rightarrow> datetime) \<Rightarrow> instant \<Rightarrow> bool" where
  "read_before clock ex \<longleftrightarrow> (\<forall>k t. require_aware_utc (clock k) = Inr t \<longrightarrow> t < ex)"

lemma reserve_retained:
  assumes r: "items_retained ns bid its fpv v ex s" and it: "it \<in> its" and "item_identity ns bid it = Identity sc k"
    and t: "\<And>t. require_aware_utc now = Inr t \<Longrightarrow> t < ex"
  shows "items_retained ns bid its fpv v ex (snd (reserve sc k (fpv it) now ttl u s))"
    and "reserve sc k (fpv it) now ttl u s = (Inr d, s') \<Longrightarrow> d = Replay (Some (v it))"
proof -
  from r have inv: "idem_inv s" and c: "completed_as (Identity sc k) (fpv it) (v it) ex s"
    using it assms(3) by (auto simp: items_retained_def)
  have "idem_inv (snd (reserve sc k (fpv it) now ttl u s))"
  proof -
    obtain x s' where a: "reserve sc k (fpv it) now ttl u s = (x, s')" by fastforce
    then show ?thesis
    proof (cases rule: reserve_cases)
      case rejected
      with a inv show ?thesis by simp
    next
      case (known t cur)
      from purge_expired_inv [OF inv, of t] have "idem_inv s'"
        unfolding known(3) by (simp add: idem_inv_def token_index_def dict_simps)
      with a show ?thesis by simp
    next
      case (full t)
      with completed_purge_expired [OF inv c t] show ?thesis by (auto simp: completed_as_def)
    next
      case (executed t e)
      with completed_purge_expired [OF inv c t] show ?thesis by (auto simp: completed_as_def)
    qed
  qed
  then show "items_retained ns bid its fpv v ex (snd (reserve sc k (fpv it) now ttl u s))"
    using r completed_reserve [OF inv _ t] by (auto simp: items_retained_def)
  assume d: "reserve sc k (fpv it) now ttl u s = (Inr d, s')"
  then obtain t' where t': "require_aware_utc now = Inr t'" "k \<noteq> []" "0 < ttl" by (auto simp: reserve_def split: sum.splits if_splits)
  from replay_of_completed [OF inv c t'(1) t [OF t'(1)] t'(2,3), of u] d show "d = Replay (Some (v it))" by simp
qed

lemma abandon_retained: "items_retained ns bid its fpv v ex s \<Longrightarrow> items_retained ns bid its fpv v ex (snd (abandon tok now s))"
  by (simp add: items_retained_def abandon_inv completed_abandon)

interpretation replay_session: batch_session "mem_coordinator al lim clock uuid rfc dig" policy ns bid fp n
    "items_retained ns bid held fpv v ex" "(=) a"
    "{it \<in> held. read_before clock ex \<and> sha256_fingerprint dig (canonical_json rfc) (it_payload it) = Inr (fpv it)}"
    "\<lambda>it d. d = Replay (Some (v it))" mutate "\<lambda>it r. r = (v it)\<lparr>ir_replayed := True\<rparr>"
  for al lim clock uuid rfc dig policy ns bid fp n held fpv ex mutate and v :: "batch_item \<Rightarrow> 'r item_receipt" and a :: 'a
proof (unfold_locales, goal_cases)
  case (3 it)
  have "ensures (known_world (BatchIdentity ns bid) fp n (items_retained ns bid held fpv v ex) ((=) a))
      (on_world (within_items (reserve sc (it_item_id it) (fpv it) (clock k) ttl u))) (\<lambda>d. d = Replay (Some (v it)))"
    if "mk_idem_scope ns bid (''mutation-item:'' @ it_item_id it) = Inr sc" for sc k ttl u
  proof (rule ensures_items)
    have sc: "item_identity ns bid it = Identity sc (it_item_id it)"
      using that by (auto simp: mk_idem_scope_def item_identity_def split: if_splits)
    have t: "t < ex" if "require_aware_utc (clock k) = Inr t" for t using 3 that by (simp add: read_before_def)
    fix s assume "items_retained ns bid held fpv v ex s"
    from reserve_retained [OF this _ sc t] 3
    show "items_retained ns bid held fpv v ex (snd (reserve sc (it_item_id it) (fpv it) (clock k) ttl u s))"
      "\<And>d s'. reserve sc (it_item_id it) (fpv it) (clock k) ttl u s = (Inr d, s') \<Longrightarrow> d = Replay (Some (v it))"
      by simp_all
  qed
  note step = this
  have fp: "fingerprint_of (mem_coordinator al lim clock uuid rfc dig) (it_payload it) = Inr (fpv it)" using 3 by simp
  show ?case unfolding reserve_item_def fp
  proof (rule ensures_bind [OF ensures_lift [where Q = "\<lambda>sc. mk_idem_scope ns bid (''mutation-item:'' @ it_item_id it) = Inr sc"]],
      assumption, rule ensures_bind [OF ensures_lift [where Q = "\<lambda>p. p = fpv it"]], simp,
      rule ensures_bind [OF ensures_clock], rule ensures_bind [OF ensures_draw])
    fix sc p now u
    assume "mk_idem_scope ns bid (''mutation-item:'' @ it_item_id it) = Inr sc" "p = fpv it"
      "\<exists>k. now = co_clock (mem_coordinator al lim clock uuid rfc dig) k"
    with step show "ensures (known_world (BatchIdentity ns bid) fp n (items_retained ns bid held fpv v ex) ((=) a))
        (on_world (reserve_op (co_items (mem_coordinator al lim clock uuid rfc dig)) sc (it_item_id it) p now (execution_lease_ttl policy) u))
        (\<lambda>d. d = Replay (Some (v it)))"
      by (auto simp: sync_items_def simp del: append_Cons)
  qed
next
  case (4 it d)
  then show ?case by (auto simp: settle_item_def intro: body_rules)
next
  case (5 s tok now)
  then show ?case by (rule abandon_retained)
qed simp_all

section \<open>Properties\<close>

text \<open>C34.  All or nothing: when the transaction boundary restores the world of a body that raises, an execution under
  the all-or-nothing policy that neither commits nor replays the batch (a conflict, work in progress, an uncertain
  outcome or an exception of a store, the application or the commit) leaves the whole world exactly as it was,
  whatever the stores and the mutation do.\<close>

theorem uncommitted_batch_changes_nothing:
  assumes "batch_transactional tx" and "execute co tx bid items ALL_OR_NOTHING mutate idem ns s = (r, s')"
  shows "(\<exists>rs. r = Inr (BatchCommitted rs) \<or> r = Inr (BatchReplay rs)) \<or> ss_world s' = ss_world s"
  using assms(2)
proof (cases rule: executeE)
  case (all fp)
  let ?m = "all_or_nothing_body co ns bid fp items mutate idem"
  have tx: "restores (tx_result tx)" using assms(1) by (simp add: batch_transactional_def)
  have ok: "\<exists>rs. x = BatchCommitted rs \<or> x = BatchReplay rs" if "?m s = (Inr x, s1)" for x s1
    using that
    by (auto simp: all_or_nothing_body_def commit_all_def bbind_def breturn_def braise_def
        split: prod.splits sum.splits begin_result.splits batch_result.splits if_splits)
  from tx show ?thesis
  proof (cases rule: restores_cases [where m = ?m and s = s])
    case (raised e s1)
    with all(2) show ?thesis by (auto simp: all_or_nothing_def catch_rollback_def split: batch_failure.splits)
  next
    case (committed x s1)
    with all(2) ok [OF committed(1)] show ?thesis by (auto simp: all_or_nothing_def catch_rollback_def)
  next
    case (aborted x s1 e)
    with all(2) show ?thesis by (auto simp: all_or_nothing_def catch_rollback_def)
  qed
qed simp_all

lemma committed_fingerprint:
  assumes "execute co tx bid items policy mutate idem ns s = (Inr (BatchCommitted rs), s')"
  obtains fp where "fingerprint_of co (JDict [(KStr ''policy'', JStr (policy_value policy)), (KStr ''items'', items_json items)]) = Inr fp"
  using assms by (cases rule: executeE) auto

text \<open>A committed batch is retained: when the coordinator over the in-memory stores reports a batch as committed
  (under either policy and for every mutation of the application), there is one receipt per item, the store holds the batch as completed under the fingerprint
  of its items with exactly those receipts (so that a later request is answered with them), and the receipts of a
  batch that was new carry the identifiers of the items in order.\<close>

theorem committed_batch_is_retained:
  assumes "batch_transactional tx" and "batch_inv (sw_batches (ss_world s))"
    and ex: "execute (mem_coordinator al lim clock uuid rfc dig) tx bid items policy (app_mutate f) idem ns s = (Inr (BatchCommitted rs), s')"
  shows "length rs = length items
    \<and> (\<exists>fp ex stored. sha256_fingerprint dig (canonical_json rfc)
           (JDict [(KStr ''policy'', JStr (policy_value policy)), (KStr ''items'', items_json items)]) = Inr fp
         \<and> batch_completed_as (BatchIdentity ns bid) fp (int (length items)) stored ex (sw_batches (ss_world s'))
         \<and> map (\<lambda>r. r\<lparr>ir_replayed := False\<rparr>) stored = map (\<lambda>r. r\<lparr>ir_replayed := False\<rparr>) rs)
    \<and> (dict_get (bs_entries (sw_batches (ss_world s))) (BatchIdentity ns bid) = None \<longrightarrow> map ir_item_id rs = map it_item_id items)"
proof -
  from ex obtain fp where fp: "sha256_fingerprint dig (canonical_json rfc)
      (JDict [(KStr ''policy'', JStr (policy_value policy)), (KStr ''items'', items_json items)]) = Inr fp"
    by (rule committed_fingerprint) simp
  have "any_session.committed ns bid fp (int (length items)) items (ss_world s) rs (ss_world s')"
    using any_session.executing [OF assms(1) subset_UNIV refl assms(2) TrueI TrueI _ ex, of fp] fp by simp
  then obtain lease where c: "any_session.outcome lease items rs" "any_session.retained ns bid fp (int (length items)) rs (ss_world s')"
      "length rs = length items" "bl_next_index lease = int (length (bl_receipts lease))" "\<not> bl_resumed lease \<longrightarrow> bl_receipts lease = []"
      "dict_get (bs_entries (sw_batches (ss_world s))) (BatchIdentity ns bid) = None \<longrightarrow> \<not> bl_resumed lease"
    by (rule any_session.committedE)
  have "map ir_item_id rs = map it_item_id items" if "\<not> bl_resumed lease"
    using that c(1,4,5) by (auto simp: any_session.outcome_def any_session.proven_prefix_def list_all2_conv_all_nth intro!: nth_equalityI)
  with c(2,3,6) fp show ?thesis by (auto simp: any_session.retained_def)
qed

text \<open>C35.  Retained items are not mutated again: when the receipts of all items of a batch are still retained by the item
  store for every reading of the clock, executing the batch (under either policy, whether the batch envelope is new,
  expired or resumed, and whatever the outcome) leaves the application's state untouched, and a
  batch that commits returns exactly the retained receipts, marked as replayed, in the order of the items.\<close>

theorem retained_items_are_not_mutated_again:
  assumes "batch_transactional tx" and "batch_inv (sw_batches (ss_world s))"
    and "items_retained ns bid (set items) fpv v ex (sw_items (ss_world s))" and "read_before clock ex"
    and "\<forall>it\<in>set items. sha256_fingerprint dig (canonical_json rfc) (it_payload it) = Inr (fpv it)"
    and exec: "execute (mem_coordinator al lim clock uuid rfc dig) tx bid items policy mutate idem ns s = (r, s')"
  shows "sw_app (ss_world s') = sw_app (ss_world s)
    \<and> (\<forall>rs. r = Inr (BatchCommitted rs) \<longrightarrow> rs = map (\<lambda>it. (v it)\<lparr>ir_replayed := True\<rparr>) items)"
proof -
  let ?doc = "JDict [(KStr ''policy'', JStr (policy_value policy)), (KStr ''items'', items_json items)]"
  show ?thesis
  proof (cases "sha256_fingerprint dig (canonical_json rfc) ?doc")
    case (Inl e)
    from exec show ?thesis by (cases rule: executeE) (use Inl in auto)
  next
    case (Inr fp)
    have sub: "set items \<subseteq> {it \<in> set items. read_before clock ex \<and> sha256_fingerprint dig (canonical_json rfc) (it_payload it) = Inr (fpv it)}"
      using assms(4,5) by blast
    note E = replay_session.executing [where held = "set items" and v = v and fpv = fpv, OF assms(1) sub refl assms(2,3) refl _ exec, of fp]
    have "rs = map (\<lambda>it. (v it)\<lparr>ir_replayed := True\<rparr>) items" if "r = Inr (BatchCommitted rs)" for rs
    proof -
      from E Inr that have "replay_session.committed ns bid fp (int (length items)) v items (ss_world s) rs (ss_world s')" by simp
      then obtain lease where c: "replay_session.outcome v lease items rs"
          "bl_next_index lease = int (length (bl_receipts lease))" "\<not> bl_resumed lease \<longrightarrow> bl_receipts lease = []"
        unfolding replay_session.committed_def by blast
      obtain pr new where p: "rs = pr @ new" "replay_session.proven_prefix v lease items pr"
          "list_all2 (\<lambda>it r. r = (v it)\<lparr>ir_replayed := True\<rparr>) (drop (nat (bl_next_index lease)) items) new"
        using c(1) unfolding replay_session.outcome_def by blast
      let ?k = "nat (bl_next_index lease)"
      have "new = map (\<lambda>it. (v it)\<lparr>ir_replayed := True\<rparr>) (drop ?k items)"
        using p(3) by (auto simp: list_all2_conv_all_nth intro: nth_equalityI)
      moreover have "pr = map (\<lambda>it. (v it)\<lparr>ir_replayed := True\<rparr>) (take ?k items)"
        using p(2) c(2,3)
        by (cases "bl_resumed lease") (auto simp: replay_session.proven_prefix_def list_all2_conv_all_nth intro: nth_equalityI)
      ultimately show ?thesis using p(1) by (simp flip: map_append)
    qed
    with E Inr show ?thesis by simp
  qed
qed


section \<open>Examples\<close>

definition rollback_body :: "('w, 'r, 'a) batch_body \<Rightarrow> ('w, 'r, 'a) batch_body" where
  "rollback_body m s = (case m s of (Inl e, s') \<Rightarrow> (Inl e, s'\<lparr>ss_world := ss_world s\<rparr>) | (Inr x, s') \<Rightarrow> (Inr x, s'))"

definition rollback_tx :: "('r, 'w) batch_transaction" where
  "rollback_tx = \<lparr>tx_result = rollback_body, tx_progress = rollback_body, tx_finish = rollback_body\<rparr>"

lemma rollback_tx_transactional: "batch_transactional rollback_tx"
  by (auto simp: batch_transactional_def rollback_tx_def restores_def rollback_body_def split: prod.splits sum.splits)

definition sample_coordinator :: "(int, (int, nat) sync_world) coordinator" where
  "sample_coordinator = mem_coordinator ''db'' \<lparr>bt_max_items = 10, bt_max_bytes = 100\<rparr> (\<lambda>n. utc_datetime 5)
     (\<lambda>n. replicate (Suc n) CHR ''u'') (Some (\<lambda>_. Inr ''x'')) (\<lambda>b. b)"

definition sample_idem :: idem_policy where
  "sample_idem = \<lparr>execution_lease_ttl = 50, result_retention_ttl = 1000, uncertainty_retention_ttl = 1000\<rparr>"

definition sample_items :: "batch_item list" where
  "sample_items = [\<lparr>it_item_id = ''i'', it_payload = JInt 1\<rparr>]"

definition sample_session :: "(int, nat) sync_world session" where
  "sample_session = \<lparr>ss_ticks = 0, ss_draws = 0, ss_world =
     \<lparr>sw_batches = \<lparr>bs_capacity = 5, bs_entries = [], bs_tokens = []\<rparr>,
      sw_items = \<lparr>is_capacity = 5, is_entries = [], is_tokens = []\<rparr>, sw_app = 0\<rparr>\<rparr>"

definition count_mutation :: "batch_item \<Rightarrow> string \<Rightarrow> (nat, int) act" where
  "count_mutation it alias a = (Inr 7, Suc a)"

lemmas body_eval = bbind_def breturn_def braise_def blift_def on_world_def read_clock_def draw_uuid_def rollback_body_def catch_rollback_def

lemmas coordinator_eval = execute_def validate_items_def items_json_def canonical_json_def sha256_fingerprint_def ijson_string_def
  max_safe_integer_def all_or_nothing_def per_item_def all_or_nothing_body_def commit_all_def commit_each_def coordinator_begin_batch_def
  prove_prefix_def renew_batch_def reserve_item_def item_decision_def apply_item_def apply_reserved_item_def settle_item_def finish_def
  mk_idem_scope_def sync_batches_def sync_items_def within_batches_def within_items_def within_app_def app_mutate_def policy_value_def
  fingerprint_of_def

lemma unprovable_nonempty [simp]: "unprovable \<noteq> []"
  by (simp add: unprovable_def)

lemmas sample_eval = coordinator_eval body_eval rollback_tx_def sample_coordinator_def mem_coordinator_def sample_items_def sample_session_def
  sample_idem_def count_mutation_def batch_eval idem_eval dt_max_def and_then_def check_def utc_datetime_def require_aware_utc_def

lemma sample_executes:
  "\<exists>s'. execute sample_coordinator rollback_tx ''b'' sample_items ALL_OR_NOTHING (app_mutate count_mutation) sample_idem ''sync'' sample_session
     = (Inr (BatchCommitted [\<lparr>ir_item_id = ''i'', ir_result = 7, ir_replayed = False\<rparr>]), s')"
  by (simp add: sample_eval)

definition failing_mutation :: "batch_item \<Rightarrow> string \<Rightarrow> (nat, int) act" where
  "failing_mutation it alias a = (Inl ValueError, Suc a)"

theorem uncommitted_batch_changes_nothing_witness:
  "ss_world (snd (execute sample_coordinator rollback_tx ''b'' sample_items ALL_OR_NOTHING (app_mutate failing_mutation) sample_idem ''sync''
     sample_session)) = ss_world sample_session"
proof -
  let ?e = "execute sample_coordinator rollback_tx ''b'' sample_items ALL_OR_NOTHING (app_mutate failing_mutation) sample_idem ''sync'' sample_session"
  have "fst ?e = Inl ValueError" by (simp add: sample_eval failing_mutation_def)
  with uncommitted_batch_changes_nothing [OF rollback_tx_transactional surjective_pairing, of sample_coordinator "''b''" sample_items
      "app_mutate failing_mutation" sample_idem "''sync''" sample_session]
  show ?thesis by simp
qed

lemma sample_session_inv: "batch_inv (sw_batches (ss_world sample_session))"
  by (simp add: sample_session_def batch_inv_def)

theorem committed_batch_is_retained_witness:
  "\<exists>s' ex stored. execute sample_coordinator rollback_tx ''b'' sample_items ALL_OR_NOTHING (app_mutate count_mutation) sample_idem ''sync'' sample_session
       = (Inr (BatchCommitted [\<lparr>ir_item_id = ''i'', ir_result = 7, ir_replayed = False\<rparr>]), s')
     \<and> batch_completed_as (BatchIdentity ''sync'' ''b'') ''x'' 1 stored ex (sw_batches (ss_world s'))"
proof -
  from sample_executes obtain s' where e: "execute sample_coordinator rollback_tx ''b'' sample_items ALL_OR_NOTHING (app_mutate count_mutation)
      sample_idem ''sync'' sample_session = (Inr (BatchCommitted [\<lparr>ir_item_id = ''i'', ir_result = 7, ir_replayed = False\<rparr>]), s')"
    by blast
  from committed_batch_is_retained [OF rollback_tx_transactional sample_session_inv e [unfolded sample_coordinator_def]] e
  show ?thesis
    by (auto simp: sample_items_def sha256_fingerprint_def canonical_json_def items_json_def policy_value_def max_safe_integer_def check_def)
qed

text \<open>The receipt of the item is retained while the batch is new to its store.\<close>

definition retained_receipt :: "int item_receipt" where
  "retained_receipt = \<lparr>ir_item_id = ''i'', ir_result = 7, ir_replayed = False\<rparr>"

definition retained_session :: "(int, nat) sync_world session" where
  "retained_session = sample_session\<lparr>ss_world := (ss_world sample_session)\<lparr>sw_items := \<lparr>is_capacity = 5,
     is_entries = [(item_identity ''sync'' ''b'' (hd sample_items), \<lparr>en_token = ''t'', en_fingerprint = ''x'', en_expires_at = 2000, en_state = Completed,
        en_value = Some retained_receipt, en_reason = None\<rparr>)],
     is_tokens = [(''t'', item_identity ''sync'' ''b'' (hd sample_items))]\<rparr>\<rparr>\<rparr>"

lemma retained_session_items:
  "items_retained ''sync'' ''b'' (set sample_items) (\<lambda>_. ''x'') (\<lambda>_. retained_receipt) 2000 (sw_items (ss_world retained_session))"
  by (auto simp: items_retained_def retained_session_def sample_items_def completed_as_def idem_inv_def idem_entry_ok_def token_index_def
      split: if_splits)

theorem retained_items_are_not_mutated_again_witness:
  "sw_app (ss_world (snd (execute sample_coordinator rollback_tx ''b'' sample_items PER_ITEM (app_mutate count_mutation) sample_idem ''sync'' retained_session))) = 0
   \<and> fst (execute sample_coordinator rollback_tx ''b'' sample_items PER_ITEM (app_mutate count_mutation) sample_idem ''sync'' retained_session)
       = Inr (BatchCommitted [retained_receipt\<lparr>ir_replayed := True\<rparr>])"
proof -
  let ?e = "execute sample_coordinator rollback_tx ''b'' sample_items PER_ITEM (app_mutate count_mutation) sample_idem ''sync'' retained_session"
  have inv: "batch_inv (sw_batches (ss_world retained_session))" by (simp add: retained_session_def sample_session_inv)
  have clock: "read_before (\<lambda>n. utc_datetime 5) 2000" by (simp add: read_before_def)
  have fp: "\<forall>it\<in>set sample_items. sha256_fingerprint (\<lambda>b. b) (canonical_json (Some (\<lambda>_. Inr ''x''))) (it_payload it) = Inr ''x''"
    by (simp add: sample_items_def sha256_fingerprint_def canonical_json_def max_safe_integer_def check_def)
  have "\<exists>rs. fst ?e = Inr (BatchCommitted rs)"
    by (simp add: sample_eval retained_session_def item_identity_def retained_receipt_def)
  moreover note retained_items_are_not_mutated_again [OF rollback_tx_transactional inv retained_session_items clock fp,
      of "''db''" "\<lparr>bt_max_items = 10, bt_max_bytes = 100\<rparr>" "\<lambda>n. replicate (Suc n) CHR ''u''" PER_ITEM "app_mutate count_mutation" sample_idem
        "fst ?e" "snd ?e", folded sample_coordinator_def]
  ultimately show ?thesis by (auto simp: retained_session_def sample_session_def sample_items_def)
qed

text \<open>A batch whose lease ran out after its item was committed, and whose receipt is gone.\<close>

definition lost_session :: "(int, nat) sync_world session" where
  "lost_session = sample_session\<lparr>ss_world := (ss_world sample_session)\<lparr>sw_batches := \<lparr>bs_capacity = 5,
     bs_entries = [(BatchIdentity ''sync'' ''b'', \<lparr>sb_fingerprint = ''x'', sb_total_items = 1, sb_token = ''t'', sb_state = PARTIALLY_COMMITTED,
        sb_next_index = 1, sb_receipts = [retained_receipt], sb_lease_expires_at = 2, sb_retention_expires_at = None,
        sb_uncertainty_reason = None\<rparr>)],
     bs_tokens = [(''t'', BatchIdentity ''sync'' ''b'')]\<rparr>\<rparr>\<rparr>"

definition lost_lease :: "int batch_lease" where
  "lost_lease = \<lparr>bl_namespace = ''sync'', bl_batch_id = ''b'', bl_token = ''u'', bl_state = PARTIALLY_COMMITTED, bl_next_index = 1,
     bl_total_items = 1, bl_receipts = [retained_receipt], bl_expires_at = 55, bl_resumed = True\<rparr>"


end
