(* ===== verification/Generations.thy ===== *)
theory Generations
  imports Checkpoints
begin

text \<open>
  Model of \<open>src/src/pytitect/sync/generations.py\<close>: the generation store with its atomic compare-and-set, the
  guard that runs a mutation only while a dataset partition is at the expected generation, and the
  conformance harness.  As in \<open>Checkpoints\<close>, the transaction boundary is a parameter.  Shown: generation changes form a chain, and
  the guard runs its mutation in the same transaction in which it has seen the expected generation.
\<close>

section \<open>The in-memory store\<close>

type_synonym partition_id = "string \<times> string"

definition validate_partition :: "string \<Rightarrow> string \<Rightarrow> unit res" where
  "validate_partition dataset part = check (dataset \<noteq> [] \<and> part \<noteq> []) ValueError"

record 's generation_port =
  gen_load_op :: "string \<Rightarrow> string \<Rightarrow> ('s, int option) act"
  gen_cas_op :: "string \<Rightarrow> string \<Rightarrow> int option \<Rightarrow> int \<Rightarrow> ('s, bool) act"

text \<open>As with checkpoints, the operations work on every extension of the store's record.\<close>

record generation_store =
  gns_capacity :: int
  gns_generations :: "(partition_id, int) dict"

record 'a generation_world = generation_store +
  gw_app :: 'a

definition InMemoryGenerationStore :: "int \<Rightarrow> generation_store res" where
  "InMemoryGenerationStore capacity =
     (if capacity \<le> 0 then Inl ValueError else Inr \<lparr>gns_capacity = capacity, gns_generations = []\<rparr>)"

definition generation_load :: "string \<Rightarrow> string \<Rightarrow> ('z generation_store_scheme, int option) act" where
  "generation_load dataset part s =
     (case validate_partition dataset part of
        Inl e \<Rightarrow> (Inl e, s)
      | Inr _ \<Rightarrow> (Inr (dict_get (gns_generations s) (dataset, part)), s))"

definition generation_cas ::
    "string \<Rightarrow> string \<Rightarrow> int option \<Rightarrow> int \<Rightarrow> ('z generation_store_scheme, bool) act" where
  "generation_cas dataset part expected generation s =
     (case validate_partition dataset part of
        Inl e \<Rightarrow> (Inl e, s)
      | Inr _ \<Rightarrow>
          if generation < 0 then (Inl ValueError, s)
          else if (case expected of None \<Rightarrow> False | Some n \<Rightarrow> n < 0) then (Inl ValueError, s)
          else if dict_get (gns_generations s) (dataset, part) \<noteq> expected then (Inr False, s)
          else if dict_get (gns_generations s) (dataset, part) = None
               \<and> gns_capacity s \<le> int (length (gns_generations s)) then (Inl OverflowError, s)
          else (Inr True, s\<lparr>gns_generations := dict_set (dataset, part) generation (gns_generations s)\<rparr>))"

definition mem_generation_port :: "('z generation_store_scheme) generation_port" where
  "mem_generation_port = \<lparr>gen_load_op = generation_load, gen_cas_op = generation_cas\<rparr>"

section \<open>The guard\<close>

datatype 'a generation_result =
    GenerationCommitted 'a int
  | StaleGeneration int "int option"

text \<open>The constructor refuses a store and a transaction that name different database aliases.\<close>

definition GenerationGuard :: "string option \<Rightarrow> string option \<Rightarrow> unit res" where
  "GenerationGuard store_alias transaction_alias =
     check (\<not> (store_alias \<noteq> None \<and> transaction_alias \<noteq> None \<and> store_alias \<noteq> transaction_alias)) ValueError"

definition guard_body ::
    "'s generation_port \<Rightarrow> string \<Rightarrow> string \<Rightarrow> int \<Rightarrow> ('s, 'a) act \<Rightarrow> ('s, 'a generation_result) act" where
  "guard_body port dataset part expected mutation =
     sbind (gen_load_op port dataset part) (\<lambda>actual.
       case actual of
         None \<Rightarrow> sreturn (StaleGeneration expected None)
       | Some n \<Rightarrow>
           if n \<noteq> expected then sreturn (StaleGeneration expected (Some n))
           else sbind mutation (\<lambda>v. sreturn (GenerationCommitted v n)))"

definition guard_commit ::
    "'s generation_port \<Rightarrow> ((exn, 's, 'a generation_result) body \<Rightarrow> (exn, 's, 'a generation_result) body)
     \<Rightarrow> string \<Rightarrow> string \<Rightarrow> int \<Rightarrow> ('s, 'a) act \<Rightarrow> ('s, 'a generation_result) act" where
  "guard_commit port atomic dataset part expected mutation s =
     (if dataset = [] \<or> part = [] \<or> expected < 0 then (Inl ValueError, s)
      else atomic (guard_body port dataset part expected mutation) s)"

section \<open>The conformance harness\<close>

definition generation_exercise :: "'s generation_port \<Rightarrow> ('s, unit) act" where
  "generation_exercise port =
     (let load = gen_load_op port ''dataset'' ''partition'';
          cas = gen_cas_op port ''dataset'' ''partition'' in
      sbind load (\<lambda>absent.
      sbind (sassert (absent = None)) (\<lambda>_.
      sbind (cas None 1) (\<lambda>created.
      sbind (sassert created) (\<lambda>_.
      sbind (cas None 2) (\<lambda>stale.
      sbind (sassert (\<not> stale)) (\<lambda>_.
      sbind load (\<lambda>first.
      sbind (sassert (first = Some 1)) (\<lambda>_.
      sbind (cas (Some 1) 2) (\<lambda>moved.
      sbind (sassert moved) (\<lambda>_.
      sbind load (\<lambda>second.
      sassert (second = Some 2)))))))))))))"

section \<open>The guard over any store that loads truthfully\<close>

locale generation_contract =
  fixes port :: "'s generation_port"
    and generation_of :: "'s \<Rightarrow> partition_id \<Rightarrow> int option"
  assumes load_current: "dataset \<noteq> [] \<Longrightarrow> part \<noteq> [] \<Longrightarrow>
      gen_load_op port dataset part s = (Inr (generation_of s (dataset, part)), s)"
begin

lemma guard_body_cases:
  assumes "dataset \<noteq> []" "part \<noteq> []"
  shows "guard_body port dataset part expected mutation s =
    (if generation_of s (dataset, part) = Some expected
     then (case mutation s of (Inl e, s') \<Rightarrow> (Inl e, s') | (Inr v, s') \<Rightarrow> (Inr (GenerationCommitted v expected), s'))
     else (Inr (StaleGeneration expected (generation_of s (dataset, part))), s))"
  using load_current [OF assms, of s]
  by (auto simp: guard_body_def sbind_def split: option.splits prod.splits sum.splits)

lemma guard_runs_at_expected_generation:
  assumes tx: "transactional errors atomic" and ret: "guard_commit port atomic dataset part expected mutation s = (r, s')"
  shows "case r of
      Inr (GenerationCommitted v n) \<Rightarrow>
        n = expected \<and> generation_of s (dataset, part) = Some expected \<and> mutation s = (Inr v, s')
    | Inr (StaleGeneration n actual) \<Rightarrow>
        s' = s \<and> n = expected \<and> actual = generation_of s (dataset, part) \<and> actual \<noteq> Some expected
    | Inl e \<Rightarrow> s' = s"
proof (cases "dataset = [] \<or> part = [] \<or> expected < 0")
  case True
  with ret show ?thesis by (auto simp: guard_commit_def)
next
  case False
  then have ne: "dataset \<noteq> []" "part \<noteq> []"
    and eq: "atomic (guard_body port dataset part expected mutation) s = (r, s')"
    using ret by (auto simp: guard_commit_def)
  note body = guard_body_cases [OF ne, of expected mutation s]
  from tx show ?thesis
    by (cases rule: transactional_cases [where m = "guard_body port dataset part expected mutation" and s = s])
      (use eq body in \<open>auto split: if_splits prod.splits sum.splits\<close>)
qed

end

interpretation mem_generations: generation_contract mem_generation_port "\<lambda>s. dict_get (gns_generations s)"
  by unfold_locales (simp add: mem_generation_port_def generation_load_def validate_partition_def check_def)

section \<open>Calls on the store\<close>

datatype generation_call =
    LoadGeneration string string
  | CompareAndSet string string "int option" int

datatype generation_reply = GenerationReply "int option res" | CompareReply "bool res"

fun generation_step ::
    "generation_call \<Rightarrow> 'z generation_store_scheme \<Rightarrow> generation_reply \<times> 'z generation_store_scheme" where
  "generation_step (LoadGeneration d p) s = apfst GenerationReply (generation_load d p s)"
| "generation_step (CompareAndSet d p expected n) s = apfst CompareReply (generation_cas d p expected n s)"

fun set_by :: "partition_id \<Rightarrow> generation_call \<Rightarrow> generation_reply \<Rightarrow> (int option \<times> int) option" where
  "set_by k (CompareAndSet d p expected n) (CompareReply (Inr True)) =
     (if (d, p) = k then Some (expected, n) else None)"
| "set_by k _ _ = None"

definition generation_inv :: "'z generation_store_scheme \<Rightarrow> bool" where
  "generation_inv s \<longleftrightarrow> 0 < gns_capacity s \<and> dict_ok (gns_generations s)
     \<and> int (length (gns_generations s)) \<le> gns_capacity s
     \<and> (\<forall>k n. dict_get (gns_generations s) k = Some n \<longrightarrow> 0 \<le> n)"

interpretation generation_machine: guarded_machine generation_step generation_inv "\<lambda>_ _. True"
proof
  fix s :: "'z generation_store_scheme" and x
  assume "generation_inv s"
  then show "generation_inv (snd (generation_step x s))"
    by (cases x) (auto simp: generation_inv_def generation_load_def generation_cas_def dict_simps split: sum.splits)
qed

interpretation generation_cas_store: cas_machine generation_step "\<lambda>s. dict_get (gns_generations s)" set_by
proof
  fix k x expected n and s :: "'z generation_store_scheme"
  assume "set_by k x (fst (generation_step x s)) = Some (expected, n)"
  then show "dict_get (gns_generations s) k = expected
      \<and> dict_get (gns_generations (snd (generation_step x s))) k = Some n"
    by (cases x) (auto simp: generation_cas_def dict_simps split: sum.splits if_splits)
next
  fix k x and s :: "'z generation_store_scheme"
  assume "set_by k x (fst (generation_step x s)) = None"
  then show "dict_get (gns_generations (snd (generation_step x s))) k = dict_get (gns_generations s) k"
    by (cases x) (auto simp: generation_cas_def generation_load_def dict_simps split: sum.splits if_splits)
qed

section \<open>Properties\<close>

text \<open>Generation changes of a partition form a chain: in every sequence of calls on a store, each accepted
  compare-and-set expected exactly what the accepted one before it stored, the store ends with the last of them, and all
  stored generations stay non-negative and within the capacity.\<close>

theorem generations_form_chain:
  assumes "generation_inv s"
  shows "chained (dict_get (gns_generations s) k) (winners (set_by k) cs (fst (run generation_step cs s)))
    \<and> dict_get (gns_generations (snd (run generation_step cs s))) k =
        final_value (dict_get (gns_generations s) k) (winners (set_by k) cs (fst (run generation_step cs s)))
    \<and> generation_inv (snd (run generation_step cs s))"
  using generation_cas_store.winners_chained [of s k cs] generation_machine.run_inv [OF assms guarded_True, of cs]
  by simp

theorem generations_form_chain_witness:
  "chained None (winners (set_by (''d'', ''p''))
     [CompareAndSet ''d'' ''p'' None 1, CompareAndSet ''d'' ''p'' None 2, CompareAndSet ''d'' ''p'' (Some 1) 2]
     (fst (run generation_step
       [CompareAndSet ''d'' ''p'' None 1, CompareAndSet ''d'' ''p'' None 2, CompareAndSet ''d'' ''p'' (Some 1) 2]
       \<lparr>gns_capacity = 1, gns_generations = []\<rparr>)))"
  using generations_form_chain [of "\<lparr>gns_capacity = 1, gns_generations = []\<rparr>" "(''d'', ''p'')"
      "[CompareAndSet ''d'' ''p'' None 1, CompareAndSet ''d'' ''p'' None 2, CompareAndSet ''d'' ''p'' (Some 1) 2]"]
  by (simp add: generation_inv_def)

text \<open>The guard is fenced by the generation: over a transaction boundary that rolls back a failing
  body, \<open>GenerationGuard.commit\<close> reports a commit only if the partition was at the expected generation in the
  very state in which the mutation ran, and the state is then the one the mutation left; a stale partition, an invalid
  argument, an exception of the mutation or a failed commit leaves everything unchanged, and a
  stale report carries the generation that the store held.\<close>

theorem guard_commits_only_at_expected_generation:
  assumes "transactional errors atomic"
    and "guard_commit mem_generation_port atomic dataset part expected mutation (s :: 'a generation_world) = (r, s')"
  shows "case r of
      Inr (GenerationCommitted v n) \<Rightarrow>
        n = expected \<and> dict_get (gns_generations s) (dataset, part) = Some expected \<and> mutation s = (Inr v, s')
    | Inr (StaleGeneration n actual) \<Rightarrow>
        s' = s \<and> n = expected \<and> actual = dict_get (gns_generations s) (dataset, part) \<and> actual \<noteq> Some expected
    | Inl e \<Rightarrow> s' = s"
  using assms by (rule mem_generations.guard_runs_at_expected_generation)

definition sample_generations :: "nat generation_world" where
  "sample_generations = \<lparr>gns_capacity = 1, gns_generations = [((''d'', ''p''), 3)], gw_app = 0\<rparr>"

definition count_up :: "(nat generation_world, nat) act" where
  "count_up s = (Inr (gw_app s), s\<lparr>gw_app := gw_app s + 1\<rparr>)"

theorem guard_commits_only_at_expected_generation_witness:
  "guard_commit mem_generation_port rollback_atomic ''d'' ''p'' 3 count_up sample_generations
     = (Inr (GenerationCommitted 0 3), sample_generations\<lparr>gw_app := 1\<rparr>)
   \<and> dict_get (gns_generations sample_generations) (''d'', ''p'') = Some 3"
proof -
  have "guard_commit mem_generation_port rollback_atomic ''d'' ''p'' 3 count_up sample_generations
     = (Inr (GenerationCommitted 0 3), sample_generations\<lparr>gw_app := 1\<rparr>)"
    by (simp add: guard_commit_def guard_body_def mem_generation_port_def generation_load_def validate_partition_def
        check_def sbind_def rollback_atomic_def count_up_def sample_generations_def)
  from this guard_commits_only_at_expected_generation [OF rollback_atomic_transactional this] show ?thesis by simp
qed

lemma generation_harness_passes:
  assumes "InMemoryGenerationStore cap = Inr s"
  shows "fst (generation_exercise mem_generation_port s) = Inr ()"
  using assms
  by (auto simp: InMemoryGenerationStore_def generation_exercise_def mem_generation_port_def generation_load_def
      generation_cas_def validate_partition_def check_def sbind_def sassert_def Let_def split: if_splits)

end
