(* ===== verification/Trace.thy ===== *)
theory Trace
  imports PyText
begin

text \<open>
  Model of \<open>src/src/pytitect/trace.py\<close>: the W3C trace context value, its validation, its rendering as headers and
  the parser of the headers.  Accepted headers are printable ASCII, so strings of 8-bit characters lose nothing.  Shown: a context
  survives the round trip through its headers, and whatever the parser accepts is a valid context.
\<close>

section \<open>Characters and lists of characters\<close>

definition hex_digits :: string where
  "hex_digits = ''0123456789abcdef''"

text \<open>The regular expression \<open>[0-9a-f]+\<close>.\<close>

definition lower_hex :: "string \<Rightarrow> bool" where
  "lower_hex s \<longleftrightarrow> s \<noteq> [] \<and> (\<forall>c\<in>set s. c \<in> set hex_digits)"

fun hex_index :: "string \<Rightarrow> char \<Rightarrow> int" where
  "hex_index [] c = 0"
| "hex_index (d # ds) c = (if c = d then 0 else 1 + hex_index ds c)"

text \<open>\<open>int(text, 16)\<close> of lower-case digits, and \<open>f"{n:02x}"\<close> of a number below 256.\<close>

definition hex_value :: "string \<Rightarrow> int" where
  "hex_value s = foldl (\<lambda>a c. a * 16 + hex_index hex_digits c) 0 s"

definition hex2 :: "int \<Rightarrow> string" where
  "hex2 n = [hex_digits ! nat (n div 16), hex_digits ! nat (n mod 16)]"

definition printable :: "char \<Rightarrow> bool" where
  "printable c \<longleftrightarrow> 0x20 \<le> (of_char c :: nat) \<and> (of_char c :: nat) \<le> 0x7E"

text \<open>\<open>s.split(sep)\<close> with a one-character separator, \<open>s.split(sep, 1)\<close> and \<open>s.strip(chars)\<close>.\<close>

fun split_on :: "char \<Rightarrow> string \<Rightarrow> string list" where
  "split_on sep [] = [[]]"
| "split_on sep (c # cs) =
     (if c = sep then [] # split_on sep cs else (case split_on sep cs of w # ws \<Rightarrow> (c # w) # ws | [] \<Rightarrow> [[c]]))"

definition split_first :: "char \<Rightarrow> string \<Rightarrow> string \<times> string" where
  "split_first sep s = (takeWhile (\<lambda>c. c \<noteq> sep) s, tl (dropWhile (\<lambda>c. c \<noteq> sep) s))"

definition strip_chars :: "string \<Rightarrow> string \<Rightarrow> string" where
  "strip_chars cs s = rev (dropWhile (\<lambda>c. c \<in> set cs) (rev (dropWhile (\<lambda>c. c \<in> set cs) s)))"

section \<open>The context\<close>

record trace_context =
  tc_trace_id :: string
  tc_parent_id :: string
  tc_trace_flags :: int
  tc_tracestate :: "(string \<times> string) list"

definition hex_identifier :: "string \<Rightarrow> nat \<Rightarrow> unit res" where
  "hex_identifier v n = check (length v = n \<and> lower_hex v \<and> set v \<noteq> {CHR ''0''}) ValueError"

text \<open>The regular expression \<open>[a-z0-9][a-z0-9_*/@-]{0,255}\<close>.\<close>

definition key_first :: "char \<Rightarrow> bool" where
  "key_first c \<longleftrightarrow> c \<in> set ''abcdefghijklmnopqrstuvwxyz0123456789''"

definition key_rest :: "char \<Rightarrow> bool" where
  "key_rest c \<longleftrightarrow> key_first c \<or> c \<in> set ''_*/@-''"

definition tracestate_key :: "string \<Rightarrow> bool" where
  "tracestate_key k = (case k of [] \<Rightarrow> False | c # cs \<Rightarrow> key_first c \<and> length cs \<le> 255 \<and> (\<forall>d\<in>set cs. key_rest d))"

definition tracestate_value :: "string \<Rightarrow> unit res" where
  "tracestate_value v =
     (if v = [] \<or> 256 < length v \<or> last v = CHR '' '' then Inl ValueError
      else if \<exists>c\<in>set v. \<not> printable c then Inl ValueError
      else if CHR '','' \<in> set v \<or> CHR ''='' \<in> set v then Inl ValueError
      else Inr ())"

definition render_member :: "string \<times> string \<Rightarrow> string" where
  "render_member m = fst m @ ''='' @ snd m"

fun check_members :: "(string \<times> string) list \<Rightarrow> unit res" where
  "check_members [] = Inr ()"
| "check_members ((k, v) # ms) =
     (if \<not> tracestate_key k then Inl ValueError else and_then (tracestate_value v) (\<lambda>_. check_members ms))"

definition validate_tracestate :: "(string \<times> string) list \<Rightarrow> unit res" where
  "validate_tracestate ms =
     (if 32 < length ms then Inl ValueError
      else and_then (check_members ms) (\<lambda>_.
        if \<not> distinct (map fst ms) then Inl ValueError
        else if 512 < length (py_join '','' (map render_member ms)) then Inl ValueError
        else Inr ()))"

definition TraceContext :: "string \<Rightarrow> string \<Rightarrow> int \<Rightarrow> (string \<times> string) list \<Rightarrow> trace_context res" where
  "TraceContext trace_id parent_id flags ms =
     and_then (hex_identifier trace_id 32) (\<lambda>_.
     and_then (hex_identifier parent_id 16) (\<lambda>_.
       if \<not> (0 \<le> flags \<and> flags \<le> 0x03) then Inl ValueError
       else and_then (validate_tracestate ms) (\<lambda>_.
         Inr \<lparr>tc_trace_id = trace_id, tc_parent_id = parent_id, tc_trace_flags = flags, tc_tracestate = ms\<rparr>)))"

definition sampled :: "trace_context \<Rightarrow> bool" where
  "sampled c \<longleftrightarrow> odd (tc_trace_flags c)"

definition random_trace_id :: "trace_context \<Rightarrow> bool" where
  "random_trace_id c \<longleftrightarrow> odd (tc_trace_flags c div 2)"

section \<open>Rendering\<close>

definition render_traceparent :: "trace_context \<Rightarrow> string" where
  "render_traceparent c = ''00-'' @ tc_trace_id c @ ''-'' @ tc_parent_id c @ ''-'' @ hex2 (tc_trace_flags c)"

definition render_tracestate :: "trace_context \<Rightarrow> string option" where
  "render_tracestate c =
     (if tc_tracestate c = [] then None else Some (py_join '','' (map render_member (tc_tracestate c))))"

definition to_headers :: "trace_context \<Rightarrow> (string \<times> string) list" where
  "to_headers c = (''traceparent'', render_traceparent c) #
     (case render_tracestate c of None \<Rightarrow> [] | Some ts \<Rightarrow> [(''tracestate'', ts)])"

section \<open>Parsing\<close>

fun parse_members :: "string list \<Rightarrow> (string \<times> string) list res" where
  "parse_members [] = Inr []"
| "parse_members (raw # rest) =
     (let m = strip_chars [CHR '' '', CHR 0x09] raw in
      if m = [] then parse_members rest
      else if CHR ''='' \<notin> set m then Inl ValueError
      else
        let (k, v) = split_first (CHR ''='') m in
        if \<not> tracestate_key k then Inl ValueError
        else and_then (tracestate_value v) (\<lambda>_. and_then (parse_members rest) (\<lambda>ms. Inr ((k, v) # ms))))"

definition parse_tracestate :: "string \<Rightarrow> (string \<times> string) list res" where
  "parse_tracestate value =
     (if 512 < length value then Inl ValueError
      else
        let raw = split_on (CHR '','') value in
        if 32 < length raw then Inl ValueError
        else and_then (parse_members raw) (\<lambda>ms. if \<not> distinct (map fst ms) then Inl ValueError else Inr ms))"

text \<open>\<open>int(flags_text, 16) & 0x03\<close> keeps the two low bits.\<close>

definition parse_trace_context :: "string \<Rightarrow> string option \<Rightarrow> trace_context res" where
  "parse_trace_context tp tracestate =
     (if \<not> (55 \<le> length tp \<and> length tp \<le> 1024) then Inl ValueError
      else if \<exists>c\<in>set tp. \<not> printable c then Inl ValueError
      else if tp ! 2 \<noteq> CHR ''-'' \<or> tp ! 35 \<noteq> CHR ''-'' \<or> tp ! 52 \<noteq> CHR ''-'' then Inl ValueError
      else
        let version_text = take 2 tp in
        if \<not> lower_hex version_text \<or> version_text = ''ff'' then Inl ValueError
        else
          let version = hex_value version_text in
          if version = 0 \<and> length tp \<noteq> 55 then Inl ValueError
          else if 0 < version \<and> 55 < length tp \<and> tp ! 55 \<noteq> CHR ''-'' then Inl ValueError
          else
            let trace_id = take 32 (drop 3 tp); parent_id = take 16 (drop 36 tp); flags_text = take 2 (drop 53 tp) in
            and_then (hex_identifier trace_id 32) (\<lambda>_.
            and_then (hex_identifier parent_id 16) (\<lambda>_.
              if \<not> lower_hex flags_text then Inl ValueError
              else and_then (case tracestate of Some ts \<Rightarrow> parse_tracestate ts | None \<Rightarrow> Inr []) (\<lambda>members.
                TraceContext trace_id parent_id (take_bit 2 (hex_value flags_text)) members))))"

text \<open>\<open>casefold\<close> of a header name, as far as the two names are concerned: no other character of the 8-bit range folds
  to one of their letters.\<close>

definition fold_char :: "char \<Rightarrow> char" where
  "fold_char c = (let n = (of_char c :: nat) in if 65 \<le> n \<and> n \<le> 90 then char_of (n + 32) else c)"

fun select_headers :: "(string \<times> string) list \<Rightarrow> (string \<rightharpoonup> string) \<Rightarrow> (string \<rightharpoonup> string) res" where
  "select_headers [] selected = Inr selected"
| "select_headers ((raw_name, raw_value) # hs) selected =
     (let name = map fold_char raw_name in
      if name \<notin> {''traceparent'', ''tracestate''} then select_headers hs selected
      else if name \<in> dom selected then Inl ValueError
      else select_headers hs (selected(name \<mapsto> raw_value)))"

definition trace_context_from_headers :: "(string \<times> string) list \<Rightarrow> trace_context option res" where
  "trace_context_from_headers headers =
     and_then (select_headers headers Map.empty) (\<lambda>selected.
       case selected ''traceparent'' of
         None \<Rightarrow> if ''tracestate'' \<in> dom selected then Inl ValueError else Inr None
       | Some tp \<Rightarrow> and_then (parse_trace_context tp (selected ''tracestate'')) (\<lambda>c. Inr (Some c)))"

section \<open>Lists of members\<close>

lemma split_on_nonempty: "split_on sep s \<noteq> []"
  by (induction s) (auto split: list.splits)

lemma split_on_none: "sep \<notin> set s \<Longrightarrow> split_on sep s = [s]"
  by (induction s) auto

lemma split_on_append: "sep \<notin> set w \<Longrightarrow> split_on sep (w @ sep # s) = w # split_on sep s"
  by (induction w) auto

lemma split_on_join:
  assumes "ms \<noteq> []" and "\<forall>m\<in>set ms. sep \<notin> set m"
  shows "split_on sep (py_join [sep] ms) = ms"
  using assms by (induction "[sep]" ms rule: py_join.induct) (auto simp: split_on_none split_on_append)

lemma strip_chars_id:
  assumes "s \<noteq> []" and "hd s \<notin> set cs" and "last s \<notin> set cs"
  shows "strip_chars cs s = s"
proof -
  have "dropWhile (\<lambda>c. c \<in> set cs) s = s" using assms(1,2) by (cases s) auto
  moreover have "dropWhile (\<lambda>c. c \<in> set cs) (rev s) = rev s" using assms(1,3) by (cases s rule: rev_cases) auto
  ultimately show ?thesis by (simp add: strip_chars_def)
qed

lemma key_rest_chars:
  assumes "key_rest c"
  shows "c \<noteq> CHR ''=''" "c \<noteq> CHR '',''" "c \<noteq> CHR '' ''" "c \<noteq> CHR 0x09"
  using assms by (auto simp: key_rest_def key_first_def)

lemma key_chars:
  assumes "tracestate_key k"
  shows "k \<noteq> []" "\<forall>c\<in>set k. key_rest c"
  using assms by (auto simp: tracestate_key_def key_rest_def split: list.splits)

lemma value_chars:
  assumes "tracestate_value v = Inr ()"
  shows "v \<noteq> []" "last v \<noteq> CHR '' ''" "last v \<noteq> CHR 0x09" "CHR '','' \<notin> set v"
proof -
  show "v \<noteq> []" "last v \<noteq> CHR '' ''" "CHR '','' \<notin> set v" using assms by (auto simp: tracestate_value_def split: if_splits)
  have "printable (last v)" using assms by (auto simp: tracestate_value_def split: if_splits)
  then show "last v \<noteq> CHR 0x09" by (auto simp: printable_def)
qed

lemma render_member_facts:
  assumes "tracestate_key k" and "tracestate_value v = Inr ()"
  shows "strip_chars [CHR '' '', CHR 0x09] (render_member (k, v)) = render_member (k, v)" "render_member (k, v) \<noteq> []"
    "CHR ''='' \<in> set (render_member (k, v))" "split_first (CHR ''='') (render_member (k, v)) = (k, v)"
    "CHR '','' \<notin> set (render_member (k, v))"
proof -
  note K = key_chars [OF assms(1)] and V = value_chars [OF assms(2)]
  have ne: "\<forall>c\<in>set k. c \<noteq> CHR ''=''" using K(2) key_rest_chars(1) by blast
  have "hd (render_member (k, v)) = hd k" "last (render_member (k, v)) = last v"
    using K(1) V(1) by (simp_all add: render_member_def)
  moreover have "key_rest (hd k)" using K by simp
  ultimately show "strip_chars [CHR '' '', CHR 0x09] (render_member (k, v)) = render_member (k, v)"
    using V(2,3) key_rest_chars(3,4) [of "hd k"] K(1) by (intro strip_chars_id) (auto simp: render_member_def)
  show "render_member (k, v) \<noteq> []" "CHR ''='' \<in> set (render_member (k, v))" by (simp_all add: render_member_def)
  have "takeWhile (\<lambda>c. c \<noteq> CHR ''='') (k @ CHR ''='' # v) = k" "dropWhile (\<lambda>c. c \<noteq> CHR ''='') (k @ CHR ''='' # v) = CHR ''='' # v"
    using ne by (simp_all add: takeWhile_append2 dropWhile_append2)
  then show "split_first (CHR ''='') (render_member (k, v)) = (k, v)" by (simp add: split_first_def render_member_def)
  have "CHR '','' \<notin> set k" using K(2) key_rest_chars(2) by blast
  with V(4) show "CHR '','' \<notin> set (render_member (k, v))" by (simp add: render_member_def)
qed

lemma check_members_Inr: "check_members ms = Inr () \<longleftrightarrow> (\<forall>(k, v)\<in>set ms. tracestate_key k \<and> tracestate_value v = Inr ())"
  by (induction ms rule: check_members.induct) (auto simp: and_then_eq_Inr)

lemma parse_rendered_members:
  "\<forall>(k, v)\<in>set ms. tracestate_key k \<and> tracestate_value v = Inr () \<Longrightarrow> parse_members (map render_member ms) = Inr ms"
proof (induction ms)
  case (Cons m ms)
  obtain k v where m: "m = (k, v)" by fastforce
  with Cons.prems have "tracestate_key k" "tracestate_value v = Inr ()" by auto
  with Cons m render_member_facts [of k v] show ?case by simp
qed simp

lemma parse_rendered_tracestate:
  assumes "validate_tracestate ms = Inr ()" and "ms \<noteq> []"
  shows "parse_tracestate (py_join '','' (map render_member ms)) = Inr ms"
proof -
  from assms(1) have ms: "length ms \<le> 32" "check_members ms = Inr ()" "distinct (map fst ms)"
      "length (py_join '','' (map render_member ms)) \<le> 512"
    by (auto simp: validate_tracestate_def and_then_eq_Inr split: if_splits)
  then have ok: "\<forall>(k, v)\<in>set ms. tracestate_key k \<and> tracestate_value v = Inr ()" by (simp add: check_members_Inr)
  have "\<forall>m\<in>set (map render_member ms). CHR '','' \<notin> set m"
    using ok render_member_facts(5) by fastforce
  then have "split_on (CHR '','') (py_join '','' (map render_member ms)) = map render_member ms"
    using assms(2) by (intro split_on_join) simp_all
  with ms parse_rendered_members [OF ok] show ?thesis by (simp add: parse_tracestate_def)
qed

section \<open>The round trip\<close>

lemma hex_digit_printable: "c \<in> set hex_digits \<Longrightarrow> printable c"
  by (auto simp: hex_digits_def printable_def)

lemma rendered_traceparent:
  assumes tid: "hex_identifier tid 32 = Inr ()" and pid: "hex_identifier pid 16 = Inr ()" and flags: "0 \<le> flags" "flags \<le> 3"
    and c: "c = \<lparr>tc_trace_id = tid, tc_parent_id = pid, tc_trace_flags = flags, tc_tracestate = ms\<rparr>"
  shows "length (render_traceparent c) = 55" "\<forall>d\<in>set (render_traceparent c). printable d"
    "render_traceparent c ! 2 = CHR ''-''" "render_traceparent c ! 35 = CHR ''-''" "render_traceparent c ! 52 = CHR ''-''"
    "take 2 (render_traceparent c) = ''00''" "take 32 (drop 3 (render_traceparent c)) = tid"
    "take 16 (drop 36 (render_traceparent c)) = pid" "take 2 (drop 53 (render_traceparent c)) = hex2 flags"
proof -
  from tid pid have len: "length tid = 32" "length pid = 16" and hex: "lower_hex tid" "lower_hex pid" by (simp_all add: hex_identifier_def)
  have r: "render_traceparent c = ''00-'' @ tid @ ''-'' @ pid @ ''-'' @ hex2 flags" by (simp add: render_traceparent_def c)
  have h2: "length (hex2 flags) = 2" by (simp add: hex2_def)
  consider "flags = 0" | "flags = 1" | "flags = 2" | "flags = 3" using flags by linarith
  then have "\<forall>d\<in>set (hex2 flags). d \<in> set hex_digits" by cases (simp_all add: hex2_def hex_digits_def)
  moreover have "printable (CHR ''-'')" "printable (CHR ''0'')" by (simp_all add: printable_def)
  ultimately show "\<forall>d\<in>set (render_traceparent c). printable d"
    using hex by (auto simp: r lower_hex_def hex_digit_printable)
  show "length (render_traceparent c) = 55" using len h2 by (simp add: r)
  show "render_traceparent c ! 2 = CHR ''-''" "render_traceparent c ! 35 = CHR ''-''" "render_traceparent c ! 52 = CHR ''-''"
    using len by (simp_all add: r nth_append)
  show "take 2 (render_traceparent c) = ''00''" "take 32 (drop 3 (render_traceparent c)) = tid"
    "take 16 (drop 36 (render_traceparent c)) = pid" "take 2 (drop 53 (render_traceparent c)) = hex2 flags"
    using len h2 by (simp_all add: r)
qed

lemma TraceContext_Inr:
  assumes "TraceContext tid pid flags ms = Inr c"
  shows "c = \<lparr>tc_trace_id = tid, tc_parent_id = pid, tc_trace_flags = flags, tc_tracestate = ms\<rparr>"
    "hex_identifier tid 32 = Inr ()" "hex_identifier pid 16 = Inr ()" "0 \<le> flags" "flags \<le> 3" "validate_tracestate ms = Inr ()"
  using assms by (auto simp: TraceContext_def and_then_eq_Inr split: if_splits)

lemma hex2_flags:
  assumes "0 \<le> flags" and "flags \<le> 3"
  shows "lower_hex (hex2 flags)" "take_bit 2 (hex_value (hex2 flags)) = flags"
proof -
  consider "flags = 0" | "flags = 1" | "flags = 2" | "flags = 3" using assms by linarith
  then show "lower_hex (hex2 flags)" "take_bit 2 (hex_value (hex2 flags)) = flags"
    by (cases; simp add: hex2_def hex_digits_def lower_hex_def hex_value_def)+
qed

lemma parse_rendered:
  assumes "TraceContext tid pid flags ms = Inr c"
  shows "parse_trace_context (render_traceparent c) (render_tracestate c) = Inr c"
proof -
  note C = TraceContext_Inr [OF assms]
  note R = rendered_traceparent [OF C(2-5,1)] and H = hex2_flags [OF C(4,5)]
  have "(case render_tracestate c of Some ts \<Rightarrow> parse_tracestate ts | None \<Rightarrow> Inr []) = Inr ms"
    using parse_rendered_tracestate [OF C(6)] by (simp add: render_tracestate_def C(1))
  moreover have "lower_hex ''00''" "hex_value ''00'' = 0" by (simp_all add: lower_hex_def hex_digits_def hex_value_def)
  moreover have "take 2 (hex2 flags) = hex2 flags" by (simp add: hex2_def)
  ultimately show ?thesis
    using R H C(2,3) assms by (simp add: parse_trace_context_def Let_def)
qed

lemma fold_char_names: "map fold_char ''traceparent'' = ''traceparent''" "map fold_char ''tracestate'' = ''tracestate''"
  by (simp_all add: fold_char_def)

text \<open>Round trip: a trace context that its constructor accepts is read back from its own headers unchanged, vendor state
  included.\<close>

theorem trace_context_round_trip:
  assumes "TraceContext trace_id parent_id flags members = Inr c"
  shows "trace_context_from_headers (to_headers c) = Inr (Some c)"
  using parse_rendered [OF assms]
  by (cases "render_tracestate c") (simp_all add: trace_context_from_headers_def to_headers_def fold_char_names del: list.map)

theorem trace_context_round_trip_witness:
  "\<exists>c. TraceContext ''0123456789abcdef0123456789abcdef'' ''00f067aa0ba902b7'' 1 [(''vendor'', ''a b''), (''x@y'', '' z'')] = Inr c
     \<and> trace_context_from_headers (to_headers c) = Inr (Some c)"
proof -
  have "\<exists>c. TraceContext ''0123456789abcdef0123456789abcdef'' ''00f067aa0ba902b7'' 1 [(''vendor'', ''a b''), (''x@y'', '' z'')] = Inr c"
    by (simp add: TraceContext_def hex_identifier_def lower_hex_def hex_digits_def validate_tracestate_def tracestate_key_def key_first_def
        key_rest_def tracestate_value_def printable_def render_member_def check_def)
  then obtain c where c: "TraceContext ''0123456789abcdef0123456789abcdef'' ''00f067aa0ba902b7'' 1 [(''vendor'', ''a b''), (''x@y'', '' z'')] = Inr c"
    by blast
  from trace_context_round_trip [OF c] c show ?thesis by blast
qed

text \<open>Whatever the parser accepts, of any version and with any additional fields, is a context that the constructor
  accepts, and rendering it in version 00 and parsing it again gives the same context.\<close>

theorem parsed_trace_context_is_valid:
  assumes "parse_trace_context tp ts = Inr c"
  shows "TraceContext (tc_trace_id c) (tc_parent_id c) (tc_trace_flags c) (tc_tracestate c) = Inr c
    \<and> parse_trace_context (render_traceparent c) (render_tracestate c) = Inr c \<and> length (render_traceparent c) = 55"
proof -
  from assms obtain tid pid flags ms where m: "TraceContext tid pid flags ms = Inr c"
    by (auto simp: parse_trace_context_def Let_def and_then_eq_Inr split: if_splits)
  note C = TraceContext_Inr [OF m]
  from C(1) m have "TraceContext (tc_trace_id c) (tc_parent_id c) (tc_trace_flags c) (tc_tracestate c) = Inr c" by simp
  with parse_rendered [OF m] rendered_traceparent(1) [OF C(2-5,1)] show ?thesis by simp
qed

theorem parsed_trace_context_is_valid_witness:
  "\<exists>c. parse_trace_context ''cc-0123456789abcdef0123456789abcdef-00f067aa0ba902b7-ff-extra'' None = Inr c \<and> tc_trace_flags c = 3
     \<and> length (render_traceparent c) = 55"
proof -
  have "\<exists>c. parse_trace_context ''cc-0123456789abcdef0123456789abcdef-00f067aa0ba902b7-ff-extra'' None = Inr c \<and> tc_trace_flags c = 3"
    by (simp add: parse_trace_context_def TraceContext_def hex_identifier_def lower_hex_def hex_digits_def validate_tracestate_def
        printable_def hex_value_def check_def Let_def)
  then obtain c where c: "parse_trace_context ''cc-0123456789abcdef0123456789abcdef-00f067aa0ba902b7-ff-extra'' None = Inr c" "tc_trace_flags c = 3"
    by blast
  from parsed_trace_context_is_valid [OF c(1)] c show ?thesis by blast
qed

end
