(* ===== verification/Encoding.thy ===== *)
theory Encoding
  imports Canonical
begin

text \<open>
  Model of \<open>src/src/pytitect/security/encoding.py\<close>: unpadded base64url, key thumbprints and token hashes.  A byte string is a
  list of 8-bit characters; the functions of the module \<open>base64\<close> are written out.  Shown: decoding accepts exactly the canonical
  encodings, so that encoding and decoding are inverse to each other.
\<close>

section \<open>The module \<open>base64\<close>\<close>

definition b64_alphabet :: string where
  "b64_alphabet = ''ABCDEFGHIJKLMNOPQRSTUVWXYZabcdefghijklmnopqrstuvwxyz0123456789-_''"

definition b64_char :: "nat \<Rightarrow> char" where
  "b64_char n = b64_alphabet ! n"

text \<open>The sextets of the bytes; a last incomplete group has two or three of them.\<close>

fun sextets :: "nat list \<Rightarrow> nat list" where
  "sextets [] = []"
| "sextets [a] = [a div 4, (a mod 4) * 16]"
| "sextets [a, b] = [a div 4, (a mod 4) * 16 + b div 16, (b mod 16) * 4]"
| "sextets (a # b # c # r) = [a div 4, (a mod 4) * 16 + b div 16, (b mod 16) * 4 + c div 64, c mod 64] @ sextets r"

definition padding :: "nat \<Rightarrow> string" where
  "padding n = replicate ((4 - n mod 4) mod 4) (CHR ''='')"

definition urlsafe_b64encode :: "string \<Rightarrow> string" where
  "urlsafe_b64encode v = (let ss = sextets (map of_char v) in map b64_char ss @ padding (length ss))"

text \<open>\<open>b64decode\<close> with \<open>altchars=b"-_"\<close> translates the two characters and still accepts \<open>+\<close> and \<open>/\<close>.\<close>

fun char_index :: "string \<Rightarrow> char \<Rightarrow> nat option" where
  "char_index [] c = None"
| "char_index (d # ds) c = (if c = d then Some 0 else map_option Suc (char_index ds c))"

definition sextet_of :: "char \<Rightarrow> nat option" where
  "sextet_of c =
     (if c = CHR ''+'' then Some 62 else if c = CHR ''/'' then Some 63 else char_index b64_alphabet c)"

fun b64decode :: "string \<Rightarrow> nat list option" where
  "b64decode [] = Some []"
| "b64decode (a # b # c # d # r) =
     (case (sextet_of a, sextet_of b) of
        (Some w, Some x) \<Rightarrow>
          if d = CHR ''='' \<and> r = [] then
            (if c = CHR ''='' then Some [w * 4 + x div 16]
             else case sextet_of c of
               Some y \<Rightarrow> Some [w * 4 + x div 16, (x mod 16) * 16 + y div 4]
             | None \<Rightarrow> None)
          else (case (sextet_of c, sextet_of d, b64decode r) of
               (Some y, Some z, Some bs) \<Rightarrow>
                 Some ([w * 4 + x div 16, (x mod 16) * 16 + y div 4, (y mod 4) * 64 + z] @ bs)
             | _ \<Rightarrow> None)
      | _ \<Rightarrow> None)"
| "b64decode _ = None"

section \<open>The codec\<close>

definition base64url_encode :: "string \<Rightarrow> string" where
  "base64url_encode v = rev (dropWhile (\<lambda>c. c = CHR ''='') (rev (urlsafe_b64encode v)))"

definition base64url_decode :: "string \<Rightarrow> string res" where
  "base64url_decode s =
     (if s = [] \<or> CHR ''='' \<in> set s then Inl ValueError
      else case b64decode (s @ padding (length s)) of
        None \<Rightarrow> Inl ValueError
      | Some bs \<Rightarrow>
          let decoded = map char_of bs in
          if base64url_encode decoded \<noteq> s then Inl ValueError else Inr decoded)"

text \<open>\<open>digest\<close> is SHA-256; \<open>jwk\<close> a mapping from member names to JSON values.\<close>

definition jwk_required :: "string \<Rightarrow> string list option" where
  "jwk_required kty =
     map_of [(''EC'', [''crv'', ''kty'', ''x'', ''y'']), (''RSA'', [''e'', ''kty'', ''n'']),
             (''OKP'', [''crv'', ''kty'', ''x'']), (''oct'', [''k'', ''kty''])] kty"

definition is_str :: "json option \<Rightarrow> bool" where
  "is_str v = (case v of Some (JStr s) \<Rightarrow> True | _ \<Rightarrow> False)"

definition jwk_thumbprint ::
    "(json \<Rightarrow> string res) option \<Rightarrow> (string \<Rightarrow> string) \<Rightarrow> (string, json) dict \<Rightarrow> string res" where
  "jwk_thumbprint rfc8785 digest jwk =
     (case dict_get jwk ''kty'' of
        Some (JStr key_type) \<Rightarrow>
          (case jwk_required key_type of
             None \<Rightarrow> Inl ValueError
           | Some required \<Rightarrow>
               if \<exists>name\<in>set required. \<not> is_str (dict_get jwk name) then Inl ValueError
               else and_then (canonical_json rfc8785 (JDict (map (\<lambda>name. (KStr name, the (dict_get jwk name))) required))) (\<lambda>b.
                 Inr (base64url_encode (digest b))))
      | _ \<Rightarrow> Inl ValueError)"

text \<open>\<open>digest\<close> is SHA-256 of the encoded text.\<close>

definition access_token_hash :: "(string \<Rightarrow> string) \<Rightarrow> string \<Rightarrow> string res" where
  "access_token_hash digest token = (if token = [] then Inl ValueError else Inr (base64url_encode (digest token)))"

section \<open>Inverse\<close>

lemma sextets_less: "\<forall>b\<in>set bs. b < 256 \<Longrightarrow> \<forall>n\<in>set (sextets bs). n < 64"
  by (induction bs rule: sextets.induct) (auto simp: div_less_iff_less_mult)

lemma length_alphabet: "length b64_alphabet = 64"
  by (simp add: b64_alphabet_def)

lemma char_index_nth: "distinct xs \<Longrightarrow> n < length xs \<Longrightarrow> char_index xs (xs ! n) = Some n"
proof (induction xs arbitrary: n)
  case (Cons x xs)
  then show ?case by (cases n) (auto simp: nth_mem)
qed simp

lemma sextet_of_char: "n < 64 \<Longrightarrow> sextet_of (b64_char n) = Some n"
proof -
  assume n: "n < 64"
  have "distinct b64_alphabet" by (simp add: b64_alphabet_def)
  with n have "char_index b64_alphabet (b64_char n) = Some n" by (simp add: b64_char_def char_index_nth length_alphabet)
  moreover have "b64_char n \<in> set b64_alphabet" using n by (simp add: b64_char_def length_alphabet)
  then have "b64_char n \<noteq> CHR ''+''" "b64_char n \<noteq> CHR ''/''" by (auto simp: b64_alphabet_def)
  ultimately show ?thesis by (simp add: sextet_of_def)
qed

lemma b64_char_not_pad: "n < 64 \<Longrightarrow> b64_char n \<noteq> CHR ''=''"
proof -
  assume "n < 64"
  then have "b64_char n \<in> set b64_alphabet" by (simp add: b64_char_def length_alphabet)
  then show ?thesis by (auto simp: b64_alphabet_def)
qed

lemma encode_unpadded: "base64url_encode v = map b64_char (sextets (map of_char v))"
proof -
  let ?ss = "sextets (map of_char v)"
  have "\<forall>n\<in>set ?ss. n < 64" by (rule sextets_less) simp
  then have "\<forall>c\<in>set (map b64_char ?ss). c \<noteq> CHR ''=''" using b64_char_not_pad by auto
  then have "map b64_char ?ss = [] \<or> last (map b64_char ?ss) \<noteq> CHR ''=''"
    using last_in_set [of "map b64_char ?ss"] by (metis (no_types))
  then have "dropWhile (\<lambda>c. c = CHR ''='') (rev (map b64_char ?ss)) = rev (map b64_char ?ss)"
    by (simp only: dropWhile_eq_self_iff hd_rev rev_is_Nil_conv)
  moreover have "dropWhile (\<lambda>c. c = CHR ''='') (replicate k (CHR ''='') @ ys) = dropWhile (\<lambda>c. c = CHR ''='') ys" for k ys
    by (induction k) simp_all
  ultimately show ?thesis by (simp add: base64url_encode_def urlsafe_b64encode_def padding_def Let_def)
qed

lemma b64decode_sextets:
  "\<forall>b\<in>set bs. b < 256 \<Longrightarrow> b64decode (map b64_char (sextets bs) @ padding (length (sextets bs))) = Some bs"
proof (induction bs rule: sextets.induct)
  case (2 a)
  then have "a div 4 < 64" "(a mod 4) * 16 < 64" by auto
  then show ?case by (simp add: padding_def sextet_of_char numeral_2_eq_2)
next
  case (3 a b)
  then have *: "a div 4 < 64" "(a mod 4) * 16 + b div 16 < 64" "(b mod 16) * 4 < 64" by auto
  then have "b64_char ((b mod 16) * 4) \<noteq> CHR ''=''" by (rule_tac b64_char_not_pad)
  moreover have "((a mod 4) * 16 + b div 16) div 16 = a mod 4" "((a mod 4) * 16 + b div 16) mod 16 = b div 16" using 3 by auto
  ultimately show ?case using * by (simp add: padding_def sextet_of_char)
next
  case (4 a b c r)
  then have *: "a div 4 < 64" "(a mod 4) * 16 + b div 16 < 64" "(b mod 16) * 4 + c div 64 < 64" "c mod 64 < 64" by auto
  then have "b64_char (c mod 64) \<noteq> CHR ''=''" by (rule_tac b64_char_not_pad)
  moreover have "((a mod 4) * 16 + b div 16) div 16 = a mod 4" "((a mod 4) * 16 + b div 16) mod 16 = b div 16"
    "((b mod 16) * 4 + c div 64) div 4 = b mod 16" "((b mod 16) * 4 + c div 64) mod 4 = c div 64" using 4 by auto
  moreover have "padding (length (sextets (a # b # c # r))) = padding (length (sextets r))" by (simp add: padding_def)
  ultimately show ?case using * 4 by (simp add: sextet_of_char)
qed (simp add: padding_def)

lemma sextets_eq_Nil [simp]: "sextets bs = [] \<longleftrightarrow> bs = []"
  by (cases bs rule: sextets.cases) simp_all

lemma decode_encode:
  assumes "v \<noteq> []"
  shows "base64url_decode (base64url_encode v) = Inr v"
proof -
  let ?bs = "map of_char v :: nat list"
  have less: "\<forall>b\<in>set ?bs. b < 256" by simp
  have "\<forall>c\<in>set (base64url_encode v). c \<noteq> CHR ''=''"
    using sextets_less [OF less] b64_char_not_pad by (auto simp: encode_unpadded)
  moreover have "base64url_encode v \<noteq> []" using assms by (simp add: encode_unpadded)
  moreover have "b64decode (base64url_encode v @ padding (length (base64url_encode v))) = Some ?bs"
    using b64decode_sextets [OF less] by (simp add: encode_unpadded)
  ultimately show ?thesis by (auto simp: base64url_decode_def Let_def comp_def)
qed

text \<open>The codec is canonical: a text decodes to a byte string exactly when it is the non-empty encoding of that byte string;
  every other text, padded or with stray bits included, is rejected with \<open>ValueError\<close>.\<close>

theorem base64url_is_canonical:
  "(base64url_decode s = Inr v \<longleftrightarrow> s \<noteq> [] \<and> base64url_encode v = s)
   \<and> ((\<exists>w. base64url_decode s = Inr w) \<or> base64url_decode s = Inl ValueError)"
proof -
  have "base64url_encode [] = []" by (simp add: encode_unpadded)
  then have "base64url_decode s = Inr v" if "s \<noteq> []" "base64url_encode v = s" using that decode_encode [of v] by auto
  moreover have "s \<noteq> [] \<and> base64url_encode v = s" if "base64url_decode s = Inr v"
    using that by (auto simp: base64url_decode_def Let_def split: if_splits option.splits)
  moreover have "(\<exists>w. base64url_decode s = Inr w) \<or> base64url_decode s = Inl ValueError"
    by (auto simp: base64url_decode_def Let_def split: option.split)
  ultimately show ?thesis by blast
qed

end
