(* ===== verification/ReplayStore.thy ===== *)
theory ReplayStore
  imports Maintenance
begin

text \<open>
  Model of \<open>src/src/pytitect/security/replay.py\<close>: the finite store that decides whether a proof or
  nonce was seen before, its retention operation and its conformance harness.  Shown: an accepted identity is
  detected by every later reservation before its expiry, whatever other calls are made in between; the store never
  exceeds its capacity; the harness passes.
\<close>

datatype replay_decision =
    ReplayAccepted instant
  | ReplayDetected instant
  | ReplayCapacityExceeded int

record replay_store =
  rps_capacity :: int
  rps_entries :: "(string \<times> string, instant) dict"

definition InMemoryReplayStore :: "int \<Rightarrow> replay_store res" where
  "InMemoryReplayStore capacity =
     (if capacity \<le> 0 then Inl ValueError else Inr \<lparr>rps_capacity = capacity, rps_entries = []\<rparr>)"

text \<open>The loop that pops the entries whose time is over.\<close>

definition drop_expired :: "instant \<Rightarrow> replay_store \<Rightarrow> replay_store" where
  "drop_expired t s =
     s\<lparr>rps_entries := pop_all (map fst (filter (\<lambda>p. snd p \<le> t) (rps_entries s))) (rps_entries s)\<rparr>"

definition replay_reserve ::
    "string \<Rightarrow> string \<Rightarrow> datetime \<Rightarrow> timedelta \<Rightarrow> (replay_store, replay_decision) act" where
  "replay_reserve namespace v now ttl s =
     (case require_aware_utc now of
        Inl e \<Rightarrow> (Inl e, s)
      | Inr t \<Rightarrow>
          if namespace = [] \<or> v = [] \<or> ttl \<le> 0 then (Inl ValueError, s)
          else
            let s1 = drop_expired t s in
            case dict_get (rps_entries s1) (namespace, v) of
              Some until \<Rightarrow> (Inr (ReplayDetected until), s1)
            | None \<Rightarrow>
                if rps_capacity s1 \<le> int (length (rps_entries s1))
                then (Inr (ReplayCapacityExceeded (rps_capacity s1)), s1)
                else
                  case dt_plus t ttl of
                    Inl e \<Rightarrow> (Inl e, s1)
                  | Inr expires \<Rightarrow>
                      (Inr (ReplayAccepted expires),
                       s1\<lparr>rps_entries := dict_set (namespace, v) expires (rps_entries s1)\<rparr>))"

definition replay_due :: "maintenance_plan \<Rightarrow> (string \<times> string) \<times> instant \<Rightarrow> bool" where
  "replay_due plan p \<longleftrightarrow> snd p \<le> mp_cutoff plan"

definition replay_age :: "maintenance_plan \<Rightarrow> (string \<times> string) \<times> instant \<Rightarrow> instant \<times> string \<times> string" where
  "replay_age plan p = (snd p, fst (fst p), snd (fst p))"

definition replay_purge :: "maintenance_plan \<Rightarrow> (replay_store, maintenance_summary) act" where
  "replay_purge plan s =
     (let selected = select_batch (replay_due plan) (replay_age plan) (mp_batch_size plan) (rps_entries s) in
      (batch_summary (mp_dry_run plan) (length selected),
       if mp_dry_run plan then s else s\<lparr>rps_entries := pop_all (map fst selected) (rps_entries s)\<rparr>))"

section \<open>The conformance harness\<close>

text \<open>The harness reaches a store only through \<open>reserve\<close>.\<close>

type_synonym 's replay_port = "string \<Rightarrow> string \<Rightarrow> datetime \<Rightarrow> timedelta \<Rightarrow> ('s, replay_decision) act"

fun is_accepted :: "replay_decision \<Rightarrow> bool" where
  "is_accepted (ReplayAccepted _) = True"
| "is_accepted _ = False"

fun is_detected :: "replay_decision \<Rightarrow> bool" where
  "is_detected (ReplayDetected _) = True"
| "is_detected _ = False"

definition replay_exercise :: "'s replay_port \<Rightarrow> datetime \<Rightarrow> ('s, unit) act" where
  "replay_exercise port now =
     (let ttl = seconds 60 in
      sbind (port ''scope-a'' ''proof'' now ttl) (\<lambda>accepted.
      sbind (sassert (is_accepted accepted)) (\<lambda>_.
      sbind (slift (dt_shift now ttl)) (\<lambda>later.
      sbind (sassert (accepted = ReplayAccepted (dt_micros later))) (\<lambda>_.
      sbind (port ''scope-a'' ''proof'' now ttl) (\<lambda>duplicate.
      sbind (sassert (is_detected duplicate)) (\<lambda>_.
      sbind (port ''scope-b'' ''proof'' now ttl) (\<lambda>separated.
      sbind (sassert (is_accepted separated)) (\<lambda>_.
      sbind (slift (dt_shift now ttl)) (\<lambda>later.
      sbind (port ''scope-a'' ''proof'' later ttl) (\<lambda>expired.
      sassert (is_accepted expired))))))))))))"

section \<open>Invariant and retention\<close>

definition replay_inv :: "replay_store \<Rightarrow> bool" where
  "replay_inv s \<longleftrightarrow> 0 < rps_capacity s \<and> dict_ok (rps_entries s)
     \<and> int (length (rps_entries s)) \<le> rps_capacity s"

interpretation replay_retention:
  retention replay_purge rps_entries replay_due replay_age "\<lambda>p. p" replay_inv
  by unfold_locales (simp_all add: replay_purge_def Let_def replay_inv_def)

lemma drop_expired_inv [simp]: "replay_inv s \<Longrightarrow> replay_inv (drop_expired t s)"
  by (simp add: replay_inv_def drop_expired_def)

lemma drop_expired_get:
  assumes "replay_inv s"
  shows "dict_get (rps_entries (drop_expired t s)) k =
    (case dict_get (rps_entries s) k of None \<Rightarrow> None | Some u \<Rightarrow> if u \<le> t then None else Some u)"
proof -
  have ok: "dict_ok (rps_entries s)" using assms by (simp add: replay_inv_def)
  have "k \<in> set (map fst (filter (\<lambda>p. snd p \<le> t) (rps_entries s)))
    \<longleftrightarrow> (\<exists>u. dict_get (rps_entries s) k = Some u \<and> u \<le> t)"
    by (force simp: dict_get_iff [OF ok])
  then show ?thesis by (auto simp: drop_expired_def pop_all_get split: option.splits)
qed

text \<open>The three outcomes of a well-formed reservation, by the live entry of the identity.\<close>

lemma replay_reserve_cases:
  assumes "replay_inv s" and "require_aware_utc now = Inr t" and "namespace \<noteq> []" "v \<noteq> []" "0 < ttl"
  obtains (detected) u where "dict_get (rps_entries s) (namespace, v) = Some u" "t < u"
      "replay_reserve namespace v now ttl s = (Inr (ReplayDetected u), drop_expired t s)"
  | (rejected) r where "r \<in> {Inl OverflowError, Inr (ReplayCapacityExceeded (rps_capacity s))}"
      "replay_reserve namespace v now ttl s = (r, drop_expired t s)"
  | (accepted) "\<And>u. dict_get (rps_entries s) (namespace, v) = Some u \<Longrightarrow> u \<le> t" "t + ttl \<le> dt_max"
      "int (length (rps_entries (drop_expired t s))) < rps_capacity s"
      "replay_reserve namespace v now ttl s = (Inr (ReplayAccepted (t + ttl)),
         (drop_expired t s)\<lparr>rps_entries := dict_set (namespace, v) (t + ttl) (rps_entries (drop_expired t s))\<rparr>)"
proof -
  have cap: "rps_capacity (drop_expired t s) = rps_capacity s" by (simp add: drop_expired_def)
  note get = drop_expired_get [OF assms(1), of t "(namespace, v)"]
  show thesis
  proof (cases "dict_get (rps_entries (drop_expired t s)) (namespace, v)")
    case (Some u)
    with get have "dict_get (rps_entries s) (namespace, v) = Some u" "t < u"
      by (auto split: option.splits if_splits)
    with Some assms show thesis by (intro detected) (auto simp: replay_reserve_def Let_def)
  next
    case None
    have live: "u \<le> t" if "dict_get (rps_entries s) (namespace, v) = Some u" for u
      using that None get by (auto split: if_splits)
    show thesis
    proof (cases "rps_capacity s \<le> int (length (rps_entries (drop_expired t s)))")
      case True
      with None assms cap show thesis
        by (intro rejected [of "Inr (ReplayCapacityExceeded (rps_capacity s))"]) (auto simp: replay_reserve_def Let_def)
    next
      case free: False
      show thesis
      proof (cases "dt_plus t ttl")
        case (Inl e)
        then have "e = OverflowError" by (auto simp: dt_plus_def split: if_splits)
        with Inl None free assms cap show thesis
          by (intro rejected [of "Inl OverflowError"]) (auto simp: replay_reserve_def Let_def)
      next
        case (Inr u)
        then have "u = t + ttl" "t + ttl \<le> dt_max" by (auto simp: dt_plus_Inr_iff)
        with Inr None free assms cap live show thesis
          by (intro accepted) (auto simp: replay_reserve_def Let_def)
      qed
    qed
  qed
qed

lemma replay_reserve_malformed:
  assumes "\<not> (namespace \<noteq> [] \<and> v \<noteq> [] \<and> 0 < ttl \<and> (\<exists>t. require_aware_utc now = Inr t))"
  shows "\<exists>e. replay_reserve namespace v now ttl s = (Inl e, s)"
  using assms by (auto simp: replay_reserve_def split: sum.splits)

section \<open>Runs\<close>

datatype replay_call = Reserve string string datetime timedelta | Purge maintenance_plan

datatype replay_reply = ReserveReply "replay_decision res" | PurgeReply "maintenance_summary res"

fun replay_step :: "replay_call \<Rightarrow> replay_store \<Rightarrow> replay_reply \<times> replay_store" where
  "replay_step (Reserve ns v now ttl) s = apfst ReserveReply (replay_reserve ns v now ttl s)"
| "replay_step (Purge plan) s = apfst PurgeReply (replay_purge plan s)"

text \<open>
  Calls that are made while an entry that expires at \<open>ex\<close> is live: the clock readings and the cut-offs of
  effective purges lie before \<open>ex\<close>.
\<close>

fun before :: "instant \<Rightarrow> replay_call \<Rightarrow> replay_store \<Rightarrow> bool" where
  "before ex (Reserve ns v now ttl) s \<longleftrightarrow> dt_micros now < ex"
| "before ex (Purge plan) s \<longleftrightarrow> mp_dry_run plan \<or> mp_cutoff plan < ex"

lemma replay_purge_inv: "replay_inv s \<Longrightarrow> replay_inv (snd (replay_purge plan s))"
  by (auto simp: replay_purge_def Let_def replay_inv_def)

lemma replay_reserve_inv:
  assumes "replay_inv s"
  shows "replay_inv (snd (replay_reserve namespace v now ttl s))"
proof (cases "namespace \<noteq> [] \<and> v \<noteq> [] \<and> 0 < ttl \<and> (\<exists>t. require_aware_utc now = Inr t)")
  case False
  with replay_reserve_malformed [OF this, of s] assms show ?thesis by auto
next
  case True
  then obtain t where wf: "require_aware_utc now = Inr t" "namespace \<noteq> []" "v \<noteq> []" "0 < ttl" by blast
  from assms wf show ?thesis
  proof (cases rule: replay_reserve_cases)
    case accepted
    moreover have "replay_inv (drop_expired t s)" using assms by simp
    ultimately show ?thesis by (auto simp: replay_inv_def length_dict_set drop_expired_def)
  qed (use assms in simp_all)
qed

interpretation replay_machine: guarded_machine replay_step replay_inv "\<lambda>_ _. True"
proof
  fix s x
  assume "replay_inv s"
  then show "replay_inv (snd (replay_step x s))"
    by (cases x) (simp_all add: replay_reserve_inv replay_purge_inv)
qed

definition holds_until :: "string \<Rightarrow> string \<Rightarrow> instant \<Rightarrow> replay_store \<Rightarrow> bool" where
  "holds_until ns v ex s \<longleftrightarrow> replay_inv s \<and> dict_get (rps_entries s) (ns, v) = Some ex"

lemma require_aware_utc_micros: "require_aware_utc now = Inr t \<Longrightarrow> dt_micros now = t"
  by (auto simp: require_aware_utc_def split: if_splits)

lemma replay_reserve_keeps:
  assumes "holds_until ns v ex s" and "dt_micros now < ex"
  shows "holds_until ns v ex (snd (replay_reserve ns' v' now ttl s))"
proof (cases "ns' \<noteq> [] \<and> v' \<noteq> [] \<and> 0 < ttl \<and> (\<exists>t. require_aware_utc now = Inr t)")
  case False
  with replay_reserve_malformed [OF this, of s] assms(1) show ?thesis by auto
next
  case True
  then obtain t where wf: "require_aware_utc now = Inr t" "ns' \<noteq> []" "v' \<noteq> []" "0 < ttl" by blast
  have held: "replay_inv s" "dict_get (rps_entries s) (ns, v) = Some ex" and early: "t < ex"
    using assms wf by (auto simp: holds_until_def require_aware_utc_micros)
  have kept: "dict_get (rps_entries (drop_expired t s)) (ns, v) = Some ex"
    using held early by (simp add: drop_expired_get)
  have "dict_get (rps_entries (snd (replay_reserve ns' v' now ttl s))) (ns, v) = Some ex"
    using held(1) wf
  proof (cases rule: replay_reserve_cases)
    case accepted
    then have "(ns', v') \<noteq> (ns, v)" using held(2) early by fastforce
    with accepted kept show ?thesis by (auto simp: dict_get_set)
  qed (use kept in simp_all)
  with replay_reserve_inv [OF held(1)] show ?thesis by (simp add: holds_until_def)
qed

lemma replay_purge_keeps:
  assumes "holds_until ns v ex s" and "mp_dry_run plan \<or> mp_cutoff plan < ex"
  shows "holds_until ns v ex (snd (replay_purge plan s))"
proof -
  have held: "replay_inv s" "((ns, v), ex) \<in> set (rps_entries s)"
    using assms(1) by (auto simp: holds_until_def dest: map_of_SomeD)
  have "((ns, v), ex) \<in> set (rps_entries (snd (replay_purge plan s)))"
    by (rule ccontr) (use replay_retention.removed_are_due [OF held, of plan] assms(2) in \<open>auto simp: replay_due_def\<close>)
  with replay_purge_inv [OF held(1)] show ?thesis
    by (simp add: holds_until_def replay_inv_def dict_get_iff)
qed

interpretation replay_hold: guarded_machine replay_step "holds_until ns v ex" "before ex"
proof
  fix s x
  assume "holds_until ns v ex s" and "before ex x s"
  then show "holds_until ns v ex (snd (replay_step x s))"
    by (cases x) (simp_all add: replay_reserve_keeps replay_purge_keeps)
qed

lemma replay_accepts:
  assumes "replay_inv s" and "replay_reserve ns v now ttl s = (Inr (ReplayAccepted ex), s')"
  shows "holds_until ns v ex s' \<and> ns \<noteq> [] \<and> v \<noteq> []"
proof (cases "ns \<noteq> [] \<and> v \<noteq> [] \<and> 0 < ttl \<and> (\<exists>t. require_aware_utc now = Inr t)")
  case False
  with replay_reserve_malformed [OF this, of s] assms(2) show ?thesis by auto
next
  case True
  then obtain t where wf: "require_aware_utc now = Inr t" "ns \<noteq> []" "v \<noteq> []" "0 < ttl" by blast
  have "replay_inv s'" using replay_reserve_inv [OF assms(1), of ns v now ttl] assms(2) by simp
  from assms(1) wf show ?thesis
    by (cases rule: replay_reserve_cases)
      (use assms(2) wf \<open>replay_inv s'\<close> in \<open>auto simp: holds_until_def dict_get_set\<close>)
qed

lemma replay_initial_inv: "InMemoryReplayStore cap = Inr s \<Longrightarrow> replay_inv s"
  by (auto simp: InMemoryReplayStore_def replay_inv_def split: if_splits)

section \<open>Properties\<close>

text \<open>A replay is detected: in every state of a store that was built by its constructor and used by any
  calls \<open>before_calls\<close>, once an identity is accepted until \<open>ex\<close>, every later well-formed reservation of that
  identity with a clock before \<open>ex\<close> returns \<open>ReplayDetected\<close> with that same time, whatever calls (reservations clocked
  before \<open>ex\<close>, purges that are dry or whose cut-off lies before \<open>ex\<close>) are made in between.\<close>

theorem accepted_proof_is_replay_until_expiry:
  assumes "InMemoryReplayStore cap = Inr s0"
    and "s1 = snd (run replay_step before_calls s0)"
    and "replay_reserve ns v now ttl s1 = (Inr (ReplayAccepted ex), s2)"
    and "guarded (before ex) replay_step calls s2"
    and "require_aware_utc now' = Inr t" "t < ex" "0 < ttl'"
  shows "fst (replay_reserve ns v now' ttl' (snd (run replay_step calls s2))) = Inr (ReplayDetected ex)"
proof -
  have "replay_inv s1"
    using replay_machine.run_inv [OF replay_initial_inv [OF assms(1)] guarded_True] assms(2) by simp
  note acc = replay_accepts [OF this assms(3)]
  have held: "holds_until ns v ex (snd (run replay_step calls s2))"
    using replay_hold.run_inv acc assms(4) by blast
  then have inv: "replay_inv (snd (run replay_step calls s2))"
    and get: "dict_get (rps_entries (snd (run replay_step calls s2))) (ns, v) = Some ex"
    by (simp_all add: holds_until_def)
  have "dict_get (rps_entries (drop_expired t (snd (run replay_step calls s2)))) (ns, v) = Some ex"
    using get assms(6) by (simp add: drop_expired_get [OF inv])
  with acc assms(5,7) show ?thesis by (simp add: replay_reserve_def Let_def)
qed

theorem accepted_proof_is_replay_until_expiry_witness:
  "fst (replay_reserve ''dpop'' ''jti'' (utc_datetime 50) 10
      (snd (run replay_step
        [Reserve ''dpop'' ''other'' (utc_datetime 40) 5,
         Purge \<lparr>mp_cutoff = 90, mp_batch_size = 10, mp_dry_run = False\<rparr>]
        \<lparr>rps_capacity = 2, rps_entries = [((''dpop'', ''jti''), 100)]\<rparr>))) = Inr (ReplayDetected 100)"
  by (rule accepted_proof_is_replay_until_expiry
        [of 2 "\<lparr>rps_capacity = 2, rps_entries = []\<rparr>" "\<lparr>rps_capacity = 2, rps_entries = []\<rparr>" "[]" "''dpop''" "''jti''" "utc_datetime 0" 100 100 _ _ _ 50])
    (simp_all add: InMemoryReplayStore_def replay_reserve_def drop_expired_def pop_all_def dt_plus_def dt_max_def
      utc_datetime_def require_aware_utc_def Let_def)

lemma replay_harness_passes:
  assumes "InMemoryReplayStore cap = Inr s" and "2 \<le> cap"
    and "require_aware_utc now = Inr t" and "0 \<le> t" and "t + seconds 120 \<le> dt_max"
  shows "fst (replay_exercise replay_reserve now s) = Inr ()"
proof -
  have s: "s = \<lparr>rps_capacity = cap, rps_entries = []\<rparr>"
    using assms(1) by (auto simp: InMemoryReplayStore_def split: if_splits)
  have later: "dt_shift now 60000000 = Inr (now\<lparr>dt_micros := t + 60000000\<rparr>)"
    using assms by (intro dt_shift_in_range) (simp_all add: seconds_def)
  have utc: "require_aware_utc (now\<lparr>dt_micros := t + 60000000\<rparr>) = Inr (t + 60000000)"
    by (rule require_aware_utc_shift [OF assms(3) later])
  show ?thesis
    using assms(2-5) later utc
    by (simp add: s replay_exercise_def replay_reserve_def drop_expired_def pop_all_def dt_plus_def
        sbind_def sassert_def seconds_def Let_def)
qed

end
