(* ===== verification/Utf8.thy ===== *)
theory Utf8
  imports Prelude
begin

text \<open>
  The UTF-8 codec of Python as \<open>src/src/pytitect/wire.py\<close> uses it: \<open>str.encode\<close> and the strict incremental
  decoder.  A string is the list of its code points and a byte string the list of its octets.  Shown: the
  decoder inverts the encoder and accepts only what the encoder produces, and the result does not depend on how
  the bytes are cut into chunks.
\<close>

type_synonym ustring = "nat list"
type_synonym octets = "nat list"

abbreviation UnicodeError :: exn where
  "UnicodeError \<equiv> OtherError ''UnicodeError''"

definition surrogate :: "nat \<Rightarrow> bool" where
  "surrogate c \<longleftrightarrow> 0xD800 \<le> c \<and> c \<le> 0xDFFF"

text \<open>The code points of a Python \<open>str\<close>, and those that UTF-8 can encode.\<close>

definition scalar :: "nat \<Rightarrow> bool" where
  "scalar c \<longleftrightarrow> c < 0x110000 \<and> \<not> surrogate c"

section \<open>Encoder\<close>

definition encode_point :: "nat \<Rightarrow> octets" where
  "encode_point c =
     (if c < 0x80 then [c]
      else if c < 0x800 then [0xC0 + c div 64, 0x80 + c mod 64]
      else if c < 0x10000 then [0xE0 + c div 4096, 0x80 + c div 64 mod 64, 0x80 + c mod 64]
      else [0xF0 + c div 262144, 0x80 + c div 4096 mod 64, 0x80 + c div 64 mod 64, 0x80 + c mod 64])"

definition utf8_text :: "ustring \<Rightarrow> octets" where
  "utf8_text s = concat (map encode_point s)"

definition utf8_encode :: "ustring \<Rightarrow> octets res" where
  "utf8_encode s = (if list_ex surrogate s then Inl UnicodeError else Inr (utf8_text s))"

section \<open>Decoder\<close>

text \<open>
  One code point off the front of the buffer: the point and the rest, \<open>Incomplete\<close> when the buffer is a proper prefix of
  the encoding of some point, \<open>Invalid\<close> otherwise.
\<close>

datatype decode_step = Decoded nat octets | Incomplete | Invalid

definition continuation :: "nat \<Rightarrow> bool" where
  "continuation b \<longleftrightarrow> 0x80 \<le> b \<and> b < 0xC0"

definition second_ok :: "nat \<Rightarrow> nat \<Rightarrow> bool" where
  "second_ok b0 b1 \<longleftrightarrow> continuation b1
     \<and> (b0 = 0xE0 \<longrightarrow> 0xA0 \<le> b1) \<and> (b0 = 0xED \<longrightarrow> b1 < 0xA0)
     \<and> (b0 = 0xF0 \<longrightarrow> 0x90 \<le> b1) \<and> (b0 = 0xF4 \<longrightarrow> b1 < 0x90)"

fun decode_two :: "nat \<Rightarrow> octets \<Rightarrow> decode_step" where
  "decode_two b0 [] = Incomplete"
| "decode_two b0 (b1 # bs) =
     (if second_ok b0 b1 then Decoded ((b0 - 0xC0) * 64 + (b1 - 0x80)) bs else Invalid)"

fun decode_three :: "nat \<Rightarrow> octets \<Rightarrow> decode_step" where
  "decode_three b0 [] = Incomplete"
| "decode_three b0 [b1] = (if second_ok b0 b1 then Incomplete else Invalid)"
| "decode_three b0 (b1 # b2 # bs) =
     (if second_ok b0 b1 \<and> continuation b2
      then Decoded ((b0 - 0xE0) * 4096 + (b1 - 0x80) * 64 + (b2 - 0x80)) bs else Invalid)"

fun decode_four :: "nat \<Rightarrow> octets \<Rightarrow> decode_step" where
  "decode_four b0 [] = Incomplete"
| "decode_four b0 [b1] = (if second_ok b0 b1 then Incomplete else Invalid)"
| "decode_four b0 [b1, b2] = (if second_ok b0 b1 \<and> continuation b2 then Incomplete else Invalid)"
| "decode_four b0 (b1 # b2 # b3 # bs) =
     (if second_ok b0 b1 \<and> continuation b2 \<and> continuation b3
      then Decoded ((b0 - 0xF0) * 262144 + (b1 - 0x80) * 4096 + (b2 - 0x80) * 64 + (b3 - 0x80)) bs
      else Invalid)"

fun decode_point :: "octets \<Rightarrow> decode_step" where
  "decode_point [] = Incomplete"
| "decode_point (b0 # bs) =
     (if b0 < 0x80 then Decoded b0 bs
      else if b0 < 0xC2 then Invalid
      else if b0 < 0xE0 then decode_two b0 bs
      else if b0 < 0xF0 then decode_three b0 bs
      else if b0 < 0xF5 then decode_four b0 bs
      else Invalid)"

lemma sextet_parts:
  fixes a z :: nat
  assumes "z < 64"
  shows "(64 * a + z) div 64 = a" and "(64 * a + z) mod 64 = z"
  using assms by simp_all

lemma three_parts:
  fixes x y z :: nat
  assumes "y < 64" "z < 64" and c: "c = x * 4096 + y * 64 + z"
  shows "c div 4096 = x" "c div 64 mod 64 = y" "c mod 64 = z"
proof -
  have eq: "c = 64 * (64 * x + y) + z" using c by simp
  then have d: "c div 64 = 64 * x + y" using assms(2) sextet_parts(1) [of z] by simp
  show "c mod 64 = z" unfolding eq using assms(2) by (rule sextet_parts)
  show "c div 64 mod 64 = y" unfolding d using assms(1) by (rule sextet_parts)
  have "c div 4096 = c div 64 div 64" by (simp add: div_mult2_eq [symmetric])
  then show "c div 4096 = x" unfolding d using sextet_parts(1) [OF assms(1)] by simp
qed

lemma four_parts:
  fixes x y z w :: nat
  assumes "y < 64" "z < 64" "w < 64" and c: "c = x * 262144 + y * 4096 + z * 64 + w"
  shows "c div 262144 = x" "c div 4096 mod 64 = y" "c div 64 mod 64 = z" "c mod 64 = w"
proof -
  have eq: "c = 64 * (x * 4096 + y * 64 + z) + w" using c by simp
  then have d: "c div 64 = x * 4096 + y * 64 + z" using assms(3) sextet_parts(1) [of w] by simp
  note parts = three_parts [OF assms(1,2) d]
  show "c mod 64 = w" unfolding eq using assms(3) by (rule sextet_parts)
  show "c div 64 mod 64 = z" by (rule parts)
  have "c div 262144 = c div 64 div 4096" "c div 4096 = c div 64 div 64" by (simp_all add: div_mult2_eq [symmetric])
  with parts show "c div 262144 = x" "c div 4096 mod 64 = y" by simp_all
qed

lemma decode_two_Decoded:
  "decode_two b0 bs = Decoded c rest \<Longrightarrow>
     \<exists>b1. bs = b1 # rest \<and> second_ok b0 b1 \<and> c = (b0 - 0xC0) * 64 + (b1 - 0x80)"
  by (cases "(b0, bs)" rule: decode_two.cases) (auto split: if_splits)

lemma decode_three_Decoded:
  "decode_three b0 bs = Decoded c rest \<Longrightarrow>
     \<exists>b1 b2. bs = b1 # b2 # rest \<and> second_ok b0 b1 \<and> continuation b2
       \<and> c = (b0 - 0xE0) * 4096 + (b1 - 0x80) * 64 + (b2 - 0x80)"
  by (cases "(b0, bs)" rule: decode_three.cases) (auto split: if_splits)

lemma decode_four_Decoded:
  "decode_four b0 bs = Decoded c rest \<Longrightarrow>
     \<exists>b1 b2 b3. bs = b1 # b2 # b3 # rest \<and> second_ok b0 b1 \<and> continuation b2 \<and> continuation b3
       \<and> c = (b0 - 0xF0) * 262144 + (b1 - 0x80) * 4096 + (b2 - 0x80) * 64 + (b3 - 0x80)"
  by (cases "(b0, bs)" rule: decode_four.cases) (auto split: if_splits)

lemma decode_point_Decoded:
  assumes "decode_point bs = Decoded c rest"
  shows "bs = encode_point c @ rest \<and> scalar c"
proof -
  consider (one) b0 where "bs = b0 # rest" "b0 < 0x80" "c = b0"
    | (two) b0 b1 where "bs = b0 # b1 # rest" "0xC2 \<le> b0" "b0 < 0xE0" "continuation b1"
        "c = (b0 - 0xC0) * 64 + (b1 - 0x80)"
    | (three) b0 b1 b2 where "bs = b0 # b1 # b2 # rest" "0xE0 \<le> b0" "b0 < 0xF0" "second_ok b0 b1" "continuation b2"
        "c = (b0 - 0xE0) * 4096 + (b1 - 0x80) * 64 + (b2 - 0x80)"
    | (four) b0 b1 b2 b3 where "bs = b0 # b1 # b2 # b3 # rest" "0xF0 \<le> b0" "b0 < 0xF5" "second_ok b0 b1"
        "continuation b2" "continuation b3"
        "c = (b0 - 0xF0) * 262144 + (b1 - 0x80) * 4096 + (b2 - 0x80) * 64 + (b3 - 0x80)"
    using assms
    by (cases bs) (auto split: if_splits dest!: decode_two_Decoded decode_three_Decoded decode_four_Decoded
        simp: second_ok_def)
  then show ?thesis
  proof cases
    case one
    then show ?thesis by (simp add: encode_point_def scalar_def surrogate_def)
  next
    case two
    define x y where "x = b0 - 0xC0" and "y = b1 - 0x80"
    have xy: "b0 = 0xC0 + x" "b1 = 0x80 + y" "y < 64" "2 \<le> x" "x < 32"
      using two by (auto simp: x_def y_def continuation_def)
    then have "c div 64 = x" "c mod 64 = y" "0x80 \<le> c" "c < 0x800" using two(5) by simp_all
    with two(1) xy show ?thesis by (simp add: encode_point_def scalar_def surrogate_def)
  next
    case three
    define x y z where "x = b0 - 0xE0" and "y = b1 - 0x80" and "z = b2 - 0x80"
    have xyz: "b0 = 0xE0 + x" "b1 = 0x80 + y" "b2 = 0x80 + z" "y < 64" "z < 64" "x < 16"
      using three by (auto simp: x_def y_def z_def continuation_def second_ok_def)
    have low: "x = 0 \<Longrightarrow> 32 \<le> y" and sur: "x = 13 \<Longrightarrow> y < 32"
      using three(4) xyz by (auto simp: second_ok_def)
    have c: "c = x * 4096 + y * 64 + z" using three(6) xyz by simp
    note three_parts [OF xyz(4,5) c]
    moreover have "0x800 \<le> c" using c low by (cases "x = 0") auto
    moreover have "c < 0x10000" using c xyz by simp
    moreover have "\<not> surrogate c"
    proof (cases "x = 13")
      case True
      with c sur xyz show ?thesis by (simp add: surrogate_def)
    next
      case False
      then have "x \<le> 12 \<or> 14 \<le> x" by linarith
      with c xyz show ?thesis by (auto simp: surrogate_def)
    qed
    ultimately show ?thesis using three(1) xyz by (simp add: encode_point_def scalar_def)
  next
    case four
    define x y z w where "x = b0 - 0xF0" and "y = b1 - 0x80" and "z = b2 - 0x80" and "w = b3 - 0x80"
    have q: "b0 = 0xF0 + x" "b1 = 0x80 + y" "b2 = 0x80 + z" "b3 = 0x80 + w" "y < 64" "z < 64" "w < 64" "x < 5"
      using four by (auto simp: x_def y_def z_def w_def continuation_def second_ok_def)
    have low: "x = 0 \<Longrightarrow> 16 \<le> y" and high: "x = 4 \<Longrightarrow> y < 16"
      using four(4) q by (auto simp: second_ok_def)
    have c: "c = x * 262144 + y * 4096 + z * 64 + w" using four(7) q by simp
    note four_parts [OF q(5-7) c]
    moreover have "0x10000 \<le> c" using c low by (cases "x = 0") auto
    moreover have "c < 0x110000" using c high q by (cases "x = 4") auto
    ultimately show ?thesis using four(1) q by (simp add: encode_point_def scalar_def surrogate_def)
  qed
qed

text \<open>Reading the encoding of a point off the front, and a proper prefix of it.\<close>

lemma decode_encode_point:
  assumes "scalar c"
  shows "decode_point (encode_point c @ rest) = Decoded c rest"
proof -
  consider "c < 0x80" | "0x80 \<le> c" "c < 0x800" | "0x800 \<le> c" "c < 0x10000" | "0x10000 \<le> c" by linarith
  then show ?thesis
  proof cases
    case 2
    define x y where "x = c div 64" and "y = c mod 64"
    have "2 \<le> x" "x < 32" "y < 64" using 2 by (auto simp: x_def y_def)
    moreover have "x * 64 + y = c" by (simp add: x_def y_def)
    ultimately show ?thesis
      using 2 by (simp add: encode_point_def second_ok_def continuation_def flip: x_def y_def)
  next
    case 3
    define x y z where "x = c div 4096" and "y = c div 64 mod 64" and "z = c mod 64"
    have "c = c div 64 * 64 + z" "c div 64 = c div 64 div 64 * 64 + y" by (simp_all add: y_def z_def)
    moreover have "c div 64 div 64 = x" by (simp add: x_def div_mult2_eq [symmetric])
    ultimately have c: "c = x * 4096 + y * 64 + z" by simp
    have "y < 64" "z < 64" "x < 16" using 3 by (auto simp: x_def y_def z_def)
    moreover have "x = 0 \<Longrightarrow> 32 \<le> y" "x = 13 \<Longrightarrow> y < 32"
      using c 3 assms \<open>z < 64\<close> \<open>y < 64\<close> by (auto simp: scalar_def surrogate_def)
    moreover have "encode_point c = [0xE0 + x, 0x80 + y, 0x80 + z]"
      using 3 by (simp add: encode_point_def x_def y_def z_def)
    ultimately show ?thesis by (simp add: c [symmetric] second_ok_def continuation_def)
  next
    case 4
    define x y z w where "x = c div 262144" and "y = c div 4096 mod 64" and "z = c div 64 mod 64" and "w = c mod 64"
    have "c = c div 64 * 64 + w" "c div 64 = c div 64 div 64 * 64 + z" "c div 4096 = c div 4096 div 64 * 64 + y"
      by (simp_all add: y_def z_def w_def)
    moreover have "c div 64 div 64 = c div 4096" "c div 4096 div 64 = c div 262144"
      by (simp_all add: div_mult2_eq [symmetric])
    ultimately have "c = c div 64 * 64 + w" "c div 64 = c div 4096 * 64 + z" "c div 4096 = c div 262144 * 64 + y"
      by simp_all
    then have c: "c = x * 262144 + y * 4096 + z * 64 + w" by (simp add: x_def)
    have lt: "y < 64" "z < 64" "w < 64" by (simp_all add: y_def z_def w_def)
    have "x \<le> 4" using assms by (auto simp: x_def scalar_def)
    moreover have "x = 0 \<Longrightarrow> 16 \<le> y" "x = 4 \<Longrightarrow> y < 16" using c 4 assms lt by (auto simp: scalar_def)
    moreover have "encode_point c = [0xF0 + x, 0x80 + y, 0x80 + z, 0x80 + w]"
      using 4 by (simp add: encode_point_def x_def y_def z_def w_def)
    ultimately show ?thesis using lt by (simp add: c [symmetric] second_ok_def continuation_def)
  qed (simp add: encode_point_def)
qed

lemma decode_prefix_point:
  assumes "scalar c" and "encode_point c = p @ q" and "q \<noteq> []"
  shows "decode_point p = Incomplete"
proof (cases "decode_point p")
  case (Decoded c' rest)
  have "decode_point (encode_point c) = Decoded c []" using decode_encode_point [OF assms(1), of "[]"] by simp
  moreover have "decode_point (p @ q) = Decoded c' (rest @ q)"
  proof -
    have "p = encode_point c' @ rest" "scalar c'" using decode_point_Decoded [OF Decoded] by auto
    then show ?thesis using decode_encode_point [of c' "rest @ q"] by simp
  qed
  ultimately show ?thesis using assms(2,3) by simp
next
  case Invalid
  have "decode_point (encode_point c) = Decoded c []" using decode_encode_point [OF assms(1), of "[]"] by simp
  moreover have "decode_point (p @ q) = Invalid"
  proof (cases p)
    case Nil
    with Invalid show ?thesis by simp
  next
    case (Cons b bs)
    have "decode_two b bs = Invalid \<Longrightarrow> decode_two b (bs @ q) = Invalid"
      by (cases "(b, bs)" rule: decode_two.cases) auto
    moreover have "decode_three b bs = Invalid \<Longrightarrow> decode_three b (bs @ q) = Invalid"
      by (cases "(b, bs)" rule: decode_three.cases; cases q) (auto split: if_splits)
    moreover have "decode_four b bs = Invalid \<Longrightarrow> decode_four b (bs @ q) = Invalid"
      by (cases "(b, bs)" rule: decode_four.cases; cases q rule: list.exhaust; cases "tl q") (auto split: if_splits)
    ultimately show ?thesis using Invalid Cons by (auto split: if_splits)
  qed
  ultimately show ?thesis using assms(2) by simp
qed

section \<open>The incremental decoder\<close>

text \<open>
  \<open>decode(input)\<close> works on the bytes that the call before left over followed by \<open>input\<close>: it returns the complete code
  points and keeps an incomplete rest, or raises \<open>UnicodeDecodeError\<close> and returns nothing.
\<close>

function decode_buffer :: "octets \<Rightarrow> (ustring \<times> octets) res" where
  "decode_buffer bs =
     (if bs = [] then Inr ([], [])
      else case decode_point bs of
        Decoded c rest \<Rightarrow> and_then (decode_buffer rest) (\<lambda>(cs, left). Inr (c # cs, left))
      | Incomplete \<Rightarrow> Inr ([], bs)
      | Invalid \<Rightarrow> Inl UnicodeError)"
  by pat_completeness auto
termination
proof (relation "measure length")
  fix bs c rest
  assume "decode_point bs = Decoded c rest"
  then have "bs = encode_point c @ rest" by (simp add: decode_point_Decoded)
  then show "(rest, bs) \<in> measure length" by (simp add: encode_point_def)
qed simp

declare decode_buffer.simps [simp del]

lemma utf8_text_simps [simp]:
  "utf8_text [] = []"
  "utf8_text (c # s) = encode_point c @ utf8_text s"
  "utf8_text (s @ s') = utf8_text s @ utf8_text s'"
  by (simp_all add: utf8_text_def)

lemma encode_point_not_Nil [simp]: "encode_point c \<noteq> []"
  by (simp add: encode_point_def)

lemma decode_buffer_sound:
  "decode_buffer bs = Inr (s, left) \<Longrightarrow> bs = utf8_text s @ left \<and> list_all scalar s"
proof (induction bs arbitrary: s rule: decode_buffer.induct)
  case (1 bs)
  show ?case
  proof (cases "bs = []")
    case True
    with 1(2) show ?thesis by (simp add: decode_buffer.simps)
  next
    case False
    show ?thesis
    proof (cases "decode_point bs")
      case (Decoded c rest)
      with 1(2) False obtain s' where rec: "decode_buffer rest = Inr (s', left)" "s = c # s'"
        by (subst (asm) decode_buffer.simps) (auto simp: and_then_eq_Inr)
      with 1(1) [OF False Decoded] decode_point_Decoded [OF Decoded] show ?thesis by simp
    next
      case Incomplete
      with 1(2) False show ?thesis by (subst (asm) decode_buffer.simps) simp
    next
      case Invalid
      with 1(2) False show ?thesis by (subst (asm) decode_buffer.simps) simp
    qed
  qed
qed

lemma decode_buffer_left: "decode_buffer bs = Inr (s, left) \<Longrightarrow> decode_buffer left = Inr ([], left)"
proof (induction bs arbitrary: s rule: decode_buffer.induct)
  case (1 bs)
  show ?case
  proof (cases "bs = []")
    case True
    with 1(2) show ?thesis by (simp add: decode_buffer.simps)
  next
    case False
    show ?thesis
    proof (cases "decode_point bs")
      case (Decoded c rest)
      with 1(2) False obtain s' where "decode_buffer rest = Inr (s', left)"
        by (subst (asm) decode_buffer.simps) (auto simp: and_then_eq_Inr)
      with 1(1) [OF False Decoded] show ?thesis by simp
    next
      case Incomplete
      with 1(2) False have "left = bs" by (subst (asm) decode_buffer.simps) simp
      with False Incomplete show ?thesis by (simp add: decode_buffer.simps [of bs])
    next
      case Invalid
      with 1(2) False show ?thesis by (subst (asm) decode_buffer.simps) simp
    qed
  qed
qed

lemma length_utf8_text: "length s \<le> length (utf8_text s)"
  by (induction s) (auto simp: encode_point_def)

text \<open>On a prefix of the encoding of a text the decoder returns the points it has seen completely.\<close>

lemma decode_buffer_prefix:
  assumes "list_all scalar s" and "utf8_text s = p @ q"
  shows "\<exists>s1 s2 left. s = s1 @ s2 \<and> decode_buffer p = Inr (s1, left) \<and> left @ q = utf8_text s2"
  using assms
proof (induction s arbitrary: p)
  case Nil
  then show ?case by (simp add: decode_buffer.simps)
next
  case (Cons c s)
  have c: "scalar c" and s: "list_all scalar s" using Cons.prems(1) by simp_all
  from Cons.prems(2) have eq: "encode_point c @ utf8_text s = p @ q" by simp
  then consider (whole) us where "p = encode_point c @ us" "utf8_text s = us @ q"
    | (part) us where "encode_point c = p @ us" "us \<noteq> []" "q = us @ utf8_text s"
    by (metis append_Nil2 append_eq_append_conv2 self_append_conv2)
  then show ?case
  proof cases
    case whole
    from Cons.IH [OF s whole(2)] obtain s1 s2 left where rec:
      "s = s1 @ s2" "decode_buffer us = Inr (s1, left)" "left @ q = utf8_text s2" by blast
    have "decode_buffer p = Inr (c # s1, left)"
      using rec(2) decode_encode_point [OF c, of us] by (subst decode_buffer.simps) (simp add: whole(1))
    with rec show ?thesis by (intro exI [of _ "c # s1"] exI [of _ s2] exI [of _ left]) simp
  next
    case part
    have "decode_buffer p = Inr ([], p)"
      using decode_prefix_point [OF c part(1,2)] by (subst decode_buffer.simps) simp
    with part show ?thesis by (intro exI [of _ "[]"] exI [of _ "c # s"] exI [of _ p]) simp
  qed
qed

lemma decode_buffer_text:
  "list_all scalar s \<Longrightarrow> decode_buffer (utf8_text s) = Inr (s, [])"
proof (induction s)
  case (Cons c s)
  then show ?case
    using decode_encode_point [of c "utf8_text s"] by (subst decode_buffer.simps) simp
qed (simp add: decode_buffer.simps)

text \<open>Decoded bytes are exactly the encodings of texts of scalar values.\<close>

lemma decode_buffer_complete_iff:
  "decode_buffer bs = Inr (s, []) \<longleftrightarrow> list_all scalar s \<and> bs = utf8_text s"
  using decode_buffer_sound [of bs s "[]"] decode_buffer_text [of s] by auto

end
