(* ===== verification/Wire.thy ===== *)
theory Wire
  imports Core Utf8
begin

text \<open>
  Model of \<open>src/src/pytitect/wire.py\<close>: JSON documents whose numbers keep their exact tokens, with a
  bounded incremental parser and a deterministic encoder.  Strings are lists of code points.  A mapping
  is a list of (key, value) pairs with distinct keys, in insertion order.
\<close>

section \<open>Errors\<close>

abbreviation WireSyntaxError :: exn where
  "WireSyntaxError \<equiv> OtherError ''syntax''"

abbreviation WireLimitError :: exn where
  "WireLimitError \<equiv> OtherError ''limits''"

abbreviation WirePrecisionError :: exn where
  "WirePrecisionError \<equiv> OtherError ''precision''"

section \<open>Characters\<close>

abbreviation QUOTE :: nat where "QUOTE \<equiv> 34"
abbreviation PLUS :: nat where "PLUS \<equiv> 43"
abbreviation COMMA :: nat where "COMMA \<equiv> 44"
abbreviation MINUS :: nat where "MINUS \<equiv> 45"
abbreviation DOT :: nat where "DOT \<equiv> 46"
abbreviation SLASH :: nat where "SLASH \<equiv> 47"
abbreviation ZERO :: nat where "ZERO \<equiv> 48"
abbreviation COLON :: nat where "COLON \<equiv> 58"
abbreviation LBRACKET :: nat where "LBRACKET \<equiv> 91"
abbreviation BACKSLASH :: nat where "BACKSLASH \<equiv> 92"
abbreviation RBRACKET :: nat where "RBRACKET \<equiv> 93"
abbreviation LBRACE :: nat where "LBRACE \<equiv> 123"
abbreviation RBRACE :: nat where "RBRACE \<equiv> 125"

definition is_digit :: "nat \<Rightarrow> bool" where
  "is_digit c \<longleftrightarrow> 48 \<le> c \<and> c \<le> 57"

section \<open>Exact numbers\<close>

text \<open>The regular expressions \<open>_NUMBER\<close> and \<open>_INTEGER\<close>, read from left to right.\<close>

definition drop_minus :: "ustring \<Rightarrow> ustring" where
  "drop_minus t = (case t of [] \<Rightarrow> [] | c # r \<Rightarrow> if c = MINUS then r else t)"

definition digits1 :: "ustring \<Rightarrow> bool" where
  "digits1 t \<longleftrightarrow> t \<noteq> [] \<and> list_all is_digit t"

fun match_exponent :: "ustring \<Rightarrow> bool" where
  "match_exponent [] = True"
| "match_exponent (c # r) =
     (c \<in> {69, 101} \<and> digits1 (case r of [] \<Rightarrow> [] | s # r' \<Rightarrow> if s = PLUS \<or> s = MINUS then r' else r))"

fun match_fraction :: "ustring \<Rightarrow> bool" where
  "match_fraction [] = True"
| "match_fraction (c # r) =
     (if c = DOT then takeWhile is_digit r \<noteq> [] \<and> match_exponent (dropWhile is_digit r)
      else match_exponent (c # r))"

fun match_unsigned :: "ustring \<Rightarrow> bool" where
  "match_unsigned [] = False"
| "match_unsigned (c # r) =
     (if c = ZERO then match_fraction r else is_digit c \<and> match_fraction (dropWhile is_digit r))"

definition match_number :: "ustring \<Rightarrow> bool" where
  "match_number t = match_unsigned (drop_minus t)"

definition match_integer :: "ustring \<Rightarrow> bool" where
  "match_integer t =
     (case drop_minus t of
        [] \<Rightarrow> False
      | c # r \<Rightarrow> if c = ZERO then r = [] else is_digit c \<and> list_all is_digit r)"

datatype exact_number = ExactNumber (token: ustring)

definition mk_exact_number :: "ustring \<Rightarrow> exact_number res" where
  "mk_exact_number t = (if match_number t then Inr (ExactNumber t) else Inl WireSyntaxError)"

text \<open>\<open>int(chunk)\<close> of a short digit string, and the loop over chunks of nine digits.\<close>

definition int_of_digits :: "ustring \<Rightarrow> int" where
  "int_of_digits ds = foldl (\<lambda>n d. n * 10 + (int d - 48)) 0 ds"

function int_of_chunks :: "int \<Rightarrow> ustring \<Rightarrow> int" where
  "int_of_chunks acc ds =
     (if ds = [] then acc
      else int_of_chunks (acc * 10 ^ length (take 9 ds) + int_of_digits (take 9 ds)) (drop 9 ds))"
  by pat_completeness auto
termination by (relation "measure (\<lambda>(acc, ds). length ds)") simp_all

declare int_of_chunks.simps [simp del]

definition to_int :: "exact_number \<Rightarrow> int res" where
  "to_int x =
     (if \<not> match_integer (token x) then Inl WirePrecisionError
      else Inr (if take 1 (token x) = [MINUS] then - int_of_chunks 0 (drop_minus (token x))
                else int_of_chunks 0 (drop_minus (token x))))"

text \<open>\<open>_integer_token\<close>: decimal chunks of nine digits, the least significant first.\<close>

fun digit_points :: "nat \<Rightarrow> ustring" where
  "digit_points n = (if n < 10 then [48 + n] else digit_points (n div 10) @ [48 + n mod 10])"

declare digit_points.simps [simp del]

definition nine_digits :: "nat \<Rightarrow> ustring" where
  "nine_digits n = replicate (9 - length (digit_points n)) ZERO @ digit_points n"

fun billion_chunks :: "nat \<Rightarrow> nat list" where
  "billion_chunks n = (if n = 0 then [] else n mod 1000000000 # billion_chunks (n div 1000000000))"

declare billion_chunks.simps [simp del]

definition integer_token :: "int \<Rightarrow> ustring" where
  "integer_token v =
     (if v = 0 then [ZERO]
      else let chunks = billion_chunks (nat \<bar>v\<bar>) in
        (if v < 0 then [MINUS] else []) @ digit_points (last chunks)
          @ concat (map nine_digits (rev (butlast chunks))))"

section \<open>Values\<close>

datatype exact =
    XNull
  | XBool bool
  | XStr ustring
  | XNumber exact_number
  | XTuple "exact list"
  | XMap "(ustring \<times> exact) list"

definition string_limit :: "limits \<Rightarrow> ustring \<Rightarrow> unit res" where
  "string_limit lim s =
     (if max_string_length lim < int (length s) then Inl WireLimitError
      else if list_ex surrogate s then Inl WireSyntaxError
      else Inr ())"

definition charge :: "limits \<Rightarrow> int \<Rightarrow> int \<Rightarrow> int res" where
  "charge lim depth count =
     (if max_json_items lim < count + 1 \<or> max_json_depth lim < depth then Inl WireLimitError
      else Inr (count + 1))"

text \<open>\<open>_freeze\<close>: the copy and the number of values counted so far.\<close>

fun freeze :: "limits \<Rightarrow> exact \<Rightarrow> int \<Rightarrow> int \<Rightarrow> (exact \<times> int) res"
  and freeze_all :: "limits \<Rightarrow> exact list \<Rightarrow> int \<Rightarrow> int \<Rightarrow> (exact list \<times> int) res"
  and freeze_items :: "limits \<Rightarrow> (ustring \<times> exact) list \<Rightarrow> int \<Rightarrow> int \<Rightarrow> (ustring, exact) dict
     \<Rightarrow> ((ustring, exact) dict \<times> int) res" where
  "freeze lim XNull depth count = and_then (charge lim depth count) (\<lambda>c. Inr (XNull, c))"
| "freeze lim (XBool b) depth count = and_then (charge lim depth count) (\<lambda>c. Inr (XBool b, c))"
| "freeze lim (XNumber x) depth count = and_then (charge lim depth count) (\<lambda>c. Inr (XNumber x, c))"
| "freeze lim (XStr s) depth count =
     and_then (charge lim depth count) (\<lambda>c. and_then (string_limit lim s) (\<lambda>_. Inr (XStr s, c)))"
| "freeze lim (XTuple xs) depth count =
     and_then (charge lim depth count) (\<lambda>c.
     and_then (freeze_all lim xs (depth + 1) c) (\<lambda>(ys, c'). Inr (XTuple ys, c')))"
| "freeze lim (XMap kvs) depth count =
     and_then (charge lim depth count) (\<lambda>c.
     and_then (freeze_items lim kvs (depth + 1) c []) (\<lambda>(m, c'). Inr (XMap m, c')))"
| "freeze_all lim [] depth count = Inr ([], count)"
| "freeze_all lim (x # xs) depth count =
     and_then (freeze lim x depth count) (\<lambda>(y, c).
     and_then (freeze_all lim xs depth c) (\<lambda>(ys, c'). Inr (y # ys, c')))"
| "freeze_items lim [] depth count m = Inr (m, count)"
| "freeze_items lim ((k, v) # kvs) depth count m =
     and_then (string_limit lim k) (\<lambda>_.
     and_then (freeze lim v depth count) (\<lambda>(v', c).
     freeze_items lim kvs depth c (dict_set k v' m)))"

section \<open>Encoder\<close>

text \<open>\<open>json.dumps(s, ensure_ascii=False)\<close> of a string.\<close>

definition hex_digit :: "nat \<Rightarrow> nat" where
  "hex_digit d = (if d < 10 then 48 + d else 87 + d)"

definition escape_char :: "nat \<Rightarrow> ustring" where
  "escape_char c =
     (if c = QUOTE \<or> c = BACKSLASH then [BACKSLASH, c]
      else if c = 8 then [BACKSLASH, 98]
      else if c = 12 then [BACKSLASH, 102]
      else if c = 10 then [BACKSLASH, 110]
      else if c = 13 then [BACKSLASH, 114]
      else if c = 9 then [BACKSLASH, 116]
      else if c < 0x20 then [BACKSLASH, 117, ZERO, ZERO, hex_digit (c div 16), hex_digit (c mod 16)]
      else [c])"

definition dumps_string :: "ustring \<Rightarrow> ustring" where
  "dumps_string s = QUOTE # concat (map escape_char s) @ [QUOTE]"

fun comma_separated :: "ustring list list \<Rightarrow> ustring list" where
  "comma_separated [] = []"
| "comma_separated [ps] = ps"
| "comma_separated (ps # qs) = ps @ [[COMMA]] @ comma_separated qs"

fun pieces :: "exact \<Rightarrow> ustring list" where
  "pieces XNull = [[110, 117, 108, 108]]"
| "pieces (XBool b) = [if b then [116, 114, 117, 101] else [102, 97, 108, 115, 101]]"
| "pieces (XNumber x) = [token x]"
| "pieces (XStr s) = [dumps_string s]"
| "pieces (XTuple xs) = [[LBRACKET]] @ comma_separated (map pieces xs) @ [[RBRACKET]]"
| "pieces (XMap kvs) =
     [[LBRACE]]
     @ comma_separated (map (\<lambda>(k, ps). dumps_string k # [COLON] # ps)
         (sort_key fst (map (\<lambda>(k, v). (k, pieces v)) kvs)))
     @ [[RBRACE]]"

fun encode_pieces :: "limits \<Rightarrow> octets \<Rightarrow> ustring list \<Rightarrow> octets res" where
  "encode_pieces lim out [] = Inr out"
| "encode_pieces lim out (p # ps) =
     (if max_body_bytes lim - int (length out) < int (length p) then Inl WireLimitError
      else and_then (utf8_encode p) (\<lambda>encoded.
        if max_body_bytes lim - int (length out) < int (length encoded) then Inl WireLimitError
        else encode_pieces lim (out @ encoded) ps))"

record wire_document =
  wd_value :: exact
  wd_limits :: limits

definition encode :: "wire_document \<Rightarrow> octets res" where
  "encode d = encode_pieces (wd_limits d) [] (pieces (wd_value d))"

definition WireDocument :: "exact \<Rightarrow> limits \<Rightarrow> wire_document res" where
  "WireDocument v lim =
     and_then (freeze lim v 0 0) (\<lambda>(frozen, c).
     let d = \<lparr>wd_value = frozen, wd_limits = lim\<rparr> in
     and_then (encode d) (\<lambda>_. Inr d))"

section \<open>Parser\<close>

text \<open>
  The parser pulls characters from a generator that ends normally or raises when it decodes or
  counts the next chunk; its input is therefore the characters that can be pulled and the exception, if any, that
  ends them.
\<close>

fun decode_chunks :: "int \<Rightarrow> int \<Rightarrow> octets \<Rightarrow> octets list \<Rightarrow> ustring \<times> exn option" where
  "decode_chunks maximum consumed buffer [] = ([], if buffer = [] then None else Some UnicodeError)"
| "decode_chunks maximum consumed buffer (chunk # chunks) =
     (if maximum < consumed + int (length chunk) then ([], Some WireLimitError)
      else case decode_buffer (buffer @ chunk) of
        Inl e \<Rightarrow> ([], Some e)
      | Inr (cs, buffer') \<Rightarrow> apfst (append cs) (decode_chunks maximum (consumed + int (length chunk)) buffer' chunks))"

definition peek :: "exn option \<Rightarrow> ustring \<Rightarrow> nat option res" where
  "peek en cs =
     (case cs of
        c # _ \<Rightarrow> Inr (Some c)
      | [] \<Rightarrow> (case en of None \<Rightarrow> Inr None | Some e \<Rightarrow> Inl e))"

definition take_char :: "exn option \<Rightarrow> ustring \<Rightarrow> (nat option \<times> ustring) res" where
  "take_char en cs = and_then (peek en cs) (\<lambda>c. Inr (c, tl cs))"

definition is_blank :: "nat \<Rightarrow> bool" where
  "is_blank c \<longleftrightarrow> c \<in> {32, 9, 13, 10}"

definition whitespace :: "exn option \<Rightarrow> ustring \<Rightarrow> ustring res" where
  "whitespace en cs = (let rest = dropWhile is_blank cs in and_then (peek en rest) (\<lambda>_. Inr rest))"

definition require :: "exn option \<Rightarrow> nat \<Rightarrow> ustring \<Rightarrow> ustring res" where
  "require en expected cs =
     and_then (take_char en cs) (\<lambda>(c, rest). if c = Some expected then Inr rest else Inl WireSyntaxError)"

fun require_all :: "exn option \<Rightarrow> ustring \<Rightarrow> ustring \<Rightarrow> ustring res" where
  "require_all en [] cs = Inr cs"
| "require_all en (x # xs) cs = and_then (require en x cs) (\<lambda>rest. require_all en xs rest)"

definition hex_value :: "nat \<Rightarrow> nat option" where
  "hex_value c =
     (if 48 \<le> c \<and> c \<le> 57 then Some (c - 48)
      else if 97 \<le> c \<and> c \<le> 102 then Some (c - 87)
      else if 65 \<le> c \<and> c \<le> 70 then Some (c - 55)
      else None)"

text \<open>Four characters are taken before any of them is looked at.\<close>

definition hex_quad :: "exn option \<Rightarrow> ustring \<Rightarrow> (nat \<times> ustring) res" where
  "hex_quad en cs =
     (if length cs < 4 then (case en of None \<Rightarrow> Inl WireSyntaxError | Some e \<Rightarrow> Inl e)
      else case map hex_value (take 4 cs) of
        [Some a, Some b, Some c, Some d] \<Rightarrow> Inr (((a * 16 + b) * 16 + c) * 16 + d, drop 4 cs)
      | _ \<Rightarrow> Inl WireSyntaxError)"

definition simple_escape :: "nat \<Rightarrow> nat option" where
  "simple_escape c =
     (if c = QUOTE \<or> c = BACKSLASH \<or> c = SLASH then Some c
      else if c = 98 then Some 8
      else if c = 102 then Some 12
      else if c = 110 then Some 10
      else if c = 114 then Some 13
      else if c = 116 then Some 9
      else None)"

definition unicode_escape :: "exn option \<Rightarrow> ustring \<Rightarrow> (nat \<times> ustring) res" where
  "unicode_escape en cs =
     and_then (hex_quad en cs) (\<lambda>(code, cs1).
       if 0xD800 \<le> code \<and> code \<le> 0xDBFF then
         and_then (require en BACKSLASH cs1) (\<lambda>cs2.
         and_then (require en 117 cs2) (\<lambda>cs3.
         and_then (hex_quad en cs3) (\<lambda>(low, cs4).
           if \<not> (0xDC00 \<le> low \<and> low \<le> 0xDFFF) then Inl WireSyntaxError
           else Inr (0x10000 + (code - 0xD800) * 1024 + low - 0xDC00, cs4))))
       else if 0xDC00 \<le> code \<and> code \<le> 0xDFFF then Inl WireSyntaxError
       else Inr (code, cs1))"

definition escape_sequence :: "exn option \<Rightarrow> ustring \<Rightarrow> (nat \<times> ustring) res" where
  "escape_sequence en cs =
     and_then (take_char en cs) (\<lambda>(escape, cs1).
       case escape of
         None \<Rightarrow> Inl WireSyntaxError
       | Some e \<Rightarrow>
           if e = 117 then unicode_escape en cs1
           else case simple_escape e of Some c \<Rightarrow> Inr (c, cs1) | None \<Rightarrow> Inl WireSyntaxError)"

lemma take_char_rest: "take_char en cs = Inr (c, rest) \<Longrightarrow> rest = tl cs"
  by (auto simp: take_char_def and_then_eq_Inr)

lemma require_eq_Inr [simp]: "require en x cs = Inr rest \<longleftrightarrow> cs = x # rest"
  by (auto simp: require_def take_char_def and_then_eq_Inr peek_def split: list.splits option.splits if_splits)

lemma hex_quad_rest: "hex_quad en cs = Inr (n, rest) \<Longrightarrow> rest = drop 4 cs"
  by (auto simp: hex_quad_def split: if_splits list.splits option.splits)

lemma unicode_escape_rest: "unicode_escape en cs = Inr (n, rest) \<Longrightarrow> length rest \<le> length cs"
  by (auto simp: unicode_escape_def and_then_eq_Inr split: if_splits dest!: hex_quad_rest)
    (auto simp: Suc_le_eq dest: arg_cong [where f = length])

lemma escape_sequence_rest: "escape_sequence en cs = Inr (n, rest) \<Longrightarrow> length rest \<le> length cs"
  by (cases cs; cases en) (auto simp: escape_sequence_def take_char_def peek_def
      split: option.splits if_splits dest!: unicode_escape_rest)

text \<open>The loop of \<open>string\<close> after the opening quote; \<open>acc\<close> are the characters read so far.\<close>

function string_loop :: "limits \<Rightarrow> exn option \<Rightarrow> ustring \<Rightarrow> ustring \<Rightarrow> (ustring \<times> ustring) res" where
  "string_loop lim en acc [] = (case en of None \<Rightarrow> Inl WireSyntaxError | Some e \<Rightarrow> Inl e)"
| "string_loop lim en acc (c # cs) =
     (if c = QUOTE then Inr (acc, cs)
      else if c < 0x20 then Inl WireSyntaxError
      else case (if c = BACKSLASH then escape_sequence en cs else Inr (c, cs)) of
        Inl e \<Rightarrow> Inl e
      | Inr (c', rest) \<Rightarrow>
          if max_string_length lim \<le> int (length acc) then Inl WireLimitError
          else string_loop lim en (acc @ [c']) rest)"
  by pat_completeness auto
termination
  by (relation "measure (\<lambda>(lim, en, acc, cs). length cs)")
    (auto split: if_splits dest: escape_sequence_rest)

definition parse_string :: "limits \<Rightarrow> exn option \<Rightarrow> ustring \<Rightarrow> (ustring \<times> ustring) res" where
  "parse_string lim en cs = and_then (require en QUOTE cs) (\<lambda>rest. string_loop lim en [] rest)"

definition number_char :: "nat \<Rightarrow> bool" where
  "number_char c \<longleftrightarrow> is_digit c \<or> c \<in> {MINUS, PLUS, DOT, 69, 101}"

definition parse_number :: "exn option \<Rightarrow> ustring \<Rightarrow> (exact_number \<times> ustring) res" where
  "parse_number en cs =
     and_then (peek en (dropWhile number_char cs)) (\<lambda>_.
     and_then (mk_exact_number (takeWhile number_char cs)) (\<lambda>x. Inr (x, dropWhile number_char cs)))"

definition parse_scalar :: "limits \<Rightarrow> exn option \<Rightarrow> ustring \<Rightarrow> (exact \<times> ustring) res" where
  "parse_scalar lim en cs =
     and_then (peek en cs) (\<lambda>first.
       if first = Some QUOTE then and_then (parse_string lim en cs) (\<lambda>(s, rest). Inr (XStr s, rest))
       else if first = Some 110 then and_then (require_all en [110, 117, 108, 108] cs) (\<lambda>rest. Inr (XNull, rest))
       else if first = Some 116 then and_then (require_all en [116, 114, 117, 101] cs) (\<lambda>rest. Inr (XBool True, rest))
       else if first = Some 102 then
         and_then (require_all en [102, 97, 108, 115, 101] cs) (\<lambda>rest. Inr (XBool False, rest))
       else case first of
         None \<Rightarrow> Inl WireSyntaxError
       | Some c \<Rightarrow>
           if c = MINUS \<or> is_digit c then and_then (parse_number en cs) (\<lambda>(x, rest). Inr (XNumber x, rest))
           else Inl WireSyntaxError)"

lemma and_then_cong [fundef_cong]:
  "r = r' \<Longrightarrow> (\<And>x. r' = Inr x \<Longrightarrow> f x = g x) \<Longrightarrow> and_then r f = and_then r' g"
  by (cases r') simp_all

function parse_value :: "limits \<Rightarrow> exn option \<Rightarrow> int \<Rightarrow> int \<Rightarrow> ustring \<Rightarrow> (exact \<times> int \<times> ustring) res"
  and parse_items :: "limits \<Rightarrow> exn option \<Rightarrow> int \<Rightarrow> int \<Rightarrow> exact list \<Rightarrow> ustring \<Rightarrow> (exact list \<times> int \<times> ustring) res"
  and parse_members :: "limits \<Rightarrow> exn option \<Rightarrow> int \<Rightarrow> int \<Rightarrow> (ustring, exact) dict \<Rightarrow> ustring
     \<Rightarrow> ((ustring, exact) dict \<times> int \<times> ustring) res" where
  "parse_value lim en depth count cs =
     and_then (charge lim depth count) (\<lambda>count1.
     and_then (whitespace en cs) (\<lambda>cs1.
     and_then (peek en cs1) (\<lambda>first.
       if first = Some LBRACE then
         and_then (whitespace en (tl cs1)) (\<lambda>cs2.
         and_then (peek en cs2) (\<lambda>inner.
         and_then (if inner \<noteq> Some RBRACE then parse_members lim en (depth + 1) count1 [] cs2
                   else Inr ([], count1, cs2)) (\<lambda>(mapping, count2, cs3).
         and_then (require en RBRACE cs3) (\<lambda>cs4. Inr (XMap mapping, count2, cs4)))))
       else if first = Some LBRACKET then
         and_then (whitespace en (tl cs1)) (\<lambda>cs2.
         and_then (peek en cs2) (\<lambda>inner.
         and_then (if inner \<noteq> Some RBRACKET then parse_items lim en (depth + 1) count1 [] cs2
                   else Inr ([], count1, cs2)) (\<lambda>(xs, count2, cs3).
         and_then (require en RBRACKET cs3) (\<lambda>cs4. Inr (XTuple xs, count2, cs4)))))
       else and_then (parse_scalar lim en cs1) (\<lambda>(v, cs2). Inr (v, count1, cs2)))))"
| "parse_items lim en depth count acc cs =
     and_then (parse_value lim en depth count cs) (\<lambda>(v, count1, cs1).
     and_then (whitespace en cs1) (\<lambda>cs2.
     and_then (peek en cs2) (\<lambda>after.
       if after = Some RBRACKET then Inr (acc @ [v], count1, cs2)
       else
         and_then (require en COMMA cs2) (\<lambda>cs3.
         and_then (whitespace en cs3) (\<lambda>cs4.
         parse_items lim en depth count1 (acc @ [v]) cs4)))))"
| "parse_members lim en depth count acc cs =
     and_then (parse_string lim en cs) (\<lambda>(key, cs1).
     and_then (whitespace en cs1) (\<lambda>cs2.
     and_then (require en COLON cs2) (\<lambda>cs3.
     and_then (parse_value lim en depth count cs3) (\<lambda>(v, count1, cs4).
     and_then (whitespace en cs4) (\<lambda>cs5.
     and_then (peek en cs5) (\<lambda>after.
       if after = Some RBRACE then Inr (dict_set key v acc, count1, cs5)
       else
         and_then (require en COMMA cs5) (\<lambda>cs6.
         and_then (whitespace en cs6) (\<lambda>cs7.
         parse_members lim en depth count1 (dict_set key v acc) cs7))))))))"
  by pat_completeness auto

lemma whitespace_eq_Inr: "whitespace en cs = Inr rest \<Longrightarrow> rest = dropWhile is_blank cs"
  by (auto simp: whitespace_def and_then_eq_Inr Let_def)

lemma whitespace_rest: "whitespace en cs = Inr rest \<Longrightarrow> length rest \<le> length cs"
  by (auto dest!: whitespace_eq_Inr intro: length_dropWhile_le)

lemma string_loop_rest: "string_loop lim en acc cs = Inr (s, rest) \<Longrightarrow> length rest < length cs"
proof (induction lim en acc cs rule: string_loop.induct)
  case (2 lim en acc c cs)
  show ?case
  proof (cases "c = QUOTE \<or> c < 0x20")
    case True
    with 2(2) show ?thesis by auto
  next
    case False
    with 2(2) obtain c' cs' where step: "(if c = BACKSLASH then escape_sequence en cs else Inr (c, cs)) = Inr (c', cs')"
      and lim: "\<not> max_string_length lim \<le> int (length acc)" and rec: "string_loop lim en (acc @ [c']) cs' = Inr (s, rest)"
      by (auto split: sum.splits if_splits)
    have "length cs' \<le> length cs" using step by (auto split: if_splits dest: escape_sequence_rest)
    moreover have "length rest < length cs'" using 2(1) [OF _ _ step refl lim rec] False by simp
    ultimately show ?thesis by simp
  qed
qed (auto split: option.splits)

lemma parse_string_rest: "parse_string lim en cs = Inr (s, rest) \<Longrightarrow> length rest < length cs"
  by (auto simp: parse_string_def and_then_eq_Inr dest!: string_loop_rest)

lemma require_all_rest: "require_all en xs cs = Inr rest \<Longrightarrow> cs = xs @ rest"
  by (induction xs arbitrary: cs) (auto simp: and_then_eq_Inr)

lemma parse_scalar_rest: "parse_scalar lim en cs = Inr (v, rest) \<Longrightarrow> length rest \<le> length cs"
  by (auto simp: parse_scalar_def parse_number_def and_then_eq_Inr length_dropWhile_le
      simp del: require_all.simps split: option.splits if_splits dest!: require_all_rest parse_string_rest)

lemmas rest_bounds = whitespace_rest parse_string_rest parse_scalar_rest

lemma parse_rest_partial:
  "parse_value_parse_items_parse_members_dom (Inl (lim, en, depth, count, cs)) \<Longrightarrow>
     parse_value lim en depth count cs = Inr (v, n, rest) \<Longrightarrow> length rest \<le> length cs"
  "parse_value_parse_items_parse_members_dom (Inr (Inl (lim, en, depth, count, acc, cs))) \<Longrightarrow>
     parse_items lim en depth count acc cs = Inr (xs, n, rest) \<Longrightarrow> length rest \<le> length cs"
  "parse_value_parse_items_parse_members_dom (Inr (Inr (lim, en, depth, count, m, cs))) \<Longrightarrow>
     parse_members lim en depth count m cs = Inr (m', n, rest) \<Longrightarrow> length rest \<le> length cs"
proof (induction lim en depth count cs and lim en depth count acc cs and lim en depth count m cs
    arbitrary: v n rest and xs n rest and m' n rest rule: parse_value_parse_items_parse_members.pinduct)
  case (1 lim en depth count cs)
  from 1(4) obtain c1 cs1 first where pre: "charge lim depth count = Inr c1" "whitespace en cs = Inr cs1" "peek en cs1 = Inr first"
    unfolding parse_value.psimps [OF 1(1)] and_then_eq_Inr by blast
  have len: "length cs1 \<le> length cs" by (rule whitespace_rest [OF pre(2)])
  consider (object) "first = Some LBRACE" | (array) "first = Some LBRACKET"
    | (scalar) "first \<noteq> Some LBRACE" "first \<noteq> Some LBRACKET" by blast
  then show ?case
  proof cases
    case object
    with 1(4) pre obtain cs2 inner mapping where *: "whitespace en (tl cs1) = Inr cs2" "peek en cs2 = Inr inner"
      "(if inner \<noteq> Some RBRACE then parse_members lim en (depth + 1) c1 [] cs2 else Inr ([], c1, cs2))
         = Inr (mapping, n, RBRACE # rest)"
      unfolding parse_value.psimps [OF 1(1)] by (auto simp: and_then_eq_Inr)
    have "length rest \<le> length cs2"
      using *(3) 1(2) [OF pre object *(1,2)] by (cases "inner = Some RBRACE") fastforce+
    with len whitespace_rest [OF *(1)] show ?thesis by simp
  next
    case array
    with 1(4) pre obtain cs2 inner xs where *: "whitespace en (tl cs1) = Inr cs2" "peek en cs2 = Inr inner"
      "(if inner \<noteq> Some RBRACKET then parse_items lim en (depth + 1) c1 [] cs2 else Inr ([], c1, cs2))
         = Inr (xs, n, RBRACKET # rest)"
      unfolding parse_value.psimps [OF 1(1)] by (auto simp: and_then_eq_Inr)
    have "length rest \<le> length cs2"
      using *(3) 1(3) [OF pre _ array *(1,2)] array by (cases "inner = Some RBRACKET") fastforce+
    with len whitespace_rest [OF *(1)] show ?thesis by simp
  next
    case scalar
    with 1(4) pre len show ?thesis
      unfolding parse_value.psimps [OF 1(1)] by (auto simp: and_then_eq_Inr dest!: parse_scalar_rest)
  qed
next
  case (2 lim en depth count acc cs)
  from 2(4) obtain v c1 cs1 cs2 after where pre: "parse_value lim en depth count cs = Inr (v, c1, cs1)"
      "whitespace en cs1 = Inr cs2" "peek en cs2 = Inr after"
    unfolding parse_items.psimps [OF 2(1)] by (auto simp: and_then_eq_Inr)
  have len: "length cs2 \<le> length cs" using 2(2) [OF pre(1)] whitespace_rest [OF pre(2)] by simp
  show ?case
  proof (cases "after = Some RBRACKET")
    case True
    with 2(4) pre len show ?thesis unfolding parse_items.psimps [OF 2(1)] by auto
  next
    case False
    with 2(4) pre obtain cs3 cs4 where *: "require en COMMA cs2 = Inr cs3" "whitespace en cs3 = Inr cs4"
      "parse_items lim en depth c1 (acc @ [v]) cs4 = Inr (xs, n, rest)"
      unfolding parse_items.psimps [OF 2(1)] by (auto simp: and_then_eq_Inr)
    with 2(3) [OF pre(1) refl refl pre(2,3) False *(1,2,3)] whitespace_rest [OF *(2)] len show ?thesis by simp
  qed
next
  case (3 lim en depth count acc cs)
  from 3(4) obtain key cs1 cs2 cs3 v c1 cs4 cs5 after where pre: "parse_string lim en cs = Inr (key, cs1)"
      "whitespace en cs1 = Inr cs2" "require en COLON cs2 = Inr cs3" "parse_value lim en depth count cs3 = Inr (v, c1, cs4)"
      "whitespace en cs4 = Inr cs5" "peek en cs5 = Inr after"
    unfolding parse_members.psimps [OF 3(1)] by (auto simp: and_then_eq_Inr)
  have len: "length cs5 \<le> length cs"
    using parse_string_rest [OF pre(1)] whitespace_rest [OF pre(2)] pre(3) 3(2) [OF pre(1) refl pre(2,3,4)]
      whitespace_rest [OF pre(5)] by simp
  show ?case
  proof (cases "after = Some RBRACE")
    case True
    with 3(4) pre len show ?thesis unfolding parse_members.psimps [OF 3(1)] by auto
  next
    case False
    with 3(4) pre obtain cs6 cs7 where *: "require en COMMA cs5 = Inr cs6" "whitespace en cs6 = Inr cs7"
      "parse_members lim en depth c1 (dict_set key v acc) cs7 = Inr (m', n, rest)"
      unfolding parse_members.psimps [OF 3(1)] by (auto simp: and_then_eq_Inr)
    with 3(3) [OF pre(1) refl pre(2,3,4) refl refl pre(5,6) False *(1,2,3)] whitespace_rest [OF *(2)] len show ?thesis by simp
  qed
qed

termination parse_value
  by (relation "measure (\<lambda>x. case x of Inl (lim, en, d, c, cs) \<Rightarrow> 2 * length cs
     | Inr (Inl (lim, en, d, c, acc, cs)) \<Rightarrow> 2 * length cs + 1 | Inr (Inr (lim, en, d, c, acc, cs)) \<Rightarrow> 2 * length cs + 1)")
    (fastforce simp: and_then_eq_Inr peek_def dest: rest_bounds parse_rest_partial split: list.splits option.splits)+

declare parse_value.simps [simp del] parse_items.simps [simp del] parse_members.simps [simp del]

section \<open>Entry points\<close>

definition decode_wire_stream :: "octets list \<Rightarrow> limits \<Rightarrow> wire_document res" where
  "decode_wire_stream chunks lim =
     (let (cs, en) = decode_chunks (max_body_bytes lim) 0 [] chunks in
      case and_then (parse_value lim en 0 0 cs) (\<lambda>(v, count, cs1).
           and_then (whitespace en cs1) (\<lambda>cs2.
           and_then (peek en cs2) (\<lambda>after.
             if after \<noteq> None then Inl WireSyntaxError else WireDocument v lim))) of
        Inl e \<Rightarrow> Inl (if e = UnicodeError then WireSyntaxError else e)
      | Inr d \<Rightarrow> Inr d)"

definition decode_wire :: "octets \<Rightarrow> limits \<Rightarrow> wire_document res" where
  "decode_wire payload lim = decode_wire_stream [payload] lim"

end
