(* ===== verification/WireRoundTrip.thy ===== *)
theory WireRoundTrip
  imports Wire
begin

text \<open>
  Correctness of the exact JSON documents of \<open>Wire\<close>: the parser reads back what the encoder writes, for every way of cutting the
  bytes into chunks, and the chunked integer conversions are the decimal ones.
\<close>

section \<open>Well-formed values\<close>

text \<open>What Python guarantees of a value: code points are below \<open>0x110000\<close>, number objects passed their constructor,
  and the keys of a mapping are distinct.\<close>

definition point :: "nat \<Rightarrow> bool" where
  "point c \<longleftrightarrow> c < 0x110000"

fun well_formed :: "exact \<Rightarrow> bool" where
  "well_formed (XStr s) \<longleftrightarrow> list_all point s"
| "well_formed (XNumber x) \<longleftrightarrow> match_number (token x)"
| "well_formed (XTuple xs) \<longleftrightarrow> (\<forall>x\<in>set xs. well_formed x)"
| "well_formed (XMap kvs) \<longleftrightarrow> distinct (map fst kvs) \<and> (\<forall>kv\<in>set kvs. list_all point (fst kv) \<and> well_formed (snd kv))"
| "well_formed _ \<longleftrightarrow> True"

fun wire_items :: "exact \<Rightarrow> int" where
  "wire_items (XTuple xs) = 1 + sum_list (map wire_items xs)"
| "wire_items (XMap kvs) = 1 + sum_list (map (\<lambda>kv. wire_items (snd kv)) kvs)"
| "wire_items v = 1"

definition text_fits :: "limits \<Rightarrow> ustring \<Rightarrow> bool" where
  "text_fits lim s \<longleftrightarrow> int (length s) \<le> max_string_length lim \<and> \<not> list_ex surrogate s"

fun fits :: "limits \<Rightarrow> int \<Rightarrow> exact \<Rightarrow> bool" where
  "fits lim d (XStr s) \<longleftrightarrow> d \<le> max_json_depth lim \<and> text_fits lim s"
| "fits lim d (XTuple xs) \<longleftrightarrow> d \<le> max_json_depth lim \<and> (\<forall>x\<in>set xs. fits lim (d + 1) x)"
| "fits lim d (XMap kvs) \<longleftrightarrow> d \<le> max_json_depth lim \<and> (\<forall>kv\<in>set kvs. text_fits lim (fst kv) \<and> fits lim (d + 1) (snd kv))"
| "fits lim d _ \<longleftrightarrow> d \<le> max_json_depth lim"

text \<open>Mapping equality ignores the order of the keys; the representative has them sorted.\<close>

fun sort_maps :: "exact \<Rightarrow> exact" where
  "sort_maps (XTuple xs) = XTuple (map sort_maps xs)"
| "sort_maps (XMap kvs) = XMap (sort_key fst (map (\<lambda>(k, v). (k, sort_maps v)) kvs))"
| "sort_maps v = v"

lemma string_limit_eq_Inr [simp]: "string_limit lim s = Inr u \<longleftrightarrow> text_fits lim s"
  by (auto simp: string_limit_def text_fits_def)

lemma charge_eq_Inr: "charge lim d c = Inr c' \<longleftrightarrow> c' = c + 1 \<and> c + 1 \<le> max_json_items lim \<and> d \<le> max_json_depth lim"
  by (auto simp: charge_def)

lemma wire_items_pos: "1 \<le> wire_items v"
  by (induction v) (auto intro!: sum_list_nonneg simp: order_trans [OF zero_le_one])

lemma wire_items_sum_nonneg: "0 \<le> sum_list (map (\<lambda>x. wire_items (f x)) xs)"
  by (rule sum_list_nonneg) (auto intro: order_trans [OF zero_le_one wire_items_pos])

section \<open>Freezing\<close>

lemma freeze_sound:
  "freeze lim v d c = Inr (v', c') \<Longrightarrow> well_formed v \<Longrightarrow>
     v' = v \<and> c' = c + wire_items v \<and> fits lim d v \<and> c' \<le> max_json_items lim"
  "freeze_all lim xs d c = Inr (xs', c') \<Longrightarrow> \<forall>x\<in>set xs. well_formed x \<Longrightarrow> c \<le> max_json_items lim \<Longrightarrow>
     xs' = xs \<and> c' = c + sum_list (map wire_items xs) \<and> (\<forall>x\<in>set xs. fits lim d x) \<and> c' \<le> max_json_items lim"
  "freeze_items lim kvs d c m = Inr (m', c') \<Longrightarrow> distinct (map fst (m @ kvs)) \<Longrightarrow>
     \<forall>kv\<in>set kvs. well_formed (snd kv) \<Longrightarrow> c \<le> max_json_items lim \<Longrightarrow>
     m' = m @ kvs \<and> c' = c + sum_list (map (\<lambda>kv. wire_items (snd kv)) kvs)
     \<and> (\<forall>kv\<in>set kvs. text_fits lim (fst kv) \<and> fits lim d (snd kv)) \<and> c' \<le> max_json_items lim"
proof (induction lim v d c and lim xs d c and lim kvs d c m
    arbitrary: v' c' and xs' c' and m' c' rule: freeze_freeze_all_freeze_items.induct)
  case (10 lim k v kvs d c m)
  from 10(3) obtain v1 c1 where *: "text_fits lim k" "freeze lim v d c = Inr (v1, c1)"
    "freeze_items lim kvs d c1 (dict_set k v1 m) = Inr (m', c')"
    by (auto simp: and_then_eq_Inr)
  have v1: "v1 = v \<and> c1 = c + wire_items v \<and> fits lim d v \<and> c1 \<le> max_json_items lim"
    using 10(1) [OF *(2)] 10(5) by auto
  have "map_of m k = None" using 10(4) by (auto simp: map_of_eq_None_iff)
  then have set_k: "dict_set k v1 m = m @ [(k, v1)]" by (rule dict_set_new)
  have "distinct (map fst (dict_set k v1 m @ kvs))" using 10(4) by (auto simp: set_k)
  from 10(2) [OF *(3) this] *(1) v1 10(5) set_k show ?case by auto
qed (auto simp: and_then_eq_Inr charge_eq_Inr simp flip: add.assoc)

lemma freeze_complete:
  "fits lim d v \<Longrightarrow> well_formed v \<Longrightarrow> c + wire_items v \<le> max_json_items lim \<Longrightarrow>
     freeze lim v d c = Inr (v, c + wire_items v)"
  "\<forall>x\<in>set xs. fits lim d x \<and> well_formed x \<Longrightarrow> c + sum_list (map wire_items xs) \<le> max_json_items lim \<Longrightarrow>
     freeze_all lim xs d c = Inr (xs, c + sum_list (map wire_items xs))"
  "\<forall>kv\<in>set kvs. text_fits lim (fst kv) \<and> fits lim d (snd kv) \<and> well_formed (snd kv) \<Longrightarrow> distinct (map fst (m @ kvs)) \<Longrightarrow>
     c + sum_list (map (\<lambda>kv. wire_items (snd kv)) kvs) \<le> max_json_items lim \<Longrightarrow>
     freeze_items lim kvs d c m = Inr (m @ kvs, c + sum_list (map (\<lambda>kv. wire_items (snd kv)) kvs))"
proof (induction lim v d c and lim xs d c and lim kvs d c m rule: freeze_freeze_all_freeze_items.induct)
  case (8 lim x xs d c)
  then show ?case using wire_items_sum_nonneg [of "\<lambda>x. x" xs] by (simp add: add.assoc)
next
  case (10 lim k v kvs d c m)
  have "map_of m k = None" using 10(4) by (auto simp: map_of_eq_None_iff)
  then have set_k: "dict_set k v m = m @ [(k, v)]" by (rule dict_set_new)
  have "freeze lim v d c = Inr (v, c + wire_items v)"
    using 10(1,3,5) wire_items_sum_nonneg [of snd kvs] by simp
  moreover have "string_limit lim k = Inr ()" using 10(3) by simp
  moreover have "freeze_items lim kvs d (c + wire_items v) (dict_set k v m)
      = Inr (dict_set k v m @ kvs, c + wire_items v + sum_list (map (\<lambda>kv. wire_items (snd kv)) kvs))"
    by (rule 10(2)) (use 10(3-5) in \<open>auto simp: set_k add.assoc\<close>)
  ultimately show ?case by (simp add: set_k string_limit_def text_fits_def)
next
  case (5 lim xs d c)
  then show ?case using wire_items_sum_nonneg [of "\<lambda>x. x" xs] by (simp add: charge_def)
next
  case (6 lim kvs d c)
  then show ?case using wire_items_sum_nonneg [of snd kvs] by (simp add: charge_def)
qed (simp_all add: charge_def string_limit_def text_fits_def)

section \<open>Reading back numbers and strings\<close>

definition delimited :: "ustring \<Rightarrow> bool" where
  "delimited rest \<longleftrightarrow> (case rest of [] \<Rightarrow> True | c # _ \<Rightarrow> \<not> number_char c)"

lemma digits_number_char: "list_all is_digit ds \<Longrightarrow> list_all number_char ds"
  by (auto simp: list_all_iff number_char_def)

lemma number_char_split:
  "list_all number_char (dropWhile is_digit r) \<Longrightarrow> list_all number_char r"
  by (induction r) (auto simp: number_char_def split: if_splits)

lemma digits1_chars: "digits1 ds \<Longrightarrow> list_all number_char ds"
  by (simp add: digits1_def digits_number_char)

lemma match_exponent_chars:
  assumes "match_exponent t"
  shows "list_all number_char t"
proof (cases t)
  case (Cons c r)
  with assms have c: "number_char c"
    and ds: "digits1 (case r of [] \<Rightarrow> [] | s # r' \<Rightarrow> if s = PLUS \<or> s = MINUS then r' else r)"
    by (auto simp: number_char_def)
  have "list_all number_char r"
    using ds by (cases r) (auto simp: number_char_def split: if_splits dest!: digits1_chars)
  with Cons c show ?thesis by simp
qed simp

lemma match_fraction_chars: "match_fraction t \<Longrightarrow> list_all number_char t"
  by (cases t) (auto simp: number_char_def simp del: match_exponent.simps
      dest!: match_exponent_chars number_char_split split: if_splits)

lemma match_number_chars:
  assumes "match_number t"
  shows "list_all number_char t \<and> (\<exists>c r. t = c # r \<and> (c = MINUS \<or> is_digit c))"
proof -
  have unsigned: "list_all number_char u \<and> (\<exists>c r. u = c # r \<and> is_digit c)" if "match_unsigned u" for u
    using that by (cases u) (auto simp: number_char_def is_digit_def dest!: match_fraction_chars number_char_split
        split: if_splits)
  show ?thesis
    using assms unsigned [of "drop_minus t"]
    by (cases t) (auto simp: match_number_def drop_minus_def number_char_def split: if_splits)
qed

lemma take_drop_delimited:
  assumes "list_all number_char t" and "delimited rest"
  shows "takeWhile number_char (t @ rest) = t" and "dropWhile number_char (t @ rest) = rest"
  using assms by (induction t) (auto simp: delimited_def split: list.splits)

lemma peek_None [simp]: "peek None cs = Inr (case cs of [] \<Rightarrow> None | c # _ \<Rightarrow> Some c)"
  by (simp add: peek_def split: list.splits)

lemma peek_Cons [simp]: "peek en (c # cs) = Inr (Some c)"
  by (simp add: peek_def)

lemma parse_number_token:
  "match_number t \<Longrightarrow> delimited rest \<Longrightarrow> parse_number None (t @ rest) = Inr (ExactNumber t, rest)"
  by (simp add: parse_number_def mk_exact_number_def take_drop_delimited match_number_chars)

lemma hex_value_digit: "d < 16 \<Longrightarrow> hex_value (hex_digit d) = Some d"
  by (auto simp: hex_value_def hex_digit_def)

lemma hex_quad_digits:
  assumes "a < 16" "b < 16"
  shows "hex_quad en (ZERO # ZERO # hex_digit a # hex_digit b # cs) = Inr (a * 16 + b, cs)"
proof -
  have "hex_value ZERO = Some 0" by (simp add: hex_value_def)
  then show ?thesis by (simp add: hex_quad_def hex_value_digit assms)
qed

lemma hex_quad_control:
  assumes "c < 0x20"
  shows "hex_quad en (ZERO # ZERO # hex_digit (c div 16) # hex_digit (c mod 16) # cs) = Inr (c, cs)"
  using assms hex_quad_digits [of "c div 16" "c mod 16" en cs] by simp

lemma string_loop_escape:
  assumes "int (length acc) < max_string_length lim"
  shows "string_loop lim en acc (escape_char c @ cs) = string_loop lim en (acc @ [c]) cs"
proof (cases "c < 0x20 \<and> c \<notin> {8, 9, 10, 12, 13}")
  case True
  then have esc: "escape_char c = [BACKSLASH, 117, ZERO, ZERO, hex_digit (c div 16), hex_digit (c mod 16)]"
    by (auto simp: escape_char_def)
  show ?thesis
    using assms True hex_quad_control [of c en cs]
    by (simp add: esc escape_sequence_def take_char_def unicode_escape_def)
next
  case False
  with assms show ?thesis
    by (auto simp: escape_char_def escape_sequence_def take_char_def simple_escape_def)
qed

lemma string_loop_escaped:
  assumes "int (length acc + length s) \<le> max_string_length lim"
  shows "string_loop lim en acc (concat (map escape_char s) @ QUOTE # rest) = Inr (acc @ s, rest)"
  using assms by (induction s arbitrary: acc) (simp_all add: string_loop_escape)

lemma parse_dumped_string:
  "text_fits lim s \<Longrightarrow> parse_string lim en (dumps_string s @ rest) = Inr (s, rest)"
  by (simp add: parse_string_def dumps_string_def require_def take_char_def string_loop_escaped text_fits_def)

section \<open>The text of a value\<close>

definition wire_text :: "exact \<Rightarrow> ustring" where
  "wire_text v = concat (pieces v)"

fun commas :: "ustring list \<Rightarrow> ustring" where
  "commas [] = []"
| "commas [t] = t"
| "commas (t # ts) = t @ COMMA # commas ts"

definition member_text :: "ustring \<times> exact \<Rightarrow> ustring" where
  "member_text kv = dumps_string (fst kv) @ COLON # wire_text (snd kv)"

lemma concat_comma_separated: "concat (comma_separated pss) = commas (map concat pss)"
  by (induction pss rule: comma_separated.induct) simp_all

lemma insort_key_map_snd:
  "insort_key fst (k, f v) (map (\<lambda>(k, v). (k, f v)) kvs) = map (\<lambda>(k, v). (k, f v)) (insort_key fst (k, v) kvs)"
  by (induction kvs) auto

lemma sort_key_map_snd:
  "sort_key fst (map (\<lambda>(k, v). (k, f v)) kvs) = map (\<lambda>(k, v). (k, f v)) (sort_key fst kvs)"
  by (induction kvs) (auto simp: insort_key_map_snd)

lemma sum_list_insort_key:
  fixes f :: "'a \<Rightarrow> int"
  shows "sum_list (map f (insort_key g x xs)) = f x + sum_list (map f xs)"
  by (induction xs) auto

lemma sum_list_sort_key [simp]:
  fixes f :: "'a \<Rightarrow> int"
  shows "sum_list (map f (sort_key g xs)) = sum_list (map f xs)"
  by (induction xs) (simp_all add: sum_list_insort_key)

lemma distinct_keys_sort [simp]: "distinct (map fst (sort_key fst kvs)) \<longleftrightarrow> distinct (map fst kvs)"
proof -
  have "distinct (map fst (insort_key fst x xs)) \<longleftrightarrow> fst x \<notin> fst ` set xs \<and> distinct (map fst xs)" for x :: "'a \<times> 'b" and xs
    by (induction xs) (auto simp: set_insort_key)
  then show ?thesis by (induction kvs) auto
qed

lemma wire_text_simps:
  "wire_text (XTuple xs) = LBRACKET # commas (map wire_text xs) @ [RBRACKET]"
  "wire_text (XMap kvs) = LBRACE # commas (map member_text (sort_key fst kvs)) @ [RBRACE]"
  by (simp_all add: wire_text_def [abs_def] concat_comma_separated comp_def sort_key_map_snd [unfolded split_def]
      member_text_def [abs_def] split_def)

lemma dumps_string_first: "dumps_string s = QUOTE # tl (dumps_string s)"
  by (simp add: dumps_string_def)

definition starts_value :: "ustring \<Rightarrow> bool" where
  "starts_value t \<longleftrightarrow> (case t of [] \<Rightarrow> False | c # _ \<Rightarrow> \<not> is_blank c \<and> c \<noteq> RBRACKET \<and> c \<noteq> RBRACE)"

lemma wire_text_starts: "well_formed v \<Longrightarrow> starts_value (wire_text v)"
proof (cases v)
  case (XNumber x)
  moreover assume "well_formed v"
  ultimately obtain c r where "token x = c # r" "c = MINUS \<or> is_digit c"
    using match_number_chars [of "token x"] by auto
  with XNumber show ?thesis by (auto simp: starts_value_def wire_text_def is_blank_def is_digit_def)
qed (auto simp: starts_value_def wire_text_simps is_blank_def, auto simp: wire_text_def dumps_string_def is_blank_def)

lemma starts_value_append [simp]: "starts_value t \<Longrightarrow> starts_value (t @ rest)"
  by (auto simp: starts_value_def split: list.splits)

lemma whitespace_starts: "starts_value t \<Longrightarrow> whitespace en t = Inr t"
  by (cases t) (auto simp: starts_value_def whitespace_def)

lemma whitespace_Cons: "\<not> is_blank c \<Longrightarrow> whitespace en (c # cs) = Inr (c # cs)"
  by (simp add: whitespace_def)

lemma not_blank [simp]:
  "\<not> is_blank COMMA" "\<not> is_blank COLON" "\<not> is_blank RBRACE" "\<not> is_blank RBRACKET" "\<not> is_blank LBRACE"
  "\<not> is_blank LBRACKET" "\<not> is_blank QUOTE"
  by (simp_all add: is_blank_def)

lemma require_same [simp]: "require en c (c # cs) = Inr cs"
  by simp

section \<open>Reading back values\<close>

text \<open>A value is read back after any number of values, in front of any rest that does not continue a number.\<close>

definition reads_back :: "limits \<Rightarrow> int \<Rightarrow> exact \<Rightarrow> bool" where
  "reads_back lim d v \<longleftrightarrow> (\<forall>count rest. delimited rest \<longrightarrow> count + wire_items v \<le> max_json_items lim \<longrightarrow>
     parse_value lim None d count (wire_text v @ rest) = Inr (sort_maps v, count + wire_items v, rest))"

lemma delimited_simps [simp]:
  "delimited []" "delimited (COMMA # r)" "delimited (RBRACKET # r)" "delimited (RBRACE # r)"
  by (simp_all add: delimited_def number_char_def is_digit_def)

lemma parse_items_text:
  assumes "xs \<noteq> []" and "\<forall>x\<in>set xs. reads_back lim d x \<and> well_formed x"
    and "count + sum_list (map wire_items xs) \<le> max_json_items lim"
  shows "parse_items lim None d count acc (commas (map wire_text xs) @ RBRACKET # rest)
    = Inr (acc @ map sort_maps xs, count + sum_list (map wire_items xs), RBRACKET # rest)"
  using assms
proof (induction xs arbitrary: count acc)
  case (Cons x xs)
  note nonneg = wire_items_sum_nonneg [of "\<lambda>x. x" xs]
  have read: "parse_value lim None d count (wire_text x @ r) = Inr (sort_maps x, count + wire_items x, r)"
    if "delimited r" for r
    using Cons.prems nonneg that by (auto simp: reads_back_def)
  show ?case
  proof (cases xs)
    case Nil
    with read [of "RBRACKET # rest"] show ?thesis
      by (subst parse_items.simps) (simp add: whitespace_Cons)
  next
    case (Cons y ys)
    let ?more = "commas (map wire_text xs) @ RBRACKET # rest"
    have "starts_value (wire_text y)" using Cons.prems(2) Cons by (intro wire_text_starts) simp
    then have ws: "whitespace None ?more = Inr ?more"
      by (cases ys) (simp_all add: Cons whitespace_starts)
    have "parse_items lim None d (count + wire_items x) (acc @ [sort_maps x]) ?more
        = Inr ((acc @ [sort_maps x]) @ map sort_maps xs, count + wire_items x + sum_list (map wire_items xs), RBRACKET # rest)"
      using Cons.prems Cons by (intro Cons.IH) (auto simp: add.assoc)
    moreover have "commas (map wire_text (x # xs)) @ RBRACKET # rest = wire_text x @ COMMA # ?more"
      using Cons by simp
    ultimately show ?thesis
      using read [of "COMMA # ?more"] ws by (subst parse_items.simps) (simp add: whitespace_Cons add.assoc)
  qed
qed simp

lemma member_text_starts: "starts_value (member_text kv)"
  by (simp add: member_text_def dumps_string_def starts_value_def)

lemma parse_members_text:
  assumes "kvs \<noteq> []" and "\<forall>kv\<in>set kvs. reads_back lim d (snd kv) \<and> well_formed (snd kv) \<and> text_fits lim (fst kv)"
    and "count + sum_list (map (\<lambda>kv. wire_items (snd kv)) kvs) \<le> max_json_items lim"
    and "distinct (map fst (acc @ kvs))"
  shows "parse_members lim None d count acc (commas (map member_text kvs) @ RBRACE # rest)
    = Inr (acc @ map (\<lambda>(k, v). (k, sort_maps v)) kvs,
           count + sum_list (map (\<lambda>kv. wire_items (snd kv)) kvs), RBRACE # rest)"
  using assms
proof (induction kvs arbitrary: count acc)
  case (Cons kv kvs)
  obtain k v where kv: "kv = (k, v)" by (cases kv)
  note nonneg = wire_items_sum_nonneg [of snd kvs]
  have read: "parse_value lim None d count (wire_text v @ r) = Inr (sort_maps v, count + wire_items v, r)"
    if "delimited r" for r
    using Cons.prems nonneg that by (auto simp: reads_back_def kv)
  have key: "parse_string lim None (dumps_string k @ r) = Inr (k, r)" for r
    using Cons.prems(2) by (simp add: parse_dumped_string kv)
  have ws_v: "whitespace None (COLON # r) = Inr (COLON # r)" for r by (simp add: whitespace_Cons)
  have "map_of acc k = None" using Cons.prems(4) by (auto simp: kv map_of_eq_None_iff)
  then have set_k: "dict_set k x acc = acc @ [(k, x)]" for x by (rule dict_set_new)
  show ?case
  proof (cases kvs)
    case Nil
    with read [of "RBRACE # rest"] key show ?thesis
      by (subst parse_members.simps) (simp add: whitespace_Cons kv member_text_def set_k)
  next
    case (Cons y ys)
    let ?more = "commas (map member_text kvs) @ RBRACE # rest"
    have ws: "whitespace None ?more = Inr ?more"
      using member_text_starts [of y] by (cases ys) (simp_all add: Cons whitespace_starts)
    have "parse_members lim None d (count + wire_items v) (acc @ [(k, sort_maps v)]) ?more
        = Inr ((acc @ [(k, sort_maps v)]) @ map (\<lambda>(k, v). (k, sort_maps v)) kvs,
            count + wire_items v + sum_list (map (\<lambda>kv. wire_items (snd kv)) kvs), RBRACE # rest)"
      using Cons.prems Cons by (intro Cons.IH) (auto simp: add.assoc kv)
    moreover have "commas (map member_text (kv # kvs)) @ RBRACE # rest = dumps_string k @ COLON # wire_text v @ COMMA # ?more"
      using Cons by (simp add: kv member_text_def)
    ultimately show ?thesis
      using read [of "COMMA # ?more"] key ws
      by (subst parse_members.simps) (simp add: whitespace_Cons add.assoc set_k kv)
  qed
qed simp

lemma parse_value_scalar:
  assumes "charge lim d count = Inr c1" and "starts_value t" and "hd t \<noteq> LBRACE" "hd t \<noteq> LBRACKET"
    and "parse_scalar lim None (t @ rest) = Inr (v, rest)"
  shows "parse_value lim None d count (t @ rest) = Inr (v, c1, rest)"
proof -
  obtain c r where t: "t = c # r" "c \<noteq> LBRACE" "c \<noteq> LBRACKET"
    using assms(2-4) by (cases t) (auto simp: starts_value_def)
  have "whitespace None (t @ rest) = Inr (t @ rest)" using assms(2) by (simp add: whitespace_starts)
  with t assms(1,5) show ?thesis by (subst parse_value.simps) simp
qed

lemma starts_value_peek:
  "starts_value t \<Longrightarrow> \<exists>c. peek en t = Inr (Some c) \<and> c \<noteq> RBRACE \<and> c \<noteq> RBRACKET"
  by (cases t) (auto simp: starts_value_def)

lemma commas_starts: "ts \<noteq> [] \<Longrightarrow> starts_value (hd ts) \<Longrightarrow> starts_value (commas ts @ rest)"
  by (cases ts rule: commas.cases) simp_all

lemma parse_value_tuple:
  assumes "charge lim d count = Inr (count + 1)" and "\<forall>x\<in>set xs. reads_back lim (d + 1) x \<and> well_formed x"
    and "count + wire_items (XTuple xs) \<le> max_json_items lim"
  shows "parse_value lim None d count (wire_text (XTuple xs) @ rest)
    = Inr (sort_maps (XTuple xs), count + wire_items (XTuple xs), rest)"
proof (cases "xs = []")
  case True
  with assms(1) show ?thesis
    by (subst parse_value.simps) (simp add: wire_text_simps whitespace_Cons)
next
  case False
  let ?body = "commas (map wire_text xs) @ RBRACKET # rest"
  have st: "starts_value ?body"
    using False assms(2) by (intro commas_starts) (simp_all add: hd_map wire_text_starts)
  have "parse_items lim None (d + 1) (count + 1) [] ?body
      = Inr ([] @ map sort_maps xs, count + 1 + sum_list (map wire_items xs), RBRACKET # rest)"
    using False assms(2,3) by (intro parse_items_text) (simp_all add: add.assoc)
  with assms(1) whitespace_starts [OF st] starts_value_peek [OF st, of None] show ?thesis
    by (subst parse_value.simps) (auto simp: wire_text_simps whitespace_Cons add.assoc)
qed

lemma parse_value_map:
  assumes "charge lim d count = Inr (count + 1)"
    and "\<forall>kv\<in>set kvs. reads_back lim (d + 1) (snd kv) \<and> well_formed (snd kv) \<and> text_fits lim (fst kv)"
    and "count + wire_items (XMap kvs) \<le> max_json_items lim" and "distinct (map fst kvs)"
  shows "parse_value lim None d count (wire_text (XMap kvs) @ rest)
    = Inr (sort_maps (XMap kvs), count + wire_items (XMap kvs), rest)"
proof (cases "kvs = []")
  case True
  with assms(1) show ?thesis
    by (subst parse_value.simps) (simp add: wire_text_simps whitespace_Cons)
next
  case False
  let ?body = "commas (map member_text (sort_key fst kvs)) @ RBRACE # rest"
  have "sort_key fst kvs \<noteq> []" using False by (metis length_0_conv length_sort)
  then have st: "starts_value ?body"
    by (intro commas_starts) (simp_all add: hd_map member_text_starts)
  have "parse_members lim None (d + 1) (count + 1) [] ?body
      = Inr ([] @ map (\<lambda>(k, v). (k, sort_maps v)) (sort_key fst kvs),
          count + 1 + sum_list (map (\<lambda>kv. wire_items (snd kv)) (sort_key fst kvs)), RBRACE # rest)"
    using \<open>sort_key fst kvs \<noteq> []\<close> assms(2-4) by (intro parse_members_text) (simp_all add: add.assoc)
  with assms(1) whitespace_starts [OF st] starts_value_peek [OF st, of None] show ?thesis
    by (subst parse_value.simps) (auto simp: wire_text_simps whitespace_Cons add.assoc sort_key_map_snd)
qed

lemma reads_backI:
  assumes "d \<le> max_json_depth lim"
    and "\<And>count rest. delimited rest \<Longrightarrow> count + wire_items v \<le> max_json_items lim \<Longrightarrow> charge lim d count = Inr (count + 1)
      \<Longrightarrow> parse_value lim None d count (wire_text v @ rest) = Inr (sort_maps v, count + wire_items v, rest)"
  shows "reads_back lim d v"
  unfolding reads_back_def
proof (intro allI impI)
  fix count rest
  assume "delimited rest" and fit: "count + wire_items v \<le> max_json_items lim"
  moreover have "charge lim d count = Inr (count + 1)"
    using assms(1) fit wire_items_pos [of v] by (simp add: charge_def)
  ultimately show "parse_value lim None d count (wire_text v @ rest) = Inr (sort_maps v, count + wire_items v, rest)"
    by (rule assms(2))
qed

lemma scalar_reads_back:
  assumes "d \<le> max_json_depth lim" and "well_formed v" and "hd (wire_text v) \<notin> {LBRACE, LBRACKET}"
    and "\<And>rest. delimited rest \<Longrightarrow> parse_scalar lim None (wire_text v @ rest) = Inr (v, rest)"
    and "sort_maps v = v" "wire_items v = 1"
  shows "reads_back lim d v"
proof (rule reads_backI [OF assms(1)])
  fix count rest
  assume "delimited rest" and "charge lim d count = Inr (count + 1)"
  then have "parse_value lim None d count (wire_text v @ rest) = Inr (v, count + 1, rest)"
    using assms(2-4) by (intro parse_value_scalar) (auto intro: wire_text_starts)
  with assms(5,6) show "parse_value lim None d count (wire_text v @ rest) = Inr (sort_maps v, count + wire_items v, rest)"
    by simp
qed

lemma value_reads_back:
  "fits lim d v \<Longrightarrow> well_formed v \<Longrightarrow> reads_back lim d v"
proof (induction v arbitrary: d)
  case (XTuple xs)
  then have sub: "\<forall>x\<in>set xs. reads_back lim (d + 1) x \<and> well_formed x" by auto
  show ?case by (rule reads_backI) (use XTuple.prems in simp, rule parse_value_tuple [OF _ sub])
next
  case (XMap kvs)
  have sub: "\<forall>kv\<in>set kvs. reads_back lim (d + 1) (snd kv) \<and> well_formed (snd kv) \<and> text_fits lim (fst kv)"
    using XMap.prems XMap.IH [OF _ snds.intros] by fastforce
  show ?case by (rule reads_backI) (use XMap.prems in simp, rule parse_value_map [OF _ sub], use XMap.prems in simp_all)
next
  case (XNumber x)
  then have tok: "match_number (token x)" by simp
  then obtain c r where cr: "token x = c # r" "c = MINUS \<or> is_digit c" using match_number_chars by blast
  have "parse_scalar lim None (token x @ rest) = Inr (XNumber x, rest)" if "delimited rest" for rest
    using parse_number_token [OF tok that] cr by (cases x) (auto simp: parse_scalar_def is_digit_def)
  with XNumber cr show ?case
    by (intro scalar_reads_back) (auto simp: wire_text_def is_digit_def)
next
  case (XStr s)
  then have "parse_scalar lim None (dumps_string s @ rest) = Inr (XStr s, rest)" for rest
    using parse_dumped_string [of lim s None rest] by (simp add: parse_scalar_def dumps_string_def)
  with XStr show ?case
    by (intro scalar_reads_back) (auto simp: wire_text_def dumps_string_def)
next
  case XNull
  then show ?case by (intro scalar_reads_back) (auto simp: wire_text_def parse_scalar_def require_def take_char_def)
next
  case (XBool b)
  then show ?case
    by (intro scalar_reads_back) (auto simp: wire_text_def parse_scalar_def require_def take_char_def)
qed

section \<open>Bytes\<close>

lemma encode_pieces_iff:
  assumes "int (length out) \<le> max_body_bytes lim"
  shows "encode_pieces lim out ps = Inr b \<longleftrightarrow>
    b = out @ utf8_text (concat ps) \<and> \<not> list_ex surrogate (concat ps) \<and> int (length b) \<le> max_body_bytes lim"
  using assms
proof (induction ps arbitrary: out)
  case (Cons p ps)
  show ?case
  proof (cases "\<not> list_ex surrogate p \<and> int (length out) + int (length (utf8_text p)) \<le> max_body_bytes lim")
    case True
    with Cons.IH [of "out @ utf8_text p"] length_utf8_text [of p] show ?thesis
      by (simp add: utf8_encode_def)
  next
    case False
    then show ?thesis by (auto simp: utf8_encode_def)
  qed
qed auto

lemma decode_chunks_text:
  assumes "list_all scalar s" and "buffer @ concat chunks = utf8_text s" and "decode_buffer buffer = Inr ([], buffer)"
    and "consumed + int (length (concat chunks)) \<le> maximum"
  shows "decode_chunks maximum consumed buffer chunks = (s, None)"
  using assms
proof (induction chunks arbitrary: s buffer consumed)
  case Nil
  then show ?case using decode_buffer_text [of s] by auto
next
  case (Cons chunk chunks)
  from Cons.prems(2) have "utf8_text s = (buffer @ chunk) @ concat chunks" by simp
  from decode_buffer_prefix [OF Cons.prems(1) this] obtain s1 s2 left where
    split: "s = s1 @ s2" "decode_buffer (buffer @ chunk) = Inr (s1, left)" "left @ concat chunks = utf8_text s2" by blast
  have "decode_chunks maximum (consumed + int (length chunk)) left chunks = (s2, None)"
    using Cons.prems split decode_buffer_left [OF split(2)] by (intro Cons.IH) auto
  moreover have "consumed + int (length chunk) \<le> maximum" using Cons.prems(4) by simp
  ultimately show ?case using split by simp
qed

lemma point_simps [simp]: "point c \<Longrightarrow> list_all point (escape_char c)"
  by (auto simp: escape_char_def point_def hex_digit_def)

lemma point_numeral [simp]: "point (numeral w) \<longleftrightarrow> (numeral w :: nat) < 0x110000"
  by (simp add: point_def)

lemma dumps_points: "list_all point s \<Longrightarrow> list_all point (dumps_string s)"
proof -
  have "list_all point s \<Longrightarrow> list_all point (concat (map escape_char s))" by (induction s) simp_all
  then show "list_all point s \<Longrightarrow> list_all point (dumps_string s)" by (simp add: dumps_string_def)
qed

lemma number_points: "list_all number_char t \<Longrightarrow> list_all point t"
  by (auto simp: list_all_iff number_char_def is_digit_def point_def)

lemma commas_points: "\<forall>t\<in>set ts. list_all point t \<Longrightarrow> list_all point (commas ts)"
  by (induction ts rule: commas.induct) auto

lemma wire_text_points: "well_formed v \<Longrightarrow> list_all point (wire_text v)"
proof (induction v)
  case (XTuple xs)
  then have "list_all point (commas (map wire_text xs))" by (intro commas_points) auto
  then show ?case by (simp add: wire_text_simps)
next
  case (XMap kvs)
  have "list_all point (member_text kv)" if "kv \<in> set kvs" for kv
    using XMap.prems XMap.IH [OF that snds.intros] that
    by (cases kv) (auto simp: member_text_def dumps_points)
  then have "list_all point (commas (map member_text (sort_key fst kvs)))" by (intro commas_points) auto
  then show ?case by (simp add: wire_text_simps)
next
  case (XNumber x)
  then show ?case using match_number_chars [of "token x"] by (simp add: wire_text_def number_points)
qed (auto simp: wire_text_def dumps_points)

lemma points_scalar: "list_all point s \<Longrightarrow> \<not> list_ex surrogate s \<Longrightarrow> list_all scalar s"
  by (auto simp: list_all_iff list_ex_iff scalar_def point_def)

section \<open>Sorted mappings\<close>

lemma sort_key_idem [simp]: "sort_key f (sort_key f xs) = sort_key f xs"
  by (rule sort_key_id_if_sorted) simp

lemma sort_maps_XMap: "sort_maps (XMap kvs) = XMap (map (\<lambda>(k, v). (k, sort_maps v)) (sort_key fst kvs))"
  by (simp add: sort_key_map_snd)

lemma pieces_sort_maps [simp]: "pieces (sort_maps v) = pieces v"
proof (induction v)
  case (XMap kvs)
  have "map (\<lambda>(k, v). (k, pieces v)) (map (\<lambda>(k, v). (k, sort_maps v)) (sort_key fst kvs))
      = map (\<lambda>(k, v). (k, pieces v)) (sort_key fst kvs)"
    using XMap [OF _ snds.intros] by (auto simp: split_def)
  then have "sort_key fst (map (\<lambda>(k, v). (k, pieces v)) (map (\<lambda>(k, v). (k, sort_maps v)) (sort_key fst kvs)))
      = sort_key fst (map (\<lambda>(k, v). (k, pieces v)) kvs)"
    by (simp only: sort_key_map_snd sort_key_idem)
  then show ?case unfolding sort_maps_XMap pieces.simps by (simp only:)
next
  case (XTuple xs)
  then have "map pieces (map sort_maps xs) = map pieces xs" by simp
  then show ?case unfolding sort_maps.simps pieces.simps by (simp only:)
qed simp_all

lemma map_keys_snd: "map fst (map (\<lambda>(k, v). (k, f v)) kvs) = map fst kvs"
  by (simp add: comp_def split_def)

lemma sort_maps_props:
  "wire_items (sort_maps v) = wire_items v \<and> (well_formed v \<longrightarrow> well_formed (sort_maps v))
   \<and> (\<forall>d. fits lim d v \<longrightarrow> fits lim d (sort_maps v)) \<and> sort_maps (sort_maps v) = sort_maps v"
proof (induction v)
  case (XMap kvs)
  note IH = XMap [OF _ snds.intros, simplified]
  let ?kvs = "map (\<lambda>(k, v). (k, sort_maps v)) (sort_key fst kvs)"
  have "sum_list (map (\<lambda>kv. wire_items (snd kv)) ?kvs) = sum_list (map (\<lambda>kv. wire_items (snd kv)) (sort_key fst kvs))"
    using IH by (intro arg_cong [where f = sum_list]) (auto simp: split_def)
  moreover have "map (\<lambda>(k, v). (k, sort_maps v)) (sort_key fst ?kvs) = ?kvs"
    unfolding sort_key_map_snd sort_key_idem using IH by (auto simp: split_def)
  moreover have "distinct (map fst ?kvs) \<longleftrightarrow> distinct (map fst kvs)" by (simp only: map_keys_snd distinct_keys_sort)
  ultimately show ?case
    using IH unfolding sort_maps_XMap by (auto simp: split_def)
next
  case (XTuple xs)
  then have "sum_list (map wire_items (map sort_maps xs)) = sum_list (map wire_items xs)"
    by (intro arg_cong [where f = sum_list]) auto
  with XTuple show ?case by auto
qed simp_all

section \<open>Round trips\<close>

lemma document_value:
  assumes "WireDocument v lim = Inr d" and "well_formed v" and "0 \<le> max_body_bytes lim"
  shows "d = \<lparr>wd_value = v, wd_limits = lim\<rparr>" and "fits lim 0 v" and "wire_items v \<le> max_json_items lim"
    and "encode d = Inr (utf8_text (wire_text v))" and "\<not> list_ex surrogate (wire_text v)"
    and "int (length (utf8_text (wire_text v))) \<le> max_body_bytes lim"
proof -
  from assms(1) obtain v' c b where *: "freeze lim v 0 0 = Inr (v', c)" "d = \<lparr>wd_value = v', wd_limits = lim\<rparr>" "encode d = Inr b"
    by (auto simp: WireDocument_def and_then_eq_Inr Let_def)
  from freeze_sound(1) [OF *(1) assms(2)] *(2) show d: "d = \<lparr>wd_value = v, wd_limits = lim\<rparr>"
    and "fits lim 0 v" and "wire_items v \<le> max_json_items lim" by auto
  have "encode_pieces lim [] (pieces v) = Inr b" using *(3) d by (simp add: encode_def)
  then have "b = utf8_text (wire_text v)" "\<not> list_ex surrogate (wire_text v)" "int (length b) \<le> max_body_bytes lim"
    using encode_pieces_iff [of "[]" lim "pieces v" b] assms(3) by (auto simp: wire_text_def)
  with *(3) show "encode d = Inr (utf8_text (wire_text v))" "\<not> list_ex surrogate (wire_text v)"
    "int (length (utf8_text (wire_text v))) \<le> max_body_bytes lim" by auto
qed

lemma document_exists:
  assumes "well_formed v" "fits lim 0 v" "wire_items v \<le> max_json_items lim" "0 \<le> max_body_bytes lim"
    and "\<not> list_ex surrogate (wire_text v)" "int (length (utf8_text (wire_text v))) \<le> max_body_bytes lim"
  shows "WireDocument v lim = Inr \<lparr>wd_value = v, wd_limits = lim\<rparr>"
  using assms freeze_complete(1) [OF assms(2,1), of 0]
    encode_pieces_iff [of "[]" lim "pieces v" "utf8_text (wire_text v)"]
  by (simp add: WireDocument_def encode_def wire_text_def)

lemma decode_encoded:
  assumes doc: "WireDocument v lim = Inr d" and wf: "well_formed v" and body: "0 \<le> max_body_bytes lim"
    and enc: "encode d = Inr b" and chunks: "concat chunks = b"
  shows "decode_wire_stream chunks lim = Inr \<lparr>wd_value = sort_maps v, wd_limits = lim\<rparr>"
proof -
  note dv = document_value [OF doc wf body]
  have b: "concat chunks = utf8_text (wire_text v)" using dv(4) enc chunks by simp
  have "list_all scalar (wire_text v)" using wire_text_points [OF wf] dv(5) by (rule points_scalar)
  then have dec: "decode_chunks (max_body_bytes lim) 0 [] chunks = (wire_text v, None)"
    using b dv(6) by (intro decode_chunks_text) (simp_all add: decode_buffer.simps [of "[]"])
  have "reads_back lim 0 v" using dv(2) wf by (rule value_reads_back)
  then have parse: "parse_value lim None 0 0 (wire_text v) = Inr (sort_maps v, wire_items v, [])"
    using dv(3) unfolding reads_back_def by (metis add_0 append_Nil2 delimited_simps(1))
  have same: "wire_text (sort_maps v) = wire_text v" by (simp add: wire_text_def)
  have "WireDocument (sort_maps v) lim = Inr \<lparr>wd_value = sort_maps v, wd_limits = lim\<rparr>"
    using sort_maps_props [of v lim] wf body dv same by (intro document_exists) auto
  then show ?thesis
    by (simp add: decode_wire_stream_def dec parse whitespace_def)
qed

section \<open>What the parser accepts\<close>

lemma hex_value_bound: "hex_value c = Some d \<Longrightarrow> d < 16"
  by (auto simp: hex_value_def split: if_splits)

lemma hex_quad_bound:
  assumes "hex_quad en cs = Inr (n, rest)"
  shows "n < 0x10000 \<and> rest = drop 4 cs"
proof -
  obtain a b c d where "map hex_value (take 4 cs) = [Some a, Some b, Some c, Some d]"
    and n: "n = ((a * 16 + b) * 16 + c) * 16 + d" "rest = drop 4 cs"
    using assms by (auto simp: hex_quad_def split: if_splits list.splits option.splits)
  then have "a < 16" "b < 16" "c < 16" "d < 16" by (auto dest: hex_value_bound simp: map_eq_Cons_conv)
  with n show ?thesis by simp
qed

lemma points_drop: "list_all point cs \<Longrightarrow> list_all point (drop n cs)"
  by (auto simp: list_all_iff dest: in_set_dropD)

lemma points_tl: "list_all point cs \<Longrightarrow> list_all point (tl cs)"
  by (cases cs) simp_all

lemma unicode_escape_point:
  assumes "unicode_escape en cs = Inr (c, rest)" and "list_all point cs"
  shows "point c \<and> list_all point rest"
proof -
  from assms(1) obtain code cs1 where q: "hex_quad en cs = Inr (code, cs1)"
    by (auto simp: unicode_escape_def and_then_eq_Inr)
  note b = hex_quad_bound [OF q]
  have p1: "list_all point cs1" using b assms(2) by (simp add: points_drop)
  show ?thesis
  proof (cases "0xD800 \<le> code \<and> code \<le> 0xDBFF")
    case False
    with assms(1) q b p1 show ?thesis
      by (auto simp: unicode_escape_def point_def split: if_splits)
  next
    case True
    with assms(1) q obtain cs3 low cs4 where r: "cs1 = BACKSLASH # 117 # cs3" "hex_quad en cs3 = Inr (low, cs4)" "low \<le> 0xDFFF"
      "c = 0x10000 + (code - 0xD800) * 1024 + low - 0xDC00" "rest = cs4"
      by (auto simp: unicode_escape_def and_then_eq_Inr split: if_splits)
    have "list_all point cs4" using p1 r(1) hex_quad_bound [OF r(2)] by (simp add: points_drop)
    moreover have "code - 0xD800 \<le> 1023" using True by linarith
    then have "point c" using r(3,4) unfolding point_def by linarith
    ultimately show ?thesis using r(5) by simp
  qed
qed

lemma escape_sequence_point:
  assumes "escape_sequence en cs = Inr (c, rest)" and "list_all point cs"
  shows "point c \<and> list_all point rest"
proof (cases cs)
  case Nil
  with assms(1) show ?thesis by (cases en) (auto simp: escape_sequence_def take_char_def peek_def)
next
  case (Cons e cs')
  show ?thesis
  proof (cases "e = 117")
    case True
    with assms Cons show ?thesis by (auto simp: escape_sequence_def take_char_def intro!: unicode_escape_point)
  next
    case False
    with assms Cons have "simple_escape e = Some c" "rest = cs'"
      by (auto simp: escape_sequence_def take_char_def split: option.splits)
    moreover have "point c" using \<open>simple_escape e = Some c\<close> assms(2) Cons
      by (auto simp: simple_escape_def point_def split: if_splits)
    ultimately show ?thesis using assms(2) Cons by simp
  qed
qed

lemma string_loop_points:
  "string_loop lim en acc cs = Inr (s, rest) \<Longrightarrow> list_all point cs \<Longrightarrow> list_all point acc \<Longrightarrow>
     list_all point s \<and> list_all point rest"
proof (induction lim en acc cs rule: string_loop.induct)
  case (2 lim en acc c cs)
  show ?case
  proof (cases "c = QUOTE \<or> c < 0x20")
    case True
    with 2 show ?thesis by auto
  next
    case False
    with 2(2) obtain c' cs' where step: "(if c = BACKSLASH then escape_sequence en cs else Inr (c, cs)) = Inr (c', cs')"
      and lim: "\<not> max_string_length lim \<le> int (length acc)" and rec: "string_loop lim en (acc @ [c']) cs' = Inr (s, rest)"
      by (auto split: sum.splits if_splits)
    have "point c' \<and> list_all point cs'"
      using step 2(3) escape_sequence_point [of en cs c' cs'] by (cases "c = BACKSLASH") auto
    then show ?thesis using 2(1) [OF _ _ step refl lim rec] False 2(4) by simp
  qed
qed (auto split: option.splits)

lemma parse_string_points:
  "parse_string lim en cs = Inr (s, rest) \<Longrightarrow> list_all point cs \<Longrightarrow> list_all point s \<and> list_all point rest"
  by (auto simp: parse_string_def and_then_eq_Inr dest!: string_loop_points)

lemma whitespace_points: "whitespace en cs = Inr rest \<Longrightarrow> list_all point cs \<Longrightarrow> list_all point rest"
  by (auto simp: list_all_iff dest!: whitespace_eq_Inr dest: set_dropWhileD)

lemma parse_scalar_well_formed:
  assumes "parse_scalar lim en cs = Inr (v, rest)" and "list_all point cs"
  shows "well_formed v \<and> list_all point rest"
  using assms
  by (auto simp: parse_scalar_def parse_number_def mk_exact_number_def and_then_eq_Inr list_all_iff
      simp del: require_all.simps split: option.splits if_splits
      dest!: require_all_rest parse_string_points [unfolded list_all_iff] dest: set_dropWhileD)

lemma peek_eq_Some: "peek en cs = Inr (Some c) \<Longrightarrow> \<exists>r. cs = c # r"
  by (auto simp: peek_def split: list.splits option.splits)

lemma parse_well_formed:
  "parse_value lim en d c cs = Inr (v, n, rest) \<Longrightarrow> list_all point cs \<Longrightarrow> well_formed v \<and> list_all point rest"
  "parse_items lim en d c acc cs = Inr (xs, n, rest) \<Longrightarrow> list_all point cs \<Longrightarrow> \<forall>x\<in>set acc. well_formed x \<Longrightarrow>
     (\<forall>x\<in>set xs. well_formed x) \<and> list_all point rest"
  "parse_members lim en d c m cs = Inr (m', n, rest) \<Longrightarrow> list_all point cs \<Longrightarrow> well_formed (XMap m) \<Longrightarrow>
     well_formed (XMap m') \<and> list_all point rest"
proof (induction lim en d c cs and lim en d c acc cs and lim en d c m cs
    arbitrary: v n rest and xs n rest and m' n rest rule: parse_value_parse_items_parse_members.induct)
  case (1 lim en d c cs)
  from 1(3) obtain c1 cs1 first where pre: "charge lim d c = Inr c1" "whitespace en cs = Inr cs1" "peek en cs1 = Inr first"
    unfolding parse_value.simps [of lim en d c] and_then_eq_Inr by blast
  have p1: "list_all point cs1" using pre(2) 1(4) by (rule whitespace_points)
  then have p1t: "list_all point (tl cs1)" by (rule points_tl)
  consider (object) "first = Some LBRACE" | (array) "first = Some LBRACKET"
    | (scalar) "first \<noteq> Some LBRACE" "first \<noteq> Some LBRACKET" by blast
  then show ?case
  proof cases
    case object
    with 1(3) pre obtain cs2 inner mapping where *: "whitespace en (tl cs1) = Inr cs2" "peek en cs2 = Inr inner"
      "(if inner \<noteq> Some RBRACE then parse_members lim en (d + 1) c1 [] cs2 else Inr ([], c1, cs2))
         = Inr (mapping, n, RBRACE # rest)" "v = XMap mapping"
      unfolding parse_value.simps [of lim en d c] by (auto simp: and_then_eq_Inr)
    have "list_all point cs2" using *(1) p1t by (rule whitespace_points)
    then have "well_formed (XMap mapping) \<and> list_all point (RBRACE # rest)"
      using *(3) 1(1) [OF pre object *(1,2)] by (cases "inner = Some RBRACE") auto
    with *(4) show ?thesis by simp
  next
    case array
    with 1(3) pre obtain cs2 inner xs where *: "whitespace en (tl cs1) = Inr cs2" "peek en cs2 = Inr inner"
      "(if inner \<noteq> Some RBRACKET then parse_items lim en (d + 1) c1 [] cs2 else Inr ([], c1, cs2))
         = Inr (xs, n, RBRACKET # rest)" "v = XTuple xs"
      unfolding parse_value.simps [of lim en d c] by (auto simp: and_then_eq_Inr)
    have "list_all point cs2" using *(1) p1t by (rule whitespace_points)
    then have "well_formed (XTuple xs) \<and> list_all point (RBRACKET # rest)"
      using *(3) 1(2) [OF pre _ array *(1,2)] array by (cases "inner = Some RBRACKET") auto
    with *(4) show ?thesis by simp
  next
    case scalar
    with 1(3) pre p1 show ?thesis
      unfolding parse_value.simps [of lim en d c] by (auto simp: and_then_eq_Inr dest!: parse_scalar_well_formed)
  qed
next
  case (2 lim en d c acc cs)
  from 2(3) obtain v c1 cs1 cs2 after where pre: "parse_value lim en d c cs = Inr (v, c1, cs1)"
      "whitespace en cs1 = Inr cs2" "peek en cs2 = Inr after"
    unfolding parse_items.simps [of lim en d c] by (auto simp: and_then_eq_Inr)
  have v: "well_formed v" "list_all point cs2"
    using 2(1) [OF pre(1) 2(4)] whitespace_points [OF pre(2)] by simp_all
  show ?case
  proof (cases "after = Some RBRACKET")
    case True
    with 2(3,5) pre v show ?thesis unfolding parse_items.simps [of lim en d c] by auto
  next
    case False
    with 2(3) pre obtain cs3 cs4 where *: "require en COMMA cs2 = Inr cs3" "whitespace en cs3 = Inr cs4"
      "parse_items lim en d c1 (acc @ [v]) cs4 = Inr (xs, n, rest)"
      unfolding parse_items.simps [of lim en d c] by (auto simp: and_then_eq_Inr)
    have "list_all point cs4" using v(2) *(1) whitespace_points [OF *(2)] by simp
    with 2(2) [OF pre(1) refl refl pre(2,3) False *(1,2,3)] v(1) 2(5) show ?thesis by simp
  qed
next
  case (3 lim en d c acc cs)
  from 3(3) obtain key cs1 cs2 cs3 v c1 cs4 cs5 after where pre: "parse_string lim en cs = Inr (key, cs1)"
      "whitespace en cs1 = Inr cs2" "require en COLON cs2 = Inr cs3" "parse_value lim en d c cs3 = Inr (v, c1, cs4)"
      "whitespace en cs4 = Inr cs5" "peek en cs5 = Inr after"
    unfolding parse_members.simps [of lim en d c] by (auto simp: and_then_eq_Inr)
  have key: "list_all point key" "list_all point cs3"
    using parse_string_points [OF pre(1) 3(4)] whitespace_points [OF pre(2)] pre(3) by simp_all
  have v: "well_formed v" "list_all point cs5"
    using 3(1) [OF pre(1) refl pre(2,3,4) key(2)] whitespace_points [OF pre(5)] by simp_all
  have m: "well_formed (XMap (dict_set key v acc))"
    using 3(5) key(1) v(1) by (auto simp: set_dict_set)
  show ?case
  proof (cases "after = Some RBRACE")
    case True
    with 3(3) pre v m show ?thesis unfolding parse_members.simps [of lim en d c] by auto
  next
    case False
    with 3(3) pre obtain cs6 cs7 where *: "require en COMMA cs5 = Inr cs6" "whitespace en cs6 = Inr cs7"
      "parse_members lim en d c1 (dict_set key v acc) cs7 = Inr (m', n, rest)"
      unfolding parse_members.simps [of lim en d c] by (auto simp: and_then_eq_Inr)
    have "list_all point cs7" using v(2) *(1) whitespace_points [OF *(2)] by simp
    with 3(2) [OF pre(1) refl pre(2,3,4) refl refl pre(5,6) False *(1,2,3) _ m] show ?thesis by simp
  qed
qed

lemma decode_chunks_points: "list_all point (fst (decode_chunks maximum consumed buffer chunks))"
proof (induction chunks arbitrary: consumed buffer)
  case (Cons chunk chunks)
  have "list_all point s" if "decode_buffer (buffer @ chunk) = Inr (s, left)" for s left
    using decode_buffer_sound [OF that] by (auto simp: list_all_iff scalar_def point_def)
  with Cons.IH show ?case by (auto split: sum.splits)
qed simp

lemma decoded_document:
  assumes "decode_wire_stream chunks lim = Inr d"
  obtains v where "well_formed v" "WireDocument v lim = Inr d"
proof -
  obtain cs en where dec: "decode_chunks (max_body_bytes lim) 0 [] chunks = (cs, en)" by fastforce
  with assms obtain v n rest where "parse_value lim en 0 0 cs = Inr (v, n, rest)" "WireDocument v lim = Inr d"
    by (auto simp: decode_wire_stream_def and_then_eq_Inr split: sum.splits if_splits)
  moreover have "list_all point cs" using decode_chunks_points [of "max_body_bytes lim" 0 "[]" chunks] dec by simp
  ultimately show thesis using parse_well_formed(1) that by blast
qed

section \<open>Properties\<close>

text \<open>C7.  Exact documents survive the wire: for every document that can be built from a Python value, decoding
  its encoding, cut into chunks in any way (also inside a character), gives a document with the same limits and the same value, its
  mappings in key order (Python's mapping equality ignores that order); all number tokens are kept letter by letter, and encoding the
  decoded document gives the same bytes again.\<close>

theorem wire_document_round_trip:
  assumes "well_formed v" and "0 < max_body_bytes lim"
    and "WireDocument v lim = Inr d" and "encode d = Inr b" and "concat chunks = b"
  shows "wd_value d = v \<and> decode_wire_stream chunks lim = Inr (d\<lparr>wd_value := sort_maps v\<rparr>)
    \<and> encode (d\<lparr>wd_value := sort_maps v\<rparr>) = Inr b"
proof -
  have d: "d = \<lparr>wd_value = v, wd_limits = lim\<rparr>" using document_value(1) [OF assms(3,1)] assms(2) by simp
  have "decode_wire_stream chunks lim = Inr \<lparr>wd_value = sort_maps v, wd_limits = lim\<rparr>"
    using assms by (intro decode_encoded) simp_all
  with d assms(4) show ?thesis by (simp add: encode_def)
qed

definition sample_document :: exact where
  "sample_document = XMap [([98], XNumber (ExactNumber [MINUS, ZERO])), ([97], XTuple [XStr [233, 10], XNull])]"

definition sample_bytes :: octets where
  "sample_bytes = [123, 34, 97, 34, 58, 91, 34, 195, 169, 92, 110, 34, 44, 110, 117, 108, 108, 93, 44, 34, 98, 34, 58, 45, 48, 125]"

theorem wire_document_round_trip_witness:
  "decode_wire_stream [take 8 sample_bytes, drop 8 sample_bytes] default_limits
   = Inr \<lparr>wd_value = XMap [([97], XTuple [XStr [233, 10], XNull]), ([98], XNumber (ExactNumber [MINUS, ZERO]))],
           wd_limits = default_limits\<rparr>"
proof -
  have wf: "well_formed sample_document"
    by (simp add: sample_document_def match_number_def drop_minus_def)
  have sorted: "sort_maps sample_document
      = XMap [([97], XTuple [XStr [233, 10], XNull]), ([98], XNumber (ExactNumber [MINUS, ZERO]))]"
    by (simp add: sample_document_def)
  have enc: "encode \<lparr>wd_value = sample_document, wd_limits = default_limits\<rparr> = Inr sample_bytes"
    by (simp add: encode_def sample_document_def sample_bytes_def default_limits_def dumps_string_def escape_char_def
        utf8_encode_def utf8_text_def encode_point_def surrogate_def)
  have doc: "WireDocument sample_document default_limits = Inr \<lparr>wd_value = sample_document, wd_limits = default_limits\<rparr>"
    using enc
    by (simp add: WireDocument_def sample_document_def default_limits_def charge_def string_limit_def surrogate_def)
  have "concat [take 8 sample_bytes, drop 8 sample_bytes] = sample_bytes" by simp
  from wire_document_round_trip [OF wf _ doc enc this] sorted show ?thesis
    by (simp add: default_limits_def)
qed

text \<open>C38.  Whatever the decoder accepts is a bounded, well-formed document: its strings are texts of scalar values within the length
  limit, its number tokens are JSON numbers, its mappings have distinct keys, depth and item count are within the limits, it has an encoding
  within the byte limit, and decoding that encoding gives the document again (mappings in key order).\<close>

theorem decoded_document_is_valid:
  assumes "decode_wire_stream chunks lim = Inr d" and "0 < max_body_bytes lim"
  shows "wd_limits d = lim \<and> well_formed (wd_value d) \<and> fits lim 0 (wd_value d) \<and> wire_items (wd_value d) \<le> max_json_items lim
    \<and> (\<exists>b. encode d = Inr b \<and> int (length b) \<le> max_body_bytes lim
          \<and> decode_wire b lim = Inr (d\<lparr>wd_value := sort_maps (wd_value d)\<rparr>))"
proof -
  from assms(1) obtain v where v: "well_formed v" "WireDocument v lim = Inr d" by (rule decoded_document)
  have body: "0 \<le> max_body_bytes lim" using assms(2) by simp
  note dv = document_value [OF v(2,1) body]
  have "decode_wire (utf8_text (wire_text v)) lim = Inr \<lparr>wd_value = sort_maps v, wd_limits = lim\<rparr>"
    unfolding decode_wire_def using v body dv(4) by (intro decode_encoded) simp_all
  with dv v(1) show ?thesis by auto
qed

theorem decoded_document_is_valid_witness:
  "well_formed (XTuple [XNumber (ExactNumber [49, 101, 53])]) \<and> wire_items (XTuple [XNumber (ExactNumber [49, 101, 53])]) \<le> 10000"
proof -
  have "decode_wire_stream [[32, 91, 49], [101, 53, 93]] default_limits
      = Inr \<lparr>wd_value = XTuple [XNumber (ExactNumber [49, 101, 53])], wd_limits = default_limits\<rparr>"
    by (simp add: decode_wire_stream_def decode_buffer.simps default_limits_def parse_value.simps parse_items.simps
        charge_def whitespace_def is_blank_def parse_scalar_def parse_number_def number_char_def is_digit_def mk_exact_number_def
        match_number_def drop_minus_def digits1_def WireDocument_def encode_def utf8_encode_def surrogate_def utf8_text_def
        encode_point_def require_def take_char_def)
  from decoded_document_is_valid [OF this] show ?thesis by (simp add: default_limits_def)
qed

text \<open>C37.  Streaming does not change the meaning: when the bytes are valid UTF-8 within the byte limit, decoding
  them in chunks gives exactly the result, or the error, of decoding them at once.\<close>

theorem decoding_is_independent_of_chunks:
  assumes "decode_buffer (concat chunks) = Inr (s, [])" and "int (length (concat chunks)) \<le> max_body_bytes lim"
  shows "decode_wire_stream chunks lim = decode_wire (concat chunks) lim"
proof -
  have s: "list_all scalar s" "concat chunks = utf8_text s"
    using assms(1) by (simp_all add: decode_buffer_complete_iff)
  have "decode_chunks (max_body_bytes lim) 0 [] cs = (s, None)" if "concat cs = concat chunks" for cs
    using s assms(2) that by (intro decode_chunks_text) (simp_all add: decode_buffer.simps [of "[]"])
  from this [of chunks] this [of "[concat chunks]"] show ?thesis
    by (simp only: decode_wire_def decode_wire_stream_def concat.simps append_Nil2)
qed

theorem decoding_is_independent_of_chunks_witness:
  "decode_wire_stream [[34, 195], [169, 34]] default_limits = decode_wire [34, 195, 169, 34] default_limits"
  using decoding_is_independent_of_chunks [of "[[34, 195], [169, 34]]" "[34, 233, 34]" default_limits]
  by (simp add: decode_buffer.simps second_ok_def continuation_def default_limits_def)

end
