(* ===== verification/WireNumbers.thy ===== *)
theory WireNumbers
  imports Wire
begin

text \<open>
  The conversions between exact number tokens and integers of \<open>src/src/pytitect/wire.py\<close>.  The code works in chunks
  of nine digits to stay below the digit limit of the interpreter; shown here: the chunked loops are ordinary decimal
  notation, the two directions are inverse to each other, and the recognizer of number tokens is the regular
  expression of the source.
\<close>

section \<open>Reading digits\<close>

lemma foldl_digits:
  "foldl (\<lambda>n d. n * 10 + (int d - 48)) a ds = a * 10 ^ length ds + foldl (\<lambda>n d. n * 10 + (int d - 48)) 0 ds"
proof (induction ds rule: rev_induct)
  case (snoc d ds)
  then show ?case by (simp add: distrib_right)
qed simp

lemma int_of_digits_append: "int_of_digits (ds @ es) = int_of_digits ds * 10 ^ length es + int_of_digits es"
  unfolding int_of_digits_def by (simp add: foldl_digits [of "foldl _ 0 ds"])

lemma int_of_chunks_eq: "int_of_chunks acc ds = acc * 10 ^ length ds + int_of_digits ds"
proof (induction acc ds rule: int_of_chunks.induct)
  case (1 acc ds)
  show ?case
  proof (cases "ds = []")
    case True
    then show ?thesis by (simp add: int_of_chunks.simps int_of_digits_def)
  next
    case False
    have "length ds = length (take 9 ds) + length (drop 9 ds)" by simp
    then have pow: "(10::int) ^ length ds = 10 ^ length (take 9 ds) * 10 ^ length (drop 9 ds)"
      by (metis power_add)
    have "int_of_digits ds = int_of_digits (take 9 ds) * 10 ^ length (drop 9 ds) + int_of_digits (drop 9 ds)"
      by (metis append_take_drop_id int_of_digits_append)
    with 1 [OF False] pow False show ?thesis
      by (subst int_of_chunks.simps) (simp only: distrib_right mult.assoc add.assoc if_False)
  qed
qed

section \<open>Writing digits\<close>

lemma digit_points_step: "0 < m \<Longrightarrow> r < 10 \<Longrightarrow> digit_points (m * 10 + r) = digit_points m @ [48 + r]"
  by (subst digit_points.simps) simp

definition padded :: "nat \<Rightarrow> nat \<Rightarrow> ustring" where
  "padded k n = replicate (k - length (digit_points n)) ZERO @ digit_points n"

lemma padded_Suc:
  assumes "0 < k"
  shows "padded k (r div 10) @ [48 + r mod 10] = padded (Suc k) r"
proof (cases "r < 10")
  case True
  obtain j where k: "k = Suc j" using assms by (cases k) auto
  have "replicate j ZERO @ [ZERO] = replicate k ZERO" by (simp add: k replicate_append_same)
  with True k show ?thesis by (simp add: padded_def digit_points.simps)
next
  case False
  then have "digit_points r = digit_points (r div 10) @ [48 + r mod 10]" by (simp add: digit_points.simps [of r])
  then show ?thesis by (simp add: padded_def)
qed

lemma digit_points_split:
  assumes "0 < m" "0 < k" "r < 10 ^ k"
  shows "digit_points (m * 10 ^ k + r) = digit_points m @ padded k r"
  using assms(2,3)
proof (induction k arbitrary: r rule: nat_induct_non_zero)
  case 1
  then show ?case using digit_points_step [OF assms(1), of r] by (simp add: padded_def digit_points.simps [of r])
next
  case (Suc k)
  have "m * 10 ^ Suc k + r = (m * 10 ^ k + r div 10) * 10 + r mod 10" by (simp add: algebra_simps)
  moreover have "0 < m * 10 ^ k + r div 10" using assms(1) by simp
  ultimately have "digit_points (m * 10 ^ Suc k + r) = digit_points (m * 10 ^ k + r div 10) @ [48 + r mod 10]"
    using digit_points_step [of "m * 10 ^ k + r div 10" "r mod 10"] by (metis mod_less_divisor zero_less_numeral)
  also have "\<dots> = digit_points m @ padded k (r div 10) @ [48 + r mod 10]"
  proof -
    have "r div 10 < 10 ^ k" using Suc.prems by (simp add: less_mult_imp_div_less mult.commute)
    from Suc.IH [OF this] show ?thesis by simp
  qed
  finally show ?case using padded_Suc [of k r] Suc.hyps by simp
qed

lemma nine_digits_padded: "nine_digits n = padded 9 n"
  by (simp add: nine_digits_def padded_def)

lemma chunks_nonempty: "0 < n \<Longrightarrow> billion_chunks n \<noteq> []"
  by (simp add: billion_chunks.simps)

lemma chunks_render:
  "0 < n \<Longrightarrow> digit_points (last (billion_chunks n)) @ concat (map nine_digits (rev (butlast (billion_chunks n)))) = digit_points n"
proof (induction n rule: billion_chunks.induct)
  case (1 n)
  show ?case
  proof (cases "n < 1000000000")
    case True
    with 1(2) have "billion_chunks n = [n]" by (simp add: billion_chunks.simps)
    then show ?thesis by simp
  next
    case False
    define q r where "q = n div 1000000000" and "r = n mod 1000000000"
    have q: "0 < q" and r: "r < 10 ^ 9" and n: "n = q * 10 ^ 9 + r" using False by (auto simp: q_def r_def div_greater_zero_iff)
    have "billion_chunks n = r # billion_chunks q"
      using 1(2) by (subst billion_chunks.simps) (simp add: q_def r_def)
    moreover have "digit_points (last (billion_chunks q)) @ concat (map nine_digits (rev (butlast (billion_chunks q))))
        = digit_points q"
      using 1 q by (simp add: q_def)
    ultimately have "digit_points (last (billion_chunks n)) @ concat (map nine_digits (rev (butlast (billion_chunks n))))
        = digit_points q @ nine_digits r"
      using chunks_nonempty [OF q] by simp
    also have "\<dots> = digit_points n" unfolding n nine_digits_padded using q r by (intro digit_points_split [symmetric]) simp_all
    finally show ?thesis .
  qed
qed

lemma integer_token_decimal:
  "integer_token v = (if v < 0 then MINUS # digit_points (nat (- v)) else digit_points (nat v))"
proof (cases "v = 0")
  case True
  then show ?thesis by (simp add: integer_token_def digit_points.simps)
next
  case False
  then have "0 < nat \<bar>v\<bar>" by simp
  from chunks_render [OF this] False show ?thesis by (auto simp: integer_token_def Let_def)
qed

lemma digit_points_digits: "list_all is_digit (digit_points n)"
proof (induction n rule: digit_points.induct)
  case (1 n)
  have "is_digit (48 + n mod 10)" "n < 10 \<Longrightarrow> is_digit (48 + n)" by (simp_all add: is_digit_def)
  with 1 show ?case by (subst digit_points.simps) simp
qed

lemma digit_points_first: "\<exists>c r. digit_points n = c # r \<and> (c = ZERO \<longrightarrow> n = 0 \<and> r = [])"
proof (induction n rule: digit_points.induct)
  case (1 n)
  show ?case
  proof (cases "n < 10")
    case True
    then show ?thesis by (simp add: digit_points.simps)
  next
    case False
    with 1 obtain c r where "digit_points (n div 10) = c # r" "c = ZERO \<longrightarrow> n div 10 = 0 \<and> r = []" by blast
    moreover have "n div 10 \<noteq> 0" using False by (simp add: div_eq_0_iff)
    ultimately show ?thesis using False by (subst digit_points.simps) auto
  qed
qed

lemma int_of_digit_points: "int_of_digits (digit_points n) = int n"
proof (induction n rule: digit_points.induct)
  case (1 n)
  show ?case
  proof (cases "n < 10")
    case True
    then show ?thesis by (simp add: digit_points.simps int_of_digits_def)
  next
    case False
    have "int_of_digits (digit_points n) = int_of_digits (digit_points (n div 10)) * 10 + int (n mod 10)"
      using False by (subst digit_points.simps) (simp add: int_of_digits_append, simp add: int_of_digits_def)
    also have "\<dots> = int n" using 1 [OF False] by (simp add: zdiv_int zmod_int)
    finally show ?thesis .
  qed
qed

lemma drop_minus_digits: "drop_minus (digit_points n) = digit_points n"
  using digit_points_digits [of n] by (cases "digit_points n") (auto simp: drop_minus_def is_digit_def)

lemma unsigned_digit_points: "match_unsigned (digit_points n) \<and> match_integer (digit_points n) \<and> match_integer (MINUS # digit_points n)"
proof -
  obtain c r where cr: "digit_points n = c # r" "c = ZERO \<longrightarrow> r = []" using digit_points_first by blast
  have d: "is_digit c" "list_all is_digit r" using digit_points_digits [of n] cr by simp_all
  have "match_fraction (dropWhile is_digit r)" using d(2) by (simp add: list_all_iff dropWhile_eq_Nil_conv [THEN iffD2])
  with cr d drop_minus_digits [of n] show ?thesis
    by (auto simp: match_integer_def drop_minus_def [of "MINUS # _"])
qed

section \<open>The recognizer and the regular expression\<close>

definition regex_integer :: "ustring \<Rightarrow> bool" where
  "regex_integer t \<longleftrightarrow> t = [ZERO] \<or> (\<exists>c ds. t = c # ds \<and> is_digit c \<and> c \<noteq> ZERO \<and> list_all is_digit ds)"

definition regex_fraction :: "ustring \<Rightarrow> bool" where
  "regex_fraction t \<longleftrightarrow> t = [] \<or> (\<exists>ds. t = DOT # ds \<and> digits1 ds)"

definition regex_exponent :: "ustring \<Rightarrow> bool" where
  "regex_exponent t \<longleftrightarrow> t = [] \<or> (\<exists>e sign ds. t = e # sign @ ds \<and> e \<in> {69, 101} \<and> sign \<in> {[], [PLUS], [MINUS]} \<and> digits1 ds)"

text \<open>\<open>-?(?:0|[1-9][0-9]*)(?:\.[0-9]+)?(?:[eE][+-]?[0-9]+)?\<close> matches the whole token.\<close>

definition regex_number :: "ustring \<Rightarrow> bool" where
  "regex_number t \<longleftrightarrow> (\<exists>sign ip fp ep. t = sign @ ip @ fp @ ep \<and> sign \<in> {[], [MINUS]}
     \<and> regex_integer ip \<and> regex_fraction fp \<and> regex_exponent ep)"

lemma digits1_Cons: "digits1 (c # ds) \<longleftrightarrow> is_digit c \<and> list_all is_digit ds"
  by (simp add: digits1_def)

lemma not_digit [simp]: "\<not> is_digit PLUS" "\<not> is_digit MINUS" "\<not> is_digit DOT" "\<not> is_digit 69" "\<not> is_digit 101"
  by (simp_all add: is_digit_def)

lemma match_exponent_sound: "match_exponent t \<Longrightarrow> regex_exponent t"
proof (cases t)
  case (Cons e r)
  assume m: "match_exponent t"
  show ?thesis
  proof (cases "\<exists>s r'. r = s # r' \<and> s \<in> {PLUS, MINUS}")
    case True
    then obtain s r' where r: "r = s # r'" "s \<in> {PLUS, MINUS}" by blast
    with m Cons have "digits1 r'" "e \<in> {69, 101}" by auto
    with Cons r show ?thesis unfolding regex_exponent_def by (intro disjI2 exI [of _ e] exI [of _ "[s]"] exI [of _ r']) auto
  next
    case False
    with m Cons have "digits1 r" "e \<in> {69, 101}" by (cases r; auto)+
    with Cons show ?thesis unfolding regex_exponent_def by (intro disjI2 exI [of _ e] exI [of _ "[]"] exI [of _ r]) simp
  qed
qed (simp add: regex_exponent_def)

lemma match_exponent_complete:
  assumes "regex_exponent t"
  shows "match_exponent t"
proof (cases "t = []")
  case False
  with assms obtain e sign ds where t: "t = e # sign @ ds" "e \<in> {69, 101}" "sign \<in> {[], [PLUS], [MINUS]}" "digits1 ds"
    unfolding regex_exponent_def by blast
  from t(4) obtain d ds' where ds: "ds = d # ds'" "is_digit d" by (cases ds) (simp_all add: digits1_def)
  then have "d \<noteq> PLUS" "d \<noteq> MINUS" using not_digit by metis+
  with t ds show ?thesis by auto
qed simp

lemma match_exponent_iff: "match_exponent t \<longleftrightarrow> regex_exponent t"
  using match_exponent_sound match_exponent_complete by blast

lemma regex_exponent_first: "regex_exponent (c # r) \<Longrightarrow> c \<in> {69, 101}"
  by (auto simp: regex_exponent_def)

lemma regex_exponent_DOT [simp]: "\<not> regex_exponent (DOT # r)"
  by (simp add: regex_exponent_def)

lemma digits_before_exponent:
  assumes "list_all is_digit ds" and "regex_exponent ep"
  shows "takeWhile is_digit (ds @ ep) = ds" "dropWhile is_digit (ds @ ep) = ep"
proof -
  have "takeWhile is_digit ep = [] \<and> dropWhile is_digit ep = ep"
    using regex_exponent_first assms(2) by (cases ep) fastforce+
  with assms(1) show "takeWhile is_digit (ds @ ep) = ds" "dropWhile is_digit (ds @ ep) = ep"
    by (simp_all add: list_all_iff)
qed

lemma match_fraction_iff: "match_fraction t \<longleftrightarrow> (\<exists>fp ep. t = fp @ ep \<and> regex_fraction fp \<and> regex_exponent ep)"
proof
  assume m: "match_fraction t"
  show "\<exists>fp ep. t = fp @ ep \<and> regex_fraction fp \<and> regex_exponent ep"
  proof (cases "\<exists>r. t = DOT # r")
    case True
    then obtain r where t: "t = DOT # r" by blast
    have "digits1 (takeWhile is_digit r)"
      using m t by (auto simp: digits1_def list_all_iff dest: set_takeWhileD)
    moreover have "regex_exponent (dropWhile is_digit r)" using m t by (simp add: match_exponent_iff)
    ultimately show ?thesis
      using t by (intro exI [of _ "DOT # takeWhile is_digit r"] exI [of _ "dropWhile is_digit r"]) (simp add: regex_fraction_def)
  next
    case False
    with m have "regex_exponent t" by (cases t) (auto simp: match_exponent_iff [symmetric])
    then show ?thesis by (intro exI [of _ "[]"] exI [of _ t]) (simp add: regex_fraction_def)
  qed
next
  assume "\<exists>fp ep. t = fp @ ep \<and> regex_fraction fp \<and> regex_exponent ep"
  then obtain fp ep where t: "t = fp @ ep" and fp: "regex_fraction fp" and ep: "regex_exponent ep" by blast
  show "match_fraction t"
  proof (cases "fp = []")
    case True
    with t ep show ?thesis
      by (cases t) (auto simp del: match_exponent.simps simp: match_exponent_iff)
  next
    case False
    with fp obtain ds where ds: "fp = DOT # ds" "digits1 ds" by (auto simp: regex_fraction_def)
    then have "list_all is_digit ds" "ds \<noteq> []" by (simp_all add: digits1_def)
    with ds(1) t ep show ?thesis
      by (simp add: digits_before_exponent [OF _ ep] match_exponent_iff del: dropWhile_append takeWhile_append)
  qed
qed

lemma regex_tail_first:
  assumes "regex_fraction fp" "regex_exponent ep" "fp @ ep = c # r"
  shows "\<not> is_digit c"
proof (cases fp)
  case Nil
  with assms regex_exponent_first [of c r] show ?thesis by auto
next
  case (Cons x xs)
  with assms show ?thesis by (auto simp: regex_fraction_def)
qed

lemma match_unsigned_iff:
  "match_unsigned t \<longleftrightarrow> (\<exists>ip fp ep. t = ip @ fp @ ep \<and> regex_integer ip \<and> regex_fraction fp \<and> regex_exponent ep)"
proof
  assume m: "match_unsigned t"
  then obtain c r where t: "t = c # r" by (cases t) simp_all
  show "\<exists>ip fp ep. t = ip @ fp @ ep \<and> regex_integer ip \<and> regex_fraction fp \<and> regex_exponent ep"
  proof (cases "c = ZERO")
    case True
    with m t obtain fp ep where "r = fp @ ep" "regex_fraction fp" "regex_exponent ep" by (auto simp: match_fraction_iff)
    with True t show ?thesis by (intro exI [of _ "[ZERO]"] exI [of _ fp] exI [of _ ep]) (simp add: regex_integer_def)
  next
    case False
    with m t obtain fp ep where tail: "dropWhile is_digit r = fp @ ep" "regex_fraction fp" "regex_exponent ep"
      by (auto simp: match_fraction_iff)
    have "regex_integer (c # takeWhile is_digit r)"
      using m t False by (auto simp: regex_integer_def list_all_iff dest: set_takeWhileD)
    moreover have "t = (c # takeWhile is_digit r) @ fp @ ep"
      using t tail(1) takeWhile_dropWhile_id [of is_digit r] by simp
    ultimately show ?thesis using tail(2,3) by blast
  qed
next
  assume "\<exists>ip fp ep. t = ip @ fp @ ep \<and> regex_integer ip \<and> regex_fraction fp \<and> regex_exponent ep"
  then obtain ip fp ep where t: "t = ip @ fp @ ep" and ip: "regex_integer ip" and tail: "regex_fraction fp" "regex_exponent ep"
    by blast
  then have f: "match_fraction (fp @ ep)" by (auto simp: match_fraction_iff)
  show "match_unsigned t"
  proof (cases "ip = [ZERO]")
    case True
    with t f show ?thesis by simp
  next
    case False
    with ip obtain c ds where c: "ip = c # ds" "is_digit c" "c \<noteq> ZERO" "list_all is_digit ds" by (auto simp: regex_integer_def)
    have "dropWhile is_digit (fp @ ep) = fp @ ep"
      using regex_tail_first [OF tail] by (cases "fp @ ep") auto
    with c(4) have "dropWhile is_digit (ds @ fp @ ep) = fp @ ep" by (simp add: list_all_iff)
    with t c f show ?thesis by simp
  qed
qed

lemma regex_number_unsigned:
  "regex_number t \<longleftrightarrow> match_unsigned t \<or> (\<exists>u. t = MINUS # u \<and> match_unsigned u)"
  unfolding regex_number_def match_unsigned_iff by (auto, (metis append_Nil append_Cons)+)

section \<open>Properties\<close>

text \<open>The recognizer of number tokens accepts exactly the language of the regular expression
  \<open>_NUMBER\<close>: an optional minus, an integer part without superfluous zeros, an optional fraction and an optional
  exponent.\<close>

theorem number_recognizer_is_regex:
  "mk_exact_number t = (if regex_number t then Inr (ExactNumber t) else Inl WireSyntaxError)"
proof -
  have first: "\<not> match_unsigned (MINUS # r)" for r by simp
  have "match_number t \<longleftrightarrow> regex_number t"
  proof (cases "\<exists>r. t = MINUS # r")
    case True
    then obtain r where t: "t = MINUS # r" by blast
    have "regex_number t \<longleftrightarrow> match_unsigned r"
      using first [of r] by (auto simp: regex_number_unsigned t)
    then show ?thesis by (simp add: match_number_def t drop_minus_def)
  next
    case False
    then have "drop_minus t = t" by (cases t) (auto simp: drop_minus_def)
    moreover have "regex_number t \<longleftrightarrow> match_unsigned t"
      using False by (auto simp: regex_number_unsigned)
    ultimately show ?thesis by (simp add: match_number_def)
  qed
  then show ?thesis by (simp add: mk_exact_number_def)
qed

text \<open>Integers of any size survive the exact number token: the chunked rendering \<open>_integer_token\<close> is the
  shortest decimal notation, \<open>ExactNumber\<close> accepts it, and the chunked conversion \<open>to_int\<close> returns the
  integer.\<close>

theorem integer_token_round_trip:
  "integer_token n = (if n < 0 then MINUS # digit_points (nat (- n)) else digit_points (nat n))
   \<and> mk_exact_number (integer_token n) = Inr (ExactNumber (integer_token n))
   \<and> to_int (ExactNumber (integer_token n)) = Inr n"
proof -
  have digits: "take 1 (digit_points m) \<noteq> [MINUS]" for m
    using digit_points_digits [of m] by (cases "digit_points m") auto
  have val: "int_of_chunks 0 (digit_points m) = int m" for m
    by (simp add: int_of_chunks_eq int_of_digit_points)
  have minus: "drop_minus (MINUS # ds) = ds" for ds by (simp add: drop_minus_def)
  have "match_number (integer_token n)"
    using unsigned_digit_points by (simp add: integer_token_decimal match_number_def minus drop_minus_digits)
  moreover have "to_int (ExactNumber (integer_token n)) = Inr n"
    using unsigned_digit_points digits by (simp add: to_int_def integer_token_decimal minus drop_minus_digits val)
  ultimately show ?thesis by (simp add: integer_token_decimal [of n] mk_exact_number_def)
qed

end
