(* ===== verification/UnitOfWork.thy ===== *)
theory UnitOfWork
  imports Inbox
begin

text \<open>
  Model of \<open>src/src/pytitect/aio/uow.py\<close>: the in-memory unit of work that couples the inbox with the decisions of
  the application.  The factory's lock is held from \<open>__aenter__\<close> to \<open>__aexit__\<close>, so that a unit of work
  owns the factory's state in between: it works on a private copy of the inbox and installs copy and decisions on commit.
\<close>

record 'd uow_factory =
  uf_capacity :: int
  uf_inbox :: inbox_store
  uf_decisions :: "'d list"

definition InMemoryAsyncUnitOfWorkFactory :: "int \<Rightarrow> 'd uow_factory res" where
  "InMemoryAsyncUnitOfWorkFactory capacity =
     (if capacity \<le> 0 then Inl ValueError
      else and_then (InMemoryInboxStore capacity) (\<lambda>inbox.
        Inr \<lparr>uf_capacity = capacity, uf_inbox = inbox, uf_decisions = []\<rparr>))"

record 'd uow =
  uw_target :: "'d uow_factory"
  uw_inbox :: inbox_store
  uw_staged :: "'d list"
  uw_reservations :: "(inbox_scope \<times> opaque_id \<times> string) list"
  uw_completions :: "(inbox_scope \<times> opaque_id \<times> string \<times> datetime) list"
  uw_entered :: bool
  uw_finished :: bool

text \<open>\<open>factory()\<close> and \<open>__aenter__\<close>, once the lock is acquired.\<close>

definition new_uow :: "'d uow_factory \<Rightarrow> 'd uow" where
  "new_uow f = \<lparr>uw_target = f, uw_inbox = \<lparr>ibs_capacity = uf_capacity f, ibs_entries = []\<rparr>, uw_staged = [],
     uw_reservations = [], uw_completions = [], uw_entered = False, uw_finished = False\<rparr>"

definition uow_enter :: "('d uow, unit) act" where
  "uow_enter u =
     (if uw_entered u then (Inl RuntimeError, u)
      else (Inr (), u\<lparr>uw_inbox := (uw_inbox u)\<lparr>ibs_entries := ibs_entries (uf_inbox (uw_target u))\<rparr>, uw_entered := True\<rparr>))"

definition uow_active :: "'d uow \<Rightarrow> unit res" where
  "uow_active u = check (uw_entered u \<and> \<not> uw_finished u) RuntimeError"

definition reserve_message ::
    "inbox_scope \<Rightarrow> opaque_id \<Rightarrow> string \<Rightarrow> datetime \<Rightarrow> timedelta \<Rightarrow> ('d uow, inbox_decision) act" where
  "reserve_message scope mid tok now ttl u =
     (case uow_active u of
        Inl e \<Rightarrow> (Inl e, u)
      | Inr _ \<Rightarrow>
          case inbox_begin scope mid tok now ttl (uw_inbox u) of
            (Inl e, s) \<Rightarrow> (Inl e, u\<lparr>uw_inbox := s\<rparr>)
          | (Inr d, s) \<Rightarrow>
              (Inr d, if is_accepted d
                 then u\<lparr>uw_inbox := s, uw_reservations := uw_reservations u @ [(scope, mid, tok)]\<rparr>
                 else u\<lparr>uw_inbox := s\<rparr>))"

definition complete_message :: "inbox_scope \<Rightarrow> opaque_id \<Rightarrow> string \<Rightarrow> datetime \<Rightarrow> ('d uow, bool) act" where
  "complete_message scope mid tok now u =
     (case uow_active u of
        Inl e \<Rightarrow> (Inl e, u)
      | Inr _ \<Rightarrow>
          if (scope, mid, tok) \<notin> set (uw_reservations u) then (Inr False, u)
          else
            case inbox_complete scope mid tok now (uw_inbox u) of
              (Inl e, s) \<Rightarrow> (Inl e, u\<lparr>uw_inbox := s\<rparr>)
            | (Inr False, s) \<Rightarrow> (Inr False, u\<lparr>uw_inbox := s\<rparr>)
            | (Inr True, s) \<Rightarrow>
                (Inr True, u\<lparr>uw_inbox := s, uw_completions := uw_completions u @ [(scope, mid, tok, now)]\<rparr>))"

definition save_decision :: "'d \<Rightarrow> ('d uow, unit) act" where
  "save_decision d u =
     (case uow_active u of
        Inl e \<Rightarrow> (Inl e, u)
      | Inr _ \<Rightarrow>
          if uf_capacity (uw_target u) \<le> int (length (uf_decisions (uw_target u)) + length (uw_staged u))
          then (Inl OverflowError, u)
          else (Inr (), u\<lparr>uw_staged := uw_staged u @ [d]\<rparr>))"

fun abandon_each :: "(inbox_scope \<times> opaque_id \<times> string) list \<Rightarrow> inbox_store \<Rightarrow> inbox_store" where
  "abandon_each [] s = s"
| "abandon_each ((scope, mid, tok) # rs) s = abandon_each rs (snd (inbox_abandon scope mid tok s))"

definition uow_rollback :: "('d uow, unit) act" where
  "uow_rollback u =
     (if uw_finished u then (Inr (), u)
      else (Inr (), u\<lparr>uw_inbox := abandon_each (uw_reservations u) (uw_inbox u), uw_staged := [], uw_completions := [],
                      uw_finished := True\<rparr>))"

text \<open>The compare-and-set of every completion, repeated at commit.\<close>

fun complete_each :: "(inbox_scope \<times> opaque_id \<times> string \<times> datetime) list \<Rightarrow> (inbox_store, bool) act" where
  "complete_each [] s = (Inr True, s)"
| "complete_each ((scope, mid, tok, now) # cs) s =
     (case inbox_complete scope mid tok now s of
        (Inl e, s') \<Rightarrow> (Inl e, s')
      | (Inr False, s') \<Rightarrow> (Inr False, s')
      | (Inr True, s') \<Rightarrow> complete_each cs s')"

definition uow_commit :: "('d uow, unit) act" where
  "uow_commit u =
     (case uow_active u of
        Inl e \<Rightarrow> (Inl e, u)
      | Inr _ \<Rightarrow>
          case complete_each (uw_completions u) (uw_inbox u) of
            (Inl e, s) \<Rightarrow> (Inl e, u\<lparr>uw_inbox := s\<rparr>)
          | (Inr False, s) \<Rightarrow> (Inl RuntimeError, snd (uow_rollback (u\<lparr>uw_inbox := s\<rparr>)))
          | (Inr True, s) \<Rightarrow>
              (Inr (), u\<lparr>uw_inbox := s, uw_finished := True,
                 uw_target := (uw_target u)\<lparr>uf_inbox := (uf_inbox (uw_target u))\<lparr>ibs_entries := ibs_entries s\<rparr>,
                   uf_decisions := uf_decisions (uw_target u) @ uw_staged u\<rparr>\<rparr>))"

text \<open>\<open>__aexit__\<close>: roll back what is not finished and release the factory.\<close>

definition uow_exit :: "'d uow \<Rightarrow> 'd uow_factory" where
  "uow_exit u = uw_target (if uw_finished u then u else snd (uow_rollback u))"

section \<open>Facts\<close>

definition uow_inv :: "'d uow_factory \<Rightarrow> bool" where
  "uow_inv f \<longleftrightarrow> inbox_inv (uf_inbox f) \<and> ibs_capacity (uf_inbox f) = uf_capacity f
     \<and> int (length (uf_decisions f)) \<le> uf_capacity f"

text \<open>Only a commit changes the factory.\<close>

lemma uow_target_unchanged [simp]:
  "uw_target (new_uow f) = f"
  "uw_target (snd (uow_enter u)) = uw_target u"
  "uw_target (snd (reserve_message scope mid tok now ttl u)) = uw_target u"
  "uw_target (snd (complete_message scope mid tok now u)) = uw_target u"
  "uw_target (snd (save_decision d u)) = uw_target u"
  "uw_target (snd (uow_rollback u)) = uw_target u"
  by (auto simp: new_uow_def uow_enter_def reserve_message_def complete_message_def save_decision_def uow_rollback_def
      split: sum.splits prod.splits bool.splits)

lemma uow_exit_target [simp]: "uow_exit u = uw_target u"
  by (simp add: uow_exit_def)

lemma uow_commit_error: "uow_commit u = (Inl e, u') \<Longrightarrow> uw_target u' = uw_target u"
  by (auto simp: uow_commit_def split: sum.splits prod.splits bool.splits)

end
