(* ===== verification/Quarantine.thy ===== *)
theory Quarantine
  imports PyText
begin

text \<open>
  Model of \<open>src/src/pytitect/aio/quarantine.py\<close>: records of rejected deliveries, the bounded construction of such a
  record from an encoded message, and the finite in-memory quarantine.  The SHA-256 digest is a parameter;
  byte strings and metadata are lists.
\<close>

section \<open>Policy and records\<close>

record quarantine_policy =
  qp_retain_payload :: bool
  qp_max_payload_bytes :: int
  qp_max_reason_chars :: int
  qp_max_metadata_items :: int

definition mk_quarantine_policy :: "bool \<Rightarrow> int \<Rightarrow> int \<Rightarrow> int \<Rightarrow> quarantine_policy res" where
  "mk_quarantine_policy retain payload reason metadata =
     (if payload \<le> 0 \<or> reason \<le> 0 \<or> metadata \<le> 0 then Inl ValueError
      else Inr \<lparr>qp_retain_payload = retain, qp_max_payload_bytes = payload, qp_max_reason_chars = reason,
                qp_max_metadata_items = metadata\<rparr>)"

definition default_quarantine_policy :: quarantine_policy where
  "default_quarantine_policy = \<lparr>qp_retain_payload = False, qp_max_payload_bytes = 1048576, qp_max_reason_chars = 512,
     qp_max_metadata_items = 32\<rparr>"

record rejected_delivery =
  rd_quarantine_id :: string
  rd_message_id :: string
  rd_source :: string
  rd_consumer :: string
  rd_failed_at :: instant
  rd_payload_sha256 :: string
  rd_reason :: string
  rd_metadata :: "(string, string) dict"
  rd_payload :: "string option"

definition mk_rejected_delivery ::
    "string \<Rightarrow> string \<Rightarrow> string \<Rightarrow> string \<Rightarrow> datetime \<Rightarrow> string \<Rightarrow> string \<Rightarrow> (string, string) dict \<Rightarrow> string option
     \<Rightarrow> rejected_delivery res" where
  "mk_rejected_delivery qid mid src con failed digest reason metadata payload =
     (if qid = [] \<or> mid = [] \<or> src = [] \<or> con = [] \<or> reason = [] then Inl ValueError
      else if length digest \<noteq> 64 then Inl ValueError
      else and_then (require_aware_utc failed) (\<lambda>t.
        Inr \<lparr>rd_quarantine_id = qid, rd_message_id = mid, rd_source = src, rd_consumer = con, rd_failed_at = t,
             rd_payload_sha256 = digest, rd_reason = reason, rd_metadata = metadata, rd_payload = payload\<rparr>))"

definition quarantine_reason :: "int \<Rightarrow> string \<Rightarrow> string" where
  "quarantine_reason maximum reason =
     (let sanitized = take (nat maximum) (py_join '' '' (py_split reason)) in
      if sanitized = [] then ''rejected'' else sanitized)"

definition build_rejected_delivery ::
    "(string \<Rightarrow> string) \<Rightarrow> string \<Rightarrow> string \<Rightarrow> string \<Rightarrow> string \<Rightarrow> datetime \<Rightarrow> string \<Rightarrow> string \<Rightarrow> quarantine_policy
     \<Rightarrow> (string, string) dict \<Rightarrow> rejected_delivery res" where
  "build_rejected_delivery sha256_hex qid mid src con failed reason encoded policy metadata =
     (if qp_max_metadata_items policy < int (length metadata) then Inl ValueError
      else if qp_max_payload_bytes policy < int (length encoded) then Inl ValueError
      else mk_rejected_delivery qid mid src con failed (sha256_hex encoded)
             (quarantine_reason (qp_max_reason_chars policy) reason) metadata
             (if qp_retain_payload policy then Some encoded else None))"

section \<open>The in-memory quarantine\<close>

record quarantine_store =
  qs_capacity :: int
  qs_items :: "(string, rejected_delivery) dict"

definition InMemoryRejectedDeliveryStore :: "int \<Rightarrow> quarantine_store res" where
  "InMemoryRejectedDeliveryStore capacity =
     (if capacity \<le> 0 then Inl ValueError else Inr \<lparr>qs_capacity = capacity, qs_items = []\<rparr>)"

definition quarantine_items :: "quarantine_store \<Rightarrow> rejected_delivery list" where
  "quarantine_items s = map snd (sort_key fst (qs_items s))"

definition quarantine_add :: "rejected_delivery \<Rightarrow> (quarantine_store, bool) act" where
  "quarantine_add d s =
     (if dict_get (qs_items s) (rd_quarantine_id d) \<noteq> None then (Inr False, s)
      else if qs_capacity s \<le> int (length (qs_items s)) then (Inl OverflowError, s)
      else (Inr True, s\<lparr>qs_items := dict_set (rd_quarantine_id d) d (qs_items s)\<rparr>))"

section \<open>Facts\<close>

definition quarantine_inv :: "quarantine_store \<Rightarrow> bool" where
  "quarantine_inv s \<longleftrightarrow> 0 < qs_capacity s \<and> dict_ok (qs_items s) \<and> int (length (qs_items s)) \<le> qs_capacity s
     \<and> (\<forall>qid d. dict_get (qs_items s) qid = Some d \<longrightarrow> rd_quarantine_id d = qid)"

lemma quarantine_add_inv: "quarantine_inv s \<Longrightarrow> quarantine_inv (snd (quarantine_add d s))"
  by (auto simp: quarantine_add_def quarantine_inv_def dict_simps)

text \<open>A record that was added is never replaced, and a successful call leaves a record under the identifier.\<close>

lemma quarantine_add_keeps:
  "dict_get (qs_items s) qid = Some r \<Longrightarrow> dict_get (qs_items (snd (quarantine_add d s))) qid = Some r"
  by (auto simp: quarantine_add_def dict_simps)

lemma quarantine_add_present:
  "quarantine_add d s = (Inr b, s') \<Longrightarrow> \<exists>r. dict_get (qs_items s') (rd_quarantine_id d) = Some r \<and> (b \<longrightarrow> r = d)"
  by (auto simp: quarantine_add_def dict_simps split: if_splits)

lemma rejected_delivery_bounds:
  assumes "build_rejected_delivery sha256_hex qid mid src con failed reason encoded policy metadata = Inr d"
    and "0 < qp_max_reason_chars policy"
  shows "rd_quarantine_id d = qid \<and> rd_reason d \<noteq> [] \<and> int (length (rd_reason d)) \<le> max 8 (qp_max_reason_chars policy)
    \<and> int (length encoded) \<le> qp_max_payload_bytes policy
    \<and> rd_payload d = (if qp_retain_payload policy then Some encoded else None)
    \<and> rd_payload_sha256 d = sha256_hex encoded"
  using assms
  by (auto simp: build_rejected_delivery_def mk_rejected_delivery_def and_then_eq_Inr quarantine_reason_def Let_def
      split: if_splits)

end
