(* ===== verification/Consumer.thy ===== *)
theory Consumer
  imports UnitOfWork Quarantine
begin

text \<open>
  Model of \<open>AsyncConsumer\<close> in \<open>src/src/pytitect/aio/runtime.py\<close>: the handling of one delivery, from the reservation
  in the inbox over the handler to the settlement with the transport, on the in-memory unit of work and quarantine.

  Every \<open>await\<close> is a point where the event loop may deliver a timeout or a cancellation, and where an operation may
  fail; \<open>at_interrupt\<close> says what happens there, so that a theorem about all attempts is a theorem about all
  such interruptions.  The readings of the clock, the drawn token, the outcome of the handler and of the codec are part of the attempt as well.  The queue and the
  workers of \<open>run\<close> only decide in which order attempts are made.
\<close>

section \<open>Attempts\<close>

datatype process_error =
    Cancelled
  | TimedOut
  | Retryable
  | Permanent string
  | Failure exn

datatype delivery_action = Ack | Retry | Terminate

datatype await_point =
    AwaitEnter | AwaitReserve | AwaitHandler | AwaitSave | AwaitComplete | AwaitCommit | AfterCommit | AwaitRollback
  | AwaitExit | AwaitQuarantine | AwaitDelivery delivery_action

record message_head =
  mh_id :: string
  mh_source :: string
  mh_type :: string

record 'd attempt =
  at_message :: message_head
  at_token :: string
  at_reserve_at :: datetime
  at_complete_at :: datetime
  at_failed_at :: datetime
  at_authority_expired :: bool
  at_handler :: "process_error + 'd"
  at_encoded :: "string res"
  at_interrupt :: "await_point \<Rightarrow> process_error option"

datatype delivery_disposition = DeliveryAck | DeliveryRetry | DeliveryTerminated string

record consumer =
  co_consumer :: string
  co_namespace :: string
  co_policy :: quarantine_policy
  co_reservation_ttl :: timedelta
  co_concurrency :: int
  co_max_message_bytes :: int
  co_admitted :: int

definition mk_consumer ::
    "string \<Rightarrow> string \<Rightarrow> quarantine_policy \<Rightarrow> timedelta \<Rightarrow> timedelta \<Rightarrow> int \<Rightarrow> int \<Rightarrow> int \<Rightarrow> int \<Rightarrow> consumer res" where
  "mk_consumer name namespace policy ttl timeout concurrency queue message_bytes retained_bytes =
     (if name = [] \<or> namespace = [] then Inl ValueError
      else if ttl \<le> 0 \<or> timeout \<le> 0 then Inl ValueError
      else if concurrency \<le> 0 \<or> queue \<le> 0 \<or> message_bytes \<le> 0 \<or> retained_bytes \<le> 0 then Inl ValueError
      else if retained_bytes < message_bytes then Inl ValueError
      else Inr \<lparr>co_consumer = name, co_namespace = namespace, co_policy = policy, co_reservation_ttl = ttl,
                co_concurrency = concurrency, co_max_message_bytes = message_bytes,
                co_admitted = min (concurrency + queue) (retained_bytes div message_bytes)\<rparr>)"

record 'd consumer_world =
  cw_uow :: "'d uow_factory"
  cw_quarantine :: quarantine_store
  cw_actions :: "(message_head \<times> delivery_action) list"
  cw_running :: bool
  cw_processing :: int

section \<open>The transaction of a delivery\<close>

definition await ::
    "'d attempt \<Rightarrow> await_point \<Rightarrow> ('s, 'a) act \<Rightarrow> 's \<Rightarrow> (process_error + 'a) \<times> 's" where
  "await a p m s =
     (case at_interrupt a p of
        Some e \<Rightarrow> (Inl e, s)
      | None \<Rightarrow> (case m s of (Inl e, s') \<Rightarrow> (Inl (Failure e), s') | (Inr x, s') \<Rightarrow> (Inr x, s')))"

text \<open>A body returns its result, whether it had begun to commit, and the unit of work.  \<open>Inr True\<close> stands for
  \<open>outcome = "acknowledged"\<close>, \<open>Inr False\<close> for \<open>outcome = "retried"\<close>.\<close>

type_synonym 'd tx_result = "(process_error + bool) \<times> bool \<times> 'd uow"

definition commit_outcome :: "'d attempt \<Rightarrow> 'd uow \<Rightarrow> 'd tx_result" where
  "commit_outcome a u =
     (case await a AwaitCommit uow_commit u of
        (Inl e, u') \<Rightarrow> (Inl e, True, u')
      | (Inr _, u') \<Rightarrow>
          (case at_interrupt a AfterCommit of Some e \<Rightarrow> (Inl e, True, u') | None \<Rightarrow> (Inr True, True, u')))"

definition handle_accepted :: "'d attempt \<Rightarrow> inbox_scope \<Rightarrow> opaque_id \<Rightarrow> 'd uow \<Rightarrow> 'd tx_result" where
  "handle_accepted a scope mid u =
     (case (case at_interrupt a AwaitHandler of Some e \<Rightarrow> Inl e | None \<Rightarrow> at_handler a) of
        Inl e \<Rightarrow> (Inl e, False, u)
      | Inr decision \<Rightarrow>
          case await a AwaitSave (save_decision decision) u of
            (Inl e, u1) \<Rightarrow> (Inl e, False, u1)
          | (Inr _, u1) \<Rightarrow>
              if at_authority_expired a then (Inl Retryable, False, u1)
              else
                case await a AwaitComplete (complete_message scope mid (at_token a) (at_complete_at a)) u1 of
                  (Inl e, u2) \<Rightarrow> (Inl e, False, u2)
                | (Inr completed, u2) \<Rightarrow>
                    if \<not> completed then (Inl Retryable, False, u2) else commit_outcome a u2)"

definition transaction_body :: "consumer \<Rightarrow> 'd attempt \<Rightarrow> inbox_scope \<Rightarrow> 'd uow \<Rightarrow> 'd tx_result" where
  "transaction_body c a scope u =
     (case mk_opaque_id (mh_id (at_message a)) of
        Inl e \<Rightarrow> (Inl (Failure e), False, u)
      | Inr mid \<Rightarrow>
          case await a AwaitReserve (reserve_message scope mid (at_token a) (at_reserve_at a) (co_reservation_ttl c)) u of
            (Inl e, u1) \<Rightarrow> (Inl e, False, u1)
          | (Inr reservation, u1) \<Rightarrow>
              (case reservation of
                 InboxDuplicate _ \<Rightarrow> commit_outcome a u1
               | InboxAccepted _ \<Rightarrow> handle_accepted a scope mid u1
               | _ \<Rightarrow>
                   (case await a AwaitRollback uow_rollback u1 of
                      (Inl e, u2) \<Rightarrow> (Inl e, False, u2)
                    | (Inr _, u2) \<Rightarrow> (Inr False, False, u2))))"

definition run_transaction ::
    "consumer \<Rightarrow> 'd attempt \<Rightarrow> inbox_scope \<Rightarrow> 'd uow_factory \<Rightarrow> (process_error + bool) \<times> bool \<times> 'd uow_factory" where
  "run_transaction c a scope f =
     (case await a AwaitEnter uow_enter (new_uow f) of
        (Inl e, u) \<Rightarrow> (Inl e, False, f)
      | (Inr _, u) \<Rightarrow>
          (case transaction_body c a scope u of
             (r, committing, u1) \<Rightarrow>
               ((case r of
                   Inl e \<Rightarrow> Inl e
                 | Inr outcome \<Rightarrow> (case at_interrupt a AwaitExit of Some e \<Rightarrow> Inl e | None \<Rightarrow> Inr outcome)),
                committing, uow_exit u1)))"

section \<open>Settlement\<close>

definition deliver :: "'d attempt \<Rightarrow> delivery_action \<Rightarrow> 'd consumer_world \<Rightarrow> (process_error + unit) \<times> 'd consumer_world" where
  "deliver a act w =
     (case at_interrupt a (AwaitDelivery act) of
        Some e \<Rightarrow> (Inl e, w)
      | None \<Rightarrow> (Inr (), w\<lparr>cw_actions := cw_actions w @ [(at_message a, act)]\<rparr>))"

definition settle ::
    "'d attempt \<Rightarrow> delivery_action \<Rightarrow> delivery_disposition \<Rightarrow> 'd consumer_world
     \<Rightarrow> (process_error + delivery_disposition) \<times> 'd consumer_world" where
  "settle a act disposition w =
     (case deliver a act w of (Inl e, w') \<Rightarrow> (Inl e, w') | (Inr _, w') \<Rightarrow> (Inr disposition, w'))"

definition quarantine_id_of :: "consumer \<Rightarrow> message_head \<Rightarrow> string" where
  "quarantine_id_of c m = co_consumer c @ '':'' @ mh_source m @ '':'' @ mh_id m"

definition quarantine_delivery ::
    "(string \<Rightarrow> string) \<Rightarrow> consumer \<Rightarrow> 'd attempt \<Rightarrow> string \<Rightarrow> 'd consumer_world
     \<Rightarrow> (process_error + delivery_disposition) \<times> 'd consumer_world" where
  "quarantine_delivery sha256_hex c a reason w =
     (case at_encoded a of
        Inl e \<Rightarrow> (Inl (Failure e), w)
      | Inr encoded \<Rightarrow>
          case build_rejected_delivery sha256_hex (quarantine_id_of c (at_message a)) (mh_id (at_message a))
                 (mh_source (at_message a)) (co_consumer c) (at_failed_at a) reason encoded (co_policy c)
                 [(''event_type'', mh_type (at_message a))] of
            Inl _ \<Rightarrow> settle a Retry DeliveryRetry w
          | Inr rejected \<Rightarrow>
              (case await a AwaitQuarantine (quarantine_add rejected) (cw_quarantine w) of
                 (Inl e, q) \<Rightarrow>
                   (if e = Cancelled then (Inl Cancelled, w\<lparr>cw_quarantine := q\<rparr>)
                    else settle a Retry DeliveryRetry (w\<lparr>cw_quarantine := q\<rparr>))
               | (Inr _, q) \<Rightarrow>
                   settle a Terminate (DeliveryTerminated (rd_quarantine_id rejected)) (w\<lparr>cw_quarantine := q\<rparr>)))"

definition process_delivery ::
    "(string \<Rightarrow> string) \<Rightarrow> consumer \<Rightarrow> 'd attempt \<Rightarrow> 'd consumer_world
     \<Rightarrow> (process_error + delivery_disposition) \<times> 'd consumer_world" where
  "process_delivery sha256_hex c a w =
     (case mk_inbox_scope (co_namespace c) (mh_source (at_message a)) (co_consumer c) of
        Inl e \<Rightarrow> (Inl (Failure e), w)
      | Inr scope \<Rightarrow>
          (case run_transaction c a scope (cw_uow w) of
             (r, committing, f) \<Rightarrow>
               let w1 = w\<lparr>cw_uow := f\<rparr> in
               (case r of
                  Inl Cancelled \<Rightarrow> (Inl Cancelled, w1)
                | Inl (Permanent reason) \<Rightarrow>
                    if committing then (Inl (Permanent reason), w1) else quarantine_delivery sha256_hex c a reason w1
                | Inl TimedOut \<Rightarrow> if committing then (Inl TimedOut, w1) else settle a Retry DeliveryRetry w1
                | Inl Retryable \<Rightarrow> if committing then (Inl Retryable, w1) else settle a Retry DeliveryRetry w1
                | Inl (Failure e) \<Rightarrow> (Inl (Failure e), w1)
                | Inr acknowledged \<Rightarrow>
                    if acknowledged then settle a Ack DeliveryAck w1 else settle a Retry DeliveryRetry w1)))"

text \<open>\<open>process\<close>: admission, the size check and the counter of deliveries in progress.\<close>

definition process ::
    "(string \<Rightarrow> string) \<Rightarrow> consumer \<Rightarrow> 'd attempt \<Rightarrow> 'd consumer_world
     \<Rightarrow> (process_error + delivery_disposition) \<times> 'd consumer_world" where
  "process sha256_hex c a w =
     (if cw_running w \<or> min (co_concurrency c) (co_admitted c) \<le> cw_processing w
      then (Inl (Failure (OtherError ''RuntimeBusyError'')), w)
      else
        let w1 = w\<lparr>cw_processing := cw_processing w + 1\<rparr>;
            (r, w2) =
              (case at_encoded a of
                 Inl e \<Rightarrow> (Inl (Failure e), w1)
               | Inr encoded \<Rightarrow>
                   if co_max_message_bytes c < int (length encoded) then (Inl (Failure ValueError), w1)
                   else process_delivery sha256_hex c a w1) in
        (r, w2\<lparr>cw_processing := cw_processing w2 - 1\<rparr>))"

section \<open>What a transaction does\<close>

definition completed :: "inbox_store \<Rightarrow> inbox_id set" where
  "completed s = {idn. \<exists>e. dict_get (ibs_entries s) idn = Some e \<and> ib_completed_at e \<noteq> None}"

lemma inbox_begin_accepted:
  assumes "inbox_begin scope mid tok now ttl s = (Inr (InboxAccepted t), s1)"
  shows "InboxId scope mid \<notin> completed s \<and> completed s1 = completed s \<and> ibs_capacity s1 = ibs_capacity s"
  using assms
  by (auto simp: inbox_begin_def inbox_reserve_def completed_def Let_def dict_simps
      split: sum.splits option.splits if_splits)

lemma inbox_begin_duplicate:
  assumes "inbox_begin scope mid tok now ttl s = (Inr (InboxDuplicate t), s1)"
  shows "InboxId scope mid \<in> completed s \<and> s1 = s"
  using assms
  by (auto simp: inbox_begin_def inbox_reserve_def completed_def Let_def split: sum.splits option.splits if_splits)

lemma inbox_complete_True:
  assumes "inbox_complete scope mid tok now s = (Inr True, s1)"
  shows "completed s1 = insert (InboxId scope mid) (completed s) \<and> ibs_capacity s1 = ibs_capacity s"
  using assms
  by (auto simp: inbox_complete_def completed_def dict_simps split: sum.splits option.splits if_splits)

text \<open>The effect of a committed delivery on the factory: one more decision, and the message is completed.\<close>

definition effect :: "'d uow_factory \<Rightarrow> inbox_id \<Rightarrow> 'd \<Rightarrow> 'd uow_factory \<Rightarrow> bool" where
  "effect f idn d f' \<longleftrightarrow> uf_decisions f' = uf_decisions f @ [d] \<and> idn \<notin> completed (uf_inbox f)
     \<and> completed (uf_inbox f') = insert idn (completed (uf_inbox f)) \<and> uow_inv f'"

text \<open>A unit of work in progress on the factory \<open>f\<close>, after the reservation was accepted.\<close>

definition in_progress :: "'d uow_factory \<Rightarrow> inbox_scope \<Rightarrow> opaque_id \<Rightarrow> 'd uow \<Rightarrow> bool" where
  "in_progress f scope mid u \<longleftrightarrow> uw_target u = f \<and> uw_entered u \<and> \<not> uw_finished u \<and> uw_staged u = [] \<and> uw_completions u = []
     \<and> inbox_inv (uw_inbox u) \<and> ibs_capacity (uw_inbox u) = uf_capacity f
     \<and> InboxId scope mid \<notin> completed (uf_inbox f) \<and> completed (uw_inbox u) = completed (uf_inbox f)"

lemma await_Inr: "await a p m s = (Inr x, s') \<Longrightarrow> m s = (Inr x, s')"
  by (auto simp: await_def split: option.splits prod.splits sum.splits)

lemma await_Inl: "await a p m s = (Inl e, s') \<Longrightarrow> s' = s \<or> (\<exists>e'. m s = (Inl e', s'))"
  by (auto simp: await_def split: option.splits prod.splits sum.splits)

lemma await_target:
  assumes "await a p m u = (q, u')" and "uw_target (snd (m u)) = uw_target u"
  shows "uw_target u' = uw_target u"
proof -
  have "u' = u \<or> u' = snd (m u)"
    using assms(1) by (auto simp: await_def split: option.splits prod.splits sum.splits)
  with assms(2) show ?thesis by auto
qed

lemma commit_outcome_target:
  assumes "commit_outcome a u = (r, committing, u')"
  shows "(uw_target u' = uw_target u \<and> r \<noteq> Inr True) \<or> (\<exists>v. uow_commit u = (Inr v, u'))"
proof (cases "await a AwaitCommit uow_commit u")
  case (Pair q u1)
  show ?thesis
  proof (cases q)
    case (Inl e)
    have "uw_target u1 = uw_target u"
      using await_Inl [of a AwaitCommit uow_commit u e u1] Pair Inl by (auto dest: uow_commit_error)
    with assms Pair Inl show ?thesis by (auto simp: commit_outcome_def)
  next
    case (Inr v)
    with Pair have "uow_commit u = (Inr v, u1)" by (auto dest: await_Inr)
    with assms Pair Inr show ?thesis by (auto simp: commit_outcome_def split: option.splits)
  qed
qed

lemma commit_completed_message:
  assumes "in_progress f scope mid u0" and "uow_inv f"
    and save: "save_decision d u0 = (Inr (), u1)" and compl: "complete_message scope mid tok now u1 = (Inr True, u2)"
    and commit: "uow_commit u2 = (Inr v, u3)"
  shows "effect f (InboxId scope mid) d (uw_target u3)"
proof -
  have u1: "u1 = u0\<lparr>uw_staged := [d]\<rparr>" and room: "int (length (uf_decisions f)) < uf_capacity f"
    using assms(1) save by (auto simp: save_decision_def in_progress_def split: sum.splits if_splits)
  obtain s2 where s2: "inbox_complete scope mid tok now (uw_inbox u0) = (Inr True, s2)"
    and u2: "u2 = u1\<lparr>uw_inbox := s2, uw_completions := [(scope, mid, tok, now)]\<rparr>"
    using compl assms(1)
    by (auto simp: complete_message_def u1 in_progress_def split: sum.splits if_splits prod.splits bool.splits)
  obtain s3 where s3: "inbox_complete scope mid tok now s2 = (Inr True, s3)"
    and u3: "uw_target u3 = f\<lparr>uf_inbox := (uf_inbox f)\<lparr>ibs_entries := ibs_entries s3\<rparr>, uf_decisions := uf_decisions f @ [d]\<rparr>"
    using commit assms(1)
    by (auto simp: uow_commit_def u1 u2 in_progress_def split: sum.splits prod.splits bool.splits)
  have c: "completed s3 = insert (InboxId scope mid) (completed (uw_inbox u0))" "ibs_capacity s3 = ibs_capacity (uw_inbox u0)"
    using inbox_complete_True [OF s2] inbox_complete_True [OF s3] by auto
  have "inbox_inv (snd (inbox_complete scope mid tok now s2))"
    using inbox_complete_inv [OF inbox_complete_inv, of "uw_inbox u0"] s2 assms(1) by (metis in_progress_def snd_conv)
  then have inv: "inbox_inv s3" using s3 by simp
  have same: "completed ((uf_inbox f)\<lparr>ibs_entries := ibs_entries s3\<rparr>) = completed s3" by (simp add: completed_def)
  have "inbox_inv ((uf_inbox f)\<lparr>ibs_entries := ibs_entries s3\<rparr>)"
    using inv c(2) assms(1,2) by (simp add: inbox_inv_def in_progress_def uow_inv_def)
  with c same room assms(1,2) show ?thesis by (auto simp: effect_def u3 in_progress_def uow_inv_def)
qed

text \<open>The possible ends of a transaction: nothing happened, the message was completed before, or it is completed now.\<close>

definition tx_end :: "'d attempt \<Rightarrow> 'd uow_factory \<Rightarrow> inbox_id \<Rightarrow> process_error + bool \<Rightarrow> bool \<Rightarrow> 'd uow_factory \<Rightarrow> bool" where
  "tx_end a f idn r committing f' \<longleftrightarrow>
     (f' = f \<and> (r = Inr True \<longrightarrow> idn \<in> completed (uf_inbox f)))
     \<or> (committing \<and> r \<noteq> Inr False \<and> (\<exists>d. at_handler a = Inr d \<and> effect f idn d f'))"

lemma handle_accepted_end:
  assumes prog: "in_progress f scope mid u" and "uow_inv f" and body: "handle_accepted a scope mid u = (r, committing, u')"
  shows "tx_end a f (InboxId scope mid) r committing (uw_target u')"
proof (cases "case at_interrupt a AwaitHandler of Some e \<Rightarrow> Inl e | None \<Rightarrow> at_handler a")
  case (Inl e)
  with body prog show ?thesis by (auto simp: handle_accepted_def tx_end_def in_progress_def)
next
  case (Inr d)
  then have d: "at_handler a = Inr d" by (auto split: option.splits)
  have f: "uw_target u = f" using prog by (simp add: in_progress_def)
  obtain q u1 where save: "await a AwaitSave (save_decision d) u = (q, u1)" by fastforce
  have t1: "uw_target u1 = f"
    using await_target [OF save] f by simp
  show ?thesis
  proof (cases "(\<exists>e. q = Inl e) \<or> at_authority_expired a")
    case True
    with body Inr save t1 show ?thesis by (auto simp: handle_accepted_def tx_end_def split: sum.splits)
  next
    case False
    then obtain v where q: "q = Inr v" by (cases q) auto
    obtain p u2 where compl: "await a AwaitComplete (complete_message scope mid (at_token a) (at_complete_at a)) u1 = (p, u2)"
      by fastforce
    have t2: "uw_target u2 = f"
      using await_target [OF compl] t1 by simp
    show ?thesis
    proof (cases "p = Inr True")
      case False
      with body Inr save q compl t2 \<open>\<not> ((\<exists>e. q = Inl e) \<or> at_authority_expired a)\<close> show ?thesis
        by (auto simp: handle_accepted_def tx_end_def split: sum.splits)
    next
      case True
      have co: "commit_outcome a u2 = (r, committing, u')"
        using body Inr save q compl True \<open>\<not> ((\<exists>e. q = Inl e) \<or> at_authority_expired a)\<close>
        by (simp add: handle_accepted_def)
      then have cm: "committing \<and> r \<noteq> Inr False" by (auto simp: commit_outcome_def split: prod.splits sum.splits option.splits)
      from commit_outcome_target [OF co] show ?thesis
      proof
        assume "uw_target u' = uw_target u2 \<and> r \<noteq> Inr True"
        with t2 show ?thesis by (simp add: tx_end_def)
      next
        assume "\<exists>v. uow_commit u2 = (Inr v, u')"
        then obtain v where "uow_commit u2 = (Inr v, u')" by blast
        with commit_completed_message [OF prog assms(2)] await_Inr [OF save [unfolded q]] await_Inr [OF compl [unfolded True]]
        show ?thesis using cm d by (auto simp: tx_end_def)
      qed
    qed
  qed
qed

lemma commit_duplicate:
  assumes "uw_completions u = []" "uw_staged u = []" "uow_commit u = (Inr v, u')"
    and "ibs_entries (uw_inbox u) = ibs_entries (uf_inbox (uw_target u))"
  shows "uw_target u' = uw_target u"
  using assms by (auto simp: uow_commit_def split: sum.splits)

lemma transaction_body_end:
  assumes u: "u = snd (uow_enter (new_uow f))" and inv: "uow_inv f"
    and body: "transaction_body c a scope u = (r, committing, u')"
  shows "tx_end a f (InboxId scope (OpaqueId (mh_id (at_message a)))) r committing (uw_target u')"
proof (cases "mk_opaque_id (mh_id (at_message a))")
  case (Inl e)
  with body u show ?thesis by (auto simp: transaction_body_def tx_end_def)
next
  case (Inr mid)
  then have mid: "mid = OpaqueId (mh_id (at_message a))" by (auto simp: mk_opaque_id_def split: if_splits)
  have start: "uw_target u = f" "uw_entered u" "\<not> uw_finished u" "uw_staged u = []" "uw_completions u = []"
      "ibs_entries (uw_inbox u) = ibs_entries (uf_inbox f)" "ibs_capacity (uw_inbox u) = uf_capacity f" "uw_reservations u = []"
    by (simp_all add: u uow_enter_def new_uow_def)
  have inbox: "uw_inbox u = uf_inbox f" using start(6,7) inv by (simp add: uow_inv_def)
  obtain q u1 where res: "await a AwaitReserve (reserve_message scope mid (at_token a) (at_reserve_at a) (co_reservation_ttl c)) u = (q, u1)"
    by fastforce
  have t1: "uw_target u1 = f"
    using await_target [OF res] start(1) by simp
  show ?thesis
  proof (cases q)
    case (Inl e)
    with body Inr res t1 show ?thesis by (auto simp: transaction_body_def tx_end_def)
  next
    case (Inr reservation)
    note q = Inr
    from await_Inr [OF res [unfolded q]] start obtain s1 where s1:
        "inbox_begin scope mid (at_token a) (at_reserve_at a) (co_reservation_ttl c) (uf_inbox f) = (Inr reservation, s1)"
      and u1: "uw_inbox u1 = s1" "uw_staged u1 = []" "uw_completions u1 = []" "uw_entered u1" "\<not> uw_finished u1"
      by (auto simp: reserve_message_def uow_active_def inbox split: prod.splits sum.splits if_splits)
    have rest: "transaction_body c a scope u =
        (case reservation of
           InboxDuplicate _ \<Rightarrow> commit_outcome a u1
         | InboxAccepted _ \<Rightarrow> handle_accepted a scope mid u1
         | _ \<Rightarrow> (case await a AwaitRollback uow_rollback u1 of
                  (Inl e, u2) \<Rightarrow> (Inl e, False, u2) | (Inr _, u2) \<Rightarrow> (Inr False, False, u2)))"
      using \<open>mk_opaque_id (mh_id (at_message a)) = Inr mid\<close> res q by (simp add: transaction_body_def)
    have rolled: "tx_end a f (InboxId scope mid) r committing (uw_target u')"
      if "(case await a AwaitRollback uow_rollback u1 of
            (Inl e, u2) \<Rightarrow> (Inl e, False, u2) | (Inr _, u2) \<Rightarrow> (Inr False, False, u2)) = (r, committing, u')"
    proof -
      obtain p u2 where roll: "await a AwaitRollback uow_rollback u1 = (p, u2)" by fastforce
      then have "uw_target u2 = f" using await_target [OF roll] t1 by simp
      with that roll show ?thesis by (auto simp: tx_end_def split: sum.splits)
    qed
    show ?thesis
    proof (cases reservation)
      case (InboxAccepted t)
      have "inbox_inv s1" using inbox_begin_inv [of "uf_inbox f"] s1 inv by (metis snd_conv uow_inv_def)
      with inbox_begin_accepted [OF s1 [unfolded InboxAccepted]] u1 t1 inv have "in_progress f scope mid u1"
        by (simp add: in_progress_def uow_inv_def)
      then show ?thesis using handle_accepted_end inv body rest InboxAccepted mid by simp
    next
      case (InboxDuplicate t)
      then have dup: "InboxId scope mid \<in> completed (uf_inbox f)" "s1 = uf_inbox f"
        using inbox_begin_duplicate [of scope mid] s1 by auto
      have co: "commit_outcome a u1 = (r, committing, u')" using body rest InboxDuplicate by simp
      have "uw_target u' = f"
        using commit_outcome_target [OF co] commit_duplicate [OF u1(3,2)] u1(1) dup(2) t1 by auto
      with dup mid show ?thesis by (simp add: tx_end_def)
    next
      case (InboxInProgress t)
      with rolled body rest mid show ?thesis by simp
    next
      case (InboxCapacityExceeded n)
      with rolled body rest mid show ?thesis by simp
    qed
  qed
qed

lemma run_transaction_end:
  assumes "uow_inv f" and "run_transaction c a scope f = (r, committing, f')"
  shows "tx_end a f (InboxId scope (OpaqueId (mh_id (at_message a)))) r committing f'"
proof (cases "at_interrupt a AwaitEnter")
  case (Some e)
  with assms(2) show ?thesis by (auto simp: run_transaction_def await_def tx_end_def)
next
  case None
  define u0 where "u0 = snd (uow_enter (new_uow f))"
  have enter: "uow_enter (new_uow f) = (Inr (), u0)"
    by (simp add: u0_def uow_enter_def new_uow_def)
  obtain r0 cm u where body: "transaction_body c a scope u0 = (r0, cm, u)"
    by (metis prod_cases3)
  have "f' = uw_target u" "committing = cm" "r = r0 \<or> (\<exists>e. r = Inl e)"
    using assms(2) by (auto simp: run_transaction_def await_def None enter body split: sum.splits option.splits)
  with transaction_body_end [OF u0_def assms(1) body] show ?thesis by (auto simp: tx_end_def)
qed

section \<open>What a delivery does\<close>

definition message_key :: "consumer \<Rightarrow> 'd attempt \<Rightarrow> inbox_id" where
  "message_key c a = InboxId \<lparr>ins_namespace = co_namespace c, ins_source = mh_source (at_message a), ins_consumer = co_consumer c\<rparr>
     (OpaqueId (mh_id (at_message a)))"

abbreviation delivered_messages :: "'d consumer_world \<Rightarrow> inbox_id set" where
  "delivered_messages w \<equiv> completed (uf_inbox (cw_uow w))"

text \<open>A delivery changes the unit of work not at all, or by exactly one committed decision of its handler.\<close>

definition world_step :: "consumer \<Rightarrow> 'd attempt \<Rightarrow> 'd consumer_world \<Rightarrow> 'd consumer_world \<Rightarrow> bool" where
  "world_step c a w w' \<longleftrightarrow> cw_uow w' = cw_uow w
     \<or> (\<exists>d. at_handler a = Inr d \<and> effect (cw_uow w) (message_key c a) d (cw_uow w'))"

definition truthful :: "consumer \<Rightarrow> 'd attempt \<Rightarrow> 'd consumer_world \<Rightarrow> process_error + delivery_disposition \<Rightarrow> 'd consumer_world \<Rightarrow> bool" where
  "truthful c a w r w' \<longleftrightarrow>
     (case r of
        Inl e \<Rightarrow> cw_actions w' = cw_actions w
      | Inr DeliveryAck \<Rightarrow> message_key c a \<in> delivered_messages w' \<and> cw_actions w' = cw_actions w @ [(at_message a, Ack)]
      | Inr DeliveryRetry \<Rightarrow> cw_uow w' = cw_uow w \<and> cw_actions w' = cw_actions w @ [(at_message a, Retry)]
      | Inr (DeliveryTerminated q) \<Rightarrow> cw_uow w' = cw_uow w \<and> q = quarantine_id_of c (at_message a)
          \<and> dict_get (qs_items (cw_quarantine w')) q \<noteq> None \<and> cw_actions w' = cw_actions w @ [(at_message a, Terminate)])"

lemma settle_uow [simp]:
  "cw_uow (snd (settle a act dis w)) = cw_uow w"
  "cw_quarantine (snd (settle a act dis w)) = cw_quarantine w"
  by (auto simp: settle_def deliver_def split: option.splits)

lemma settle_cases:
  "settle a act dis w = (r, w') \<Longrightarrow>
     cw_uow w' = cw_uow w \<and> cw_quarantine w' = cw_quarantine w
     \<and> ((\<exists>e. r = Inl e) \<and> cw_actions w' = cw_actions w \<or> r = Inr dis \<and> cw_actions w' = cw_actions w @ [(at_message a, act)])"
  by (auto simp: settle_def deliver_def split: option.splits)

lemma quarantine_delivery_end:
  assumes "quarantine_delivery sha256_hex c a reason w = (r, w')"
  shows "cw_uow w' = cw_uow w \<and> truthful c a w r w'"
proof (cases "at_encoded a")
  case (Inl e)
  with assms show ?thesis by (auto simp: quarantine_delivery_def truthful_def)
next
  case (Inr encoded)
  let ?build = "build_rejected_delivery sha256_hex (quarantine_id_of c (at_message a)) (mh_id (at_message a))
    (mh_source (at_message a)) (co_consumer c) (at_failed_at a) reason encoded (co_policy c) [(''event_type'', mh_type (at_message a))]"
  have retried: "cw_uow w' = cw_uow w \<and> truthful c a w r w'"
    if "settle a Retry DeliveryRetry (w\<lparr>cw_quarantine := q\<rparr>) = (r, w')" for q
    using settle_cases [OF that] by (auto simp: truthful_def)
  show ?thesis
  proof (cases ?build)
    case (Inl e)
    with assms Inr retried [of "cw_quarantine w"] show ?thesis by (simp add: quarantine_delivery_def)
  next
    case built: (Inr rejected)
    then have id: "rd_quarantine_id rejected = quarantine_id_of c (at_message a)"
      by (auto simp: build_rejected_delivery_def mk_rejected_delivery_def and_then_eq_Inr split: if_splits)
    obtain p q where add: "await a AwaitQuarantine (quarantine_add rejected) (cw_quarantine w) = (p, q)" by fastforce
    show ?thesis
    proof (cases p)
      case (Inl e)
      with assms Inr built add retried [of q] show ?thesis
        by (auto simp: quarantine_delivery_def truthful_def split: if_splits)
    next
      case p: (Inr b)
      have "dict_get (qs_items q) (quarantine_id_of c (at_message a)) \<noteq> None"
        using quarantine_add_present [OF await_Inr [OF add [unfolded p]]] id by auto
      moreover have "settle a Terminate (DeliveryTerminated (rd_quarantine_id rejected)) (w\<lparr>cw_quarantine := q\<rparr>) = (r, w')"
        using assms Inr built add p by (simp add: quarantine_delivery_def)
      ultimately show ?thesis using settle_cases id by (fastforce simp: truthful_def)
    qed
  qed
qed

lemma process_delivery_end:
  assumes inv: "uow_inv (cw_uow w)" and ret: "process_delivery sha256_hex c a w = (r, w')"
  shows "world_step c a w w' \<and> truthful c a w r w'"
proof (cases "mk_inbox_scope (co_namespace c) (mh_source (at_message a)) (co_consumer c)")
  case (Inl e)
  with ret show ?thesis by (auto simp: process_delivery_def world_step_def truthful_def)
next
  case (Inr scope)
  then have key: "InboxId scope (OpaqueId (mh_id (at_message a))) = message_key c a"
    by (auto simp: mk_inbox_scope_def message_key_def split: if_splits)
  obtain q committing f where tx: "run_transaction c a scope (cw_uow w) = (q, committing, f)" by (metis prod_cases3)
  note e = run_transaction_end [OF inv tx, unfolded key]
  let ?w1 = "w\<lparr>cw_uow := f\<rparr>"
  have step: "world_step c a w w'" if "cw_uow w' = f" using e that by (auto simp: world_step_def tx_end_def)
  have retried: "world_step c a w w' \<and> truthful c a w r w'"
    if "settle a Retry DeliveryRetry ?w1 = (r, w')" and "f = cw_uow w"
    using settle_cases [OF that(1)] that(2) by (auto simp: truthful_def world_step_def)
  have raised: "world_step c a w w' \<and> truthful c a w r w'" if "r = Inl x" "w' = ?w1" for x
    using that step by (auto simp: truthful_def)
  have same: "f = cw_uow w" if "\<not> committing \<or> q = Inr False" using e that by (auto simp: tx_end_def)
  note eq = ret [unfolded process_delivery_def Inr tx sum.case prod.case Let_def]
  show ?thesis
  proof (cases q)
    case (Inr b)
    show ?thesis
    proof (cases b)
      case True
      then have st: "settle a Ack DeliveryAck ?w1 = (r, w')" using eq Inr by simp
      have "message_key c a \<in> completed (uf_inbox f)" using e Inr True by (auto simp: tx_end_def effect_def)
      with settle_cases [OF st] step show ?thesis by (auto simp: truthful_def)
    next
      case False
      with eq Inr retried same show ?thesis by simp
    qed
  next
    case (Inl x)
    show ?thesis
    proof (cases x)
      case (Permanent reason)
      show ?thesis
      proof (cases committing)
        case False
        then have "quarantine_delivery sha256_hex c a reason w = (r, w')" using eq Inl Permanent same by simp
        from quarantine_delivery_end [OF this] show ?thesis by (auto simp: world_step_def)
      qed (use eq Inl Permanent raised in auto)
    next
      case TimedOut
      with eq Inl retried raised same show ?thesis by (cases committing) auto
    next
      case Retryable
      with eq Inl retried raised same show ?thesis by (cases committing) auto
    qed (use eq Inl raised in auto)
  qed
qed

lemma process_outcome:
  assumes inv: "uow_inv (cw_uow w)" and ret: "process sha256_hex c a w = (r, w')"
  shows "world_step c a w w' \<and> truthful c a w r w'"
proof (cases "cw_running w \<or> min (co_concurrency c) (co_admitted c) \<le> cw_processing w")
  case True
  with ret show ?thesis by (auto simp: process_def world_step_def truthful_def)
next
  case False
  let ?w1 = "w\<lparr>cw_processing := cw_processing w + 1\<rparr>"
  let ?inner = "case at_encoded a of
      Inl e \<Rightarrow> (Inl (Failure e), ?w1)
    | Inr encoded \<Rightarrow>
        if co_max_message_bytes c < int (length encoded) then (Inl (Failure ValueError), ?w1)
        else process_delivery sha256_hex c a ?w1"
  obtain q w2 where inner: "?inner = (q, w2)" by fastforce
  have rw: "r = q" "w' = w2\<lparr>cw_processing := cw_processing w2 - 1\<rparr>"
    using ret False inner by (auto simp: process_def Let_def split: sum.splits)
  have "world_step c a ?w1 w2 \<and> truthful c a ?w1 q w2"
  proof (cases "\<exists>encoded. at_encoded a = Inr encoded \<and> int (length encoded) \<le> co_max_message_bytes c")
    case True
    with inner have "process_delivery sha256_hex c a ?w1 = (q, w2)" by auto
    with process_delivery_end [of ?w1] inv show ?thesis by simp
  next
    case False
    with inner show ?thesis by (cases "at_encoded a") (auto simp: world_step_def truthful_def)
  qed
  then show ?thesis
    by (auto simp: rw world_step_def truthful_def split: sum.splits delivery_disposition.splits)
qed

section \<open>Sequences of deliveries\<close>

text \<open>Deliveries to any consumers that share the unit of work, in the order in which the factory's lock is taken.\<close>

definition delivery_step ::
    "(string \<Rightarrow> string) \<Rightarrow> consumer \<times> 'd attempt \<Rightarrow> 'd consumer_world
     \<Rightarrow> (process_error + delivery_disposition) \<times> 'd consumer_world" where
  "delivery_step sha256_hex x w = process sha256_hex (fst x) (snd x) w"

text \<open>The effects of a sequence of deliveries: for every delivery that made the decisions grow, its message and the new
  decision.\<close>

fun committed_effects ::
    "(string \<Rightarrow> string) \<Rightarrow> (consumer \<times> 'd attempt) list \<Rightarrow> 'd consumer_world \<Rightarrow> (inbox_id \<times> 'd) list" where
  "committed_effects sha256_hex [] w = []"
| "committed_effects sha256_hex (x # xs) w =
     (let w' = snd (delivery_step sha256_hex x w) in
      (if length (uf_decisions (cw_uow w')) = length (uf_decisions (cw_uow w)) then []
       else [(message_key (fst x) (snd x), last (uf_decisions (cw_uow w')))]) @ committed_effects sha256_hex xs w')"

lemma effects_of_run:
  assumes "uow_inv (cw_uow w)"
  shows "let es = committed_effects sha256_hex xs w; w' = snd (run (delivery_step sha256_hex) xs w) in
    uow_inv (cw_uow w') \<and> uf_decisions (cw_uow w') = uf_decisions (cw_uow w) @ map snd es
    \<and> delivered_messages w' = delivered_messages w \<union> fst ` set es
    \<and> distinct (map fst es) \<and> fst ` set es \<inter> delivered_messages w = {}
    \<and> (\<forall>(k, d)\<in>set es. \<exists>(c, a)\<in>set xs. message_key c a = k \<and> at_handler a = Inr d)"
  using assms
proof (induction xs arbitrary: w)
  case Nil
  then show ?case by simp
next
  case (Cons x xs)
  obtain c a where x: "x = (c, a)" by (cases x)
  obtain r w1 where st: "process sha256_hex c a w = (r, w1)" by fastforce
  then have w1: "snd (delivery_step sha256_hex x w) = w1" by (simp add: delivery_step_def x)
  from process_outcome [OF Cons.prems st] have step: "world_step c a w w1" by simp
  have inv1: "uow_inv (cw_uow w1)" using step Cons.prems by (auto simp: world_step_def effect_def)
  note IH = Cons.IH [OF inv1, unfolded Let_def]
  show ?case
  proof (cases "cw_uow w1 = cw_uow w")
    case True
    with IH show ?thesis by (simp add: w1 Let_def) blast
  next
    case False
    with step obtain d where d: "at_handler a = Inr d" "effect (cw_uow w) (message_key c a) d (cw_uow w1)"
      by (auto simp: world_step_def)
    then have grown: "uf_decisions (cw_uow w1) = uf_decisions (cw_uow w) @ [d]"
      and key: "message_key c a \<notin> delivered_messages w"
      and del: "delivered_messages w1 = insert (message_key c a) (delivered_messages w)"
      by (auto simp: effect_def)
    have es: "committed_effects sha256_hex (x # xs) w = (message_key c a, d) # committed_effects sha256_hex xs w1"
      using w1 grown by (simp add: x)
    show ?thesis
      unfolding es run_Cons w1 Let_def using IH grown key del d(1) x by auto
  qed
qed

lemma acknowledged_are_delivered:
  assumes "uow_inv (cw_uow w)" and "i < length xs"
    and "fst (run (delivery_step sha256_hex) xs w) ! i = Inr DeliveryAck"
  shows "message_key (fst (xs ! i)) (snd (xs ! i)) \<in> delivered_messages (snd (run (delivery_step sha256_hex) xs w))"
  using assms
proof (induction xs arbitrary: w i)
  case (Cons x xs)
  obtain c a where x: "x = (c, a)" by (cases x)
  obtain r w1 where st: "process sha256_hex c a w = (r, w1)" by fastforce
  then have w1: "delivery_step sha256_hex x w = (r, w1)" by (simp add: delivery_step_def x)
  from process_outcome [OF Cons.prems(1) st] have step: "world_step c a w w1" "truthful c a w r w1" by simp_all
  have inv1: "uow_inv (cw_uow w1)" using step(1) Cons.prems(1) by (auto simp: world_step_def effect_def)
  show ?case
  proof (cases i)
    case 0
    then have "message_key c a \<in> delivered_messages w1" using Cons.prems(3) w1 step(2) by (auto simp: truthful_def)
    then show ?thesis using effects_of_run [OF inv1, of sha256_hex xs] 0 w1 x by (auto simp: Let_def)
  next
    case (Suc j)
    with Cons.IH [OF inv1, of j] Cons.prems w1 show ?thesis by simp
  qed
qed simp

section \<open>Properties\<close>

text \<open>C2.  Messages take effect exactly once.  Starting from a new unit-of-work factory, take any sequence of deliveries to any
  consumers, the same message as often as the transport repeats it, with any timeouts, cancellations and failures at
  the awaits.  The saved decisions are exactly those of the committed deliveries, no message of a consumer is committed twice, each
  decision is the one that the handler returned for that message, and every delivery that was acknowledged belongs to a committed message.\<close>

theorem acknowledged_messages_take_effect_exactly_once:
  assumes "InMemoryAsyncUnitOfWorkFactory capacity = Inr (cw_uow w)"
  shows "let es = committed_effects sha256_hex xs w; (rs, w') = run (delivery_step sha256_hex) xs w in
    uf_decisions (cw_uow w') = map snd es \<and> distinct (map fst es)
    \<and> (\<forall>(k, d)\<in>set es. \<exists>(c, a)\<in>set xs. message_key c a = k \<and> at_handler a = Inr d)
    \<and> (\<forall>i<length xs. rs ! i = Inr DeliveryAck \<longrightarrow> message_key (fst (xs ! i)) (snd (xs ! i)) \<in> fst ` set es)"
proof -
  have f: "cw_uow w = \<lparr>uf_capacity = capacity, uf_inbox = \<lparr>ibs_capacity = capacity, ibs_entries = []\<rparr>, uf_decisions = []\<rparr>"
    and "0 < capacity"
    using assms by (auto simp: InMemoryAsyncUnitOfWorkFactory_def InMemoryInboxStore_def split: if_splits)
  then have start: "uf_decisions (cw_uow w) = []" "delivered_messages w = {}" "uow_inv (cw_uow w)"
    by (simp_all add: f completed_def uow_inv_def inbox_inv_def)
  show ?thesis
    using effects_of_run [OF start(3), of sha256_hex xs] acknowledged_are_delivered [OF start(3), of _ xs sha256_hex] start(1,2)
    by (simp add: Let_def split_def)
qed

definition sample_consumer :: consumer where
  "sample_consumer = \<lparr>co_consumer = ''c'', co_namespace = ''n'', co_policy = default_quarantine_policy, co_reservation_ttl = 100,
     co_concurrency = 1, co_max_message_bytes = 10, co_admitted = 2\<rparr>"

definition sample_attempt :: "string \<Rightarrow> (await_point \<Rightarrow> process_error option) \<Rightarrow> nat attempt" where
  "sample_attempt tok interrupt = \<lparr>at_message = \<lparr>mh_id = ''m'', mh_source = ''s'', mh_type = ''t''\<rparr>, at_token = tok,
     at_reserve_at = utc_datetime 0, at_complete_at = utc_datetime 1, at_failed_at = utc_datetime 1,
     at_authority_expired = False, at_handler = Inr 7, at_encoded = Inr ''x'', at_interrupt = interrupt\<rparr>"

definition sample_consumer_world :: "nat consumer_world" where
  "sample_consumer_world = \<lparr>cw_uow = \<lparr>uf_capacity = 5, uf_inbox = \<lparr>ibs_capacity = 5, ibs_entries = []\<rparr>, uf_decisions = []\<rparr>,
     cw_quarantine = \<lparr>qs_capacity = 5, qs_items = []\<rparr>, cw_actions = [], cw_running = False, cw_processing = 0\<rparr>"

text \<open>The first delivery loses its acknowledgement after the commit, the second is acknowledged as a duplicate.\<close>

definition sample_deliveries :: "(consumer \<times> nat attempt) list" where
  "sample_deliveries =
     [(sample_consumer, sample_attempt ''t1'' (\<lambda>p. if p = AwaitDelivery Ack then Some Cancelled else None)),
      (sample_consumer, sample_attempt ''t2'' (\<lambda>_. None))]"

lemmas consumer_eval = delivery_step_def process_def process_delivery_def run_transaction_def transaction_body_def
  handle_accepted_def commit_outcome_def await_def settle_def deliver_def uow_enter_def new_uow_def uow_active_def
  reserve_message_def complete_message_def save_decision_def uow_commit_def uow_exit_def uow_rollback_def
  inbox_begin_def inbox_reserve_def inbox_complete_def is_accepted_def mk_inbox_scope_def mk_opaque_id_def
  require_aware_utc_def utc_datetime_def dt_plus_def dt_max_def check_def

theorem acknowledged_messages_take_effect_exactly_once_witness:
  "uf_decisions (cw_uow (snd (run (delivery_step (\<lambda>_. [])) sample_deliveries sample_consumer_world))) = [7]
   \<and> fst (run (delivery_step (\<lambda>_. [])) sample_deliveries sample_consumer_world) = [Inl Cancelled, Inr DeliveryAck]"
proof -
  have init: "InMemoryAsyncUnitOfWorkFactory 5 = Inr (cw_uow sample_consumer_world)"
    by (simp add: InMemoryAsyncUnitOfWorkFactory_def InMemoryInboxStore_def sample_consumer_world_def)
  have rs: "fst (run (delivery_step (\<lambda>_. [])) sample_deliveries sample_consumer_world) = [Inl Cancelled, Inr DeliveryAck]"
    by (simp add: sample_deliveries_def sample_consumer_def sample_attempt_def sample_consumer_world_def consumer_eval
        py_strip_def is_space_def)
  have es: "map snd (committed_effects (\<lambda>_. []) sample_deliveries sample_consumer_world) = [7]"
    by (simp add: sample_deliveries_def sample_consumer_def sample_attempt_def sample_consumer_world_def consumer_eval
        py_strip_def is_space_def)
  from acknowledged_messages_take_effect_exactly_once [OF init, of "\<lambda>_. []" sample_deliveries] es rs
  show ?thesis by (simp add: Let_def split_def)
qed



end
