(* ===== verification/AsyncOutbox.thy ===== *)
theory AsyncOutbox
  imports Outbox "HOL-Library.Sublist"
begin

text \<open>
  Model of \<open>InMemoryAsyncOutboxStore\<close> in \<open>src/src/pytitect/aio/stores.py\<close>, the store of the asynchronous relay.  It adds to the synchronous
  outbox a dictionary of messages whose publication is uncertain, a byte bound on claims, deferral, and
  the rule that an expired claim settles nothing.  The lock is held for the whole body of an operation, so an operation is one
  step.  The size of a payload (the callback, or the length of the encoded message) is a parameter.
\<close>

declare map_of_eq_Some_iff [simp del] Some_eq_map_of_iff [simp del]

section \<open>The store\<close>

datatype settlement_result = APPLIED | STALE | DEFERRED

definition settled_truth :: "settlement_result \<Rightarrow> bool" where
  "settled_truth r \<longleftrightarrow> r \<noteq> STALE"

record 'p async_outbox =
  ao_store :: "'p outbox_store"
  ao_uncertain :: "(opaque_id, instant) dict"

definition InMemoryAsyncOutboxStore :: "int \<Rightarrow> 'p async_outbox res" where
  "InMemoryAsyncOutboxStore capacity =
     and_then (InMemoryOutboxStore capacity) (\<lambda>st. Inr \<lparr>ao_store = st, ao_uncertain = []\<rparr>)"

definition on_outbox :: "('p outbox_store, 'a) act \<Rightarrow> ('p async_outbox, 'a) act" where
  "on_outbox m s = (case m (ao_store s) of (r, st) \<Rightarrow> (r, s\<lparr>ao_store := st\<rparr>))"

definition async_add :: "'p outbox_envelope \<Rightarrow> ('p async_outbox, outbox_add_result) act" where
  "async_add env = on_outbox (outbox_add env)"

section \<open>Bounded claims\<close>

text \<open>The uncertain messages are taken out of the dictionary during the claim and put back after it.\<close>

fun pop_held :: "'k list \<Rightarrow> ('k, 'v) dict \<Rightarrow> ('k, 'v) dict res \<times> ('k, 'v) dict" where
  "pop_held [] items = (Inr [], items)"
| "pop_held (k # ks) items =
     (case dict_get items k of
        None \<Rightarrow> (Inl KeyError, items)
      | Some it \<Rightarrow>
          (case pop_held ks (dict_pop k items) of
             (Inl e, rest) \<Rightarrow> (Inl e, rest)
           | (Inr held, rest) \<Rightarrow> (Inr ((k, it) # held), rest)))"

definition dict_update :: "('k, 'v) dict \<Rightarrow> ('k, 'v) dict \<Rightarrow> ('k, 'v) dict" where
  "dict_update held d = fold (\<lambda>p. dict_set (fst p) (snd p)) held d"

definition unclaimed :: "'p stored \<Rightarrow> 'p stored" where
  "unclaimed it = it\<lparr>st_claim_id := None, st_claimed_until := None\<rparr>"

fun bound_claims ::
    "('p \<Rightarrow> int res) \<Rightarrow> int \<Rightarrow> int \<Rightarrow> 'p outbox_claim list \<Rightarrow> 'p outbox_claim list \<Rightarrow> ('p outbox_store, 'p outbox_claim list) act" where
  "bound_claims payload_size max_bytes retained selected [] st = (Inr selected, st)"
| "bound_claims payload_size max_bytes retained selected (c # cs) st =
     (case payload_size (oe_payload (oc_envelope c)) of
        Inl e \<Rightarrow> (Inl e, st)
      | Inr n \<Rightarrow>
          if n < 0 then (Inl ValueError, st)
          else if retained + n \<le> max_bytes
          then bound_claims payload_size max_bytes (retained + n) (selected @ [c]) cs st
          else
            (case valid_item c st of
               None \<Rightarrow> (Inl AssertionError, st)
             | Some it \<Rightarrow> bound_claims payload_size max_bytes retained selected cs
                            (put_item (oe_message_id (oc_envelope c)) (unclaimed it) st)))"

definition async_claim ::
    "('p \<Rightarrow> int res) \<Rightarrow> datetime \<Rightarrow> int \<Rightarrow> timedelta \<Rightarrow> int option \<Rightarrow> (nat \<Rightarrow> string)
     \<Rightarrow> ('p async_outbox, 'p outbox_claim list) act" where
  "async_claim payload_size now limit claim_ttl max_bytes uuid s =
     (if (case max_bytes of None \<Rightarrow> False | Some b \<Rightarrow> b \<le> 0) then (Inl ValueError, s)
      else
        (case pop_held (dict_keys (ao_uncertain s)) (obs_items (ao_store s)) of
           (Inl e, items) \<Rightarrow> (Inl e, s\<lparr>ao_store := (ao_store s)\<lparr>obs_items := items\<rparr>\<rparr>)
         | (Inr held, items) \<Rightarrow>
             (case outbox_claim_items now limit claim_ttl uuid ((ao_store s)\<lparr>obs_items := items\<rparr>) of
                (r, st) \<Rightarrow>
                  let st' = st\<lparr>obs_items := dict_update held (obs_items st)\<rparr> in
                  (case r of
                     Inl e \<Rightarrow> (Inl e, s\<lparr>ao_store := st'\<rparr>)
                   | Inr claims \<Rightarrow>
                       (case max_bytes of
                          None \<Rightarrow> (Inr claims, s\<lparr>ao_store := st'\<rparr>)
                        | Some b \<Rightarrow>
                            (case bound_claims payload_size b 0 [] claims st' of
                               (r', st'') \<Rightarrow> (r', s\<lparr>ao_store := st''\<rparr>)))))))"

section \<open>Settlements\<close>

definition current :: "'p outbox_claim \<Rightarrow> datetime \<Rightarrow> 'p async_outbox \<Rightarrow> bool res" where
  "current c on s =
     and_then (require_aware_utc on) (\<lambda>t.
       Inr (case valid_item c (ao_store s) of
              None \<Rightarrow> False
            | Some it \<Rightarrow> st_claimed_until it = Some (oc_claimed_until c) \<and> t < oc_claimed_until c))"

text \<open>A settlement with a claim that is not current is stale and changes nothing.\<close>

definition when_current ::
    "'p outbox_claim \<Rightarrow> datetime \<Rightarrow> ('p async_outbox, settlement_result) act \<Rightarrow> ('p async_outbox, settlement_result) act" where
  "when_current c on m s =
     (case current c on s of
        Inl e \<Rightarrow> (Inl e, s)
      | Inr False \<Rightarrow> (Inr STALE, s)
      | Inr True \<Rightarrow> m s)"

definition async_delivered :: "'p outbox_claim \<Rightarrow> datetime \<Rightarrow> ('p async_outbox, settlement_result) act" where
  "async_delivered c on = when_current c on (sbind (on_outbox (outbox_delivered c on)) (\<lambda>_. sreturn APPLIED))"

definition async_retry :: "'p outbox_claim \<Rightarrow> datetime \<Rightarrow> datetime \<Rightarrow> ('p async_outbox, settlement_result) act" where
  "async_retry c available_at on = when_current c on (sbind (on_outbox (outbox_retry c available_at)) (\<lambda>_. sreturn APPLIED))"

definition async_failed :: "'p outbox_claim \<Rightarrow> string \<Rightarrow> datetime \<Rightarrow> ('p async_outbox, settlement_result) act" where
  "async_failed c reason on = when_current c on (sbind (on_outbox (outbox_failed c reason on)) (\<lambda>_. sreturn APPLIED))"

definition async_defer :: "'p outbox_claim \<Rightarrow> datetime \<Rightarrow> datetime \<Rightarrow> ('p async_outbox, settlement_result) act" where
  "async_defer c available_at on s =
     (case require_aware_utc available_at of
        Inl e \<Rightarrow> (Inl e, s)
      | Inr t \<Rightarrow>
          when_current c on (\<lambda>s.
            case valid_item c (ao_store s) of
              None \<Rightarrow> (Inl AssertionError, s)
            | Some it \<Rightarrow>
                (case check_envelope ((st_envelope it)\<lparr>oe_available_at := t\<rparr>) of
                   Inl e \<Rightarrow> (Inl e, s)
                 | Inr env \<Rightarrow>
                     (Inr DEFERRED, s\<lparr>ao_store := put_item (oe_message_id (oc_envelope c))
                                                  (unclaimed (it\<lparr>st_envelope := env\<rparr>)) (ao_store s)\<rparr>))) s)"

definition async_uncertain :: "'p outbox_claim \<Rightarrow> string \<Rightarrow> datetime \<Rightarrow> ('p async_outbox, settlement_result) act" where
  "async_uncertain c reason on s =
     (if reason = [] then (Inl ValueError, s)
      else when_current c on (\<lambda>s.
        case valid_item c (ao_store s) of
          None \<Rightarrow> (Inl AssertionError, s)
        | Some it \<Rightarrow>
            (Inr APPLIED, s\<lparr>ao_store := put_item (oe_message_id (oc_envelope c)) (unclaimed it) (ao_store s),
                            ao_uncertain := dict_set (oe_message_id (oc_envelope c)) (dt_micros on) (ao_uncertain s)\<rparr>)) s)"

text \<open>The delivery time is assigned before the envelope is rebuilt.\<close>

definition async_resolve ::
    "opaque_id \<Rightarrow> datetime \<Rightarrow> bool \<Rightarrow> datetime \<Rightarrow> datetime \<Rightarrow> ('p async_outbox, settlement_result) act" where
  "async_resolve m expected_at was_delivered available_at on s =
     (case and_then (require_aware_utc expected_at) (\<lambda>x.
           and_then (require_aware_utc available_at) (\<lambda>a.
           and_then (require_aware_utc on) (\<lambda>t. Inr (x, a, t)))) of
        Inl e \<Rightarrow> (Inl e, s)
      | Inr (x, a, t) \<Rightarrow>
          if dict_get (ao_uncertain s) m \<noteq> Some x then (Inr STALE, s)
          else
            (case dict_get (obs_items (ao_store s)) m of
               None \<Rightarrow> (Inl KeyError, s)
             | Some it \<Rightarrow>
                 let it1 = it\<lparr>st_delivered_at := if was_delivered then Some t else None\<rparr> in
                 (case check_envelope ((st_envelope it)\<lparr>oe_available_at := a\<rparr>) of
                    Inl e \<Rightarrow> (Inl e, s\<lparr>ao_store := put_item m it1 (ao_store s)\<rparr>)
                  | Inr env \<Rightarrow>
                      (Inr APPLIED, s\<lparr>ao_store := put_item m (it1\<lparr>st_envelope := env\<rparr>) (ao_store s),
                                      ao_uncertain := dict_pop m (ao_uncertain s)\<rparr>))))"

section \<open>Invariant\<close>

text \<open>A message of uncertain publication is in the outbox, open and unclaimed.\<close>

definition parked :: "'p stored \<Rightarrow> bool" where
  "parked it \<longleftrightarrow> st_claim_id it = None \<and> st_claimed_until it = None \<and> st_delivered_at it = None \<and> st_failure_reason it = None"

definition async_inv :: "'p async_outbox \<Rightarrow> bool" where
  "async_inv s \<longleftrightarrow> outbox_inv (ao_store s) \<and> dict_ok (ao_uncertain s)
     \<and> (\<forall>m t. dict_get (ao_uncertain s) m = Some t \<longrightarrow> (\<exists>it. dict_get (obs_items (ao_store s)) m = Some it \<and> parked it))"

lemma pop_held_spec:
  assumes "distinct ks" and "\<And>k. k \<in> set ks \<Longrightarrow> dict_get items k \<noteq> None"
  shows "pop_held ks items = (Inr (map (\<lambda>k. (k, the (dict_get items k))) ks), pop_all ks items)"
  using assms
proof (induction ks arbitrary: items)
  case (Cons k ks)
  obtain it where it: "dict_get items k = Some it" using Cons.prems(2) [of k] by auto
  have "pop_held ks (dict_pop k items) = (Inr (map (\<lambda>x. (x, the (dict_get (dict_pop k items) x))) ks), pop_all ks (dict_pop k items))"
    using Cons.prems by (intro Cons.IH) (auto simp: dict_simps)
  moreover have "map (\<lambda>x. (x, the (dict_get (dict_pop k items) x))) ks = map (\<lambda>x. (x, the (dict_get items x))) ks"
    using Cons.prems(1) by (auto simp: dict_simps)
  ultimately show ?case using it by (simp add: pop_all_def)
qed (simp add: pop_all_def)

lemma dict_update_get:
  assumes "dict_ok held"
  shows "dict_get (dict_update held d) k = (case dict_get held k of None \<Rightarrow> dict_get d k | Some v \<Rightarrow> Some v)"
proof (cases "dict_get held k")
  case None
  then have "k \<notin> fst ` set held" by (simp add: map_of_eq_None_iff)
  with None show ?thesis by (simp add: dict_update_def fold_set_other)
next
  case (Some v)
  then have "(k, v) \<in> set held" by (rule dict_get_in_set)
  from fold_set_get [OF assms this, of snd d] Some show ?thesis by (simp add: dict_update_def)
qed


lemma dict_update_ok: "dict_ok d \<Longrightarrow> dict_ok (dict_update held d)"
  unfolding dict_update_def by (rule fold_set_ok)

lemma dict_length: "dict_ok d \<Longrightarrow> length d = card (dom (map_of d))"
  by (metis distinct_card dom_map_of_conv_image_fst length_map list.set_map)

lemma outbox_inv_cong:
  assumes "outbox_inv s" and "dict_ok (obs_items s')" and "obs_capacity s' = obs_capacity s"
    and "dom (map_of (obs_items s')) = dom (map_of (obs_items s))"
    and "\<And>m it. dict_get (obs_items s') m = Some it \<Longrightarrow> stored_ok m it"
  shows "outbox_inv s'"
proof -
  have "length (obs_items s') = length (obs_items s)"
    using assms(1,2,4) dict_length [of "obs_items s"] dict_length [of "obs_items s'"] by (simp add: outbox_inv_def)
  with assms show ?thesis by (simp add: outbox_inv_def)
qed

section \<open>Claims\<close>

abbreviation uncertain_ids :: "'p async_outbox \<Rightarrow> opaque_id list" where
  "uncertain_ids s \<equiv> dict_keys (ao_uncertain s)"

definition certain :: "'p async_outbox \<Rightarrow> 'p outbox_store" where
  "certain s = (ao_store s)\<lparr>obs_items := pop_all (uncertain_ids s) (obs_items (ao_store s))\<rparr>"

definition restored :: "'p async_outbox \<Rightarrow> 'p outbox_store \<Rightarrow> 'p outbox_store" where
  "restored s st = st\<lparr>obs_items := dict_update
     (map (\<lambda>k. (k, the (dict_get (obs_items (ao_store s)) k))) (uncertain_ids s)) (obs_items st)\<rparr>"

lemma uncertain_iff: "m \<in> set (uncertain_ids s) \<longleftrightarrow> dict_get (ao_uncertain s) m \<noteq> None"
  by (metis map_of_eq_None_iff list.set_map)

lemma uncertain_parked:
  assumes "async_inv s" and "m \<in> set (uncertain_ids s)"
  obtains it where "dict_get (obs_items (ao_store s)) m = Some it" "parked it"
  using assms(1) assms(2) [unfolded uncertain_iff] by (auto simp: async_inv_def)

lemma certain_inv: "async_inv s \<Longrightarrow> outbox_inv (certain s)"
  unfolding certain_def async_inv_def by (simp add: pop_items_inv)

lemma certain_get: "dict_get (obs_items (certain s)) m = (if m \<in> set (uncertain_ids s) then None else dict_get (obs_items (ao_store s)) m)"
  by (simp add: certain_def dict_simps)

lemma restored_get:
  assumes "async_inv s"
  shows "dict_get (obs_items (restored s st)) m =
    (if m \<in> set (uncertain_ids s) then dict_get (obs_items (ao_store s)) m else dict_get (obs_items st) m)"
proof -
  let ?held = "map (\<lambda>k. (k, the (dict_get (obs_items (ao_store s)) k))) (uncertain_ids s)"
  have ok: "dict_ok ?held" using assms by (simp add: async_inv_def o_def)
  have "dict_get ?held m = (if m \<in> set (uncertain_ids s) then Some (the (dict_get (obs_items (ao_store s)) m)) else None)"
    using map_of_map_restrict [of "\<lambda>k. the (dict_get (obs_items (ao_store s)) k)" "uncertain_ids s"] by (simp add: o_def)
  with dict_update_get [OF ok, of "obs_items st" m] assms show ?thesis
    by (auto simp: restored_def elim!: uncertain_parked split: if_splits)
qed

lemma restored_inv:
  assumes inv: "async_inv s" and st: "outbox_inv st" "obs_capacity st = obs_capacity (ao_store s)"
    and same: "dom (map_of (obs_items st)) = dom (map_of (obs_items (certain s)))"
  shows "outbox_inv (restored s st)"
proof (rule outbox_inv_cong [of "ao_store s"])
  show "outbox_inv (ao_store s)" using inv by (simp add: async_inv_def)
  show "dict_ok (obs_items (restored s st))" using st(1) by (simp add: restored_def outbox_inv_def dict_update_ok)
  show "obs_capacity (restored s st) = obs_capacity (ao_store s)" using st(2) by (simp add: restored_def)
  have "dict_get (obs_items (restored s st)) m = None \<longleftrightarrow> dict_get (obs_items (ao_store s)) m = None" for m
    using same by (auto simp: restored_get [OF inv] certain_get dom_def set_eq_iff split: if_splits)
  then show "dom (map_of (obs_items (restored s st))) = dom (map_of (obs_items (ao_store s)))" by (auto simp: dom_def)
  fix m it
  assume "dict_get (obs_items (restored s st)) m = Some it"
  then show "stored_ok m it"
    using inv st(1) by (auto simp: restored_get [OF inv] async_inv_def outbox_inv_stored split: if_splits)
qed

lemma mark_claims_dom:
  "\<forall>it\<in>set its. dict_get (obs_items s) (msg_id it) \<noteq> None \<Longrightarrow>
     dom (map_of (obs_items (mark_claims uuid until n its s))) = dom (map_of (obs_items s))"
proof (induction its arbitrary: n s)
  case (Cons it its)
  have "dom (map_of (obs_items (put_item (msg_id it) (claimed_item (uuid n) until it) s))) = dom (map_of (obs_items s))"
    using Cons.prems by (auto simp: put_item_def dict_simps split: if_splits)
  with Cons show ?case by (auto simp: put_item_def dict_simps)
qed simp

lemma claim_frame:
  assumes inv: "outbox_inv s" and call: "outbox_claim_items now limit ttl uuid s = (r, s')"
  shows "obs_capacity s' = obs_capacity s" and "dom (map_of (obs_items s')) = dom (map_of (obs_items s))"
proof (atomize (full), cases rule: claim_cases [of now limit ttl uuid s])
  case (overflow t it e)
  from overflow(3) obtain m where "(m, it) \<in> set (obs_items s)" by auto
  with inv have "dict_get (obs_items s) m = Some it" by (simp add: outbox_inv_def dict_get_iff)
  with outbox_inv_stored [OF inv this] overflow(4) call
  show "obs_capacity s' = obs_capacity s \<and> dom (map_of (obs_items s')) = dom (map_of (obs_items s))"
    by (auto simp: put_item_def stored_ok_def dict_simps split: if_splits)
next
  case (claims t)
  have "\<forall>it\<in>set (eligible t limit s). dict_get (obs_items s) (msg_id it) \<noteq> None"
    using eligible_subset(1) [OF inv] by auto
  with claims(5) call mark_claims_dom [OF this]
  show "obs_capacity s' = obs_capacity s \<and> dom (map_of (obs_items s')) = dom (map_of (obs_items s))" by auto
qed (use call in auto)

text \<open>What a claim call does: it claims on the outbox without the uncertain messages, then bounds the claims.\<close>

lemma async_claim_spec:
  assumes inv: "async_inv s" and mb: "case max_bytes of None \<Rightarrow> True | Some b \<Rightarrow> 0 < b"
    and call: "outbox_claim_items now limit ttl uuid (certain s) = (r, st)"
  shows "async_claim size_of now limit ttl max_bytes uuid s =
     (case r of
        Inl e \<Rightarrow> (Inl e, s\<lparr>ao_store := restored s st\<rparr>)
      | Inr claims \<Rightarrow>
          (case max_bytes of
             None \<Rightarrow> (Inr claims, s\<lparr>ao_store := restored s st\<rparr>)
           | Some b \<Rightarrow> (case bound_claims size_of b 0 [] claims (restored s st) of (r', st') \<Rightarrow> (r', s\<lparr>ao_store := st'\<rparr>))))"
proof -
  let ?items = "obs_items (ao_store s)"
  have "distinct (uncertain_ids s)" using inv by (simp add: async_inv_def)
  moreover have "dict_get ?items k \<noteq> None" if "k \<in> set (uncertain_ids s)" for k
    using uncertain_parked [OF inv that] by auto
  ultimately have "pop_held (uncertain_ids s) ?items
      = (Inr (map (\<lambda>k. (k, the (dict_get ?items k))) (uncertain_ids s)), pop_all (uncertain_ids s) ?items)"
    by (rule pop_held_spec)
  with call mb show ?thesis
    unfolding async_claim_def certain_def restored_def Let_def
    by (simp del: map_map split: option.splits sum.splits)
qed


definition payload_bytes :: "('p \<Rightarrow> int res) \<Rightarrow> 'p outbox_claim \<Rightarrow> int" where
  "payload_bytes size_of c = (case size_of (oe_payload (oc_envelope c)) of Inl e \<Rightarrow> 0 | Inr n \<Rightarrow> n)"

lemma unclaimed_ok:
  "stored_ok m it \<Longrightarrow> stored_ok m (unclaimed it)"
  by (auto simp: stored_ok_def unclaimed_def)

lemma held_valid: "outbox_held c st \<Longrightarrow> \<exists>it. valid_item c st = Some it"
  by (auto simp: outbox_held_def)

lemma held_put_other: "outbox_held c st \<Longrightarrow> m \<noteq> claim_msg c \<Longrightarrow> outbox_held c (put_item m it st)"
  by (simp add: outbox_held_def valid_item_def put_item_def dict_simps)

text \<open>\<open>released\<close>: a claim that exceeded the bound was taken back.\<close>

definition released :: "'p outbox_claim \<Rightarrow> 'p outbox_store \<Rightarrow> bool" where
  "released c st \<longleftrightarrow> (\<exists>it. dict_get (obs_items st) (claim_msg c) = Some it \<and> parked it)"

lemma bound_claims_effect:
  assumes "outbox_inv st" and "distinct (map claim_msg cs)" and "\<forall>c\<in>set cs. outbox_held c st"
    and "bound_claims size_of b retained sel cs st = (r, st')" and "retained \<le> b"
  shows "outbox_inv st' \<and> obs_capacity st' = obs_capacity st
    \<and> (\<forall>m. m \<notin> claim_msg ` set cs \<longrightarrow> dict_get (obs_items st') m = dict_get (obs_items st) m)
    \<and> (\<forall>out. r = Inr out \<longrightarrow> (\<exists>ds. out = sel @ ds \<and> subseq ds cs \<and> retained + sum_list (map (payload_bytes size_of) ds) \<le> b
          \<and> (\<forall>c\<in>set ds. outbox_held c st') \<and> (\<forall>c\<in>set cs. c \<in> set ds \<or> released c st')))"
  using assms
proof (induction cs arbitrary: retained sel st)
  case Nil
  then show ?case by auto
next
  case (Cons c cs)
  from Cons.prems(2) have d: "distinct (map claim_msg cs)" "claim_msg c \<notin> claim_msg ` set cs" by auto
  from Cons.prems(3) have held: "outbox_held c st" "\<forall>c\<in>set cs. outbox_held c st" by auto
  obtain it where it: "valid_item c st = Some it" using held_valid [OF held(1)] by blast
  note vi = valid_item_Some [OF Cons.prems(1) it]
  show ?case
  proof (cases "size_of (oe_payload (oc_envelope c))")
    case (Inl e)
    with Cons.prems show ?thesis by auto
  next
    case (Inr n)
    then have n: "payload_bytes size_of c = n" by (simp add: payload_bytes_def)
    consider (negative) "n < 0" | (fits) "0 \<le> n" "retained + n \<le> b" | (exceeds) "0 \<le> n" "b < retained + n" by linarith
    then show ?thesis
    proof cases
      case negative
      with Inr Cons.prems show ?thesis by auto
    next
      case fits
      with Inr Cons.prems(4) have call: "bound_claims size_of b (retained + n) (sel @ [c]) cs st = (r, st')" by simp
      note ih = Cons.IH [OF Cons.prems(1) d(1) held(2) call fits(2)]
      have "outbox_held c st'"
        using ih d(2) held(1) by (simp add: outbox_held_def valid_item_def)
      moreover have "\<exists>ds. out = sel @ ds \<and> subseq ds (c # cs) \<and> retained + sum_list (map (payload_bytes size_of) ds) \<le> b
          \<and> (\<forall>c\<in>set ds. outbox_held c st') \<and> (\<forall>c'\<in>set (c # cs). c' \<in> set ds \<or> released c' st')" if "r = Inr out" for out
      proof -
        from ih that obtain ds where "out = (sel @ [c]) @ ds" "subseq ds cs"
          "retained + n + sum_list (map (payload_bytes size_of) ds) \<le> b"
          "\<forall>c\<in>set ds. outbox_held c st'" "\<forall>c\<in>set cs. c \<in> set ds \<or> released c st'" by blast
        with n \<open>outbox_held c st'\<close> show ?thesis by (intro exI [of _ "c # ds"]) auto
      qed
      ultimately show ?thesis using ih by auto
    next
      case exceeds
      let ?st = "put_item (claim_msg c) (unclaimed it) st"
      from exceeds Inr Cons.prems(4) it have call: "bound_claims size_of b retained sel cs ?st = (r, st')" by simp
      have inv: "outbox_inv ?st" using vi Cons.prems(1) by (intro put_item_inv unclaimed_ok) auto
      have "\<forall>c\<in>set cs. outbox_held c ?st" using held(2) d(2) by (auto intro!: held_put_other)
      note ih = Cons.IH [OF inv d(1) this call Cons.prems(5)]
      have "dict_get (obs_items st') (claim_msg c) = Some (unclaimed it)"
        using ih d(2) by (simp add: put_item_def dict_simps)
      then have rel: "released c st'" using vi by (simp add: released_def parked_def unclaimed_def)
      have "\<exists>ds. out = sel @ ds \<and> subseq ds (c # cs) \<and> retained + sum_list (map (payload_bytes size_of) ds) \<le> b
          \<and> (\<forall>c\<in>set ds. outbox_held c st') \<and> (\<forall>c'\<in>set (c # cs). c' \<in> set ds \<or> released c' st')" if "r = Inr out" for out
        using ih that rel by fastforce
      moreover have "dict_get (obs_items st') m = dict_get (obs_items st) m" if "m \<notin> claim_msg ` set (c # cs)" for m
        using ih that by (auto simp: put_item_def dict_simps)
      ultimately show ?thesis using ih by (simp add: put_item_def)
    qed
  qed
qed

lemma restored_held:
  assumes "async_inv s" and "outbox_held c st" and "claim_msg c \<notin> set (uncertain_ids s)"
  shows "outbox_held c (restored s st)"
  using assms by (simp add: outbox_held_def valid_item_def restored_get)

lemma claimed_from:
  assumes inv: "outbox_inv st" and call: "outbox_claim_items now limit ttl uuid st = (Inr cs, st')" and c: "c \<in> set cs"
  shows "dict_get (obs_items st) (claim_msg c) \<noteq> None"
proof -
  have "dict_get (obs_items st') (claim_msg c) \<noteq> None"
    using held_valid [OF claim_holds [OF inv call c]] by (auto simp: valid_item_def split: option.splits)
  with claim_frame(2) [OF inv call] show ?thesis by (auto simp: dom_def set_eq_iff)
qed

lemma claim_other_items:
  assumes "outbox_claim_items now limit ttl uuid st = (Inr cs, st')" and "m \<notin> claim_msg ` set cs"
  shows "dict_get (obs_items st') m = dict_get (obs_items st) m"
proof (cases rule: claim_cases [of now limit ttl uuid st])
  case (claims t)
  have "claim_msg ` set cs = msg_id ` set (eligible t limit st)"
    using claims(5) assms(1) mk_claims_msgs by (metis Pair_inject list.set_map sum.inject(2))
  with claims(5) assms show ?thesis by (simp add: mark_claims_other)
qed (use assms(1) in auto)

text \<open>The effect of a claim call of the asynchronous store.\<close>

lemma async_claim_cases:
  assumes inv: "async_inv s" and call: "async_claim size_of now limit ttl max_bytes uuid s = (r, s')"
  obtains (rejected) e where "r = Inl e" "s' = s"
  | (claimed) q st where "outbox_claim_items now limit ttl uuid (certain s) = (q, st)"
      "ao_uncertain s' = ao_uncertain s" "outbox_inv (ao_store s')" "obs_capacity (ao_store s') = obs_capacity (ao_store s)"
      "\<And>m. m \<in> set (uncertain_ids s) \<Longrightarrow> dict_get (obs_items (ao_store s')) m = dict_get (obs_items (ao_store s)) m"
      "\<And>cs m. q = Inr cs \<Longrightarrow> m \<notin> claim_msg ` set cs \<Longrightarrow> dict_get (obs_items (ao_store s')) m = dict_get (obs_items (restored s st)) m"
      "\<And>out. r = Inr out \<Longrightarrow> \<exists>cs. q = Inr cs \<and> subseq out cs \<and> (\<forall>c\<in>set out. outbox_held c (ao_store s'))
         \<and> (\<forall>c\<in>set cs. c \<in> set out \<or> released c (ao_store s'))
         \<and> (\<forall>b. max_bytes = Some b \<longrightarrow> sum_list (map (payload_bytes size_of) out) \<le> b)"
proof (cases "case max_bytes of None \<Rightarrow> False | Some b \<Rightarrow> b \<le> 0")
  case True
  with call have "r = Inl ValueError" "s' = s" by (auto simp: async_claim_def)
  then show thesis by (rule rejected)
next
  case False
  then have mb: "case max_bytes of None \<Rightarrow> True | Some b \<Rightarrow> 0 < b" by (auto split: option.splits)
  obtain q st where q: "outbox_claim_items now limit ttl uuid (certain s) = (q, st)" by fastforce
  note spec = async_claim_spec [OF inv mb q, of size_of, unfolded call]
  note cinv = certain_inv [OF inv]
  have st: "outbox_inv st" using claim_inv [OF cinv, of now limit ttl uuid] q by simp
  note frame = claim_frame [OF cinv q]
  have cap: "obs_capacity st = obs_capacity (ao_store s)" using frame(1) by (simp add: certain_def)
  have rinv: "outbox_inv (restored s st)" by (rule restored_inv [OF inv st cap frame(2)])
  have rcap: "obs_capacity (restored s st) = obs_capacity (ao_store s)" using cap by (simp add: restored_def)
  show thesis
  proof (cases q)
    case (Inl e)
    with spec have "r = Inl e" "s' = s\<lparr>ao_store := restored s st\<rparr>" by auto
    with q Inl rinv rcap show thesis by (intro claimed [OF q]) (simp_all add: restored_get [OF inv])
  next
    case (Inr cs)
    have fresh: "claim_msg c \<notin> set (uncertain_ids s)" if "c \<in> set cs" for c
      using claimed_from [OF cinv q [unfolded Inr] that] by (simp add: certain_get split: if_splits)
    have held: "\<forall>c\<in>set cs. outbox_held c (restored s st)"
      using claim_holds [OF cinv q [unfolded Inr]] fresh by (auto intro: restored_held [OF inv])
    have dist: "distinct (map claim_msg cs)" by (rule claim_returns(3) [OF cinv q [unfolded Inr]])
    show thesis
    proof (cases max_bytes)
      case None
      with spec Inr have "r = Inr cs" "s' = s\<lparr>ao_store := restored s st\<rparr>" by auto
      with q Inr rinv rcap held None show thesis by (intro claimed [OF q]) (simp_all add: restored_get [OF inv])
    next
      case (Some b)
      obtain r' st' where bc: "bound_claims size_of b 0 [] cs (restored s st) = (r', st')" by fastforce
      with spec Inr Some have r: "r = r'" "s' = s\<lparr>ao_store := st'\<rparr>" by auto
      have "0 \<le> b" using mb Some by simp
      note effect = bound_claims_effect [OF rinv dist held bc this]
      show thesis
      proof (rule claimed [OF q])
        fix m
        assume m: "m \<in> set (uncertain_ids s)"
        then have "m \<notin> claim_msg ` set cs" using fresh by blast
        with effect m show "dict_get (obs_items (ao_store s')) m = dict_get (obs_items (ao_store s)) m"
          by (simp add: r restored_get [OF inv])
      next
        fix out
        assume "r = Inr out"
        with effect r Inr Some show "\<exists>cs. q = Inr cs \<and> subseq out cs \<and> (\<forall>c\<in>set out. outbox_held c (ao_store s'))
         \<and> (\<forall>c\<in>set cs. c \<in> set out \<or> released c (ao_store s'))
         \<and> (\<forall>b. max_bytes = Some b \<longrightarrow> sum_list (map (payload_bytes size_of) out) \<le> b)" by auto
      qed (use effect r rcap Inr in auto)
    qed
  qed
qed


section \<open>Runs of calls\<close>

datatype 'p async_call =
    Async_add "'p outbox_envelope"
  | Async_claim datetime int timedelta "int option" "nat \<Rightarrow> string"
  | Async_delivered "'p outbox_claim" datetime
  | Async_retry "'p outbox_claim" datetime datetime
  | Async_defer "'p outbox_claim" datetime datetime
  | Async_uncertain "'p outbox_claim" string datetime
  | Async_resolve opaque_id datetime bool datetime datetime
  | Async_failed "'p outbox_claim" string datetime

datatype 'p async_reply =
    Added "outbox_add_result res" | Claimed "'p outbox_claim list res" | Settled "settlement_result res"

fun async_step :: "('p \<Rightarrow> int res) \<Rightarrow> 'p async_call \<Rightarrow> 'p async_outbox \<Rightarrow> 'p async_reply \<times> 'p async_outbox" where
  "async_step size_of (Async_add env) s = apfst Added (async_add env s)"
| "async_step size_of (Async_claim now limit ttl mb uuid) s = apfst Claimed (async_claim size_of now limit ttl mb uuid s)"
| "async_step size_of (Async_delivered c on) s = apfst Settled (async_delivered c on s)"
| "async_step size_of (Async_retry c av on) s = apfst Settled (async_retry c av on s)"
| "async_step size_of (Async_defer c av on) s = apfst Settled (async_defer c av on s)"
| "async_step size_of (Async_uncertain c reason on) s = apfst Settled (async_uncertain c reason on s)"
| "async_step size_of (Async_resolve m x d av on) s = apfst Settled (async_resolve m x d av on s)"
| "async_step size_of (Async_failed c reason on) s = apfst Settled (async_failed c reason on s)"

fun valid_async_call :: "'p async_call \<Rightarrow> 'p async_outbox \<Rightarrow> bool" where
  "valid_async_call (Async_add env) s \<longleftrightarrow> check_envelope env = Inr env"
| "valid_async_call _ s \<longleftrightarrow> True"

lemma when_current_cases:
  obtains (refused) r where "when_current c on m s = (r, s)" "\<And>b. r = Inr b \<Longrightarrow> b = STALE"
  | (current) it t where "when_current c on m s = m s" "require_aware_utc on = Inr t" "valid_item c (ao_store s) = Some it"
      "st_claimed_until it = Some (oc_claimed_until c)" "t < oc_claimed_until c"
proof (cases "\<exists>it t. require_aware_utc on = Inr t \<and> valid_item c (ao_store s) = Some it
    \<and> st_claimed_until it = Some (oc_claimed_until c) \<and> t < oc_claimed_until c")
  case True
  then obtain it t where "require_aware_utc on = Inr t" "valid_item c (ao_store s) = Some it"
    "st_claimed_until it = Some (oc_claimed_until c)" "t < oc_claimed_until c" by blast
  then show thesis by (intro current [of t it]) (simp_all add: when_current_def current_def)
next
  case False
  then have "when_current c on m s = (case require_aware_utc on of Inl e \<Rightarrow> Inl e | Inr _ \<Rightarrow> Inr STALE, s)"
    by (auto simp: when_current_def current_def split: sum.splits option.splits bool.splits)
  then show thesis by (rule refused) (auto split: sum.splits)
qed

text \<open>A valid claim is not the claim of an uncertain message.\<close>

lemma valid_not_uncertain:
  assumes "async_inv s" and "valid_item c (ao_store s) = Some it"
  shows "claim_msg c \<notin> set (uncertain_ids s)"
proof
  assume "claim_msg c \<in> set (uncertain_ids s)"
  with assms(1) obtain it' where "dict_get (obs_items (ao_store s)) (claim_msg c) = Some it'" "parked it'"
    by (rule uncertain_parked)
  with assms(2) show False by (auto simp: valid_item_def parked_def split: if_splits)
qed

text \<open>Replacing one stored message by a well-formed one keeps the invariant if the message is not uncertain.\<close>

lemma async_put_inv:
  assumes "async_inv s" and "valid_item c (ao_store s) = Some it" and "stored_ok (claim_msg c) it'"
  shows "async_inv (s\<lparr>ao_store := put_item (claim_msg c) it' (ao_store s)\<rparr>)"
proof -
  have "outbox_inv (put_item (claim_msg c) it' (ao_store s))"
    using assms valid_item_Some [of "ao_store s" c it] by (intro put_item_inv) (auto simp: async_inv_def)
  moreover have "dict_get (ao_uncertain s) (claim_msg c) = None"
    using valid_not_uncertain [OF assms(1,2)] uncertain_iff by metis
  ultimately show ?thesis using assms(1) by (auto simp: async_inv_def put_item_def dict_simps)
qed

definition settled_as :: "'p outbox_claim \<Rightarrow> 'p async_outbox \<Rightarrow> 'p stored \<Rightarrow> 'p async_outbox" where
  "settled_as c s it = s\<lparr>ao_store := put_item (claim_msg c) it (ao_store s)\<rparr>"

lemma on_outbox_settle:
  assumes "async_inv s" and it: "valid_item c (ao_store s) = Some it"
  shows "require_aware_utc on = Inr t \<Longrightarrow> sbind (on_outbox (outbox_delivered c on)) (\<lambda>_. sreturn APPLIED) s
      = (Inr APPLIED, settled_as c s ((unclaimed it)\<lparr>st_delivered_at := Some t\<rparr>))"
    and "require_aware_utc av = Inr t \<Longrightarrow> sbind (on_outbox (outbox_retry c av)) (\<lambda>_. sreturn APPLIED) s
      = (Inr APPLIED, settled_as c s ((unclaimed it)\<lparr>st_envelope := (st_envelope it)\<lparr>oe_attempt := oe_attempt (st_envelope it) + 1,
            oe_available_at := t\<rparr>\<rparr>))"
    and "require_aware_utc on = Inr t \<Longrightarrow> reason \<noteq> [] \<Longrightarrow> sbind (on_outbox (outbox_failed c reason on)) (\<lambda>_. sreturn APPLIED) s
      = (Inr APPLIED, settled_as c s ((unclaimed it)\<lparr>st_failure_reason := Some reason, st_failed_at := Some t\<rparr>))"
proof -
  have "stored_ok (claim_msg c) it" using valid_item_Some [OF _ it] assms(1) by (simp add: async_inv_def)
  then have "oe_topic (st_envelope it) \<noteq> []" "0 \<le> oe_attempt (st_envelope it)"
    by (auto simp: stored_ok_def check_envelope_def split: if_splits)
  with it show "require_aware_utc on = Inr t \<Longrightarrow> sbind (on_outbox (outbox_delivered c on)) (\<lambda>_. sreturn APPLIED) s
      = (Inr APPLIED, settled_as c s ((unclaimed it)\<lparr>st_delivered_at := Some t\<rparr>))"
    "require_aware_utc av = Inr t \<Longrightarrow> sbind (on_outbox (outbox_retry c av)) (\<lambda>_. sreturn APPLIED) s
      = (Inr APPLIED, settled_as c s ((unclaimed it)\<lparr>st_envelope := (st_envelope it)\<lparr>oe_attempt := oe_attempt (st_envelope it) + 1,
            oe_available_at := t\<rparr>\<rparr>))"
    "require_aware_utc on = Inr t \<Longrightarrow> reason \<noteq> [] \<Longrightarrow> sbind (on_outbox (outbox_failed c reason on)) (\<lambda>_. sreturn APPLIED) s
      = (Inr APPLIED, settled_as c s ((unclaimed it)\<lparr>st_failure_reason := Some reason, st_failed_at := Some t\<rparr>))"
    by (cases it; simp add: sbind_def on_outbox_def outbox_delivered_def outbox_retry_def outbox_failed_def check_envelope_def
        settled_as_def unclaimed_def)+
qed

text \<open>What a settlement by claim does: nothing, or the claimed item is replaced by an unclaimed one.\<close>

definition settles_item :: "'p outbox_claim \<Rightarrow> 'p async_outbox \<Rightarrow> ('p stored \<Rightarrow> bool) \<Rightarrow> settlement_result res \<times> 'p async_outbox \<Rightarrow> bool" where
  "settles_item c s P q \<longleftrightarrow>
     (snd q = s \<and> (\<forall>b. fst q = Inr b \<longrightarrow> b = STALE))
     \<or> (\<exists>it it'. fst q \<noteq> Inr STALE \<and> (\<exists>b. fst q = Inr b) \<and> valid_item c (ao_store s) = Some it \<and> snd q = settled_as c s it' \<and> P it'
          \<and> stored_ok (claim_msg c) it' \<and> st_claim_id it' = None \<and> st_claimed_until it' = None)"

lemma settles_itemI:
  assumes "q = (Inr b, settled_as c s it')" and "b \<noteq> STALE" and "valid_item c (ao_store s) = Some it" and "P it'"
    and "stored_ok (claim_msg c) it'" and "st_claim_id it' = None" and "st_claimed_until it' = None"
  shows "settles_item c s P q"
  using assms by (auto simp: settles_item_def)

lemma settles_item_stays: "q = (r, s) \<Longrightarrow> (\<And>b. r = Inr b \<Longrightarrow> b = STALE) \<Longrightarrow> settles_item c s P q"
  by (simp add: settles_item_def)

lemma check_envelope_fields: "check_envelope env = Inr env \<longleftrightarrow> oe_topic env \<noteq> [] \<and> 0 \<le> oe_attempt env"
  by (auto simp: check_envelope_def)

lemma when_current_settles:
  assumes "\<And>it t. require_aware_utc on = Inr t \<Longrightarrow> valid_item c (ao_store s) = Some it \<Longrightarrow> settles_item c s P (m s)"
  shows "settles_item c s P (when_current c on m s)"
  by (cases rule: when_current_cases [of c on m s]) (auto intro: settles_item_stays assms)

lemma async_settlements:
  assumes inv: "async_inv s"
  shows "settles_item c s (\<lambda>it. st_delivered_at it \<noteq> None) (async_delivered c on s)"
    and "settles_item c s parked (async_retry c av on s)"
    and "settles_item c s (\<lambda>it. st_failure_reason it = Some reason) (async_failed c reason on s)"
    and "settles_item c s parked (async_defer c av on s)"
proof -
  have vi: "stored_ok (claim_msg c) it \<and> st_delivered_at it = None \<and> st_failure_reason it = None \<and> st_failed_at it = None
      \<and> check_envelope (st_envelope it) = Inr (st_envelope it)" if "valid_item c (ao_store s) = Some it" for it
    using valid_item_Some [OF _ that] inv by (simp add: async_inv_def stored_ok_def)
  show "settles_item c s (\<lambda>it. st_delivered_at it \<noteq> None) (async_delivered c on s)"
    unfolding async_delivered_def
  proof (rule when_current_settles)
    fix it t
    assume it: "valid_item c (ao_store s) = Some it" and t: "require_aware_utc on = Inr t"
    show "settles_item c s (\<lambda>it. st_delivered_at it \<noteq> None) (sbind (on_outbox (outbox_delivered c on)) (\<lambda>_. sreturn APPLIED) s)"
      using vi [OF it] by (intro settles_itemI [OF on_outbox_settle(1) [OF inv it t] _ it]) (auto simp: stored_ok_def unclaimed_def)
  qed
  show "settles_item c s parked (async_retry c av on s)"
    unfolding async_retry_def
  proof (rule when_current_settles)
    fix it
    assume it: "valid_item c (ao_store s) = Some it"
    show "settles_item c s parked (sbind (on_outbox (outbox_retry c av)) (\<lambda>_. sreturn APPLIED) s)"
    proof (cases "require_aware_utc av")
      case (Inl e)
      then show ?thesis by (intro settles_item_stays) (auto simp: sbind_def on_outbox_def outbox_retry_def)
    next
      case (Inr a)
      show ?thesis
        using vi [OF it]
        by (intro settles_itemI [OF on_outbox_settle(2) [OF inv it Inr] _ it])
          (auto simp: stored_ok_def unclaimed_def parked_def check_envelope_fields)
    qed
  qed
  show "settles_item c s (\<lambda>it. st_failure_reason it = Some reason) (async_failed c reason on s)"
    unfolding async_failed_def
  proof (rule when_current_settles)
    fix it t
    assume it: "valid_item c (ao_store s) = Some it" and t: "require_aware_utc on = Inr t"
    show "settles_item c s (\<lambda>it. st_failure_reason it = Some reason) (sbind (on_outbox (outbox_failed c reason on)) (\<lambda>_. sreturn APPLIED) s)"
    proof (cases "reason = []")
      case True
      with t show ?thesis by (intro settles_item_stays) (auto simp: sbind_def on_outbox_def outbox_failed_def)
    next
      case False
      with vi [OF it] show ?thesis
        by (intro settles_itemI [OF on_outbox_settle(3) [OF inv it t False] _ it]) (auto simp: stored_ok_def unclaimed_def)
    qed
  qed
  show "settles_item c s parked (async_defer c av on s)"
  proof (cases "require_aware_utc av")
    case (Inl e)
    then show ?thesis by (intro settles_item_stays) (auto simp: async_defer_def)
  next
    case (Inr a)
    show ?thesis
      unfolding async_defer_def Inr sum.case
    proof (rule when_current_settles)
      fix it
      assume it: "valid_item c (ao_store s) = Some it"
      from vi [OF it] have env: "check_envelope ((st_envelope it)\<lparr>oe_available_at := a\<rparr>) = Inr ((st_envelope it)\<lparr>oe_available_at := a\<rparr>)"
        by (simp add: check_envelope_fields)
      show "settles_item c s parked (case valid_item c (ao_store s) of None \<Rightarrow> (Inl AssertionError, s)
          | Some it \<Rightarrow> (case check_envelope ((st_envelope it)\<lparr>oe_available_at := a\<rparr>) of Inl e \<Rightarrow> (Inl e, s)
             | Inr env \<Rightarrow> (Inr DEFERRED, s\<lparr>ao_store := put_item (claim_msg c) (unclaimed (it\<lparr>st_envelope := env\<rparr>)) (ao_store s)\<rparr>)))"
        unfolding it option.case env sum.case
        using vi [OF it] env
        by (intro settles_itemI [of _ DEFERRED _ _ "unclaimed (it\<lparr>st_envelope := (st_envelope it)\<lparr>oe_available_at := a\<rparr>\<rparr>)", OF _ _ it])
          (auto simp: settled_as_def stored_ok_def unclaimed_def parked_def)
    qed
  qed
qed

lemma settles_item_inv: "async_inv s \<Longrightarrow> settles_item c s P q \<Longrightarrow> async_inv (snd q)"
  by (auto simp: settles_item_def settled_as_def intro: async_put_inv)


lemma async_uncertain_effect:
  assumes inv: "async_inv s" and call: "async_uncertain c reason on s = (r, s')"
  shows "async_inv s' \<and> (s' = s \<and> r \<noteq> Inr APPLIED
      \<or> r = Inr APPLIED \<and> dict_get (ao_uncertain s') (claim_msg c) = Some (dt_micros on)
        \<and> (\<forall>m. m \<noteq> claim_msg c \<longrightarrow> dict_get (ao_uncertain s') m = dict_get (ao_uncertain s) m))"
proof (cases "reason = []")
  case True
  with call have "r = Inl ValueError" "s' = s" by (simp_all add: async_uncertain_def)
  with inv show ?thesis by simp
next
  case False
  let ?m = "\<lambda>s. case valid_item c (ao_store s) of None \<Rightarrow> (Inl AssertionError, s)
      | Some it \<Rightarrow> (Inr APPLIED, s\<lparr>ao_store := put_item (claim_msg c) (unclaimed it) (ao_store s),
                                  ao_uncertain := dict_set (claim_msg c) (dt_micros on) (ao_uncertain s)\<rparr>)"
  show ?thesis
  proof (cases rule: when_current_cases [of c on ?m s])
    case (refused r')
    with False call inv show ?thesis by (auto simp: async_uncertain_def)
  next
    case (current it t)
    note vi = valid_item_Some [OF _ current(3)]
    have "outbox_inv (put_item (claim_msg c) (unclaimed it) (ao_store s))"
      using vi inv by (intro put_item_inv unclaimed_ok) (auto simp: async_inv_def)
    moreover have "parked (unclaimed it)" using vi inv by (simp add: parked_def unclaimed_def async_inv_def)
    ultimately show ?thesis
      using False call inv current by (auto simp: async_uncertain_def async_inv_def dict_simps put_item_def)
  qed
qed

lemma async_resolve_effect:
  assumes inv: "async_inv s" and call: "async_resolve m x d av on s = (r, s')"
  shows "async_inv s' \<and> (s' = s \<and> r \<noteq> Inr APPLIED
      \<or> r = Inr APPLIED \<and> dict_get (ao_uncertain s) m = Some (dt_micros x) \<and> ao_uncertain s' = dict_pop m (ao_uncertain s))"
proof (cases "\<exists>x' a t. require_aware_utc x = Inr x' \<and> require_aware_utc av = Inr a \<and> require_aware_utc on = Inr t
      \<and> dict_get (ao_uncertain s) m = Some x'")
  case False
  with call inv show ?thesis by (auto simp: async_resolve_def and_then_def split: sum.splits if_splits)
next
  case True
  then obtain a t where utc: "require_aware_utc x = Inr (dt_micros x)" "require_aware_utc av = Inr a" "require_aware_utc on = Inr t"
    and u: "dict_get (ao_uncertain s) m = Some (dt_micros x)"
    by (auto simp: require_aware_utc_def split: if_splits)
  from u inv obtain it where it: "dict_get (obs_items (ao_store s)) m = Some it" "parked it" by (auto simp: async_inv_def)
  have ok: "stored_ok m it" using inv it(1) by (auto simp: async_inv_def outbox_inv_stored)
  then have env: "check_envelope ((st_envelope it)\<lparr>oe_available_at := a\<rparr>) = Inr ((st_envelope it)\<lparr>oe_available_at := a\<rparr>)"
    by (simp add: stored_ok_def check_envelope_fields)
  let ?it = "it\<lparr>st_delivered_at := if d then Some t else None, st_envelope := (st_envelope it)\<lparr>oe_available_at := a\<rparr>\<rparr>"
  have "stored_ok m ?it" using ok it(2) env by (auto simp: stored_ok_def parked_def)
  then have "outbox_inv (put_item m ?it (ao_store s))" using inv it(1) by (intro put_item_inv) (auto simp: async_inv_def)
  then show ?thesis
    using call utc u it env inv by (auto simp: async_resolve_def Let_def async_inv_def dict_simps put_item_def)
qed

text \<open>The invariant and the uncertain marks through one call.\<close>

text \<open>Calls that do not resolve the uncertainty of \<open>m\<close> marked at \<open>t\<close>.\<close>

fun unresolved :: "opaque_id \<Rightarrow> instant \<Rightarrow> 'p async_call \<Rightarrow> 'p async_outbox \<Rightarrow> bool" where
  "unresolved m t (Async_add env) s \<longleftrightarrow> check_envelope env = Inr env"
| "unresolved m t (Async_resolve m' x d av on) s \<longleftrightarrow> m' \<noteq> m \<or> dt_micros x \<noteq> t"
| "unresolved m t _ s \<longleftrightarrow> True"

lemma async_claim_keeps:
  assumes inv: "async_inv s" and call: "async_claim size_of now limit ttl mb uuid s = (r, s')"
  shows "async_inv s' \<and> ao_uncertain s' = ao_uncertain s
    \<and> (\<forall>out c. r = Inr out \<longrightarrow> c \<in> set out \<longrightarrow> claim_msg c \<notin> set (uncertain_ids s))"
proof (cases rule: async_claim_cases [OF inv call])
  case 1
  with inv show ?thesis by simp
next
  case (2 q st)
  have "\<exists>it. dict_get (obs_items (ao_store s')) m = Some it \<and> parked it" if "dict_get (ao_uncertain s) m = Some t" for m t
    using 2(5) [of m] that inv uncertain_iff [of m s] by (auto simp: async_inv_def)
  with 2(2,3) inv have inv': "async_inv s'" by (auto simp: async_inv_def)
  have "claim_msg c \<notin> set (uncertain_ids s)" if "r = Inr out" "c \<in> set out" for out c
  proof -
    from 2(7) [OF that(1)] that(2) have "outbox_held c (ao_store s')" by blast
    then obtain it where "valid_item c (ao_store s') = Some it" using held_valid by blast
    from valid_not_uncertain [OF inv' this] show ?thesis by (simp add: 2(2))
  qed
  with inv' 2(2) show ?thesis by blast
qed

lemma async_add_inv:
  assumes "async_inv s" and "check_envelope env = Inr env"
  shows "async_inv (snd (async_add env s)) \<and> ao_uncertain (snd (async_add env s)) = ao_uncertain s"
proof -
  have "outbox_inv (snd (outbox_add env (ao_store s)))" using assms by (intro add_inv) (auto simp: async_inv_def)
  then show ?thesis
    using assms(1) by (fastforce simp: async_add_def on_outbox_def async_inv_def outbox_add_def put_item_def dict_simps split: if_splits)
qed

lemma settles_item_uncertain: "settles_item c s P q \<Longrightarrow> ao_uncertain (snd q) = ao_uncertain s"
  by (auto simp: settles_item_def settled_as_def)

lemma settlements_keep_marks:
  assumes "async_inv s"
  shows "ao_uncertain (snd (async_delivered c on s)) = ao_uncertain s" "ao_uncertain (snd (async_retry c av on s)) = ao_uncertain s"
    "ao_uncertain (snd (async_failed c reason on s)) = ao_uncertain s" "ao_uncertain (snd (async_defer c av on s)) = ao_uncertain s"
  using async_settlements [OF assms] by (blast intro: settles_item_uncertain)+

lemma settlements_inv:
  assumes "async_inv s"
  shows "async_inv (snd (async_delivered c on s))" "async_inv (snd (async_retry c av on s))"
    "async_inv (snd (async_failed c reason on s))" "async_inv (snd (async_defer c av on s))"
    "async_inv (snd (async_claim size_of now limit ttl mb uuid s))" "async_inv (snd (async_uncertain c reason on s))"
    "async_inv (snd (async_resolve m x d av on s))"
  using async_settlements [OF assms] async_claim_keeps [OF assms, of size_of now limit ttl mb uuid]
    async_uncertain_effect [OF assms, of c reason on] async_resolve_effect [OF assms, of m x d av on]
  by (blast intro: settles_item_inv [OF assms] | metis prod.collapse)+

interpretation async_machine: guarded_machine "async_step size_of" async_inv valid_async_call
  for size_of :: "'p \<Rightarrow> int res"
proof (unfold_locales, goal_cases)
  case (1 s x)
  then show ?case by (cases x) (simp_all add: settlements_inv async_add_inv)
qed

interpretation async_parking: guarded_machine "async_step size_of"
    "\<lambda>s. async_inv s \<and> dict_get (ao_uncertain s) m = Some t" "unresolved m t"
  for size_of :: "'p \<Rightarrow> int res" and m t
proof (unfold_locales, goal_cases)
  case (1 s x)
  then have inv: "async_inv s" and u: "dict_get (ao_uncertain s) m = Some t" by auto
  have "valid_async_call x s" using 1(2) by (cases x) auto
  with inv have "async_inv (snd (async_step size_of x s))" by (rule async_machine.inv_step)
  moreover have "dict_get (ao_uncertain (snd (async_step size_of x s))) m = Some t"
  proof (cases x)
    case (Async_add env)
    with inv u 1(2) show ?thesis by (simp add: async_add_inv)
  next
    case (Async_claim now limit ttl mb uuid)
    with u async_claim_keeps [OF inv surjective_pairing] show ?thesis by simp
  next
    case (Async_uncertain c reason on)
    obtain r s' where call: "async_uncertain c reason on s = (r, s')" by fastforce
    have "claim_msg c \<noteq> m \<or> s' = s"
    proof (cases "s' = s")
      case False
      with call obtain it where "valid_item c (ao_store s) = Some it"
        by (auto simp: async_uncertain_def when_current_def current_def and_then_def split: if_splits sum.splits option.splits bool.splits)
      from valid_not_uncertain [OF inv this] u uncertain_iff [of "claim_msg c" s] show ?thesis by auto
    qed simp
    with async_uncertain_effect [OF inv call] Async_uncertain call u show ?thesis by auto
  next
    case (Async_resolve m' x' d av on)
    with 1(2) u async_resolve_effect [OF inv surjective_pairing, of m' x' d av on] show ?thesis
      by (auto simp: dict_simps)
  qed (simp_all add: u settlements_keep_marks [OF inv])
  ultimately show ?case by simp
qed


lemma claims_distinct:
  assumes inv: "async_inv s" and call: "async_claim size_of now limit ttl mb uuid s = (Inr cs, s')"
  shows "distinct (map claim_msg cs)"
proof (cases rule: async_claim_cases [OF inv call])
  case (2 q st)
  from 2(7) [OF refl] obtain ds where "q = Inr ds" "subseq cs ds" by blast
  then show ?thesis
    using claim_returns(3) [OF certain_inv [OF inv]] 2(1) subseq_map [of cs ds claim_msg]
    by (auto simp: subseq_conv_nths intro: distinct_nthsI)
qed simp

section \<open>Conformance harness\<close>

text \<open>\<open>AsyncOutboxStoreHarness.exercise\<close> on the in-memory store, with a clock value it is given.\<close>

definition async_outbox_exercise :: "'p \<Rightarrow> instant \<Rightarrow> (nat \<Rightarrow> string) \<Rightarrow> ('p async_outbox, unit) act" where
  "async_outbox_exercise payload now uuid =
     sbind (slift (mk_outbox_envelope (OpaqueId ''message'') ''events'' payload (utc_datetime now) (utc_datetime now) 0)) (\<lambda>env.
     sbind (async_add env) (\<lambda>added.
     sbind (sassert (added = OutboxAdded)) (\<lambda>_.
     sbind (async_add env) (\<lambda>again.
     sbind (sassert (again = OutboxDuplicate)) (\<lambda>_.
     sbind (async_claim (\<lambda>_. Inr 0) (utc_datetime now) 1 (seconds 60) None uuid) (\<lambda>claims.
     sbind (sassert (length claims = 1)) (\<lambda>_.
     sbind (async_delivered (claims ! 0) (utc_datetime now)) (\<lambda>first.
     sbind (sassert (settled_truth first)) (\<lambda>_.
     sbind (async_delivered (claims ! 0) (utc_datetime now)) (\<lambda>second.
     sassert (\<not> settled_truth second)))))))))))"

section \<open>Properties\<close>

text \<open>C5.  An uncertain publication is never repeated by itself: once \<open>uncertain\<close> was applied for a message, then through
  any calls, claims after the expiry of every claim included, no claim hands the message out, until \<open>resolve_uncertain\<close> is called with
  the time of the mark.\<close>

theorem uncertain_message_is_parked:
  assumes "async_inv s" and "async_uncertain c reason on s = (Inr APPLIED, s1)"
    and "guarded (unresolved (claim_msg c) (dt_micros on)) (async_step size_of) xs s1"
  shows "dict_get (ao_uncertain (snd (run (async_step size_of) xs s1))) (claim_msg c) = Some (dt_micros on)
    \<and> (\<forall>cs. Claimed (Inr cs) \<in> set (fst (run (async_step size_of) xs s1)) \<longrightarrow> claim_msg c \<notin> claim_msg ` set cs)"
proof -
  let ?m = "claim_msg c" and ?t = "dt_micros on"
  define Q where "Q = (\<lambda>r :: 'a async_reply. \<forall>cs. r = Claimed (Inr cs) \<longrightarrow> ?m \<notin> claim_msg ` set cs)"
  have start: "async_inv s1 \<and> dict_get (ao_uncertain s1) ?m = Some ?t"
    using async_uncertain_effect [OF assms(1,2)] by blast
  have step: "Q (fst (async_step size_of x s))"
    if "async_inv s \<and> dict_get (ao_uncertain s) ?m = Some ?t" for x and s :: "'a async_outbox"
  proof (cases x)
    case (Async_claim now limit ttl mb uuid)
    have "?m \<in> set (uncertain_ids s)" using that uncertain_iff [of ?m s] by simp
    then show ?thesis
      using async_claim_keeps [OF conjunct1 [OF that] surjective_pairing, of size_of now limit ttl mb uuid] Async_claim
      unfolding Q_def by (cases "fst (async_claim size_of now limit ttl mb uuid s)") force+
  qed (simp_all add: Q_def)
  have "\<forall>r\<in>set (fst (run (async_step size_of) xs s1)). Q r"
    using start assms(3) by (intro async_parking.run_results [where Q = Q and m = ?m and t = ?t]) (blast intro: step)+
  with async_parking.run_inv [OF start assms(3)] show ?thesis unfolding Q_def by blast
qed

text \<open>C31.  A bounded claim hands out at most the given number of messages and bytes, none of them uncertain, each of them held by
  its claim, and every other message is as before or released: no claim is kept that is not handed out.\<close>

theorem bounded_claim_respects_bounds:
  assumes inv: "async_inv s" and call: "async_claim size_of now limit ttl (Some b) uuid s = (Inr cs, s')"
  shows "int (length cs) \<le> limit \<and> sum_list (map (payload_bytes size_of) cs) \<le> b \<and> distinct (map claim_msg cs)
    \<and> (\<forall>c\<in>set cs. outbox_held c (ao_store s') \<and> claim_msg c \<notin> set (uncertain_ids s))
    \<and> (\<forall>m. m \<notin> claim_msg ` set cs \<longrightarrow> dict_get (obs_items (ao_store s')) m = dict_get (obs_items (ao_store s)) m
          \<or> (\<exists>it. dict_get (obs_items (ao_store s')) m = Some it \<and> parked it))"
proof (cases rule: async_claim_cases [OF inv call])
  case (2 q st)
  from 2(7) [OF refl] obtain ds where q: "q = Inr ds" and sub: "subseq cs ds" and held: "\<forall>c\<in>set cs. outbox_held c (ao_store s')"
    and rest: "\<forall>c\<in>set ds. c \<in> set cs \<or> released c (ao_store s')" and bytes: "sum_list (map (payload_bytes size_of) cs) \<le> b"
    by blast
  note cinv = certain_inv [OF inv]
  note claim = 2(1) [unfolded q]
  have "length cs \<le> length ds" using sub by (rule list_emb_length)
  moreover have "int (length ds) \<le> limit"
    using claim by (cases rule: claim_cases [of now limit ttl uuid "certain s"]) (auto simp: eligible_def outbox_claim_items_def split: sum.splits if_splits)
  moreover have "distinct (map claim_msg cs)" by (rule claims_distinct [OF inv call])
  moreover have "claim_msg c \<notin> set (uncertain_ids s)" if "c \<in> set cs" for c
    using async_claim_keeps [OF inv call] that by blast
  moreover have "dict_get (obs_items (ao_store s')) m = dict_get (obs_items (ao_store s)) m
      \<or> (\<exists>it. dict_get (obs_items (ao_store s')) m = Some it \<and> parked it)" if m: "m \<notin> claim_msg ` set cs" for m
  proof (cases "m \<in> claim_msg ` set ds")
    case True
    with rest m show ?thesis by (auto simp: released_def)
  next
    case False
    have "dict_get (obs_items st) m = dict_get (obs_items (certain s)) m"
      by (rule claim_other_items [OF claim False])
    then show ?thesis using 2(6) [OF q False] by (simp add: restored_get [OF inv] certain_get)
  qed
  ultimately show ?thesis using held bytes by force
qed (use call in simp)


definition sample_async :: "unit async_outbox" where
  "sample_async = \<lparr>ao_store = sample_outbox, ao_uncertain = []\<rparr>"

definition sample_async_claim :: "unit outbox_claim" where
  "sample_async_claim = \<lparr>oc_claim_id = ''c'', oc_envelope = harness_envelope ''b'' () 0 3, oc_claimed_until = 14\<rparr>"

definition sample_async_claimed :: "unit async_outbox" where
  "sample_async_claimed = snd (async_claim (\<lambda>_. Inr 0) (utc_datetime 4) 1 10 (Some 5) (\<lambda>_. ''c'') sample_async)"

lemmas async_eval = async_claim_def async_uncertain_def when_current_def current_def on_outbox_def dict_update_def unclaimed_def
  outbox_claim_items_def valid_item_def claimable_def claim_order_def put_item_def Let_def dt_plus_def dt_max_def
  require_aware_utc_def utc_datetime_def sample_outbox_defs

lemma sample_async_claimed_eq: "async_claim (\<lambda>_. Inr 0) (utc_datetime 4) 1 10 (Some 5) (\<lambda>_. ''c'') sample_async
    = (Inr [sample_async_claim], sample_async_claimed)"
  by (simp add: sample_async_claimed_def sample_async_def sample_async_claim_def async_eval)

lemma sample_async_inv: "async_inv sample_async"
  by (simp add: sample_async_def async_inv_def sample_outbox_inv)

theorem bounded_claim_respects_bounds_witness:
  "outbox_held sample_async_claim (ao_store sample_async_claimed) \<and> payload_bytes (\<lambda>_. Inr 0) sample_async_claim \<le> 5"
  using bounded_claim_respects_bounds [OF sample_async_inv sample_async_claimed_eq] by simp


definition sample_async_uncertain :: "unit async_outbox" where
  "sample_async_uncertain = snd (async_uncertain sample_async_claim ''timeout'' (utc_datetime 6) sample_async_claimed)"

lemma sample_async_uncertain_eq: "async_uncertain sample_async_claim ''timeout'' (utc_datetime 6) sample_async_claimed
    = (Inr APPLIED, sample_async_uncertain)"
  by (simp add: sample_async_uncertain_def sample_async_claimed_def sample_async_def sample_async_claim_def async_eval)

theorem uncertain_message_is_parked_witness:
  "\<exists>cs. fst (run (async_step (\<lambda>_. Inr 0)) [Async_claim (utc_datetime 100) 5 10 (Some 5) (\<lambda>_. ''d'')] sample_async_uncertain)
        = [Claimed (Inr cs)] \<and> map claim_msg cs = [OpaqueId ''a''] \<and> OpaqueId ''b'' \<notin> claim_msg ` set cs"
proof -
  let ?run = "run (async_step (\<lambda>_. Inr 0)) [Async_claim (utc_datetime 100) 5 10 (Some 5) (\<lambda>_. ''d'')] sample_async_uncertain"
  have inv: "async_inv sample_async_claimed"
    using settlements_inv(5) [OF sample_async_inv, of "\<lambda>_. Inr 0"] by (simp add: sample_async_claimed_def)
  have "\<exists>cs. fst ?run = [Claimed (Inr cs)] \<and> map claim_msg cs = [OpaqueId ''a'']"
    by (simp add: sample_async_uncertain_def sample_async_claimed_def sample_async_def sample_async_claim_def async_eval)
  moreover have "claim_msg sample_async_claim = OpaqueId ''b''" by (simp add: sample_async_claim_def harness_envelope_def)
  ultimately show ?thesis
    using uncertain_message_is_parked [OF inv sample_async_uncertain_eq,
        of "\<lambda>_. Inr 0" "[Async_claim (utc_datetime 100) 5 10 (Some 5) (\<lambda>_. ''d'')]"] by auto
qed

text \<open>A message larger than the byte bound is skipped by every claim and never fails.  Since the bound is applied to the messages
  selected by the limit, oversized messages at the head of the outbox hide the messages behind them: when the
  first \<open>limit\<close> due messages exceed the bound, the claim returns nothing at all.\<close>

lemma bound_claims_oversized:
  assumes "outbox_inv st" and "distinct (map claim_msg cs)" and "\<forall>c\<in>set cs. outbox_held c st"
    and "\<forall>c\<in>set cs. \<exists>n. size_of (oe_payload (oc_envelope c)) = Inr n \<and> b < n" and "0 \<le> b"
  shows "fst (bound_claims size_of b 0 sel cs st) = Inr sel"
  using assms
proof (induction cs arbitrary: st)
  case (Cons c cs)
  obtain it where it: "valid_item c st = Some it" using Cons.prems(3) held_valid by fastforce
  note vi = valid_item_Some [OF Cons.prems(1) it]
  have "outbox_inv (put_item (claim_msg c) (unclaimed it) st)"
    using vi Cons.prems(1) by (intro put_item_inv unclaimed_ok) auto
  moreover have "\<forall>c'\<in>set cs. outbox_held c' (put_item (claim_msg c) (unclaimed it) st)"
    using Cons.prems(2,3) by (auto intro!: held_put_other)
  ultimately have "fst (bound_claims size_of b 0 sel cs (put_item (claim_msg c) (unclaimed it) st)) = Inr sel"
    using Cons.prems by (intro Cons.IH) auto
  with Cons.prems(4,5) it show ?case by auto
qed simp

lemma oversized_messages_hide_the_others:
  assumes inv: "async_inv s" and t: "require_aware_utc now = Inr t" "0 < limit" "0 < ttl" "dt_plus t ttl = Inr u" and b: "0 < b"
    and big: "\<forall>it\<in>set (eligible t limit (certain s)). \<exists>n. size_of (oe_payload (st_envelope it)) = Inr n \<and> b < n"
  shows "fst (async_claim size_of now limit ttl (Some b) uuid s) = Inr []"
proof -
  let ?e = "eligible t limit (certain s)"
  let ?cs = "mk_claims uuid u 0 ?e" and ?st = "mark_claims uuid u 0 ?e (certain s)"
  note call = claim_spec [OF t, of uuid "certain s"]
  note cinv = certain_inv [OF inv]
  note frame = claim_frame [OF cinv call]
  have "outbox_inv ?st" using claim_inv [OF cinv, of now limit ttl uuid] call by simp
  then have rinv: "outbox_inv (restored s ?st)"
    using frame by (intro restored_inv [OF inv]) (simp_all add: certain_def)
  have "claim_msg c \<notin> set (uncertain_ids s)" if "c \<in> set ?cs" for c
    using claimed_from [OF cinv call that] by (simp add: certain_get split: if_splits)
  then have held: "\<forall>c\<in>set ?cs. outbox_held c (restored s ?st)"
    using claim_holds [OF cinv call] by (auto intro: restored_held [OF inv])
  have "oc_envelope ` set (mk_claims uuid u n its) = st_envelope ` set its" for n and its :: "'a stored list"
    by (induction its arbitrary: n) auto
  then have "\<forall>c\<in>set ?cs. \<exists>n. size_of (oe_payload (oc_envelope c)) = Inr n \<and> b < n"
    using big by (metis (no_types, lifting) imageE imageI)
  with bound_claims_oversized [OF rinv claim_returns(3) [OF cinv call] held] b
  have "fst (bound_claims size_of b 0 [] ?cs (restored s ?st)) = Inr []" by simp
  with async_claim_spec [OF inv _ call, of "Some b" size_of] b show ?thesis by (simp add: split_def)
qed

text \<open>The in-memory asynchronous outbox passes its conformance harness.\<close>

lemma async_outbox_harness_passes:
  assumes "InMemoryAsyncOutboxStore cap = Inr s" and "0 \<le> now" and "now + seconds 60 \<le> dt_max"
  shows "fst (async_outbox_exercise p now uuid s) = Inr ()"
proof -
  have s: "s = \<lparr>ao_store = \<lparr>obs_capacity = cap, obs_items = []\<rparr>, ao_uncertain = []\<rparr>" "0 < cap"
    using assms(1) by (auto simp: InMemoryAsyncOutboxStore_def InMemoryOutboxStore_def and_then_def split: if_splits)
  show ?thesis
    using assms(2,3) s(2)
    by (simp add: s(1) async_outbox_exercise_def async_add_def async_delivered_def settled_truth_def outbox_eval async_claim_def
        when_current_def current_def on_outbox_def dict_update_def unclaimed_def mk_outbox_envelope_def seconds_def
        sbind_def sassert_def dt_plus_def)
qed

end
