(* ===== verification/Relay.thy ===== *)
theory Relay
  imports AsyncOutbox
begin

text \<open>
  Model of \<open>AsyncRelay\<close> in \<open>src/src/pytitect/aio/runtime.py\<close> with the retry composition of \<open>aio/resilience.py\<close>.  A
  round claims a batch and hands it to workers, coroutines of one event loop, which run between their awaits without
  interruption.  The relation \<open>relay_step\<close> has one rule for each stretch between awaits: taking the
  next claim, the publisher's answer, the settlement with the store; in between other users of the store may call it.
  Readings of the clock and the deadlines, the answers of the publisher and the jitter are free in the rules, so that theorems about all
  traces are theorems about all schedules and all behaviours of the transport.
\<close>

section \<open>Publication results\<close>

datatype publication_result =
    PublicationConfirmed string
  | PublicationRetryable string "datetime option"
  | PublicationRejected string
  | PublicationUncertain string

text \<open>The checks of the constructors.  An uncertain result has none.\<close>

fun check_publication :: "publication_result \<Rightarrow> publication_result res" where
  "check_publication (PublicationConfirmed i) = (if i = [] then Inl ValueError else Inr (PublicationConfirmed i))"
| "check_publication (PublicationRetryable r after) = (if r = [] then Inl ValueError else Inr (PublicationRetryable r after))"
| "check_publication (PublicationRejected r) = (if r = [] then Inl ValueError else Inr (PublicationRejected r))"
| "check_publication (PublicationUncertain r) = Inr (PublicationUncertain r)"

section \<open>Retry budget and composition\<close>

definition mk_retry_budget :: "int \<Rightarrow> int res" where
  "mk_retry_budget allowance = (if allowance < 0 then Inl ValueError else Inr allowance)"

definition budget_take :: "int \<Rightarrow> bool \<times> int" where
  "budget_take remaining = (if remaining = 0 then (False, remaining) else (True, remaining - 1))"

datatype retry_decision = RetryScheduled timedelta | RetryDeferred timedelta string

text \<open>\<open>fraction\<close> is the jitter's reading and \<open>remaining\<close> that of the round's deadline, in seconds.\<close>

definition schedule ::
    "retry_policy \<Rightarrow> real \<Rightarrow> int \<Rightarrow> datetime \<Rightarrow> real \<Rightarrow> datetime option \<Rightarrow> (int, retry_decision) act" where
  "schedule policy fraction attempt now remaining retry_after budget =
     (case and_then (require_aware_utc now) (\<lambda>t.
           and_then (check (0 \<le> fraction \<and> fraction \<le> 1) ValueError) (\<lambda>_.
           and_then (retry_delay policy attempt) (\<lambda>full.
             let delay = round_half_even (of_int full * fraction) in
             case retry_after of
               None \<Rightarrow> Inr delay
             | Some ra \<Rightarrow> and_then (require_aware_utc ra) (\<lambda>r. Inr (max delay (r - t)))))) of
        Inl e \<Rightarrow> (Inl e, budget)
      | Inr delay \<Rightarrow>
          if rp_max_attempts policy \<le> attempt then (Inr (RetryDeferred delay ''attempts''), budget)
          else if remaining \<le> of_int delay / 1000000 then (Inr (RetryDeferred delay ''deadline''), budget)
          else (case budget_take budget of
                  (False, b) \<Rightarrow> (Inr (RetryDeferred delay ''budget''), b)
                | (True, b) \<Rightarrow> (Inr (RetryScheduled delay), b)))"

section \<open>The relay\<close>

record relay =
  rl_policy :: retry_policy
  rl_claim_ttl :: timedelta
  rl_concurrency :: int
  rl_max_admitted :: int
  rl_max_bytes :: int

definition mk_relay :: "retry_policy \<Rightarrow> timedelta \<Rightarrow> timedelta \<Rightarrow> int \<Rightarrow> int \<Rightarrow> int \<Rightarrow> timedelta \<Rightarrow> relay res" where
  "mk_relay policy claim_ttl publish_timeout concurrency max_admitted max_bytes round_timeout =
     (if concurrency \<le> 0 \<or> max_admitted \<le> 0 \<or> max_bytes \<le> 0 then Inl ValueError
      else if claim_ttl \<le> 0 \<or> publish_timeout \<le> 0 \<or> round_timeout \<le> 0 then Inl ValueError
      else Inr \<lparr>rl_policy = policy, rl_claim_ttl = claim_ttl, rl_concurrency = concurrency,
                rl_max_admitted = max_admitted, rl_max_bytes = max_bytes\<rparr>)"

text \<open>The settlement a worker has decided on, and the counter it will add to.\<close>

datatype settlement = ToDelivered | ToRetry datetime | ToDefer datetime | ToUncertain string | ToFailed string

datatype relay_outcome = ODelivered | ORetried | OFailed | ODeferred | OStale | OUncertain

definition decide ::
    "retry_policy \<Rightarrow> real \<Rightarrow> real \<Rightarrow> int \<Rightarrow> datetime \<Rightarrow> publication_result \<Rightarrow> (int, settlement) act" where
  "decide policy fraction remaining attempt now result budget =
     (case result of
        PublicationUncertain reason \<Rightarrow> (Inr (ToUncertain reason), budget)
      | PublicationConfirmed _ \<Rightarrow> (Inr ToDelivered, budget)
      | PublicationRejected reason \<Rightarrow> (Inr (ToFailed reason), budget)
      | PublicationRetryable reason retry_after \<Rightarrow>
          if attempt + 1 < rp_max_attempts policy then
            (case schedule policy fraction (attempt + 1) now remaining retry_after budget of
               (Inl e, b) \<Rightarrow> (Inl e, b)
             | (Inr (RetryDeferred delay _), b) \<Rightarrow> (and_then (dt_shift now delay) (\<lambda>t. Inr (ToDefer t)), b)
             | (Inr (RetryScheduled delay), b) \<Rightarrow> (and_then (dt_shift now delay) (\<lambda>t. Inr (ToRetry t)), b))
          else (Inr (ToFailed reason), budget))"

definition outcome_of :: "settlement \<Rightarrow> settlement_result \<Rightarrow> relay_outcome" where
  "outcome_of todo r =
     (if r = STALE then OStale
      else case todo of ToDelivered \<Rightarrow> ODelivered | ToRetry _ \<Rightarrow> ORetried | ToDefer _ \<Rightarrow> ODeferred
             | ToUncertain _ \<Rightarrow> OUncertain | ToFailed _ \<Rightarrow> OFailed)"

definition settle_store ::
    "'p outbox_claim \<Rightarrow> datetime \<Rightarrow> settlement \<Rightarrow> ('p async_outbox, relay_outcome) act" where
  "settle_store c now todo =
     sbind (case todo of
              ToDelivered \<Rightarrow> async_delivered c now
            | ToRetry t \<Rightarrow> async_retry c t now
            | ToDefer t \<Rightarrow> async_defer c t now
            | ToUncertain reason \<Rightarrow> async_uncertain c reason now
            | ToFailed reason \<Rightarrow> async_failed c reason now) (\<lambda>r. sreturn (outcome_of todo r))"

text \<open>A round in progress.  \<open>rr_waiting\<close> is the iterator over the claims, \<open>rr_publishing\<close> and \<open>rr_settling\<close> the claims of
  the workers that wait for the publisher and for the store.\<close>

record 'p relay_round =
  rr_store :: "'p async_outbox"
  rr_budget :: int
  rr_counts :: "relay_outcome \<Rightarrow> int"
  rr_waiting :: "'p outbox_claim list"
  rr_publishing :: "'p outbox_claim list"
  rr_settling :: "('p outbox_claim \<times> datetime \<times> settlement) list"
  rr_error :: "exn option"

definition tally :: "relay_outcome \<Rightarrow> 'p relay_round \<Rightarrow> 'p relay_round" where
  "tally x s = s\<lparr>rr_counts := (rr_counts s)(x := rr_counts s x + 1)\<rparr>"

definition busy_workers :: "'p relay_round \<Rightarrow> int" where
  "busy_workers s = int (length (rr_publishing s) + length (rr_settling s))"

record relay_summary =
  rs_claimed :: int
  rs_delivered :: int
  rs_retried :: int
  rs_failed :: int
  rs_deferred :: int
  rs_stale :: int
  rs_uncertain :: int
  rs_busy :: bool

definition busy_summary :: relay_summary where
  "busy_summary = \<lparr>rs_claimed = 0, rs_delivered = 0, rs_retried = 0, rs_failed = 0, rs_deferred = 0, rs_stale = 0,
     rs_uncertain = 0, rs_busy = True\<rparr>"

definition summary_of :: "int \<Rightarrow> 'p relay_round \<Rightarrow> relay_summary" where
  "summary_of claimed s = \<lparr>rs_claimed = claimed, rs_delivered = rr_counts s ODelivered, rs_retried = rr_counts s ORetried,
     rs_failed = rr_counts s OFailed, rs_deferred = rr_counts s ODeferred, rs_stale = rr_counts s OStale,
     rs_uncertain = rr_counts s OUncertain, rs_busy = False\<rparr>"

text \<open>The start of \<open>run_once\<close>: a busy relay answers at once, an idle one claims.\<close>

definition start_round ::
    "('p \<Rightarrow> int res) \<Rightarrow> relay \<Rightarrow> bool \<Rightarrow> int \<Rightarrow> datetime \<Rightarrow> (nat \<Rightarrow> string) \<Rightarrow> int \<Rightarrow> 'p async_outbox
     \<Rightarrow> (relay_summary + 'p outbox_claim list \<times> 'p relay_round) res \<times> 'p async_outbox" where
  "start_round size_of rl running limit now uuid budget st =
     (if limit \<le> 0 then (Inl ValueError, st)
      else if running then (Inr (Inl busy_summary), st)
      else
        (case async_claim size_of now (min limit (rl_max_admitted rl)) (rl_claim_ttl rl) (Some (rl_max_bytes rl)) uuid st of
           (Inl e, st') \<Rightarrow> (Inl e, st')
         | (Inr claims, st') \<Rightarrow>
             (Inr (Inr (claims, \<lparr>rr_store = st', rr_budget = budget, rr_counts = (\<lambda>_. 0), rr_waiting = claims,
                                 rr_publishing = [], rr_settling = [], rr_error = None\<rparr>)), st')))"

datatype 'p relay_event =
    Take "'p outbox_claim"
  | Answer "'p outbox_claim" publication_result
  | Settle "'p outbox_claim" relay_outcome
  | Raise exn
  | Other "'p async_call"

inductive relay_step :: "('p \<Rightarrow> int res) \<Rightarrow> relay \<Rightarrow> 'p relay_round \<Rightarrow> 'p relay_event \<Rightarrow> 'p relay_round \<Rightarrow> bool"
  for size_of rl where
  take_stale:
    "rr_error s = None \<Longrightarrow> rr_waiting s = c # cs \<Longrightarrow> busy_workers s < rl_concurrency rl
     \<Longrightarrow> oc_claimed_until c \<le> now \<or> authority_expired
     \<Longrightarrow> relay_step size_of rl s (Settle c OStale) (tally OStale (s\<lparr>rr_waiting := cs\<rparr>))"
| take_late:
    "rr_error s = None \<Longrightarrow> rr_waiting s = c # cs \<Longrightarrow> busy_workers s < rl_concurrency rl
     \<Longrightarrow> now < oc_claimed_until c
     \<Longrightarrow> relay_step size_of rl s (Take c)
           (s\<lparr>rr_waiting := cs, rr_settling := rr_settling s @ [(c, utc_datetime now, ToDefer (utc_datetime now))]\<rparr>)"
| take_publish:
    "rr_error s = None \<Longrightarrow> rr_waiting s = c # cs \<Longrightarrow> busy_workers s < rl_concurrency rl
     \<Longrightarrow> now < oc_claimed_until c
     \<Longrightarrow> relay_step size_of rl s (Take c) (s\<lparr>rr_waiting := cs, rr_publishing := rr_publishing s @ [c]\<rparr>)"
| answer_stale:
    "rr_error s = None \<Longrightarrow> rr_publishing s = xs @ c # ys
     \<Longrightarrow> check_publication result = Inr result
     \<Longrightarrow> relay_step size_of rl s (Answer c result) (tally OStale (s\<lparr>rr_publishing := xs @ ys\<rparr>))"
| answer:
    "rr_error s = None \<Longrightarrow> rr_publishing s = xs @ c # ys
     \<Longrightarrow> check_publication result = Inr result
     \<Longrightarrow> decide (rl_policy rl) fraction remaining (oe_attempt (oc_envelope c)) (utc_datetime now) result (rr_budget s) = (Inr todo, b)
     \<Longrightarrow> relay_step size_of rl s (Answer c result)
           (s\<lparr>rr_publishing := xs @ ys, rr_settling := rr_settling s @ [(c, utc_datetime now, todo)], rr_budget := b\<rparr>)"
| answer_error:
    "rr_error s = None \<Longrightarrow> rr_publishing s = xs @ c # ys
     \<Longrightarrow> check_publication result = Inr result
     \<Longrightarrow> decide (rl_policy rl) fraction remaining (oe_attempt (oc_envelope c)) (utc_datetime now) result (rr_budget s) = (Inl e, b)
     \<Longrightarrow> relay_step size_of rl s (Raise e) (s\<lparr>rr_publishing := xs @ ys, rr_budget := b, rr_error := Some e\<rparr>)"
| publisher_error:
    "rr_error s = None \<Longrightarrow> rr_publishing s = xs @ c # ys
     \<Longrightarrow> relay_step size_of rl s (Raise e) (s\<lparr>rr_publishing := xs @ ys, rr_error := Some e\<rparr>)"
| settle:
    "rr_error s = None \<Longrightarrow> rr_settling s = xs @ (c, now, todo) # ys
     \<Longrightarrow> settle_store c now todo (rr_store s) = (Inr x, st)
     \<Longrightarrow> relay_step size_of rl s (Settle c x) (tally x (s\<lparr>rr_settling := xs @ ys, rr_store := st\<rparr>))"
| settle_error:
    "rr_error s = None \<Longrightarrow> rr_settling s = xs @ (c, now, todo) # ys
     \<Longrightarrow> settle_store c now todo (rr_store s) = (Inl e, st)
     \<Longrightarrow> relay_step size_of rl s (Raise e) (s\<lparr>rr_settling := xs @ ys, rr_store := st, rr_error := Some e\<rparr>)"
| other:
    "valid_async_call call (rr_store s)
     \<Longrightarrow> relay_step size_of rl s (Other call) (s\<lparr>rr_store := snd (async_step size_of call (rr_store s))\<rparr>)"

declare relay_step.intros [intro]

text \<open>A trace of a round, the latest event last.\<close>

inductive relay_trace :: "('p \<Rightarrow> int res) \<Rightarrow> relay \<Rightarrow> 'p relay_round \<Rightarrow> 'p relay_event list \<Rightarrow> 'p relay_round \<Rightarrow> bool"
  for size_of rl s where
  start: "relay_trace size_of rl s [] s"
| more: "relay_trace size_of rl s es s1 \<Longrightarrow> relay_step size_of rl s1 e s2 \<Longrightarrow> relay_trace size_of rl s (es @ [e]) s2"


lemmas relay_trace_induct = relay_trace.induct [consumes 1, case_names start more]

inductive_cases relay_stepE [consumes 1, case_names take_stale take_late take_publish answer_stale answer answer_error
    publisher_error settle settle_error other]: "relay_step size_of rl s e s'"

lemma tally_simps [simp]:
  "rr_store (tally x s) = rr_store s" "rr_budget (tally x s) = rr_budget s" "rr_waiting (tally x s) = rr_waiting s"
  "rr_publishing (tally x s) = rr_publishing s" "rr_settling (tally x s) = rr_settling s" "rr_error (tally x s) = rr_error s"
  "rr_counts (tally x s) = (rr_counts s)(x := rr_counts s x + 1)"
  by (simp_all add: tally_def)

section \<open>Every claim is accounted for\<close>

definition settled_count :: "'p relay_round \<Rightarrow> int" where
  "settled_count s = rr_counts s ODelivered + rr_counts s ORetried + rr_counts s OFailed + rr_counts s ODeferred
     + rr_counts s OStale + rr_counts s OUncertain"

definition open_claims :: "'p relay_round \<Rightarrow> nat" where
  "open_claims s = length (rr_waiting s) + length (rr_publishing s) + length (rr_settling s)"

definition work_left :: "'p relay_round \<Rightarrow> nat" where
  "work_left s = 3 * length (rr_waiting s) + 2 * length (rr_publishing s) + length (rr_settling s)"

fun own_event :: "'p relay_event \<Rightarrow> bool" where
  "own_event (Other call) \<longleftrightarrow> False"
| "own_event _ \<longleftrightarrow> True"

lemma settled_count_tally [simp]: "settled_count (tally x s) = settled_count s + 1"
  by (cases x) (simp_all add: settled_count_def)

lemma settled_count_update [simp]:
  "settled_count (s\<lparr>rr_waiting := cs\<rparr>) = settled_count s" "settled_count (s\<lparr>rr_publishing := ps\<rparr>) = settled_count s"
  "settled_count (s\<lparr>rr_settling := ss\<rparr>) = settled_count s" "settled_count (s\<lparr>rr_store := st\<rparr>) = settled_count s"
  "settled_count (s\<lparr>rr_budget := b\<rparr>) = settled_count s" "settled_count (s\<lparr>rr_error := e\<rparr>) = settled_count s"
  by (simp_all add: settled_count_def)

lemma step_conserves:
  "relay_step size_of rl s e s' \<Longrightarrow> rr_error s' = None \<Longrightarrow>
     rr_error s = None \<and> settled_count s' + int (open_claims s') = settled_count s + int (open_claims s)"
  by (erule relay_stepE) (simp_all add: open_claims_def)

lemma step_works:
  "relay_step size_of rl s e s' \<Longrightarrow> work_left s' + of_bool (own_event e) \<le> work_left s"
  by (erule relay_stepE) (simp_all add: work_left_def)

lemma trace_conserves:
  assumes "relay_trace size_of rl s0 es s"
  shows "rr_error s = None \<longrightarrow> settled_count s + int (open_claims s) = settled_count s0 + int (open_claims s0)"
  using assms by (induction rule: relay_trace.induct) (auto dest: step_conserves)

lemma trace_works:
  assumes "relay_trace size_of rl s0 es s"
  shows "work_left s + length (filter own_event es) \<le> work_left s0"
  using assms by (induction rule: relay_trace.induct) (auto dest!: step_works split: if_splits)

lemma idle_when_stuck:
  assumes "rr_error s = None" and "0 < rl_concurrency rl" and "\<And>e s'. own_event e \<Longrightarrow> \<not> relay_step size_of rl s e s'"
  shows "open_claims s = 0"
proof (rule ccontr)
  assume "open_claims s \<noteq> 0"
  then consider (settling) x where "x \<in> set (rr_settling s)" | (publishing) c where "c \<in> set (rr_publishing s)"
    | (waiting) c cs where "rr_settling s = []" "rr_publishing s = []" "rr_waiting s = c # cs"
    by (cases "rr_waiting s"; cases "rr_publishing s"; cases "rr_settling s") (auto simp: open_claims_def)
  then show False
  proof cases
    case settling
    then obtain xs c now todo ys where split: "rr_settling s = xs @ (c, now, todo) # ys" by (metis prod_cases3 split_list)
    obtain r st where "settle_store c now todo (rr_store s) = (r, st)" by fastforce
    with split assms(1,3) show False
      using relay_step.settle [OF assms(1) split] relay_step.settle_error [OF assms(1) split] by (cases r) (metis own_event.simps)+
  next
    case publishing
    then obtain xs ys where "rr_publishing s = xs @ c # ys" by (metis split_list)
    from relay_step.publisher_error [OF assms(1) this] assms(3) show False by (metis own_event.simps(5))
  next
    case waiting
    then have "busy_workers s < rl_concurrency rl" using assms(2) by (simp add: busy_workers_def)
    from relay_step.take_stale [OF assms(1) waiting(3) this, of _ True] assms(3) show False by (metis own_event.simps(4))
  qed
qed

section \<open>Every event has its reason\<close>

text \<open>Why a settlement may be asked of the store, by the events so far.\<close>

definition reason_for :: "relay \<Rightarrow> 'p relay_event list \<Rightarrow> 'p outbox_claim \<Rightarrow> settlement \<Rightarrow> bool" where
  "reason_for rl es c todo =
     (case todo of
        ToDelivered \<Rightarrow> \<exists>i. Answer c (PublicationConfirmed i) \<in> set es
      | ToUncertain r \<Rightarrow> Answer c (PublicationUncertain r) \<in> set es
      | ToFailed r \<Rightarrow> Answer c (PublicationRejected r) \<in> set es
          \<or> (\<exists>ra. Answer c (PublicationRetryable r ra) \<in> set es \<and> rp_max_attempts (rl_policy rl) \<le> oe_attempt (oc_envelope c) + 1)
      | ToRetry t \<Rightarrow> \<exists>r ra. Answer c (PublicationRetryable r ra) \<in> set es \<and> oe_attempt (oc_envelope c) + 1 < rp_max_attempts (rl_policy rl)
      | ToDefer t \<Rightarrow> Take c \<in> set es)"

definition reason_of_outcome :: "relay \<Rightarrow> 'p relay_event list \<Rightarrow> 'p outbox_claim \<Rightarrow> relay_outcome \<Rightarrow> bool" where
  "reason_of_outcome rl es c x =
     (case x of
        ODelivered \<Rightarrow> \<exists>i. Answer c (PublicationConfirmed i) \<in> set es
      | OUncertain \<Rightarrow> \<exists>r. Answer c (PublicationUncertain r) \<in> set es
      | OFailed \<Rightarrow> \<exists>r. Answer c (PublicationRejected r) \<in> set es
          \<or> (\<exists>ra. Answer c (PublicationRetryable r ra) \<in> set es \<and> rp_max_attempts (rl_policy rl) \<le> oe_attempt (oc_envelope c) + 1)
      | ORetried \<Rightarrow> \<exists>r ra. Answer c (PublicationRetryable r ra) \<in> set es \<and> oe_attempt (oc_envelope c) + 1 < rp_max_attempts (rl_policy rl)
      | ODeferred \<Rightarrow> Take c \<in> set es
      | OStale \<Rightarrow> True)"

lemma reason_for_mono: "reason_for rl es c todo \<Longrightarrow> set es \<subseteq> set es' \<Longrightarrow> reason_for rl es' c todo"
  by (cases todo) (auto simp: reason_for_def)

lemma reason_of_outcome_mono: "reason_of_outcome rl es c x \<Longrightarrow> set es \<subseteq> set es' \<Longrightarrow> reason_of_outcome rl es' c x"
  by (cases x) (auto simp: reason_of_outcome_def)

lemma reason_of_settled: "reason_for rl es c todo \<Longrightarrow> reason_of_outcome rl es c (outcome_of todo r)"
  by (cases todo) (auto simp: reason_for_def reason_of_outcome_def outcome_of_def)

lemma settle_store_outcome: "settle_store c now todo st = (Inr x, st') \<Longrightarrow> \<exists>r. x = outcome_of todo r"
  by (auto simp: settle_store_def sbind_def split: prod.splits sum.splits)

lemma reason_of_decision:
  assumes "decide (rl_policy rl) fraction remaining (oe_attempt (oc_envelope c)) now result budget = (Inr todo, b)" and "Take c \<in> set es"
  shows "reason_for rl (es @ [Answer c result]) c todo"
  using assms
  by (cases result; auto simp: decide_def reason_for_def and_then_eq_Inr split: if_splits prod.splits sum.splits retry_decision.splits; blast)

definition justified :: "relay \<Rightarrow> 'p relay_event list \<Rightarrow> 'p relay_round \<Rightarrow> bool" where
  "justified rl es s \<longleftrightarrow> (\<forall>c\<in>set (rr_publishing s). Take c \<in> set es)
     \<and> (\<forall>(c, now, todo)\<in>set (rr_settling s). reason_for rl es c todo)
     \<and> (\<forall>c x. Settle c x \<in> set es \<longrightarrow> reason_of_outcome rl es c x)"

lemma justified_mono:
  assumes "justified rl es s" and "set (rr_publishing s') \<subseteq> set (rr_publishing s)" and "set (rr_settling s') \<subseteq> set (rr_settling s)"
    and "\<And>c x. e = Settle c x \<Longrightarrow> reason_of_outcome rl es c x"
  shows "justified rl (es @ [e]) s'"
proof -
  have mono: "set es \<subseteq> set (es @ [e])" by auto
  have "Take c \<in> set (es @ [e])" if "c \<in> set (rr_publishing s')" for c
    using that assms(1,2) by (auto simp: justified_def)
  moreover have "reason_for rl (es @ [e]) c todo" if "(c, now, todo) \<in> set (rr_settling s')" for c now todo
    using that assms(1,3) by (intro reason_for_mono [OF _ mono]) (auto simp: justified_def)
  moreover have "reason_of_outcome rl (es @ [e]) c x" if "Settle c x \<in> set (es @ [e])" for c x
    using that assms(1,4) by (intro reason_of_outcome_mono [OF _ mono]) (auto simp: justified_def)
  ultimately show ?thesis unfolding justified_def by blast
qed

lemma trace_justified:
  assumes "relay_trace size_of rl s0 es s" and "rr_publishing s0 = []" and "rr_settling s0 = []"
  shows "justified rl es s"
  using assms
proof (induction rule: relay_trace.induct)
  case (more es s1 e s2)
  then have j: "justified rl es s1" by simp
  have mono: "\<And>c todo. reason_for rl es c todo \<Longrightarrow> reason_for rl (es @ [e]) c todo"
    and mono': "\<And>c x. reason_of_outcome rl es c x \<Longrightarrow> reason_of_outcome rl (es @ [e]) c x"
    by (auto intro: reason_for_mono reason_of_outcome_mono)
  from more(2) show ?case
  proof (cases rule: relay_stepE)
    case (take_stale c cs now x)
    with j show ?thesis by (intro justified_mono [OF j]) (auto simp: reason_of_outcome_def)
  next
    case (take_late c cs now)
    have "reason_for rl (es @ [e]) c (ToDefer (utc_datetime now))" by (simp add: reason_for_def take_late)
    with j mono mono' show ?thesis unfolding justified_def take_late(2) by (auto simp: take_late(1))
  next
    case (take_publish c cs now)
    with j mono mono' show ?thesis unfolding justified_def by auto
  next
    case (answer_stale xs c ys result)
    with j show ?thesis by (intro justified_mono [OF j]) auto
  next
    case (answer xs c ys result fraction remaining now todo b)
    have "Take c \<in> set es" using j answer(4) by (simp add: justified_def)
    from reason_of_decision [OF answer(6) this] have "reason_for rl (es @ [e]) c todo" by (simp add: answer(1))
    with j mono mono' answer show ?thesis unfolding justified_def by auto
  next
    case (settle xs c now todo ys x st)
    have "reason_for rl es c todo" using j settle(4) by (auto simp: justified_def)
    with settle_store_outcome [OF settle(5)] have "reason_of_outcome rl es c x" by (auto intro: reason_of_settled)
    with j settle show ?thesis by (intro justified_mono [OF j]) auto
  qed (intro justified_mono [OF j]; auto)+
qed (simp add: justified_def)


section \<open>At most one publication and one settlement per claim\<close>

fun answers_for :: "opaque_id \<Rightarrow> 'p relay_event \<Rightarrow> bool" where
  "answers_for m (Answer c r) \<longleftrightarrow> claim_msg c = m"
| "answers_for m _ \<longleftrightarrow> False"

fun settles_for :: "opaque_id \<Rightarrow> 'p relay_event \<Rightarrow> bool" where
  "settles_for m (Settle c x) \<longleftrightarrow> claim_msg c = m"
| "settles_for m _ \<longleftrightarrow> False"

abbreviation of_msg :: "opaque_id \<Rightarrow> 'p outbox_claim list \<Rightarrow> nat" where
  "of_msg m cs \<equiv> length (filter (\<lambda>c. claim_msg c = m) cs)"

definition unanswered :: "opaque_id \<Rightarrow> 'p relay_round \<Rightarrow> nat" where
  "unanswered m s = of_msg m (rr_waiting s) + of_msg m (rr_publishing s)"

definition unsettled :: "opaque_id \<Rightarrow> 'p relay_round \<Rightarrow> nat" where
  "unsettled m s = unanswered m s + of_msg m (map fst (rr_settling s))"

lemma step_answers:
  "relay_step size_of rl s e s' \<Longrightarrow> unanswered m s' + of_bool (answers_for m e) \<le> unanswered m s"
  by (erule relay_stepE) (simp_all add: unanswered_def)

lemma step_settles:
  "relay_step size_of rl s e s' \<Longrightarrow> unsettled m s' + of_bool (settles_for m e) \<le> unsettled m s"
  by (erule relay_stepE) (simp_all add: unsettled_def unanswered_def)

lemma trace_answers:
  assumes "relay_trace size_of rl s0 es s"
  shows "unanswered m s + length (filter (answers_for m) es) \<le> unanswered m s0"
  using assms by (induction rule: relay_trace.induct) (auto dest!: step_answers [of _ _ _ _ _ m])

lemma trace_settles:
  assumes "relay_trace size_of rl s0 es s"
  shows "unsettled m s + length (filter (settles_for m) es) \<le> unsettled m s0"
  using assms by (induction rule: relay_trace.induct) (auto dest!: step_settles [of _ _ _ _ _ m])

lemma of_msg_distinct: "distinct (map claim_msg cs) \<Longrightarrow> of_msg m cs \<le> 1"
proof (induction cs)
  case (Cons c cs)
  show ?case
  proof (cases "claim_msg c = m")
    case True
    with Cons.prems have "filter (\<lambda>c. claim_msg c = m) cs = []" by (auto simp: filter_empty_conv image_iff)
    with True show ?thesis by simp
  qed (use Cons in simp)
qed simp

section \<open>Retries stay within the budget\<close>

definition retries_asked :: "'p relay_round \<Rightarrow> int" where
  "retries_asked s = int (length (filter (\<lambda>(c, now, todo). case todo of ToRetry t \<Rightarrow> True | _ \<Rightarrow> False) (rr_settling s)))"

definition spent :: "'p relay_round \<Rightarrow> int" where
  "spent s = rr_counts s ORetried + retries_asked s + rr_budget s"

lemma schedule_budget:
  assumes "schedule policy fraction attempt now remaining ra budget = (r, b)" and "0 \<le> budget"
  shows "0 \<le> b \<and> b \<le> budget \<and> (\<forall>d. r = Inr (RetryScheduled d) \<longrightarrow> b = budget - 1)"
  using assms by (auto simp: schedule_def budget_take_def split: sum.splits if_splits)

lemma decide_budget:
  assumes "decide policy fraction remaining attempt now result budget = (r, b)" and "0 \<le> budget"
  shows "0 \<le> b \<and> b \<le> budget \<and> (\<forall>t. r = Inr (ToRetry t) \<longrightarrow> b = budget - 1)"
proof (cases result)
  case (PublicationRetryable reason ra)
  obtain q b' where q: "schedule policy fraction (attempt + 1) now remaining ra budget = (q, b')" by fastforce
  from schedule_budget [OF this assms(2)] assms(1) PublicationRetryable q show ?thesis
    by (auto simp: decide_def and_then_eq_Inr assms(2) split: if_splits sum.splits retry_decision.splits)
qed (use assms in \<open>auto simp: decide_def\<close>)

lemma outcome_retried: "outcome_of todo r = ORetried \<Longrightarrow> \<exists>t. todo = ToRetry t"
  by (cases todo) (auto simp: outcome_of_def split: if_splits)

lemma step_spends:
  assumes "relay_step size_of rl s e s'" and "0 \<le> rr_budget s"
  shows "0 \<le> rr_budget s' \<and> spent s' \<le> spent s"
  using assms(1)
proof (cases rule: relay_stepE)
  case (answer xs c ys result fraction remaining now todo b)
  from decide_budget [OF answer(6) assms(2)] answer(2) show ?thesis
    by (cases todo) (auto simp: spent_def retries_asked_def)
next
  case (answer_error xs c ys result fraction remaining now ex b)
  from decide_budget [OF answer_error(6) assms(2)] answer_error(2) show ?thesis
    by (auto simp: spent_def retries_asked_def)
next
  case (settle xs c now todo ys x st)
  obtain r where "x = outcome_of todo r" using settle_store_outcome [OF settle(5)] by blast
  with outcome_retried [of todo r] settle assms(2) show ?thesis
    by (cases todo) (auto simp: spent_def retries_asked_def)
next
  case (settle_error xs c now todo ys ex st)
  with assms(2) show ?thesis by (auto simp: spent_def retries_asked_def)
qed (use assms(2) in \<open>auto simp: spent_def retries_asked_def\<close>)

lemma trace_spends:
  assumes "relay_trace size_of rl s0 es s" and "0 \<le> rr_budget s0"
  shows "0 \<le> rr_budget s \<and> spent s \<le> spent s0"
  using assms
proof (induction rule: relay_trace.induct)
  case (more es s1 e s2)
  from step_spends [OF more(2)] more(3) [OF more(4)] show ?case by auto
qed simp

section \<open>Only confirmed messages become delivered\<close>

text \<open>Calls of others that may deliver the message.\<close>

fun delivers :: "opaque_id \<Rightarrow> 'p async_call \<Rightarrow> bool" where
  "delivers m (Async_delivered c on) \<longleftrightarrow> claim_msg c = m"
| "delivers m (Async_resolve m' x d av on) \<longleftrightarrow> m' = m"
| "delivers m _ \<longleftrightarrow> False"

definition undelivered :: "opaque_id \<Rightarrow> 'p async_outbox \<Rightarrow> bool" where
  "undelivered m s \<longleftrightarrow> (\<forall>it. dict_get (obs_items (ao_store s)) m = Some it \<longrightarrow> st_delivered_at it = None)"

lemma undelivered_put: "undelivered m s \<Longrightarrow> (m' = m \<Longrightarrow> st_delivered_at it = None)
    \<Longrightarrow> undelivered m (s\<lparr>ao_store := put_item m' it (ao_store s)\<rparr>)"
  by (auto simp: undelivered_def put_item_def dict_simps)

lemma settles_item_undelivered:
  assumes "settles_item c s P q" and "undelivered m s"
    and "\<And>it. claim_msg c = m \<Longrightarrow> P it \<Longrightarrow> stored_ok m it \<Longrightarrow> st_delivered_at it = None"
  shows "undelivered m (snd q)"
proof (cases "snd q = s")
  case False
  with assms(1) obtain it where "snd q = settled_as c s it" "P it" "stored_ok (claim_msg c) it"
    unfolding settles_item_def by blast
  with assms(2,3) show ?thesis by (auto simp: settled_as_def intro!: undelivered_put)
qed (use assms(2) in simp)

lemma failed_item_open: "stored_ok m it \<Longrightarrow> st_failure_reason it = Some r \<Longrightarrow> st_delivered_at it = None"
  by (auto simp: stored_ok_def)


text \<open>A claim changes no delivery time.\<close>

definition same_delivery :: "'p outbox_store \<Rightarrow> 'p outbox_store \<Rightarrow> bool" where
  "same_delivery st st' \<longleftrightarrow> (\<forall>m it'. dict_get (obs_items st') m = Some it' \<longrightarrow>
     (\<exists>it. dict_get (obs_items st) m = Some it \<and> st_delivered_at it' = st_delivered_at it))"

lemma same_delivery_refl [simp]: "same_delivery st st"
  by (simp add: same_delivery_def)

lemma same_delivery_trans: "same_delivery st st1 \<Longrightarrow> same_delivery st1 st2 \<Longrightarrow> same_delivery st st2"
  unfolding same_delivery_def by metis

lemma same_delivery_put:
  "dict_get (obs_items st) m = Some it \<Longrightarrow> st_delivered_at it' = st_delivered_at it \<Longrightarrow> same_delivery st (put_item m it' st)"
  by (auto simp: same_delivery_def put_item_def dict_simps)

lemma bound_claims_delivery: "same_delivery st (snd (bound_claims size_of b retained sel cs st))"
proof (induction cs arbitrary: retained sel st)
  case (Cons c cs)
  have "same_delivery st (snd (bound_claims size_of b retained sel cs (put_item (claim_msg c) (unclaimed it) st)))"
    if "valid_item c st = Some it" for it
  proof (rule same_delivery_trans [OF same_delivery_put Cons.IH])
    show "dict_get (obs_items st) (claim_msg c) = Some it" using that by (auto simp: valid_item_def split: option.splits if_splits)
  qed (simp add: unclaimed_def)
  with Cons.IH show ?case by (auto split: sum.splits option.splits)
qed simp

lemma mark_claims_delivery:
  "\<forall>it\<in>set its. dict_get (obs_items st) (msg_id it) = Some it \<Longrightarrow> distinct (map msg_id its) \<Longrightarrow>
     same_delivery st (mark_claims uuid until n its st)"
proof (induction its arbitrary: n st)
  case (Cons it its)
  let ?st = "put_item (msg_id it) (claimed_item (uuid n) until it) st"
  have "same_delivery st ?st" using Cons.prems(1) by (auto simp: claimed_item_def intro: same_delivery_put)
  moreover have "msg_id x \<noteq> msg_id it" if "x \<in> set its" for x
    using Cons.prems(2) imageI [OF that, of "\<lambda>it. msg_id it"] by auto
  then have "\<forall>it'\<in>set its. dict_get (obs_items ?st) (msg_id it') = Some it'"
    using Cons.prems(1) by (simp add: put_item_def dict_simps)
  then have "same_delivery ?st (mark_claims uuid until (Suc n) its ?st)" using Cons.prems(2) by (intro Cons.IH) auto
  ultimately show ?case by (auto intro: same_delivery_trans)
qed simp

lemma outbox_claim_delivery:
  assumes inv: "outbox_inv st"
  shows "same_delivery st (snd (outbox_claim_items now limit ttl uuid st))"
proof (cases rule: claim_cases [of now limit ttl uuid st])
  case (overflow t it e)
  from overflow(3) obtain m where "(m, it) \<in> set (obs_items st)" by auto
  with inv have g: "dict_get (obs_items st) m = Some it" by (simp add: outbox_inv_def dict_get_iff)
  with outbox_inv_stored [OF inv g] overflow(4) show ?thesis
    by (auto simp: stored_ok_def intro: same_delivery_put)
next
  case (claims t)
  have "\<forall>it\<in>set (eligible t limit st). dict_get (obs_items st) (msg_id it) = Some it"
    using eligible_subset(1) [OF inv] by blast
  from mark_claims_delivery [OF this eligible_distinct [OF inv]] claims(5) show ?thesis by simp
qed auto

lemma async_claim_delivery:
  assumes inv: "async_inv s"
  shows "same_delivery (ao_store s) (ao_store (snd (async_claim size_of now limit ttl mb uuid s)))"
proof (cases "case mb of None \<Rightarrow> True | Some b \<Rightarrow> 0 < b")
  case True
  obtain r st where call: "outbox_claim_items now limit ttl uuid (certain s) = (r, st)" by fastforce
  have "same_delivery (certain s) st" using outbox_claim_delivery [OF certain_inv [OF inv], of now limit ttl uuid] call by simp
  then have "same_delivery (ao_store s) (restored s st)"
    by (auto simp: same_delivery_def restored_get [OF inv] certain_get split: if_splits)
  then show ?thesis
    unfolding async_claim_spec [OF inv True call]
    by (auto split: sum.splits option.splits prod.splits intro: same_delivery_trans)
      (metis bound_claims_delivery same_delivery_trans snd_conv)
next
  case False
  then show ?thesis by (auto simp: async_claim_def split: option.splits)
qed

lemma async_step_undelivered:
  assumes inv: "async_inv s" and un: "undelivered m s" and d: "\<not> delivers m call"
  shows "undelivered m (snd (async_step size_of call s))"
proof (cases call)
  case (Async_add env)
  with un show ?thesis
    by (auto simp: async_add_def on_outbox_def outbox_add_def undelivered_def put_item_def new_stored_def dict_simps split: if_splits)
next
  case (Async_claim now limit ttl mb uuid)
  with async_claim_delivery [OF inv, of size_of now limit ttl mb uuid] un show ?thesis
    by (auto simp: undelivered_def same_delivery_def) metis
next
  case (Async_delivered c on)
  with settles_item_undelivered [OF async_settlements(1) [OF inv] un, of c on] d show ?thesis by simp
next
  case (Async_retry c av on)
  with settles_item_undelivered [OF async_settlements(2) [OF inv] un, of c av on] show ?thesis by (simp add: parked_def)
next
  case (Async_defer c av on)
  with settles_item_undelivered [OF async_settlements(4) [OF inv] un, of c av on] show ?thesis by (simp add: parked_def)
next
  case (Async_failed c reason on)
  with settles_item_undelivered [OF async_settlements(3) [OF inv] un, of c reason on] show ?thesis
    by (auto simp: failed_item_open)
next
  case (Async_uncertain c reason on)
  have "undelivered m (snd (async_uncertain c reason on s))"
    using un
    by (auto simp: async_uncertain_def when_current_def current_def and_then_def unclaimed_def undelivered_def put_item_def dict_simps
        valid_item_def split: sum.splits option.splits bool.splits if_splits)
  with Async_uncertain show ?thesis by simp
next
  case (Async_resolve m' x dl av on)
  with un d show ?thesis
    by (auto simp: async_resolve_def and_then_def undelivered_def put_item_def dict_simps Let_def split: sum.splits option.splits if_splits)
qed


text \<open>A settlement is a call of the store.\<close>

definition settle_call :: "'p outbox_claim \<Rightarrow> datetime \<Rightarrow> settlement \<Rightarrow> 'p async_call" where
  "settle_call c now todo = (case todo of ToDelivered \<Rightarrow> Async_delivered c now | ToRetry t \<Rightarrow> Async_retry c t now
    | ToDefer t \<Rightarrow> Async_defer c t now | ToUncertain r \<Rightarrow> Async_uncertain c r now | ToFailed r \<Rightarrow> Async_failed c r now)"

lemma settle_store_is_call: "snd (settle_store c now todo st) = snd (async_step (\<lambda>_. Inr 0) (settle_call c now todo) st)"
  by (cases todo) (auto simp: settle_store_def sbind_def settle_call_def split: prod.splits sum.splits)

lemma settle_store_inv: "async_inv st \<Longrightarrow> async_inv (snd (settle_store c now todo st))"
  unfolding settle_store_is_call by (rule async_machine.inv_step) (cases todo; simp add: settle_call_def)+

lemma settle_store_undelivered:
  assumes "async_inv st" and "undelivered m st" and "todo = ToDelivered \<Longrightarrow> claim_msg c \<noteq> m"
  shows "undelivered m (snd (settle_store c now todo st))"
  unfolding settle_store_is_call
  by (rule async_step_undelivered [OF assms(1,2)]) (use assms(3) in \<open>cases todo; simp add: settle_call_def\<close>)

lemma step_store_inv: "relay_step size_of rl s e s' \<Longrightarrow> async_inv (rr_store s) \<Longrightarrow> async_inv (rr_store s')"
proof (erule relay_stepE, goal_cases)
  case (8 xs c now todo ys x st)
  with settle_store_inv [of "rr_store s" c now todo] show ?case by simp
next
  case (9 xs c now todo ys ex st)
  with settle_store_inv [of "rr_store s" c now todo] show ?case by simp
next
  case (10 call)
  with async_machine.inv_step [of "rr_store s" call size_of] show ?case by simp
qed simp_all

definition confirmed :: "opaque_id \<Rightarrow> 'p relay_event list \<Rightarrow> bool" where
  "confirmed m es \<longleftrightarrow> (\<exists>c i. Answer c (PublicationConfirmed i) \<in> set es \<and> claim_msg c = m)"

lemma step_delivery:
  assumes "relay_step size_of rl s e s'" and "async_inv (rr_store s)" and "justified rl es s" and "undelivered m (rr_store s)"
    and "\<And>call. e = Other call \<Longrightarrow> \<not> delivers m call"
  shows "undelivered m (rr_store s') \<or> confirmed m es"
  using assms(1)
proof (cases rule: relay_stepE)
  case (settle xs c now todo ys x st)
  have "todo = ToDelivered \<Longrightarrow> claim_msg c = m \<Longrightarrow> confirmed m es"
    using assms(3) settle(4) by (auto simp: justified_def reason_for_def confirmed_def)
  with settle_store_undelivered [OF assms(2,4), of todo c now] settle(2,5) show ?thesis by auto
next
  case (settle_error xs c now todo ys ex st)
  have "todo = ToDelivered \<Longrightarrow> claim_msg c = m \<Longrightarrow> confirmed m es"
    using assms(3) settle_error(4) by (auto simp: justified_def reason_for_def confirmed_def)
  with settle_store_undelivered [OF assms(2,4), of todo c now] settle_error(2,5) show ?thesis by auto
next
  case (other call)
  with async_step_undelivered [OF assms(2,4)] assms(5) show ?thesis by simp
qed (use assms(4) in simp_all)

lemma trace_delivery:
  assumes "relay_trace size_of rl s0 es s" and "rr_publishing s0 = []" and "rr_settling s0 = []"
    and "async_inv (rr_store s0)" and "undelivered m (rr_store s0)" and "\<forall>call. Other call \<in> set es \<longrightarrow> \<not> delivers m call"
  shows "async_inv (rr_store s) \<and> (undelivered m (rr_store s) \<or> confirmed m es)"
  using assms
proof (induction rule: relay_trace.induct)
  case (more es s1 e s2)
  then have ih: "async_inv (rr_store s1)" "undelivered m (rr_store s1) \<or> confirmed m es" by auto
  have mono: "confirmed m es \<Longrightarrow> confirmed m (es @ [e])" by (auto simp: confirmed_def)
  from step_delivery [OF more(2) ih(1) trace_justified [OF more(1,4,5)], of m] more.prems ih(2) mono
  have "undelivered m (rr_store s2) \<or> confirmed m (es @ [e])" by auto
  with step_store_inv [OF more(2) ih(1)] show ?case by blast
qed simp

section \<open>Properties\<close>

text \<open>The start of a round.\<close>

lemma start_roundE:
  assumes "start_round size_of rl running limit now uuid budget st = (Inr (Inr (claims, s0)), st')"
  obtains "rr_store s0 = st'" "rr_budget s0 = budget" "rr_counts s0 = (\<lambda>_. 0)" "rr_waiting s0 = claims" "rr_publishing s0 = []"
    "rr_settling s0 = []" "rr_error s0 = None" "\<not> running" "0 < limit"
    "async_claim size_of now (min limit (rl_max_admitted rl)) (rl_claim_ttl rl) (Some (rl_max_bytes rl)) uuid st = (Inr claims, st')"
  using assms by (auto simp: start_round_def split: if_splits prod.splits sum.splits)

text \<open>C3.  Only what the broker confirmed is recorded as delivered.  In every schedule of the workers, with any answers, timeouts and
  errors of the publisher and any calls of other users of the store in between (which do not deliver the message themselves), a
  message that is recorded as delivered was confirmed by the publisher in this round.\<close>

theorem delivered_messages_were_confirmed:
  assumes "async_inv st" and "undelivered m st"
    and start: "start_round size_of rl running limit now uuid budget st = (Inr (Inr (claims, s0)), st')"
    and trace: "relay_trace size_of rl s0 es s"
    and "\<forall>call. Other call \<in> set es \<longrightarrow> \<not> delivers m call"
    and "dict_get (obs_items (ao_store (rr_store s))) m = Some it" and "st_delivered_at it \<noteq> None"
  shows "\<exists>c i. Answer c (PublicationConfirmed i) \<in> set es \<and> claim_msg c = m"
proof (rule start_roundE [OF start])
  assume s0: "rr_store s0 = st'" "rr_publishing s0 = []" "rr_settling s0 = []"
    and claim: "async_claim size_of now (min limit (rl_max_admitted rl)) (rl_claim_ttl rl) (Some (rl_max_bytes rl)) uuid st = (Inr claims, st')"
  have "async_inv (rr_store s0)"
    using settlements_inv(5) [OF assms(1), of size_of now "min limit (rl_max_admitted rl)" "rl_claim_ttl rl" "Some (rl_max_bytes rl)" uuid]
      claim s0(1) by simp
  moreover have "undelivered m (rr_store s0)"
    using async_step_undelivered [OF assms(1,2), of "Async_claim now (min limit (rl_max_admitted rl)) (rl_claim_ttl rl) (Some (rl_max_bytes rl)) uuid" size_of]
      claim s0(1) by simp
  ultimately have "undelivered m (rr_store s) \<or> confirmed m es"
    using trace_delivery [OF trace s0(2,3) _ _ assms(5)] by blast
  with assms(6,7) show ?thesis by (auto simp: undelivered_def confirmed_def)
qed


text \<open>C30.  A round ends and its summary adds up: the relay itself makes at most three steps per claim, and when it can make no more without having
  failed, the six counters add up to the number of claims.\<close>

theorem relay_round_accounts_for_every_claim:
  assumes start: "start_round size_of rl running limit now uuid budget st = (Inr (Inr (claims, s0)), st')"
    and "0 < rl_concurrency rl" and trace: "relay_trace size_of rl s0 es s"
  shows "length (filter own_event es) \<le> 3 * length claims
    \<and> (rr_error s = None \<and> (\<forall>e s'. own_event e \<longrightarrow> \<not> relay_step size_of rl s e s') \<longrightarrow>
        (let r = summary_of (int (length claims)) s in
         rs_delivered r + rs_retried r + rs_failed r + rs_deferred r + rs_stale r + rs_uncertain r = rs_claimed r))"
proof (rule start_roundE [OF start])
  assume s0: "rr_waiting s0 = claims" "rr_publishing s0 = []" "rr_settling s0 = []" "rr_counts s0 = (\<lambda>_. 0)"
  have "settled_count s = int (length claims)"
    if "rr_error s = None" "\<forall>e s'. own_event e \<longrightarrow> \<not> relay_step size_of rl s e s'"
  proof -
    have "open_claims s = 0" using that(2) by (intro idle_when_stuck [OF that(1) assms(2), of size_of]) blast
    with trace_conserves [OF trace] that(1) s0 show ?thesis by (simp add: settled_count_def open_claims_def)
  qed
  then show ?thesis
    using trace_works [OF trace] s0 by (auto simp: work_left_def summary_of_def settled_count_def Let_def)
qed

text \<open>The retries of a round are paid from the budget: however the workers interleave, at most as many messages are
  rescheduled as the shared budget allowed at the start.\<close>

theorem retries_stay_within_budget:
  assumes start: "start_round size_of rl running limit now uuid budget st = (Inr (Inr (claims, s0)), st')"
    and "mk_retry_budget allowance = Inr budget" and trace: "relay_trace size_of rl s0 es s"
  shows "rs_retried (summary_of (int (length claims)) s) + rr_budget s \<le> budget \<and> 0 \<le> rr_budget s"
proof (rule start_roundE [OF start])
  assume s0: "rr_budget s0 = budget" "rr_settling s0 = []" "rr_counts s0 = (\<lambda>_. 0)"
  have "0 \<le> rr_budget s0" using assms(2) s0(1) by (auto simp: mk_retry_budget_def split: if_splits)
  from trace_spends [OF trace this] s0 show ?thesis
    by (simp add: spent_def retries_asked_def summary_of_def)
qed

text \<open>An uncertain result without a reason passes its constructor and is refused by the store: the round is aborted, and
  the message is not parked.\<close>

lemma empty_uncertainty_is_not_parked:
  "check_publication (PublicationUncertain []) = Inr (PublicationUncertain [])"
  "settle_store c now (ToUncertain []) st = (Inl ValueError, st)"
  by (simp_all add: settle_store_def async_uncertain_def sbind_def)


section \<open>A round on a sample outbox\<close>

definition sample_relay :: relay where
  "sample_relay = \<lparr>rl_policy = sample_policy, rl_claim_ttl = 10, rl_concurrency = 1, rl_max_admitted = 1, rl_max_bytes = 5\<rparr>"

definition sample_round :: "unit relay_round" where
  "sample_round = \<lparr>rr_store = sample_async_claimed, rr_budget = 3, rr_counts = (\<lambda>_. 0), rr_waiting = [sample_async_claim],
     rr_publishing = [], rr_settling = [], rr_error = None\<rparr>"

definition sample_delivered :: "unit async_outbox" where
  "sample_delivered = snd (async_delivered sample_async_claim (utc_datetime 6) sample_async_claimed)"

definition sample_end :: "unit relay_round" where
  "sample_end = sample_round\<lparr>rr_store := sample_delivered, rr_counts := (\<lambda>_. 0)(ODelivered := 1), rr_waiting := []\<rparr>"

definition sample_events :: "unit relay_event list" where
  "sample_events = [Take sample_async_claim, Answer sample_async_claim (PublicationConfirmed ''id''), Settle sample_async_claim ODelivered]"

lemma sample_round_start:
  "start_round (\<lambda>_. Inr 0) sample_relay False 7 (utc_datetime 4) (\<lambda>_. ''c'') 3 sample_async
     = (Inr (Inr ([sample_async_claim], sample_round)), sample_async_claimed)"
  by (simp add: start_round_def sample_relay_def sample_async_claimed_eq sample_round_def)

lemma sample_trace: "relay_trace (\<lambda>_. Inr 0) sample_relay sample_round sample_events sample_end"
proof -
  let ?c = sample_async_claim
  let ?s1 = "sample_round\<lparr>rr_waiting := [], rr_publishing := [?c]\<rparr>"
  let ?s2 = "sample_round\<lparr>rr_waiting := [], rr_settling := [(?c, utc_datetime 6, ToDelivered)]\<rparr>"
  have "relay_step (\<lambda>_. Inr 0) sample_relay sample_round (Take ?c) (sample_round\<lparr>rr_waiting := [], rr_publishing := rr_publishing sample_round @ [?c]\<rparr>)"
    by (rule take_publish [of _ _ _ _ 5]) (simp_all add: sample_round_def busy_workers_def sample_relay_def sample_async_claim_def)
  then have 1: "relay_step (\<lambda>_. Inr 0) sample_relay sample_round (Take ?c) ?s1" by (simp add: sample_round_def)
  have "relay_step (\<lambda>_. Inr 0) sample_relay ?s1 (Answer ?c (PublicationConfirmed ''id''))
      (?s1\<lparr>rr_publishing := [] @ [], rr_settling := rr_settling ?s1 @ [(?c, utc_datetime 6, ToDelivered)], rr_budget := rr_budget ?s1\<rparr>)"
    by (rule answer [where xs = "[]" and ys = "[]" and fraction = 1 and remaining = 1])
      (simp_all add: sample_round_def decide_def)
  then have 2: "relay_step (\<lambda>_. Inr 0) sample_relay ?s1 (Answer ?c (PublicationConfirmed ''id'')) ?s2" by (simp add: sample_round_def)
  have "settle_store ?c (utc_datetime 6) ToDelivered (rr_store ?s2) = (Inr ODelivered, sample_delivered)"
    by (simp add: settle_store_def sbind_def sample_round_def sample_delivered_def async_delivered_def outbox_delivered_def outcome_of_def
        sample_async_claimed_def sample_async_def sample_async_claim_def async_eval)
  then have "relay_step (\<lambda>_. Inr 0) sample_relay ?s2 (Settle ?c ODelivered)
      (tally ODelivered (?s2\<lparr>rr_settling := [] @ [], rr_store := sample_delivered\<rparr>))"
    by (intro settle [where now = "utc_datetime 6" and todo = ToDelivered]) (simp_all add: sample_round_def)
  then have 3: "relay_step (\<lambda>_. Inr 0) sample_relay ?s2 (Settle ?c ODelivered) sample_end"
    by (simp add: sample_round_def sample_end_def tally_def)
  from relay_trace.more [OF relay_trace.more [OF relay_trace.more [OF relay_trace.start 1] 2] 3]
  show ?thesis by (simp add: sample_events_def)
qed

theorem delivered_messages_were_confirmed_witness:
  "\<exists>c i. Answer c (PublicationConfirmed i) \<in> set sample_events \<and> claim_msg c = OpaqueId ''b''"
proof -
  have un: "undelivered (OpaqueId ''b'') sample_async"
    by (simp add: undelivered_def sample_async_def sample_outbox_defs)
  have "\<exists>it. dict_get (obs_items (ao_store (rr_store sample_end))) (OpaqueId ''b'') = Some it \<and> st_delivered_at it \<noteq> None"
    by (simp add: sample_end_def sample_delivered_def async_delivered_def outbox_delivered_def sbind_def
        sample_async_claimed_def sample_async_def sample_async_claim_def async_eval)
  then obtain it where it: "dict_get (obs_items (ao_store (rr_store sample_end))) (OpaqueId ''b'') = Some it" "st_delivered_at it \<noteq> None"
    by blast
  have others: "\<forall>call. Other call \<in> set sample_events \<longrightarrow> \<not> delivers (OpaqueId ''b'') call" by (simp add: sample_events_def)
  show ?thesis
    by (rule delivered_messages_were_confirmed [OF sample_async_inv un sample_round_start sample_trace others it])
qed


theorem relay_round_accounts_for_every_claim_witness:
  "length (filter own_event sample_events) \<le> 3 \<and> rs_delivered (summary_of 1 sample_end) = 1 \<and> rs_claimed (summary_of 1 sample_end) = 1"
  using relay_round_accounts_for_every_claim [OF sample_round_start _ sample_trace]
  by (simp add: sample_relay_def summary_of_def sample_end_def)

theorem retries_stay_within_budget_witness:
  "rs_retried (summary_of 1 sample_end) + rr_budget sample_end \<le> 3"
  using retries_stay_within_budget [OF sample_round_start _ sample_trace, of 3] by (simp add: mk_retry_budget_def)

end
