(* ===== verification/Timestamps.thy ===== *)
theory Timestamps
  imports PyText
begin

text \<open>
  The one timestamp representation of the wire formats, RFC 3339 in UTC with exactly three fractional digits:
  \<open>format_sync_timestamp\<close> and \<open>parse_sync_timestamp\<close> of \<open>src/src/pytitect/sync/contracts.py\<close>, and with the same text
  \<open>format_message_time\<close> and \<open>parse_message_time\<close> of \<open>messaging/model.py\<close>.  A \<open>datetime\<close> counts microseconds since year 1; its calendar fields are
  those of the proleptic Gregorian calendar of Python's \<open>datetime\<close>.
\<close>

section \<open>The calendar\<close>

definition leap :: "int \<Rightarrow> bool" where
  "leap y \<longleftrightarrow> y mod 4 = 0 \<and> (y mod 100 \<noteq> 0 \<or> y mod 400 = 0)"

definition days_in_year :: "int \<Rightarrow> int" where
  "days_in_year y = (if leap y then 366 else 365)"

definition days_before_year :: "int \<Rightarrow> int" where
  "days_before_year y = 365 * (y - 1) + (y - 1) div 4 - (y - 1) div 100 + (y - 1) div 400"

definition month_lengths :: "int \<Rightarrow> int list" where
  "month_lengths y = [31, if leap y then 29 else 28, 31, 30, 31, 30, 31, 31, 30, 31, 30, 31]"

text \<open>Year and day of the year, month and day of the month, both by counting.\<close>

function year_from :: "int \<Rightarrow> int \<Rightarrow> int \<times> int" where
  "year_from y n = (if n < days_in_year y then (y, n) else year_from (y + 1) (n - days_in_year y))"
  by pat_completeness auto
termination year_from
  by (relation "measure (\<lambda>(y, n). nat n)") (auto simp: days_in_year_def split: if_splits)

declare year_from.simps [simp del]

fun month_from :: "int list \<Rightarrow> int \<Rightarrow> int \<Rightarrow> int \<times> int" where
  "month_from [] m n = (m, n)"
| "month_from (l # ls) m n = (if n < l then (m, n) else month_from ls (m + 1) (n - l))"

text \<open>A date by its day number, 0 for 1 January of year 1; whole cycles of 400 years have 146097 days.\<close>

definition date_of :: "int \<Rightarrow> int \<times> int \<times> int" where
  "date_of n =
     (case year_from (400 * (n div 146097) + 1) (n mod 146097) of
        (y, d) \<Rightarrow> (case month_from (month_lengths y) 1 d of (m, k) \<Rightarrow> (y, m, k + 1)))"

definition ordinal :: "int \<Rightarrow> int \<Rightarrow> int \<Rightarrow> int" where
  "ordinal y m d = days_before_year y + sum_list (take (nat (m - 1)) (month_lengths y)) + (d - 1)"

definition valid_date :: "int \<Rightarrow> int \<Rightarrow> int \<Rightarrow> bool" where
  "valid_date y m d \<longleftrightarrow> 1 \<le> y \<and> y \<le> 9999 \<and> 1 \<le> m \<and> m \<le> 12 \<and> 1 \<le> d \<and> d \<le> month_lengths y ! nat (m - 1)"

lemma div_step: "0 < k \<Longrightarrow> y div k = (y - 1) div k + (if y mod k = 0 then 1 else 0)" for y k :: int
proof -
  assume k: "0 < k"
  define q r where "q = y div k" and "r = y mod k"
  have y: "y = k * q + r" and r: "0 \<le> r" "r < k" using k by (simp_all add: q_def r_def)
  show ?thesis
  proof (cases "r = 0")
    case True
    have "(y - 1) div k = (k * (q - 1) + (k - 1)) div k" using y True by (simp add: algebra_simps)
    also have "\<dots> = q - 1" using k by (subst div_mult_self4) simp_all
    finally show ?thesis using True by (simp add: q_def r_def)
  next
    case False
    then have "(y - 1) div k = q" using y r k by (intro int_div_pos_eq [where r = "r - 1"]) auto
    with False show ?thesis by (simp add: q_def r_def)
  qed
qed

lemma days_before_next: "days_before_year (y + 1) = days_before_year y + days_in_year y"
proof -
  define p4 p100 p400 where p: "p4 = (y - 1) div 4" "p100 = (y - 1) div 100" "p400 = (y - 1) div 400"
  define q4 q100 q400 where q: "q4 = y div 4" "q100 = y div 100" "q400 = y div 400"
  define m4 m100 m400 where m: "m4 = y mod 4" "m100 = y mod 100" "m400 = y mod 400"
  have "m100 mod 4 = m4" "m400 mod 100 = m100" unfolding m by (rule mod_mod_cancel; simp)+
  then have "m100 = 0 \<Longrightarrow> m4 = 0" "m400 = 0 \<Longrightarrow> m100 = 0" by auto
  moreover have "q4 = p4 + (if m4 = 0 then 1 else 0)" "q100 = p100 + (if m100 = 0 then 1 else 0)"
    "q400 = p400 + (if m400 = 0 then 1 else 0)"
    unfolding p q m by (rule div_step; simp)+
  ultimately have "365 * y + q4 - q100 + q400
      = 365 * (y - 1) + p4 - p100 + p400 + (if m4 = 0 \<and> (m100 \<noteq> 0 \<or> m400 = 0) then 366 else 365)"
    by (cases "m4 = 0"; cases "m100 = 0"; cases "m400 = 0"; simp)
  moreover have "y + 1 - 1 = y" by simp
  ultimately show ?thesis unfolding days_before_year_def days_in_year_def leap_def p q m by (simp only:)
qed

lemma year_from_spec:
  assumes "year_from y n = (y', d)" and "0 \<le> n"
  shows "days_before_year y' + d = days_before_year y + n \<and> 0 \<le> d \<and> d < days_in_year y' \<and> y \<le> y'"
  using assms
proof (induction y n rule: year_from.induct)
  case (1 y n)
  show ?case
  proof (cases "n < days_in_year y")
    case True
    with 1(2,3) show ?thesis by (simp add: year_from.simps [of y n])
  next
    case False
    with 1(2) have "year_from (y + 1) (n - days_in_year y) = (y', d)" by (simp add: year_from.simps [of y n])
    from 1(1) [OF False this] False show ?thesis by (simp add: days_before_next)
  qed
qed

lemma month_from_spec:
  assumes "month_from ls m n = (m', k)" and "0 \<le> n" and "n < sum_list ls"
  shows "m \<le> m' \<and> nat (m' - m) < length ls \<and> sum_list (take (nat (m' - m)) ls) + k = n \<and> 0 \<le> k \<and> k < ls ! nat (m' - m)"
  using assms
proof (induction ls arbitrary: m n)
  case (Cons l ls)
  show ?case
  proof (cases "n < l")
    case True
    with Cons.prems show ?thesis by simp
  next
    case False
    with Cons.prems have rest: "month_from ls (m + 1) (n - l) = (m', k)" "0 \<le> n - l" "n - l < sum_list ls" by simp_all
    note ih = Cons.IH [OF rest]
    then have "nat (m' - m) = Suc (nat (m' - (m + 1)))" by (simp add: Suc_nat_eq_nat_zadd1)
    with ih show ?thesis by simp
  qed
qed simp

lemma sum_month_lengths: "sum_list (month_lengths y) = days_in_year y"
  by (simp add: month_lengths_def days_in_year_def)

lemma days_before_cycle: "days_before_year (400 * q + 1) = 146097 * q"
proof -
  have "400 * q div 4 = 100 * q" "400 * q div 100 = 4 * q" "400 * q div 400 = q" by simp_all
  then show ?thesis by (simp add: days_before_year_def)
qed

lemma days_before_year_mono: "y \<le> y' \<Longrightarrow> days_before_year y \<le> days_before_year y'"
proof (induction "nat (y' - y)" arbitrary: y')
  case (Suc n)
  then have "days_before_year y \<le> days_before_year (y' - 1)" by simp
  also have "\<dots> \<le> days_before_year y'"
    using days_before_next [of "y' - 1"] by (simp add: days_in_year_def split: if_splits)
  finally show ?case .
qed simp

lemma date_of_day:
  assumes "0 \<le> n" and "n < 3652059" and "date_of n = (y, m, d)"
  shows "valid_date y m d \<and> ordinal y m d = n"
proof -
  obtain k where y: "year_from (400 * (n div 146097) + 1) (n mod 146097) = (y, k)"
    and m: "month_from (month_lengths y) 1 k = (m, d - 1)"
    using assms(3) by (auto simp: date_of_def split: prod.splits)
  have days: "days_before_year y + k = n" "0 \<le> k" "k < days_in_year y" and y0: "400 * (n div 146097) + 1 \<le> y"
    using year_from_spec [OF y] by (simp_all add: days_before_cycle)
  have "y < 10000"
  proof (rule ccontr)
    assume "\<not> y < 10000"
    then have "days_before_year 10000 \<le> days_before_year y" by (intro days_before_year_mono) simp
    with days assms(2) show False by (simp add: days_before_year_def)
  qed
  moreover have "1 \<le> y" using y0 assms(1) pos_imp_zdiv_nonneg_iff [of 146097 n] by simp
  moreover have "1 \<le> m \<and> nat (m - 1) < 12 \<and> sum_list (take (nat (m - 1)) (month_lengths y)) + (d - 1) = k \<and> 0 \<le> d - 1
      \<and> d - 1 < month_lengths y ! nat (m - 1)"
    using month_from_spec [OF m days(2)] days(3) by (simp add: sum_month_lengths) (simp add: month_lengths_def)
  ultimately show ?thesis using days(1) by (auto simp: valid_date_def ordinal_def)
qed

section \<open>Numbers of fixed width\<close>

definition py_digit :: "char \<Rightarrow> bool" where
  "py_digit c \<longleftrightarrow> 48 \<le> (of_char c :: nat) \<and> (of_char c :: nat) < 58"

definition digit2 :: "int \<Rightarrow> string" where
  "digit2 n = [digit_char (nat (n div 10 mod 10)), digit_char (nat (n mod 10))]"

definition digit3 :: "int \<Rightarrow> string" where
  "digit3 n = digit_char (nat (n div 100 mod 10)) # digit2 n"

definition digit4 :: "int \<Rightarrow> string" where
  "digit4 n = digit_char (nat (n div 1000 mod 10)) # digit3 n"

definition number :: "string \<Rightarrow> int" where
  "number s = int (nat_of_str 0 s)"

lemma py_digit_char: "d < 10 \<Longrightarrow> py_digit (digit_char d)"
  by (simp add: py_digit_def of_digit_char)

lemma digit_bound [simp]: "nat (n mod 10) < 10" for n :: int
  using pos_mod_bound [of 10 n] by linarith

lemma digits_split: "a * (n div a mod b) + n mod a = n mod (a * b)" if "0 \<le> b" for n a b :: int
  using zmod_zmult2_eq [OF that, of n a] by simp

lemma number_digit2: "number (digit2 n) = 10 * (n div 10 mod 10) + n mod 10"
  by (simp add: number_def digit2_def of_digit_char)

lemma number_digit3: "number (digit3 n) = 100 * (n div 100 mod 10) + number (digit2 n)"
  by (simp add: number_def digit2_def digit3_def of_digit_char)

lemma number_digit4: "number (digit4 n) = 1000 * (n div 1000 mod 10) + number (digit3 n)"
  by (simp add: number_def digit2_def digit3_def digit4_def of_digit_char)

lemma number_digits:
  "0 \<le> n \<Longrightarrow> n < 100 \<Longrightarrow> number (digit2 n) = n"
  "0 \<le> n \<Longrightarrow> n < 1000 \<Longrightarrow> number (digit3 n) = n"
  "0 \<le> n \<Longrightarrow> n < 10000 \<Longrightarrow> number (digit4 n) = n"
proof -
  define h2 h3 h4 where h: "h2 = n mod (10 * 10)" "h3 = n mod (100 * 10)" "h4 = n mod (1000 * 10)"
  have d2: "number (digit2 n) = h2" unfolding number_digit2 h by (rule digits_split) simp
  have "h2 = n mod 100" by (simp add: h)
  then have d3: "number (digit3 n) = h3" unfolding number_digit3 d2 h(2) by (simp only:) (rule digits_split, simp)
  have "h3 = n mod 1000" by (simp add: h)
  then have d4: "number (digit4 n) = h4" unfolding number_digit4 d3 h(3) by (simp only:) (rule digits_split, simp)
  show "0 \<le> n \<Longrightarrow> n < 100 \<Longrightarrow> number (digit2 n) = n" unfolding d2 h by simp
  show "0 \<le> n \<Longrightarrow> n < 1000 \<Longrightarrow> number (digit3 n) = n" unfolding d3 h by simp
  show "0 \<le> n \<Longrightarrow> n < 10000 \<Longrightarrow> number (digit4 n) = n" unfolding d4 h by simp
qed

section \<open>Timestamps\<close>

text \<open>The regular expression as a template, a \<open>d\<close> for each digit.\<close>

definition timestamp_template :: string where
  "timestamp_template = ''dddd-dd-ddTdd:dd:dd.dddZ''"

definition timestamp_pattern :: "string \<Rightarrow> bool" where
  "timestamp_pattern s \<longleftrightarrow> list_all2 (\<lambda>p c. if p = CHR ''d'' then py_digit c else c = p) timestamp_template s"

definition wire_time :: "datetime \<Rightarrow> unit res" where
  "wire_time v =
     (if dt_offset v \<noteq> Some 0 then Inl ValueError
      else if dt_micros v mod 1000 \<noteq> 0 then Inl ValueError
      else Inr ())"

definition timestamp_text :: "instant \<Rightarrow> string" where
  "timestamp_text t =
     (let seconds = t div 1000000; day = t div 86400000000 in
      case date_of day of
        (y, m, d) \<Rightarrow>
          digit4 y @ ''-'' @ digit2 m @ ''-'' @ digit2 d @ ''T'' @ digit2 (seconds div 3600 mod 24) @ '':''
            @ digit2 (seconds div 60 mod 60) @ '':'' @ digit2 (seconds mod 60) @ ''.'' @ digit3 (t div 1000 mod 1000) @ ''Z'')"

definition format_sync_timestamp :: "datetime \<Rightarrow> string res" where
  "format_sync_timestamp v = and_then (wire_time v) (\<lambda>_. Inr (timestamp_text (dt_micros v)))"

text \<open>\<open>datetime.fromisoformat\<close> on a text of that pattern: every field has to be in its range.\<close>

definition timestamp_instant :: "string \<Rightarrow> instant res" where
  "timestamp_instant s =
     (let y = number (take 4 s); m = number (take 2 (drop 5 s)); d = number (take 2 (drop 8 s));
          h = number (take 2 (drop 11 s)); mi = number (take 2 (drop 14 s)); sec = number (take 2 (drop 17 s));
          ms = number (take 3 (drop 20 s)) in
      if \<not> valid_date y m d \<or> 24 \<le> h \<or> 60 \<le> mi \<or> 60 \<le> sec then Inl ValueError
      else Inr ((((ordinal y m d * 24 + h) * 60 + mi) * 60 + sec) * 1000000 + ms * 1000))"

definition parse_sync_timestamp :: "string \<Rightarrow> datetime res" where
  "parse_sync_timestamp s =
     (if \<not> timestamp_pattern s then Inl ValueError
      else
        and_then (timestamp_instant s) (\<lambda>t.
        let parsed = utc_datetime t in
        and_then (wire_time parsed) (\<lambda>_.
        and_then (format_sync_timestamp parsed) (\<lambda>text.
        if text \<noteq> s then Inl ValueError else Inr parsed))))"

text \<open>A \<open>datetime\<close> lies in the years 1 to 9999.\<close>

definition in_calendar :: "datetime \<Rightarrow> bool" where
  "in_calendar v \<longleftrightarrow> 0 \<le> dt_micros v \<and> dt_micros v \<le> dt_max"

lemma timestamp_text_pattern: "timestamp_pattern (timestamp_text t)"
  by (simp add: timestamp_text_def timestamp_pattern_def timestamp_template_def digit2_def digit3_def digit4_def Let_def py_digit_char
      split: prod.splits)

lemma split_instant:
  fixes t :: int
  assumes "t mod 1000 = 0"
  shows "(((t div 86400000000 * 24 + t div 1000000 div 3600 mod 24) * 60 + t div 1000000 div 60 mod 60) * 60 + t div 1000000 mod 60)
      * 1000000 + t div 1000 mod 1000 * 1000 = t"
proof -
  define u where "u = t div 1000"
  define s where "s = t div 1000000"
  define m where "m = s div 60"
  define h where "h = s div 3600"
  define d where "d = t div 86400000000"
  have t: "t = 1000 * u" unfolding u_def using assms by (intro dvd_mult_div_cancel [symmetric]) (simp only: dvd_eq_mod_eq_0)
  have nested: "x div (a * b) = x div a div b" if "0 \<le> b" for x a b :: int using zdiv_zmult2_eq [OF that] .
  have "s = u div 1000" using nested [of 1000 t 1000] by (simp add: s_def u_def)
  moreover have "h = m div 60" using nested [of 60 s 60] by (simp add: h_def m_def)
  moreover have "d = h div 24"
    using nested [of 86400 t 1000000] nested [of 24 s 3600] by (simp add: d_def h_def s_def)
  moreover define us mm hm ss where r: "us = u mod 1000" "mm = m mod 60" "hm = h mod 24" "ss = s mod 60"
  ultimately have "u = 1000 * s + us" "s = 60 * m + ss" "m = 60 * h + mm" "h = 24 * d + hm"
    using mult_div_mod_eq [of 1000 u] mult_div_mod_eq [of 60 s] mult_div_mod_eq [of 60 m] mult_div_mod_eq [of 24 h] m_def
    by (simp_all only:)
  then have "(((d * 24 + hm) * 60 + mm) * 60 + ss) * 1000000 + us * 1000 = t" by (simp add: t)
  then show ?thesis unfolding r m_def h_def d_def s_def u_def .
qed

lemma timestamp_instant_text:
  assumes "0 \<le> t" and "t \<le> dt_max" and "t mod 1000 = 0"
  shows "timestamp_instant (timestamp_text t) = Inr t"
proof -
  obtain y m d where date: "date_of (t div 86400000000) = (y, m, d)" by (cases "date_of (t div 86400000000)") auto
  have "0 \<le> t div 86400000000" "t div 86400000000 < 3652059" using assms(1,2) by (auto simp: dt_max_def div_less_iff_less_mult)
  note day = date_of_day [OF this date]
  then have ymd: "0 \<le> y" "y < 10000" "0 \<le> m" "m < 100" "0 \<le> d" "valid_date y m d" "ordinal y m d = t div 86400000000"
    by (auto simp: valid_date_def)
  have "d < 100"
  proof -
    have "m \<in> {1, 2, 3, 4, 5, 6, 7, 8, 9, 10, 11, 12}" using ymd(6) by (simp add: valid_date_def) presburger
    then have "month_lengths y ! nat (m - 1) \<le> 31" by (auto simp: month_lengths_def nth_Cons')
    with ymd(6) show ?thesis by (simp add: valid_date_def)
  qed
  let ?s = "t div 1000000"
  have body: "timestamp_text t = digit4 y @ ''-'' @ digit2 m @ ''-'' @ digit2 d @ ''T'' @ digit2 (?s div 3600 mod 24) @ '':''
            @ digit2 (?s div 60 mod 60) @ '':'' @ digit2 (?s mod 60) @ ''.'' @ digit3 (t div 1000 mod 1000) @ ''Z''"
    by (simp add: timestamp_text_def date Let_def)
  have len: "length (digit2 n) = 2" "length (digit3 n) = 3" "length (digit4 n) = 4" for n
    by (simp_all add: digit2_def digit3_def digit4_def)
  have bounds: "0 \<le> n mod k \<and> n mod k < k" if "0 < k" for n k :: int using that by simp
  have numbers: "number (take 4 (timestamp_text t)) = y" "number (take 2 (drop 5 (timestamp_text t))) = m"
    "number (take 2 (drop 8 (timestamp_text t))) = d" "number (take 2 (drop 11 (timestamp_text t))) = ?s div 3600 mod 24"
    "number (take 2 (drop 14 (timestamp_text t))) = ?s div 60 mod 60" "number (take 2 (drop 17 (timestamp_text t))) = ?s mod 60"
    "number (take 3 (drop 20 (timestamp_text t))) = t div 1000 mod 1000"
    using ymd \<open>d < 100\<close> bounds [of 24 "?s div 3600"] bounds [of 60 "?s div 60"] bounds [of 60 ?s] bounds [of 1000 "t div 1000"]
    by (simp_all add: body len number_digits)
  have "\<not> 24 \<le> ?s div 3600 mod 24" "\<not> 60 \<le> ?s div 60 mod 60" "\<not> 60 \<le> ?s mod 60"
    using bounds [of 24 "?s div 3600"] bounds [of 60 "?s div 60"] bounds [of 60 ?s] by (simp_all only: not_le)
  with ymd(6,7) split_instant [OF assms(3)] show ?thesis
    unfolding timestamp_instant_def Let_def numbers by (simp only: not_True_eq_False if_False simp_thms)
qed

text \<open>The messages use the same text: \<open>isoformat(timespec="milliseconds")\<close> with the offset replaced by \<open>Z\<close>.\<close>

definition require_millisecond_utc :: "datetime \<Rightarrow> unit res" where
  "require_millisecond_utc v =
     (if dt_offset v \<noteq> Some 0 then Inl ValueError
      else if dt_micros v mod 1000 \<noteq> 0 then Inl ValueError
      else Inr ())"

definition format_message_time :: "datetime \<Rightarrow> string res" where
  "format_message_time v = and_then (require_millisecond_utc v) (\<lambda>_. Inr (timestamp_text (dt_micros v)))"

definition parse_message_time :: "string \<Rightarrow> datetime res" where
  "parse_message_time s =
     (if \<not> timestamp_pattern s then Inl ValueError
      else
        and_then (timestamp_instant s) (\<lambda>t.
        let parsed = utc_datetime t in
        and_then (require_millisecond_utc parsed) (\<lambda>_.
        and_then (format_message_time parsed) (\<lambda>text.
        if text \<noteq> s then Inl ValueError else Inr parsed))))"

lemma message_time_is_sync_time: "format_message_time = format_sync_timestamp" "parse_message_time = parse_sync_timestamp"
proof -
  have "require_millisecond_utc = wire_time" by (simp add: fun_eq_iff require_millisecond_utc_def wire_time_def)
  then show "format_message_time = format_sync_timestamp"
    by (simp add: fun_eq_iff format_message_time_def format_sync_timestamp_def)
  with \<open>require_millisecond_utc = wire_time\<close> show "parse_message_time = parse_sync_timestamp"
    by (simp add: fun_eq_iff parse_message_time_def parse_sync_timestamp_def)
qed

section \<open>Properties\<close>

lemma parse_formatted:
  assumes "in_calendar v" and "format_sync_timestamp v = Inr s"
  shows "parse_sync_timestamp s = Inr v"
proof -
  have v: "wire_time v = Inr ()" "s = timestamp_text (dt_micros v)" "dt_offset v = Some 0" "dt_micros v mod 1000 = 0"
    using assms(2) by (auto simp: format_sync_timestamp_def and_then_eq_Inr wire_time_def split: if_splits)
  then have "v = utc_datetime (dt_micros v)" by (simp add: utc_datetime_def)
  then show ?thesis
    using v assms by (simp add: parse_sync_timestamp_def timestamp_text_pattern timestamp_instant_text in_calendar_def Let_def)
qed

lemma parsed_format: "parse_sync_timestamp s = Inr v \<Longrightarrow> format_sync_timestamp v = Inr s"
  by (auto simp: parse_sync_timestamp_def and_then_eq_Inr Let_def split: if_splits)

lemma digits_below: "\<forall>c\<in>set w. py_digit c \<Longrightarrow> nat_of_str acc w < (acc + 1) * 10 ^ length w"
proof (induction w arbitrary: acc)
  case (Cons c w)
  then have "nat_of_str acc (c # w) < (10 * acc + (of_char c - 48) + 1) * 10 ^ length w"
    using Cons.IH [of "10 * acc + (of_char c - 48)"] by simp
  also have "\<dots> \<le> ((acc + 1) * 10) * 10 ^ length w" using Cons.prems by (intro mult_right_mono) (auto simp: py_digit_def)
  finally show ?case by (simp add: algebra_simps)
qed simp

lemma ordinal_range:
  assumes "valid_date y m d"
  shows "0 \<le> ordinal y m d \<and> ordinal y m d < 3652059"
proof -
  let ?ls = "month_lengths y" and ?k = "nat (m - 1)"
  have k: "?k < length ?ls" and y: "1 \<le> y" "y + 1 \<le> 10000" and d: "1 \<le> d" "d \<le> ?ls ! ?k"
    using assms by (auto simp: valid_date_def month_lengths_def)
  have nonneg: "0 \<le> sum_list (take n ?ls)" "0 \<le> sum_list (drop n ?ls)" for n
    by (auto intro!: sum_list_nonneg dest!: in_set_takeD in_set_dropD simp: month_lengths_def)
  have "sum_list ?ls = sum_list (take (Suc ?k) ?ls) + sum_list (drop (Suc ?k) ?ls)"
    by (metis append_take_drop_id sum_list_append)
  also have "sum_list (take (Suc ?k) ?ls) = sum_list (take ?k ?ls) + ?ls ! ?k" using k by (simp add: take_Suc_conv_app_nth)
  finally have "sum_list (take ?k ?ls) + ?ls ! ?k \<le> days_in_year y" using nonneg(2) [of "Suc ?k"] by (simp add: sum_month_lengths)
  then have "ordinal y m d < days_before_year (y + 1)" using d by (simp add: ordinal_def days_before_next)
  moreover have "days_before_year (y + 1) \<le> days_before_year 10000" "days_before_year 1 \<le> days_before_year y"
    using y by (auto intro: days_before_year_mono)
  ultimately show ?thesis using nonneg(1) [of ?k] d by (simp add: ordinal_def days_before_year_def [of 1] days_before_year_def [of 10000])
qed

lemma parsed_in_calendar:
  assumes "parse_sync_timestamp s = Inr v"
  shows "in_calendar v"
proof -
  obtain t where s: "timestamp_pattern s" and t: "timestamp_instant s = Inr t" and v: "v = utc_datetime t"
    using assms by (auto simp: parse_sync_timestamp_def and_then_eq_Inr Let_def split: if_splits)
  let ?ms = "take 3 (drop 20 s)"
  define y m d h mi sec where f: "y = number (take 4 s)" "m = number (take 2 (drop 5 s))" "d = number (take 2 (drop 8 s))"
    "h = number (take 2 (drop 11 s))" "mi = number (take 2 (drop 14 s))" "sec = number (take 2 (drop 17 s))"
  have "list_all2 (\<lambda>p c. if p = CHR ''d'' then py_digit c else c = p) (take 3 (drop 20 timestamp_template)) ?ms"
    using s unfolding timestamp_pattern_def by (intro list_all2_takeI list_all2_dropI)
  then obtain a b c where "?ms = [a, b, c]" "py_digit a" "py_digit b" "py_digit c"
    by (auto simp: timestamp_template_def list_all2_Cons1)
  then have "length ?ms = 3 \<and> (\<forall>c\<in>set ?ms. py_digit c)" by (simp del: length_take)
  then have "number ?ms < 1000" using digits_below [of ?ms 0] by (simp add: number_def)
  moreover have pos: "0 \<le> h" "0 \<le> mi" "0 \<le> sec" "0 \<le> number ?ms" by (simp_all add: number_def f)
  moreover have "valid_date y m d" "h < 24" "mi < 60" "sec < 60"
    and "t = (((ordinal y m d * 24 + h) * 60 + mi) * 60 + sec) * 1000000 + number ?ms * 1000"
    using t by (auto simp: timestamp_instant_def Let_def f split: if_splits)
  moreover note ordinal_range [OF \<open>valid_date y m d\<close>]
  ultimately have "0 \<le> t \<and> t \<le> dt_max" by (simp add: dt_max_def)
  then show ?thesis by (simp add: in_calendar_def v utc_datetime_def)
qed

text \<open>C40.  Timestamps survive the wire, and each instant has exactly one text: what is formatted parses to the same \<open>datetime\<close>, and what
  parses is the format of its result.\<close>

theorem timestamp_round_trip:
  assumes "in_calendar v" and "format_sync_timestamp v = Inr s"
  shows "parse_sync_timestamp s = Inr v \<and> (\<forall>s' v'. parse_sync_timestamp s' = Inr v' \<longrightarrow> format_sync_timestamp v' = Inr s')"
  using parse_formatted [OF assms] parsed_format by blast

definition sample_time :: datetime where
  "sample_time = utc_datetime 63116769906789000"

lemma sample_time_text: "format_sync_timestamp sample_time = Inr ''2001-02-03T04:05:06.789Z''"
  by (simp add: format_sync_timestamp_def wire_time_def sample_time_def utc_datetime_def timestamp_text_def date_of_def
      year_from.simps [of _ "33"] days_in_year_def leap_def month_lengths_def digit2_def digit3_def digit4_def digit_char_def Let_def
      char_of_eq_iff)

theorem timestamp_round_trip_witness:
  "parse_sync_timestamp ''2001-02-03T04:05:06.789Z'' = Inr sample_time"
  using timestamp_round_trip [OF _ sample_time_text] by (simp add: in_calendar_def sample_time_def utc_datetime_def dt_max_def)

end
