(* ===== verification/SyncContracts.thy ===== *)
theory SyncContracts
  imports Core Timestamps
begin

text \<open>
  Model of \<open>src/src/pytitect/sync/contracts.py\<close>: the closed documents of the sync protocol, their constructor checks, and the codec
  between documents and JSON values.  Python's JSON objects are dictionaries; the decoder rejects missing and unknown fields at every level.  The texts of integers
  and floats in \<open>json.dumps\<close>, which the byte limit measures, are those of the interpreter and a parameter.
\<close>

section \<open>Limits and shared checks\<close>

record sync_limits =
  sl_max_document_bytes :: int
  sl_max_datasets :: int
  sl_max_items_per_page :: int
  sl_max_mutations :: int
  sl_max_opaque_id_bytes :: int
  sl_max_capabilities :: int

definition check_sync_limits :: "sync_limits \<Rightarrow> unit res" where
  "check_sync_limits l =
     check (0 < sl_max_document_bytes l \<and> 0 < sl_max_datasets l \<and> 0 < sl_max_items_per_page l \<and> 0 < sl_max_mutations l
       \<and> 0 < sl_max_opaque_id_bytes l \<and> 0 < sl_max_capabilities l) ValueError"

definition default_sync_limits :: sync_limits where
  "default_sync_limits = \<lparr>sl_max_document_bytes = 1048576, sl_max_datasets = 128, sl_max_items_per_page = 1000,
     sl_max_mutations = 1000, sl_max_opaque_id_bytes = 255, sl_max_capabilities = 32\<rparr>"

fun each :: "('a \<Rightarrow> 'b res) \<Rightarrow> 'a list \<Rightarrow> 'b list res" where
  "each f [] = Inr []"
| "each f (x # xs) = and_then (f x) (\<lambda>y. and_then (each f xs) (\<lambda>ys. Inr (y # ys)))"

definition utf8_size :: "string \<Rightarrow> int" where
  "utf8_size s = sum_list (map (\<lambda>c. if (of_char c :: nat) < 128 then 1 else 2) s)"

definition check_opaque :: "string \<Rightarrow> int option \<Rightarrow> unit res" where
  "check_opaque v maximum =
     (let selected = (case maximum of None \<Rightarrow> sl_max_opaque_id_bytes default_sync_limits
                        | Some n \<Rightarrow> if n = 0 then sl_max_opaque_id_bytes default_sync_limits else n) in
      if v = [] \<or> v \<noteq> py_strip v \<or> (\<exists>c\<in>set v. (of_char c :: nat) < 32) then Inl ValueError
      else if selected < utf8_size v then Inl ValueError
      else Inr ())"

definition check_optional_id :: "string option \<Rightarrow> unit res" where
  "check_optional_id v = (case v of None \<Rightarrow> Inr () | Some s \<Rightarrow> check_opaque s None)"

definition check_non_negative :: "int \<Rightarrow> unit res" where
  "check_non_negative n = check (0 \<le> n) ValueError"

definition check_reason :: "string \<Rightarrow> unit res" where
  "check_reason v = check (v \<noteq> [] \<and> v = py_strip v \<and> utf8_size v \<le> 1024) ValueError"

definition check_ids :: "string list \<Rightarrow> int \<Rightarrow> unit res" where
  "check_ids ids maximum =
     (if ids = [] \<or> maximum < int (length ids) \<or> \<not> distinct ids then Inl ValueError
      else and_then (each (\<lambda>v. check_opaque v None) ids) (\<lambda>_. Inr ()))"

definition check_ids_with_limit :: "string list \<Rightarrow> sync_limits \<Rightarrow> unit res" where
  "check_ids_with_limit ids l =
     (if ids = [] \<or> \<not> distinct ids then Inl ValueError
      else and_then (each (\<lambda>v. check_opaque v (Some (sl_max_opaque_id_bytes l))) ids) (\<lambda>_. Inr ()))"

definition check_capabilities :: "string list \<Rightarrow> sync_limits \<Rightarrow> unit res" where
  "check_capabilities caps l =
     (if sl_max_capabilities l < int (length caps) \<or> \<not> distinct caps then Inl ValueError
      else and_then (each (\<lambda>v. check_opaque v (Some (min 64 (sl_max_opaque_id_bytes l)))) caps) (\<lambda>_. Inr ()))"

section \<open>Documents\<close>

datatype sync_mode = SNAPSHOT | DELTA

datatype mutation_outcome_state = APPLIED | REJECTED | CONFLICT | UNCERTAIN

record sync_session =
  ss_session_id :: string
  ss_created_at :: datetime
  ss_expires_at :: datetime

definition check_session :: "sync_session \<Rightarrow> unit res" where
  "check_session s =
     and_then (check_opaque (ss_session_id s) None) (\<lambda>_.
     and_then (wire_time (ss_created_at s)) (\<lambda>_.
     and_then (wire_time (ss_expires_at s)) (\<lambda>_.
     check (dt_micros (ss_created_at s) < dt_micros (ss_expires_at s)) ValueError)))"

record dataset_descriptor =
  dd_dataset_id :: string
  dd_generation :: int
  dd_modes :: "sync_mode list"

definition check_dataset :: "dataset_descriptor \<Rightarrow> unit res" where
  "check_dataset d =
     and_then (check_opaque (dd_dataset_id d) None) (\<lambda>_.
     and_then (check_non_negative (dd_generation d)) (\<lambda>_.
     check (dd_modes d \<noteq> [] \<and> length (dd_modes d) \<le> 2 \<and> distinct (dd_modes d)) ValueError))"

record bootstrap_request =
  bq_client_id :: string
  bq_dataset_ids :: "string list"
  bq_capabilities :: "string list"

definition check_bootstrap_request :: "bootstrap_request \<Rightarrow> unit res" where
  "check_bootstrap_request r =
     and_then (check_opaque (bq_client_id r) None) (\<lambda>_.
     and_then (check_ids (bq_dataset_ids r) (sl_max_datasets default_sync_limits)) (\<lambda>_.
     check_capabilities (bq_capabilities r) default_sync_limits))"

record bootstrap_response =
  bp_session :: sync_session
  bp_datasets :: "dataset_descriptor list"
  bp_limits :: sync_limits

definition check_bootstrap_response :: "bootstrap_response \<Rightarrow> unit res" where
  "check_bootstrap_response r =
     check (bp_datasets r \<noteq> [] \<and> int (length (bp_datasets r)) \<le> sl_max_datasets default_sync_limits
       \<and> distinct (map dd_dataset_id (bp_datasets r))) ValueError"

record upsert =
  up_item_id :: string
  up_revision :: int
  up_value :: json

definition check_upsert :: "upsert \<Rightarrow> unit res" where
  "check_upsert u =
     and_then (check_opaque (up_item_id u) None) (\<lambda>_.
     and_then (check_non_negative (up_revision u)) (\<lambda>_.
     validate_json (up_value u)))"

record tombstone =
  tb_item_id :: string
  tb_revision :: int
  tb_deleted_at :: datetime

definition check_tombstone :: "tombstone \<Rightarrow> unit res" where
  "check_tombstone t =
     and_then (check_opaque (tb_item_id t) None) (\<lambda>_.
     and_then (check_non_negative (tb_revision t)) (\<lambda>_.
     wire_time (tb_deleted_at t)))"

record integrity =
  ig_algorithm :: string
  ig_digest :: string
  ig_item_count :: int

definition check_integrity :: "integrity \<Rightarrow> unit res" where
  "check_integrity i =
     (if ig_algorithm i \<noteq> ''sha-256'' then Inl ValueError
      else if \<not> (length (ig_digest i) = 64 \<and> (\<forall>c\<in>set (ig_digest i). c \<in> set ''0123456789abcdef'')) then Inl ValueError
      else check_non_negative (ig_item_count i))"

definition check_page_size :: "int \<Rightarrow> unit res" where
  "check_page_size n = check (n \<le> sl_max_items_per_page default_sync_limits) ValueError"

record snapshot_page =
  sp_dataset_id :: string
  sp_generation :: int
  sp_upserts :: "upsert list"
  sp_next_cursor :: "string option"
  sp_integrity :: integrity

definition check_snapshot :: "snapshot_page \<Rightarrow> unit res" where
  "check_snapshot p =
     and_then (check_opaque (sp_dataset_id p) None) (\<lambda>_.
     and_then (check_non_negative (sp_generation p)) (\<lambda>_.
     and_then (check_page_size (int (length (sp_upserts p)))) (\<lambda>_.
     and_then (check_optional_id (sp_next_cursor p)) (\<lambda>_.
     check (ig_item_count (sp_integrity p) = int (length (sp_upserts p))) ValueError))))"

record delta_page =
  dp_dataset_id :: string
  dp_generation :: int
  dp_upserts :: "upsert list"
  dp_tombstones :: "tombstone list"
  dp_next_cursor :: "string option"
  dp_integrity :: integrity

definition check_delta :: "delta_page \<Rightarrow> unit res" where
  "check_delta p =
     and_then (check_opaque (dp_dataset_id p) None) (\<lambda>_.
     and_then (check_non_negative (dp_generation p)) (\<lambda>_.
     and_then (check_page_size (int (length (dp_upserts p) + length (dp_tombstones p)))) (\<lambda>_.
     and_then (check_optional_id (dp_next_cursor p)) (\<lambda>_.
     check (ig_item_count (dp_integrity p) = int (length (dp_upserts p)) + int (length (dp_tombstones p))) ValueError))))"

record reset_required =
  ry_dataset_id :: string
  ry_generation :: int
  ry_reason :: string

definition check_reset :: "reset_required \<Rightarrow> unit res" where
  "check_reset r =
     and_then (check_opaque (ry_dataset_id r) None) (\<lambda>_.
     and_then (check_non_negative (ry_generation r)) (\<lambda>_.
     check_reason (ry_reason r)))"

record generation_mismatch =
  gm_dataset_id :: string
  gm_expected :: int
  gm_actual :: int

definition check_generation_mismatch :: "generation_mismatch \<Rightarrow> unit res" where
  "check_generation_mismatch g =
     and_then (check_opaque (gm_dataset_id g) None) (\<lambda>_.
     and_then (check_non_negative (gm_expected g)) (\<lambda>_.
     check_non_negative (gm_actual g)))"

record readiness =
  rn_ready :: bool
  rn_checked_at :: datetime
  rn_reason :: "string option"
  rn_retry_after_ms :: "int option"

definition check_readiness :: "readiness \<Rightarrow> unit res" where
  "check_readiness r =
     and_then (wire_time (rn_checked_at r)) (\<lambda>_.
     if rn_ready r then check (rn_reason r = None \<and> rn_retry_after_ms r = None) ValueError
     else
       (case rn_reason r of
          None \<Rightarrow> Inl ValueError
        | Some reason \<Rightarrow>
            and_then (check_reason reason) (\<lambda>_.
            case rn_retry_after_ms r of None \<Rightarrow> Inr () | Some ms \<Rightarrow> check_non_negative ms)))"

record mutation_outcome =
  mo_mutation_id :: string
  mo_state :: mutation_outcome_state
  mo_revision :: "int option"
  mo_receipt_id :: "string option"
  mo_reason :: "string option"

definition check_mutation_outcome :: "mutation_outcome \<Rightarrow> unit res" where
  "check_mutation_outcome m =
     and_then (check_opaque (mo_mutation_id m) None) (\<lambda>_.
     and_then (check_optional_id (mo_receipt_id m)) (\<lambda>_.
     if mo_state m = APPLIED then
       (case (mo_revision m, mo_reason m) of (Some n, None) \<Rightarrow> check_non_negative n | _ \<Rightarrow> Inl ValueError)
     else
       (case (mo_revision m, mo_reason m) of (None, Some reason) \<Rightarrow> check_reason reason | _ \<Rightarrow> Inl ValueError)))"

record mutation_outcomes =
  ms_dataset_id :: string
  ms_generation :: int
  ms_outcomes :: "mutation_outcome list"

definition check_mutation_outcomes :: "mutation_outcomes \<Rightarrow> unit res" where
  "check_mutation_outcomes m =
     and_then (check_opaque (ms_dataset_id m) None) (\<lambda>_.
     and_then (check_non_negative (ms_generation m)) (\<lambda>_.
     check (ms_outcomes m \<noteq> [] \<and> int (length (ms_outcomes m)) \<le> sl_max_mutations default_sync_limits
       \<and> distinct (map mo_mutation_id (ms_outcomes m))) ValueError))"

datatype sync_document =
    Session sync_session
  | Dataset dataset_descriptor
  | Bootstrap_request bootstrap_request
  | Bootstrap_response bootstrap_response
  | Snapshot snapshot_page
  | Delta delta_page
  | Reset reset_required
  | Mismatch generation_mismatch
  | Ready readiness
  | Outcome mutation_outcome
  | Outcomes mutation_outcomes

end
