(* ===== verification/SyncCodec.thy ===== *)
theory SyncCodec
  imports SyncContracts
begin

text \<open>
  The codec of \<open>src/src/pytitect/sync/contracts.py\<close>: \<open>encode_sync_document\<close> and \<open>decode_sync_document\<close> with the bounds of a document, the
  closed-field discipline and one encoder and decoder per contract.  \<open>json.dumps\<close> is written out, but for the texts of integers
  and floats, which are the interpreter's (\<open>number_text\<close>; \<open>int.__repr__\<close> raises \<open>ValueError\<close> above its digit limit).
\<close>

section \<open>Bounds of a document\<close>

record number_text =
  nt_int :: "int \<Rightarrow> string res"
  nt_float :: "pyfloat \<Rightarrow> string"

definition lower_hex_digit :: "nat \<Rightarrow> char" where
  "lower_hex_digit n = ''0123456789abcdef'' ! n"

definition json_escape :: "char \<Rightarrow> string" where
  "json_escape c =
     (let n = of_char c in
      if n = 0x22 \<or> n = 0x5C then [CHR 0x5C, c]
      else if n = 8 then [CHR 0x5C, CHR ''b'']
      else if n = 12 then [CHR 0x5C, CHR ''f'']
      else if n = 10 then [CHR 0x5C, CHR ''n'']
      else if n = 13 then [CHR 0x5C, CHR ''r'']
      else if n = 9 then [CHR 0x5C, CHR ''t'']
      else if n < 32 then [CHR 0x5C, CHR ''u'', CHR ''0'', CHR ''0'', lower_hex_digit (n div 16), lower_hex_digit (n mod 16)]
      else [c])"

definition json_quote :: "string \<Rightarrow> string" where
  "json_quote s = [CHR 0x22] @ concat (map json_escape s) @ [CHR 0x22]"

fun json_text :: "number_text \<Rightarrow> json \<Rightarrow> string res"
  and json_texts :: "number_text \<Rightarrow> json list \<Rightarrow> string list res"
  and member_texts :: "number_text \<Rightarrow> (json_key \<times> json) list \<Rightarrow> string list res" where
  "json_text nt JNull = Inr ''null''"
| "json_text nt (JBool b) = Inr (if b then ''true'' else ''false'')"
| "json_text nt (JInt n) = nt_int nt n"
| "json_text nt (JFloat f) = Inr (nt_float nt f)"
| "json_text nt (JStr s) = Inr (json_quote s)"
| "json_text nt (JList xs) = and_then (json_texts nt xs) (\<lambda>ts. Inr (''['' @ py_join '','' ts @ '']''))"
| "json_text nt (JDict kvs) = and_then (member_texts nt kvs) (\<lambda>ts. Inr (''{'' @ py_join '','' ts @ ''}''))"
| "json_text nt (JOther ty) = Inl TypeError"
| "json_texts nt [] = Inr []"
| "json_texts nt (x # xs) = and_then (json_text nt x) (\<lambda>t. and_then (json_texts nt xs) (\<lambda>ts. Inr (t # ts)))"
| "member_texts nt [] = Inr []"
| "member_texts nt ((k, v) # kvs) =
     (case k of
        KOther ty \<Rightarrow> Inl TypeError
      | KStr s \<Rightarrow> and_then (json_text nt v) (\<lambda>t. and_then (member_texts nt kvs) (\<lambda>ts.
                    Inr ((json_quote s @ '':'' @ t) # ts))))"

definition document_bounds :: "number_text \<Rightarrow> json \<Rightarrow> sync_limits \<Rightarrow> unit res" where
  "document_bounds nt v l =
     and_then (mk_limits (sl_max_document_bytes l) 32 (max 10000 (sl_max_items_per_page l * 8)) 64 (sl_max_document_bytes l)) (\<lambda>lim.
     and_then (validate_json_with lim v) (\<lambda>_.
     and_then (json_text nt v) (\<lambda>t.
     if sl_max_document_bytes l < utf8_size t then Inl ValueError else Inr ())))"

section \<open>Shapes\<close>

type_synonym fields = "(string \<times> json) list"

definition object_json :: "fields \<Rightarrow> json" where
  "object_json kvs = JDict (map (\<lambda>(k, v). (KStr k, v)) kvs)"

fun key_text :: "json_key \<Rightarrow> string res" where
  "key_text (KStr s) = Inr s"
| "key_text (KOther ty) = Inl ValueError"

definition as_object :: "json \<Rightarrow> fields res" where
  "as_object v = (case v of JDict kvs \<Rightarrow> each (\<lambda>(k, x). and_then (key_text k) (\<lambda>s. Inr (s, x))) kvs | _ \<Rightarrow> Inl ValueError)"

definition as_array :: "json \<Rightarrow> json list res" where
  "as_array v = (case v of JList xs \<Rightarrow> Inr xs | _ \<Rightarrow> Inl ValueError)"

definition as_string :: "json \<Rightarrow> string res" where
  "as_string v = (case v of JStr s \<Rightarrow> Inr s | _ \<Rightarrow> Inl ValueError)"

definition as_nullable_string :: "json \<Rightarrow> string option res" where
  "as_nullable_string v = (case v of JNull \<Rightarrow> Inr None | _ \<Rightarrow> and_then (as_string v) (\<lambda>s. Inr (Some s)))"

definition as_integer :: "json \<Rightarrow> int res" where
  "as_integer v = (case v of JInt n \<Rightarrow> Inr n | _ \<Rightarrow> Inl ValueError)"

definition as_nullable_integer :: "json \<Rightarrow> int option res" where
  "as_nullable_integer v = (case v of JNull \<Rightarrow> Inr None | _ \<Rightarrow> and_then (as_integer v) (\<lambda>n. Inr (Some n)))"

definition as_boolean :: "json \<Rightarrow> bool res" where
  "as_boolean v = (case v of JBool b \<Rightarrow> Inr b | _ \<Rightarrow> Inl ValueError)"

definition as_time :: "json \<Rightarrow> datetime res" where
  "as_time v = and_then (as_string v) parse_sync_timestamp"

definition as_strings :: "int \<Rightarrow> json \<Rightarrow> string list res" where
  "as_strings maximum v =
     and_then (as_array v) (\<lambda>xs. if maximum < int (length xs) then Inl ValueError else each as_string xs)"

definition closed_fields :: "string list \<Rightarrow> fields \<Rightarrow> unit res" where
  "closed_fields expected obj = check (set (map fst obj) = set expected) ValueError"

definition field :: "fields \<Rightarrow> string \<Rightarrow> (json \<Rightarrow> 'a res) \<Rightarrow> 'a res" where
  "field obj name f = (case map_of obj name of None \<Rightarrow> Inl KeyError | Some v \<Rightarrow> f v)"

text \<open>A constructor call: the value when its \<open>__post_init__\<close> accepts it.\<close>

definition checked :: "('a \<Rightarrow> unit res) \<Rightarrow> 'a \<Rightarrow> 'a res" where
  "checked chk x = and_then (chk x) (\<lambda>_. Inr x)"

definition opaque_within :: "sync_limits \<Rightarrow> string \<Rightarrow> unit res" where
  "opaque_within l s = check_opaque s (Some (sl_max_opaque_id_bytes l))"

definition nullable_string_json :: "string option \<Rightarrow> json" where
  "nullable_string_json v = (case v of None \<Rightarrow> JNull | Some s \<Rightarrow> JStr s)"

definition nullable_integer_json :: "int option \<Rightarrow> json" where
  "nullable_integer_json v = (case v of None \<Rightarrow> JNull | Some n \<Rightarrow> JInt n)"

definition mode_value :: "sync_mode \<Rightarrow> string" where
  "mode_value m = (case m of SNAPSHOT \<Rightarrow> ''snapshot'' | DELTA \<Rightarrow> ''delta'')"

definition mode_of :: "string \<Rightarrow> sync_mode res" where
  "mode_of s = (if s = ''snapshot'' then Inr SNAPSHOT else if s = ''delta'' then Inr DELTA else Inl ValueError)"

definition state_value :: "mutation_outcome_state \<Rightarrow> string" where
  "state_value s = (case s of APPLIED \<Rightarrow> ''applied'' | REJECTED \<Rightarrow> ''rejected'' | CONFLICT \<Rightarrow> ''conflict'' | UNCERTAIN \<Rightarrow> ''uncertain'')"

definition state_of :: "string \<Rightarrow> mutation_outcome_state res" where
  "state_of s = (if s = ''applied'' then Inr APPLIED else if s = ''rejected'' then Inr REJECTED
     else if s = ''conflict'' then Inr CONFLICT else if s = ''uncertain'' then Inr UNCERTAIN else Inl ValueError)"

section \<open>Encoders\<close>

definition session_json :: "sync_session \<Rightarrow> json res" where
  "session_json s =
     and_then (format_sync_timestamp (ss_created_at s)) (\<lambda>c.
     and_then (format_sync_timestamp (ss_expires_at s)) (\<lambda>e.
     Inr (object_json [(''session_id'', JStr (ss_session_id s)), (''created_at'', JStr c), (''expires_at'', JStr e)])))"

definition dataset_json :: "dataset_descriptor \<Rightarrow> json" where
  "dataset_json d = object_json [(''dataset_id'', JStr (dd_dataset_id d)), (''generation'', JInt (dd_generation d)),
     (''modes'', JList (map (\<lambda>m. JStr (mode_value m)) (dd_modes d)))]"

definition limits_json :: "sync_limits \<Rightarrow> json" where
  "limits_json l = object_json [(''max_document_bytes'', JInt (sl_max_document_bytes l)), (''max_datasets'', JInt (sl_max_datasets l)),
     (''max_items_per_page'', JInt (sl_max_items_per_page l)), (''max_mutations'', JInt (sl_max_mutations l)),
     (''max_opaque_id_bytes'', JInt (sl_max_opaque_id_bytes l)), (''max_capabilities'', JInt (sl_max_capabilities l))]"

definition upsert_json :: "upsert \<Rightarrow> json" where
  "upsert_json u = object_json [(''item_id'', JStr (up_item_id u)), (''revision'', JInt (up_revision u)), (''value'', up_value u)]"

definition tombstone_json :: "tombstone \<Rightarrow> json res" where
  "tombstone_json t =
     and_then (format_sync_timestamp (tb_deleted_at t)) (\<lambda>d.
     Inr (object_json [(''item_id'', JStr (tb_item_id t)), (''revision'', JInt (tb_revision t)), (''deleted_at'', JStr d)]))"

definition integrity_json :: "integrity \<Rightarrow> json" where
  "integrity_json i = object_json [(''algorithm'', JStr (ig_algorithm i)), (''digest'', JStr (ig_digest i)),
     (''item_count'', JInt (ig_item_count i))]"

definition mutation_outcome_json :: "mutation_outcome \<Rightarrow> json" where
  "mutation_outcome_json m = object_json [(''mutation_id'', JStr (mo_mutation_id m)), (''state'', JStr (state_value (mo_state m))),
     (''revision'', nullable_integer_json (mo_revision m)), (''receipt_id'', nullable_string_json (mo_receipt_id m)),
     (''reason'', nullable_string_json (mo_reason m))]"

fun encode_payload :: "sync_document \<Rightarrow> (string \<times> json) res" where
  "encode_payload (Session s) = and_then (session_json s) (\<lambda>j. Inr (''session'', j))"
| "encode_payload (Dataset d) = Inr (''dataset'', dataset_json d)"
| "encode_payload (Bootstrap_request r) = Inr (''bootstrap_request'', object_json [(''client_id'', JStr (bq_client_id r)),
     (''dataset_ids'', JList (map JStr (bq_dataset_ids r))), (''capabilities'', JList (map JStr (bq_capabilities r)))])"
| "encode_payload (Bootstrap_response r) =
     and_then (session_json (bp_session r)) (\<lambda>s.
     Inr (''bootstrap_response'', object_json [(''session'', s), (''datasets'', JList (map dataset_json (bp_datasets r))),
       (''limits'', limits_json (bp_limits r))]))"
| "encode_payload (Snapshot p) = Inr (''snapshot'', object_json [(''dataset_id'', JStr (sp_dataset_id p)),
     (''generation'', JInt (sp_generation p)), (''upserts'', JList (map upsert_json (sp_upserts p))),
     (''next_cursor'', nullable_string_json (sp_next_cursor p)), (''integrity'', integrity_json (sp_integrity p))])"
| "encode_payload (Delta p) =
     and_then (each tombstone_json (dp_tombstones p)) (\<lambda>ts.
     Inr (''delta'', object_json [(''dataset_id'', JStr (dp_dataset_id p)), (''generation'', JInt (dp_generation p)),
       (''upserts'', JList (map upsert_json (dp_upserts p))), (''tombstones'', JList ts),
       (''next_cursor'', nullable_string_json (dp_next_cursor p)), (''integrity'', integrity_json (dp_integrity p))]))"
| "encode_payload (Reset r) = Inr (''reset_required'', object_json [(''dataset_id'', JStr (ry_dataset_id r)),
     (''generation'', JInt (ry_generation r)), (''reason'', JStr (ry_reason r))])"
| "encode_payload (Mismatch g) = Inr (''generation_mismatch'', object_json [(''dataset_id'', JStr (gm_dataset_id g)),
     (''expected'', JInt (gm_expected g)), (''actual'', JInt (gm_actual g))])"
| "encode_payload (Ready r) =
     and_then (format_sync_timestamp (rn_checked_at r)) (\<lambda>c.
     Inr (''readiness'', object_json [(''ready'', JBool (rn_ready r)), (''checked_at'', JStr c),
       (''reason'', nullable_string_json (rn_reason r)), (''retry_after_ms'', nullable_integer_json (rn_retry_after_ms r))]))"
| "encode_payload (Outcome m) = Inr (''mutation_outcome'', mutation_outcome_json m)"
| "encode_payload (Outcomes m) = Inr (''mutation_outcomes'', object_json [(''dataset_id'', JStr (ms_dataset_id m)),
     (''generation'', JInt (ms_generation m)), (''outcomes'', JList (map mutation_outcome_json (ms_outcomes m)))])"

definition sync_protocol :: string where
  "sync_protocol = ''titect-sync/1''"

definition encode_sync_document :: "number_text \<Rightarrow> sync_limits \<Rightarrow> sync_document \<Rightarrow> json res" where
  "encode_sync_document nt l d =
     and_then (encode_payload d) (\<lambda>(kind, payload).
     let v = object_json [(''protocol'', JStr sync_protocol), (''kind'', JStr kind), (''payload'', payload)] in
     and_then (document_bounds nt v l) (\<lambda>_. Inr v))"

section \<open>Decoders\<close>

definition decode_session :: "fields \<Rightarrow> sync_session res" where
  "decode_session obj =
     and_then (closed_fields [''session_id'', ''created_at'', ''expires_at''] obj) (\<lambda>_.
     and_then (field obj ''session_id'' as_string) (\<lambda>i.
     and_then (field obj ''created_at'' as_time) (\<lambda>c.
     and_then (field obj ''expires_at'' as_time) (\<lambda>e.
     checked check_session \<lparr>ss_session_id = i, ss_created_at = c, ss_expires_at = e\<rparr>))))"

definition decode_dataset :: "fields \<Rightarrow> dataset_descriptor res" where
  "decode_dataset obj =
     and_then (closed_fields [''dataset_id'', ''generation'', ''modes''] obj) (\<lambda>_.
     and_then (field obj ''modes'' as_array) (\<lambda>xs.
     and_then (each (\<lambda>x. and_then (as_string x) mode_of) xs) (\<lambda>modes.
     and_then (field obj ''dataset_id'' as_string) (\<lambda>i.
     and_then (field obj ''generation'' as_integer) (\<lambda>g.
     checked check_dataset \<lparr>dd_dataset_id = i, dd_generation = g, dd_modes = modes\<rparr>)))))"

definition decode_bootstrap_request :: "sync_limits \<Rightarrow> fields \<Rightarrow> bootstrap_request res" where
  "decode_bootstrap_request l obj =
     and_then (closed_fields [''client_id'', ''dataset_ids'', ''capabilities''] obj) (\<lambda>_.
     and_then (field obj ''dataset_ids'' (as_strings (sl_max_datasets l))) (\<lambda>datasets.
     and_then (field obj ''capabilities'' (as_strings (sl_max_capabilities l))) (\<lambda>caps.
     and_then (check_ids_with_limit datasets l) (\<lambda>_.
     and_then (check_capabilities caps l) (\<lambda>_.
     and_then (field obj ''client_id'' as_string) (\<lambda>i.
     and_then (opaque_within l i) (\<lambda>_.
     checked check_bootstrap_request \<lparr>bq_client_id = i, bq_dataset_ids = datasets, bq_capabilities = caps\<rparr>)))))))"

definition decode_limits :: "fields \<Rightarrow> sync_limits res" where
  "decode_limits obj =
     and_then (closed_fields [''max_document_bytes'', ''max_datasets'', ''max_items_per_page'', ''max_mutations'',
       ''max_opaque_id_bytes'', ''max_capabilities''] obj) (\<lambda>_.
     and_then (field obj ''max_document_bytes'' as_integer) (\<lambda>a.
     and_then (field obj ''max_datasets'' as_integer) (\<lambda>b.
     and_then (field obj ''max_items_per_page'' as_integer) (\<lambda>c.
     and_then (field obj ''max_mutations'' as_integer) (\<lambda>d.
     and_then (field obj ''max_opaque_id_bytes'' as_integer) (\<lambda>e.
     and_then (field obj ''max_capabilities'' as_integer) (\<lambda>f.
     checked check_sync_limits \<lparr>sl_max_document_bytes = a, sl_max_datasets = b, sl_max_items_per_page = c,
       sl_max_mutations = d, sl_max_opaque_id_bytes = e, sl_max_capabilities = f\<rparr>)))))))"

definition decode_bootstrap_response :: "sync_limits \<Rightarrow> fields \<Rightarrow> bootstrap_response res" where
  "decode_bootstrap_response l obj =
     and_then (closed_fields [''session'', ''datasets'', ''limits''] obj) (\<lambda>_.
     and_then (field obj ''datasets'' as_array) (\<lambda>xs.
     if xs = [] \<or> sl_max_datasets l < int (length xs) then Inl ValueError
     else
       and_then (each (\<lambda>x. and_then (as_object x) decode_dataset) xs) (\<lambda>datasets.
       and_then (field obj ''session'' (\<lambda>x. and_then (as_object x) decode_session)) (\<lambda>s.
       and_then (field obj ''limits'' (\<lambda>x. and_then (as_object x) decode_limits)) (\<lambda>lim.
       checked check_bootstrap_response \<lparr>bp_session = s, bp_datasets = datasets, bp_limits = lim\<rparr>)))))"

definition decode_upsert :: "sync_limits \<Rightarrow> fields \<Rightarrow> upsert res" where
  "decode_upsert l obj =
     and_then (closed_fields [''item_id'', ''revision'', ''value''] obj) (\<lambda>_.
     and_then (field obj ''item_id'' as_string) (\<lambda>i.
     and_then (opaque_within l i) (\<lambda>_.
     and_then (field obj ''value'' Inr) (\<lambda>v.
     and_then (validate_json v) (\<lambda>_.
     and_then (field obj ''revision'' as_integer) (\<lambda>n.
     checked check_upsert \<lparr>up_item_id = i, up_revision = n, up_value = v\<rparr>))))))"

definition decode_tombstone :: "sync_limits \<Rightarrow> fields \<Rightarrow> tombstone res" where
  "decode_tombstone l obj =
     and_then (closed_fields [''item_id'', ''revision'', ''deleted_at''] obj) (\<lambda>_.
     and_then (field obj ''item_id'' as_string) (\<lambda>i.
     and_then (opaque_within l i) (\<lambda>_.
     and_then (field obj ''revision'' as_integer) (\<lambda>n.
     and_then (field obj ''deleted_at'' as_time) (\<lambda>d.
     checked check_tombstone \<lparr>tb_item_id = i, tb_revision = n, tb_deleted_at = d\<rparr>)))))"

definition decode_integrity :: "fields \<Rightarrow> integrity res" where
  "decode_integrity obj =
     and_then (closed_fields [''algorithm'', ''digest'', ''item_count''] obj) (\<lambda>_.
     and_then (field obj ''algorithm'' as_string) (\<lambda>a.
     and_then (field obj ''digest'' as_string) (\<lambda>d.
     and_then (field obj ''item_count'' as_integer) (\<lambda>n.
     checked check_integrity \<lparr>ig_algorithm = a, ig_digest = d, ig_item_count = n\<rparr>))))"

definition decode_snapshot :: "sync_limits \<Rightarrow> fields \<Rightarrow> snapshot_page res" where
  "decode_snapshot l obj =
     and_then (closed_fields [''dataset_id'', ''generation'', ''upserts'', ''next_cursor'', ''integrity''] obj) (\<lambda>_.
     and_then (field obj ''dataset_id'' as_string) (\<lambda>i.
     and_then (opaque_within l i) (\<lambda>_.
     and_then (field obj ''upserts'' as_array) (\<lambda>xs.
     if sl_max_items_per_page l < int (length xs) then Inl ValueError
     else
       and_then (field obj ''generation'' as_integer) (\<lambda>g.
       and_then (each (\<lambda>x. and_then (as_object x) (decode_upsert l)) xs) (\<lambda>us.
       and_then (field obj ''next_cursor'' as_nullable_string) (\<lambda>c.
       and_then (field obj ''integrity'' (\<lambda>x. and_then (as_object x) decode_integrity)) (\<lambda>ig.
       checked check_snapshot \<lparr>sp_dataset_id = i, sp_generation = g, sp_upserts = us, sp_next_cursor = c, sp_integrity = ig\<rparr>))))))))"

definition decode_delta :: "sync_limits \<Rightarrow> fields \<Rightarrow> delta_page res" where
  "decode_delta l obj =
     and_then (closed_fields [''dataset_id'', ''generation'', ''upserts'', ''tombstones'', ''next_cursor'', ''integrity''] obj) (\<lambda>_.
     and_then (field obj ''dataset_id'' as_string) (\<lambda>i.
     and_then (opaque_within l i) (\<lambda>_.
     and_then (field obj ''upserts'' as_array) (\<lambda>xs.
     and_then (field obj ''tombstones'' as_array) (\<lambda>ys.
     if sl_max_items_per_page l < int (length xs) + int (length ys) then Inl ValueError
     else
       and_then (field obj ''generation'' as_integer) (\<lambda>g.
       and_then (each (\<lambda>x. and_then (as_object x) (decode_upsert l)) xs) (\<lambda>us.
       and_then (each (\<lambda>x. and_then (as_object x) (decode_tombstone l)) ys) (\<lambda>ts.
       and_then (field obj ''next_cursor'' as_nullable_string) (\<lambda>c.
       and_then (field obj ''integrity'' (\<lambda>x. and_then (as_object x) decode_integrity)) (\<lambda>ig.
       checked check_delta \<lparr>dp_dataset_id = i, dp_generation = g, dp_upserts = us, dp_tombstones = ts, dp_next_cursor = c,
         dp_integrity = ig\<rparr>))))))))))"

definition decode_reset :: "fields \<Rightarrow> reset_required res" where
  "decode_reset obj =
     and_then (closed_fields [''dataset_id'', ''generation'', ''reason''] obj) (\<lambda>_.
     and_then (field obj ''dataset_id'' as_string) (\<lambda>i.
     and_then (field obj ''generation'' as_integer) (\<lambda>g.
     and_then (field obj ''reason'' as_string) (\<lambda>r.
     checked check_reset \<lparr>ry_dataset_id = i, ry_generation = g, ry_reason = r\<rparr>))))"

definition decode_generation_mismatch :: "fields \<Rightarrow> generation_mismatch res" where
  "decode_generation_mismatch obj =
     and_then (closed_fields [''dataset_id'', ''expected'', ''actual''] obj) (\<lambda>_.
     and_then (field obj ''dataset_id'' as_string) (\<lambda>i.
     and_then (field obj ''expected'' as_integer) (\<lambda>e.
     and_then (field obj ''actual'' as_integer) (\<lambda>a.
     checked check_generation_mismatch \<lparr>gm_dataset_id = i, gm_expected = e, gm_actual = a\<rparr>))))"

definition decode_readiness :: "fields \<Rightarrow> readiness res" where
  "decode_readiness obj =
     and_then (closed_fields [''ready'', ''checked_at'', ''reason'', ''retry_after_ms''] obj) (\<lambda>_.
     and_then (field obj ''ready'' as_boolean) (\<lambda>ready.
     and_then (field obj ''checked_at'' as_time) (\<lambda>c.
     and_then (field obj ''reason'' as_nullable_string) (\<lambda>r.
     and_then (field obj ''retry_after_ms'' as_nullable_integer) (\<lambda>n.
     checked check_readiness \<lparr>rn_ready = ready, rn_checked_at = c, rn_reason = r, rn_retry_after_ms = n\<rparr>)))))"

definition decode_mutation_outcome :: "fields \<Rightarrow> mutation_outcome res" where
  "decode_mutation_outcome obj =
     and_then (closed_fields [''mutation_id'', ''state'', ''revision'', ''receipt_id'', ''reason''] obj) (\<lambda>_.
     and_then (field obj ''mutation_id'' as_string) (\<lambda>i.
     and_then (field obj ''state'' (\<lambda>x. and_then (as_string x) state_of)) (\<lambda>s.
     and_then (field obj ''revision'' as_nullable_integer) (\<lambda>n.
     and_then (field obj ''receipt_id'' as_nullable_string) (\<lambda>q.
     and_then (field obj ''reason'' as_nullable_string) (\<lambda>r.
     checked check_mutation_outcome \<lparr>mo_mutation_id = i, mo_state = s, mo_revision = n, mo_receipt_id = q, mo_reason = r\<rparr>))))))"

definition decode_mutation_outcomes :: "sync_limits \<Rightarrow> fields \<Rightarrow> mutation_outcomes res" where
  "decode_mutation_outcomes l obj =
     and_then (closed_fields [''dataset_id'', ''generation'', ''outcomes''] obj) (\<lambda>_.
     and_then (field obj ''dataset_id'' as_string) (\<lambda>i.
     and_then (opaque_within l i) (\<lambda>_.
     and_then (field obj ''outcomes'' as_array) (\<lambda>xs.
     if xs = [] \<or> sl_max_mutations l < int (length xs) then Inl ValueError
     else
       and_then (field obj ''generation'' as_integer) (\<lambda>g.
       and_then (each (\<lambda>x. and_then (as_object x) decode_mutation_outcome) xs) (\<lambda>ms.
       checked check_mutation_outcomes \<lparr>ms_dataset_id = i, ms_generation = g, ms_outcomes = ms\<rparr>))))))"

definition decode_kind :: "sync_limits \<Rightarrow> string \<Rightarrow> fields \<Rightarrow> sync_document res" where
  "decode_kind l kind obj =
     (if kind = ''session'' then and_then (decode_session obj) (\<lambda>x. Inr (Session x))
      else if kind = ''dataset'' then and_then (decode_dataset obj) (\<lambda>x. Inr (Dataset x))
      else if kind = ''bootstrap_request'' then and_then (decode_bootstrap_request l obj) (\<lambda>x. Inr (Bootstrap_request x))
      else if kind = ''bootstrap_response'' then and_then (decode_bootstrap_response l obj) (\<lambda>x. Inr (Bootstrap_response x))
      else if kind = ''snapshot'' then and_then (decode_snapshot l obj) (\<lambda>x. Inr (Snapshot x))
      else if kind = ''delta'' then and_then (decode_delta l obj) (\<lambda>x. Inr (Delta x))
      else if kind = ''reset_required'' then and_then (decode_reset obj) (\<lambda>x. Inr (Reset x))
      else if kind = ''generation_mismatch'' then and_then (decode_generation_mismatch obj) (\<lambda>x. Inr (Mismatch x))
      else if kind = ''readiness'' then and_then (decode_readiness obj) (\<lambda>x. Inr (Ready x))
      else if kind = ''mutation_outcome'' then and_then (decode_mutation_outcome obj) (\<lambda>x. Inr (Outcome x))
      else if kind = ''mutation_outcomes'' then and_then (decode_mutation_outcomes l obj) (\<lambda>x. Inr (Outcomes x))
      else Inl ValueError)"

definition decode_bounded_document :: "sync_limits \<Rightarrow> json \<Rightarrow> sync_document res" where
  "decode_bounded_document l v =
     and_then (as_object v) (\<lambda>envelope.
     and_then (closed_fields [''protocol'', ''kind'', ''payload''] envelope) (\<lambda>_.
     and_then (field envelope ''protocol'' as_string) (\<lambda>protocol.
     if protocol \<noteq> sync_protocol then Inl ValueError
     else
       and_then (field envelope ''kind'' as_string) (\<lambda>kind.
       and_then (field envelope ''payload'' as_object) (decode_kind l kind)))))"

definition decode_sync_document :: "number_text \<Rightarrow> sync_limits \<Rightarrow> json \<Rightarrow> sync_document res" where
  "decode_sync_document nt l v = and_then (document_bounds nt v l) (\<lambda>_. decode_bounded_document l v)"

section \<open>Valid documents\<close>

text \<open>A document is valid when all its constructor checks, nested ones included, accept it.  Python's \<open>datetime\<close> keeps
  times in the calendar.\<close>

definition valid_session :: "sync_session \<Rightarrow> bool" where
  "valid_session s \<longleftrightarrow> check_session s = Inr () \<and> in_calendar (ss_created_at s) \<and> in_calendar (ss_expires_at s)"

definition valid_tombstone :: "tombstone \<Rightarrow> bool" where
  "valid_tombstone t \<longleftrightarrow> check_tombstone t = Inr () \<and> in_calendar (tb_deleted_at t)"

fun valid_document :: "sync_document \<Rightarrow> bool" where
  "valid_document (Session s) = valid_session s"
| "valid_document (Dataset d) = (check_dataset d = Inr ())"
| "valid_document (Bootstrap_request r) = (check_bootstrap_request r = Inr ())"
| "valid_document (Bootstrap_response r) = (check_bootstrap_response r = Inr () \<and> valid_session (bp_session r)
     \<and> (\<forall>d\<in>set (bp_datasets r). check_dataset d = Inr ()) \<and> check_sync_limits (bp_limits r) = Inr ())"
| "valid_document (Snapshot p) = (check_snapshot p = Inr () \<and> (\<forall>u\<in>set (sp_upserts p). check_upsert u = Inr ())
     \<and> check_integrity (sp_integrity p) = Inr ())"
| "valid_document (Delta p) = (check_delta p = Inr () \<and> (\<forall>u\<in>set (dp_upserts p). check_upsert u = Inr ())
     \<and> (\<forall>t\<in>set (dp_tombstones p). valid_tombstone t) \<and> check_integrity (dp_integrity p) = Inr ())"
| "valid_document (Reset r) = (check_reset r = Inr ())"
| "valid_document (Mismatch g) = (check_generation_mismatch g = Inr ())"
| "valid_document (Ready r) = (check_readiness r = Inr () \<and> in_calendar (rn_checked_at r))"
| "valid_document (Outcome m) = (check_mutation_outcome m = Inr ())"
| "valid_document (Outcomes m) = (check_mutation_outcomes m = Inr () \<and> (\<forall>x\<in>set (ms_outcomes m). check_mutation_outcome x = Inr ()))"

text \<open>What the negotiated limits ask of a document beyond its constructors.\<close>

definition id_fits :: "sync_limits \<Rightarrow> string \<Rightarrow> bool" where
  "id_fits l s \<longleftrightarrow> utf8_size s \<le> sl_max_opaque_id_bytes l"

fun within_limits :: "sync_limits \<Rightarrow> sync_document \<Rightarrow> bool" where
  "within_limits l (Bootstrap_request r) = (int (length (bq_dataset_ids r)) \<le> sl_max_datasets l
     \<and> int (length (bq_capabilities r)) \<le> sl_max_capabilities l \<and> (\<forall>i\<in>set (bq_dataset_ids r). id_fits l i)
     \<and> (\<forall>c\<in>set (bq_capabilities r). id_fits l c) \<and> id_fits l (bq_client_id r))"
| "within_limits l (Bootstrap_response r) = (int (length (bp_datasets r)) \<le> sl_max_datasets l)"
| "within_limits l (Snapshot p) = (id_fits l (sp_dataset_id p) \<and> int (length (sp_upserts p)) \<le> sl_max_items_per_page l
     \<and> (\<forall>u\<in>set (sp_upserts p). id_fits l (up_item_id u)))"
| "within_limits l (Delta p) = (id_fits l (dp_dataset_id p)
     \<and> int (length (dp_upserts p)) + int (length (dp_tombstones p)) \<le> sl_max_items_per_page l
     \<and> (\<forall>u\<in>set (dp_upserts p). id_fits l (up_item_id u)) \<and> (\<forall>t\<in>set (dp_tombstones p). id_fits l (tb_item_id t)))"
| "within_limits l (Outcomes m) = (id_fits l (ms_dataset_id m) \<and> int (length (ms_outcomes m)) \<le> sl_max_mutations l)"
| "within_limits l _ = True"

section \<open>Shapes read back\<close>

lemma each_spec:
  assumes "\<And>x. x \<in> set xs \<Longrightarrow> f x = (if P x then Inr (g x) else Inl e)"
  shows "each f xs = (if \<forall>x\<in>set xs. P x then Inr (map g xs) else Inl e)"
  using assms by (induction xs) (simp_all add: and_then_def)

lemma each_unit:
  assumes "\<And>x. x \<in> set xs \<Longrightarrow> f x = (if P x then Inr u else Inl e)"
  shows "and_then (each f xs) (\<lambda>_. Inr v) = (if \<forall>x\<in>set xs. P x then Inr v else Inl e)"
  using assms by (induction xs) (simp_all add: and_then_def split: sum.splits if_splits)

lemma each_map: "each f (map g xs) = each (\<lambda>x. f (g x)) xs"
  by (induction xs) simp_all

lemma each_Inr: "each f xs = Inr ys \<longleftrightarrow> list_all2 (\<lambda>x y. f x = Inr y) xs ys"
  by (induction xs arbitrary: ys) (auto simp: and_then_eq_Inr list_all2_Cons1)

lemma each_back:
  assumes "each f xs = Inr ys" and "\<And>x y. x \<in> set xs \<Longrightarrow> f x = Inr y \<Longrightarrow> g y = (if P x then Inr x else Inl e)"
  shows "each g ys = (if \<forall>x\<in>set xs. P x then Inr xs else Inl e)"
  using assms
proof (induction xs arbitrary: ys)
  case (Cons a xs)
  obtain y zs where ys: "ys = y # zs" "f a = Inr y" "each f xs = Inr zs" using Cons.prems(1) by (auto simp: and_then_eq_Inr)
  from ys(3) have "each g zs = (if \<forall>x\<in>set xs. P x then Inr xs else Inl e)"
    by (rule Cons.IH) (simp add: Cons.prems(2))
  moreover from ys(2) have "g y = (if P a then Inr a else Inl e)" by (simp add: Cons.prems(2))
  ultimately show ?case by (simp add: ys(1))
qed simp

lemma each_all: "each f xs = Inr ys \<Longrightarrow> (\<And>x y. f x = Inr y \<Longrightarrow> Q y) \<Longrightarrow> \<forall>y\<in>set ys. Q y"
  by (induction xs arbitrary: ys) (auto simp: and_then_eq_Inr)

lemma each_member: "each f xs = Inr ys \<Longrightarrow> x \<in> set xs \<Longrightarrow> \<exists>y. f x = Inr y"
  by (induction xs arbitrary: ys) (auto simp: and_then_eq_Inr)

lemma each_length: "each f xs = Inr ys \<Longrightarrow> length ys = length xs"
  by (simp add: each_Inr list_all2_lengthD)

lemma as_object_json [simp]: "as_object (object_json kvs) = Inr kvs"
proof -
  have "each (\<lambda>(k, x). and_then (key_text k) (\<lambda>s. Inr (s, x))) (map (\<lambda>(k, v). (KStr k, v)) kvs) = Inr kvs"
    by (induction kvs) auto
  then show ?thesis by (simp add: as_object_def object_json_def)
qed

lemma shapes_back [simp]:
  "as_string (JStr s) = Inr s" "as_integer (JInt n) = Inr n" "as_array (JList xs) = Inr xs" "as_boolean (JBool b) = Inr b"
  "as_nullable_string (nullable_string_json v) = Inr v" "as_nullable_integer (nullable_integer_json w) = Inr w"
  "mode_of (mode_value m) = Inr m" "state_of (state_value st) = Inr st"
  by (simp_all add: as_string_def as_integer_def as_array_def as_boolean_def as_nullable_string_def as_nullable_integer_def
      nullable_string_json_def nullable_integer_json_def mode_of_def mode_value_def state_of_def state_value_def
      split: option.splits sync_mode.splits mutation_outcome_state.splits)

lemma as_time_back: "in_calendar t \<Longrightarrow> format_sync_timestamp t = Inr s \<Longrightarrow> as_time (JStr s) = Inr t"
  by (simp add: as_time_def parse_formatted)

lemma as_strings_back:
  "as_strings k (JList (map JStr xs)) = (if int (length xs) \<le> k then Inr xs else Inl ValueError)"
  by (simp add: as_strings_def each_map each_spec [where P = "\<lambda>_. True" and g = "\<lambda>x. x"])

lemma field_Inr: "field obj name f = Inr x \<longleftrightarrow> (\<exists>v. map_of obj name = Some v \<and> f v = Inr x)"
  by (simp add: field_def split: option.splits)

lemma checked_Inr [simp]: "checked chk x = Inr y \<longleftrightarrow> chk x = Inr () \<and> y = x"
  by (auto simp: checked_def and_then_eq_Inr)

lemma opaque_within_iff:
  assumes "check_opaque s None = Inr ()" and "check_sync_limits l = Inr ()"
  shows "opaque_within l s = (if id_fits l s then Inr () else Inl ValueError)"
  using assms by (auto simp: opaque_within_def check_opaque_def id_fits_def check_sync_limits_def Let_def split: if_splits)

lemma closed_same: "map fst obj = expected \<Longrightarrow> closed_fields expected obj = Inr ()"
  by (simp add: closed_fields_def)

lemma field_simps:
  "field ((k, v) # kvs) k f = f v"
  "k \<noteq> name \<Longrightarrow> field ((k, v) # kvs) name f = field kvs name f"
  by (simp_all add: field_def)

lemma checked_ok: "chk x = Inr () \<Longrightarrow> checked chk x = Inr x"
  by (simp add: checked_def)

lemmas reads_back = closed_same field_simps checked_ok

section \<open>Every encoder is read back\<close>

lemma session_back:
  assumes "valid_session s" and "session_json s = Inr j"
  shows "and_then (as_object j) decode_session = Inr s"
proof (cases s)
  case (fields i c e)
  obtain ct et where t: "format_sync_timestamp c = Inr ct" "format_sync_timestamp e = Inr et"
    and j: "j = object_json [(''session_id'', JStr i), (''created_at'', JStr ct), (''expires_at'', JStr et)]"
    using assms(2) by (auto simp: session_json_def and_then_eq_Inr fields)
  have "as_time (JStr ct) = Inr c" "as_time (JStr et) = Inr e" using assms(1) t by (auto simp: valid_session_def fields as_time_back)
  with assms(1) show ?thesis by (simp add: j fields valid_session_def decode_session_def reads_back)
qed

lemma dataset_back:
  "check_dataset d = Inr () \<Longrightarrow> and_then (as_object (dataset_json d)) decode_dataset = Inr d"
  by (cases d)
    (simp add: dataset_json_def decode_dataset_def reads_back each_map each_spec [where P = "\<lambda>_. True" and g = "\<lambda>x. x"])

lemma limits_back:
  "check_sync_limits l = Inr () \<Longrightarrow> and_then (as_object (limits_json l)) decode_limits = Inr l"
  by (cases l) (simp add: limits_json_def decode_limits_def reads_back)

lemma integrity_back:
  "check_integrity i = Inr () \<Longrightarrow> and_then (as_object (integrity_json i)) decode_integrity = Inr i"
  by (cases i) (simp add: integrity_json_def decode_integrity_def reads_back)

lemma mutation_outcome_back:
  "check_mutation_outcome m = Inr () \<Longrightarrow> and_then (as_object (mutation_outcome_json m)) decode_mutation_outcome = Inr m"
  by (cases m) (simp add: mutation_outcome_json_def decode_mutation_outcome_def reads_back)

lemma upsert_back:
  assumes "check_upsert u = Inr ()" and "check_sync_limits l = Inr ()"
  shows "and_then (as_object (upsert_json u)) (decode_upsert l) = (if id_fits l (up_item_id u) then Inr u else Inl ValueError)"
proof (cases u)
  case (fields i n v)
  have "check_opaque i None = Inr ()" "validate_json v = Inr ()"
    using assms(1) by (auto simp: check_upsert_def and_then_eq_Inr fields)
  with assms show ?thesis by (simp add: fields upsert_json_def decode_upsert_def reads_back opaque_within_iff)
qed

lemma tombstone_back:
  assumes "valid_tombstone t" and "check_sync_limits l = Inr ()" and "tombstone_json t = Inr j"
  shows "and_then (as_object j) (decode_tombstone l) = (if id_fits l (tb_item_id t) then Inr t else Inl ValueError)"
proof (cases t)
  case (fields i n d)
  have valid: "check_opaque i None = Inr ()" "check_tombstone t = Inr ()" "in_calendar d"
    using assms(1) by (auto simp: valid_tombstone_def check_tombstone_def and_then_eq_Inr fields)
  obtain dt where "format_sync_timestamp d = Inr dt"
    and "j = object_json [(''item_id'', JStr i), (''revision'', JInt n), (''deleted_at'', JStr dt)]"
    using assms(3) by (auto simp: tombstone_json_def and_then_eq_Inr fields)
  with valid assms(2) as_time_back [of d dt] show ?thesis
    by (simp add: fields decode_tombstone_def reads_back opaque_within_iff)
qed

lemma upserts_back:
  assumes "\<forall>u\<in>set us. check_upsert u = Inr ()" and "check_sync_limits l = Inr ()"
  shows "each (\<lambda>x. and_then (as_object x) (decode_upsert l)) (map upsert_json us)
      = (if \<forall>u\<in>set us. id_fits l (up_item_id u) then Inr us else Inl ValueError)"
  using each_spec [where f = "\<lambda>u. and_then (as_object (upsert_json u)) (decode_upsert l)" and g = "\<lambda>x. x"
      and P = "\<lambda>u. id_fits l (up_item_id u)" and e = ValueError and xs = us] upsert_back assms by (simp add: each_map)

lemma tombstones_back:
  assumes "\<forall>t\<in>set ts. valid_tombstone t" and "check_sync_limits l = Inr ()" and "each tombstone_json ts = Inr js"
  shows "each (\<lambda>x. and_then (as_object x) (decode_tombstone l)) js
      = (if \<forall>t\<in>set ts. id_fits l (tb_item_id t) then Inr ts else Inl ValueError)"
  using assms tombstone_back by (intro each_back [OF assms(3)]) simp

lemma datasets_back:
  assumes "\<forall>d\<in>set ds. check_dataset d = Inr ()"
  shows "each (\<lambda>x. and_then (as_object x) decode_dataset) (map dataset_json ds) = Inr ds"
  using assms dataset_back
  by (simp add: each_map each_spec [where P = "\<lambda>_. True" and g = "\<lambda>x. x"])

lemma outcomes_back:
  assumes "\<forall>m\<in>set ms. check_mutation_outcome m = Inr ()"
  shows "each (\<lambda>x. and_then (as_object x) decode_mutation_outcome) (map mutation_outcome_json ms) = Inr ms"
  using assms mutation_outcome_back
  by (simp add: each_map each_spec [where P = "\<lambda>_. True" and g = "\<lambda>x. x"])

lemma ids_within:
  assumes "check_sync_limits l = Inr ()" and "each (\<lambda>v. check_opaque v None) ids = Inr us"
  shows "and_then (each (\<lambda>v. check_opaque v (Some (sl_max_opaque_id_bytes l))) ids) (\<lambda>_. Inr ())
      = (if \<forall>i\<in>set ids. id_fits l i then Inr () else Inl ValueError)"
proof -
  have "check_opaque i None = Inr ()" if "i \<in> set ids" for i
    using each_member [OF assms(2) that] by simp
  then show ?thesis using opaque_within_iff [OF _ assms(1)] by (intro each_unit) (simp add: opaque_within_def)
qed

lemma capability_within:
  assumes "check_sync_limits l = Inr ()" and "check_opaque v (Some 64) = Inr ()"
  shows "check_opaque v (Some (min 64 (sl_max_opaque_id_bytes l))) = (if id_fits l v then Inr () else Inl ValueError)"
  using assms by (auto simp: check_opaque_def id_fits_def check_sync_limits_def Let_def min_def split: if_splits)

lemma capabilities_within:
  assumes "check_sync_limits l = Inr ()" and "check_capabilities caps default_sync_limits = Inr ()"
    and "int (length caps) \<le> sl_max_capabilities l"
  shows "check_capabilities caps l = (if \<forall>c\<in>set caps. id_fits l c then Inr () else Inl ValueError)"
proof -
  obtain us where d: "distinct caps" and us: "each (\<lambda>v. check_opaque v (Some 64)) caps = Inr us"
    using assms(2) by (auto simp: check_capabilities_def default_sync_limits_def and_then_eq_Inr split: if_splits)
  have "check_opaque c (Some 64) = Inr ()" if "c \<in> set caps" for c
    using each_member [OF us that] by simp
  then have "and_then (each (\<lambda>v. check_opaque v (Some (min 64 (sl_max_opaque_id_bytes l)))) caps) (\<lambda>_. Inr ())
      = (if \<forall>c\<in>set caps. id_fits l c then Inr () else Inl ValueError)"
    by (intro each_unit [where u = "()"] capability_within [OF assms(1)])
  with d assms(3) show ?thesis by (simp add: check_capabilities_def)
qed

lemma bootstrap_request_back:
  assumes "check_bootstrap_request r = Inr ()" and "check_sync_limits l = Inr ()"
    and "encode_payload (Bootstrap_request r) = Inr (kind, j)"
  shows "and_then (as_object j) (decode_bootstrap_request l)
      = (if within_limits l (Bootstrap_request r) then Inr r else Inl ValueError)"
proof (cases r)
  case (fields i ds caps)
  have "check_opaque i None = Inr ()" and ds: "check_ids ds 128 = Inr ()" and caps: "check_capabilities caps default_sync_limits = Inr ()"
    using assms(1) by (auto simp: check_bootstrap_request_def and_then_eq_Inr fields default_sync_limits_def)
  then have i: "opaque_within l i = (if id_fits l i then Inr () else Inl ValueError)" by (simp add: opaque_within_iff assms(2))
  obtain us where us: "each (\<lambda>v. check_opaque v None) ds = Inr us" and "ds \<noteq> []" "distinct ds"
    using ds by (auto simp: check_ids_def and_then_eq_Inr split: if_splits)
  then have "check_ids_with_limit ds l = (if \<forall>x\<in>set ds. id_fits l x then Inr () else Inl ValueError)"
    using ids_within [OF assms(2) us] by (simp add: check_ids_with_limit_def)
  with assms(1,3) i capabilities_within [OF assms(2) caps] show ?thesis
    by (auto simp: fields decode_bootstrap_request_def reads_back as_strings_back)
qed

lemma check_snapshotD: "check_snapshot p = Inr () \<Longrightarrow> check_opaque (sp_dataset_id p) None = Inr ()"
  and check_deltaD: "check_delta q = Inr () \<Longrightarrow> check_opaque (dp_dataset_id q) None = Inr ()"
  and check_outcomesD: "check_mutation_outcomes m = Inr () \<Longrightarrow> check_opaque (ms_dataset_id m) None = Inr () \<and> ms_outcomes m \<noteq> []"
  and check_responseD: "check_bootstrap_response r = Inr () \<Longrightarrow> bp_datasets r \<noteq> []"
  by (auto simp: check_snapshot_def check_delta_def check_mutation_outcomes_def check_bootstrap_response_def and_then_eq_Inr)

lemma bootstrap_response_back:
  assumes "valid_document (Bootstrap_response r)" and "encode_payload (Bootstrap_response r) = Inr (kind, j)"
  shows "and_then (as_object j) (decode_bootstrap_response l)
      = (if within_limits l (Bootstrap_response r) then Inr r else Inl ValueError)"
proof (cases r)
  case (fields s ds lim)
  obtain sj where s: "session_json s = Inr sj"
    and j: "j = object_json [(''session'', sj), (''datasets'', JList (map dataset_json ds)), (''limits'', limits_json lim)]"
    using assms(2) by (auto simp: fields and_then_eq_Inr)
  have "and_then (as_object sj) decode_session = Inr s" using assms(1) s by (simp add: fields session_back)
  with assms(1) check_responseD [of r] show ?thesis
    by (auto simp: fields j decode_bootstrap_response_def reads_back datasets_back limits_back)
qed

lemma snapshot_back:
  assumes "valid_document (Snapshot p)" and "check_sync_limits l = Inr ()" and "encode_payload (Snapshot p) = Inr (kind, j)"
  shows "and_then (as_object j) (decode_snapshot l) = (if within_limits l (Snapshot p) then Inr p else Inl ValueError)"
proof (cases p)
  case (fields i g us c ig)
  with assms(1) check_snapshotD [of p] have "check_opaque i None = Inr ()" by simp
  with assms show ?thesis
    by (auto simp: fields decode_snapshot_def reads_back opaque_within_iff upserts_back integrity_back)
qed

lemma delta_back:
  assumes "valid_document (Delta p)" and "check_sync_limits l = Inr ()" and "encode_payload (Delta p) = Inr (kind, j)"
  shows "and_then (as_object j) (decode_delta l) = (if within_limits l (Delta p) then Inr p else Inl ValueError)"
proof (cases p)
  case (fields i g us ts c ig)
  obtain js where js: "each tombstone_json ts = Inr js" using assms(3) by (auto simp: fields and_then_eq_Inr)
  then have "length js = length ts" by (rule each_length)
  moreover have "check_opaque i None = Inr ()" using assms(1) check_deltaD [of p] by (simp add: fields)
  moreover have "each (\<lambda>x. and_then (as_object x) (decode_tombstone l)) js
      = (if \<forall>t\<in>set ts. id_fits l (tb_item_id t) then Inr ts else Inl ValueError)"
    using assms(1) by (intro tombstones_back [OF _ assms(2) js]) (simp add: fields)
  ultimately show ?thesis using assms js
    by (auto simp: fields decode_delta_def reads_back opaque_within_iff upserts_back integrity_back)
qed

lemma outcomes_document_back:
  assumes "valid_document (Outcomes m)" and "check_sync_limits l = Inr ()" and "encode_payload (Outcomes m) = Inr (kind, j)"
  shows "and_then (as_object j) (decode_mutation_outcomes l) = (if within_limits l (Outcomes m) then Inr m else Inl ValueError)"
proof (cases m)
  case (fields i g ms)
  with assms(1) check_outcomesD [of m] have "check_opaque i None = Inr ()" "ms \<noteq> []" by simp_all
  with assms show ?thesis
    by (auto simp: fields decode_mutation_outcomes_def reads_back opaque_within_iff outcomes_back)
qed

lemma readiness_back:
  assumes "valid_document (Ready r)" and "encode_payload (Ready r) = Inr (kind, j)"
  shows "and_then (as_object j) decode_readiness = Inr r"
proof (cases r)
  case (fields ready c reason after)
  obtain ct where t: "format_sync_timestamp c = Inr ct"
    and j: "j = object_json [(''ready'', JBool ready), (''checked_at'', JStr ct), (''reason'', nullable_string_json reason),
       (''retry_after_ms'', nullable_integer_json after)]"
    using assms(2) by (auto simp: fields and_then_eq_Inr)
  have "as_time (JStr ct) = Inr c" using assms(1) t by (auto simp: fields as_time_back)
  with assms(1) show ?thesis by (simp add: fields j decode_readiness_def reads_back)
qed

lemma reset_back:
  "check_reset r = Inr () \<Longrightarrow> encode_payload (Reset r) = Inr (kind, j) \<Longrightarrow> and_then (as_object j) decode_reset = Inr r"
  by (cases r) (auto simp: decode_reset_def reads_back)

lemma mismatch_back:
  "check_generation_mismatch g = Inr () \<Longrightarrow> encode_payload (Mismatch g) = Inr (kind, j)
   \<Longrightarrow> and_then (as_object j) decode_generation_mismatch = Inr g"
  by (cases g) (auto simp: decode_generation_mismatch_def reads_back)

lemma decode_kind_simps:
  "decode_kind l ''session'' obj = and_then (decode_session obj) (\<lambda>x. Inr (Session x))"
  "decode_kind l ''dataset'' obj = and_then (decode_dataset obj) (\<lambda>x. Inr (Dataset x))"
  "decode_kind l ''bootstrap_request'' obj = and_then (decode_bootstrap_request l obj) (\<lambda>x. Inr (Bootstrap_request x))"
  "decode_kind l ''bootstrap_response'' obj = and_then (decode_bootstrap_response l obj) (\<lambda>x. Inr (Bootstrap_response x))"
  "decode_kind l ''snapshot'' obj = and_then (decode_snapshot l obj) (\<lambda>x. Inr (Snapshot x))"
  "decode_kind l ''delta'' obj = and_then (decode_delta l obj) (\<lambda>x. Inr (Delta x))"
  "decode_kind l ''reset_required'' obj = and_then (decode_reset obj) (\<lambda>x. Inr (Reset x))"
  "decode_kind l ''generation_mismatch'' obj = and_then (decode_generation_mismatch obj) (\<lambda>x. Inr (Mismatch x))"
  "decode_kind l ''readiness'' obj = and_then (decode_readiness obj) (\<lambda>x. Inr (Ready x))"
  "decode_kind l ''mutation_outcome'' obj = and_then (decode_mutation_outcome obj) (\<lambda>x. Inr (Outcome x))"
  "decode_kind l ''mutation_outcomes'' obj = and_then (decode_mutation_outcomes l obj) (\<lambda>x. Inr (Outcomes x))"
  by (simp_all add: decode_kind_def)

lemma payload_back:
  assumes "valid_document d" and "check_sync_limits l = Inr ()" and "encode_payload d = Inr (kind, j)"
  shows "and_then (as_object j) (decode_kind l kind) = (if within_limits l d then Inr d else Inl ValueError)"
proof -
  obtain obj where obj: "as_object j = Inr obj"
    using assms(3) by (cases d)
      (auto simp: and_then_eq_Inr session_json_def dataset_json_def mutation_outcome_json_def)
  show ?thesis
  proof (cases d)
    case (Session s)
    then have kind: "kind = ''session''" using assms(3) by (auto simp: and_then_eq_Inr)
    from Session assms(3) have "session_json s = Inr j" by (auto simp: and_then_eq_Inr)
    with Session assms session_back [of s j] show ?thesis by (simp add: obj kind decode_kind_simps)
  next
    case (Dataset x)
    then have kind: "kind = ''dataset''" using assms(3) by simp
    from Dataset assms(3) have "j = dataset_json x" by simp
    with Dataset assms dataset_back [of x] obj show ?thesis by (simp add: kind decode_kind_simps)
  next
    case (Bootstrap_request r)
    then have kind: "kind = ''bootstrap_request''" using assms(3) by simp
    from Bootstrap_request assms bootstrap_request_back [of r l kind j] show ?thesis by (simp add: obj kind decode_kind_simps split: if_splits del: encode_payload.simps)
  next
    case (Bootstrap_response r)
    then have kind: "kind = ''bootstrap_response''" using assms(3) by (auto simp: and_then_eq_Inr)
    from Bootstrap_response assms bootstrap_response_back [of r kind j l] show ?thesis by (simp add: obj kind decode_kind_simps split: if_splits del: encode_payload.simps)
  next
    case (Snapshot p)
    then have kind: "kind = ''snapshot''" using assms(3) by simp
    from Snapshot assms snapshot_back [of p l kind j] show ?thesis by (simp add: obj kind decode_kind_simps split: if_splits del: encode_payload.simps)
  next
    case (Delta p)
    then have kind: "kind = ''delta''" using assms(3) by (auto simp: and_then_eq_Inr)
    from Delta assms delta_back [of p l kind j] show ?thesis by (simp add: obj kind decode_kind_simps split: if_splits del: encode_payload.simps)
  next
    case (Reset r)
    then have kind: "kind = ''reset_required''" using assms(3) by simp
    from Reset assms reset_back [of r kind j] show ?thesis by (simp add: obj kind decode_kind_simps split: if_splits del: encode_payload.simps)
  next
    case (Mismatch g)
    then have kind: "kind = ''generation_mismatch''" using assms(3) by simp
    from Mismatch assms mismatch_back [of g kind j] show ?thesis by (simp add: obj kind decode_kind_simps split: if_splits del: encode_payload.simps)
  next
    case (Ready r)
    then have kind: "kind = ''readiness''" using assms(3) by (auto simp: and_then_eq_Inr)
    from Ready assms readiness_back [of r kind j] show ?thesis by (simp add: obj kind decode_kind_simps split: if_splits del: encode_payload.simps)
  next
    case (Outcome m)
    then have kind: "kind = ''mutation_outcome''" using assms(3) by simp
    from Outcome assms(3) have "j = mutation_outcome_json m" by simp
    with Outcome assms mutation_outcome_back [of m] obj show ?thesis by (simp add: kind decode_kind_simps)
  next
    case (Outcomes m)
    then have kind: "kind = ''mutation_outcomes''" using assms(3) by simp
    from Outcomes assms outcomes_document_back [of m l kind j] show ?thesis by (simp add: obj kind decode_kind_simps split: if_splits del: encode_payload.simps)
  qed
qed

section \<open>Every decoder returns what its constructor accepts\<close>

lemma decoded_time: "as_time v = Inr t \<Longrightarrow> in_calendar t"
  by (auto simp: as_time_def and_then_eq_Inr intro: parsed_in_calendar)

lemma field_time: "field obj n as_time = Inr t \<Longrightarrow> in_calendar t"
  by (auto simp: field_Inr intro: decoded_time)

lemma opaque_withinD: "opaque_within l s = Inr u \<Longrightarrow> check_sync_limits l = Inr () \<Longrightarrow> id_fits l s"
  by (auto simp: opaque_within_def check_opaque_def id_fits_def check_sync_limits_def Let_def split: if_splits)

lemma decode_session_valid: "decode_session obj = Inr s \<Longrightarrow> valid_session s"
  by (auto simp: decode_session_def and_then_eq_Inr valid_session_def field_time)

lemma decode_dataset_valid: "decode_dataset obj = Inr d \<Longrightarrow> check_dataset d = Inr ()"
  by (auto simp: decode_dataset_def and_then_eq_Inr)

lemma decode_limits_valid: "decode_limits obj = Inr l \<Longrightarrow> check_sync_limits l = Inr ()"
  by (auto simp: decode_limits_def and_then_eq_Inr)

lemma decode_integrity_valid: "decode_integrity obj = Inr i \<Longrightarrow> check_integrity i = Inr ()"
  by (auto simp: decode_integrity_def and_then_eq_Inr)

lemma decode_outcome_valid: "decode_mutation_outcome obj = Inr m \<Longrightarrow> check_mutation_outcome m = Inr ()"
  by (auto simp: decode_mutation_outcome_def and_then_eq_Inr)

lemma decode_upsert_valid:
  "check_sync_limits l = Inr () \<Longrightarrow> decode_upsert l obj = Inr u \<Longrightarrow> check_upsert u = Inr () \<and> id_fits l (up_item_id u)"
  by (auto simp: decode_upsert_def and_then_eq_Inr dest: opaque_withinD)

lemma decode_tombstone_valid:
  "check_sync_limits l = Inr () \<Longrightarrow> decode_tombstone l obj = Inr t \<Longrightarrow> valid_tombstone t \<and> id_fits l (tb_item_id t)"
  by (auto simp: decode_tombstone_def and_then_eq_Inr valid_tombstone_def field_time dest: opaque_withinD)

lemma each_object:
  assumes "each (\<lambda>x. and_then (as_object x) f) xs = Inr ys" and "\<And>obj y. f obj = Inr y \<Longrightarrow> Q y"
  shows "\<forall>y\<in>set ys. Q y"
  by (rule each_all [OF assms(1)]) (auto simp: and_then_eq_Inr intro: assms(2))

lemma decode_snapshot_valid:
  assumes "check_sync_limits l = Inr ()" and "decode_snapshot l obj = Inr p"
  shows "valid_document (Snapshot p) \<and> within_limits l (Snapshot p)"
proof -
  obtain i xs g us c ig iv where opq: "opaque_within l i = Inr ()" and n: "\<not> sl_max_items_per_page l < int (length xs)"
    and us: "each (\<lambda>x. and_then (as_object x) (decode_upsert l)) xs = Inr us"
    and ig: "decode_integrity iv = Inr ig"
    and p: "check_snapshot p = Inr ()" "p = \<lparr>sp_dataset_id = i, sp_generation = g, sp_upserts = us, sp_next_cursor = c, sp_integrity = ig\<rparr>"
    using assms(2) by (auto simp: decode_snapshot_def and_then_eq_Inr field_Inr split: if_splits)
  have "\<forall>u\<in>set us. check_upsert u = Inr () \<and> id_fits l (up_item_id u)"
    by (rule each_object [OF us]) (rule decode_upsert_valid [OF assms(1)])
  with p opaque_withinD [OF opq assms(1)] n each_length [OF us] decode_integrity_valid [OF ig] show ?thesis by auto
qed

lemma decode_delta_valid:
  assumes "check_sync_limits l = Inr ()" and "decode_delta l obj = Inr p"
  shows "valid_document (Delta p) \<and> within_limits l (Delta p)"
proof -
  obtain i xs ys g us ts c ig iv where opq: "opaque_within l i = Inr ()"
    and n: "\<not> sl_max_items_per_page l < int (length xs) + int (length ys)"
    and us: "each (\<lambda>x. and_then (as_object x) (decode_upsert l)) xs = Inr us"
    and ts: "each (\<lambda>x. and_then (as_object x) (decode_tombstone l)) ys = Inr ts"
    and ig: "decode_integrity iv = Inr ig"
    and p: "check_delta p = Inr ()" "p = \<lparr>dp_dataset_id = i, dp_generation = g, dp_upserts = us, dp_tombstones = ts,
      dp_next_cursor = c, dp_integrity = ig\<rparr>"
    using assms(2) by (auto simp: decode_delta_def and_then_eq_Inr field_Inr split: if_splits)
  have "\<forall>u\<in>set us. check_upsert u = Inr () \<and> id_fits l (up_item_id u)"
    by (rule each_object [OF us]) (rule decode_upsert_valid [OF assms(1)])
  moreover have "\<forall>t\<in>set ts. valid_tombstone t \<and> id_fits l (tb_item_id t)"
    by (rule each_object [OF ts]) (rule decode_tombstone_valid [OF assms(1)])
  ultimately show ?thesis
    using p opaque_withinD [OF opq assms(1)] n each_length [OF us] each_length [OF ts] decode_integrity_valid [OF ig] by auto
qed

lemma decode_outcomes_valid:
  assumes "check_sync_limits l = Inr ()" and "decode_mutation_outcomes l obj = Inr m"
  shows "valid_document (Outcomes m) \<and> within_limits l (Outcomes m)"
proof -
  obtain i xs g ms where opq: "opaque_within l i = Inr ()" and n: "\<not> sl_max_mutations l < int (length xs)"
    and ms: "each (\<lambda>x. and_then (as_object x) decode_mutation_outcome) xs = Inr ms"
    and m: "check_mutation_outcomes m = Inr ()" "m = \<lparr>ms_dataset_id = i, ms_generation = g, ms_outcomes = ms\<rparr>"
    using assms(2) by (auto simp: decode_mutation_outcomes_def and_then_eq_Inr field_Inr split: if_splits)
  have "\<forall>x\<in>set ms. check_mutation_outcome x = Inr ()" by (rule each_object [OF ms]) (rule decode_outcome_valid)
  with m opaque_withinD [OF opq assms(1)] n each_length [OF ms] show ?thesis by auto
qed

lemma decode_response_valid:
  assumes "decode_bootstrap_response l obj = Inr r"
  shows "valid_document (Bootstrap_response r) \<and> within_limits l (Bootstrap_response r)"
proof -
  obtain xs ds s so lim lo where n: "\<not> sl_max_datasets l < int (length xs)"
    and ds: "each (\<lambda>x. and_then (as_object x) decode_dataset) xs = Inr ds"
    and s: "decode_session so = Inr s" "decode_limits lo = Inr lim"
    and r: "check_bootstrap_response r = Inr ()" "r = \<lparr>bp_session = s, bp_datasets = ds, bp_limits = lim\<rparr>"
    using assms by (auto simp: decode_bootstrap_response_def and_then_eq_Inr field_Inr split: if_splits)
  have "\<forall>d\<in>set ds. check_dataset d = Inr ()" by (rule each_object [OF ds]) (rule decode_dataset_valid)
  with r n each_length [OF ds] decode_session_valid [OF s(1)] decode_limits_valid [OF s(2)] show ?thesis by simp
qed

lemma decode_request_valid:
  assumes "check_sync_limits l = Inr ()" and "decode_bootstrap_request l obj = Inr r"
  shows "valid_document (Bootstrap_request r) \<and> within_limits l (Bootstrap_request r)"
proof -
  obtain i ds caps where opq: "opaque_within l i = Inr ()" and ids: "check_ids_with_limit ds l = Inr ()"
    and caps: "check_capabilities caps l = Inr ()" and n: "int (length ds) \<le> sl_max_datasets l"
    and r: "check_bootstrap_request r = Inr ()" "r = \<lparr>bq_client_id = i, bq_dataset_ids = ds, bq_capabilities = caps\<rparr>"
    using assms(2) by (auto simp: decode_bootstrap_request_def and_then_eq_Inr field_Inr as_strings_def dest: each_length split: if_splits)
  obtain us where us: "each (\<lambda>v. check_opaque v (Some (sl_max_opaque_id_bytes l))) ds = Inr us"
    using ids by (auto simp: check_ids_with_limit_def and_then_eq_Inr split: if_splits)
  obtain vs where vs: "each (\<lambda>v. check_opaque v (Some (min 64 (sl_max_opaque_id_bytes l)))) caps = Inr vs"
    and k: "int (length caps) \<le> sl_max_capabilities l"
    using caps by (auto simp: check_capabilities_def and_then_eq_Inr split: if_splits)
  have "id_fits l x" if "x \<in> set ds" for x
    using each_member [OF us that] opaque_withinD [OF _ assms(1)] by (auto simp: opaque_within_def)
  moreover have "id_fits l x" if "x \<in> set caps" for x
    using each_member [OF vs that] assms(1)
    by (auto simp: check_opaque_def id_fits_def check_sync_limits_def Let_def split: if_splits)
  ultimately show ?thesis using r n k opaque_withinD [OF opq assms(1)] by auto
qed

lemma decode_other_valid:
  "decode_session obj = Inr s \<Longrightarrow> valid_document (Session s) \<and> within_limits l (Session s)"
  "decode_dataset obj = Inr d \<Longrightarrow> valid_document (Dataset d) \<and> within_limits l (Dataset d)"
  "decode_reset obj = Inr r \<Longrightarrow> valid_document (Reset r) \<and> within_limits l (Reset r)"
  "decode_generation_mismatch obj = Inr g \<Longrightarrow> valid_document (Mismatch g) \<and> within_limits l (Mismatch g)"
  "decode_readiness obj = Inr x \<Longrightarrow> valid_document (Ready x) \<and> within_limits l (Ready x)"
  "decode_mutation_outcome obj = Inr m \<Longrightarrow> valid_document (Outcome m) \<and> within_limits l (Outcome m)"
  by (simp_all add: decode_session_valid decode_dataset_valid decode_outcome_valid)
    (auto simp: decode_reset_def decode_generation_mismatch_def decode_readiness_def and_then_eq_Inr field_time)

lemma decode_kind_cases:
  assumes "decode_kind l kind obj = Inr d"
  obtains (Session) x where "decode_session obj = Inr x" "d = Session x"
    | (Dataset) x where "decode_dataset obj = Inr x" "d = Dataset x"
    | (Request) x where "decode_bootstrap_request l obj = Inr x" "d = Bootstrap_request x"
    | (Response) x where "decode_bootstrap_response l obj = Inr x" "d = Bootstrap_response x"
    | (Snapshot) x where "decode_snapshot l obj = Inr x" "d = Snapshot x"
    | (Delta) x where "decode_delta l obj = Inr x" "d = Delta x"
    | (Reset) x where "decode_reset obj = Inr x" "d = Reset x"
    | (Mismatch) x where "decode_generation_mismatch obj = Inr x" "d = Mismatch x"
    | (Ready) x where "decode_readiness obj = Inr x" "d = Ready x"
    | (Outcome) x where "decode_mutation_outcome obj = Inr x" "d = Outcome x"
    | (Outcomes) x where "decode_mutation_outcomes l obj = Inr x" "d = Outcomes x"
proof -
  have pick: "(if c then and_then a (\<lambda>x. Inr (f x)) else e) = Inr d \<Longrightarrow> (\<exists>x. a = Inr x \<and> d = f x) \<or> e = Inr d"
    for c and a :: "'a res" and f :: "'a \<Rightarrow> sync_document" and e
    by (auto simp: and_then_eq_Inr split: if_splits)
  show thesis using assms unfolding decode_kind_def
    by (elim pick [THEN disjE] exE conjE) (rule that; assumption | simp)+
qed

lemma decode_kind_valid:
  assumes "check_sync_limits l = Inr ()" and "decode_kind l kind obj = Inr d"
  shows "valid_document d \<and> within_limits l d"
  using assms(2)
  by (rule decode_kind_cases; hypsubst; intro decode_other_valid decode_request_valid [OF assms(1)] decode_response_valid
      decode_snapshot_valid [OF assms(1)] decode_delta_valid [OF assms(1)] decode_outcomes_valid [OF assms(1)])

section \<open>Properties\<close>

text \<open>C8.  The codec is faithful.  What \<open>encode_sync_document\<close> produces for a valid document, \<open>decode_sync_document\<close> with the same limits
  turns into the same document, and it does so exactly when the document also respects the negotiated limits; otherwise it raises
  \<open>ValueError\<close>: the encoder enforces only the byte and nesting bounds.\<close>

theorem sync_document_round_trip:
  assumes "valid_document d" and "check_sync_limits l = Inr ()" and "encode_sync_document nt l d = Inr v"
  shows "decode_sync_document nt l v = (if within_limits l d then Inr d else Inl ValueError)"
proof -
  obtain kind payload where p: "encode_payload d = Inr (kind, payload)" and bounds: "document_bounds nt v l = Inr ()"
    and v: "v = object_json [(''protocol'', JStr sync_protocol), (''kind'', JStr kind), (''payload'', payload)]"
    using assms(3) by (auto simp: encode_sync_document_def and_then_eq_Inr Let_def)
  from payload_back [OF assms(1,2) p] show ?thesis
    unfolding decode_sync_document_def bounds by (simp add: v decode_bounded_document_def reads_back)
qed

text \<open>C39.  Whatever the decoder accepts, from any peer, is a valid document: every contract in it, nested ones included, passes the
  checks of its constructor, and the negotiated limits hold.\<close>

theorem decoded_sync_document_is_valid:
  assumes "check_sync_limits l = Inr ()" and "decode_sync_document nt l v = Inr d"
  shows "valid_document d \<and> within_limits l d"
proof -
  obtain kind obj where "decode_kind l kind obj = Inr d"
    using assms(2) by (auto simp: decode_sync_document_def decode_bounded_document_def and_then_eq_Inr field_Inr split: if_splits)
  then show ?thesis by (rule decode_kind_valid [OF assms(1)])
qed

definition plain_numbers :: number_text where
  "plain_numbers = \<lparr>nt_int = (\<lambda>n. Inr (str_of_int n)), nt_float = (\<lambda>_. ''0.0'')\<rparr>"

definition sample_delta :: delta_page where
  "sample_delta = \<lparr>dp_dataset_id = ''d'', dp_generation = 1, dp_upserts = [\<lparr>up_item_id = ''a'', up_revision = 2, up_value = JBool True\<rparr>],
     dp_tombstones = [\<lparr>tb_item_id = ''b'', tb_revision = 3, tb_deleted_at = sample_time\<rparr>], dp_next_cursor = None,
     dp_integrity = \<lparr>ig_algorithm = ''sha-256'', ig_digest = replicate 64 (CHR ''0''), ig_item_count = 2\<rparr>\<rparr>"

definition sample_delta_json :: json where
  "sample_delta_json = object_json [(''protocol'', JStr ''titect-sync/1''), (''kind'', JStr ''delta''), (''payload'', object_json
     [(''dataset_id'', JStr ''d''), (''generation'', JInt 1),
      (''upserts'', JList [object_json [(''item_id'', JStr ''a''), (''revision'', JInt 2), (''value'', JBool True)]]),
      (''tombstones'', JList [object_json [(''item_id'', JStr ''b''), (''revision'', JInt 3), (''deleted_at'', JStr ''2001-02-03T04:05:06.789Z'')]]),
      (''next_cursor'', JNull),
      (''integrity'', object_json [(''algorithm'', JStr ''sha-256''), (''digest'', JStr (replicate 64 (CHR ''0''))), (''item_count'', JInt 2)])])]"

lemma sample_delta_valid: "valid_document (Delta sample_delta)"
  by code_simp

lemma sample_delta_encoded: "encode_sync_document plain_numbers default_sync_limits (Delta sample_delta) = Inr sample_delta_json"
  by code_simp

lemma sample_delta_decoded: "decode_sync_document plain_numbers default_sync_limits sample_delta_json = Inr (Delta sample_delta)"
  by code_simp

theorem sync_document_round_trip_witness:
  "decode_sync_document plain_numbers default_sync_limits sample_delta_json = Inr (Delta sample_delta)"
proof -
  have "within_limits default_sync_limits (Delta sample_delta)" "check_sync_limits default_sync_limits = Inr ()" by code_simp+
  then show ?thesis using sync_document_round_trip [OF sample_delta_valid _ sample_delta_encoded] by simp
qed

theorem decoded_sync_document_is_valid_witness:
  "valid_document (Delta sample_delta) \<and> within_limits default_sync_limits (Delta sample_delta)"
  by (rule decoded_sync_document_is_valid [OF _ sample_delta_decoded]) code_simp

text \<open>The encoder takes the negotiated limits and does not enforce them: a request for more datasets than the session
  allows is encoded under limits under which its receiver rejects it.\<close>

lemma encoder_ignores_negotiated_limits:
  fixes l :: sync_limits and d :: sync_document
  defines "l \<equiv> default_sync_limits\<lparr>sl_max_datasets := 1\<rparr>"
    and "d \<equiv> Bootstrap_request \<lparr>bq_client_id = ''c'', bq_dataset_ids = [''a'', ''b''], bq_capabilities = []\<rparr>"
  shows "\<exists>v. encode_sync_document plain_numbers l d = Inr v \<and> decode_sync_document plain_numbers l v = Inl ValueError"
proof (intro exI conjI)
  show "encode_sync_document plain_numbers l d = Inr (object_json [(''protocol'', JStr ''titect-sync/1''), (''kind'', JStr ''bootstrap_request''),
      (''payload'', object_json [(''client_id'', JStr ''c''), (''dataset_ids'', JList [JStr ''a'', JStr ''b'']), (''capabilities'', JList [])])])"
    unfolding assms by code_simp
  show "decode_sync_document plain_numbers l (object_json [(''protocol'', JStr ''titect-sync/1''), (''kind'', JStr ''bootstrap_request''),
      (''payload'', object_json [(''client_id'', JStr ''c''), (''dataset_ids'', JList [JStr ''a'', JStr ''b'']), (''capabilities'', JList [])])])
      = Inl ValueError"
    unfolding assms by code_simp
qed

end
