(* ===== verification/SyncWire.thy ===== *)
theory SyncWire
  imports WireRoundTrip WireNumbers SyncCodec
begin

text \<open>
  Model of \<open>src/src/pytitect/sync/wire.py\<close>: page integrity over exact JSON documents, its negotiation, and the decoder of raw sync
  documents.  The SHA-256 digest is a parameter, and so is \<open>shape\<close>, the closed-field validation of the decoded document
  (\<open>_validate_shape\<close>): its projection is decoded by \<open>decode_bounded_document\<close>, which \<open>SyncCodec\<close> models over 8-bit strings while
  the strings here are all of Unicode.
\<close>

declare map_of_eq_Some_iff [simp del] Some_eq_map_of_iff [simp del]

abbreviation WireShapeError :: exn where
  "WireShapeError \<equiv> OtherError ''shape''"

abbreviation WireProfileError :: exn where
  "WireProfileError \<equiv> OtherError ''unsupported_profile''"

abbreviation WireIntegrityError :: exn where
  "WireIntegrityError \<equiv> OtherError ''integrity''"

section \<open>Pages\<close>

type_synonym mapping = "(ustring, exact) dict"

definition ascii :: "string \<Rightarrow> ustring" where
  "ascii s = map of_char s"

definition as_map :: "exact \<Rightarrow> mapping res" where
  "as_map v = (case v of XMap kvs \<Rightarrow> Inr kvs | _ \<Rightarrow> Inl WireShapeError)"

definition page_items :: "mapping \<Rightarrow> int res" where
  "page_items payload =
     (case dict_get payload (ascii ''upserts'') of
        Some (XTuple us) \<Rightarrow>
          (case dict_get payload (ascii ''tombstones'') of
             None \<Rightarrow> Inr (int (length us))
           | Some (XTuple ts) \<Rightarrow> Inr (int (length us) + int (length ts))
           | _ \<Rightarrow> Inl WireShapeError)
      | _ \<Rightarrow> Inl WireShapeError)"

definition is_page :: "mapping \<Rightarrow> bool" where
  "is_page envelope \<longleftrightarrow> dict_get envelope (ascii ''kind'') \<in> {Some (XStr (ascii ''snapshot'')), Some (XStr (ascii ''delta''))}"

definition page :: "wire_document \<Rightarrow> (mapping \<times> mapping \<times> int) res" where
  "page d =
     and_then (as_map (wd_value d)) (\<lambda>envelope.
     if dict_get envelope (ascii ''protocol'') \<noteq> Some (XStr (ascii sync_protocol)) \<or> \<not> is_page envelope then Inl WireShapeError
     else
       and_then (case dict_get envelope (ascii ''payload'') of None \<Rightarrow> Inl WireShapeError | Some p \<Rightarrow> as_map p) (\<lambda>payload.
       and_then (page_items payload) (\<lambda>n. Inr (envelope, payload, n))))"

section \<open>The exact JSON integrity\<close>

definition integrity_capability :: string where
  "integrity_capability = ''integrity-sha-256-exact-json-v1''"

definition integrity_prefix :: octets where
  "integrity_prefix = ascii (''titect-sync/1'' @ [CHR 0x00] @ integrity_capability @ [CHR 0x00])"

definition preimage :: "mapping \<Rightarrow> mapping \<Rightarrow> exact" where
  "preimage envelope payload = XMap (dict_set (ascii ''payload'') (XMap (dict_pop (ascii ''integrity'') payload)) envelope)"

definition page_digest :: "(octets \<Rightarrow> ustring) \<Rightarrow> wire_document \<Rightarrow> ustring res" where
  "page_digest sha d =
     and_then (page d) (\<lambda>(envelope, payload, _).
     and_then (WireDocument (preimage envelope payload) (wd_limits d)) (\<lambda>p.
     and_then (encode p) (\<lambda>encoded. Inr (sha (integrity_prefix @ encoded)))))"

definition integrity_value :: "ustring \<Rightarrow> exact_number \<Rightarrow> exact" where
  "integrity_value digest n = XMap [(ascii ''algorithm'', XStr (ascii ''sha-256'')), (ascii ''digest'', XStr digest),
     (ascii ''item_count'', XNumber n)]"

definition sealed_value :: "mapping \<Rightarrow> mapping \<Rightarrow> exact \<Rightarrow> exact" where
  "sealed_value envelope payload ig =
     XMap (dict_set (ascii ''payload'') (XMap (dict_set (ascii ''integrity'') ig payload)) envelope)"

definition seal ::
    "(wire_document \<Rightarrow> sync_limits \<Rightarrow> unit res) \<Rightarrow> (octets \<Rightarrow> ustring) \<Rightarrow> wire_document \<Rightarrow> wire_document res" where
  "seal shape sha d =
     and_then (page d) (\<lambda>(envelope, payload, count).
     and_then (page_digest sha d) (\<lambda>digest.
     and_then (mk_exact_number (digit_points (nat count))) (\<lambda>n.
     and_then (WireDocument (sealed_value envelope payload (integrity_value digest n)) (wd_limits d)) (\<lambda>r.
     let l = default_sync_limits\<lparr>sl_max_document_bytes := max_body_bytes (wd_limits d)\<rparr> in
     and_then (check_sync_limits l) (\<lambda>_.
     and_then (shape r l) (\<lambda>_. Inr r))))))"

definition lower_hex :: "nat \<Rightarrow> bool" where
  "lower_hex c \<longleftrightarrow> c \<in> set (ascii ''0123456789abcdef'')"

definition count_matches :: "exact \<Rightarrow> int \<Rightarrow> bool" where
  "count_matches v n \<longleftrightarrow> (case v of XNumber x \<Rightarrow> to_int x = Inr n | _ \<Rightarrow> False)"

definition verify :: "(octets \<Rightarrow> ustring) \<Rightarrow> wire_document \<Rightarrow> unit res" where
  "verify sha d =
     and_then (page d) (\<lambda>(_, payload, count).
     case dict_get payload (ascii ''integrity'') of
       Some (XMap ig) \<Rightarrow>
         if set (dict_keys ig) \<noteq> {ascii ''algorithm'', ascii ''digest'', ascii ''item_count''} then Inl WireIntegrityError
         else
           (case (dict_get ig (ascii ''algorithm''), dict_get ig (ascii ''digest''), dict_get ig (ascii ''item_count'')) of
              (Some alg, Some (XStr digest), Some n) \<Rightarrow>
                if alg \<noteq> XStr (ascii ''sha-256'') \<or> length digest \<noteq> 64 \<or> \<not> list_all lower_hex digest \<or> \<not> count_matches n count
                then Inl WireIntegrityError
                else and_then (page_digest sha d) (\<lambda>expected. if digest \<noteq> expected then Inl WireIntegrityError else Inr ())
            | _ \<Rightarrow> Inl WireIntegrityError)
     | _ \<Rightarrow> Inl WireIntegrityError)"

section \<open>Negotiation\<close>

record integrity_policy =
  ip_capability :: string
  ip_verify :: "wire_document \<Rightarrow> unit res"

definition ExactJsonSha256Integrity :: "(octets \<Rightarrow> ustring) \<Rightarrow> integrity_policy" where
  "ExactJsonSha256Integrity sha = \<lparr>ip_capability = integrity_capability, ip_verify = verify sha\<rparr>"

record integrity_selection =
  is_policy :: "integrity_policy option"
  is_capability :: "string option"

definition mk_selection :: "integrity_policy option \<Rightarrow> integrity_selection res" where
  "mk_selection p =
     (let capability = map_option ip_capability p in
      if p \<noteq> None \<and> capability = Some [] then Inl WireProfileError
      else Inr \<lparr>is_policy = p, is_capability = capability\<rparr>)"

definition acknowledge :: "integrity_selection \<Rightarrow> string option \<Rightarrow> unit res" where
  "acknowledge sel header =
     (if header \<noteq> is_capability sel \<or> map_option ip_capability (is_policy sel) \<noteq> is_capability sel
      then Inl WireIntegrityError else Inr ())"

fun register_policies :: "integrity_policy list \<Rightarrow> (string, integrity_policy) dict \<Rightarrow> (string, integrity_policy) dict res" where
  "register_policies [] reg = Inr reg"
| "register_policies (p # ps) reg =
     (if ip_capability p = [] \<or> dict_get reg (ip_capability p) \<noteq> None then Inl WireProfileError
      else register_policies ps (dict_set (ip_capability p) p reg))"

definition wants_integrity :: "string \<Rightarrow> bool" where
  "wants_integrity name \<longleftrightarrow> take 10 name = ''integrity-'' \<and> name \<noteq> ''integrity-sha-256''"

definition select_sync_integrity ::
    "string list \<Rightarrow> string option \<Rightarrow> integrity_policy list \<Rightarrow> integrity_selection res" where
  "select_sync_integrity requested header policies =
     and_then (register_policies policies []) (\<lambda>registry.
     let wanted = filter wants_integrity requested in
     if \<exists>name\<in>set wanted. dict_get registry name = None then Inl WireProfileError
     else
       and_then (case wanted of
           [] \<Rightarrow> mk_selection None
         | [name] \<Rightarrow> mk_selection (dict_get registry name)
         | _ \<Rightarrow> Inl WireProfileError) (\<lambda>sel.
       and_then (acknowledge sel header) (\<lambda>_. Inr sel)))"

section \<open>Decoding raw documents\<close>

record sync_wire_document =
  sw_document :: wire_document
  sw_limits :: sync_limits

definition SyncWireDocument ::
    "(wire_document \<Rightarrow> sync_limits \<Rightarrow> unit res) \<Rightarrow> wire_document \<Rightarrow> sync_limits \<Rightarrow> sync_wire_document res" where
  "SyncWireDocument shape d l = and_then (shape d l) (\<lambda>_. Inr \<lparr>sw_document = d, sw_limits = l\<rparr>)"

definition allocation :: "sync_limits \<Rightarrow> limits option \<Rightarrow> limits res" where
  "allocation l wire =
     and_then (case wire of
         Some w \<Rightarrow> Inr w
       | None \<Rightarrow> mk_limits (sl_max_document_bytes l) 32 (max 10000 (sl_max_items_per_page l * 8)) 64 (sl_max_document_bytes l)) (\<lambda>w.
     mk_limits (min (max_body_bytes w) (sl_max_document_bytes l)) (max_json_depth w) (max_json_items w) (max_metadata_items w)
       (max_string_length w))"

definition decode_sync_stream ::
    "(wire_document \<Rightarrow> sync_limits \<Rightarrow> unit res) \<Rightarrow> octets list \<Rightarrow> sync_limits option \<Rightarrow> limits option
     \<Rightarrow> integrity_selection option \<Rightarrow> string option \<Rightarrow> sync_wire_document res" where
  "decode_sync_stream shape chunks l wire integrity header =
     (let selected = (case l of None \<Rightarrow> default_sync_limits | Some x \<Rightarrow> x) in
      and_then (allocation selected wire) (\<lambda>lim.
      and_then (case integrity of None \<Rightarrow> mk_selection None | Some sel \<Rightarrow> Inr sel) (\<lambda>sel.
      and_then (acknowledge sel header) (\<lambda>_.
      and_then (decode_wire_stream chunks lim) (\<lambda>d.
      and_then (as_map (wd_value d)) (\<lambda>envelope.
      and_then (case is_policy sel of
          Some p \<Rightarrow> if is_page envelope then ip_verify p d else Inr ()
        | None \<Rightarrow> Inr ()) (\<lambda>_.
      SyncWireDocument shape d selected)))))))"

definition decode_sync_raw ::
    "(wire_document \<Rightarrow> sync_limits \<Rightarrow> unit res) \<Rightarrow> octets \<Rightarrow> sync_limits option \<Rightarrow> limits option
     \<Rightarrow> integrity_selection option \<Rightarrow> string option \<Rightarrow> sync_wire_document res" where
  "decode_sync_raw shape b l wire integrity header = decode_sync_stream shape [b] l wire integrity header"

section \<open>Values up to the order of their keys\<close>

lemma sort_key_map_of:
  assumes "dict_ok xs" "dict_ok ys" "map_of xs = map_of ys"
  shows "sort_key fst xs = sort_key fst (ys :: mapping)"
proof (rule map_sorted_distinct_set_unique)
  have "p \<in> set xs \<longleftrightarrow> p \<in> set ys" for p
    using dict_get_iff [OF assms(1), of "fst p" "snd p"] dict_get_iff [OF assms(2), of "fst p" "snd p"] assms(3) by simp
  then have "set xs = set ys" by blast
  then show "set (sort_key fst xs) = set (sort_key fst ys)" by simp
  have "inj_on fst (set xs)" using assms(1) by (simp add: distinct_map)
  with \<open>set xs = set ys\<close> show "inj_on fst (set (sort_key fst xs) \<union> set (sort_key fst ys))" by simp
  show "distinct (map fst (sort_key fst xs))" "distinct (map fst (sort_key fst ys))" using assms(1,2) by simp_all
qed simp_all

lemma map_of_sort_key: "dict_ok kvs \<Longrightarrow> map_of (sort_key fst kvs) = map_of (kvs :: mapping)"
proof
  fix k assume ok: "dict_ok kvs"
  then have "dict_ok (sort_key fst kvs)" by simp
  from dict_get_iff [OF this, of k] dict_get_iff [OF ok, of k]
  have "map_of (sort_key fst kvs) k = Some v \<longleftrightarrow> map_of kvs k = Some v" for v by simp
  then show "map_of (sort_key fst kvs) k = map_of kvs k" by (metis not_Some_eq)
qed

lemma map_of_sort_maps:
  "dict_ok (kvs :: mapping) \<Longrightarrow> map_of (map (\<lambda>(k, v). (k, sort_maps v)) (sort_key fst kvs)) k = map_option sort_maps (map_of kvs k)"
  using map_of_sort_key [of kvs] by (simp add: map_of_map)

lemma sort_maps_cong:
  assumes "dict_ok xs" "dict_ok ys" "\<And>k. map_option sort_maps (map_of xs k) = map_option sort_maps (map_of ys k)"
  shows "sort_maps (XMap xs) = sort_maps (XMap ys)"
proof -
  have "sort_key fst (map (\<lambda>(k, v). (k, sort_maps v)) xs) = sort_key fst (map (\<lambda>(k, v). (k, sort_maps v)) ys)"
    using assms by (intro sort_key_map_of) (simp_all add: map_keys_snd map_of_map fun_eq_iff del: map_map)
  then show ?thesis by simp
qed

lemma sort_maps_fits: "fits lim d (sort_maps v) \<longleftrightarrow> fits lim d v"
proof (induction v arbitrary: d)
  case (XMap kvs)
  then show ?case unfolding sort_maps_XMap by (fastforce simp: split_def)
qed auto

text \<open>Equal values up to the order of keys have the same bytes, or none.\<close>

lemma document_congruent:
  assumes "WireDocument v lim = Inr d" and "encode d = Inr b" and "well_formed v" "well_formed w" "sort_maps v = sort_maps w"
    and "0 \<le> max_body_bytes lim"
  shows "\<exists>d'. WireDocument w lim = Inr d' \<and> encode d' = Inr b"
proof -
  note dv = document_value [OF assms(1,3,6)]
  have same: "wire_text w = wire_text v" unfolding wire_text_def by (metis assms(5) pieces_sort_maps)
  have "wire_items w = wire_items v" using sort_maps_props [of v lim] sort_maps_props [of w lim] assms(5) by metis
  moreover have "fits lim 0 w" using sort_maps_fits [of lim 0 v] sort_maps_fits [of lim 0 w] assms(5) dv(2) by simp
  ultimately have w: "WireDocument w lim = Inr \<lparr>wd_value = w, wd_limits = lim\<rparr>"
    using dv assms(4,6) same by (intro document_exists) simp_all
  from document_value(4) [OF this assms(4,6)] show ?thesis using w same dv(4) assms(2) by simp
qed

section \<open>Pages and their keys\<close>

lemma ascii_inject [simp]: "ascii s = ascii t \<longleftrightarrow> s = t"
  by (auto simp: ascii_def inj_map_eq_map inj_def)

lemma ascii_points: "list_all point (ascii s)"
proof -
  have "point (of_char c)" for c :: char using nat_of_char_less_256 [of c] unfolding point_def by linarith
  then show ?thesis by (simp add: ascii_def list_all_iff)
qed

lemma pageE:
  assumes "page d = Inr (env, pl, n)"
  obtains "wd_value d = XMap env" "dict_get env (ascii ''protocol'') = Some (XStr (ascii sync_protocol))" "is_page env"
    "dict_get env (ascii ''payload'') = Some (XMap pl)" "page_items pl = Inr n"
  using assms by (auto simp: page_def and_then_eq_Inr as_map_def split: if_splits option.splits exact.splits)

lemma pageI:
  assumes "wd_value d = XMap env" "dict_get env (ascii ''protocol'') = Some (XStr (ascii sync_protocol))" "is_page env"
    "dict_get env (ascii ''payload'') = Some (XMap pl)" "page_items pl = Inr n"
  shows "page d = Inr (env, pl, n)"
  using assms by (simp add: page_def as_map_def)

lemma page_items_integrity: "page_items (dict_set (ascii ''integrity'') v pl) = page_items pl"
  unfolding page_items_def dict_simps by simp

lemma well_formed_set: "well_formed (XMap kvs) \<Longrightarrow> list_all point k \<Longrightarrow> well_formed v \<Longrightarrow> well_formed (XMap (dict_set k v kvs))"
  by (auto simp: set_dict_set)

lemma well_formed_pop: "well_formed (XMap kvs) \<Longrightarrow> well_formed (XMap (dict_pop k kvs))"
  by (auto simp: set_dict_pop)

lemma well_formed_get: "well_formed (XMap kvs) \<Longrightarrow> dict_get kvs k = Some v \<Longrightarrow> well_formed v"
  by (auto dest!: dict_get_in_set)

lemma page_well_formed:
  assumes "page d = Inr (env, pl, n)" and "well_formed (wd_value d)"
  shows "well_formed (XMap env)" "well_formed (XMap pl)" "dict_ok env" "dict_ok pl"
proof -
  have "wd_value d = XMap env" using assms(1) by (rule pageE)
  with assms(2) show "well_formed (XMap env)" by (simp only:)
  moreover have "dict_get env (ascii ''payload'') = Some (XMap pl)" using assms(1) by (rule pageE)
  ultimately show "well_formed (XMap pl)" by (rule well_formed_get)
  with \<open>well_formed (XMap env)\<close> show "dict_ok env" "dict_ok pl" by simp_all
qed

lemma preimage_well_formed: "well_formed (XMap env) \<Longrightarrow> well_formed (XMap pl) \<Longrightarrow> well_formed (preimage env pl)"
  unfolding preimage_def by (intro well_formed_set well_formed_pop ascii_points)

lemma preimage_congruent:
  assumes "dict_ok env" "dict_ok pl" "dict_ok env'" "dict_ok pl'"
    and "\<And>k. k \<noteq> ascii ''payload'' \<Longrightarrow> map_option sort_maps (dict_get env' k) = map_option sort_maps (dict_get env k)"
    and "\<And>k. k \<noteq> ascii ''integrity'' \<Longrightarrow> map_option sort_maps (dict_get pl' k) = map_option sort_maps (dict_get pl k)"
  shows "sort_maps (preimage env' pl') = sort_maps (preimage env pl)"
proof -
  have "sort_maps (XMap (dict_pop (ascii ''integrity'') pl')) = sort_maps (XMap (dict_pop (ascii ''integrity'') pl))"
    using assms(2,4,6) by (intro sort_maps_cong dict_ok_pop) (simp_all only: dict_simps split: if_split, simp)
  then show ?thesis
    using assms(1,3,5) unfolding preimage_def by (intro sort_maps_cong dict_ok_set) (simp_all only: dict_simps option.map split: if_split, simp)
qed

lemma page_digest_congruent:
  assumes "page d = Inr (env, pl, n)" "page d' = Inr (env', pl', n')" "well_formed (wd_value d)" "well_formed (wd_value d')"
    and "wd_limits d' = wd_limits d" "0 \<le> max_body_bytes (wd_limits d)"
    and "\<And>k. k \<noteq> ascii ''payload'' \<Longrightarrow> map_option sort_maps (dict_get env' k) = map_option sort_maps (dict_get env k)"
    and "\<And>k. k \<noteq> ascii ''integrity'' \<Longrightarrow> map_option sort_maps (dict_get pl' k) = map_option sort_maps (dict_get pl k)"
    and "page_digest sha d = Inr dg"
  shows "page_digest sha d' = Inr dg"
proof -
  note wf = page_well_formed [OF assms(1,3)] and wf' = page_well_formed [OF assms(2,4)]
  obtain p b where p: "WireDocument (preimage env pl) (wd_limits d) = Inr p" "encode p = Inr b" and dg: "dg = sha (integrity_prefix @ b)"
    using assms(9,1) by (auto simp: page_digest_def and_then_eq_Inr)
  have "sort_maps (preimage env pl) = sort_maps (preimage env' pl')"
    using preimage_congruent [OF wf(3,4) wf'(3,4) assms(7,8)] by simp
  from document_congruent [OF p preimage_well_formed [OF wf(1,2)] preimage_well_formed [OF wf'(1,2)] this assms(6)]
  show ?thesis using assms(2,5) dg by (auto simp: page_digest_def)
qed

lemma sort_maps_leaf [simp]: "sort_maps v = XStr s \<longleftrightarrow> v = XStr s"
  by (cases v) simp_all

lemma page_items_sorted:
  assumes "\<And>k. dict_get pl' k = map_option sort_maps (dict_get pl k)"
  shows "page_items pl' = page_items pl"
proof -
  have tuple: "(case map_option sort_maps x of Some (XTuple ts) \<Rightarrow> f (length ts) | None \<Rightarrow> g | _ \<Rightarrow> h)
      = (case x of Some (XTuple ts) \<Rightarrow> f (length ts) | None \<Rightarrow> g | _ \<Rightarrow> h)" for x f and g h :: "int res"
    by (cases x) (simp_all split: exact.split)
  show ?thesis unfolding page_items_def assms
    by (cases "dict_get pl (ascii ''upserts'')"; cases "dict_get pl (ascii ''tombstones'')"; simp split: exact.split)
qed

lemma page_sorted:
  assumes "page d = Inr (env, pl, n)" "well_formed (wd_value d)" "wd_value d' = sort_maps (wd_value d)"
  obtains env' pl' where "page d' = Inr (env', pl', n)"
    "\<forall>k. dict_get env' k = map_option sort_maps (dict_get env k)" "\<forall>k. dict_get pl' k = map_option sort_maps (dict_get pl k)"
proof -
  let ?sorted = "\<lambda>kvs :: mapping. map (\<lambda>(k, v). (k, sort_maps v)) (sort_key fst kvs)"
  note wf = page_well_formed [OF assms(1,2)]
  have env: "dict_get (?sorted env) k = map_option sort_maps (dict_get env k)" for k using wf(3) by (rule map_of_sort_maps)
  have pl: "dict_get (?sorted pl) k = map_option sort_maps (dict_get pl k)" for k using wf(4) by (rule map_of_sort_maps)
  show thesis
  proof (rule pageE [OF assms(1)])
    assume p: "wd_value d = XMap env" "dict_get env (ascii ''protocol'') = Some (XStr (ascii sync_protocol))" "is_page env"
      "dict_get env (ascii ''payload'') = Some (XMap pl)" "page_items pl = Inr n"
    have "page d' = Inr (?sorted env, ?sorted pl, n)"
    proof (rule pageI)
      show "wd_value d' = XMap (?sorted env)" using assms(3) p(1) by (simp only: sort_maps_XMap)
      show "dict_get (?sorted env) (ascii ''protocol'') = Some (XStr (ascii sync_protocol))" unfolding env p(2) by simp
      show "dict_get (?sorted env) (ascii ''payload'') = Some (XMap (?sorted pl))" unfolding env p(4) by (simp only: option.map sort_maps_XMap)
      show "is_page (?sorted env)" using p(3) unfolding is_page_def env by auto
      show "page_items (?sorted pl) = Inr n" using page_items_sorted [OF pl] p(5) by simp
    qed
    then show thesis using env pl by (intro that) blast+
  qed
qed

lemma mk_limits_Inr: "mk_limits b d i m l = Inr lim \<longleftrightarrow> 0 < b \<and> 0 < d \<and> 0 < i \<and> 0 < m \<and> 0 < l
    \<and> lim = \<lparr>max_body_bytes = b, max_json_depth = d, max_json_items = i, max_metadata_items = m, max_string_length = l\<rparr>"
  by (auto simp: mk_limits_def)

lemma allocation_body: "allocation l wire = Inr lim \<Longrightarrow> 0 \<le> max_body_bytes lim"
  by (auto simp: allocation_def and_then_eq_Inr mk_limits_Inr)

lemma count_number:
  assumes "0 \<le> n"
  shows "mk_exact_number (digit_points (nat n)) = Inr (ExactNumber (digit_points (nat n)))"
    "to_int (ExactNumber (digit_points (nat n))) = Inr n" "match_number (digit_points (nat n))"
proof -
  have "integer_token n = digit_points (nat n)" using assms integer_token_decimal [of n] by simp
  with integer_token_round_trip [of n] show "mk_exact_number (digit_points (nat n)) = Inr (ExactNumber (digit_points (nat n)))"
    "to_int (ExactNumber (digit_points (nat n))) = Inr n" by simp_all
  then show "match_number (digit_points (nat n))" by (simp add: mk_exact_number_def split: if_splits)
qed

lemma page_items_nonneg: "page_items pl = Inr n \<Longrightarrow> 0 \<le> n"
  by (auto simp: page_items_def split: option.splits exact.splits)

text \<open>A sealed page verifies, also after its keys were reordered.\<close>

lemma sealed_value_verifies:
  assumes sha: "\<And>b. length (sha b) = 64 \<and> list_all lower_hex (sha b)"
    and d: "page d = Inr (env, pl, n)" "page_digest sha d = Inr dg" and wf: "well_formed (wd_value d)"
    and body: "0 \<le> max_body_bytes (wd_limits d)"
    and e: "wd_value e = sort_maps (sealed_value env pl (integrity_value dg (ExactNumber (digit_points (nat n)))))" "wd_limits e = wd_limits d"
  shows "verify sha e = Inr () \<and> well_formed (sealed_value env pl (integrity_value dg (ExactNumber (digit_points (nat n)))))"
proof -
  define x where "x = ExactNumber (digit_points (nat n))"
  define ig where "ig = [(ascii ''algorithm'', XStr (ascii ''sha-256'')), (ascii ''digest'', XStr dg), (ascii ''item_count'', XNumber x)]"
  have igv: "integrity_value dg x = XMap ig" by (simp add: integrity_value_def ig_def)
  have n: "0 \<le> n" using d(1) by (auto elim!: pageE intro: page_items_nonneg)
  have dg: "length dg = 64" "list_all lower_hex dg"
    using d(2) sha by (auto simp: page_digest_def and_then_eq_Inr)
  have "list_all point dg"
  proof -
    have "point c" if "lower_hex c" for c
      using that ascii_points [of "''0123456789abcdef''"] unfolding lower_hex_def list_all_iff by blast
    with dg(2) show ?thesis by (auto simp: list_all_iff)
  qed
  then have wf_ig: "well_formed (XMap ig)" and ok: "dict_ok ig"
    using count_number(3) [OF n] ascii_points by (simp_all add: ig_def x_def)
  note wfd = page_well_formed [OF d(1) wf]
  define r where "r = \<lparr>wd_value = sealed_value env pl (XMap ig), wd_limits = wd_limits d\<rparr>"
  have wfr: "well_formed (wd_value r)"
    unfolding r_def sealed_value_def using wfd(1,2) wf_ig by (simp only: wire_document.simps) (intro well_formed_set ascii_points)
  let ?pl = "dict_set (ascii ''integrity'') (XMap ig) pl" and ?env = "dict_set (ascii ''payload'') (XMap (dict_set (ascii ''integrity'') (XMap ig) pl)) env"
  have pr: "page r = Inr (?env, ?pl, n)"
    using d(1) by (elim pageE) (intro pageI; simp add: r_def sealed_value_def is_page_def dict_simps page_items_integrity)
  have ev: "wd_value e = sort_maps (wd_value r)" using e(1) igv by (simp add: r_def x_def)
  obtain env' pl' where pe: "page e = Inr (env', pl', n)"
    and sorted: "\<forall>k. dict_get env' k = map_option sort_maps (dict_get ?env k)" "\<forall>k. dict_get pl' k = map_option sort_maps (dict_get ?pl k)"
    by (rule page_sorted [OF pr wfr ev])
  note env' = sorted(1) [THEN spec] and pl' = sorted(2) [THEN spec]
  have "well_formed (wd_value e)" using sort_maps_props [of "wd_value r"] wfr e(1) igv by (simp add: r_def x_def)
  then have digest: "page_digest sha e = Inr dg"
  proof (intro page_digest_congruent [OF d(1) pe wf _ e(2) body _ _ d(2)])
    have idem: "sort_maps (sort_maps v) = sort_maps v" for v using sort_maps_props by blast
    show "map_option sort_maps (dict_get env' k) = map_option sort_maps (dict_get env k)" if "k \<noteq> ascii ''payload''" for k
      using that unfolding env' by (cases "dict_get env k") (simp_all add: dict_simps idem)
    show "map_option sort_maps (dict_get pl' k) = map_option sort_maps (dict_get pl k)" if "k \<noteq> ascii ''integrity''" for k
      using that unfolding pl' by (cases "dict_get pl k") (simp_all add: dict_simps idem)
  qed
  define ig' where "ig' = map (\<lambda>(k, v). (k, sort_maps v)) (sort_key fst ig)"
  have "dict_get pl' (ascii ''integrity'') = Some (XMap ig')"
    unfolding pl' ig'_def by (simp only: dict_simps refl if_True option.map sort_maps_XMap)
  moreover have "dict_get ig' k = map_option sort_maps (dict_get ig k)" for k unfolding ig'_def using ok by (rule map_of_sort_maps)
  moreover have "set (dict_keys ig') = {ascii ''algorithm'', ascii ''digest'', ascii ''item_count''}"
  proof -
    have "set (dict_keys ig') = set (dict_keys ig)" by (simp add: ig'_def image_image split_def)
    then show ?thesis by (simp add: ig_def insert_commute)
  qed
  ultimately have "verify sha e = Inr ()"
    using pe digest dg count_number(2) [OF n] by (simp add: verify_def ig_def count_matches_def x_def)
  with wfr igv show ?thesis by (simp add: r_def x_def)
qed

lemma sealE:
  assumes "seal shape sha d = Inr r"
  obtains env pl n dg x where "page d = Inr (env, pl, n)" "page_digest sha d = Inr dg" "mk_exact_number (digit_points (nat n)) = Inr x"
    "WireDocument (sealed_value env pl (integrity_value dg x)) (wd_limits d) = Inr r"
  using assms by (auto simp: seal_def and_then_eq_Inr Let_def)

text \<open>What a page claims and what its digest covers.\<close>

definition claimed_digest :: "wire_document \<Rightarrow> ustring option" where
  "claimed_digest d =
     (case page d of
        Inr (_, payload, _) \<Rightarrow>
          (case dict_get payload (ascii ''integrity'') of
             Some (XMap ig) \<Rightarrow> (case dict_get ig (ascii ''digest'') of Some (XStr s) \<Rightarrow> Some s | _ \<Rightarrow> None)
           | _ \<Rightarrow> None)
      | Inl _ \<Rightarrow> None)"

definition page_content :: "wire_document \<Rightarrow> exact" where
  "page_content d = (case page d of Inr (envelope, payload, _) \<Rightarrow> preimage envelope payload | Inl _ \<Rightarrow> wd_value d)"

definition covered_bytes :: "wire_document \<Rightarrow> octets res" where
  "covered_bytes d = and_then (WireDocument (page_content d) (wd_limits d)) encode"

lemma verifyE:
  assumes "verify sha d = Inr ()"
  obtains b env pl n where "page d = Inr (env, pl, n)" "covered_bytes d = Inr b"
    "claimed_digest d = Some (sha (integrity_prefix @ b))" "page_content d = preimage env pl"
proof -
  obtain env pl n where p: "page d = Inr (env, pl, n)" using assms by (auto simp: verify_def and_then_eq_Inr)
  have body: "(case x of Some (XMap ig) \<Rightarrow> f ig | _ \<Rightarrow> Inl e) = Inr u \<Longrightarrow> \<exists>ig. x = Some (XMap ig) \<and> f ig = Inr u"
    for x and f :: "mapping \<Rightarrow> unit res" and e u by (auto split: option.splits exact.splits)
  have parts: "(case x of None \<Rightarrow> Inl e | Some alg \<Rightarrow>
        (case y of None \<Rightarrow> Inl e | Some (XStr dg) \<Rightarrow> (case z of None \<Rightarrow> Inl e | Some m \<Rightarrow> f alg dg m) | Some _ \<Rightarrow> Inl e)) = Inr u
      \<Longrightarrow> \<exists>alg dg m. y = Some (XStr dg) \<and> f alg dg m = Inr u"
    for x :: "exact option" and y z :: "exact option" and f :: "exact \<Rightarrow> ustring \<Rightarrow> exact \<Rightarrow> unit res" and e u
    by (cases x; cases y; cases z) (auto split: exact.splits)
  obtain ig dg where ig: "dict_get pl (ascii ''integrity'') = Some (XMap ig)" "dict_get ig (ascii ''digest'') = Some (XStr dg)"
    and dg: "page_digest sha d = Inr dg"
    using assms unfolding verify_def p and_then_simps prod.case
    by (auto dest!: body parts simp: and_then_eq_Inr split: if_split_asm)
  obtain b where "covered_bytes d = Inr b" "dg = sha (integrity_prefix @ b)"
    using dg p by (auto simp: page_digest_def and_then_eq_Inr covered_bytes_def page_content_def)
  with p ig show thesis by (intro that [of env pl n b]) (simp_all add: claimed_digest_def page_content_def)
qed

lemma registered_policy:
  "register_policies ps reg = Inr reg' \<Longrightarrow> dict_get reg' name = Some p
   \<Longrightarrow> (p \<in> set ps \<and> ip_capability p = name) \<or> dict_get reg name = Some p"
proof (induction ps arbitrary: reg)
  case (Cons a ps)
  from Cons.prems(1) have "register_policies ps (dict_set (ip_capability a) a reg) = Inr reg'" by (simp split: if_splits)
  from Cons.IH [OF this Cons.prems(2)] show ?case by (auto simp: dict_simps split: if_splits)
qed simp

section \<open>Properties\<close>

text \<open>C9.  What a producer seals, a consumer accepts: the bytes of a sealed page, received in any pieces, decode under the same
  allocation to that page (its mappings in key order), and the integrity verifies.\<close>

theorem sealed_page_is_accepted:
  assumes "\<And>b. length (sha b) = 64 \<and> list_all lower_hex (sha b)" and "well_formed (wd_value d)"
    and "allocation l wire = Inr (wd_limits d)"
    and "seal shape sha d = Inr r" and "encode r = Inr b" and "concat chunks = b"
    and "mk_selection (Some (ExactJsonSha256Integrity sha)) = Inr sel"
    and "shape (r\<lparr>wd_value := sort_maps (wd_value r)\<rparr>) l = Inr ()"
  shows "decode_sync_stream shape chunks (Some l) wire (Some sel) (Some integrity_capability)
    = Inr \<lparr>sw_document = r\<lparr>wd_value := sort_maps (wd_value r)\<rparr>, sw_limits = l\<rparr>"
proof (rule sealE [OF assms(4)])
  fix env pl n dg x
  assume p: "page d = Inr (env, pl, n)" "page_digest sha d = Inr dg" "mk_exact_number (digit_points (nat n)) = Inr x"
    "WireDocument (sealed_value env pl (integrity_value dg x)) (wd_limits d) = Inr r"
  let ?v = "sealed_value env pl (integrity_value dg x)"
  note body = allocation_body [OF assms(3)]
  have "0 \<le> n" using p(1) by (auto elim!: pageE intro: page_items_nonneg)
  then have x: "x = ExactNumber (digit_points (nat n))" using p(3) count_number(1) [of n] by simp
  define e where "e = \<lparr>wd_value = sort_maps ?v, wd_limits = wd_limits d\<rparr>"
  have ver: "verify sha e = Inr ()" and wf: "well_formed ?v"
    using sealed_value_verifies [OF assms(1) p(1,2) assms(2) body, of e] by (simp_all add: e_def x)
  have r: "r = \<lparr>wd_value = ?v, wd_limits = wd_limits d\<rparr>" using document_value(1) [OF p(4) wf body] .
  have dec: "decode_wire_stream chunks (wd_limits d) = Inr e"
    unfolding e_def using p(4) wf body assms(5,6) by (rule decode_encoded)
  have "sel = \<lparr>is_policy = Some (ExactJsonSha256Integrity sha), is_capability = Some integrity_capability\<rparr>"
    using assms(7) by (auto simp: mk_selection_def ExactJsonSha256Integrity_def Let_def split: if_splits)
  moreover have "\<exists>kvs. wd_value e = XMap kvs" by (simp add: e_def sealed_value_def)
  ultimately show ?thesis using ver dec assms(3,8)
    by (auto simp: decode_sync_stream_def acknowledge_def ExactJsonSha256Integrity_def as_map_def SyncWireDocument_def r e_def)
qed


text \<open>C10.  No downgrade: a client that asked for an exact integrity continues only with the policy of exactly that capability, acknowledged
  by the server, and every page it then accepts was verified by that policy.\<close>

theorem requested_integrity_is_enforced:
  assumes "name \<in> set requested" and "wants_integrity name"
    and "select_sync_integrity requested header policies = Inr sel"
    and "decode_sync_stream shape chunks l wire (Some sel) ack = Inr w"
  shows "header = Some name \<and> ack = Some name
    \<and> (\<exists>p\<in>set policies. ip_capability p = name
        \<and> (\<forall>envelope. wd_value (sw_document w) = XMap envelope \<and> is_page envelope \<longrightarrow> ip_verify p (sw_document w) = Inr ()))"
proof -
  obtain reg where reg: "register_policies policies [] = Inr reg"
    and known: "\<forall>x\<in>set (filter wants_integrity requested). dict_get reg x \<noteq> None"
    and one: "(case filter wants_integrity requested of [] \<Rightarrow> mk_selection None | [x] \<Rightarrow> mk_selection (dict_get reg x)
        | _ \<Rightarrow> Inl WireProfileError) = Inr sel" and ack: "acknowledge sel header = Inr ()"
    using assms(3) by (auto simp: select_sync_integrity_def and_then_eq_Inr Let_def split: if_splits)
  have member: "name \<in> set (filter wants_integrity requested)" using assms(1,2) by simp
  have wanted: "filter wants_integrity requested = [name]"
  proof (cases "filter wants_integrity requested")
    case (Cons x xs)
    with one have "xs = []" by (cases xs) simp_all
    with Cons member show ?thesis by simp
  qed (use member in simp)
  then obtain p where p: "dict_get reg name = Some p" using known by auto
  have pol: "p \<in> set policies" "ip_capability p = name" using registered_policy [OF reg p] by simp_all
  have sel: "sel = \<lparr>is_policy = Some p, is_capability = Some name\<rparr>"
    using one wanted p pol by (auto simp: mk_selection_def Let_def split: if_splits)
  obtain d env where ackd: "acknowledge sel ack = Inr ()" and env: "as_map (wd_value d) = Inr env"
    and ver: "(if is_page env then ip_verify p d else Inr ()) = Inr ()" and w: "sw_document w = d"
    using assms(4) by (auto simp: decode_sync_stream_def and_then_eq_Inr Let_def SyncWireDocument_def sel)
  have "ip_verify p d = Inr ()" if "wd_value d = XMap envelope" "is_page envelope" for envelope
    using env ver that by (simp add: as_map_def)
  moreover have "ack = Some name" using ackd by (auto simp: sel acknowledge_def split: if_splits)
  moreover have "header = Some name" using ack by (auto simp: sel acknowledge_def split: if_splits)
  ultimately show ?thesis using pol w by blast
qed

section \<open>Witnesses\<close>

definition zero_digest :: "octets \<Rightarrow> ustring" where
  "zero_digest b = replicate 64 ZERO"

lemma zeros [simp]: "list_all lower_hex (replicate 64 ZERO)" "list_all point (replicate 64 ZERO)" "\<not> list_ex surrogate (replicate 64 ZERO)"
  by (simp_all add: list_all_iff list_ex_iff lower_hex_def ascii_def point_def surrogate_def)

definition sample_wire_limits :: limits where
  "sample_wire_limits = \<lparr>max_body_bytes = 1048576, max_json_depth = 32, max_json_items = 10000, max_metadata_items = 64, max_string_length = 1048576\<rparr>"

definition sample_payload :: mapping where
  "sample_payload = [(ascii ''upserts'', XTuple [XNull])]"

definition sample_envelope :: mapping where
  "sample_envelope = [(ascii ''protocol'', XStr (ascii sync_protocol)), (ascii ''kind'', XStr (ascii ''snapshot'')), (ascii ''payload'', XMap sample_payload)]"

definition sample_page :: wire_document where
  "sample_page = \<lparr>wd_value = XMap sample_envelope, wd_limits = sample_wire_limits\<rparr>"

definition sample_sealed :: exact where
  "sample_sealed = sealed_value sample_envelope sample_payload (integrity_value (replicate 64 ZERO) (ExactNumber [49]))"

lemma sample_alloc: "allocation default_sync_limits None = Inr sample_wire_limits"
  by (simp add: allocation_def mk_limits_def default_sync_limits_def sample_wire_limits_def)

lemma sample_wf: "well_formed (XMap sample_envelope)"
  by (simp add: sample_envelope_def sample_payload_def ascii_points sync_protocol_def)

lemma sample_page_page: "page sample_page = Inr (sample_envelope, sample_payload, 1)"
  by (simp add: page_def as_map_def sample_page_def is_page_def page_items_def sample_envelope_def sample_payload_def)

lemma sample_preimage: "preimage sample_envelope sample_payload = XMap sample_envelope"
  by (simp add: preimage_def sample_envelope_def sample_payload_def)

lemma sample_document_ok: "WireDocument (XMap sample_envelope) sample_wire_limits = Inr \<lparr>wd_value = XMap sample_envelope, wd_limits = sample_wire_limits\<rparr>"
proof (rule document_exists [OF sample_wf])
  show "fits sample_wire_limits 0 (XMap sample_envelope)"
    by (simp add: sample_envelope_def sample_payload_def sample_wire_limits_def text_fits_def ascii_def surrogate_def sync_protocol_def)
  show "wire_items (XMap sample_envelope) \<le> max_json_items sample_wire_limits"
    by (simp add: sample_envelope_def sample_payload_def sample_wire_limits_def)
  have t: "wire_text (XMap sample_envelope) = ascii (''{'' @ [CHR 34] @ ''kind'' @ [CHR 34] @ '':'' @ [CHR 34] @ ''snapshot'' @ [CHR 34] @ '','' @ [CHR 34] @ ''payload'' @ [CHR 34] @ '':{'' @ [CHR 34] @ ''upserts'' @ [CHR 34] @ '':[null]},'' @ [CHR 34] @ ''protocol'' @ [CHR 34] @ '':'' @ [CHR 34] @ ''titect-sync/1'' @ [CHR 34] @ ''}'')"
    by (simp add: wire_text_def sample_envelope_def sample_payload_def ascii_def sync_protocol_def dumps_string_def escape_char_def)
  show "\<not> list_ex surrogate (wire_text (XMap sample_envelope))" unfolding t by (simp add: ascii_def surrogate_def)
  show "int (length (utf8_text (wire_text (XMap sample_envelope)))) \<le> max_body_bytes sample_wire_limits"
    unfolding t by (simp add: ascii_def sample_wire_limits_def utf8_text_def encode_point_def)
qed (simp add: sample_wire_limits_def)

lemma sample_sealed_wf: "well_formed sample_sealed"
  by (simp add: sample_sealed_def sealed_value_def integrity_value_def sample_envelope_def sample_payload_def ascii_points sync_protocol_def
      match_number_def drop_minus_def is_digit_def)

lemma sample_sealed_ok: "WireDocument sample_sealed sample_wire_limits = Inr \<lparr>wd_value = sample_sealed, wd_limits = sample_wire_limits\<rparr>"
proof (rule document_exists [OF sample_sealed_wf])
  note sealed = sample_sealed_def sealed_value_def integrity_value_def sample_envelope_def sample_payload_def
  show "fits sample_wire_limits 0 sample_sealed"
    by (simp add: sealed sample_wire_limits_def text_fits_def ascii_def surrogate_def sync_protocol_def)
  show "wire_items sample_sealed \<le> max_json_items sample_wire_limits" by (simp add: sealed sample_wire_limits_def)
  have t: "wire_text sample_sealed = ascii (''{'' @ [CHR 34] @ ''kind'' @ [CHR 34] @ '':'' @ [CHR 34] @ ''snapshot'' @ [CHR 34] @ '',''
      @ [CHR 34] @ ''payload'' @ [CHR 34] @ '':{'' @ [CHR 34] @ ''integrity'' @ [CHR 34] @ '':{'' @ [CHR 34] @ ''algorithm'' @ [CHR 34] @ '':''
      @ [CHR 34] @ ''sha-256'' @ [CHR 34] @ '','' @ [CHR 34] @ ''digest'' @ [CHR 34] @ '':'' @ [CHR 34]) @ replicate 64 ZERO
      @ ascii ([CHR 34] @ '','' @ [CHR 34] @ ''item_count'' @ [CHR 34] @ '':1},'' @ [CHR 34] @ ''upserts'' @ [CHR 34] @ '':[null]},''
      @ [CHR 34] @ ''protocol'' @ [CHR 34] @ '':'' @ [CHR 34] @ ''titect-sync/1'' @ [CHR 34] @ ''}'')"
    by (simp add: wire_text_def sealed ascii_def sync_protocol_def dumps_string_def escape_char_def)
  show "\<not> list_ex surrogate (wire_text sample_sealed)" unfolding t by (simp add: ascii_def surrogate_def)
  show "int (length (utf8_text (wire_text sample_sealed))) \<le> max_body_bytes sample_wire_limits"
    unfolding t by (simp add: ascii_def sample_wire_limits_def utf8_text_def encode_point_def)
qed (simp add: sample_wire_limits_def)

lemma sample_body: "0 \<le> max_body_bytes sample_wire_limits"
  by (simp add: sample_wire_limits_def)

lemma sample_covered:
  "and_then (WireDocument (XMap sample_envelope) sample_wire_limits) encode = Inr (utf8_text (wire_text (XMap sample_envelope)))"
  using document_value(4) [OF sample_document_ok sample_wf sample_body] by (simp add: sample_document_ok)

lemma sample_digest: "page_digest zero_digest sample_page = Inr (replicate 64 ZERO)"
  using sample_covered
  by (simp add: page_digest_def sample_page_page sample_preimage sample_document_ok) (simp add: sample_page_def sample_document_ok zero_digest_def)

lemma sample_seal: "seal (\<lambda>_ _. Inr ()) zero_digest sample_page = Inr \<lparr>wd_value = sample_sealed, wd_limits = sample_wire_limits\<rparr>"
proof -
  have "digit_points 1 = [49]" by (simp add: digit_points.simps)
  moreover have "mk_exact_number [49] = Inr (ExactNumber [49])" by (simp add: mk_exact_number_def match_number_def drop_minus_def is_digit_def)
  moreover have "check_sync_limits (default_sync_limits\<lparr>sl_max_document_bytes := max_body_bytes sample_wire_limits\<rparr>) = Inr ()"
    by (simp add: check_sync_limits_def default_sync_limits_def sample_wire_limits_def)
  moreover have "wd_limits sample_page = sample_wire_limits" by (simp add: sample_page_def)
  ultimately show ?thesis
    using sample_sealed_ok by (simp add: seal_def sample_page_page sample_digest Let_def flip: sample_sealed_def)
qed

lemma zero_digest_hex: "length (zero_digest b) = 64 \<and> list_all lower_hex (zero_digest b)"
  by (simp add: zero_digest_def)

theorem sealed_page_is_accepted_witness:
  "\<exists>b. encode \<lparr>wd_value = sample_sealed, wd_limits = sample_wire_limits\<rparr> = Inr b
    \<and> decode_sync_stream (\<lambda>_ _. Inr ()) [take 10 b, drop 10 b] (Some default_sync_limits) None
        (Some \<lparr>is_policy = Some (ExactJsonSha256Integrity zero_digest), is_capability = Some integrity_capability\<rparr>)
        (Some integrity_capability)
      = Inr \<lparr>sw_document = \<lparr>wd_value = sort_maps sample_sealed, wd_limits = sample_wire_limits\<rparr>, sw_limits = default_sync_limits\<rparr>"
proof -
  let ?r = "\<lparr>wd_value = sample_sealed, wd_limits = sample_wire_limits\<rparr>"
  obtain b where b: "encode ?r = Inr b" using document_value(4) [OF sample_sealed_ok sample_sealed_wf sample_body] by blast
  have wf: "well_formed (wd_value sample_page)" and lim: "allocation default_sync_limits None = Inr (wd_limits sample_page)"
    using sample_wf sample_alloc by (simp_all add: sample_page_def)
  have sel: "mk_selection (Some (ExactJsonSha256Integrity zero_digest))
      = Inr \<lparr>is_policy = Some (ExactJsonSha256Integrity zero_digest), is_capability = Some integrity_capability\<rparr>"
    by (simp add: mk_selection_def ExactJsonSha256Integrity_def integrity_capability_def)
  have "concat [take 10 b, drop 10 b] = b" by simp
  from sealed_page_is_accepted [OF zero_digest_hex wf lim sample_seal b this sel] b show ?thesis by simp
qed

definition sample_with :: "mapping \<Rightarrow> wire_document" where
  "sample_with payload = \<lparr>wd_value = XMap (dict_set (ascii ''payload'') (XMap payload) sample_envelope), wd_limits = sample_wire_limits\<rparr>"

abbreviation sample_integrity :: exact where
  "sample_integrity \<equiv> integrity_value (replicate 64 ZERO) (ExactNumber [49])"

lemma sample_with_verified:
  assumes "dict_get pl (ascii ''integrity'') = Some sample_integrity" and "dict_pop (ascii ''integrity'') pl = sample_payload"
  shows "verify zero_digest (sample_with pl) = Inr ()"
    and "page_content (sample_with pl) = XMap sample_envelope" and "claimed_digest (sample_with pl) = Some (replicate 64 ZERO)"
proof -
  let ?env = "dict_set (ascii ''payload'') (XMap pl) sample_envelope"
  have "dict_get pl k = dict_get sample_payload k" if "k \<noteq> ascii ''integrity''" for k
    using that dict_get_pop [of "ascii ''integrity''" pl k] assms(2) by simp
  then have "page_items pl = Inr 1" by (simp add: page_items_def) (simp add: sample_payload_def)
  then have page: "page (sample_with pl) = Inr (?env, pl, 1)"
    by (intro pageI) (simp_all add: sample_with_def sample_envelope_def is_page_def)
  have pre: "preimage ?env pl = XMap sample_envelope" by (simp add: preimage_def assms(2) sample_envelope_def)
  have lim: "wd_limits (sample_with pl) = sample_wire_limits" by (simp add: sample_with_def)
  have digest: "page_digest zero_digest (sample_with pl) = Inr (replicate 64 ZERO)"
    using sample_covered by (simp add: page_digest_def page pre lim sample_document_ok zero_digest_def)
  have "to_int (ExactNumber [49]) = Inr 1"
    by (simp add: to_int_def match_integer_def drop_minus_def is_digit_def int_of_chunks.simps int_of_digits_def)
  then show "verify zero_digest (sample_with pl) = Inr ()"
    by (simp add: verify_def page assms(1) integrity_value_def digest count_matches_def insert_commute)
  show "page_content (sample_with pl) = XMap sample_envelope" by (simp add: page_content_def page pre)
  show "claimed_digest (sample_with pl) = Some (replicate 64 ZERO)"
    by (simp add: claimed_digest_def page assms(1) integrity_value_def)
qed


theorem requested_integrity_is_enforced_witness:
  "\<exists>p\<in>set [\<lparr>ip_capability = ''integrity-a'', ip_verify = (\<lambda>_. Inr ())\<rparr>, ExactJsonSha256Integrity zero_digest]. ip_capability p = ''integrity-a''"
proof -
  let ?p = "\<lparr>ip_capability = ''integrity-a'', ip_verify = (\<lambda>_. Inr ())\<rparr>"
  let ?sel = "\<lparr>is_policy = Some ?p, is_capability = Some ''integrity-a''\<rparr>"
  let ?b = "utf8_text (wire_text (XMap sample_envelope))"
  have sel: "select_sync_integrity [''deltas'', ''integrity-a''] (Some ''integrity-a'') [?p, ExactJsonSha256Integrity zero_digest] = Inr ?sel"
    by (simp add: select_sync_integrity_def wants_integrity_def ExactJsonSha256Integrity_def integrity_capability_def mk_selection_def
        acknowledge_def)
  have "encode \<lparr>wd_value = XMap sample_envelope, wd_limits = sample_wire_limits\<rparr> = Inr ?b"
    using sample_covered by (simp add: sample_document_ok)
  from decode_encoded [OF sample_document_ok sample_wf sample_body this, of "[?b]"]
  have "decode_wire_stream [?b] sample_wire_limits = Inr \<lparr>wd_value = sort_maps (XMap sample_envelope), wd_limits = sample_wire_limits\<rparr>" by simp
  then obtain w where "decode_sync_stream (\<lambda>_ _. Inr ()) [?b] (Some default_sync_limits) None (Some ?sel) (Some ''integrity-a'') = Inr w"
    by (simp add: decode_sync_stream_def sample_alloc acknowledge_def as_map_def SyncWireDocument_def)
  from requested_integrity_is_enforced [OF _ _ sel this, of "''integrity-a''"] show ?thesis by (auto simp: wants_integrity_def)
qed

end
