(* ===== verification/Cursors.thy ===== *)
theory Cursors
  imports Encoding Trace SyncContracts
begin

text \<open>
  Model of \<open>src/src/pytitect/sync/cursors.py\<close>: authenticated opaque cursors \<open>protected.body.auth\<close>.  HMAC, the AEAD cipher of the
  package \<open>cryptography\<close> (absent when it is not installed), the RFC 8785 serializer and the parser of the module \<open>json\<close> are fields
  of the codec, like the key resolver; the nonce that is drawn and the reading of the clock are arguments.  Byte strings are lists of
  8-bit characters.  Shown: issued cursors are accepted in their context, only authentic cursors are, and in one context only.
\<close>

declare map_of_eq_Some_iff [simp del] Some_eq_map_of_iff [simp del]

section \<open>Codec and results\<close>

datatype cursor_algorithm = HS256 | A256GCM

record cursor_limits =
  cl_max_token_bytes :: int
  cl_max_payload_bytes :: int
  cl_max_context_length :: int

definition mk_cursor_limits :: "int \<Rightarrow> int \<Rightarrow> int \<Rightarrow> cursor_limits res" where
  "mk_cursor_limits t p c =
     (if t \<le> 0 \<or> p \<le> 0 \<or> c \<le> 0 then Inl ValueError
      else Inr \<lparr>cl_max_token_bytes = t, cl_max_payload_bytes = p, cl_max_context_length = c\<rparr>)"

definition default_cursor_limits :: cursor_limits where
  "default_cursor_limits = \<lparr>cl_max_token_bytes = 16384, cl_max_payload_bytes = 8192, cl_max_context_length = 255\<rparr>"

datatype cursor_result = CursorDecoded string string "datetime option" | CursorRejected string

record aead =
  ae_encrypt :: "string \<Rightarrow> string \<Rightarrow> string \<Rightarrow> string \<Rightarrow> string"
  ae_decrypt :: "string \<Rightarrow> string \<Rightarrow> string \<Rightarrow> string \<Rightarrow> string option"

record cursor_codec =
  cc_keys :: "string \<Rightarrow> cursor_algorithm \<Rightarrow> string option"
  cc_limits :: cursor_limits
  cc_hmac :: "string \<Rightarrow> string \<Rightarrow> string"
  cc_aead :: "aead option"
  cc_rfc8785 :: "(json \<Rightarrow> string res) option"
  cc_loads :: "string \<Rightarrow> json res"

definition OpaqueCursorCodec ::
    "(string \<times> string) list + (string \<Rightarrow> cursor_algorithm \<Rightarrow> string option) \<Rightarrow> cursor_limits option
     \<Rightarrow> (string \<Rightarrow> string \<Rightarrow> string) \<Rightarrow> aead option \<Rightarrow> (json \<Rightarrow> string res) option \<Rightarrow> (string \<Rightarrow> json res) \<Rightarrow> cursor_codec" where
  "OpaqueCursorCodec keys l hmac_sha256 cipher rfc8785 loads =
     \<lparr>cc_keys = (case keys of Inl copied \<Rightarrow> (\<lambda>kid alg. map_of copied kid) | Inr resolver \<Rightarrow> resolver),
      cc_limits = (case l of None \<Rightarrow> default_cursor_limits | Some x \<Rightarrow> x),
      cc_hmac = hmac_sha256, cc_aead = cipher, cc_rfc8785 = rfc8785, cc_loads = loads\<rparr>"

section \<open>Checks\<close>

definition algorithm_value :: "cursor_algorithm \<Rightarrow> string" where
  "algorithm_value a = (case a of HS256 \<Rightarrow> ''HS256'' | A256GCM \<Rightarrow> ''A256GCM'')"

definition algorithm_of :: "string \<Rightarrow> cursor_algorithm res" where
  "algorithm_of s = (if s = ''HS256'' then Inr HS256 else if s = ''A256GCM'' then Inr A256GCM else Inl ValueError)"

definition context_ok :: "cursor_limits \<Rightarrow> string \<Rightarrow> bool" where
  "context_ok l v \<longleftrightarrow> v \<noteq> [] \<and> v = py_strip v \<and> int (length v) \<le> cl_max_context_length l"

definition check_context :: "string \<Rightarrow> string \<Rightarrow> string \<Rightarrow> cursor_limits \<Rightarrow> unit res" where
  "check_context dataset part kid l = check (context_ok l dataset \<and> context_ok l part \<and> context_ok l kid) ValueError"

definition hmac_key :: "string \<Rightarrow> unit res" where
  "hmac_key key = check (32 \<le> length key) ValueError"

definition aes_key :: "string \<Rightarrow> unit res" where
  "aes_key key = check (length key = 32) ValueError"

definition resolve_key :: "cursor_codec \<Rightarrow> string \<Rightarrow> cursor_algorithm \<Rightarrow> string res" where
  "resolve_key cc kid a = (case cc_keys cc kid a of None \<Rightarrow> Inl ValueError | Some k \<Rightarrow> Inr k)"

section \<open>Unix time\<close>

definition unix_epoch :: instant where
  "unix_epoch = 62135596800000000"

text \<open>
  \<open>int(value.timestamp())\<close>.  The quotient by a million is a double: between \<open>q\<close> and \<open>q + 1\<close> seconds doubles are
  \<open>2 ^ (bit_length q - 53)\<close> apart, so that the last microseconds of a second round up to the next one once half that
  distance exceeds them.  The fraction that is left is cut off, towards the epoch.
\<close>

fun bit_length :: "nat \<Rightarrow> nat" where
  "bit_length n = (if n = 0 then 0 else Suc (bit_length (n div 2)))"

declare bit_length.simps [simp del]

definition float_seconds :: "int \<Rightarrow> int" where
  "float_seconds n =
     (let q = n div 1000000; r = n mod 1000000
      in if r \<noteq> 0 \<and> (1000000 - r) * 2 ^ 54 < 1000000 * 2 ^ bit_length (nat q) then q + 1 else q)"

definition unix_seconds :: "instant \<Rightarrow> int" where
  "unix_seconds t = (let n = t - unix_epoch in if n < 0 then - float_seconds (- n) else float_seconds n)"

definition from_unix :: "int \<Rightarrow> datetime option" where
  "from_unix n = (let t = unix_epoch + n * 1000000 in if 0 \<le> t \<and> t \<le> dt_max then Some (utc_datetime t) else None)"

section \<open>Encoding\<close>

type_synonym header = "(string \<times> json) list"

definition header_json :: "header \<Rightarrow> json" where
  "header_json h = JDict (map (\<lambda>(k, v). (KStr k, v)) h)"

definition cursor_header :: "cursor_algorithm \<Rightarrow> string \<Rightarrow> string \<Rightarrow> string \<Rightarrow> instant option \<Rightarrow> string option \<Rightarrow> header" where
  "cursor_header a dataset part kid expires nonce =
     [(''alg'', JStr (algorithm_value a)), (''dataset'', JStr dataset), (''kid'', JStr kid), (''partition'', JStr part), (''v'', JInt 1)]
     @ (case expires of None \<Rightarrow> [] | Some t \<Rightarrow> [(''exp'', JInt (unix_seconds t))])
     @ (case nonce of None \<Rightarrow> [] | Some n \<Rightarrow> [(''nonce'', JStr (base64url_encode n))])"

definition join_token :: "string \<Rightarrow> string \<Rightarrow> string \<Rightarrow> string" where
  "join_token protected body auth = protected @ ''.'' @ body @ ''.'' @ auth"

definition optional_utc :: "datetime option \<Rightarrow> instant option res" where
  "optional_utc v = (case v of None \<Rightarrow> Inr None | Some d \<Rightarrow> and_then (require_aware_utc d) (\<lambda>t. Inr (Some t)))"

definition cursor_encode ::
    "cursor_codec \<Rightarrow> string \<Rightarrow> string \<Rightarrow> string \<Rightarrow> string \<Rightarrow> string \<Rightarrow> datetime option \<Rightarrow> string \<Rightarrow> string res" where
  "cursor_encode cc payload dataset part kid algorithm expires nonce =
     and_then (algorithm_of algorithm) (\<lambda>selected.
     and_then (check_context dataset part kid (cc_limits cc)) (\<lambda>_.
     if payload = [] then Inl ValueError
     else if cl_max_payload_bytes (cc_limits cc) < int (length payload) then Inl ValueError
     else
       and_then (optional_utc expires) (\<lambda>exp.
       and_then (resolve_key cc kid selected) (\<lambda>key.
       and_then
         (case selected of
            HS256 \<Rightarrow>
              and_then (hmac_key key) (\<lambda>_.
              and_then (canonical_json (cc_rfc8785 cc) (header_json (cursor_header HS256 dataset part kid exp None))) (\<lambda>pb.
              let protected = base64url_encode pb; body = base64url_encode payload in
              Inr (join_token protected body (base64url_encode (cc_hmac cc key (protected @ ''.'' @ body))))))
          | A256GCM \<Rightarrow>
              and_then (aes_key key) (\<lambda>_.
              if length nonce \<noteq> 12 then Inl ValueError
              else
                and_then (canonical_json (cc_rfc8785 cc) (header_json (cursor_header A256GCM dataset part kid exp (Some nonce)))) (\<lambda>pb.
                case cc_aead cc of
                  None \<Rightarrow> Inl RuntimeError
                | Some c \<Rightarrow>
                    let encrypted = ae_encrypt c key nonce payload pb; n = length encrypted - 16 in
                    Inr (join_token (base64url_encode pb) (base64url_encode (take n encrypted)) (base64url_encode (drop n encrypted))))))
         (\<lambda>token. if cl_max_token_bytes (cc_limits cc) < utf8_size token then Inl ValueError else Inr token)))))"

section \<open>Decoding\<close>

text \<open>\<open>header.get("v") == 1\<close>: \<open>True\<close> and \<open>1.0\<close> are equal to \<open>1\<close>.\<close>

fun equals_one :: "json option \<Rightarrow> bool" where
  "equals_one (Some (JInt n)) = (n = 1)"
| "equals_one (Some (JBool b)) = b"
| "equals_one (Some (JFloat (FiniteFloat m e))) = (if 0 \<le> e then m * 2 ^ nat e = 1 else m = 2 ^ nat (- e))"
| "equals_one _ = False"

definition rejected :: "string \<Rightarrow> (cursor_result + 'a) res" where
  "rejected code = Inr (Inl (CursorRejected code))"

definition header_context :: "cursor_limits \<Rightarrow> json option \<Rightarrow> bool" where
  "header_context l v = (case v of Some (JStr s) \<Rightarrow> context_ok l s | _ \<Rightarrow> False)"

definition header_algorithm :: "json option \<Rightarrow> cursor_algorithm option" where
  "header_algorithm v =
     (case v of Some (JStr s) \<Rightarrow> (case algorithm_of s of Inr a \<Rightarrow> Some a | Inl _ \<Rightarrow> None) | _ \<Rightarrow> None)"

text \<open>The expiration of a header: absent or null, an integer in the range of \<open>datetime\<close>, or invalid (\<open>None\<close>).\<close>

definition header_expiration :: "json option \<Rightarrow> datetime option option" where
  "header_expiration v =
     (case v of
        None \<Rightarrow> Some None
      | Some JNull \<Rightarrow> Some None
      | Some (JInt n) \<Rightarrow> (case from_unix n of None \<Rightarrow> None | Some t \<Rightarrow> Some (Some t))
      | _ \<Rightarrow> None)"

definition header_nonce :: "cursor_algorithm \<Rightarrow> json option \<Rightarrow> (cursor_result + string option) res" where
  "header_nonce a v =
     (case a of
        A256GCM \<Rightarrow>
          (case v of
             Some (JStr s) \<Rightarrow> and_then (base64url_decode s) (\<lambda>n. if length n \<noteq> 12 then rejected ''invalid_nonce'' else Inr (Inr (Some n)))
           | _ \<Rightarrow> rejected ''invalid_nonce'')
      | HS256 \<Rightarrow> (if v = None \<or> v = Some JNull then Inr (Inr None) else rejected ''invalid_header''))"

definition read_header ::
    "cursor_codec \<Rightarrow> header \<Rightarrow> string \<Rightarrow> string
     \<Rightarrow> (cursor_result + cursor_algorithm \<times> string \<times> datetime option \<times> string option) res" where
  "read_header cc h dataset part =
     (if \<not> set (map fst h) \<subseteq> {''alg'', ''dataset'', ''exp'', ''kid'', ''nonce'', ''partition'', ''v''} then rejected ''invalid_header''
      else if \<not> equals_one (map_of h ''v'') then rejected ''unsupported_version''
      else case header_algorithm (map_of h ''alg'') of
        None \<Rightarrow> rejected ''unsupported_algorithm''
      | Some a \<Rightarrow>
          (case map_of h ''kid'' of
             Some (JStr kid) \<Rightarrow>
               if kid = [] then rejected ''invalid_header''
               else if \<not> (context_ok (cc_limits cc) kid \<and> header_context (cc_limits cc) (map_of h ''dataset'')
                          \<and> header_context (cc_limits cc) (map_of h ''partition'')) then rejected ''invalid_header''
               else if map_of h ''dataset'' \<noteq> Some (JStr dataset) \<or> map_of h ''partition'' \<noteq> Some (JStr part)
               then rejected ''context_mismatch''
               else
                 (case header_expiration (map_of h ''exp'') of
                    None \<Rightarrow> rejected ''invalid_header''
                  | Some expires \<Rightarrow>
                      and_then (header_nonce a (map_of h ''nonce'')) (\<lambda>r.
                      case r of Inl x \<Rightarrow> Inr (Inl x) | Inr nonce \<Rightarrow> Inr (Inr (a, kid, expires, nonce))))
           | _ \<Rightarrow> rejected ''invalid_header''))"

text \<open>\<open>parse_ijson\<close> over the parser, which rejects repeated members and constants such as \<open>NaN\<close>.\<close>

definition parse_ijson :: "(string \<Rightarrow> json res) \<Rightarrow> string \<Rightarrow> json res" where
  "parse_ijson loads b = and_then (loads b) (\<lambda>v. and_then (validate_ijson v) (\<lambda>_. Inr v))"

fun object_header :: "json \<Rightarrow> header option" where
  "object_header (JDict kvs) = Some (map (\<lambda>(k, v). (case k of KStr s \<Rightarrow> s | KOther s \<Rightarrow> s, v)) kvs)"
| "object_header _ = None"

text \<open>The payload of an authentic cursor; \<open>Inl\<close> is the rejection.  An exception of the cipher, its absence included,
  is a failed authentication.\<close>

definition open_cursor ::
    "cursor_codec \<Rightarrow> cursor_algorithm \<Rightarrow> string option \<Rightarrow> string \<Rightarrow> string \<Rightarrow> string \<Rightarrow> string \<Rightarrow> string \<Rightarrow> string
     \<Rightarrow> (cursor_result + string) res" where
  "open_cursor cc a nonce key protected pb body bb ab =
     (case a of
        HS256 \<Rightarrow>
          and_then (hmac_key key) (\<lambda>_.
          if cc_hmac cc key (protected @ ''.'' @ body) \<noteq> ab then rejected ''invalid_auth'' else Inr (Inr bb))
      | A256GCM \<Rightarrow>
          and_then (aes_key key) (\<lambda>_.
          case nonce of
            None \<Rightarrow> rejected ''invalid_nonce''
          | Some n \<Rightarrow>
              if length ab \<noteq> 16 then rejected ''invalid_nonce''
              else
                (case cc_aead cc of
                   None \<Rightarrow> rejected ''invalid_auth''
                 | Some c \<Rightarrow>
                     (case ae_decrypt c key n (bb @ ab) pb of None \<Rightarrow> rejected ''invalid_auth'' | Some payload \<Rightarrow> Inr (Inr payload)))))"

definition finish_cursor ::
    "cursor_codec \<Rightarrow> datetime \<Rightarrow> string \<Rightarrow> datetime option \<Rightarrow> string \<Rightarrow> cursor_result res" where
  "finish_cursor cc now kid expires payload =
     (if cl_max_payload_bytes (cc_limits cc) < int (length payload) then Inr (CursorRejected ''payload_too_large'')
      else
        and_then (require_aware_utc now) (\<lambda>t.
        if (case expires of None \<Rightarrow> False | Some e \<Rightarrow> dt_micros e \<le> t) then Inr (CursorRejected ''expired'')
        else Inr (CursorDecoded payload kid expires)))"

definition or_reject :: "(cursor_result + 'a) res \<Rightarrow> ('a \<Rightarrow> cursor_result res) \<Rightarrow> cursor_result res" where
  "or_reject m f = and_then m (\<lambda>r. case r of Inl x \<Rightarrow> Inr x | Inr y \<Rightarrow> f y)"

definition decode_parts ::
    "cursor_codec \<Rightarrow> string \<Rightarrow> string \<Rightarrow> datetime \<Rightarrow> string \<Rightarrow> string \<Rightarrow> string \<Rightarrow> cursor_result res" where
  "decode_parts cc dataset part now protected body auth =
     and_then (base64url_decode protected) (\<lambda>pb.
     and_then (parse_ijson (cc_loads cc) pb) (\<lambda>v.
     case object_header v of
       None \<Rightarrow> Inr (CursorRejected ''invalid_header'')
     | Some h \<Rightarrow>
         and_then (canonical_json (cc_rfc8785 cc) v) (\<lambda>canonical.
         if canonical \<noteq> pb then Inr (CursorRejected ''noncanonical_header'')
         else
           or_reject (read_header cc h dataset part) (\<lambda>(a, kid, expires, nonce).
           case cc_keys cc kid a of
             None \<Rightarrow> Inr (CursorRejected ''unknown_key'')
           | Some key \<Rightarrow>
               and_then (base64url_decode body) (\<lambda>bb.
               and_then (base64url_decode auth) (\<lambda>ab.
               or_reject (open_cursor cc a nonce key protected pb body bb ab) (finish_cursor cc now kid expires)))))))"

definition cursor_decode :: "cursor_codec \<Rightarrow> string \<Rightarrow> string \<Rightarrow> string \<Rightarrow> datetime \<Rightarrow> cursor_result res" where
  "cursor_decode cc token dataset part now =
     (if cl_max_token_bytes (cc_limits cc) < utf8_size token then Inr (CursorRejected ''cursor_too_large'')
      else
        (case (case split_on (CHR ''.'') token of
                 [protected, body, auth] \<Rightarrow> decode_parts cc dataset part now protected body auth
               | _ \<Rightarrow> Inl ValueError) of
           Inl e \<Rightarrow> if e = ValueError then Inr (CursorRejected ''malformed'') else Inl e
         | Inr r \<Rightarrow> Inr r))"

section \<open>Envelopes\<close>

lemma encoded_no_dot: "CHR ''.'' \<notin> set (base64url_encode v)"
proof -
  have dot: "b64_char n \<noteq> CHR ''.''" if "n < 64" for n
  proof -
    from that have "b64_char n \<in> set b64_alphabet" by (simp add: b64_char_def length_alphabet)
    then show ?thesis by (auto simp: b64_alphabet_def)
  qed
  have "\<forall>n\<in>set (sextets (map of_char v)). n < 64" by (rule sextets_less) simp
  with dot show ?thesis unfolding encode_unpadded by (force simp: image_iff)
qed

lemma split_token:
  assumes "CHR ''.'' \<notin> set p" "CHR ''.'' \<notin> set b" "CHR ''.'' \<notin> set a"
  shows "split_on (CHR ''.'') (join_token p b a) = [p, b, a]"
  using assms by (simp add: join_token_def split_on_append split_on_none)

lemma join_split: "py_join [sep] (split_on sep s) = s"
proof (induction s)
  case (Cons c s)
  obtain w ws where "split_on sep s = w # ws" using split_on_nonempty [of sep s] by (cases "split_on sep s") auto
  with Cons show ?case by (cases ws) auto
qed simp

lemma token_of_split: "split_on (CHR ''.'') s = [p, b, a] \<Longrightarrow> s = join_token p b a"
  using join_split [of "CHR ''.''" s] by (simp add: join_token_def)

lemma decode_back: "base64url_decode s = Inr v \<Longrightarrow> base64url_encode v = s"
  by (auto simp: base64url_decode_def Let_def split: if_splits option.splits)

lemma bit_length_le: "n < 2 ^ k \<Longrightarrow> bit_length n \<le> k"
proof (induction k arbitrary: n)
  case (Suc k)
  then have "n div 2 < 2 ^ k" by simp
  with Suc.IH [of "n div 2"] show ?case by (subst bit_length.simps) simp
qed (simp add: bit_length.simps)

lemma float_seconds_bounds:
  assumes "0 \<le> n" "n < 2 ^ 38 * 1000000"
  shows "n div 1000000 \<le> float_seconds n" "float_seconds n * 1000000 \<le> n + 15"
proof -
  let ?q = "n div 1000000" and ?r = "n mod 1000000"
  have n: "n = ?q * 1000000 + ?r" "0 \<le> ?q" "?q < 2 ^ 38" using assms by (simp_all add: pos_imp_zdiv_nonneg_iff)
  show "?q \<le> float_seconds n" by (simp add: float_seconds_def Let_def)
  show "float_seconds n * 1000000 \<le> n + 15"
  proof (cases "?r \<noteq> 0 \<and> (1000000 - ?r) * 2 ^ 54 < 1000000 * 2 ^ bit_length (nat ?q)")
    case True
    have "bit_length (nat ?q) \<le> 38" using n(2,3) by (intro bit_length_le) (simp add: nat_less_iff)
    then have "(2::int) ^ bit_length (nat ?q) \<le> 2 ^ 38" by (intro power_increasing) simp_all
    with True have "(1000000 - ?r) * 2 ^ 54 < 1000000 * 2 ^ 38" by linarith
    then have "1000000 - ?r \<le> 15" by simp
    moreover have "float_seconds n = ?q + 1" unfolding float_seconds_def Let_def by (rule if_P [OF True])
    ultimately show ?thesis using n(1) by linarith
  next
    case False
    then have "float_seconds n = ?q" unfolding float_seconds_def Let_def by (rule if_not_P)
    with n(1) show ?thesis by simp
  qed
qed

text \<open>Every expiration up to 15 microseconds before the end of the calendar is a readable one.\<close>

lemma expiration_readable:
  assumes "0 \<le> t" "t + 15 \<le> dt_max"
  shows "from_unix (unix_seconds t) = Some (utc_datetime (unix_epoch + unix_seconds t * 1000000))"
proof -
  have "0 \<le> unix_epoch + unix_seconds t * 1000000 \<and> unix_epoch + unix_seconds t * 1000000 \<le> dt_max"
  proof (cases "t < unix_epoch")
    case True
    define m where "m = unix_epoch - t"
    have m: "0 \<le> m" "m < 2 ^ 38 * 1000000" "m \<le> unix_epoch" using True assms(1) by (simp_all add: m_def unix_epoch_def)
    have "float_seconds m * 1000000 \<le> m + 15" "0 \<le> float_seconds m"
      using float_seconds_bounds [OF m(1,2)] m(1) pos_imp_zdiv_nonneg_iff [of 1000000 m] by linarith+
    moreover have "unix_seconds t = - float_seconds m" using True by (simp add: unix_seconds_def Let_def m_def)
    moreover have "float_seconds m \<le> 62135596800" using calculation(1) m(3) by (simp add: unix_epoch_def)
    ultimately show ?thesis by (simp add: unix_epoch_def dt_max_def)
  next
    case False
    define n where "n = t - unix_epoch"
    have n: "0 \<le> n" "n < 2 ^ 38 * 1000000" "unix_epoch + n + 15 \<le> dt_max"
      using False assms(2) by (simp_all add: n_def unix_epoch_def dt_max_def)
    have "float_seconds n * 1000000 \<le> n + 15" "0 \<le> float_seconds n"
      using float_seconds_bounds [OF n(1,2)] n(1) pos_imp_zdiv_nonneg_iff [of 1000000 n] by linarith+
    moreover have "unix_seconds t = float_seconds n" using False by (simp add: unix_seconds_def Let_def n_def)
    ultimately show ?thesis using n(3) by (simp add: unix_epoch_def)
  qed
  then show ?thesis by (simp add: from_unix_def)
qed

section \<open>Headers\<close>

text \<open>What the codec relies on: the parser reads a canonical form back as the same members, of which it is the canonical form.\<close>

definition canonical_reader :: "cursor_codec \<Rightarrow> header \<Rightarrow> bool" where
  "canonical_reader cc h \<longleftrightarrow>
     (\<forall>pb. canonical_json (cc_rfc8785 cc) (header_json h) = Inr pb \<longrightarrow>
        pb \<noteq> [] \<and> (\<exists>h'. cc_loads cc pb = Inr (header_json h') \<and> canonical_json (cc_rfc8785 cc) (header_json h') = Inr pb
                       \<and> map_of h' = map_of h))"

definition aead_inverse :: "aead \<Rightarrow> bool" where
  "aead_inverse c \<longleftrightarrow> (\<forall>k n p a. length k = 32 \<and> length n = 12 \<longrightarrow> length (ae_encrypt c k n p a) = length p + 16 \<and> ae_decrypt c k n (ae_encrypt c k n p a) a = Some p)"

lemma object_header_json [simp]: "object_header (header_json h) = Some h"
  by (simp add: header_json_def comp_def split_def)

lemma canonical_valid: "canonical_json rfc v = Inr pb \<Longrightarrow> validate_ijson v = Inr ()"
  by (auto simp: canonical_json_def and_then_eq_Inr)

lemma cursor_header_get:
  "map_of (cursor_header a d p k e n) ''alg'' = Some (JStr (algorithm_value a))"
  "map_of (cursor_header a d p k e n) ''dataset'' = Some (JStr d)"
  "map_of (cursor_header a d p k e n) ''partition'' = Some (JStr p)"
  "map_of (cursor_header a d p k e n) ''kid'' = Some (JStr k)"
  "map_of (cursor_header a d p k e n) ''v'' = Some (JInt 1)"
  "map_of (cursor_header a d p k e n) ''exp'' = map_option (\<lambda>t. JInt (unix_seconds t)) e"
  "map_of (cursor_header a d p k e n) ''nonce'' = map_option (\<lambda>x. JStr (base64url_encode x)) n"
  by (auto simp: cursor_header_def split: option.splits)

lemma cursor_header_keys:
  "set (map fst (cursor_header a d p k e n)) \<subseteq> {''alg'', ''dataset'', ''exp'', ''kid'', ''nonce'', ''partition'', ''v''}"
  by (auto simp: cursor_header_def split: option.splits)

lemma algorithm_back [simp]: "algorithm_of (algorithm_value a) = Inr a"
  by (cases a) (simp_all add: algorithm_of_def algorithm_value_def)

lemma read_issued_header:
  assumes h: "map_of h' = map_of (cursor_header a dataset part kid e n)"
    and ctx: "context_ok (cc_limits cc) dataset" "context_ok (cc_limits cc) part" "context_ok (cc_limits cc) kid"
    and nonce: "case a of HS256 \<Rightarrow> n = None | A256GCM \<Rightarrow> \<exists>x. n = Some x \<and> length x = 12"
  shows "read_header cc h' dataset part
    = (case header_expiration (map_option (\<lambda>t. JInt (unix_seconds t)) e) of
         None \<Rightarrow> rejected ''invalid_header''
       | Some expires \<Rightarrow> Inr (Inr (a, kid, expires, n)))"
proof -
  have "set (map fst h') = dom (map_of h')" by (simp add: dom_map_of_conv_image_fst)
  also have "\<dots> = set (map fst (cursor_header a dataset part kid e n))" unfolding h by (simp only: dom_map_of_conv_image_fst set_map)
  finally have keys: "set (map fst h') \<subseteq> {''alg'', ''dataset'', ''exp'', ''kid'', ''nonce'', ''partition'', ''v''}"
    using cursor_header_keys by simp
  have no: "header_nonce a (map_option (\<lambda>x. JStr (base64url_encode x)) n) = Inr (Inr n)"
  proof (cases a)
    case A256GCM
    with nonce obtain x where x: "n = Some x" "length x = 12" by auto
    then have "x \<noteq> []" by auto
    with x A256GCM show ?thesis by (simp add: header_nonce_def decode_encode)
  qed (use nonce in \<open>simp add: header_nonce_def\<close>)
  have "kid \<noteq> []" using ctx(3) by (simp add: context_ok_def)
  with keys ctx show ?thesis
    unfolding read_header_def h cursor_header_get by (simp add: header_algorithm_def header_context_def no split: option.split)
qed

section \<open>Issued cursors\<close>

text \<open>A token that was issued splits into the parts it was made of: the canonical header and a body that its key opens.\<close>

lemma issued_parts:
  assumes enc: "cursor_encode cc payload dataset part kid algorithm expires nonce = Inr token"
    and aead: "\<And>c. cc_aead cc = Some c \<Longrightarrow> aead_inverse c" and hmac: "\<And>k m. cc_hmac cc k m \<noteq> []"
  obtains a n key pb bb ab where
    "context_ok (cc_limits cc) dataset" "context_ok (cc_limits cc) part" "context_ok (cc_limits cc) kid"
    "case a of HS256 \<Rightarrow> n = None | A256GCM \<Rightarrow> \<exists>x. n = Some x \<and> length x = 12"
    "int (length payload) \<le> cl_max_payload_bytes (cc_limits cc)" "utf8_size token \<le> cl_max_token_bytes (cc_limits cc)"
    "cc_keys cc kid a = Some key" "bb \<noteq> []" "ab \<noteq> []"
    "canonical_json (cc_rfc8785 cc) (header_json (cursor_header a dataset part kid (map_option dt_micros expires) n)) = Inr pb"
    "token = join_token (base64url_encode pb) (base64url_encode bb) (base64url_encode ab)"
    "open_cursor cc a n key (base64url_encode pb) pb (base64url_encode bb) bb ab = Inr (Inr payload)"
proof -
  let ?exp = "map_option dt_micros expires"
  obtain a key where a: "algorithm_of algorithm = Inr a"
    and ctx: "context_ok (cc_limits cc) dataset" "context_ok (cc_limits cc) part" "context_ok (cc_limits cc) kid"
    and pay: "payload \<noteq> []" "int (length payload) \<le> cl_max_payload_bytes (cc_limits cc)"
    and utc: "optional_utc expires = Inr ?exp" and key: "cc_keys cc kid a = Some key"
    using enc by (auto simp: cursor_encode_def and_then_eq_Inr check_context_def resolve_key_def optional_utc_def require_aware_utc_def
        split: if_splits option.splits)
  note issue = that [OF ctx _ pay(2) _ key]
  show thesis
  proof (cases a)
    case HS256
    with enc a pay utc key obtain pb where pb: "canonical_json (cc_rfc8785 cc) (header_json (cursor_header a dataset part kid ?exp None)) = Inr pb"
      "hmac_key key = Inr ()" "token = join_token (base64url_encode pb) (base64url_encode payload)
         (base64url_encode (cc_hmac cc key (base64url_encode pb @ ''.'' @ base64url_encode payload)))"
      "utf8_size token \<le> cl_max_token_bytes (cc_limits cc)"
      by (auto simp: cursor_encode_def and_then_eq_Inr resolve_key_def Let_def split: if_splits)
    show thesis
      by (rule issue [OF _ pb(4) pay(1) _ pb(1) pb(3)]) (use HS256 pb(2) hmac in \<open>simp_all add: open_cursor_def\<close>)
  next
    case A256GCM
    with enc a pay utc key obtain pb c where c: "cc_aead cc = Some c"
      and pb: "canonical_json (cc_rfc8785 cc) (header_json (cursor_header a dataset part kid ?exp (Some nonce))) = Inr pb"
      "aes_key key = Inr ()" "length nonce = 12"
      "token = join_token (base64url_encode pb) (base64url_encode (take (length (ae_encrypt c key nonce payload pb) - 16) (ae_encrypt c key nonce payload pb)))
         (base64url_encode (drop (length (ae_encrypt c key nonce payload pb) - 16) (ae_encrypt c key nonce payload pb)))"
      "utf8_size token \<le> cl_max_token_bytes (cc_limits cc)"
      by (auto simp: cursor_encode_def and_then_eq_Inr resolve_key_def Let_def split: if_splits option.splits)
    let ?ct = "ae_encrypt c key nonce payload pb"
    have len: "length ?ct = length payload + 16" and dec: "ae_decrypt c key nonce ?ct pb = Some payload"
      using aead [OF c] pb(2,3) by (auto simp: aead_inverse_def aes_key_def check_def split: if_splits)
    then have sizes: "take (length ?ct - 16) ?ct \<noteq> []" "drop (length ?ct - 16) ?ct \<noteq> []" "length (drop (length ?ct - 16) ?ct) = 16"
      using pay(1) by (auto simp flip: length_greater_0_conv)
    show thesis
      by (rule issue [OF _ pb(5) sizes(1,2) pb(1) pb(4)]) (use A256GCM pb(2,3) c dec sizes(3) in \<open>simp_all add: open_cursor_def\<close>)
  qed
qed

text \<open>The outcome of decoding an issued cursor in its context is the one of its expiration and of the clock.\<close>

lemma decode_issued:
  assumes enc: "cursor_encode cc payload dataset part kid algorithm expires nonce = Inr token"
    and reader: "\<And>a n. canonical_reader cc (cursor_header a dataset part kid (map_option dt_micros expires) n)"
    and aead: "\<And>c. cc_aead cc = Some c \<Longrightarrow> aead_inverse c" and hmac: "\<And>k m. cc_hmac cc k m \<noteq> []"
    and now: "require_aware_utc now = Inr t"
  shows "cursor_decode cc token dataset part now
    = (case header_expiration (map_option (\<lambda>e. JInt (unix_seconds (dt_micros e))) expires) of
         None \<Rightarrow> Inr (CursorRejected ''invalid_header'')
       | Some x \<Rightarrow> Inr (if (case x of None \<Rightarrow> False | Some e \<Rightarrow> dt_micros e \<le> t) then CursorRejected ''expired'' else CursorDecoded payload kid x))"
proof -
  let ?exp = "map_option dt_micros expires"
  obtain a n key pb bb ab where ctx: "context_ok (cc_limits cc) dataset" "context_ok (cc_limits cc) part" "context_ok (cc_limits cc) kid"
    and n: "case a of HS256 \<Rightarrow> n = None | A256GCM \<Rightarrow> \<exists>x. n = Some x \<and> length x = 12"
    and size: "int (length payload) \<le> cl_max_payload_bytes (cc_limits cc)" "utf8_size token \<le> cl_max_token_bytes (cc_limits cc)"
    and key: "cc_keys cc kid a = Some key" and parts: "bb \<noteq> []" "ab \<noteq> []"
    and pb: "canonical_json (cc_rfc8785 cc) (header_json (cursor_header a dataset part kid ?exp n)) = Inr pb"
    and token: "token = join_token (base64url_encode pb) (base64url_encode bb) (base64url_encode ab)"
    and opens: "open_cursor cc a n key (base64url_encode pb) pb (base64url_encode bb) bb ab = Inr (Inr payload)"
    by (rule issued_parts [OF enc aead hmac])
  obtain h' where h': "pb \<noteq> []" "cc_loads cc pb = Inr (header_json h')" "canonical_json (cc_rfc8785 cc) (header_json h') = Inr pb"
    "map_of h' = map_of (cursor_header a dataset part kid ?exp n)"
    using reader pb unfolding canonical_reader_def by blast
  have "split_on (CHR ''.'') token = [base64url_encode pb, base64url_encode bb, base64url_encode ab]"
    unfolding token by (intro split_token encoded_no_dot)
  moreover have "map_option (\<lambda>t. JInt (unix_seconds t)) ?exp = map_option (\<lambda>e. JInt (unix_seconds (dt_micros e))) expires"
    by (simp add: option.map_comp comp_def)
  ultimately show ?thesis
    using h'(1-3) size parts key opens now read_issued_header [OF h'(4) ctx n] canonical_valid [OF h'(3)]
    by (simp add: cursor_decode_def decode_parts_def decode_encode parse_ijson_def or_reject_def rejected_def finish_cursor_def split: option.split)
qed

section \<open>Properties\<close>


text \<open>A cursor that expires at the very end of the calendar (\<open>datetime.max\<close>) is issued and never accepted: its last
  second is rounded up to the year 10000.\<close>

lemma latest_expiration_is_unreadable:
  assumes "cursor_encode cc payload dataset part kid algorithm (Some e) nonce = Inr token" and "dt_micros e = dt_max"
    and "\<And>a n. canonical_reader cc (cursor_header a dataset part kid (Some dt_max) n)"
    and "\<And>c. cc_aead cc = Some c \<Longrightarrow> aead_inverse c" and "\<And>k m. cc_hmac cc k m \<noteq> []"
    and "require_aware_utc now = Inr t"
  shows "cursor_decode cc token dataset part now = Inr (CursorRejected ''invalid_header'')"
proof -
  have "unix_seconds dt_max = 253402300800"
    by (simp add: unix_seconds_def float_seconds_def Let_def dt_max_def unix_epoch_def bit_length.simps)
  then have "from_unix (unix_seconds (dt_micros e)) = None" by (simp add: assms(2) from_unix_def unix_epoch_def dt_max_def)
  moreover have "\<And>a n. canonical_reader cc (cursor_header a dataset part kid (map_option dt_micros (Some e)) n)" using assms(2,3) by simp
  note decode_issued [OF assms(1) this assms(4-6)]
  ultimately show ?thesis by (simp add: header_expiration_def)
qed

section \<open>Accepted cursors\<close>

text \<open>The authentication of the two algorithms, over the canonical header \<open>pb\<close>, the body and the tag.\<close>

definition authentic_parts :: "cursor_codec \<Rightarrow> cursor_algorithm \<Rightarrow> string \<Rightarrow> string \<Rightarrow> string \<Rightarrow> string \<Rightarrow> string \<Rightarrow> bool" where
  "authentic_parts cc a key pb bb ab payload \<longleftrightarrow>
     (case a of
        HS256 \<Rightarrow> 32 \<le> length key \<and> payload = bb \<and> ab = cc_hmac cc key (base64url_encode pb @ ''.'' @ base64url_encode bb)
      | A256GCM \<Rightarrow> length key = 32 \<and> length ab = 16
          \<and> (\<exists>c n. cc_aead cc = Some c \<and> length n = 12 \<and> ae_decrypt c key n (bb @ ab) pb = Some payload))"

lemma passed_on: "(case r of Inl x \<Rightarrow> Inr (Inl x) | Inr z \<Rightarrow> Inr (Inr (f z))) = Inr (Inr y) \<longleftrightarrow> (\<exists>z. r = Inr z \<and> f z = y)"
  by (cases r) auto

lemma read_header_accepts:
  assumes "read_header cc h dataset part = Inr (Inr (a, kid, expires, n))"
  shows "map_of h ''dataset'' = Some (JStr dataset) \<and> map_of h ''partition'' = Some (JStr part) \<and> map_of h ''kid'' = Some (JStr kid)
    \<and> map_of h ''alg'' = Some (JStr (algorithm_value a)) \<and> (a = A256GCM \<longrightarrow> (\<exists>x. n = Some x \<and> length x = 12))"
proof -
  have alg: "map_of h ''alg'' = Some (JStr (algorithm_value b))" if "header_algorithm (map_of h ''alg'') = Some b" for b
    using that by (auto simp: header_algorithm_def algorithm_of_def algorithm_value_def split: option.splits json.splits if_splits)
  have non: "\<exists>x. m = Some x \<and> length x = 12" if "header_nonce A256GCM v = Inr (Inr m)" for m v
    using that by (auto simp: header_nonce_def rejected_def and_then_eq_Inr split: option.splits json.splits if_splits)
  show ?thesis
    using assms alg non
    by (auto simp: read_header_def rejected_def and_then_eq_Inr passed_on split: if_splits option.splits json.splits)
qed

lemma read_header_elsewhere:
  assumes "read_header cc h dataset part = Inr (Inr x)" and "(dataset', part') \<noteq> (dataset, part)"
  shows "read_header cc h dataset' part' = rejected ''context_mismatch''"
  using assms by (auto simp: read_header_def rejected_def split: if_splits option.splits json.splits)

lemma only_rejections:
  "read_header cc h d p \<noteq> Inr (Inl (CursorDecoded x y z))" "open_cursor cc a n key pr pb bo bb ab \<noteq> Inr (Inl (CursorDecoded x y z))"
proof -
  have non: "header_nonce a v \<noteq> Inr (Inl (CursorDecoded x y z))" for a v
    by (auto simp: header_nonce_def rejected_def and_then_eq_Inr split: cursor_algorithm.splits option.splits json.splits if_splits)
  then show "read_header cc h d p \<noteq> Inr (Inl (CursorDecoded x y z))"
    by (auto simp: read_header_def rejected_def and_then_eq_Inr split: if_splits option.splits json.splits sum.splits)
  show "open_cursor cc a n key pr pb bo bb ab \<noteq> Inr (Inl (CursorDecoded x y z))"
    by (auto simp: open_cursor_def rejected_def and_then_eq_Inr split: cursor_algorithm.splits option.splits if_splits)
qed

lemma or_reject_accepts:
  assumes "\<And>x y z. m \<noteq> Inr (Inl (CursorDecoded x y z))"
  shows "or_reject m f = Inr (CursorDecoded payload kid expires) \<longleftrightarrow> (\<exists>u. m = Inr (Inr u) \<and> f u = Inr (CursorDecoded payload kid expires))"
proof (cases m)
  case (Inr r)
  with assms show ?thesis by (cases r) (auto simp: or_reject_def)
qed (simp add: or_reject_def)

text \<open>The steps an accepted cursor has passed.\<close>

lemma accepted_steps:
  assumes "cursor_decode cc token dataset part now = Inr (CursorDecoded payload kid expires)"
  obtains pr bo au pb bb ab v h a n key where
    "utf8_size token \<le> cl_max_token_bytes (cc_limits cc)" "split_on (CHR ''.'') token = [pr, bo, au]"
    "base64url_decode pr = Inr pb" "cc_loads cc pb = Inr v" "validate_ijson v = Inr ()" "object_header v = Some h"
    "canonical_json (cc_rfc8785 cc) v = Inr pb" "read_header cc h dataset part = Inr (Inr (a, kid, expires, n))"
    "cc_keys cc kid a = Some key" "base64url_decode bo = Inr bb" "base64url_decode au = Inr ab"
    "open_cursor cc a n key pr pb bo bb ab = Inr (Inr payload)"
    "finish_cursor cc now kid expires payload = Inr (CursorDecoded payload kid expires)"
proof -
  obtain pr bo au where split: "utf8_size token \<le> cl_max_token_bytes (cc_limits cc)" "split_on (CHR ''.'') token = [pr, bo, au]"
    and parts: "decode_parts cc dataset part now pr bo au = Inr (CursorDecoded payload kid expires)"
    using assms by (auto simp: cursor_decode_def split: if_splits list.splits sum.splits)
  obtain pb v h where v: "base64url_decode pr = Inr pb" "cc_loads cc pb = Inr v" "validate_ijson v = Inr ()" "object_header v = Some h"
    "canonical_json (cc_rfc8785 cc) v = Inr pb"
    and rest: "or_reject (read_header cc h dataset part) (\<lambda>(a, kid, expires, nonce).
           case cc_keys cc kid a of
             None \<Rightarrow> Inr (CursorRejected ''unknown_key'')
           | Some key \<Rightarrow>
               and_then (base64url_decode bo) (\<lambda>bb.
               and_then (base64url_decode au) (\<lambda>ab.
               or_reject (open_cursor cc a nonce key pr pb bo bb ab) (finish_cursor cc now kid expires))))
        = Inr (CursorDecoded payload kid expires)"
    using parts by (auto simp: decode_parts_def parse_ijson_def and_then_eq_Inr split: option.splits if_splits)
  obtain a n kid' expires' key bb ab payload' where hd: "read_header cc h dataset part = Inr (Inr (a, kid', expires', n))"
    and key: "cc_keys cc kid' a = Some key" "base64url_decode bo = Inr bb" "base64url_decode au = Inr ab"
    and opens: "open_cursor cc a n key pr pb bo bb ab = Inr (Inr payload')"
    and fin: "finish_cursor cc now kid' expires' payload' = Inr (CursorDecoded payload kid expires)"
    using rest unfolding or_reject_accepts [OF only_rejections(1)]
    by (auto simp: and_then_eq_Inr or_reject_accepts [OF only_rejections(2)] split: option.splits)
  from fin have "payload' = payload" "kid' = kid" "expires' = expires"
    by (auto simp: finish_cursor_def and_then_eq_Inr split: if_splits)
  with that [OF split v _ _ key(2,3)] hd key(1) opens fin show thesis by simp
qed


text \<open>C14.  An accepted cursor is refused in every other context.\<close>

theorem cursor_is_bound_to_its_context:
  assumes "cursor_decode cc token dataset part now = Inr (CursorDecoded payload kid expires)" and "(dataset', part') \<noteq> (dataset, part)"
  shows "cursor_decode cc token dataset' part' now' = Inr (CursorRejected ''context_mismatch'')"
proof (rule accepted_steps [OF assms(1)])
  fix pr bo au pb v h bb ab a n key
  assume "utf8_size token \<le> cl_max_token_bytes (cc_limits cc)" "split_on (CHR ''.'') token = [pr, bo, au]" "base64url_decode pr = Inr pb"
    "cc_loads cc pb = Inr v" "validate_ijson v = Inr ()" "object_header v = Some h" "canonical_json (cc_rfc8785 cc) v = Inr pb"
    "read_header cc h dataset part = Inr (Inr (a, kid, expires, n))"
  with read_header_elsewhere [OF _ assms(2)] show ?thesis
    by (simp add: cursor_decode_def decode_parts_def parse_ijson_def or_reject_def rejected_def)
qed

section \<open>Witnesses\<close>

definition sample_cursor_header :: "instant \<Rightarrow> header" where
  "sample_cursor_header e = cursor_header HS256 ''d'' ''p'' ''k'' (Some e) None"

definition sample_codec :: "instant \<Rightarrow> cursor_codec" where
  "sample_codec e = OpaqueCursorCodec (Inl [(''k'', replicate 32 (CHR ''k''))]) None (\<lambda>k m. ''mac'') None
     (Some (\<lambda>v. if v = header_json (sample_cursor_header e) then Inr ''h'' else Inl ValueError))
     (\<lambda>b. if b = ''h'' then Inr (header_json (sample_cursor_header e)) else Inl ValueError)"

definition sample_cursor :: string where
  "sample_cursor = join_token (base64url_encode ''h'') (base64url_encode ''payload'') (base64url_encode ''mac'')"

lemma sample_valid:
  "\<bar>unix_seconds e\<bar> \<le> max_safe_integer \<Longrightarrow> validate_ijson (header_json (sample_cursor_header e)) = Inr ()"
  by (simp add: header_json_def sample_cursor_header_def cursor_header_def algorithm_value_def check_def max_safe_integer_def)

lemma sample_contexts: "context_ok default_cursor_limits ''d''" "context_ok default_cursor_limits ''p''" "context_ok default_cursor_limits ''k''"
  by code_simp+

lemma sample_size: "utf8_size sample_cursor = 18"
  by code_simp

lemma sample_issued:
  "\<bar>unix_seconds e\<bar> \<le> max_safe_integer \<Longrightarrow>
     cursor_encode (sample_codec e) ''payload'' ''d'' ''p'' ''k'' ''HS256'' (Some (utc_datetime e)) [] = Inr sample_cursor"
  using sample_size
  by (simp add: cursor_encode_def algorithm_of_def check_context_def sample_codec_def OpaqueCursorCodec_def sample_contexts [unfolded default_cursor_limits_def] check_def
      optional_utc_def resolve_key_def hmac_key_def canonical_json_def sample_valid sample_cursor_def Let_def
      default_cursor_limits_def flip: sample_cursor_header_def)

lemma sample_seconds: "unix_seconds 63000000000000000 = 864403200" "unix_seconds dt_max = 253402300800"
  by (simp_all add: unix_seconds_def float_seconds_def Let_def dt_max_def unix_epoch_def bit_length.simps)

lemma sample_cursor_issued:
  "cursor_encode (sample_codec 63000000000000000) ''payload'' ''d'' ''p'' ''k'' ''HS256'' (Some (utc_datetime 63000000000000000)) [] = Inr sample_cursor"
  "cursor_encode (sample_codec dt_max) ''payload'' ''d'' ''p'' ''k'' ''HS256'' (Some (utc_datetime dt_max)) [] = Inr sample_cursor"
  by (rule sample_issued, simp add: sample_seconds max_safe_integer_def)+

lemma sample_reader: "canonical_reader (sample_codec e) (cursor_header a ''d'' ''p'' ''k'' (Some e) n)"
proof -
  have rfc: "cc_rfc8785 (sample_codec e) = Some (\<lambda>v. if v = header_json (sample_cursor_header e) then Inr ''h'' else Inl ValueError)"
    and loads: "cc_loads (sample_codec e) ''h'' = Inr (header_json (sample_cursor_header e))"
    by (simp_all add: sample_codec_def OpaqueCursorCodec_def)
  have "h = sample_cursor_header e" if "header_json h = header_json (sample_cursor_header e)" for h
    using that by (metis object_header_json option.inject)
  then show ?thesis
    unfolding canonical_reader_def rfc canonical_json_def using loads by (fastforce simp: and_then_eq_Inr split: if_splits)
qed

lemma sample_codec_simps: "cc_aead (sample_codec e) = None" "cc_hmac (sample_codec e) k m = ''mac''"
  by (simp_all add: sample_codec_def OpaqueCursorCodec_def)

lemma sample_cursor_decoded:
  "cursor_decode (sample_codec 63000000000000000) sample_cursor ''d'' ''p'' (utc_datetime 0)
     = Inr (CursorDecoded ''payload'' ''k'' (Some (utc_datetime 63000000000000000)))"
  using decode_issued [OF sample_cursor_issued(1), of "utc_datetime 0" 0]
  by (simp add: sample_reader sample_codec_simps utc_datetime_def require_aware_utc_def header_expiration_def sample_seconds from_unix_def
      unix_epoch_def dt_max_def)


lemma latest_expiration_sample:
  "cursor_decode (sample_codec dt_max) sample_cursor ''d'' ''p'' (utc_datetime 0) = Inr (CursorRejected ''invalid_header'')"
  using latest_expiration_is_unreadable [OF sample_cursor_issued(2), of "utc_datetime 0" 0]
  by (simp add: sample_reader sample_codec_simps utc_datetime_def require_aware_utc_def)


theorem cursor_is_bound_to_its_context_witness:
  "cursor_decode (sample_codec 63000000000000000) sample_cursor ''d'' ''q'' (utc_datetime 0) = Inr (CursorRejected ''context_mismatch'')"
  using cursor_is_bound_to_its_context [OF sample_cursor_decoded, of "''d''" "''q''" "utc_datetime 0"] by simp

end
