(* ===== verification/Spec2Isabelle.thy ===== *)
theory Spec2Isabelle
  imports Leases Idempotency Inbox Outbox Receipts Checkpoints Projections Processes Jobs
    DependencyGraph BatchCoordinator Generations Trace Encoding ReplayStore WireRoundTrip WireNumbers
    Consumer Relay SyncWire Cursors
begin

text \<open>
  Verification of Pytitect, a Python library of reliability primitives (\<open>src/src/pytitect\<close>).

  \<^bold>\<open>The program and its parts.\<close>  The library has in-memory reference stores behind protocols
  (\<open>IdempotencyStore\<close>, \<open>LeaseStore\<close>, \<open>InboxStore\<close>, \<open>OutboxStore\<close>, ...), coordinators and runtimes that use a store
  through its protocol, conformance harnesses that every store (also those of the database adapters) has to
  pass, and pure validators and codecs.  Stores are finite, thread-safe by a lock around every operation, and
  read time from their callers.

  \<^bold>\<open>Theories and sources.\<close>
  \<^item> \<open>Prelude\<close>: errors as values, instants and \<open>datetime\<close> arguments, Python dictionaries as association
    lists, oldest-first batches, programs over a store (\<open>act\<close>), runs of calls and the locale \<open>guarded_machine\<close>
    from which every invariant over runs is obtained.  \<open>PyText\<close>: the string functions the program uses.
  \<^item> \<open>Core\<close> (\<open>core.py\<close>), \<open>Canonical\<close> (\<open>security/canonical.py\<close>), \<open>Maintenance\<close> (\<open>maintenance.py\<close>, with the
    locale \<open>retention\<close> that the stores interpret on their purge operations).
  \<^item> \<open>Leases\<close> (\<open>leases.py\<close>), \<open>Idempotency\<close> (\<open>idempotency.py\<close>), \<open>Inbox\<close> (\<open>inbox.py\<close>), \<open>Outbox\<close>
    (\<open>outbox.py\<close>), \<open>Receipts\<close> (\<open>receipts.py\<close>), \<open>Checkpoints\<close> (\<open>checkpoints.py\<close>).
  \<^item> \<open>EventSourcing\<close> (\<open>event_sourcing.py\<close>), \<open>Projections\<close> (\<open>projections.py\<close>), \<open>Claims\<close> (the claim discipline
    shared by timers and jobs), \<open>Processes\<close> (\<open>processes.py\<close>), \<open>Jobs\<close> (\<open>jobs.py\<close>).
  \<^item> \<open>DependencyGraph\<close> (\<open>sync/graph.py\<close>), \<open>Batches\<close> and \<open>BatchCoordinator\<close> (\<open>sync/batches.py\<close>),
    \<open>Generations\<close> (\<open>sync/generations.py\<close>).
  \<^item> \<open>Utf8\<close> and \<open>Wire\<close> (\<open>wire.py\<close>: exact JSON documents, strings as lists of code points), with the proofs in \<open>WireRoundTrip\<close> and
    \<open>WireNumbers\<close>; \<open>Timestamps\<close>, \<open>SyncContracts\<close> and \<open>SyncCodec\<close> (\<open>sync/contracts.py\<close>, and the times of
    \<open>messaging/model.py\<close>); \<open>SyncWire\<close> (\<open>sync/wire.py\<close>); \<open>Cursors\<close> (\<open>sync/cursors.py\<close>:
    authenticated cursors bound to a dataset and a partition, over parameters for HMAC, AES-GCM and the JSON parser and printer).
  \<^item> \<open>Trace\<close> (\<open>trace.py\<close>), \<open>Encoding\<close> and \<open>ReplayStore\<close> (\<open>security/encoding.py\<close>, \<open>security/replay.py\<close>).
  \<^item> The asynchronous runtime: \<open>UnitOfWork\<close> (\<open>aio/uow.py\<close>), \<open>Quarantine\<close> (\<open>aio/quarantine.py\<close>) and \<open>Consumer\<close>
    (\<open>AsyncConsumer\<close> of \<open>aio/runtime.py\<close>); \<open>AsyncOutbox\<close> (\<open>aio/stores.py\<close>) and \<open>Relay\<close> (\<open>AsyncRelay\<close> of
    \<open>aio/runtime.py\<close>, with \<open>aio/resilience.py\<close> and \<open>messaging/results.py\<close>).

  \<^bold>\<open>Correspondence.\<close>  A store class is a record of its fields; a method is a function from its arguments
  and the store to a result and the store.  Exceptions are values of \<open>exn\<close> on the left of a sum; an exception raised after
  an assignment keeps the assignment.  An operation under the lock is one atomic step, so that
  concurrent use of a store is a sequence of calls: the theorems quantify over all such sequences
  (\<open>run\<close>), restricted only by explicit guards (\<open>guarded\<close>), and interference between the calls of a coordinator is
  an explicit argument.  Protocols are records of operations (ports); coordinators take a port, and the harnesses are
  programs over it.  A coroutine runs between its awaits without interruption: the consumer takes what happens at each
  await (\<open>at_interrupt\<close>: a timeout, a cancellation, an error) as an argument, and a relay round is the step relation \<open>relay_step\<close>
  with one rule for each stretch between awaits, so that its traces are the schedules of the workers.

  \<^bold>\<open>What is shown.\<close>
  \<^item> Stores: invariants over all runs; completed results are replayed, superseded tokens, leases, claims and
    batch leases are stale for ever, fencing tokens grow, settled messages and receipts stay settled, event logs are
    gapless, purges remove only what is due, oldest first.
  \<^item> Coordinators: dispatch and job rounds settle every claim as the handler's outcome says; checkpoint and batch coordinators are all-or-nothing
    over a transaction boundary; projections are replays of the log and rebuilds reach their
    watermark in a bounded number of rounds; retained batch items are not mutated again.
  \<^item> Asynchronous runtime: the effects of a consumer are those of the completed messages, one per message, whatever is
    interrupted; what it tells the transport is true; the relay records only confirmed messages as delivered, publishes a message at most
    once a round, accounts for every claim and keeps to its retry budget; an uncertain message is parked until it is resolved.
  \<^item> Codecs: exact documents, sync documents, timestamps, trace contexts and base64url survive the wire; what a decoder
    accepts is valid; decoding does not depend on how the bytes are cut; a sealed page verifies, its digest binds its content, and a
    requested integrity is never downgraded.
  \<^item> Pure code: the JSON validator accepts exactly the described values, the retry delay is the capped exponential,
    the topological order and the closure are correct and independent of the iteration order of sets.
  \<^item> Errors: theorems that describe behaviour which the code probably does not intend (recompletion of
    inbox messages, rebuilds beyond the capacity, retry of an exhausted job, the lost uncertain mark of a batch, oversized messages that hide the others, uncertainty without a reason, negotiated limits
    that the encoder ignores, cursors whose expiration is rounded into the year 10000).
  \<^item> Cursors: an issued cursor is accepted in its context until it expires, whatever is accepted is authentic, and in one
    context only.

  \<^bold>\<open>Parameters and hypotheses.\<close>  UUIDs, clock readings, handlers, mutations, digests, the RFC 8785 serializer, HMAC, the AEAD cipher, the parser of \<open>json\<close>,
  iteration orders of sets, the texts of numbers in \<open>json.dumps\<close>, the answers of a publisher and transaction boundaries are arguments.  What a theorem needs of them is a named
  hypothesis (\<open>transactional\<close>, \<open>batch_transactional\<close>, \<open>iterates\<close>, \<open>canonical_reader\<close>, \<open>aead_inverse\<close>, freshness of a drawn UUID), each satisfied by a
  concrete instance in the witness of the theorem.

  \<^bold>\<open>Bounds.\<close>  Instants are integers of microseconds with the range check of \<open>datetime\<close> written out
  (\<open>dt_plus\<close>).  No model uses fuel: all loops of the source are structural or have a termination proof.

  \<^bold>\<open>Not modelled.\<close>  Texts of exceptions; checks of dynamic types that typing discharges (\<open>isinstance\<close>); the locks themselves;
  characters beyond 8 bits (except in \<open>Wire\<close> and \<open>SyncWire\<close>, whose strings are all of Unicode); for that reason the shape validation of
  \<open>sync/wire.py\<close>, which decodes contracts, is a parameter of \<open>SyncWire\<close>; \<open>RecursionError\<close>; conversions of exact numbers to floats and decimals; rounding of floating-point numbers in the retry policy (reals); the database adapters (Django, SQLAlchemy), whose meaning is
  that of the object-relational mappers; transports, web frameworks, logging and test doubles; the other
  asynchronous twins, which delegate to the modelled stores; the queue of the consumer and the command and query runtimes; cryptographic primitives.
\<close>

end
